(* ===== verification/Prelude.thy ===== *)
theory Prelude imports Main "HOL-Library.Word" begin

text \<open>
  Shared vocabulary of the kernel models: the widths of the i386 C types, the error numbers
  the modelled system calls return, signed 32-bit wrap-around, and generic facts on words and
  lists used by several components.
\<close>

unbundle bit_operations_syntax

section \<open>C types\<close>

type_synonym u8 = "8 word"
type_synonym u16 = "16 word"
type_synonym u32 = "32 word"

text \<open>
  The error numbers of \<open>sys/errno.h\<close> that the modelled code returns. A C function that
  returns \<open>0\<close> or an error number is modelled with \<open>errno option\<close>, \<open>None\<close> for \<open>0\<close>, or
  with \<open>errno + 'a\<close> when it also delivers a value through a pointer argument.
\<close>

datatype errno =
    EPERM | ENOENT | EINTR | E2BIG | EBADF | EAGAIN | EACCES | EFAULT | EEXIST
  | EINVAL | EFBIG | ENOSPC | ERANGE | ENOMSG | EIDRM | EDEADLK | ENOLCK | EOVERFLOW

text \<open>Signed 32-bit arithmetic: the value an \<open>int\<close> or \<open>long\<close> of the i386 holds after wrap-around.\<close>

definition s32 :: "int \<Rightarrow> int" where
  "s32 x = signed_take_bit 31 x"

text \<open>Signed 16-bit values: what a \<open>short\<close> holds.\<close>

definition s16 :: "int \<Rightarrow> int" where
  "s16 x = signed_take_bit 15 x"

section \<open>Proof collections\<close>

named_theorems word_nat \<open>conversions of word facts to natural numbers\<close>

lemma s32_id: "- (2 ^ 31) \<le> x \<Longrightarrow> x < 2 ^ 31 \<Longrightarrow> s32 x = x"
  unfolding s32_def by (simp add: signed_take_bit_int_eq_self)

lemma s16_id: "- (2 ^ 15) \<le> x \<Longrightarrow> x < 2 ^ 15 \<Longrightarrow> s16 x = x"
  unfolding s16_def by (simp add: signed_take_bit_int_eq_self)

lemma s32_range: "- (2 ^ 31) \<le> s32 x" "s32 x < 2 ^ 31"
  unfolding s32_def
  using signed_take_bit_int_greater_eq_minus_exp [of 31 x] signed_take_bit_int_less_exp [of 31 x]
  by simp_all

section \<open>Words as natural numbers\<close>

lemma unat_add_nowrap [word_nat]:
  fixes a b :: "'a::len word"
  assumes "unat a + unat b < 2 ^ LENGTH('a)"
  shows "unat (a + b) = unat a + unat b"
  using assms by (simp add: unat_word_ariths)

lemma unat_sub_le [word_nat]:
  fixes a b :: "'a::len word"
  assumes "b \<le> a"
  shows "unat (a - b) = unat a - unat b"
  using assms by (rule unat_sub)

lemma unat_u32_less [simp]: "unat (w :: u32) < 4294967296"
  using unsigned_less [of w] by simp

lemma unat_u16_less [simp]: "unat (w :: u16) < 65536"
  using unsigned_less [of w] by simp

lemma unat_u8_less [simp]: "unat (w :: u8) < 256"
  using unsigned_less [of w] by simp

lemma word_pos_iff [word_nat]: "(w :: 'a::len word) \<noteq> 0 \<longleftrightarrow> 0 < unat w"
  by (simp add: unat_gt_0)

lemma and_push_bit_1: "(w :: 'a::len word) AND push_bit n 1 \<noteq> 0 \<longleftrightarrow> bit w n"
proof -
  have "w AND push_bit n 1 = (if bit w n then push_bit n 1 else 0)"
    by (rule bit_word_eqI) (auto simp: bit_simps)
  moreover have "push_bit n (1 :: 'a word) \<noteq> 0" if "n < LENGTH('a)"
  proof -
    have "bit (push_bit n (1 :: 'a word)) n" using that by (simp add: bit_simps)
    then show ?thesis by (metis bit_0_eq bot_apply bot_bool_def)
  qed
  ultimately show ?thesis by (auto dest: bit_imp_le_length)
qed

section \<open>Lists\<close>

lemma replicate_numeral: "replicate (numeral k) x = x # replicate (pred_numeral k) x"
  by (simp add: numeral_eq_Suc)

lemma takeWhile_append_replicate:
  assumes "\<forall>x\<in>set xs. P x" and "\<not> P z"
  shows "takeWhile P (xs @ replicate k z) = xs"
    and "dropWhile P (xs @ replicate k z) = replicate k z"
  using assms by (induction xs) (cases k; auto)+

lemma takeWhile_dropWhile_split:
  assumes "\<not> P z"
  obtains xs ys where "es = xs @ ys" "takeWhile P (es @ z # r) = xs"
    "dropWhile P (es @ z # r) = ys @ z # r" "\<forall>x \<in> set xs. P x" "ys = [] \<or> \<not> P (hd ys)"
proof -
  have hd: "dropWhile P es = [] \<or> \<not> P (hd (dropWhile P es))"
    using hd_dropWhile by blast
  have stop: "\<not> P (hd zs) \<Longrightarrow> takeWhile P zs = [] \<and> dropWhile P zs = zs" for zs
    by (cases zs) auto
  have all: "\<forall>x \<in> set (takeWhile P es). P x"
    using set_takeWhileD by fast
  have "ys = [] \<or> \<not> P (hd ys) \<Longrightarrow> \<not> P (hd (ys @ z # r))" for ys
    using assms by (cases ys) auto
  then have nP: "\<not> P (hd (dropWhile P es @ z # r))" using hd .
  have "takeWhile P ((takeWhile P es @ dropWhile P es) @ z # r) = takeWhile P es"
    "dropWhile P ((takeWhile P es @ dropWhile P es) @ z # r) = dropWhile P es @ z # r"
    using all stop [OF nP] by (simp_all only: append_assoc takeWhile_append2 dropWhile_append2 append_Nil2)
  with hd all show ?thesis
    by (intro that [of "takeWhile P es" "dropWhile P es"]) simp_all
qed

lemma sum_list_update:
  fixes f :: "'a \<Rightarrow> int"
  shows "i < length xs \<Longrightarrow> (\<Sum>x\<leftarrow>xs[i := y]. f x) = (\<Sum>x\<leftarrow>xs. f x) - f (xs ! i) + f y"
  by (induction xs arbitrary: i) (auto split: nat.splits)

end
