(* ===== verification/Rmap.thy ===== *)
theory Rmap imports Prelude begin

text \<open>
  The resource map allocator of \<open>os/malloc.c\<close> (\<open>rmalloc\<close>, \<open>rmfree\<close>) on the \<open>struct map\<close>
  arrays of \<open>sys/map.h\<close>.  Slot 0 of the C array is the header (\<open>mapsize\<close>, \<open>mapwant\<close>); the
  field \<open>map_slots\<close> holds the slots from \<open>mapstart\<close> on, the terminator of size 0 and the
  unused slots behind it included.  \<open>map_wakes\<close> counts the calls of \<open>wakeprocs\<close> on the map.
  The first part translates the code; the second abstracts a map to the set of its free
  units and proves that allocation and release are set difference and union on it; the last
  states that contract as the locale \<open>extent_allocator\<close> and interprets it on the code's model.
\<close>

section \<open>State and operations\<close>

record map_ent =
  m_size :: u32
  m_addr :: u32

record rmap =
  map_slots :: "map_ent list"
  mapsize :: u32
  mapwant :: u32
  map_wakes :: nat

definition zero_ent :: map_ent where
  "zero_ent = \<lparr>m_size = 0, m_addr = 0\<rparr>"

text \<open>\<open>mapinit (X, Y)\<close> on a zeroed array of \<open>Y\<close> slots, the header among them.\<close>

definition mapinit :: "nat \<Rightarrow> rmap" where
  "mapinit y = \<lparr>map_slots = replicate (y - 1) zero_ent, mapsize = of_nat y - 2,
     mapwant = 0, map_wakes = 0\<rparr>"

text \<open>
  The \<open>do ... while\<close> loop of \<open>rmalloc\<close>: from a slot whose size became 0, copy each next slot
  down until a size of 0 has been copied.
\<close>

fun close_gap :: "map_ent list \<Rightarrow> map_ent list" where
  "close_gap (e # e' # es) =
     e' # (if m_size e' = 0 then e' # es else close_gap (e' # es))"
| "close_gap es = es"

text \<open>
  The \<open>for\<close> loop of \<open>rmalloc\<close>: the first slot that is large enough.  The result is the
  address, the new slots and whether a slot became empty (\<open>mapsize (mp)++\<close>).
\<close>

fun rmalloc_scan :: "u32 \<Rightarrow> map_ent list \<Rightarrow> (u32 \<times> map_ent list \<times> bool) option" where
  "rmalloc_scan sz [] = None"
| "rmalloc_scan sz (e # es) =
     (if m_size e = 0 then None
      else if sz \<le> m_size e then
        (let e' = e\<lparr>m_addr := m_addr e + sz, m_size := m_size e - sz\<rparr>
         in if m_size e' = 0 then Some (m_addr e, close_gap (e' # es), True)
            else Some (m_addr e, e' # es, False))
      else (case rmalloc_scan sz es of
              None \<Rightarrow> None
            | Some (a, es', full) \<Rightarrow> Some (a, e # es', full)))"

definition rmalloc :: "rmap \<Rightarrow> u32 \<Rightarrow> u32 \<times> rmap" where
  "rmalloc mp sz =
     (if sz = 0 then (0, mp)
      else case rmalloc_scan sz (map_slots mp) of
        None \<Rightarrow> (0, mp)
      | Some (a, es, full) \<Rightarrow>
          (a, mp\<lparr>map_slots := es, mapsize := (if full then mapsize mp + 1 else mapsize mp)\<rparr>))"

text \<open>The \<open>while\<close> loop of \<open>rmfree\<close> that removes a slot merged into its left neighbour.\<close>

fun squeeze :: "map_ent list \<Rightarrow> map_ent list" where
  "squeeze (e # e' # es) = (if m_size e = 0 then e # e' # es else e' # squeeze (e' # es))"
| "squeeze es = es"

text \<open>The \<open>do ... while\<close> loop of \<open>rmfree\<close> that inserts a slot and moves the rest up.\<close>

fun shift_up :: "u32 \<Rightarrow> u32 \<Rightarrow> map_ent list \<Rightarrow> map_ent list" where
  "shift_up a sz (e # es) =
     e\<lparr>m_addr := a, m_size := sz\<rparr> #
       (if m_size e = 0 then es else shift_up (m_addr e) (m_size e) es)"
| "shift_up a sz [] = []"

definition map_wakeup :: "rmap \<Rightarrow> rmap" where
  "map_wakeup mp =
     (if mapwant mp \<noteq> 0 then mp\<lparr>mapwant := 0, map_wakes := map_wakes mp + 1\<rparr> else mp)"

text \<open>
  \<open>rmfree\<close>: \<open>pre\<close> are the slots the \<open>for\<close> loop passes, \<open>bp\<close> the slot it stops at.  When no
  slot is left for a new extent the extent is lost and nobody is woken.
\<close>

definition rmfree :: "rmap \<Rightarrow> u32 \<Rightarrow> u32 \<Rightarrow> rmap" where
  "rmfree mp sz a =
     (if sz = 0 then mp
      else
        let pre = takeWhile (\<lambda>e. m_addr e \<le> a \<and> m_size e \<noteq> 0) (map_slots mp);
            suf = dropWhile (\<lambda>e. m_addr e \<le> a \<and> m_size e \<noteq> 0) (map_slots mp)
        in case suf of
          [] \<Rightarrow> mp
        | bp # rest \<Rightarrow>
            if pre \<noteq> [] \<and> m_addr (last pre) + m_size (last pre) = a then
              let p = (last pre)\<lparr>m_size := m_size (last pre) + sz\<rparr>
              in if m_addr bp \<noteq> 0 \<and> a + sz = m_addr bp then
                   map_wakeup (mp\<lparr>map_slots := butlast pre @
                       p\<lparr>m_size := m_size p + m_size bp\<rparr> # squeeze (bp # rest),
                     mapsize := mapsize mp + 1\<rparr>)
                 else map_wakeup (mp\<lparr>map_slots := butlast pre @ p # bp # rest\<rparr>)
            else if a + sz = m_addr bp \<and> m_size bp \<noteq> 0 then
              map_wakeup (mp\<lparr>map_slots := pre @
                bp\<lparr>m_addr := m_addr bp - sz, m_size := m_size bp + sz\<rparr> # rest\<rparr>)
            else if mapsize mp = 0 then mp
            else map_wakeup (mp\<lparr>map_slots := pre @ shift_up a sz (bp # rest),
                   mapsize := mapsize mp - 1\<rparr>))"

section \<open>Invariant and abstraction\<close>

definition ext_end :: "map_ent \<Rightarrow> nat" where
  "ext_end e = unat (m_addr e) + unat (m_size e)"

definition ext_units :: "map_ent \<Rightarrow> nat set" where
  "ext_units e = {unat (m_addr e) ..< ext_end e}"

text \<open>
  The extents of a map: each non-empty, away from address 0 and below the end of the address
  range, increasing and with a gap between neighbours (adjacent extents are merged).
\<close>

fun exts_ok :: "map_ent list \<Rightarrow> bool" where
  "exts_ok [] = True"
| "exts_ok (e # es) =
     (m_size e \<noteq> 0 \<and> m_addr e \<noteq> 0 \<and> ext_end e < 2 ^ 32 \<and>
      (\<forall>e' \<in> set es. ext_end e < unat (m_addr e')) \<and> exts_ok es)"

definition live :: "rmap \<Rightarrow> map_ent list" where
  "live mp = takeWhile (\<lambda>e. m_size e \<noteq> 0) (map_slots mp)"

definition rmap_ok :: "rmap \<Rightarrow> bool" where
  "rmap_ok mp \<longleftrightarrow> exts_ok (live mp) \<and>
     map_slots mp = live mp @ replicate (unat (mapsize mp) + 1) zero_ent \<and>
     length (map_slots mp) < 2 ^ 32"

definition free_units :: "rmap \<Rightarrow> nat set" where
  "free_units mp = (\<Union>e \<in> set (live mp). ext_units e)"

subsection \<open>Facts on extent lists\<close>

lemma zero_ent_simps [simp]: "m_size zero_ent = 0" "m_addr zero_ent = 0"
  by (simp_all add: zero_ent_def)

lemma exts_ok_append:
  "exts_ok (xs @ ys) \<longleftrightarrow>
     exts_ok xs \<and> exts_ok ys \<and> (\<forall>x \<in> set xs. \<forall>y \<in> set ys. ext_end x < unat (m_addr y))"
  by (induction xs) auto

lemma exts_ok_memD:
  assumes "exts_ok es" and "e \<in> set es"
  shows "m_size e \<noteq> 0" "m_addr e \<noteq> 0" "ext_end e < 2 ^ 32"
  using assms by (induction es) auto

lemma live_append:
  assumes "map_slots mp = xs @ replicate (Suc k) zero_ent" and "exts_ok xs"
  shows "live mp = xs"
proof -
  have "\<forall>e \<in> set xs. m_size e \<noteq> 0"
    using exts_ok_memD(1) [OF assms(2)] by blast
  then show ?thesis
    unfolding live_def assms(1) by (intro takeWhile_append_replicate(1)) auto
qed

lemma rmap_okI:
  assumes "exts_ok xs" and "map_slots mp = xs @ replicate (Suc k) zero_ent"
    and "unat (mapsize mp) = k" and "length xs + Suc k < 2 ^ 32"
  shows "rmap_ok mp" and "live mp = xs"
proof -
  show l: "live mp = xs" by (rule live_append [OF assms(2,1)])
  show "rmap_ok mp" using assms by (simp add: rmap_ok_def l)
qed

lemma rmap_okD:
  assumes "rmap_ok mp"
  shows "exts_ok (live mp)"
    and "map_slots mp = live mp @ zero_ent # replicate (unat (mapsize mp)) zero_ent"
    and "length (live mp) + Suc (unat (mapsize mp)) < 2 ^ 32"
proof -
  have slots: "map_slots mp = live mp @ replicate (unat (mapsize mp) + 1) zero_ent"
    and len: "length (map_slots mp) < 2 ^ 32" and ok: "exts_ok (live mp)"
    using assms by (auto simp: rmap_ok_def)
  show "exts_ok (live mp)" by (rule ok)
  show "map_slots mp = live mp @ zero_ent # replicate (unat (mapsize mp)) zero_ent"
    using slots by simp
  have "length (map_slots mp) = length (live mp) + Suc (unat (mapsize mp))"
    by (subst slots) simp
  with len show "length (live mp) + Suc (unat (mapsize mp)) < 2 ^ 32" by simp
qed

lemma close_gap_live:
  "\<forall>e \<in> set es. m_size e \<noteq> 0 \<Longrightarrow>
     close_gap (e0 # es @ zero_ent # r) = es @ zero_ent # zero_ent # r"
  by (induction es arbitrary: e0) auto

lemma squeeze_live:
  "m_size e0 \<noteq> 0 \<Longrightarrow> \<forall>e \<in> set es. m_size e \<noteq> 0 \<Longrightarrow>
     squeeze (e0 # es @ zero_ent # r) = es @ zero_ent # zero_ent # r"
  by (induction es arbitrary: e0) (auto, cases r, auto)

lemma shift_up_live:
  "\<forall>e \<in> set es. m_size e \<noteq> 0 \<Longrightarrow>
     shift_up a sz (es @ zero_ent # r) = \<lparr>m_size = sz, m_addr = a\<rparr> # es @ r"
  by (induction es arbitrary: a sz) (auto simp: zero_ent_def)

section \<open>Allocation\<close>

lemma rmalloc_scan_None:
  assumes "\<forall>e \<in> set es. m_size e \<noteq> 0"
  shows "rmalloc_scan sz (es @ zero_ent # r) = None \<longleftrightarrow> (\<forall>e \<in> set es. m_size e < sz)"
  using assms by (induction es) (auto simp: Let_def not_le split: option.splits)

lemma rmalloc_scan_Some:
  assumes "rmalloc_scan sz (es @ zero_ent # r) = Some (a, es', full)"
    and "\<forall>e \<in> set es. m_size e \<noteq> 0"
  obtains xs e ys where "es = xs @ e # ys" "a = m_addr e" "sz \<le> m_size e"
    "\<forall>x \<in> set xs. m_size x < sz"
    "full \<longleftrightarrow> m_size e = sz"
    "es' = (if m_size e = sz then xs @ ys @ zero_ent # zero_ent # r
            else xs @ e\<lparr>m_addr := m_addr e + sz, m_size := m_size e - sz\<rparr> # ys @ zero_ent # r)"
  using assms
proof (induction es arbitrary: es' thesis)
  case Nil
  then show ?case by simp
next
  case (Cons e es)
  show ?case
  proof (cases "sz \<le> m_size e")
    case True
    show ?thesis
    proof (rule Cons.prems(1) [of "[]" e es])
      show "es' = (if m_size e = sz then [] @ es @ zero_ent # zero_ent # r
          else [] @ e\<lparr>m_addr := m_addr e + sz, m_size := m_size e - sz\<rparr> # es @ zero_ent # r)"
        using Cons.prems(2,3) True
        by (auto simp: Let_def close_gap_live split: if_splits)
    qed (use Cons.prems(2,3) True in \<open>auto simp: Let_def split: if_splits\<close>)
  next
    case False
    then obtain es1 where es1: "rmalloc_scan sz (es @ zero_ent # r) = Some (a, es1, full)"
      and es': "es' = e # es1"
      using Cons.prems(2,3) by (auto split: option.splits)
    obtain xs f ys where "es = xs @ f # ys" "a = m_addr f" "sz \<le> m_size f"
      "\<forall>x \<in> set xs. m_size x < sz" "full \<longleftrightarrow> m_size f = sz"
      "es1 = (if m_size f = sz then xs @ ys @ zero_ent # zero_ent # r
            else xs @ f\<lparr>m_addr := m_addr f + sz, m_size := m_size f - sz\<rparr> # ys @ zero_ent # r)"
      using Cons.IH [OF _ es1] Cons.prems(3) by auto
    then show ?thesis
      using False es' by (intro Cons.prems(1) [of "e # xs" f ys]) (auto simp: not_le)
  qed
qed

text \<open>Cutting \<open>sz\<close> units off the front of an extent.\<close>

lemma ext_cut:
  assumes "sz \<le> m_size e" and "ext_end e < 2 ^ 32"
  defines "e' \<equiv> e\<lparr>m_addr := m_addr e + sz, m_size := m_size e - sz\<rparr>"
  shows "unat (m_addr e') = unat (m_addr e) + unat sz" "ext_end e' = ext_end e"
    "unat (m_addr e) + unat sz \<le> ext_end e"
proof -
  have le: "unat sz \<le> unat (m_size e)" using assms(1) by (simp add: word_le_nat_alt)
  show addr: "unat (m_addr e') = unat (m_addr e) + unat sz"
    using le assms(2) by (simp add: e'_def ext_end_def word_nat)
  show "ext_end e' = ext_end e"
    using le addr assms(1) by (simp add: ext_end_def) (simp add: e'_def word_nat)
  show "unat (m_addr e) + unat sz \<le> ext_end e"
    using le by (simp add: ext_end_def)
qed

lemma ext_units_split:
  assumes "exts_ok (xs @ e # ys)" and "u \<in> ext_units x" and "x \<in> set xs \<union> set ys"
  shows "u \<notin> ext_units e"
  using assms by (auto simp: exts_ok_append ext_units_def)

lemma ext_endI: "m_size e \<noteq> 0 \<Longrightarrow> unat (m_addr e) < ext_end e"
  by (simp add: ext_end_def word_pos_iff)

text \<open>
  What a successful allocation does to the state: the invariant holds again, the block was
  free and is not free any more, and it is the first extent that is large enough.
\<close>

lemma rmalloc_some:
  assumes ok: "rmap_ok mp" and r: "rmalloc mp sz = (a, mp')" and a: "a \<noteq> 0"
  shows "rmap_ok mp'"
    and "{unat a ..< unat a + unat sz} \<subseteq> free_units mp"
    and "free_units mp' = free_units mp - {unat a ..< unat a + unat sz}"
    and "unat a + unat sz < 2 ^ 32"
    and "sz \<noteq> 0"
    and "\<forall>e \<in> set (live mp). m_addr e < a \<longrightarrow> m_size e < sz"
    and "mapsize mp' \<noteq> 0 \<or> (\<exists>e \<in> set (live mp'). unat (m_addr e) = unat a + unat sz)"
proof -
  let ?L = "live mp" and ?k = "unat (mapsize mp)"
  note L = rmap_okD [OF ok]
  have nz: "\<forall>e \<in> set ?L. m_size e \<noteq> 0" using exts_ok_memD(1) [OF L(1)] by blast
  show sz: "sz \<noteq> 0" using r a by (auto simp: rmalloc_def split: if_splits)
  obtain es' full where scan: "rmalloc_scan sz (?L @ zero_ent # replicate ?k zero_ent) = Some (a, es', full)"
    and mp': "mp' = mp\<lparr>map_slots := es', mapsize := (if full then mapsize mp + 1 else mapsize mp)\<rparr>"
    using r a sz by (subst (asm) rmalloc_def, subst (asm) L(2)) (auto split: option.splits if_splits)
  obtain xs e ys where es: "?L = xs @ e # ys" and ae: "a = m_addr e" and le: "sz \<le> m_size e"
    and fst: "\<forall>x \<in> set xs. m_size x < sz" and full: "full \<longleftrightarrow> m_size e = sz"
    and es': "es' = (if m_size e = sz then xs @ ys @ zero_ent # zero_ent # replicate ?k zero_ent
        else xs @ e\<lparr>m_addr := m_addr e + sz, m_size := m_size e - sz\<rparr> # ys @ zero_ent # replicate ?k zero_ent)"
    using rmalloc_scan_Some [OF scan nz] by metis
  let ?e' = "e\<lparr>m_addr := m_addr e + sz, m_size := m_size e - sz\<rparr>"
  have okl: "exts_ok (xs @ e # ys)" using L(1) es by simp
  have ee: "ext_end e < 2 ^ 32" using exts_ok_memD(3) [OF okl] by simp
  note cut = ext_cut [OF le ee]
  show "unat a + unat sz < 2 ^ 32" using cut(3) ee ae by simp
  have sub: "{unat a ..< unat a + unat sz} \<subseteq> ext_units e" using cut(3) ae by (auto simp: ext_units_def)
  then show "{unat a ..< unat a + unat sz} \<subseteq> free_units mp" by (auto simp: free_units_def es)
  have others: "\<forall>x \<in> set xs \<union> set ys. ext_units x \<inter> {unat a ..< unat a + unat sz} = {}"
    using ext_units_split [OF okl] sub by blast
  show "\<forall>e \<in> set ?L. m_addr e < a \<longrightarrow> m_size e < sz"
    using okl fst by (auto simp: es ae exts_ok_append ext_end_def word_less_nat_alt)
  have "rmap_ok mp' \<and> free_units mp' = free_units mp - {unat a ..< unat a + unat sz} \<and>
      (mapsize mp' \<noteq> 0 \<or> (\<exists>e \<in> set (live mp'). unat (m_addr e) = unat a + unat sz))"
    proof (cases "m_size e = sz")
      case True
      have okl': "exts_ok (xs @ ys)" using okl by (auto simp: exts_ok_append)
      have k: "unat (mapsize mp + 1) = Suc ?k"
        using L(3) es by (simp add: word_nat)
      have sl: "map_slots mp' = (xs @ ys) @ replicate (Suc (Suc ?k)) zero_ent"
        using True full by (simp add: mp' es')
      have ok': "rmap_ok mp'" and lv': "live mp' = xs @ ys"
        using rmap_okI [OF okl' sl] k L(3) es True full by (simp_all add: mp')
      have "{unat a ..< unat a + unat sz} = ext_units e"
        using True ae by (simp add: ext_units_def ext_end_def)
      moreover have "mapsize mp' \<noteq> 0" using k True full by (auto simp: mp')
      ultimately show ?thesis using ok' others by (auto simp: free_units_def lv' es)
    next
      case False
      have lt: "sz < m_size e" using False le by simp
      have okl': "exts_ok (xs @ ?e' # ys)"
        using okl lt cut(1,2) by (auto simp: exts_ok_append word_nat)
      have sl: "map_slots mp' = (xs @ ?e' # ys) @ replicate (Suc ?k) zero_ent"
        using False by (simp add: mp' es')
      have ok': "rmap_ok mp'" and lv': "live mp' = xs @ ?e' # ys"
        using rmap_okI [OF okl' sl] L(3) es False full by (simp_all add: mp')
      have "ext_units ?e' = ext_units e - {unat a ..< unat a + unat sz}"
        using cut ae by (auto simp: ext_units_def)
      then show ?thesis using ok' others cut(1) ae by (auto simp: free_units_def lv' es)
    qed
  then show "rmap_ok mp'" and "free_units mp' = free_units mp - {unat a ..< unat a + unat sz}"
    and "mapsize mp' \<noteq> 0 \<or> (\<exists>e \<in> set (live mp'). unat (m_addr e) = unat a + unat sz)" by blast+
qed

text \<open>A failed allocation leaves the map alone and means that no extent is large enough.\<close>

lemma rmalloc_none:
  assumes ok: "rmap_ok mp" and r: "rmalloc mp sz = (0, mp')" and sz: "sz \<noteq> 0"
  shows "mp' = mp" and "\<forall>e \<in> set (live mp). m_size e < sz"
proof -
  let ?L = "live mp" and ?k = "unat (mapsize mp)"
  note L = rmap_okD [OF ok]
  have nz: "\<forall>e \<in> set ?L. m_size e \<noteq> 0" using exts_ok_memD(1) [OF L(1)] by blast
  have "rmalloc_scan sz (map_slots mp) = None"
  proof (rule ccontr)
    assume "rmalloc_scan sz (map_slots mp) \<noteq> None"
    then obtain a es' full where scan: "rmalloc_scan sz (?L @ zero_ent # replicate ?k zero_ent) = Some (a, es', full)"
      by (subst (asm) L(2)) auto
    then have "a = 0" using r sz by (subst (asm) rmalloc_def, subst (asm) L(2)) auto
    moreover obtain xs e ys where "?L = xs @ e # ys" and "a = m_addr e"
      using rmalloc_scan_Some [OF scan nz] by metis
    ultimately show False using exts_ok_memD(2) [OF L(1), of e] by simp
  qed
  then show "mp' = mp" and "\<forall>e \<in> set ?L. m_size e < sz"
    using r sz rmalloc_scan_None [OF nz, of sz "replicate ?k zero_ent"] L(2)
    by (auto simp: rmalloc_def)
qed

section \<open>Release\<close>

lemma takeWhile_exts:
  fixes a :: u32
  assumes "exts_ok es"
  obtains xs ys where "es = xs @ ys"
    "takeWhile (\<lambda>e. m_addr e \<le> a \<and> m_size e \<noteq> 0) (es @ zero_ent # r) = xs"
    "dropWhile (\<lambda>e. m_addr e \<le> a \<and> m_size e \<noteq> 0) (es @ zero_ent # r) = ys @ zero_ent # r"
    "\<forall>x \<in> set xs. m_addr x \<le> a" "\<forall>y \<in> set ys. a < m_addr y"
proof -
  let ?P = "\<lambda>e. m_addr e \<le> a \<and> m_size e \<noteq> 0"
  obtain xs ys where es: "es = xs @ ys" and tw: "takeWhile ?P (es @ zero_ent # r) = xs"
    and dw: "dropWhile ?P (es @ zero_ent # r) = ys @ zero_ent # r"
    and xs: "\<forall>x \<in> set xs. ?P x" and ys: "ys = [] \<or> \<not> ?P (hd ys)"
    by (rule takeWhile_dropWhile_split [of ?P zero_ent es r]) simp
  have "\<forall>y \<in> set ys. a < m_addr y"
  proof (cases ys)
    case (Cons y ys')
    have "a < m_addr y" using ys exts_ok_memD(1) [OF assms, of y] es Cons by (auto simp: not_le)
    moreover have "\<forall>z \<in> set ys'. m_addr y \<le> m_addr z"
      using assms es Cons by (auto simp: exts_ok_append ext_end_def word_le_nat_alt)
    ultimately show ?thesis using Cons by fastforce
  qed simp
  then show ?thesis using that [OF es tw dw] xs by simp
qed

lemma map_wakeup_simps [simp]:
  "map_slots (map_wakeup mp) = map_slots mp" "mapsize (map_wakeup mp) = mapsize mp"
  by (simp_all add: map_wakeup_def)

text \<open>
  The place of a block in a list of extents: \<open>xs\<close> end at or before it, \<open>ys\<close> start at or
  after its end.
\<close>

definition block_gap :: "map_ent list \<Rightarrow> map_ent list \<Rightarrow> u32 \<Rightarrow> u32 \<Rightarrow> bool" where
  "block_gap xs ys a sz \<longleftrightarrow>
     exts_ok (xs @ ys) \<and> sz \<noteq> 0 \<and> a \<noteq> 0 \<and> unat a + unat sz < 2 ^ 32 \<and>
     (\<forall>x \<in> set xs. ext_end x \<le> unat a) \<and> (\<forall>y \<in> set ys. unat a + unat sz \<le> unat (m_addr y))"

lemma block_gap_end: "block_gap xs ys a sz \<Longrightarrow> unat (a + sz) = unat a + unat sz"
  by (simp add: block_gap_def word_nat)

lemma block_gap_left:
  assumes g: "block_gap xs ys a sz" and ne: "\<not> (xs \<noteq> [] \<and> m_addr (last xs) + m_size (last xs) = a)"
  shows "\<forall>x \<in> set xs. ext_end x < unat a"
proof (cases xs rule: rev_cases)
  case (snoc xs0 x)
  have lt: "ext_end x < 2 ^ 32" using g snoc by (auto simp: block_gap_def exts_ok_append)
  have "unat (m_addr x + m_size x) = ext_end x" using lt by (simp add: ext_end_def word_nat)
  then have "ext_end x \<noteq> unat a" using ne snoc by (metis last_snoc snoc_eq_iff_butlast word_unat_eq_iff)
  then have "ext_end x < unat a" using g snoc by (simp add: block_gap_def le_neq_implies_less)
  then show ?thesis using g snoc by (auto simp: block_gap_def exts_ok_append ext_end_def)
qed simp

lemma block_gap_right:
  assumes g: "block_gap xs ys a sz" and ne: "\<not> (ys \<noteq> [] \<and> a + sz = m_addr (hd ys))"
  shows "\<forall>y \<in> set ys. unat a + unat sz < unat (m_addr y)"
proof (cases ys)
  case (Cons y ys0)
  have "unat a + unat sz \<noteq> unat (m_addr y)"
    using ne Cons block_gap_end [OF g] by (metis list.sel(1) list.distinct(1) word_unat_eq_iff)
  then have "unat a + unat sz < unat (m_addr y)"
    using g Cons by (simp add: block_gap_def le_neq_implies_less)
  then show ?thesis using g Cons by (auto simp: block_gap_def exts_ok_append ext_end_def)
qed simp

text \<open>The block grows its left neighbour.\<close>

lemma grow_left:
  assumes g: "block_gap (xs @ [x]) ys a sz" and eq: "m_addr x + m_size x = a"
  defines "p \<equiv> x\<lparr>m_size := m_size x + sz\<rparr>"
  shows "m_addr p = m_addr x" "ext_end p = unat a + unat sz" "m_size p \<noteq> 0"
    "ext_units p = ext_units x \<union> {unat a ..< unat a + unat sz}"
proof -
  have "ext_end x < 2 ^ 32" and x: "m_size x \<noteq> 0"
    using g by (auto simp: block_gap_def exts_ok_append)
  then have end_x: "ext_end x = unat a" using eq by (auto simp: ext_end_def word_nat)
  have sz: "0 < unat sz" and top: "unat a + unat sz < 2 ^ 32"
    using g by (auto simp: block_gap_def word_pos_iff)
  have "unat (m_size x + sz) = unat (m_size x) + unat sz"
    using end_x top by (simp add: ext_end_def word_nat)
  then show p: "m_addr p = m_addr x" "ext_end p = unat a + unat sz" "m_size p \<noteq> 0"
    using end_x sz by (auto simp: p_def ext_end_def word_pos_iff)
  show "ext_units p = ext_units x \<union> {unat a ..< unat a + unat sz}"
    using p end_x ext_endI [OF x] by (auto simp: ext_units_def)
qed

text \<open>The block grows its right neighbour downwards.\<close>

lemma grow_right:
  assumes g: "block_gap xs (y # ys) a sz" and eq: "a + sz = m_addr y"
  defines "q \<equiv> y\<lparr>m_addr := m_addr y - sz, m_size := m_size y + sz\<rparr>"
  shows "m_addr q = a" "ext_end q = ext_end y" "m_size q \<noteq> 0"
    "ext_units q = {unat a ..< unat a + unat sz} \<union> ext_units y"
proof -
  have ay: "unat (m_addr y) = unat a + unat sz" using block_gap_end [OF g] eq by metis
  have y: "m_size y \<noteq> 0" "ext_end y < 2 ^ 32" and sz: "0 < unat sz"
    using g by (auto simp: block_gap_def exts_ok_append word_pos_iff)
  show q: "m_addr q = a" using eq by (simp add: q_def eq_diff_eq [symmetric])
  have "unat (m_size y + sz) = unat (m_size y) + unat sz"
    using y(2) ay by (auto simp: ext_end_def intro!: unat_add_nowrap)
  then have "unat (m_size q) = unat (m_size y) + unat sz" by (simp add: q_def)
  then show "ext_end q = ext_end y" "m_size q \<noteq> 0"
    using q ay sz by (auto simp: ext_end_def word_pos_iff)
  then show "ext_units q = {unat a ..< unat a + unat sz} \<union> ext_units y"
    using q ay ext_endI [OF y(1)] by (auto simp: ext_units_def)
qed

text \<open>Two neighbours with nothing between them become one extent.\<close>

lemma join_ext:
  assumes "ext_end p = unat (m_addr y)" "ext_end y < 2 ^ 32" "m_size p \<noteq> 0"
  defines "q \<equiv> p\<lparr>m_size := m_size p + m_size y\<rparr>"
  shows "m_addr q = m_addr p" "ext_end q = ext_end y" "m_size q \<noteq> 0"
    "ext_units q = ext_units p \<union> ext_units y"
proof -
  have "unat (m_size p + m_size y) = unat (m_size p) + unat (m_size y)"
    using assms by (auto simp: ext_end_def intro!: unat_add_nowrap)
  then show q: "m_addr q = m_addr p" "ext_end q = ext_end y" "m_size q \<noteq> 0"
    using assms by (auto simp: q_def ext_end_def word_pos_iff)
  show "ext_units q = ext_units p \<union> ext_units y"
    using q(1,2) assms(1) by (auto simp: ext_units_def ext_end_def)
qed

lemma exts_ok_replace:
  assumes "exts_ok (xs @ ms @ ys)" "m_size q \<noteq> 0" "m_addr q \<noteq> 0" "ext_end q < 2 ^ 32"
    "\<forall>x \<in> set xs. ext_end x < unat (m_addr q)" "\<forall>y \<in> set ys. ext_end q < unat (m_addr y)"
  shows "exts_ok (xs @ q # ys)"
  using assms by (auto simp: exts_ok_append)

text \<open>
  Releasing a block that is not free.  The four cases of the code: the block touches its left
  neighbour, both neighbours, its right neighbour, or none.
\<close>

definition released :: "rmap \<Rightarrow> rmap \<Rightarrow> u32 \<Rightarrow> u32 \<Rightarrow> bool" where
  "released mp mp' sz a \<longleftrightarrow>
     rmap_ok mp' \<and> free_units mp' = free_units mp \<union> {unat a ..< unat a + unat sz}"

lemma released_by:
  assumes ok: "rmap_ok mp" and l: "live mp = xs @ ms @ ys"
    and m: "map_slots mp' = xs @ q # ys @ zero_ent # replicate k zero_ent" "unat (mapsize mp') = k"
    and k: "k + 1 = unat (mapsize mp) + length ms"
    and q: "m_size q \<noteq> 0" "m_addr q \<noteq> 0" "ext_end q < 2 ^ 32"
      "\<forall>x \<in> set xs. ext_end x < unat (m_addr q)" "\<forall>y \<in> set ys. ext_end q < unat (m_addr y)"
      "ext_units q = (\<Union>e \<in> set ms. ext_units e) \<union> {unat a ..< unat a + unat sz}"
  shows "released mp mp' sz a"
proof -
  note L = rmap_okD [OF ok]
  have e: "exts_ok (xs @ q # ys)"
    by (rule exts_ok_replace [of xs ms]) (use L(1) l q in auto)
  have sl: "map_slots mp' = (xs @ q # ys) @ replicate (Suc k) zero_ent" by (simp add: m)
  have "rmap_ok mp'" "live mp' = xs @ q # ys"
    using rmap_okI [OF e sl m(2)] L(3) l k by simp_all
  then show ?thesis by (auto simp: released_def free_units_def l q(6))
qed

lemma rmfree_left:
  assumes ok: "rmap_ok mp" and l: "live mp = xs @ x # ys"
    and g: "block_gap (xs @ [x]) ys a sz" and eq: "m_addr x + m_size x = a"
    and right: "\<forall>y \<in> set ys. unat a + unat sz < unat (m_addr y)"
    and m: "map_slots mp' = xs @ x\<lparr>m_size := m_size x + sz\<rparr> # ys @ zero_ent # replicate (unat (mapsize mp)) zero_ent"
      "mapsize mp' = mapsize mp"
  shows "released mp mp' sz a"
proof -
  have "exts_ok (xs @ [x])" "m_addr x \<noteq> 0" "unat a + unat sz < 2 ^ 32"
    using g by (auto simp: block_gap_def exts_ok_append)
  then show ?thesis
    by (intro released_by [of mp xs "[x]" ys mp' _ "unat (mapsize mp)"])
      (use ok l m right grow_left [OF g eq] in \<open>auto simp: exts_ok_append\<close>)
qed

lemma rmfree_both:
  assumes ok: "rmap_ok mp" and l: "live mp = xs @ x # y # ys"
    and g: "block_gap (xs @ [x]) (y # ys) a sz"
    and eq: "m_addr x + m_size x = a" "a + sz = m_addr y"
    and m: "map_slots mp' = xs @ x\<lparr>m_size := m_size x + sz + m_size y\<rparr> # ys @
        zero_ent # zero_ent # replicate (unat (mapsize mp)) zero_ent"
      "mapsize mp' = mapsize mp + 1"
  shows "released mp mp' sz a"
proof -
  let ?p = "x\<lparr>m_size := m_size x + sz\<rparr>"
  note p = grow_left [OF g eq(1)]
  have facts: "exts_ok (xs @ [x])" "m_addr x \<noteq> 0" "ext_end y < 2 ^ 32" "\<forall>z \<in> set ys. ext_end y < unat (m_addr z)"
    using g by (auto simp: block_gap_def exts_ok_append)
  have ay: "ext_end ?p = unat (m_addr y)" using p(2) block_gap_end [OF g] eq(2) by metis
  have k: "unat (mapsize mp + 1) = Suc (unat (mapsize mp))"
    using rmap_okD(3) [OF ok] l by (simp add: word_nat)
  show ?thesis
    by (intro released_by [of mp xs "[x, y]" ys mp' "?p\<lparr>m_size := m_size ?p + m_size y\<rparr>" "Suc (unat (mapsize mp))"])
      (use ok l m k facts p join_ext [OF ay facts(3) p(3)] in \<open>auto simp: exts_ok_append\<close>)
qed

lemma rmfree_right:
  assumes ok: "rmap_ok mp" and l: "live mp = xs @ y # ys"
    and g: "block_gap xs (y # ys) a sz" and eq: "a + sz = m_addr y"
    and left: "\<forall>x \<in> set xs. ext_end x < unat a"
    and m: "map_slots mp' = xs @ y\<lparr>m_addr := m_addr y - sz, m_size := m_size y + sz\<rparr> # ys @
        zero_ent # replicate (unat (mapsize mp)) zero_ent"
      "mapsize mp' = mapsize mp"
  shows "released mp mp' sz a"
proof -
  define q where "q = y\<lparr>m_addr := m_addr y - sz, m_size := m_size y + sz\<rparr>"
  have "a \<noteq> 0" "ext_end y < 2 ^ 32" "\<forall>z \<in> set ys. ext_end y < unat (m_addr z)"
    using g by (auto simp: block_gap_def exts_ok_append)
  then show ?thesis
    by (intro released_by [of mp xs "[y]" ys mp' q "unat (mapsize mp)"])
      (use ok l m [folded q_def] left grow_right [OF g eq, folded q_def] in auto)
qed

lemma rmfree_new:
  assumes ok: "rmap_ok mp" and l: "live mp = xs @ ys" and g: "block_gap xs ys a sz"
    and left: "\<forall>x \<in> set xs. ext_end x < unat a"
    and right: "\<forall>y \<in> set ys. unat a + unat sz < unat (m_addr y)"
    and size: "mapsize mp \<noteq> 0"
    and m: "map_slots mp' = xs @ \<lparr>m_size = sz, m_addr = a\<rparr> # ys @ replicate (unat (mapsize mp)) zero_ent"
      "mapsize mp' = mapsize mp - 1"
  shows "released mp mp' sz a"
proof -
  obtain k where k: "unat (mapsize mp) = Suc k" "unat (mapsize mp - 1) = k"
    using size by (metis unat_eq_zero not0_implies_Suc unat_minus_one diff_Suc_1)
  have "a \<noteq> 0" "sz \<noteq> 0" "unat a + unat sz < 2 ^ 32"
    using g by (auto simp: block_gap_def)
  then show ?thesis
    by (intro released_by [of mp xs "[]" ys mp' _ k])
      (use ok l m left right k in \<open>auto simp: ext_units_def ext_end_def\<close>)
qed

lemma block_gap_of_split:
  assumes ok: "exts_ok (xs @ ys)" and sz: "sz \<noteq> 0" and a: "a \<noteq> 0" and top: "unat a + unat sz < 2 ^ 32"
    and disj: "{unat a ..< unat a + unat sz} \<inter> (\<Union>e \<in> set (xs @ ys). ext_units e) = {}"
    and xa: "\<forall>x \<in> set xs. m_addr x \<le> a" and ya: "\<forall>y \<in> set ys. a < m_addr y"
  shows "block_gap xs ys a sz"
proof -
  have szp: "0 < unat sz" using sz by (simp add: word_nat)
  have dj: "\<And>e. e \<in> set xs \<union> set ys \<Longrightarrow> {unat a ..< unat a + unat sz} \<inter> ext_units e = {}"
    using disj by auto
  have "ext_end x \<le> unat a" if x: "x \<in> set xs" for x
  proof -
    have "unat (m_addr x) \<le> unat a" using xa x by (simp add: word_le_nat_alt)
    moreover have "unat a \<notin> ext_units x" using dj [of x] x szp by fastforce
    ultimately show ?thesis by (auto simp: ext_units_def)
  qed
  moreover have "unat a + unat sz \<le> unat (m_addr y)" if y: "y \<in> set ys" for y
  proof -
    have "unat a < unat (m_addr y)" using ya y by (simp add: word_less_nat_alt)
    moreover have "unat (m_addr y) \<in> ext_units y"
      using exts_ok_memD(1) [OF ok, of y] y by (simp add: ext_units_def ext_endI)
    then have "unat (m_addr y) \<notin> {unat a ..< unat a + unat sz}" using dj [of y] y by blast
    ultimately show ?thesis by simp
  qed
  ultimately show ?thesis using assms(1-4) by (simp add: block_gap_def)
qed

lemma rmfree_cases:
  assumes ok: "rmap_ok mp" and sz: "sz \<noteq> 0" and a: "a \<noteq> 0" and top: "unat a + unat sz < 2 ^ 32"
    and disj: "{unat a ..< unat a + unat sz} \<inter> free_units mp = {}"
  shows "released mp (rmfree mp sz a) sz a \<or>
    mapsize mp = 0 \<and> rmfree mp sz a = mp \<and>
    (\<forall>e \<in> set (live mp). ext_end e \<noteq> unat a \<and> unat (m_addr e) \<noteq> unat a + unat sz)"
proof -
  let ?k = "unat (mapsize mp)"
  note L = rmap_okD [OF ok]
  obtain xs ys where es: "live mp = xs @ ys"
    and tw': "takeWhile (\<lambda>e. m_addr e \<le> a \<and> m_size e \<noteq> 0) (live mp @ zero_ent # replicate ?k zero_ent) = xs"
    and dw': "dropWhile (\<lambda>e. m_addr e \<le> a \<and> m_size e \<noteq> 0) (live mp @ zero_ent # replicate ?k zero_ent) =
        ys @ zero_ent # replicate ?k zero_ent"
    and xa: "\<forall>x \<in> set xs. m_addr x \<le> a" and ya: "\<forall>y \<in> set ys. a < m_addr y"
    by (rule takeWhile_exts [OF L(1)])
  note tw = tw' [folded L(2)] and dw = dw' [folded L(2)]
  have okl: "exts_ok (xs @ ys)" using L(1) es by simp
  have g: "block_gap xs ys a sz"
    using disj by (intro block_gap_of_split [OF okl sz a top _ xa ya]) (simp add: free_units_def es)
  have ynz: "\<forall>y \<in> set ys. m_addr y \<noteq> 0 \<and> m_size y \<noteq> 0" using exts_ok_memD [OF okl] by simp
  define touch_l touch_r where "touch_l \<longleftrightarrow> xs \<noteq> [] \<and> m_addr (last xs) + m_size (last xs) = a"
    and "touch_r \<longleftrightarrow> ys \<noteq> [] \<and> a + sz = m_addr (hd ys)"
  consider (both) xs0 x y ys0 where "touch_l" "touch_r" "xs = xs0 @ [x]" "ys = y # ys0"
    | (left) xs0 x where "touch_l" "\<not> touch_r" "xs = xs0 @ [x]"
    | (right) y ys0 where "\<not> touch_l" "touch_r" "ys = y # ys0"
    | (new) "\<not> touch_l" "\<not> touch_r"
    unfolding touch_l_def touch_r_def by (metis append_butlast_last_id list.collapse)
  then show ?thesis
  proof cases
    case both
    have sq: "squeeze (y # ys0 @ zero_ent # replicate ?k zero_ent) =
        ys0 @ zero_ent # zero_ent # replicate ?k zero_ent"
      using ynz both by (intro squeeze_live) auto
    show ?thesis
      by (rule disjI1, rule rmfree_both [OF ok, of xs0 x y ys0])
        (use g sz both sq ynz in \<open>auto simp: es rmfree_def Let_def tw dw touch_l_def touch_r_def\<close>)
  next
    case left
    obtain bp rest where bp: "ys @ zero_ent # replicate ?k zero_ent = bp # rest"
      and nt: "\<not> (m_addr bp \<noteq> 0 \<and> a + sz = m_addr bp)"
      using left(2) by (cases ys) (auto simp: touch_r_def)
    have eq: "rmfree mp sz a = map_wakeup
        (mp\<lparr>map_slots := xs0 @ x\<lparr>m_size := m_size x + sz\<rparr> # bp # rest\<rparr>)"
      using left(1,3) nt sz by (auto simp: rmfree_def Let_def tw dw bp touch_l_def)
    show ?thesis
      by (rule disjI1, rule rmfree_left [OF ok, of xs0 x ys])
        (use g left block_gap_right [OF g] eq bp in \<open>simp_all add: es touch_l_def touch_r_def\<close>)
  next
    case right
    show ?thesis
      by (rule disjI1, rule rmfree_right [OF ok, of xs y ys0])
        (use g sz right block_gap_left [OF g] ynz in
          \<open>auto simp: es rmfree_def Let_def tw dw touch_l_def touch_r_def\<close>)
  next
    case new
    have su: "shift_up a sz (ys @ zero_ent # replicate ?k zero_ent) = \<lparr>m_size = sz, m_addr = a\<rparr> # ys @ replicate ?k zero_ent"
      using ynz by (intro shift_up_live) auto
    obtain bp rest where bp: "ys @ zero_ent # replicate ?k zero_ent = bp # rest"
      and nt: "\<not> (a + sz = m_addr bp \<and> m_size bp \<noteq> 0)"
      using new(2) by (cases ys) (auto simp: touch_r_def)
    have eq: "rmfree mp sz a = (if mapsize mp = 0 then mp else map_wakeup
        (mp\<lparr>map_slots := xs @ shift_up a sz (bp # rest), mapsize := mapsize mp - 1\<rparr>))"
    proof -
      have "(xs \<noteq> [] \<and> m_addr (last xs) + m_size (last xs) = a) = False"
        "(a + sz = m_addr bp \<and> m_size bp \<noteq> 0) = False" "(sz = 0) = False"
        using new(1) nt sz by (simp_all only: touch_l_def)
      then show ?thesis by (simp only: rmfree_def Let_def tw dw bp list.case if_False)
    qed
    show ?thesis
    proof (cases "mapsize mp = 0")
      case True
      have "\<forall>e \<in> set (live mp). ext_end e \<noteq> unat a \<and> unat (m_addr e) \<noteq> unat a + unat sz"
      proof
        fix e assume "e \<in> set (live mp)"
        moreover have "ext_end e \<noteq> unat a \<and> unat (m_addr e) \<noteq> unat a + unat sz" if "e \<in> set xs"
          using block_gap_left [OF g] new(1) that exts_ok_memD(1) [OF okl, of e]
          by (fastforce simp: touch_l_def ext_end_def)
        moreover have "ext_end e \<noteq> unat a \<and> unat (m_addr e) \<noteq> unat a + unat sz" if "e \<in> set ys"
          using block_gap_right [OF g] new(2) that exts_ok_memD(1) [OF okl, of e]
          by (fastforce simp: touch_r_def ext_end_def)
        ultimately show "ext_end e \<noteq> unat a \<and> unat (m_addr e) \<noteq> unat a + unat sz"
          by (auto simp: es)
      qed
      then show ?thesis using True eq by simp
    next
      case False
      show ?thesis
        by (rule disjI1, rule rmfree_new [OF ok es g block_gap_left [OF g] block_gap_right [OF g] False])
          (use new eq su bp False in \<open>simp_all add: touch_l_def touch_r_def\<close>)
    qed
  qed
qed

section \<open>The allocator's contract\<close>

text \<open>
  What the clients of a resource map rely on (the semaphore table and the message pool): a
  block is a base address and a number of units.  \<open>holds\<close> says that a client's blocks are well
  formed, pairwise disjoint and outside the free units.
\<close>

definition block :: "u32 \<Rightarrow> u32 \<Rightarrow> nat set" where
  "block a n = {unat a ..< unat a + unat n}"

definition block_wf :: "u32 \<times> u32 \<Rightarrow> bool" where
  "block_wf b \<longleftrightarrow> fst b \<noteq> 0 \<and> snd b \<noteq> 0 \<and> unat (fst b) + unat (snd b) < 2 ^ 32"

fun holds :: "nat set \<Rightarrow> (u32 \<times> u32) list \<Rightarrow> bool" where
  "holds f [] = True"
| "holds f (b # bs) =
     (block_wf b \<and> block (fst b) (snd b) \<inter> f = {} \<and>
      (\<forall>c \<in> set bs. block (fst b) (snd b) \<inter> block (fst c) (snd c) = {}) \<and> holds f bs)"

lemma holds_mem: "holds f bs \<Longrightarrow> b \<in> set bs \<Longrightarrow> block_wf b \<and> block (fst b) (snd b) \<inter> f = {}"
  by (induction bs) auto

lemma holds_subset: "holds f bs \<Longrightarrow> g \<subseteq> f \<Longrightarrow> holds g bs"
  by (induction bs) auto

lemma holds_Un:
  "holds f bs \<Longrightarrow> \<forall>b \<in> set bs. block (fst b) (snd b) \<inter> s = {} \<Longrightarrow> holds (f \<union> s) bs"
  by (induction bs) auto

lemma holds_remove:
  "holds f (xs @ b # ys) \<Longrightarrow>
     holds f (xs @ ys) \<and> (\<forall>c \<in> set (xs @ ys). block (fst c) (snd c) \<inter> block (fst b) (snd b) = {})"
  by (induction xs) auto

lemma holds_insert:
  "holds f (b # xs @ ys) \<Longrightarrow> holds f (xs @ b # ys)"
  by (induction xs) auto

lemma holds_disjoint:
  "holds f (xs @ b # ys @ c # zs) \<Longrightarrow> block (fst b) (snd b) \<inter> block (fst c) (snd c) = {}"
  by (induction xs) auto

locale extent_allocator =
  fixes alloc :: "'m \<Rightarrow> u32 \<Rightarrow> u32 \<times> 'm"
    and release :: "'m \<Rightarrow> u32 \<Rightarrow> u32 \<Rightarrow> 'm"
    and inv :: "'m \<Rightarrow> bool"
    and units :: "'m \<Rightarrow> nat set"
  assumes alloc_some: "inv m \<Longrightarrow> alloc m n = (a, m') \<Longrightarrow> a \<noteq> 0 \<Longrightarrow>
      inv m' \<and> block_wf (a, n) \<and> block a n \<subseteq> units m \<and> units m' = units m - block a n"
    and alloc_none: "inv m \<Longrightarrow> alloc m n = (0, m') \<Longrightarrow> m' = m"
    and release_units: "inv m \<Longrightarrow> block_wf (a, n) \<Longrightarrow> block a n \<inter> units m = {} \<Longrightarrow>
      inv (release m n a) \<and> units (release m n a) \<in> {units m, units m \<union> block a n}"
begin

lemma alloc_inv: "inv m \<Longrightarrow> alloc m n = (a, m') \<Longrightarrow> inv m'"
  using alloc_some alloc_none by blast

lemma alloc_holds:
  assumes "inv m" "holds (units m) bs" "alloc m n = (a, m')" "a \<noteq> 0"
  shows "holds (units m') ((a, n) # bs)"
proof -
  have s: "block_wf (a, n)" "block a n \<subseteq> units m" "units m' = units m - block a n"
    using alloc_some [OF assms(1,3,4)] by auto
  have "\<forall>c \<in> set bs. block a n \<inter> block (fst c) (snd c) = {}"
    using holds_mem [OF assms(2)] s(2) by blast
  then show ?thesis
    using s holds_subset [OF assms(2)] by auto
qed

lemma release_inv:
  assumes "inv m" "holds (units m) (xs @ (a, n) # ys)"
  shows "inv (release m n a)"
  using release_units [OF assms(1)] holds_mem [OF assms(2), of "(a, n)"] by simp

lemma release_holds:
  assumes "inv m" "holds (units m) (xs @ (a, n) # ys)"
  shows "holds (units (release m n a)) (xs @ ys)"
proof -
  have r: "units (release m n a) \<in> {units m, units m \<union> block a n}"
    using release_units [OF assms(1)] holds_mem [OF assms(2), of "(a, n)"] by simp
  have "holds (units m \<union> block a n) (xs @ ys)"
    using holds_remove [OF assms(2)] by (intro holds_Un) auto
  then show ?thesis using r holds_subset by fastforce
qed

end

interpretation rm: extent_allocator rmalloc rmfree rmap_ok free_units
proof unfold_locales
  fix m m' a n
  assume "rmap_ok m" "rmalloc m n = (a, m')" "a \<noteq> 0"
  then show "rmap_ok m' \<and> block_wf (a, n) \<and> block a n \<subseteq> free_units m \<and>
      free_units m' = free_units m - block a n"
    using rmalloc_some [of m n a m'] by (simp add: block_wf_def block_def)
next
  fix m m' :: rmap and n
  assume "rmap_ok m" "rmalloc m n = (0, m')"
  then show "m' = m" by (cases "n = 0") (auto simp: rmalloc_def dest: rmalloc_none(1))
next
  fix m a n
  assume m: "rmap_ok m" "block_wf (a, n)" "block a n \<inter> free_units m = {}"
  then have "released m (rmfree m n a) n a \<or> mapsize m = 0 \<and> rmfree m n a = m"
    using rmfree_cases [of m n a] by (auto simp: block_wf_def block_def)
  then show "rmap_ok (rmfree m n a) \<and>
      free_units (rmfree m n a) \<in> {free_units m, free_units m \<union> block a n}"
    using m by (auto simp: released_def block_def)
qed

section \<open>Properties\<close>

text \<open>A map for the witnesses: an array of 6 slots, \<open>mapinit\<close> and a first release of 10 units at 1.\<close>

definition map6 :: rmap where
  "map6 = rmfree (mapinit 6) 10 1"

lemma map6_eq: "map6 = \<lparr>map_slots = [\<lparr>m_size = 10, m_addr = 1\<rparr>, zero_ent, zero_ent, zero_ent, zero_ent],
    mapsize = 3, mapwant = 0, map_wakes = 0\<rparr>"
  by (simp add: map6_def rmfree_def mapinit_def map_wakeup_def zero_ent_def Let_def replicate_numeral)

lemma map6_ok: "rmap_ok map6" "live map6 = [\<lparr>m_size = 10, m_addr = 1\<rparr>]"
  by (simp_all add: rmap_ok_def live_def map6_eq ext_end_def zero_ent_def replicate_numeral)

text \<open>
  C11: \<open>rmalloc\<close> is a correct first-fit allocator.  It keeps the map's invariant; when it
  returns a block, the block was free, is taken out of the free units and nothing else
  changes, and no extent at a lower address was large enough; when it returns 0 the map is
  unchanged and no extent is large enough.
\<close>

theorem rmalloc_correct:
  assumes "rmap_ok mp" and "sz \<noteq> 0" and "rmalloc mp sz = (a, mp')"
  shows "rmap_ok mp' \<and>
    (if a = 0 then mp' = mp \<and> list_all (\<lambda>e. m_size e < sz) (live mp)
     else block a sz \<subseteq> free_units mp \<and> free_units mp' = free_units mp - block a sz \<and>
          list_all (\<lambda>e. m_addr e \<ge> a \<or> m_size e < sz) (live mp))"
proof (cases "a = 0")
  case True
  then show ?thesis using rmalloc_none [of mp sz mp'] assms by (simp add: list_all_iff)
next
  case False
  then show ?thesis using rmalloc_some [OF assms(1,3) False] by (auto simp: list_all_iff block_def not_le)
qed

theorem rmalloc_correct_witness:
  "rmap_ok map6 \<and> (4 :: u32) \<noteq> 0 \<and> fst (rmalloc map6 4) = 1 \<and> rmap_ok (snd (rmalloc map6 4)) \<and>
   free_units (snd (rmalloc map6 4)) = free_units map6 - block 1 4"
proof -
  have r: "rmalloc map6 4 = (1, snd (rmalloc map6 4))"
    by (simp add: map6_eq rmalloc_def Let_def)
  then have "fst (rmalloc map6 4) = 1" by (metis fst_conv)
  then show ?thesis using rmalloc_correct [OF map6_ok(1) _ r] map6_ok(1) by simp
qed

text \<open>
  C10: \<open>rmfree\<close> adds exactly the released block to the free units and keeps the map sorted and
  coalesced; the only exception is a full map and a block that touches no free extent, which
  the code drops, leaving the map as it was.
\<close>

theorem rmfree_correct:
  assumes "rmap_ok mp" and "block_wf (a, sz)" and "block a sz \<inter> free_units mp = {}"
  shows "rmap_ok (rmfree mp sz a) \<and>
    (free_units (rmfree mp sz a) = free_units mp \<union> block a sz \<or>
     rmfree mp sz a = mp \<and> mapsize mp = 0 \<and>
     list_all (\<lambda>e. ext_end e \<noteq> unat a \<and> unat (m_addr e) \<noteq> unat a + unat sz) (live mp))"
proof -
  have "released mp (rmfree mp sz a) sz a \<or> mapsize mp = 0 \<and> rmfree mp sz a = mp \<and>
      (\<forall>e \<in> set (live mp). ext_end e \<noteq> unat a \<and> unat (m_addr e) \<noteq> unat a + unat sz)"
    using assms by (intro rmfree_cases) (auto simp: block_wf_def block_def)
  then show ?thesis using assms(1) by (auto simp: released_def block_def list_all_iff)
qed

theorem rmfree_correct_witness:
  "rmap_ok map6 \<and> block_wf (20, 5) \<and> block 20 5 \<inter> free_units map6 = {} \<and>
   rmap_ok (rmfree map6 5 20) \<and> free_units (rmfree map6 5 20) = free_units map6 \<union> block 20 5"
proof -
  have h: "block_wf (20, 5)" "block 20 5 \<inter> free_units map6 = {}"
    by (auto simp: block_wf_def block_def free_units_def map6_ok(2) ext_units_def ext_end_def)
  have "mapsize map6 \<noteq> 0" by (simp add: map6_eq)
  then show ?thesis using rmfree_correct [OF map6_ok(1) h] map6_ok(1) h by auto
qed

text \<open>
  Releasing a block right after its allocation always succeeds, even on a full map, and
  gives back exactly the free units there were.
\<close>

theorem rmalloc_rmfree_roundtrip:
  assumes "rmap_ok mp" and "rmalloc mp sz = (a, mp')" and "a \<noteq> 0"
  shows "rmap_ok (rmfree mp' sz a) \<and> free_units (rmfree mp' sz a) = free_units mp"
proof -
  note s = rmalloc_some [OF assms]
  have "released mp' (rmfree mp' sz a) sz a"
    using rmfree_cases [OF s(1,5) assms(3) s(4)] s(3,7) by auto
  then show ?thesis using s(2,3) by (auto simp: released_def)
qed

theorem rmalloc_rmfree_roundtrip_witness:
  "fst (rmalloc map6 10) = 1 \<and> free_units (rmfree (snd (rmalloc map6 10)) 10 1) = free_units map6"
proof -
  have r: "rmalloc map6 10 = (1, snd (rmalloc map6 10))"
    by (simp add: map6_eq rmalloc_def Let_def)
  then have "fst (rmalloc map6 10) = 1" by (metis fst_conv)
  then show ?thesis using rmalloc_rmfree_roundtrip [OF map6_ok(1) r] by simp
qed

end
