(* ===== verification/Bitmap.thy ===== *)
theory Bitmap imports Prelude begin

text \<open>
  The bitmap package: the macros of \<open>sys/bitmap.h\<close>, the routines of \<open>os/bitmap.c\<close>
  (\<open>bt_availbit\<close>, \<open>bt_gethighbit\<close>, \<open>bt_range\<close>) and the mask tables of \<open>os/bitmasks.c\<close>.  A bitmap
  is a list of 32-bit words; its abstraction \<open>bt_members\<close> is the set of the indices of its
  bits that are on.  The locale \<open>prio_map\<close> is the contract the dispatcher relies on for its
  map of active queues.
\<close>

section \<open>Macros and routines\<close>

definition bt_wim :: "u32 list \<Rightarrow> nat \<Rightarrow> u32" where
  "bt_wim bitmap i = bitmap ! (drop_bit 5 i)"

definition bt_biw :: "nat \<Rightarrow> u32" where
  "bt_biw i = push_bit (i AND 31) 1"

definition bt_test :: "u32 list \<Rightarrow> nat \<Rightarrow> bool" where
  "bt_test bitmap i \<longleftrightarrow> bt_wim bitmap i AND bt_biw i \<noteq> 0"

definition bt_set :: "u32 list \<Rightarrow> nat \<Rightarrow> u32 list" where
  "bt_set bitmap i = bitmap[drop_bit 5 i := bt_wim bitmap i OR bt_biw i]"

definition bt_clear :: "u32 list \<Rightarrow> nat \<Rightarrow> u32 list" where
  "bt_clear bitmap i = bitmap[drop_bit 5 i := bt_wim bitmap i AND NOT (bt_biw i)]"

text \<open>
  \<open>bt_availbit\<close>: the loop over the words, the loop over the bits of one word with the moving
  mask \<open>bit\<close>, and the function.  \<open>index_t\<close> is a \<open>short\<close>, so \<open>maxword\<close> and the result are
  narrowed to 16 bits; the word index stays below \<open>maxword + 1\<close>.
\<close>

function avail_word :: "u32 list \<Rightarrow> int \<Rightarrow> int \<Rightarrow> int" where
  "avail_word bitmap wx maxword =
     (if wx \<le> maxword then
        (if bitmap ! nat wx \<noteq> NOT 0 then wx else avail_word bitmap (wx + 1) maxword)
      else wx)"
  by pat_completeness auto
termination
  by (relation "measure (\<lambda>(_, wx, maxword). nat (maxword + 1 - wx))") auto

function avail_bit :: "u32 \<Rightarrow> u32 \<Rightarrow> nat \<Rightarrow> nat \<Rightarrow> nat option" where
  "avail_bit w b bx maxbit =
     (if bx \<le> maxbit then
        (if w AND b = 0 then Some bx else avail_bit w (push_bit 1 b) (bx + 1) maxbit)
      else None)"
  by pat_completeness auto
termination
  by (relation "measure (\<lambda>(_, _, bx, maxbit). maxbit + 1 - bx)") auto

definition bt_availbit :: "u32 list \<Rightarrow> u32 \<Rightarrow> int" where
  "bt_availbit bitmap nbits =
     (let n = nbits - 1;
          maxword = s16 (int (unat (drop_bit 5 n)));
          wx = avail_word bitmap 0 maxword
      in if wx \<le> maxword then
           (let maxbit = (if wx = maxword then unat (n AND 31) else 31)
            in case avail_bit (bitmap ! nat wx) 1 0 maxbit of
                 Some bx \<Rightarrow> s16 (push_bit 5 wx OR int bx)
               | None \<Rightarrow> -1)
         else -1)"

text \<open>The binary search of \<open>bt_gethighbit\<close> in one word: the index of the highest bit.\<close>

definition high_bit :: "u32 \<Rightarrow> nat" where
  "high_bit word =
    (if word AND 0xffff0000 \<noteq> 0 then
       if word AND 0xff000000 \<noteq> 0 then
         if word AND 0xf0000000 \<noteq> 0 then
           if word AND 0xc0000000 \<noteq> 0 then
             if word AND 0x80000000 \<noteq> 0 then 31 else 30
           else if word AND 0x20000000 \<noteq> 0 then 29 else 28
         else if word AND 0x0c000000 \<noteq> 0 then
           if word AND 0x08000000 \<noteq> 0 then 27 else 26
         else if word AND 0x02000000 \<noteq> 0 then 25 else 24
       else if word AND 0x00f00000 \<noteq> 0 then
         if word AND 0x00c00000 \<noteq> 0 then
           if word AND 0x00800000 \<noteq> 0 then 23 else 22
         else if word AND 0x00200000 \<noteq> 0 then 21 else 20
       else if word AND 0x000c0000 \<noteq> 0 then
         if word AND 0x00080000 \<noteq> 0 then 19 else 18
       else if word AND 0x00020000 \<noteq> 0 then 17 else 16
     else if word AND 0x0000ff00 \<noteq> 0 then
       if word AND 0x0000f000 \<noteq> 0 then
         if word AND 0x0000c000 \<noteq> 0 then
           if word AND 0x00008000 \<noteq> 0 then 15 else 14
         else if word AND 0x00002000 \<noteq> 0 then 13 else 12
       else if word AND 0x00000c00 \<noteq> 0 then
         if word AND 0x00000800 \<noteq> 0 then 11 else 10
       else if word AND 0x00000200 \<noteq> 0 then 9 else 8
     else if word AND 0x000000f0 \<noteq> 0 then
       if word AND 0x000000c0 \<noteq> 0 then
         if word AND 0x00000080 \<noteq> 0 then 7 else 6
       else if word AND 0x00000020 \<noteq> 0 then 5 else 4
     else if word AND 0x0000000c \<noteq> 0 then
       if word AND 0x00000008 \<noteq> 0 then 3 else 2
     else if word AND 0x00000002 \<noteq> 0 then 1 else 0)"

fun bt_gethighbit :: "u32 list \<Rightarrow> nat \<Rightarrow> int" where
  "bt_gethighbit mapp wx =
     (if mapp ! wx = 0 then
        (case wx of 0 \<Rightarrow> -1 | Suc wx' \<Rightarrow> bt_gethighbit mapp wx')
      else push_bit 5 (int wx) OR int (high_bit (mapp ! wx)))"

text \<open>
  \<open>bt_range\<close>: the first loop looks for a bit that is on, the second for the end of the run.
  The result is \<open>None\<close> for the return value 0, else the new \<open>*pos1\<close> and \<open>*pos2\<close>.
\<close>

function range_find :: "bool \<Rightarrow> u32 list \<Rightarrow> nat \<Rightarrow> nat \<Rightarrow> nat" where
  "range_find on bitmap inx nbits =
     (if inx < nbits then
        (if bt_test bitmap inx = on then inx else range_find on bitmap (inx + 1) nbits)
      else inx)"
  by pat_completeness auto
termination
  by (relation "measure (\<lambda>(_, _, inx, nbits). nbits - inx)") auto

definition bt_range :: "u32 list \<Rightarrow> nat \<Rightarrow> nat \<Rightarrow> (nat \<times> nat) option" where
  "bt_range bitmap pos1 nbits =
     (let inx = range_find True bitmap pos1 nbits
      in if inx = nbits then None
         else Some (inx, range_find False bitmap inx nbits - 1))"

text \<open>The mask tables of \<open>os/bitmasks.c\<close>: the first \<open>n\<close> bits, bit \<open>n\<close>, and all bits but bit \<open>n\<close>.\<close>

definition setmask :: "u32 list" where
  "setmask =
    [0x0, 0x1, 0x3, 0x7, 0xf, 0x1f,
     0x3f, 0x7f, 0xff, 0x1ff, 0x3ff, 0x7ff,
     0xfff, 0x1fff, 0x3fff, 0x7fff, 0xffff, 0x1ffff,
     0x3ffff, 0x7ffff, 0xfffff, 0x1fffff, 0x3fffff, 0x7fffff,
     0xffffff, 0x1ffffff, 0x3ffffff, 0x7ffffff, 0xfffffff, 0x1fffffff,
     0x3fffffff, 0x7fffffff, 0xffffffff]"

definition sbittab :: "u32 list" where
  "sbittab =
    [0x1, 0x2, 0x4, 0x8, 0x10, 0x20,
     0x40, 0x80, 0x100, 0x200, 0x400, 0x800,
     0x1000, 0x2000, 0x4000, 0x8000, 0x10000, 0x20000,
     0x40000, 0x80000, 0x100000, 0x200000, 0x400000, 0x800000,
     0x1000000, 0x2000000, 0x4000000, 0x8000000, 0x10000000, 0x20000000,
     0x40000000, 0x80000000]"

definition cbittab :: "u32 list" where
  "cbittab =
    [0xfffffffe, 0xfffffffd, 0xfffffffb, 0xfffffff7, 0xffffffef, 0xffffffdf,
     0xffffffbf, 0xffffff7f, 0xfffffeff, 0xfffffdff, 0xfffffbff, 0xfffff7ff,
     0xffffefff, 0xffffdfff, 0xffffbfff, 0xffff7fff, 0xfffeffff, 0xfffdffff,
     0xfffbffff, 0xfff7ffff, 0xffefffff, 0xffdfffff, 0xffbfffff, 0xff7fffff,
     0xfeffffff, 0xfdffffff, 0xfbffffff, 0xf7ffffff, 0xefffffff, 0xdfffffff,
     0xbfffffff, 0x7fffffff]"

declare avail_word.simps [simp del] avail_bit.simps [simp del] range_find.simps [simp del]
  bt_gethighbit.simps [simp del]

section \<open>Bits of a map\<close>

definition bt_members :: "u32 list \<Rightarrow> nat set" where
  "bt_members bitmap = {i. i < 32 * length bitmap \<and> bt_test bitmap i}"

lemma drop_bit_5: "drop_bit 5 (i :: nat) = i div 32"
  by (simp add: drop_bit_eq_div)

lemma and_31: "(i :: nat) AND 31 = i mod 32"
  using take_bit_eq_mask [of 5 i] by (simp add: take_bit_eq_mod mask_eq_exp_minus_1)

lemma bt_test_iff: "bt_test bitmap i \<longleftrightarrow> bit (bitmap ! (i div 32)) (i mod 32)"
  unfolding bt_test_def bt_wim_def bt_biw_def drop_bit_5 and_31 and_push_bit_1 by simp

lemma index_eq_iff: "(i :: nat) = j \<longleftrightarrow> i div 32 = j div 32 \<and> i mod 32 = j mod 32"
  by (metis div_mult_mod_eq)

lemma index_less: "i < 32 * n \<longleftrightarrow> (i :: nat) div 32 < n"
  by (simp add: div_less_iff_less_mult mult.commute)

lemma mod_le_same_div:
  assumes "i \<le> n" "i div 32 = n div (32 :: nat)"
  shows "i mod 32 \<le> n mod 32"
proof -
  have "n div 32 * 32 + i mod 32 = i" using div_mult_mod_eq [of i 32] unfolding assms(2) .
  then show ?thesis using assms(1) div_mult_mod_eq [of n 32] by linarith
qed

lemma div_mod_le:
  assumes "r \<le> n mod (32 :: nat)"
  shows "32 * (n div 32) + r \<le> n"
  using assms mult_div_mod_eq [of 32 n] by linarith

lemma bt_test_set:
  assumes "i < 32 * length bitmap"
  shows "bt_test (bt_set bitmap i) j \<longleftrightarrow> j = i \<or> bt_test bitmap j"
proof (cases "j div 32 = i div 32")
  case True
  have "j = i \<longleftrightarrow> j mod 32 = i mod 32" using True index_eq_iff [of j i] by blast
  then show ?thesis
    using True assms unfolding bt_test_iff bt_set_def bt_wim_def bt_biw_def drop_bit_5 and_31
    by (auto simp: bit_simps index_less)
next
  case False
  then show ?thesis unfolding bt_test_iff bt_set_def drop_bit_5 by auto
qed

lemma bt_test_clear:
  assumes "i < 32 * length bitmap"
  shows "bt_test (bt_clear bitmap i) j \<longleftrightarrow> j \<noteq> i \<and> bt_test bitmap j"
proof (cases "j div 32 = i div 32")
  case True
  have "j = i \<longleftrightarrow> j mod 32 = i mod 32" using True index_eq_iff [of j i] by blast
  then show ?thesis
    using True assms unfolding bt_test_iff bt_clear_def bt_wim_def bt_biw_def drop_bit_5 and_31
    by (auto simp: bit_simps index_less)
next
  case False
  then show ?thesis unfolding bt_test_iff bt_clear_def drop_bit_5 by auto
qed

lemma length_bt_set [simp]: "length (bt_set bitmap i) = length bitmap"
  by (simp add: bt_set_def)

lemma length_bt_clear [simp]: "length (bt_clear bitmap i) = length bitmap"
  by (simp add: bt_clear_def)

lemma members_set: "i < 32 * length bitmap \<Longrightarrow> bt_members (bt_set bitmap i) = insert i (bt_members bitmap)"
  by (auto simp: bt_members_def bt_test_set)

lemma members_clear: "i < 32 * length bitmap \<Longrightarrow> bt_members (bt_clear bitmap i) = bt_members bitmap - {i}"
  by (auto simp: bt_members_def bt_test_clear)

lemma members_zero: "bt_members (replicate n 0) = {}"
  by (auto simp: bt_members_def bt_test_iff index_less)

lemma finite_bt_members [simp]: "finite (bt_members bitmap)"
  by (simp add: bt_members_def)

section \<open>The highest bit\<close>

lemma and_field:
  assumes "unat (w :: u32) < 2 ^ (k + m)"
  shows "w AND push_bit k (mask m) \<noteq> 0 \<longleftrightarrow> 2 ^ k \<le> unat w"
proof -
  have "w AND push_bit k (mask m) = push_bit k (take_bit m (drop_bit k w))"
    by (rule bit_word_eqI) (auto simp: bit_simps)
  moreover have "unat (push_bit k (take_bit m (drop_bit k w))) = 2 ^ k * (unat w div 2 ^ k)"
  proof -
    have d: "unat w div 2 ^ k < 2 ^ m"
      using assms by (simp add: less_mult_imp_div_less power_add mult.commute)
    have "unat (take_bit m (drop_bit k w)) = unat w div 2 ^ k"
      using d by (simp add: unsigned_take_bit_eq unsigned_drop_bit_eq drop_bit_eq_div [where 'a = nat] take_bit_nat_eq_self)
    then have "unat (push_bit k (take_bit m (drop_bit k w))) = take_bit 32 (2 ^ k * (unat w div 2 ^ k))"
      by (simp add: unsigned_push_bit_eq push_bit_eq_mult [where 'a = nat] mult.commute)
    moreover have "2 ^ k * (unat w div 2 ^ k) < 2 ^ 32"
      by (rule le_less_trans [OF times_div_less_eq_dividend]) simp
    ultimately show ?thesis by (simp add: take_bit_nat_eq_self)
  qed
  moreover have "2 ^ k * (unat w div 2 ^ k) \<noteq> 0 \<longleftrightarrow> 2 ^ k \<le> unat w"
    by (auto simp: div_eq_0_iff not_less)
  ultimately show ?thesis by (metis unat_0 unat_eq_zero)
qed

lemma high_masks:
  "((w :: u32) AND 0xffff0000 = 0) = (unat w < 65536)"
  "((w :: u32) AND 0xff000000 = 0) = (unat w < 16777216)"
  "((w :: u32) AND 0xf0000000 = 0) = (unat w < 268435456)"
  "((w :: u32) AND 0xc0000000 = 0) = (unat w < 1073741824)"
  "((w :: u32) AND 0x80000000 = 0) = (unat w < 2147483648)"
  "unat (w :: u32) < 1073741824 \<Longrightarrow> (w AND 0x20000000 = 0) = (unat w < 536870912)"
  "unat (w :: u32) < 268435456 \<Longrightarrow> (w AND 0xc000000 = 0) = (unat w < 67108864)"
  "unat (w :: u32) < 268435456 \<Longrightarrow> (w AND 0x8000000 = 0) = (unat w < 134217728)"
  "unat (w :: u32) < 67108864 \<Longrightarrow> (w AND 0x2000000 = 0) = (unat w < 33554432)"
  "unat (w :: u32) < 16777216 \<Longrightarrow> (w AND 0xf00000 = 0) = (unat w < 1048576)"
  "unat (w :: u32) < 16777216 \<Longrightarrow> (w AND 0xc00000 = 0) = (unat w < 4194304)"
  "unat (w :: u32) < 16777216 \<Longrightarrow> (w AND 0x800000 = 0) = (unat w < 8388608)"
  "unat (w :: u32) < 4194304 \<Longrightarrow> (w AND 0x200000 = 0) = (unat w < 2097152)"
  "unat (w :: u32) < 1048576 \<Longrightarrow> (w AND 0xc0000 = 0) = (unat w < 262144)"
  "unat (w :: u32) < 1048576 \<Longrightarrow> (w AND 0x80000 = 0) = (unat w < 524288)"
  "unat (w :: u32) < 262144 \<Longrightarrow> (w AND 0x20000 = 0) = (unat w < 131072)"
  "unat (w :: u32) < 65536 \<Longrightarrow> (w AND 0xff00 = 0) = (unat w < 256)"
  "unat (w :: u32) < 65536 \<Longrightarrow> (w AND 0xf000 = 0) = (unat w < 4096)"
  "unat (w :: u32) < 65536 \<Longrightarrow> (w AND 0xc000 = 0) = (unat w < 16384)"
  "unat (w :: u32) < 65536 \<Longrightarrow> (w AND 0x8000 = 0) = (unat w < 32768)"
  "unat (w :: u32) < 16384 \<Longrightarrow> (w AND 0x2000 = 0) = (unat w < 8192)"
  "unat (w :: u32) < 4096 \<Longrightarrow> (w AND 0xc00 = 0) = (unat w < 1024)"
  "unat (w :: u32) < 4096 \<Longrightarrow> (w AND 0x800 = 0) = (unat w < 2048)"
  "unat (w :: u32) < 1024 \<Longrightarrow> (w AND 0x200 = 0) = (unat w < 512)"
  "unat (w :: u32) < 256 \<Longrightarrow> (w AND 0xf0 = 0) = (unat w < 16)"
  "unat (w :: u32) < 256 \<Longrightarrow> (w AND 0xc0 = 0) = (unat w < 64)"
  "unat (w :: u32) < 256 \<Longrightarrow> (w AND 0x80 = 0) = (unat w < 128)"
  "unat (w :: u32) < 64 \<Longrightarrow> (w AND 0x20 = 0) = (unat w < 32)"
  "unat (w :: u32) < 16 \<Longrightarrow> (w AND 0xc = 0) = (unat w < 4)"
  "unat (w :: u32) < 16 \<Longrightarrow> (w AND 0x8 = 0) = (unat w < 8)"
  "unat (w :: u32) < 4 \<Longrightarrow> (w AND 0x2 = 0) = (unat w < 2)"
  using and_field [of w 16 16]
    and_field [of w 24 8]
    and_field [of w 28 4]
    and_field [of w 30 2]
    and_field [of w 31 1]
    and_field [of w 29 1]
    and_field [of w 26 2]
    and_field [of w 27 1]
    and_field [of w 25 1]
    and_field [of w 20 4]
    and_field [of w 22 2]
    and_field [of w 23 1]
    and_field [of w 21 1]
    and_field [of w 18 2]
    and_field [of w 19 1]
    and_field [of w 17 1]
    and_field [of w 8 8]
    and_field [of w 12 4]
    and_field [of w 14 2]
    and_field [of w 15 1]
    and_field [of w 13 1]
    and_field [of w 10 2]
    and_field [of w 11 1]
    and_field [of w 9 1]
    and_field [of w 4 4]
    and_field [of w 6 2]
    and_field [of w 7 1]
    and_field [of w 5 1]
    and_field [of w 2 2]
    and_field [of w 3 1]
    and_field [of w 1 1]
  by (simp_all add: mask_eq_exp_minus_1 push_bit_eq_mult not_le flip: not_less)

definition top_bit :: "nat \<Rightarrow> nat \<Rightarrow> bool" where
  "top_bit u h \<longleftrightarrow> 2 ^ h \<le> u \<and> u < 2 ^ Suc h"

lemma top_bit_if: "(c \<Longrightarrow> top_bit u a) \<Longrightarrow> (\<not> c \<Longrightarrow> top_bit u b) \<Longrightarrow> top_bit u (if c then a else b)"
  by simp

lemma high_bit_bounds:
  assumes "w \<noteq> 0"
  shows "top_bit (unat w) (high_bit w)"
proof -
  have "0 < unat w" using assms by (simp add: word_nat)
  then show ?thesis
    unfolding high_bit_def by (intro top_bit_if) (simp_all add: high_masks not_less top_bit_def)
qed

lemma if_less: "a < n \<Longrightarrow> b < n \<Longrightarrow> (if c then a else b) < (n :: nat)"
  by simp

lemma high_bit_less: "high_bit w < 32"
  unfolding high_bit_def by (intro if_less) simp_all

lemma high_bit_top:
  assumes "w \<noteq> 0"
  shows "bit w (high_bit w)" and "\<And>j. bit w j \<Longrightarrow> j \<le> high_bit w"
proof -
  note b = high_bit_bounds [OF assms, unfolded top_bit_def]
  have "unat w div 2 ^ high_bit w = 1" using b by (simp add: div_nat_eqI)
  then have "odd (unat w div 2 ^ high_bit w)" by simp
  then have "bit (unat w) (high_bit w)" by (simp add: bit_iff_odd)
  then show "bit w (high_bit w)" by (simp add: bit_unsigned_iff)
  fix j assume j: "bit w j"
  show "j \<le> high_bit w"
  proof (rule ccontr)
    assume "\<not> j \<le> high_bit w"
    then have "unat w < 2 ^ j"
      using b by (meson less_le_trans not_less_eq_eq one_le_numeral power_increasing)
    then have "\<not> bit (unat w) j" by (simp add: bit_iff_odd)
    with j show False by (simp add: bit_unsigned_iff)
  qed
qed

lemma low_bits:
  assumes "h < 32" and "bit (h :: nat) n"
  shows "n < 5"
proof (rule ccontr)
  assume "\<not> n < 5"
  then have "(2 :: nat) ^ 5 \<le> 2 ^ n" by (intro power_increasing) simp_all
  then have "h < 2 ^ n" using assms(1) by simp
  then show False using assms(2) by (simp add: bit_iff_odd)
qed

lemma shift_or:
  assumes "h < 32"
  shows "push_bit 5 (int q) OR int h = int (32 * q + h)"
proof -
  have "push_bit 5 (int q) AND int h = 0"
    by (intro bit_eqI) (auto simp: bit_simps dest: low_bits [OF assms])
  then show ?thesis
    by (simp add: disjunctive_add_eq_or [symmetric] push_bit_eq_mult)
qed

lemma bt_gethighbit_word:
  assumes "wx < length m" and "m ! wx \<noteq> 0"
  shows "bt_gethighbit m wx = int (Max {i \<in> bt_members m. i div 32 \<le> wx})"
proof -
  let ?h = "32 * wx + high_bit (m ! wx)"
  note top = high_bit_top [OF assms(2)] and less = high_bit_less [of "m ! wx"]
  have "Max {i \<in> bt_members m. i div 32 \<le> wx} = ?h"
  proof (rule Max_eqI)
    show "?h \<in> {i \<in> bt_members m. i div 32 \<le> wx}"
      using assms(1) top(1) less by (simp add: bt_members_def bt_test_iff)
    fix i assume i: "i \<in> {i \<in> bt_members m. i div 32 \<le> wx}"
    show "i \<le> ?h"
    proof (cases "i div 32 = wx")
      case True
      then have "i mod 32 \<le> high_bit (m ! wx)"
        using i top(2) by (simp add: bt_members_def bt_test_iff)
      then show ?thesis using True div_mult_mod_eq [of i 32] by simp
    next
      case False
      then have "i < 32 * wx" using i by (simp add: index_less)
      then show ?thesis by simp
    qed
  qed simp
  then show ?thesis
    using assms(2) less by (subst bt_gethighbit.simps) (simp add: shift_or)
qed

lemma bt_gethighbit_max:
  assumes "wx < length m"
  shows "bt_gethighbit m wx =
    (let S = {i \<in> bt_members m. i div 32 \<le> wx} in if S = {} then -1 else int (Max S))"
  using assms
proof (induction wx)
  case 0
  have none: "{i \<in> bt_members m. i div 32 \<le> 0} = {}" if "m ! 0 = 0"
    using that by (auto simp: bt_members_def bt_test_iff intro!: gr0I)
  show ?case
  proof (cases "m ! 0 = 0")
    case True
    then show ?thesis using none by (subst bt_gethighbit.simps) simp
  next
    case False
    have "high_bit (m ! 0) < 32 * length m"
      using high_bit_less [of "m ! 0"] 0 by linarith
    with False have "high_bit (m ! 0) \<in> {i \<in> bt_members m. i div 32 \<le> 0}"
      using high_bit_top(1) [OF False] high_bit_less [of "m ! 0"] by (simp add: bt_members_def bt_test_iff)
    then show ?thesis using bt_gethighbit_word [OF 0 False] by (auto simp: Let_def)
  qed
next
  case (Suc wx)
  show ?case
  proof (cases "m ! Suc wx = 0")
    case True
    have "{i \<in> bt_members m. i div 32 \<le> Suc wx} = {i \<in> bt_members m. i div 32 \<le> wx}"
      using True by (auto simp: bt_members_def bt_test_iff le_Suc_eq)
    then show ?thesis
      using Suc.IH Suc.prems True by (subst bt_gethighbit.simps) simp
  next
    case False
    then have "32 * Suc wx + high_bit (m ! Suc wx) \<in> {i \<in> bt_members m. i div 32 \<le> Suc wx}"
      using high_bit_top(1) [OF False] high_bit_less [of "m ! Suc wx"] Suc.prems
      by (simp add: bt_members_def bt_test_iff index_less del: mult_Suc_right)
    then show ?thesis using bt_gethighbit_word [OF Suc.prems False] by (auto simp: Let_def)
  qed
qed

section \<open>The first free bit and the first run of bits\<close>

lemma avail_word_first:
  assumes "0 \<le> wx" "wx \<le> mx + 1"
  shows "wx \<le> avail_word m wx mx \<and> avail_word m wx mx \<le> mx + 1 \<and>
    (\<forall>k. wx \<le> k \<longrightarrow> k < avail_word m wx mx \<longrightarrow> m ! nat k = NOT 0) \<and>
    (avail_word m wx mx \<le> mx \<longrightarrow> m ! nat (avail_word m wx mx) \<noteq> NOT 0)"
  using assms
proof (induction m wx mx rule: avail_word.induct)
  case (1 m wx mx)
  show ?case
  proof (cases "wx \<le> mx \<and> m ! nat wx = NOT 0")
    case True
    have "m ! nat k = NOT 0" if "wx \<le> k" "k < avail_word m (wx + 1) mx" for k
      using "1.IH" "1.prems" True that by (cases "k = wx") auto
    then show ?thesis
      using "1.IH" "1.prems" True by (subst (1 2 3 4 5) avail_word.simps) auto
  next
    case False
    then show ?thesis using "1.prems" by (subst (1 2 3 4 5) avail_word.simps) auto
  qed
qed

lemma avail_bit_first:
  assumes "b = push_bit bx 1"
  shows "(case avail_bit w b bx mx of
      None \<Rightarrow> \<forall>k. bx \<le> k \<longrightarrow> k \<le> mx \<longrightarrow> bit w k
    | Some r \<Rightarrow> bx \<le> r \<and> r \<le> mx \<and> \<not> bit w r \<and> (\<forall>k. bx \<le> k \<longrightarrow> k < r \<longrightarrow> bit w k))"
  using assms
proof (induction w b bx mx rule: avail_bit.induct)
  case (1 w b bx mx)
  show ?case
  proof (cases "bx \<le> mx \<and> w AND b \<noteq> 0")
    case True
    have b: "bit w bx" using True unfolding "1.prems" and_push_bit_1 by simp
    have nxt: "bit w k" if "\<forall>k. bx + 1 \<le> k \<longrightarrow> Q k \<longrightarrow> bit w k" "bx \<le> k" "Q k" for k Q
      using that b by (cases "k = bx") auto
    have eq: "avail_bit w b bx mx = avail_bit w (push_bit 1 b) (bx + 1) mx"
      using True by (subst avail_bit.simps) simp
    have "push_bit 1 b = push_bit (bx + 1) 1" using "1.prems" by simp
    then have IH: "case avail_bit w (push_bit 1 b) (bx + 1) mx of
        None \<Rightarrow> \<forall>k. bx + 1 \<le> k \<longrightarrow> k \<le> mx \<longrightarrow> bit w k
      | Some r \<Rightarrow> bx + 1 \<le> r \<and> r \<le> mx \<and> \<not> bit w r \<and> (\<forall>k. bx + 1 \<le> k \<longrightarrow> k < r \<longrightarrow> bit w k)"
      using "1.IH" True by blast
    show ?thesis
    proof (cases "avail_bit w (push_bit 1 b) (bx + 1) mx")
      case None
      then show ?thesis using IH nxt [of "\<lambda>k. k \<le> mx"] by (simp add: eq del: push_bit_of_1)
    next
      case (Some r)
      then show ?thesis using IH nxt [of "\<lambda>k. k < r"] by (simp add: eq del: push_bit_of_1)
    qed
  next
    case False
    then show ?thesis
      using "1.prems" and_push_bit_1 [of w bx] by (subst avail_bit.simps) auto
  qed
qed

lemma range_find_first:
  assumes "inx \<le> nbits"
  shows "inx \<le> range_find on m inx nbits \<and> range_find on m inx nbits \<le> nbits \<and>
    (\<forall>k. inx \<le> k \<longrightarrow> k < range_find on m inx nbits \<longrightarrow> bt_test m k \<noteq> on) \<and>
    (range_find on m inx nbits < nbits \<longrightarrow> bt_test m (range_find on m inx nbits) = on)"
  using assms
proof (induction "on" m inx nbits rule: range_find.induct)
  case (1 "on" m inx nbits)
  show ?case
  proof (cases "inx < nbits \<and> bt_test m inx \<noteq> on")
    case True
    have "bt_test m k \<noteq> on" if "inx \<le> k" "k < range_find on m (inx + 1) nbits" for k
      using "1.IH" "1.prems" True that by (cases "k = inx") auto
    then show ?thesis
      using "1.IH" "1.prems" True by (subst (1 2 3 4 5) range_find.simps) auto
  next
    case False
    then show ?thesis using "1.prems" by (subst (1 2 3 4 5) range_find.simps) auto
  qed
qed

text \<open>The words and the last word of a map of \<open>nbits\<close> bits, as \<open>bt_availbit\<close> computes them.\<close>

lemma availbit_parts:
  assumes "0 < unat nbits" "unat nbits \<le> 32768"
  shows "s16 (int (unat (drop_bit 5 (nbits - 1 :: u32)))) = int ((unat nbits - 1) div 32)"
    and "unat ((nbits - 1) AND 31) = (unat nbits - 1) mod 32"
proof -
  have "1 \<le> nbits" using assms(1) by (simp add: word_le_nat_alt)
  then have n: "unat (nbits - 1) = unat nbits - 1" by (simp add: word_nat)
  have "(unat nbits - 1) div 32 < 32768" using assms(2) by (intro le_less_trans [OF div_le_dividend]) simp
  then show "s16 (int (unat (drop_bit 5 (nbits - 1)))) = int ((unat nbits - 1) div 32)"
    by (subst s16_id) (simp_all add: unat_drop_bit_eq n drop_bit_eq_div [where 'a = nat])
  show "unat ((nbits - 1) AND 31) = (unat nbits - 1) mod 32"
    by (simp add: unsigned_and_eq n and_31)
qed

lemma availbit_result:
  assumes "0 < unat nbits" "unat nbits \<le> 32768"
  defines "mx \<equiv> (unat nbits - 1) div 32"
  shows "(bt_availbit m nbits = -1 \<and> (\<forall>i < unat nbits. bt_test m i)) \<or>
    (\<exists>r < unat nbits. bt_availbit m nbits = int r \<and> \<not> bt_test m r \<and> (\<forall>i < r. bt_test m i))"
proof -
  define w where "w = avail_word m 0 (int mx)"
  have nb: "0 < unat nbits" by (rule assms(1))
  note parts = availbit_parts [OF assms(1,2), folded mx_def]
  have aw: "0 \<le> w" "w \<le> int mx + 1" "\<And>k. 0 \<le> k \<Longrightarrow> k < w \<Longrightarrow> m ! nat k = NOT 0"
    using avail_word_first [of 0 "int mx" m] by (simp_all flip: w_def)
  have full: "bt_test m i" if "i div 32 < nat w" for i
    using aw(3) [of "int (i div 32)"] that by (simp add: bt_test_iff)
  define maxbit where "maxbit = (if w = int mx then (unat nbits - 1) mod 32 else 31)"
  have eq: "bt_availbit m nbits =
      (if w \<le> int mx then
        (case avail_bit (m ! nat w) 1 0 maxbit of Some bx \<Rightarrow> s16 (push_bit 5 w OR int bx) | None \<Rightarrow> -1)
       else -1)"
    by (simp only: bt_availbit_def Let_def parts w_def maxbit_def)
  have last: "i div 32 \<le> mx" "i div 32 = mx \<Longrightarrow> i mod 32 \<le> (unat nbits - 1) mod 32" if "i < unat nbits" for i
  proof -
    have "i \<le> unat nbits - 1" using that by simp
    then show "i div 32 \<le> mx" unfolding mx_def by (rule div_le_mono)
    show "i mod 32 \<le> (unat nbits - 1) mod 32" if "i div 32 = mx"
      using \<open>i \<le> unat nbits - 1\<close> that unfolding mx_def by (rule mod_le_same_div)
  qed
  show ?thesis
  proof (cases "w \<le> int mx")
    case False
    then have "bt_test m i" if "i < unat nbits" for i
      using full last(1) [OF that] aw(2) by simp
    then show ?thesis using False by (simp add: eq)
  next
    case True
    define q where "q = nat w"
    have wq: "w = int q" "q \<le> mx" using aw(1) True by (simp_all add: q_def)
    have ab: "case avail_bit (m ! q) 1 0 maxbit of None \<Rightarrow> \<forall>k \<le> maxbit. bit (m ! q) k
        | Some r \<Rightarrow> r \<le> maxbit \<and> \<not> bit (m ! q) r \<and> (\<forall>k < r. bit (m ! q) k)"
      using avail_bit_first [of 1 0 maxbit "m ! q"] by (simp split: option.splits)
    show ?thesis
    proof (cases "avail_bit (m ! q) 1 0 maxbit")
      case None
      have "q = mx"
      proof (rule ccontr)
        assume "q \<noteq> mx"
        then have "\<forall>k < 32. bit (m ! q) k" using ab None wq by (simp add: maxbit_def less_Suc_eq_le [symmetric])
        then have "m ! q = NOT 0" by (intro bit_word_eqI) simp
        then show False
          using avail_word_first [of 0 "int mx" m] True wq by (simp flip: w_def)
      qed
      have "bt_test m i" if "i < unat nbits" for i
        using full [of i] last [OF that] ab None wq \<open>q = mx\<close>
        by (cases "i div 32 = mx") (simp_all add: bt_test_iff maxbit_def)
      then show ?thesis using True None wq by (simp add: eq)
    next
      case (Some r)
      then have r: "r \<le> maxbit" "\<not> bit (m ! q) r" "\<forall>k < r. bit (m ! q) k" using ab by simp_all
      have "maxbit < 32" by (simp add: maxbit_def)
      then have r32: "r < 32" using r(1) by simp
      let ?i = "32 * q + r"
      have lt: "?i < unat nbits"
      proof (cases "q = mx")
        case True
        then have "?i \<le> unat nbits - 1"
          using r(1) wq unfolding True mx_def by (intro div_mod_le) (simp add: maxbit_def mx_def)
        then show ?thesis using nb by linarith
      next
        case False
        then have "?i div 32 < mx" using wq r32 by simp
        then have "?i < 32 * mx" by (simp only: index_less)
        then show ?thesis using div_mult_mod_eq [of "unat nbits - 1" 32] unfolding mx_def by linarith
      qed
      have "s16 (push_bit 5 w OR int r) = int ?i"
        using lt assms(2) by (simp only: wq shift_or [OF r32]) (simp add: s16_id)
      moreover have "bt_test m i" if "i < ?i" for i
      proof (cases "i div 32 < q")
        case True
        then show ?thesis using full wq by simp
      next
        case False
        have "i div 32 \<le> ?i div 32" using that by (intro div_le_mono) simp
        then have d: "i div 32 = q" using False r32 by simp
        then have "i mod 32 < r" using that div_mult_mod_eq [of i 32] by linarith
        then show ?thesis using d r(3) by (simp add: bt_test_iff)
      qed
      moreover have "\<not> bt_test m ?i" using r(2) r32 by (simp add: bt_test_iff)
      ultimately have "bt_availbit m nbits = int ?i \<and> \<not> bt_test m ?i \<and> (\<forall>i < ?i. bt_test m i)"
        using True Some wq by (simp add: eq)
      with lt show ?thesis by blast
    qed
  qed
qed

lemma range_result:
  assumes "pos1 \<le> nbits"
  shows "(case bt_range m pos1 nbits of
      None \<Rightarrow> (\<forall>i. pos1 \<le> i \<longrightarrow> i < nbits \<longrightarrow> \<not> bt_test m i)
    | Some (a, b) \<Rightarrow> pos1 \<le> a \<and> a \<le> b \<and> b < nbits \<and>
        (\<forall>i. pos1 \<le> i \<longrightarrow> i < a \<longrightarrow> \<not> bt_test m i) \<and> (\<forall>i. a \<le> i \<longrightarrow> i \<le> b \<longrightarrow> bt_test m i) \<and>
        (b + 1 < nbits \<longrightarrow> \<not> bt_test m (b + 1)))"
proof -
  define a where "a = range_find True m pos1 nbits"
  define e where "e = range_find False m a nbits"
  note fa = range_find_first [OF assms, of True m, folded a_def]
  have "a \<le> nbits" using fa by simp
  note fe = range_find_first [OF this, of False m, folded e_def]
  show ?thesis
  proof (cases "a = nbits")
    case True
    then show ?thesis using fa by (simp add: bt_range_def flip: a_def)
  next
    case False
    then have "bt_test m a" "a < nbits" using fa by auto
    then have "a < e" using fe by (cases "a = e") auto
    then show ?thesis
      using False fa fe \<open>a < nbits\<close> by (auto simp: bt_range_def Let_def simp flip: a_def e_def)
  qed
qed

section \<open>The contract of the dispatcher's map\<close>

text \<open>
  A map of priorities with the highest-bit search: what \<open>disp.c\<close> relies on to keep \<open>maxrunpri\<close>.
  \<open>high b p\<close> starts at the word of priority \<open>p\<close>.
\<close>

locale prio_map =
  fixes set_bit clear_bit :: "'b \<Rightarrow> nat \<Rightarrow> 'b"
    and test :: "'b \<Rightarrow> nat \<Rightarrow> bool"
    and high :: "'b \<Rightarrow> nat \<Rightarrow> int"
    and members :: "'b \<Rightarrow> nat set"
    and cap :: "'b \<Rightarrow> nat"
  assumes cap_set: "cap (set_bit b p) = cap b"
    and cap_clear: "cap (clear_bit b p) = cap b"
    and set_members: "p < cap b \<Longrightarrow> members (set_bit b p) = insert p (members b)"
    and clear_members: "p < cap b \<Longrightarrow> members (clear_bit b p) = members b - {p}"
    and test_members: "p < cap b \<Longrightarrow> test b p = (p \<in> members b)"
    and members_cap: "p \<in> members b \<Longrightarrow> p < cap b"
    and high_max: "p < cap b \<Longrightarrow> members b \<subseteq> {..p} \<Longrightarrow>
      high b p = (if members b = {} then -1 else int (Max (members b)))"
begin

text \<open>\<open>tops b m\<close>: \<open>m\<close> is the greatest member of the map, \<open>-1\<close> when there is none.\<close>

definition tops :: "'b \<Rightarrow> int \<Rightarrow> bool" where
  "tops b m \<longleftrightarrow> m = (if members b = {} then -1 else int (Max (members b)))"

lemma finite_members: "finite (members b)"
  by (rule finite_subset [of _ "{..<cap b}"]) (auto dest: members_cap)

lemma tops_ge: "tops b m \<Longrightarrow> p \<in> members b \<Longrightarrow> int p \<le> m"
  using finite_members by (auto simp: tops_def)

lemma tops_cases: "tops b m \<Longrightarrow> m = -1 \<and> members b = {} \<or> 0 \<le> m \<and> nat m \<in> members b"
  using Max_in [OF finite_members] by (auto simp: tops_def)

lemma topsI:
  assumes "\<And>p. p \<in> members b \<Longrightarrow> int p \<le> m" and "m = -1 \<and> members b = {} \<or> 0 \<le> m \<and> nat m \<in> members b"
  shows "tops b m"
proof (cases "members b = {}")
  case True
  then show ?thesis using assms(2) by (simp add: tops_def)
next
  case False
  then have m: "0 \<le> m" "nat m \<in> members b" using assms(2) by auto
  have "Max (members b) = nat m"
    using assms(1) m by (intro Max_eqI finite_members) (auto simp: le_nat_iff)
  then show ?thesis using False m by (simp add: tops_def)
qed

lemma set_tops:
  assumes "tops b m" "p < cap b"
  shows "tops (set_bit b p) (if int p > m then int p else m)"
proof (rule topsI)
  fix q assume "q \<in> members (set_bit b p)"
  then have "q = p \<or> int q \<le> m" using tops_ge [OF assms(1)] by (auto simp: set_members [OF assms(2)])
  then show "int q \<le> (if int p > m then int p else m)" by auto
next
  show "(if int p > m then int p else m) = -1 \<and> members (set_bit b p) = {} \<or>
      0 \<le> (if int p > m then int p else m) \<and> nat (if int p > m then int p else m) \<in> members (set_bit b p)"
    using tops_cases [OF assms(1)] by (auto simp: set_members [OF assms(2)])
qed

lemma clear_other_tops:
  assumes "tops b m" "p < cap b" "int p \<noteq> m"
  shows "tops (clear_bit b p) m"
  using tops_ge [OF assms(1)] tops_cases [OF assms(1)] assms(3)
  by (intro topsI) (auto simp: clear_members [OF assms(2)])

lemma clear_high_tops:
  assumes "tops b (int p)" "p < cap b"
  shows "tops (clear_bit b p) (high (clear_bit b p) p)"
proof -
  have "members (clear_bit b p) \<subseteq> {..p}"
    using tops_ge [OF assms(1)] by (auto simp: clear_members [OF assms(2)])
  then show ?thesis
    unfolding tops_def using assms(2) by (intro high_max) (simp_all add: cap_clear)
qed

end

lemma bt_test_members: "i < 32 * length m \<Longrightarrow> bt_test m i \<longleftrightarrow> i \<in> bt_members m"
  by (simp add: bt_members_def)

interpretation bt: prio_map bt_set bt_clear bt_test "\<lambda>m p. bt_gethighbit m (drop_bit 5 p)"
  bt_members "\<lambda>m. 32 * length m"
proof unfold_locales
  fix m p assume p: "p < 32 * length m" and sub: "bt_members m \<subseteq> {..p}"
  have "{i \<in> bt_members m. i div 32 \<le> p div 32} = bt_members m"
    using sub by (auto intro: div_le_mono)
  then show "bt_gethighbit m (drop_bit 5 p) = (if bt_members m = {} then -1 else int (Max (bt_members m)))"
    using bt_gethighbit_max [of "p div 32" m] p by (simp add: drop_bit_5 index_less Let_def)
qed (simp_all add: members_set members_clear bt_test_members, simp add: bt_members_def)

section \<open>Properties\<close>

text \<open>
  C40: \<open>bt_gethighbit\<close> finds the greatest bit that is on in the words up to \<open>wx\<close>, and \<open>-1\<close> exactly
  when they are all zero.
\<close>

theorem bt_gethighbit_correct:
  assumes "wx < length m"
  shows "bt_gethighbit m wx =
    (let S = {i \<in> bt_members m. i div 32 \<le> wx} in if S = {} then -1 else int (Max S))"
  by (rule bt_gethighbit_max [OF assms])

theorem bt_gethighbit_correct_witness:
  "(1 :: nat) < length [4 :: u32, 0x300] \<and> bt_gethighbit [4, 0x300] 1 = 41 \<and>
   int (Max {i \<in> bt_members [4, 0x300]. i div 32 \<le> 1}) = 41"
proof -
  have "bt_gethighbit [4, 0x300] 1 = 41"
    by (simp add: bt_gethighbit.simps high_bit_def)
  then show ?thesis using bt_gethighbit_correct [of 1 "[4, 0x300]"] by (simp add: Let_def split: if_splits)
qed

text \<open>
  \<open>bt_availbit\<close> returns the index of the first bit that is off, or \<open>-1\<close> exactly when the
  first \<open>nbits\<close> bits are all on, for maps of up to 32768 bits.
\<close>

theorem bt_availbit_correct:
  assumes "0 < unat nbits" and "unat nbits \<le> 32768"
  shows "if bt_availbit m nbits = -1 then list_all (bt_test m) [0..<unat nbits]
    else 0 \<le> bt_availbit m nbits \<and> nat (bt_availbit m nbits) < unat nbits \<and>
      \<not> bt_test m (nat (bt_availbit m nbits)) \<and> list_all (bt_test m) [0..<nat (bt_availbit m nbits)]"
  using availbit_result [OF assms, of m] by (auto simp: list_all_iff)

theorem bt_availbit_correct_witness:
  "0 < unat (35 :: u32) \<and> unat (35 :: u32) \<le> 32768 \<and> bt_availbit [NOT 0, 1] 35 = 33 \<and>
   \<not> bt_test [NOT 0, 1] 33 \<and> list_all (bt_test [NOT 0, 1]) [0..<33]"
proof -
  have "bt_availbit [NOT 0, 1] 35 = 33"
    by code_simp
  then show ?thesis using bt_availbit_correct [of 35 "[NOT 0, 1]"] by simp
qed

text \<open>
  \<open>bt_range\<close> returns the first maximal run of bits that are on at or after \<open>pos1\<close>, and 0
  exactly when there is none.
\<close>

theorem bt_range_correct:
  assumes "pos1 \<le> nbits"
  shows "case bt_range m pos1 nbits of
      None \<Rightarrow> list_all (\<lambda>i. \<not> bt_test m i) [pos1..<nbits]
    | Some (a, b) \<Rightarrow> pos1 \<le> a \<and> a \<le> b \<and> b < nbits \<and>
        list_all (\<lambda>i. \<not> bt_test m i) [pos1..<a] \<and> list_all (bt_test m) [a..<b + 1] \<and>
        (b + 1 = nbits \<or> \<not> bt_test m (b + 1))"
  using range_result [OF assms, of m] by (auto simp: list_all_iff split: option.splits)

theorem bt_range_correct_witness:
  "(1 :: nat) \<le> 8 \<and> bt_range [0x39] 1 8 = Some (3, 5) \<and> list_all (bt_test [0x39]) [3..<6]"
proof -
  have "bt_range [0x39] 1 8 = Some (3, 5)"
    by code_simp
  then show ?thesis using bt_range_correct [of 1 8 "[0x39]"] by simp
qed

text \<open>
  Entry \<open>n\<close> of the mask tables of \<open>bitmasks.c\<close> is the mask of the first \<open>n\<close> bits, of bit \<open>n\<close>
  and of all bits but bit \<open>n\<close>, the mask the macro \<open>BT_BIW\<close> computes.
\<close>

theorem mask_tables_correct:
  "map (\<lambda>n. mask n) [0..<33] = setmask \<and> map bt_biw [0..<32] = sbittab \<and>
   map (\<lambda>n. NOT (bt_biw n)) [0..<32] = cbittab"
  by code_simp

end
