(* ===== verification/Disp.thy ===== *)
theory Disp imports Prelude Bitmap begin

text \<open>
  The dispatcher of \<open>disp/disp.c\<close>: the queues of runnable processes, one per global priority,
  linked through \<open>p_link\<close>; the counts of schedulable processes; the map of active queues and
  \<open>maxrunpri\<close>.  Processes are numbered, \<open>proc_tab\<close> is the store they live in, and a pointer
  is a \<open>nat option\<close> (\<open>None\<close> for \<open>NULL\<close>).  The first part translates the code with its links;
  the second relates it to lists of processes; the properties state each operation on the
  lists.  The client lemmas of the locale \<open>prio_map\<close> carry the proofs about \<open>maxrunpri\<close>.
\<close>

section \<open>State and operations\<close>

datatype p_stat = SSLEEP | SRUN | SZOMB | SSTOP | SIDL | SONPROC | SXBRK

record proc =
  p_link :: "nat option"
  p_flag :: u32
  p_pri :: nat
  p_stat :: p_stat

record dispq =
  dq_first :: "nat option"
  dq_last :: "nat option"
  dq_sruncnt :: int

record disp =
  proc_tab :: "nat \<Rightarrow> proc"
  dispqs :: "dispq list"
  dqactmap :: "u32 list"
  srunprocs :: int
  maxrunpri :: int
  curproc :: nat
  curpri :: nat
  old_curproc :: nat
  oldproc :: "nat option"
  runrun :: nat
  kprunrun :: nat
  npwakecnt :: nat
  idleswtch :: nat
  qrunflag :: bool
  pswitches :: nat

text \<open>The flags \<open>SSYS\<close>, \<open>SLOAD\<close> and \<open>SPROCIO\<close>, and the test the queues' counts are about.\<close>

definition SSYS :: u32 where "SSYS = 0x00000001"
definition SLOAD :: u32 where "SLOAD = 0x00000010"
definition SPROCIO :: u32 where "SPROCIO = 0x00000400"

definition srunnable :: "proc \<Rightarrow> bool" where
  "srunnable p \<longleftrightarrow> p_flag p AND (SLOAD OR SPROCIO) = SLOAD \<or> p_flag p AND SSYS \<noteq> 0"

definition set_link :: "nat \<Rightarrow> nat option \<Rightarrow> (nat \<Rightarrow> proc) \<Rightarrow> nat \<Rightarrow> proc" where
  "set_link x v tab = tab(x := (tab x)\<lparr>p_link := v\<rparr>)"

text \<open>
  \<open>dispinit\<close>: \<open>cl_maxglobpri\<close> are the priorities the class initialisers report; the flags say
  whether the two calls of \<open>kmem_zalloc\<close> succeed.  \<open>None\<close> is the panic.
\<close>

definition dispinit :: "int list \<Rightarrow> bool \<Rightarrow> bool \<Rightarrow> disp \<Rightarrow> disp option" where
  "dispinit cl_maxglobpri qmem mapmem s =
     (let maxglobpri = foldl (\<lambda>m c. if c > m then c else m) (-1) cl_maxglobpri;
          nglobpris = nat (maxglobpri + 1)
      in if \<not> qmem then None
         else if \<not> mapmem then None
         else Some (s\<lparr>dispqs := replicate nglobpris \<lparr>dq_first = None, dq_last = None, dq_sruncnt = 0\<rparr>,
           dqactmap := replicate (nglobpris div 32 + 1) 0, srunprocs := 0, maxrunpri := -1\<rparr>))"

definition dq_sruninc :: "disp \<Rightarrow> nat \<Rightarrow> disp" where
  "dq_sruninc s pri =
     (let dq = dispqs s ! pri;
          cnt = dq_sruncnt dq + 1;
          s' = s\<lparr>srunprocs := srunprocs s + 1, dispqs := (dispqs s)[pri := dq\<lparr>dq_sruncnt := cnt\<rparr>]\<rparr>
      in if cnt = 1 then
           s'\<lparr>dqactmap := bt_set (dqactmap s) pri,
              maxrunpri := (if int pri > maxrunpri s then int pri else maxrunpri s)\<rparr>
         else s')"

definition dq_srundec :: "disp \<Rightarrow> nat \<Rightarrow> disp" where
  "dq_srundec s pri =
     (let dq = dispqs s ! pri;
          cnt = dq_sruncnt dq - 1;
          procs = srunprocs s - 1;
          actmap = (dqactmap s)[drop_bit 5 pri := dqactmap s ! drop_bit 5 pri AND NOT (bt_biw pri)];
          s' = s\<lparr>srunprocs := procs, dispqs := (dispqs s)[pri := dq\<lparr>dq_sruncnt := cnt\<rparr>]\<rparr>
      in if cnt = 0 then
           s'\<lparr>dqactmap := actmap,
              maxrunpri := (if procs = 0 then -1
                else if int pri = maxrunpri s then bt_gethighbit actmap (drop_bit 5 (nat (maxrunpri s)))
                else maxrunpri s)\<rparr>
         else s')"

text \<open>
  \<open>setbackdq\<close> and \<open>setfrontdq\<close>: put the process on the queue, then, when it is schedulable, the
  same counting block as \<open>dq_sruninc\<close>.
\<close>

definition dq_append :: "(nat \<Rightarrow> proc) \<Rightarrow> dispq \<Rightarrow> nat \<Rightarrow> (nat \<Rightarrow> proc) \<times> dispq" where
  "dq_append tab dq pp =
     (case dq_last dq of
        None \<Rightarrow> (set_link pp None tab, dq\<lparr>dq_first := Some pp, dq_last := Some pp\<rparr>)
      | Some l \<Rightarrow> (set_link l (Some pp) (set_link pp None tab), dq\<lparr>dq_last := Some pp\<rparr>))"

definition dq_prepend :: "(nat \<Rightarrow> proc) \<Rightarrow> dispq \<Rightarrow> nat \<Rightarrow> (nat \<Rightarrow> proc) \<times> dispq" where
  "dq_prepend tab dq pp =
     (case dq_first dq of
        None \<Rightarrow> (set_link pp None tab, dq\<lparr>dq_first := Some pp, dq_last := Some pp\<rparr>)
      | Some f \<Rightarrow> (set_link pp (Some f) tab, dq\<lparr>dq_first := Some pp\<rparr>))"

definition setbackdq :: "disp \<Rightarrow> nat \<Rightarrow> disp" where
  "setbackdq s pp =
     (let ppri = p_pri (proc_tab s pp);
          (tab, dq) = dq_append (proc_tab s) (dispqs s ! ppri) pp;
          s' = s\<lparr>proc_tab := tab, dispqs := (dispqs s)[ppri := dq]\<rparr>
      in if srunnable (tab pp) then dq_sruninc s' ppri else s')"

definition setfrontdq :: "disp \<Rightarrow> nat \<Rightarrow> disp" where
  "setfrontdq s pp =
     (let ppri = p_pri (proc_tab s pp);
          (tab, dq) = dq_prepend (proc_tab s) (dispqs s ! ppri) pp;
          s' = s\<lparr>proc_tab := tab, dispqs := (dispqs s)[ppri := dq]\<rparr>
      in if srunnable (tab pp) then dq_sruninc s' ppri else s')"

text \<open>
  Unlinking \<open>rp\<close>, whose predecessor on the queue is \<open>prp\<close> (\<open>None\<close> when it is the first), as
  \<open>dispdeq\<close> and \<open>pswtch\<close> do.
\<close>

definition dq_unlink :: "(nat \<Rightarrow> proc) \<Rightarrow> dispq \<Rightarrow> nat option \<Rightarrow> nat \<Rightarrow> (nat \<Rightarrow> proc) \<times> dispq" where
  "dq_unlink tab dq prp rp =
     (case prp of
        None \<Rightarrow>
          (tab, if p_link (tab rp) = None then dq\<lparr>dq_first := None, dq_last := None\<rparr>
                else dq\<lparr>dq_first := p_link (tab rp)\<rparr>)
      | Some q \<Rightarrow>
          (set_link q (p_link (tab rp)) tab,
           if p_link (tab rp) = None then dq\<lparr>dq_last := Some q\<rparr> else dq))"

text \<open>
  The search loops walk the links and may not end on a cyclic queue, hence
  \<open>partial_function\<close>.  \<open>dispdeq_find\<close> returns the process found and its predecessor;
  \<open>pswtch_find\<close> the first schedulable process (\<open>None\<close> also when it runs off the queue, where
  the code dereferences a null pointer).
\<close>

partial_function (option) dispdeq_find ::
    "(nat \<Rightarrow> proc) \<Rightarrow> nat \<Rightarrow> nat option \<Rightarrow> nat option \<Rightarrow> (nat option \<times> nat option) option" where
  [code]: "dispdeq_find tab pp rp prp =
     (case rp of
        None \<Rightarrow> Some (None, prp)
      | Some r \<Rightarrow> if r = pp then Some (Some r, prp)
                 else dispdeq_find tab pp (p_link (tab r)) (Some r))"

partial_function (option) pswtch_find ::
    "(nat \<Rightarrow> proc) \<Rightarrow> nat option \<Rightarrow> nat option \<Rightarrow> (nat \<times> nat option) option" where
  [code]: "pswtch_find tab pp rp =
     (case pp of
        None \<Rightarrow> None
      | Some p \<Rightarrow> if srunnable (tab p) then Some (p, rp)
                 else pswtch_find tab (p_link (tab p)) (Some p))"

text \<open>
  \<open>dispdeq\<close>: the flag says whether the process was on its queue.  The counting block is the one
  of \<open>dq_srundec\<close>.
\<close>

definition dispdeq :: "disp \<Rightarrow> nat \<Rightarrow> (bool \<times> disp) option" where
  "dispdeq s pp =
     (let ppri = p_pri (proc_tab s pp);
          dq = dispqs s ! ppri
      in case dispdeq_find (proc_tab s) pp (dq_first dq) None of
           None \<Rightarrow> None
         | Some (None, _) \<Rightarrow> Some (False, s)
         | Some (Some rp, prp) \<Rightarrow>
             (let (tab, dq') = dq_unlink (proc_tab s) dq prp rp;
                  s' = s\<lparr>proc_tab := tab, dispqs := (dispqs s)[ppri := dq']\<rparr>
              in Some (True, if srunnable (tab rp) then dq_srundec s' ppri else s')))"

text \<open>
  \<open>pswtch\<close> in its three stages: leaving the current process; waiting for a runnable one, where
  \<open>runqueues\<close> (STREAMS service procedures) and \<open>idle\<close> (interrupts) are parameters and
  \<open>proc_sched\<close> is the process that idles; and the selection.  Its counting block has
  \<open>maxrunpri\<close> as priority, so the test of \<open>dq_srundec\<close> for it holds.  The part that switches
  the machine context is not modelled.
\<close>

definition pswtch_leave :: "disp \<Rightarrow> disp" where
  "pswtch_leave s =
     (let pp = curproc s;
          s' = s\<lparr>pswitches := pswitches s + 1, old_curproc := pp\<rparr>
      in case p_stat (proc_tab s pp) of
           SZOMB \<Rightarrow> s'\<lparr>oldproc := Some pp\<rparr>
         | SONPROC \<Rightarrow> s'\<lparr>proc_tab := (proc_tab s)(pp := (proc_tab s pp)\<lparr>p_stat := SRUN\<rparr>)\<rparr>
         | _ \<Rightarrow> s')"

partial_function (option) pswtch_wait ::
    "(disp \<Rightarrow> disp) \<Rightarrow> (disp \<Rightarrow> disp) \<Rightarrow> nat \<Rightarrow> disp \<Rightarrow> disp option" where
  [code]: "pswtch_wait runqueues idle proc_sched s =
     (if maxrunpri s = -1 then
        (if qrunflag s then pswtch_wait runqueues idle proc_sched (runqueues s)
         else pswtch_wait runqueues idle proc_sched
           ((idle (s\<lparr>curpri := 0, curproc := proc_sched, idleswtch := idleswtch s + 1\<rparr>))\<lparr>idleswtch := 0\<rparr>))
      else Some s)"

definition pswtch_select :: "disp \<Rightarrow> disp option" where
  "pswtch_select s0 =
     (let s = s0\<lparr>runrun := 0, kprunrun := 0, npwakecnt := 0\<rparr>;
          pri = nat (maxrunpri s);
          dq = dispqs s ! pri
      in case pswtch_find (proc_tab s) (dq_first dq) None of
           None \<Rightarrow> None
         | Some (pp, rp) \<Rightarrow>
             (let (tab, dq') = dq_unlink (proc_tab s) dq (if dq_first dq = Some pp then None else rp) pp;
                  s' = dq_srundec (s\<lparr>proc_tab := tab, dispqs := (dispqs s)[pri := dq']\<rparr>) pri
              in Some (s'\<lparr>proc_tab := tab(pp := (tab pp)\<lparr>p_stat := SONPROC\<rparr>),
                          curpri := p_pri (tab pp), curproc := pp\<rparr>)))"

definition pswtch :: "(disp \<Rightarrow> disp) \<Rightarrow> (disp \<Rightarrow> disp) \<Rightarrow> nat \<Rightarrow> disp \<Rightarrow> disp option" where
  "pswtch runqueues idle proc_sched s =
     (case pswtch_wait runqueues idle proc_sched (pswtch_leave s) of
        None \<Rightarrow> None
      | Some s' \<Rightarrow> pswtch_select s')"

text \<open>\<open>getcid\<close>: the index of a class name in the class table.\<close>

fun getcid_from :: "nat \<Rightarrow> string list \<Rightarrow> string \<Rightarrow> errno + nat" where
  "getcid_from i [] clname = Inl EINVAL"
| "getcid_from i (c # cs) clname = (if c = clname then Inr i else getcid_from (i + 1) cs clname)"

definition getcid :: "string list \<Rightarrow> string \<Rightarrow> errno + nat" where
  "getcid clss clname = getcid_from 0 clss clname"

section \<open>Linked queues as lists\<close>

fun lpath :: "(nat \<Rightarrow> nat option) \<Rightarrow> nat option \<Rightarrow> nat list \<Rightarrow> bool" where
  "lpath lk p [] \<longleftrightarrow> p = None"
| "lpath lk p (x # xs) \<longleftrightarrow> p = Some x \<and> lpath lk (lk x) xs"

definition links :: "(nat \<Rightarrow> proc) \<Rightarrow> nat \<Rightarrow> nat option" where
  "links tab x = p_link (tab x)"

definition dq_holds :: "(nat \<Rightarrow> proc) \<Rightarrow> dispq \<Rightarrow> nat list \<Rightarrow> bool" where
  "dq_holds tab dq xs \<longleftrightarrow> lpath (links tab) (dq_first dq) xs \<and>
     dq_last dq = (if xs = [] then None else Some (last xs)) \<and> distinct xs"

lemma links_set_link [simp]: "links (set_link x v tab) = (links tab)(x := v)"
  by (rule ext) (simp add: links_def set_link_def)

lemma set_link_fields [simp]:
  "p_flag (set_link x v tab y) = p_flag (tab y)" "p_pri (set_link x v tab y) = p_pri (tab y)"
  "p_stat (set_link x v tab y) = p_stat (tab y)"
  by (simp_all add: set_link_def)

lemma srunnable_set_link [simp]: "srunnable (set_link x v tab y) = srunnable (tab y)"
  by (simp add: srunnable_def)

lemma lpath_frame: "x \<notin> set xs \<Longrightarrow> lpath (lk(x := v)) p xs = lpath lk p xs"
  by (induction xs arbitrary: p) auto

lemma lpath_first: "lpath lk p xs \<Longrightarrow> p = (if xs = [] then None else Some (hd xs))"
  by (cases xs) auto

lemma lpath_snoc:
  "lpath lk p xs \<Longrightarrow> distinct xs \<Longrightarrow> y \<notin> set xs \<Longrightarrow> xs \<noteq> [] \<Longrightarrow>
     lpath (lk(y := None, last xs := Some y)) p (xs @ [y])"
proof (induction xs arbitrary: p)
  case (Cons x xs)
  show ?case
  proof (cases xs)
    case Nil
    then show ?thesis using Cons.prems by auto
  next
    case (Cons a as)
    then have "last xs \<noteq> x" "y \<noteq> x" using Cons.prems last_in_set [of xs] by auto
    then show ?thesis using Cons.IH [of "lk x"] Cons.prems \<open>xs = a # as\<close> by simp
  qed
qed simp

lemma lpath_remove:
  assumes "lpath lk p (as @ x # bs)" and "distinct (as @ x # bs)" and "as \<noteq> []"
  shows "lpath (lk(last as := lk x)) p (as @ bs)"
  using assms
proof (induction as arbitrary: p)
  case (Cons a as)
  show ?case
  proof (cases as)
    case Nil
    then show ?thesis using Cons.prems lpath_frame [of a bs lk "lk x" "lk x"] by (simp add: fun_upd_def)
  next
    case (Cons b cs)
    then have "last as \<noteq> a" using Cons.prems last_in_set [of as] by auto
    then show ?thesis using Cons.IH [of "lk a"] Cons.prems \<open>as = b # cs\<close> by simp
  qed
qed simp

lemma lpath_at: "lpath lk p (as @ x # bs) \<Longrightarrow> lpath lk (lk x) bs"
  by (induction as arbitrary: p) auto

lemma dq_append_holds:
  assumes "dq_holds tab dq xs" and "pp \<notin> set xs" and "dq_append tab dq pp = (tab', dq')"
  shows "dq_holds tab' dq' (xs @ [pp])"
  using assms lpath_snoc [of "links tab" "dq_first dq" xs pp]
  by (cases "xs = []") (auto simp: dq_holds_def dq_append_def)

lemma dq_prepend_holds:
  assumes "dq_holds tab dq xs" and "pp \<notin> set xs" and "dq_prepend tab dq pp = (tab', dq')"
  shows "dq_holds tab' dq' (pp # xs)"
  using assms lpath_first [of "links tab" "dq_first dq" xs]
  by (cases "xs = []") (auto simp: dq_holds_def dq_prepend_def lpath_frame)

lemma dq_unlink_holds:
  assumes h: "dq_holds tab dq (as @ x # bs)"
    and u: "dq_unlink tab dq (if as = [] then None else Some (last as)) x = (tab', dq')"
  shows "dq_holds tab' dq' (as @ bs)"
proof -
  have p: "lpath (links tab) (dq_first dq) (as @ x # bs)" "distinct (as @ x # bs)"
    "dq_last dq = Some (last (x # bs))"
    using h by (auto simp: dq_holds_def)
  have nx: "p_link (tab x) = (if bs = [] then None else Some (hd bs))"
    using lpath_first [OF lpath_at [OF p(1)]] by (simp add: links_def)
  show ?thesis
  proof (cases "as = []")
    case True
    then show ?thesis using p nx u by (cases bs) (auto simp: dq_holds_def dq_unlink_def links_def)
  next
    case False
    have "links tab x = p_link (tab x)" by (simp add: links_def)
    then show ?thesis
      using False p nx u lpath_remove [OF p(1,2) False]
      by (cases bs) (auto simp: dq_holds_def dq_unlink_def)
  qed
qed

text \<open>Queues that share no process with the one that is changed keep their lists.\<close>

lemma dq_holds_set_link: "x \<notin> set ys \<Longrightarrow> dq_holds (set_link x v tab) d ys = dq_holds tab d ys"
  by (simp add: dq_holds_def lpath_frame)

lemma dq_append_frame:
  assumes "dq_append tab dq pp = (tab', dq')" "dq_holds tab dq xs"
    "pp \<notin> set ys" "set xs \<inter> set ys = {}"
  shows "dq_holds tab' d ys = dq_holds tab d ys"
proof (cases "xs = []")
  case False
  then have "last xs \<notin> set ys" using assms(4) last_in_set by blast
  then show ?thesis
    using assms False by (auto simp: dq_append_def dq_holds_set_link) (auto simp: dq_holds_def dq_append_def lpath_frame)
qed (use assms in \<open>auto simp: dq_append_def dq_holds_set_link dq_holds_def lpath_frame split: option.splits\<close>)

lemma dq_prepend_frame:
  assumes "dq_prepend tab dq pp = (tab', dq')" "pp \<notin> set ys"
  shows "dq_holds tab' d ys = dq_holds tab d ys"
  using assms by (auto simp: dq_prepend_def dq_holds_set_link split: option.splits)

lemma dq_unlink_frame:
  assumes "dq_unlink tab dq prp x = (tab', dq')" "\<And>q. prp = Some q \<Longrightarrow> q \<notin> set ys"
  shows "dq_holds tab' d ys = dq_holds tab d ys"
  using assms by (auto simp: dq_unlink_def dq_holds_set_link split: option.splits)

lemma dispdeq_find_found:
  "lpath (links tab) p (as @ pp # bs) \<Longrightarrow> pp \<notin> set as \<Longrightarrow>
     dispdeq_find tab pp p prp = Some (Some pp, if as = [] then prp else Some (last as))"
  by (induction as arbitrary: p prp) (auto simp: dispdeq_find.simps links_def)

lemma dispdeq_find_none:
  "lpath (links tab) p xs \<Longrightarrow> pp \<notin> set xs \<Longrightarrow>
     dispdeq_find tab pp p prp = Some (None, if xs = [] then prp else Some (last xs))"
  by (induction xs arbitrary: p prp) (auto simp: dispdeq_find.simps links_def)

lemma pswtch_find_first:
  "lpath (links tab) p (as @ x # bs) \<Longrightarrow> \<forall>y \<in> set as. \<not> srunnable (tab y) \<Longrightarrow> srunnable (tab x) \<Longrightarrow>
     pswtch_find tab p rp = Some (x, if as = [] then rp else Some (last as))"
  by (induction as arbitrary: p rp) (auto simp: pswtch_find.simps links_def)

section \<open>The abstraction: one list of processes per priority\<close>

definition queues_ok :: "disp \<Rightarrow> nat list list \<Rightarrow> bool" where
  "queues_ok s qs \<longleftrightarrow> length (dispqs s) = length qs \<and>
     (\<forall>p < length qs. dq_holds (proc_tab s) (dispqs s ! p) (qs ! p) \<and>
        (\<forall>x \<in> set (qs ! p). p_pri (proc_tab s x) = p))"

definition scount :: "(nat \<Rightarrow> proc) \<Rightarrow> nat list \<Rightarrow> int" where
  "scount tab xs = int (length (filter (\<lambda>x. srunnable (tab x)) xs))"

definition counts_ok :: "disp \<Rightarrow> int list \<Rightarrow> bool" where
  "counts_ok s cs \<longleftrightarrow> length (dispqs s) = length cs \<and> length cs \<le> 32 * length (dqactmap s) \<and>
     (\<forall>p < length cs. dq_sruncnt (dispqs s ! p) = cs ! p \<and> 0 \<le> cs ! p) \<and>
     bt_members (dqactmap s) = {p. p < length cs \<and> 0 < cs ! p} \<and>
     srunprocs s = sum_list cs \<and> bt.tops (dqactmap s) (maxrunpri s)"

definition disp_rel :: "disp \<Rightarrow> nat list list \<Rightarrow> bool" where
  "disp_rel s qs \<longleftrightarrow> queues_ok s qs \<and> counts_ok s (map (scount (proc_tab s)) qs)"

lemma sum_list_zero_iff:
  "\<forall>p < length cs. 0 \<le> cs ! p \<Longrightarrow> sum_list cs = 0 \<longleftrightarrow> (\<forall>p < length cs. cs ! p = (0 :: int))"
proof -
  assume "\<forall>p < length cs. 0 \<le> cs ! p"
  then have "\<And>x. x \<in> set cs \<Longrightarrow> 0 \<le> x" by (auto simp: in_set_conv_nth)
  then show ?thesis
    by (simp add: sum_list_nonneg_eq_0_iff all_set_conv_all_nth)
qed

lemma dq_sruninc_counts:
  assumes ok: "counts_ok s cs" and p: "p < length cs"
  shows "counts_ok (dq_sruninc s p) (cs[p := cs ! p + 1])"
proof -
  have cap: "p < 32 * length (dqactmap s)" using ok p by (simp add: counts_ok_def)
  have sum: "sum_list (cs[p := cs ! p + 1]) = sum_list cs + 1"
    using sum_list_update [OF p, of "\<lambda>x. x" "cs ! p + 1"] by simp
  show ?thesis
  proof (cases "cs ! p = 0")
    case True
    then show ?thesis
      using ok p sum members_set [OF cap] bt.set_tops [OF _ cap]
      by (auto simp: counts_ok_def dq_sruninc_def Let_def nth_list_update)
  next
    case False
    then show ?thesis
      using ok p sum by (auto simp: counts_ok_def dq_sruninc_def Let_def nth_list_update) 
  qed
qed

lemma dq_srundec_counts:
  assumes ok: "counts_ok s cs" and p: "p < length cs" and pos: "0 < cs ! p"
  shows "counts_ok (dq_srundec s p) (cs[p := cs ! p - 1])"
proof -
  have cap: "p < 32 * length (dqactmap s)" using ok p by (simp add: counts_ok_def)
  have sum: "sum_list (cs[p := cs ! p - 1]) = sum_list cs - 1"
    using sum_list_update [OF p, of "\<lambda>x. x" "cs ! p - 1"] by simp
  have cl: "(dqactmap s)[drop_bit 5 p := dqactmap s ! drop_bit 5 p AND NOT (bt_biw p)] = bt_clear (dqactmap s) p"
    by (simp add: bt_clear_def bt_wim_def)
  show ?thesis
  proof (cases "cs ! p = 1")
    case True
    let ?cs = "cs[p := cs ! p - 1]"
    have mem: "bt_members (bt_clear (dqactmap s) p) = {q. q < length ?cs \<and> 0 < ?cs ! q}"
      using ok True p by (auto simp: members_clear [OF cap] counts_ok_def nth_list_update)
    have nonneg: "\<forall>q < length ?cs. 0 \<le> ?cs ! q"
      using ok pos p by (auto simp: counts_ok_def nth_list_update)
    have t: "bt.tops (bt_clear (dqactmap s) p)
       (if srunprocs s - 1 = 0 then -1
        else if int p = maxrunpri s then bt_gethighbit (bt_clear (dqactmap s) p) (drop_bit 5 (nat (maxrunpri s)))
        else maxrunpri s)"
    proof (cases "srunprocs s - 1 = 0")
      case True
      then have "bt_members (bt_clear (dqactmap s) p) = {}"
        using ok sum sum_list_zero_iff [OF nonneg] mem by (auto simp: counts_ok_def)
      then show ?thesis using True by (simp add: bt.tops_def)
    next
      case False
      have top: "bt.tops (dqactmap s) (maxrunpri s)" using ok by (simp add: counts_ok_def)
      show ?thesis
      proof (cases "maxrunpri s = int p")
        case True
        then show ?thesis using False bt.clear_high_tops [OF _ cap] top by simp
      next
        case neq: False
        then show ?thesis using False bt.clear_other_tops [OF top cap] by simp
      qed
    qed
    show ?thesis
      using ok True p sum mem t nonneg
      by (simp add: counts_ok_def dq_srundec_def Let_def cl nth_list_update)
  next
    case False
    then show ?thesis
      using ok p sum pos by (auto simp: counts_ok_def dq_srundec_def Let_def nth_list_update) 
  qed
qed

lemma dq_count_frame:
  "proc_tab (dq_sruninc s p) = proc_tab s" "proc_tab (dq_srundec s p) = proc_tab s"
  "queues_ok (dq_sruninc s p) qs = queues_ok s qs" "queues_ok (dq_srundec s p) qs = queues_ok s qs"
proof -
  show "proc_tab (dq_sruninc s p) = proc_tab s" "proc_tab (dq_srundec s p) = proc_tab s"
    by (simp_all add: dq_sruninc_def dq_srundec_def Let_def)
  have h: "dq_holds t (dq\<lparr>dq_sruncnt := c\<rparr>) xs = dq_holds t dq xs" for t dq c xs
    by (simp add: dq_holds_def)
  have "dq_holds t (ds[p := (ds ! p)\<lparr>dq_sruncnt := c\<rparr>] ! q) xs = dq_holds t (ds ! q) xs" for t ds c xs q
    by (cases "p < length ds") (simp_all add: nth_list_update h not_less list_update_beyond)
  then show "queues_ok (dq_sruninc s p) qs = queues_ok s qs" "queues_ok (dq_srundec s p) qs = queues_ok s qs"
    by (simp_all add: queues_ok_def dq_sruninc_def dq_srundec_def Let_def)
qed

lemma queues_okD:
  assumes "queues_ok s qs" "p < length qs"
  shows "dq_holds (proc_tab s) (dispqs s ! p) (qs ! p)" "x \<in> set (qs ! p) \<Longrightarrow> p_pri (proc_tab s x) = p"
  using assms by (auto simp: queues_ok_def)

lemma queues_ok_disjoint:
  assumes "queues_ok s qs" "p < length qs" "q < length qs" "p \<noteq> q"
  shows "set (qs ! p) \<inter> set (qs ! q) = {}"
  using queues_okD(2) [OF assms(1)] assms(2-4) by blast

text \<open>Replacing one queue: the other queues keep their lists.\<close>

lemma queues_ok_update:
  assumes ok: "queues_ok s qs" and p: "p < length qs"
    and h: "dq_holds tab dq xs"
    and pri: "\<And>x. p_pri (tab x) = p_pri (proc_tab s x)"
    and xs: "\<And>x. x \<in> set xs \<Longrightarrow> p_pri (proc_tab s x) = p"
    and frame: "\<And>q d. q < length qs \<Longrightarrow> q \<noteq> p \<Longrightarrow> dq_holds (proc_tab s) d (qs ! q) \<Longrightarrow> dq_holds tab d (qs ! q)"
  shows "queues_ok (s\<lparr>proc_tab := tab, dispqs := (dispqs s)[p := dq]\<rparr>) (qs[p := xs])"
  using ok p h xs frame by (auto simp: queues_ok_def nth_list_update pri)

lemma counts_ok_update:
  assumes "counts_ok s cs" "dq_sruncnt dq = dq_sruncnt (dispqs s ! p)"
  shows "counts_ok (s\<lparr>proc_tab := tab, dispqs := (dispqs s)[p := dq]\<rparr>) cs"
  using assms
  by (cases "p < length (dispqs s)") (auto simp: counts_ok_def nth_list_update not_less list_update_beyond)

lemma scount_cong: "(\<And>x. srunnable (tab x) = srunnable (tab' x)) \<Longrightarrow> scount tab = scount tab'"
  by (simp add: scount_def fun_eq_iff)

lemma scount_ins:
  "scount tab (as @ x # bs) = scount tab (as @ bs) + (if srunnable (tab x) then 1 else 0)"
  by (simp add: scount_def)

lemma dq_ops_fields:
  assumes "dq_append tab dq pp = (tab', dq') \<or> dq_prepend tab dq pp = (tab', dq') \<or>
    dq_unlink tab dq prp pp = (tab', dq')"
  shows "p_pri (tab' x) = p_pri (tab x)" "srunnable (tab' x) = srunnable (tab x)"
    "p_flag (tab' x) = p_flag (tab x)" "p_stat (tab' x) = p_stat (tab x)"
    "dq_sruncnt dq' = dq_sruncnt dq"
  using assms by (auto simp: dq_append_def dq_prepend_def dq_unlink_def split: option.splits)

text \<open>The common step of \<open>setbackdq\<close> and \<open>setfrontdq\<close>.\<close>

lemma enqueue_rel:
  assumes rel: "disp_rel s qs" and p: "p < length qs" "p = p_pri (proc_tab s pp)"
    and op: "dq_append (proc_tab s) (dispqs s ! p) pp = (tab, dq) \<and> xs = qs ! p @ [pp] \<or>
      dq_prepend (proc_tab s) (dispqs s ! p) pp = (tab, dq) \<and> xs = pp # qs ! p"
    and new: "pp \<notin> set (qs ! p)"
  defines "s' \<equiv> s\<lparr>proc_tab := tab, dispqs := (dispqs s)[p := dq]\<rparr>"
  shows "disp_rel (if srunnable (tab pp) then dq_sruninc s' p else s') (qs[p := xs])"
proof -
  have q: "queues_ok s qs" and c: "counts_ok s (map (scount (proc_tab s)) qs)"
    using rel by (auto simp: disp_rel_def)
  have fields: "\<And>x. p_pri (tab x) = p_pri (proc_tab s x)" "\<And>x. srunnable (tab x) = srunnable (proc_tab s x)"
    "dq_sruncnt dq = dq_sruncnt (dispqs s ! p)"
    using op dq_ops_fields [of "proc_tab s" "dispqs s ! p" pp tab dq] by auto
  have other: "pp \<notin> set (qs ! r)" if "r < length qs" for r
    using queues_okD(2) [OF q that] p new by (cases "r = p") auto
  have h: "dq_holds tab dq xs"
    using op dq_append_holds [OF queues_okD(1) [OF q p(1)] new] dq_prepend_holds [OF queues_okD(1) [OF q p(1)] new]
    by auto
  have q': "queues_ok s' (qs[p := xs])"
    unfolding s'_def
  proof (rule queues_ok_update [OF q p(1) h fields(1)])
    fix x assume "x \<in> set xs"
    then show "p_pri (proc_tab s x) = p" using op p queues_okD(2) [OF q p(1)] by auto
  next
    fix r d assume r: "r < length qs" "r \<noteq> p" and d: "dq_holds (proc_tab s) d (qs ! r)"
    have dj: "set (qs ! p) \<inter> set (qs ! r) = {}" using queues_ok_disjoint [OF q p(1) r(1)] r(2) by simp
    from op show "dq_holds tab d (qs ! r)"
    proof
      assume "dq_append (proc_tab s) (dispqs s ! p) pp = (tab, dq) \<and> xs = qs ! p @ [pp]"
      then show ?thesis
        using dq_append_frame [OF _ queues_okD(1) [OF q p(1)] other [OF r(1)] dj] d by blast
    next
      assume "dq_prepend (proc_tab s) (dispqs s ! p) pp = (tab, dq) \<and> xs = pp # qs ! p"
      then show ?thesis using dq_prepend_frame [OF _ other [OF r(1)]] d by blast
    qed
  qed
  have c': "counts_ok s' (map (scount (proc_tab s)) qs)"
    unfolding s'_def using c fields(3) by (rule counts_ok_update)
  have sc: "scount tab = scount (proc_tab s)" by (rule scount_cong) (rule fields(2))
  have xs: "scount (proc_tab s) xs = scount (proc_tab s) (qs ! p) + (if srunnable (proc_tab s pp) then 1 else 0)"
    using op scount_ins [of "proc_tab s" "qs ! p" pp "[]"] scount_ins [of "proc_tab s" "[]" pp "qs ! p"] by auto
  have tab: "proc_tab s' = tab" by (simp add: s'_def)
  show ?thesis
  proof (cases "srunnable (proc_tab s pp)")
    case True
    then show ?thesis
      using q' dq_sruninc_counts [OF c', of p] p(1) xs
      by (simp add: disp_rel_def dq_count_frame tab sc fields(2) map_update)
  next
    case False
    then show ?thesis
      using q' c' xs p(1) list_update_id [of "map (scount (proc_tab s)) qs" p]
      by (simp add: disp_rel_def tab sc fields(2) map_update)
  qed
qed

text \<open>The common step of \<open>dispdeq\<close> and \<open>pswtch\<close>: unlinking a process that is on its queue.\<close>

lemma unlink_rel:
  assumes rel: "disp_rel s qs" and p: "p < length qs" and at: "qs ! p = as @ x # bs"
    and op: "dq_unlink (proc_tab s) (dispqs s ! p) (if as = [] then None else Some (last as)) x = (tab, dq)"
  defines "s' \<equiv> s\<lparr>proc_tab := tab, dispqs := (dispqs s)[p := dq]\<rparr>"
  shows "disp_rel (if srunnable (tab x) then dq_srundec s' p else s') (qs[p := as @ bs])"
    and "queues_ok s' (qs[p := as @ bs])"
    and "x \<notin> set (as @ bs)"
proof -
  have q: "queues_ok s qs" and c: "counts_ok s (map (scount (proc_tab s)) qs)"
    using rel by (auto simp: disp_rel_def)
  have fields: "\<And>x. p_pri (tab x) = p_pri (proc_tab s x)" "\<And>x. srunnable (tab x) = srunnable (proc_tab s x)"
    "dq_sruncnt dq = dq_sruncnt (dispqs s ! p)"
    using dq_ops_fields [OF disjI2 [OF disjI2 [OF op]]] by auto
  have h: "dq_holds tab dq (as @ bs)"
    using dq_unlink_holds [OF _ op] queues_okD(1) [OF q p] at by simp
  show x: "x \<notin> set (as @ bs)" using queues_okD(1) [OF q p] at by (simp add: dq_holds_def)
  show q': "queues_ok s' (qs[p := as @ bs])"
    unfolding s'_def
  proof (rule queues_ok_update [OF q p h fields(1)])
    fix y assume "y \<in> set (as @ bs)"
    then show "p_pri (proc_tab s y) = p" using queues_okD(2) [OF q p] at by auto
  next
    fix r d assume r: "r < length qs" "r \<noteq> p" and d: "dq_holds (proc_tab s) d (qs ! r)"
    have dj: "set (qs ! p) \<inter> set (qs ! r) = {}" using queues_ok_disjoint [OF q p r(1)] r(2) by simp
    have "y \<notin> set (qs ! r)" if "(if as = [] then None else Some (last as)) = Some y" for y
    proof -
      have "as \<noteq> []" "y = last as" using that by (auto split: if_splits)
      then have "y \<in> set (qs ! p)" using at by simp
      then show ?thesis using dj by blast
    qed
    then show "dq_holds tab d (qs ! r)" using dq_unlink_frame [OF op] d by blast
  qed
  have c': "counts_ok s' (map (scount (proc_tab s)) qs)"
    unfolding s'_def using c fields(3) by (rule counts_ok_update)
  have sc: "scount tab = scount (proc_tab s)" by (rule scount_cong) (rule fields(2))
  have cnt: "scount (proc_tab s) (qs ! p) = scount (proc_tab s) (as @ bs) + (if srunnable (proc_tab s x) then 1 else 0)"
    by (simp only: at scount_ins)
  have nn: "0 \<le> scount (proc_tab s) (as @ bs)" by (simp add: scount_def)
  have tab: "proc_tab s' = tab" by (simp add: s'_def)
  show "disp_rel (if srunnable (tab x) then dq_srundec s' p else s') (qs[p := as @ bs])"
  proof (cases "srunnable (proc_tab s x)")
    case True
    then show ?thesis
      using q' dq_srundec_counts [OF c', of p] p cnt nn
      by (simp add: disp_rel_def dq_count_frame tab sc fields(2) map_update)
  next
    case False
    then show ?thesis
      using q' c' cnt p list_update_id [of "map (scount (proc_tab s)) qs" p]
      by (simp add: disp_rel_def tab sc fields(2) map_update)
  qed
qed

text \<open>
  A state in which \<open>maxrunpri\<close> is not \<open>-1\<close> has a schedulable process on the queue of that
  priority, and none on a queue of a higher one.
\<close>

lemma maxrunpri_queue:
  assumes rel: "disp_rel s qs" and m: "maxrunpri s \<noteq> -1"
  shows "nat (maxrunpri s) < length qs" "\<exists>x \<in> set (qs ! nat (maxrunpri s)). srunnable (proc_tab s x)"
    "\<And>p x. nat (maxrunpri s) < p \<Longrightarrow> p < length qs \<Longrightarrow> x \<in> set (qs ! p) \<Longrightarrow> \<not> srunnable (proc_tab s x)"
proof -
  have t: "bt.tops (dqactmap s) (maxrunpri s)"
    and mem: "bt_members (dqactmap s) = {p. p < length qs \<and> 0 < scount (proc_tab s) (qs ! p)}"
    using rel by (auto simp: disp_rel_def counts_ok_def)
  have pos: "0 < scount (proc_tab s) xs \<longleftrightarrow> (\<exists>x \<in> set xs. srunnable (proc_tab s x))" for xs
    by (auto simp: scount_def filter_empty_conv)
  have in_mem: "nat (maxrunpri s) \<in> bt_members (dqactmap s)" using bt.tops_cases [OF t] m by simp
  then show "nat (maxrunpri s) < length qs" "\<exists>x \<in> set (qs ! nat (maxrunpri s)). srunnable (proc_tab s x)"
    using mem pos by auto
  fix p x assume p: "nat (maxrunpri s) < p" "p < length qs" "x \<in> set (qs ! p)"
  show "\<not> srunnable (proc_tab s x)"
  proof
    assume "srunnable (proc_tab s x)"
    then have "p \<in> bt_members (dqactmap s)" using mem pos p(2,3) by auto
    then show False using bt.tops_ge [OF t] p(1) bt.tops_cases [OF t] m by fastforce
  qed
qed

lemma pswtch_wait_ready: "maxrunpri s \<noteq> -1 \<Longrightarrow> pswtch_wait rq idle ps s = Some s"
  by (simp add: pswtch_wait.simps)

lemma disp_rel_cong:
  assumes "\<And>x. p_link (proc_tab s' x) = p_link (proc_tab s x)" "\<And>x. p_pri (proc_tab s' x) = p_pri (proc_tab s x)"
    "\<And>x. p_flag (proc_tab s' x) = p_flag (proc_tab s x)"
    "dispqs s' = dispqs s" "dqactmap s' = dqactmap s" "srunprocs s' = srunprocs s" "maxrunpri s' = maxrunpri s"
  shows "disp_rel s' qs = disp_rel s qs"
proof -
  have "links (proc_tab s') = links (proc_tab s)" using assms(1) by (simp add: links_def fun_eq_iff)
  then have q: "queues_ok s' qs = queues_ok s qs"
    by (simp add: queues_ok_def dq_holds_def assms)
  have "scount (proc_tab s') = scount (proc_tab s)"
    by (rule scount_cong) (simp add: srunnable_def assms)
  then show ?thesis using q by (simp add: disp_rel_def counts_ok_def assms)
qed

lemma pswtch_leave_fields:
  "maxrunpri (pswtch_leave s) = maxrunpri s" "dispqs (pswtch_leave s) = dispqs s"
  "dqactmap (pswtch_leave s) = dqactmap s" "srunprocs (pswtch_leave s) = srunprocs s"
  "p_link (proc_tab (pswtch_leave s) x) = p_link (proc_tab s x)"
  "p_pri (proc_tab (pswtch_leave s) x) = p_pri (proc_tab s x)"
  "p_flag (proc_tab (pswtch_leave s) x) = p_flag (proc_tab s x)"
  by (auto simp: pswtch_leave_def Let_def split: p_stat.splits)

lemma pswtch_leave_rel: "disp_rel (pswtch_leave s) qs = disp_rel s qs"
  by (rule disp_rel_cong) (simp_all add: pswtch_leave_fields)

lemma pswtch_select_spec:
  assumes rel: "disp_rel s qs" and m: "maxrunpri s \<noteq> -1"
  defines "p \<equiv> nat (maxrunpri s)"
  shows "\<exists>as x bs s'. pswtch_select s = Some s' \<and> qs ! p = as @ x # bs \<and>
    (\<forall>y \<in> set as. \<not> srunnable (proc_tab s y)) \<and> srunnable (proc_tab s x) \<and>
    disp_rel s' (qs[p := as @ bs]) \<and> curproc s' = x \<and> curpri s' = p \<and> runrun s' = 0 \<and>
    p_stat (proc_tab s' x) = SONPROC"
proof -
  note top = maxrunpri_queue [OF rel m, folded p_def]
  obtain as x bs where at: "qs ! p = as @ x # bs" "srunnable (proc_tab s x)"
      "\<forall>y \<in> set as. \<not> srunnable (proc_tab s y)"
    using split_list_first_prop [OF top(2)] by auto
  have q: "queues_ok s qs" using rel by (simp add: disp_rel_def)
  have h: "lpath (links (proc_tab s)) (dq_first (dispqs s ! p)) (as @ x # bs)" "distinct (as @ x # bs)"
    using queues_okD(1) [OF q top(1)] at(1) by (auto simp: dq_holds_def)
  have fnd: "pswtch_find (proc_tab s) (dq_first (dispqs s ! p)) None = Some (x, if as = [] then None else Some (last as))"
    using pswtch_find_first [OF h(1) at(3,2)] by simp
  have fst: "dq_first (dispqs s ! p) = Some x \<longleftrightarrow> as = []"
    using lpath_first [OF h(1)] h(2) by (cases as) auto
  obtain tab dq where u: "dq_unlink (proc_tab s) (dispqs s ! p) (if as = [] then None else Some (last as)) x = (tab, dq)"
    by (cases "dq_unlink (proc_tab s) (dispqs s ! p) (if as = [] then None else Some (last as)) x")
  define s1 where "s1 = s\<lparr>runrun := 0, kprunrun := 0, npwakecnt := 0\<rparr>"
  have rel1: "disp_rel s1 qs" using rel by (subst disp_rel_cong [of _ s]) (simp_all add: s1_def)
  define s2 where "s2 = dq_srundec (s1\<lparr>proc_tab := tab, dispqs := (dispqs s1)[p := dq]\<rparr>) p"
  have s1: "proc_tab s1 = proc_tab s" "dispqs s1 = dispqs s" "maxrunpri s1 = maxrunpri s"
    by (simp_all add: s1_def)
  have tabx: "srunnable (tab y) = srunnable (proc_tab s y)" "p_pri (tab y) = p_pri (proc_tab s y)" for y
    using dq_ops_fields [OF disjI2 [OF disjI2 [OF u]]] by auto
  have rel2: "disp_rel s2 (qs[p := as @ bs])"
    using unlink_rel(1) [OF rel1 top(1) at(1), of tab dq] u at(2) tabx by (simp add: s1 s2_def)
  have run2: "runrun s2 = 0" "proc_tab s2 = tab"
    by (simp_all add: s2_def dq_srundec_def Let_def s1_def)
  let ?s' = "s2\<lparr>proc_tab := tab(x := (tab x)\<lparr>p_stat := SONPROC\<rparr>), curpri := p_pri (tab x), curproc := x\<rparr>"
  have fnd': "(if dq_first (dispqs s ! p) = Some x then None else if as = [] then None else Some (last as)) =
      (if as = [] then None else Some (last as))" using fst by simp
  have "pswtch_select s = Some ?s'"
    unfolding pswtch_select_def Let_def s1_def [symmetric] s1 p_def [symmetric] fnd
    by (simp add: fnd' u s2_def s1)
  moreover have "disp_rel ?s' (qs[p := as @ bs])"
    using rel2 by (subst disp_rel_cong [of _ s2]) (simp_all add: run2)
  moreover have "p_pri (tab x) = p" using tabx queues_okD(2) [OF q top(1), of x] at(1) by simp
  ultimately show ?thesis using at run2 by (intro exI [of _ as] exI [of _ x] exI [of _ bs] exI [of _ ?s']) simp
qed

lemma dispdeq_found:
  assumes rel: "disp_rel s qs" and p: "p = p_pri (proc_tab s x)" "p < length qs" and at: "qs ! p = as @ x # bs"
  shows "\<exists>s'. dispdeq s x = Some (True, s') \<and> disp_rel s' (qs[p := as @ bs])"
proof -
  have q: "queues_ok s qs" using rel by (simp add: disp_rel_def)
  have h: "lpath (links (proc_tab s)) (dq_first (dispqs s ! p)) (as @ x # bs)" "x \<notin> set as"
    using queues_okD(1) [OF q p(2)] at by (auto simp: dq_holds_def)
  obtain tab dq where u: "dq_unlink (proc_tab s) (dispqs s ! p) (if as = [] then None else Some (last as)) x = (tab, dq)"
    by (cases "dq_unlink (proc_tab s) (dispqs s ! p) (if as = [] then None else Some (last as)) x")
  show ?thesis
    using unlink_rel(1) [OF rel p(2) at u] dispdeq_find_found [OF h, of None] u
    unfolding dispdeq_def p(1) [symmetric] Let_def by (auto simp: Let_def)
qed

lemma dispdeq_not_found:
  assumes rel: "disp_rel s qs" and p: "p_pri (proc_tab s x) < length qs" and n: "x \<notin> set (qs ! p_pri (proc_tab s x))"
  shows "dispdeq s x = Some (False, s)"
proof -
  have q: "queues_ok s qs" using rel by (simp add: disp_rel_def)
  have "lpath (links (proc_tab s)) (dq_first (dispqs s ! p_pri (proc_tab s x))) (qs ! p_pri (proc_tab s x))"
    using queues_okD(1) [OF q p] by (simp add: dq_holds_def)
  then show ?thesis using dispdeq_find_none [OF _ n] by (simp add: dispdeq_def Let_def)
qed

section \<open>Properties\<close>

text \<open>A dispatcher with 40 priorities and four processes for the witnesses; process 2 is not loaded.\<close>

definition proc0 :: proc where
  "proc0 = \<lparr>p_link = None, p_flag = SLOAD, p_pri = 3, p_stat = SRUN\<rparr>"

definition disp0 :: disp where
  "disp0 = \<lparr>proc_tab = (\<lambda>x. if x = 2 then proc0\<lparr>p_flag := 0, p_pri := 39\<rparr>
       else if x = 3 then proc0\<lparr>p_pri := 39\<rparr> else proc0),
     dispqs = [], dqactmap = [], srunprocs = 0, maxrunpri = 0, curproc = 0, curpri = 0, old_curproc = 0,
     oldproc = None, runrun = 0, kprunrun = 0, npwakecnt = 0, idleswtch = 0, qrunflag = False, pswitches = 0\<rparr>"

lemma dispinit_rel:
  assumes "dispinit cls qmem mapmem s = Some s'"
  shows "disp_rel s' (replicate (nat (Max (set (-1 # cls)) + 1)) [])"
proof -
  have max: "foldl (\<lambda>m c. if c > m then c else m) m cls = Max (set (m # cls))" for m :: int
  proof (induction cls arbitrary: m)
    case (Cons c cs)
    have "Max (insert (if c > m then c else m) (set cs)) = Max (insert m (insert c (set cs)))"
      by (cases "set cs = {}") (auto simp: max_def)
    then show ?case using Cons.IH by simp
  qed simp
  define n where "n = nat (Max (set (-1 # cls)) + 1)"
  have s': "s' = s\<lparr>dispqs := replicate n \<lparr>dq_first = None, dq_last = None, dq_sruncnt = 0\<rparr>,
      dqactmap := replicate (n div 32 + 1) 0, srunprocs := 0, maxrunpri := -1\<rparr>"
    using assms by (simp add: dispinit_def Let_def max n_def split: if_splits)
  note mem = members_zero [of "n div 32 + 1"]
  have len: "n \<le> 32 * (n div 32 + 1)" by simp
  have "queues_ok s' (replicate n [])" by (simp add: queues_ok_def s' dq_holds_def)
  moreover have "counts_ok s' (map (scount (proc_tab s')) (replicate n []))"
    using mem len by (simp add: counts_ok_def s' scount_def bt.tops_def sum_list_replicate del: replicate_Suc)
  ultimately show ?thesis by (simp add: disp_rel_def n_def)
qed

text \<open>
  \<open>dispinit\<close> sets up one empty queue for each global priority up to the highest any class
  reports, with an empty map and no runnable process.
\<close>

theorem dispinit_correct:
  assumes "dispinit cls qmem mapmem s = Some s'"
  shows "disp_rel s' (replicate (nat (Max (set (-1 # cls)) + 1)) [])"
  by (rule dispinit_rel [OF assms])

text \<open>The witnesses' dispatcher after its initialisation, and with processes 2 and 3 queued at 39.\<close>

definition disp1 :: disp where
  "disp1 = the (dispinit [10, 39, 7] True True disp0)"

definition disp2 :: disp where
  "disp2 = setbackdq (setbackdq disp1 2) 3"

lemma disp1_eq: "dispinit [10, 39, 7] True True disp0 = Some disp1"
  by (simp add: disp1_def dispinit_def Let_def)

lemma disp1_tab: "proc_tab disp1 = proc_tab disp0"
  by (simp add: disp1_def dispinit_def Let_def)

theorem dispinit_correct_witness:
  "dispinit [10, 39, 7] True True disp0 = Some disp1 \<and> disp_rel disp1 (replicate 40 [])"
  using dispinit_correct [OF disp1_eq] disp1_eq by simp

lemma setback_rel:
  assumes "disp_rel s qs" and "p_pri (proc_tab s pp) < length qs"
    and "pp \<notin> set (qs ! p_pri (proc_tab s pp))"
  shows "disp_rel (setbackdq s pp) (qs[p_pri (proc_tab s pp) := qs ! p_pri (proc_tab s pp) @ [pp]])"
proof -
  obtain tab dq where "dq_append (proc_tab s) (dispqs s ! p_pri (proc_tab s pp)) pp = (tab, dq)"
    by (cases "dq_append (proc_tab s) (dispqs s ! p_pri (proc_tab s pp)) pp")
  then show ?thesis
    using enqueue_rel [OF assms(1,2) refl _ assms(3)] by (simp add: setbackdq_def Let_def)
qed

lemma setfront_rel:
  assumes "disp_rel s qs" and "p_pri (proc_tab s pp) < length qs"
    and "pp \<notin> set (qs ! p_pri (proc_tab s pp))"
  shows "disp_rel (setfrontdq s pp) (qs[p_pri (proc_tab s pp) := pp # qs ! p_pri (proc_tab s pp)])"
proof -
  obtain tab dq where "dq_prepend (proc_tab s) (dispqs s ! p_pri (proc_tab s pp)) pp = (tab, dq)"
    by (cases "dq_prepend (proc_tab s) (dispqs s ! p_pri (proc_tab s pp)) pp")
  then show ?thesis
    using enqueue_rel [OF assms(1,2) refl _ assms(3)] by (simp add: setfrontdq_def Let_def)
qed

text \<open>
  C27: \<open>setbackdq\<close> and \<open>setfrontdq\<close> put a process that is not queued at the back and at the front
  of the queue of its priority; the links, the last pointers, the counts of schedulable
  processes, the map and \<open>maxrunpri\<close> stay consistent and every other queue is untouched.
\<close>

theorem setdq_correct:
  assumes "disp_rel s qs" and "p_pri (proc_tab s pp) = p" and "p < length qs" and "pp \<notin> set (qs ! p)"
  shows "disp_rel (setbackdq s pp) (qs[p := qs ! p @ [pp]]) \<and> disp_rel (setfrontdq s pp) (qs[p := pp # qs ! p])"
  using setback_rel [of s qs pp] setfront_rel [of s qs pp] assms by simp

lemma disp1_rel: "disp_rel disp1 (replicate 40 [])"
  using dispinit_rel [OF disp1_eq] by simp

lemma disp2_rel: "disp_rel disp2 ((replicate 40 [])[39 := [2, 3]])"
proof -
  have a: "disp_rel (setbackdq disp1 2) ((replicate 40 [])[39 := [2]])"
    using setback_rel [OF disp1_rel, of 2] by (simp add: disp1_tab disp0_def proc0_def)
  have t: "p_pri (proc_tab (setbackdq disp1 2) 3) = 39"
    by (simp add: setbackdq_def dq_append_def disp1_def dispinit_def Let_def disp0_def proc0_def
        srunnable_def SLOAD_def SSYS_def SPROCIO_def)
  show ?thesis using setback_rel [OF a, of 3] by (simp add: disp2_def t)
qed

theorem setdq_correct_witness:
  "p_pri (proc_tab disp1 1) = 3 \<and> disp_rel (setbackdq disp1 1) ((replicate 40 [])[3 := [1]]) \<and>
   disp_rel (setfrontdq disp1 1) ((replicate 40 [])[3 := [1]])"
proof -
  have t: "p_pri (proc_tab disp1 1) = 3" by (simp add: disp1_tab disp0_def proc0_def)
  show ?thesis using setdq_correct [OF disp1_rel t] t by simp
qed

text \<open>
  \<open>dispdeq\<close> always ends; it removes the process when it is on the queue of its priority and
  says so, and otherwise changes nothing.
\<close>

theorem dispdeq_correct:
  assumes "disp_rel s qs" and "p_pri (proc_tab s pp) = p" and "p < length qs"
  shows "if pp \<in> set (qs ! p)
    then \<exists>s'. dispdeq s pp = Some (True, s') \<and> disp_rel s' (qs[p := remove1 pp (qs ! p)])
    else dispdeq s pp = Some (False, s)"
proof (cases "pp \<in> set (qs ! p)")
  case True
  then obtain as bs where at: "qs ! p = as @ pp # bs" "pp \<notin> set as" by (metis split_list_first)
  then have "remove1 pp (qs ! p) = as @ bs" by (simp add: remove1_append)
  then show ?thesis using True dispdeq_found [OF assms(1) assms(2) [symmetric] assms(3) at(1)] by simp
next
  case False
  then show ?thesis using dispdeq_not_found [OF assms(1), of pp] assms by simp
qed

lemma disp2_tab: "p_pri (proc_tab disp2 3) = 39" "p_pri (proc_tab disp2 2) = 39"
  using disp2_rel by (auto simp: disp_rel_def queues_ok_def)

theorem dispdeq_correct_witness:
  "\<exists>s'. dispdeq disp2 2 = Some (True, s') \<and> disp_rel s' ((replicate 40 [])[39 := [3]])"
  using dispdeq_correct [OF disp2_rel disp2_tab(2)] by simp

text \<open>
  C12: \<open>pswtch\<close> selects the first schedulable process of the highest-priority queue that has
  one, whatever the class of the process that leaves: it is taken off its queue, becomes
  \<open>curproc\<close> at that priority and is on the processor, no queue of a higher priority has a
  schedulable process, the preemption flag is cleared and the queues stay consistent.
\<close>

theorem pswtch_selects_highest:
  assumes "disp_rel s qs" and "maxrunpri s \<noteq> -1" and "p = nat (maxrunpri s)"
  shows "\<exists>as x bs s'. pswtch runqueues idle proc_sched s = Some s' \<and> qs ! p = as @ x # bs \<and>
    list_all (\<lambda>y. \<not> srunnable (proc_tab s y)) (as @ concat (drop (p + 1) qs)) \<and>
    srunnable (proc_tab s x) \<and> disp_rel s' (qs[p := as @ bs]) \<and> curproc s' = x \<and> curpri s' = p \<and>
    runrun s' = 0 \<and> p_stat (proc_tab s' x) = SONPROC"
proof -
  let ?s = "pswtch_leave s"
  have run: "srunnable (proc_tab ?s y) = srunnable (proc_tab s y)" for y
    by (simp add: srunnable_def pswtch_leave_fields)
  have rel: "disp_rel ?s qs" and m: "maxrunpri ?s \<noteq> -1"
    using assms by (simp_all add: pswtch_leave_rel pswtch_leave_fields)
  obtain as x bs s' where sel: "pswtch_select ?s = Some s'" "qs ! p = as @ x # bs"
    "\<forall>y \<in> set as. \<not> srunnable (proc_tab s y)" "srunnable (proc_tab s x)"
    "disp_rel s' (qs[p := as @ bs])" "curproc s' = x" "curpri s' = p" "runrun s' = 0"
    "p_stat (proc_tab s' x) = SONPROC"
    using pswtch_select_spec [OF rel m] assms(3) by (auto simp: pswtch_leave_fields run)
  have "\<not> srunnable (proc_tab s y)" if "y \<in> set (concat (drop (p + 1) qs))" for y
  proof -
    obtain r where r: "r < length (drop (p + 1) qs)" "y \<in> set (drop (p + 1) qs ! r)"
      using \<open>y \<in> set (concat (drop (p + 1) qs))\<close> by (auto simp: in_set_conv_nth [of _ "drop (Suc p) qs"])
    then show ?thesis using maxrunpri_queue(3) [OF assms(1,2), of "p + 1 + r" y] assms(3) by simp
  qed
  then have "list_all (\<lambda>y. \<not> srunnable (proc_tab s y)) (as @ concat (drop (p + 1) qs))"
    using sel(3) by (auto simp: list_all_iff)
  moreover have "pswtch runqueues idle proc_sched s = Some s'"
    using sel(1) pswtch_wait_ready [OF m] by (simp add: pswtch_def)
  ultimately show ?thesis using sel by blast
qed

lemma disp2_run: "maxrunpri disp2 = 39" "srunnable (proc_tab disp2 3)" "\<not> srunnable (proc_tab disp2 2)"
  by (simp_all add: disp2_def setbackdq_def dq_append_def disp1_def dispinit_def Let_def disp0_def proc0_def
      srunnable_def SLOAD_def SSYS_def SPROCIO_def set_link_def dq_sruninc_def replicate_numeral)

theorem pswtch_selects_highest_witness:
  "\<exists>s'. pswtch id id 0 disp2 = Some s' \<and> curproc s' = 3 \<and> curpri s' = 39 \<and>
    disp_rel s' ((replicate 40 [])[39 := [2]])"
proof -
  obtain as x bs s' where s': "pswtch id id 0 disp2 = Some s'" "[2, 3] = as @ x # bs"
    "srunnable (proc_tab disp2 x)" "disp_rel s' ((replicate 40 [])[39 := [2, 3], 39 := as @ bs])"
    "curproc s' = x" "curpri s' = 39"
    using pswtch_selects_highest [OF disp2_rel _ refl, of id id 0] by (auto simp: disp2_run)
  have "as = [2] \<and> x = 3 \<and> bs = []"
    using s'(2,3) disp2_run(3) by (auto simp: Cons_eq_append_conv)
  then show ?thesis using s' by auto
qed

text \<open>The flags of a process change while it is on a queue.\<close>

definition set_flag :: "nat \<Rightarrow> u32 \<Rightarrow> disp \<Rightarrow> disp" where
  "set_flag x f s = s\<lparr>proc_tab := (proc_tab s)(x := (proc_tab s x)\<lparr>p_flag := f\<rparr>)\<rparr>"

lemma set_flag_fields:
  "dispqs (set_flag x f s) = dispqs s" "dqactmap (set_flag x f s) = dqactmap s"
  "srunprocs (set_flag x f s) = srunprocs s" "maxrunpri (set_flag x f s) = maxrunpri s"
  "p_link (proc_tab (set_flag x f s) y) = p_link (proc_tab s y)"
  "p_pri (proc_tab (set_flag x f s) y) = p_pri (proc_tab s y)"
  "srunnable (proc_tab (set_flag x f s) y) = (if y = x then srunnable (proc_tab s x\<lparr>p_flag := f\<rparr>) else srunnable (proc_tab s y))"
  by (simp_all add: set_flag_def srunnable_def)

lemma set_flag_counts:
  assumes rel: "disp_rel s qs" and p: "p < length qs" and x: "x \<in> set (qs ! p)"
    and run: "srunnable (proc_tab s x\<lparr>p_flag := f\<rparr>) \<noteq> srunnable (proc_tab s x)"
  shows "queues_ok (set_flag x f s) qs"
    and "map (scount (proc_tab (set_flag x f s))) qs =
      (map (scount (proc_tab s)) qs)[p := scount (proc_tab s) (qs ! p) + (if srunnable (proc_tab s x) then -1 else 1)]"
proof -
  have q: "queues_ok s qs" using rel by (simp add: disp_rel_def)
  have "links (proc_tab (set_flag x f s)) = links (proc_tab s)"
    by (simp add: links_def fun_eq_iff set_flag_fields)
  then show "queues_ok (set_flag x f s) qs"
    using q by (simp add: queues_ok_def dq_holds_def set_flag_fields)
  have other: "scount (proc_tab (set_flag x f s)) ys = scount (proc_tab s) ys" if "x \<notin> set ys" for ys
    using that by (auto simp: scount_def set_flag_fields intro!: arg_cong [of _ _ length] filter_cong)
  show "map (scount (proc_tab (set_flag x f s))) qs =
      (map (scount (proc_tab s)) qs)[p := scount (proc_tab s) (qs ! p) + (if srunnable (proc_tab s x) then -1 else 1)]"
  proof (rule nth_equalityI)
    fix r assume "r < length (map (scount (proc_tab (set_flag x f s))) qs)"
    then have r: "r < length qs" by simp
    obtain as bs where at: "qs ! p = as @ x # bs" using x by (metis split_list)
    then have nx: "x \<notin> set (as @ bs)" using queues_okD(1) [OF q p] by (simp add: dq_holds_def)
    have "scount (proc_tab (set_flag x f s)) (qs ! p) =
        scount (proc_tab s) (qs ! p) + (if srunnable (proc_tab s x) then -1 else 1)"
      using other [OF nx] run by (simp add: at scount_ins set_flag_fields)
    moreover have "scount (proc_tab (set_flag x f s)) (qs ! r) = scount (proc_tab s) (qs ! r)" if "r \<noteq> p"
      using other queues_ok_disjoint [OF q p r] that x by blast
    ultimately show "map (scount (proc_tab (set_flag x f s))) qs ! r =
      (map (scount (proc_tab s)) qs)[p := scount (proc_tab s) (qs ! p) + (if srunnable (proc_tab s x) then -1 else 1)] ! r"
      using r p by (cases "r = p") simp_all
  qed simp
qed

text \<open>
  When a queued process becomes schedulable (or stops being so) through its flags, the
  matching call of \<open>dq_sruninc\<close> (or \<open>dq_srundec\<close>) on its priority makes the counts, the map and
  \<open>maxrunpri\<close> consistent again.
\<close>

theorem dq_srun_correct:
  assumes "disp_rel s qs" and "p < length qs" and "x \<in> set (qs ! p)"
    and "srunnable (proc_tab s x\<lparr>p_flag := f\<rparr>) \<noteq> srunnable (proc_tab s x)"
  shows "disp_rel (if srunnable (proc_tab s x) then dq_srundec (set_flag x f s) p else dq_sruninc (set_flag x f s) p) qs"
proof -
  note fl = set_flag_counts [OF assms]
  define c where "c = map (scount (proc_tab s)) qs"
  have c: "counts_ok s c" "p < length c" "c ! p = scount (proc_tab s) (qs ! p)"
    using assms(1,2) by (simp_all add: disp_rel_def c_def)
  have c': "counts_ok (set_flag x f s) c" using c(1) by (simp add: counts_ok_def set_flag_fields)
  have pos: "0 < c ! p" if "srunnable (proc_tab s x)"
    using that assms(3) by (auto simp: c(3) scount_def filter_empty_conv)
  show ?thesis
    using fl [folded c_def] dq_sruninc_counts [OF c' c(2)] dq_srundec_counts [OF c' c(2) pos]
    by (simp add: disp_rel_def dq_count_frame flip: c(3))
qed

theorem dq_srun_correct_witness:
  "disp_rel (dq_sruninc (set_flag 2 SSYS disp2) 39) ((replicate 40 [])[39 := [2, 3]])"
proof -
  have "srunnable (proc_tab disp2 2\<lparr>p_flag := SSYS\<rparr>)" by (simp add: srunnable_def SSYS_def)
  then show ?thesis using dq_srun_correct [OF disp2_rel, of 39 2 SSYS] disp2_run(3) by simp
qed

text \<open>\<open>getcid\<close> returns the first class of the given name, and \<open>EINVAL\<close> exactly when no class has it.\<close>

theorem getcid_correct:
  "case getcid clss clname of
      Inl e \<Rightarrow> e = EINVAL \<and> clname \<notin> set clss
    | Inr i \<Rightarrow> i < length clss \<and> clss ! i = clname \<and> clname \<notin> set (take i clss)"
proof -
  have "case getcid_from k clss clname of
      Inl e \<Rightarrow> e = EINVAL \<and> clname \<notin> set clss
    | Inr i \<Rightarrow> k \<le> i \<and> i - k < length clss \<and> clss ! (i - k) = clname \<and> clname \<notin> set (take (i - k) clss)" for k
  proof (induction clss arbitrary: k)
    case (Cons c cs)
    show ?case
      using Cons.IH [of "k + 1"] by (auto split: sum.splits simp: nth_Cons' take_Cons' Suc_diff_le)
  qed simp
  from this [of 0] show ?thesis by (auto simp: getcid_def split: sum.splits)
qed

end
