(* ===== verification/Ipc.thy ===== *)
theory Ipc imports Prelude begin

text \<open>
  The routines the IPC facilities share (\<open>os/ipc.c\<close>): the permission check \<open>ipcaccess\<close>, with
  \<open>groupmember\<close> and \<open>suser\<close> of \<open>os/cred.c\<close>, and \<open>ipcget\<close>, which finds or creates the entry of a
  key in the array of a facility.  The array is the list of the \<open>ipc_perm\<close> parts of its
  entries; \<open>ipcget\<close> returns the index of the entry in place of its address.
\<close>

section \<open>Data\<close>

record cred =
  cr_uid :: int
  cr_gid :: int
  cr_groups :: "int list"

record ipc_perm =
  uid :: int
  gid :: int
  cuid :: int
  cgid :: int
  mode :: u32
  seq :: u32
  key :: int

text \<open>The mode bits and commands of \<open>sys/ipc.h\<close>; the header writes the bits in octal.\<close>

definition IPC_ALLOC :: u32 where "IPC_ALLOC = 0x8000"
definition IPC_CREAT :: u32 where "IPC_CREAT = 0x200"
definition IPC_EXCL :: u32 where "IPC_EXCL = 0x400"
definition IPC_NOWAIT :: u32 where "IPC_NOWAIT = 0x800"

definition IPC_PRIVATE :: int where "IPC_PRIVATE = 0"
definition IPC_O_RMID :: int where "IPC_O_RMID = 0"
definition IPC_O_SET :: int where "IPC_O_SET = 1"
definition IPC_O_STAT :: int where "IPC_O_STAT = 2"
definition IPC_RMID :: int where "IPC_RMID = 10"
definition IPC_SET :: int where "IPC_SET = 11"
definition IPC_STAT :: int where "IPC_STAT = 12"

lemmas ipc_bits = IPC_ALLOC_def IPC_CREAT_def IPC_EXCL_def IPC_NOWAIT_def

definition ipc_alloc :: "ipc_perm \<Rightarrow> bool" where
  "ipc_alloc p \<longleftrightarrow> mode p AND IPC_ALLOC \<noteq> 0"

section \<open>Operations\<close>

definition suser :: "cred \<Rightarrow> bool" where
  "suser cr \<longleftrightarrow> cr_uid cr = 0"

fun group_search :: "int \<Rightarrow> int list \<Rightarrow> bool" where
  "group_search g [] = False"
| "group_search g (gp # gs) = (if gp = g then True else group_search g gs)"

definition groupmember :: "int \<Rightarrow> cred \<Rightarrow> bool" where
  "groupmember g cr = (if g = cr_gid cr then True else group_search g (cr_groups cr))"

definition ipcaccess :: "ipc_perm \<Rightarrow> u32 \<Rightarrow> cred \<Rightarrow> errno option" where
  "ipcaccess p m cr =
     (if cr_uid cr = 0 then None
      else
        let m' = (if cr_uid cr \<noteq> uid p \<and> cr_uid cr \<noteq> cuid p then
                    (let m1 = drop_bit 3 m
                     in if \<not> groupmember (gid p) cr \<and> \<not> groupmember (cgid p) cr
                        then drop_bit 3 m1 else m1)
                  else m)
        in if m' AND mode p \<noteq> 0 then None else Some EACCES)"

text \<open>
  The loops of \<open>ipcget\<close>, from index \<open>i\<close>.  \<open>ipc_free\<close> is the loop for \<open>IPC_PRIVATE\<close>;
  \<open>ipc_search\<close> the loop for a key, with \<open>a\<close> the first unallocated entry met so far: it ends
  with an error, with an existing entry (\<open>Found\<close>) or off the end of the array (\<open>Absent a\<close>).
\<close>

datatype ipc_found = Failed errno | Found nat | Absent "nat option"

fun ipc_free :: "nat \<Rightarrow> ipc_perm list \<Rightarrow> nat option" where
  "ipc_free i [] = None"
| "ipc_free i (p # ps) = (if ipc_alloc p then ipc_free (i + 1) ps else Some i)"

fun ipc_search :: "int \<Rightarrow> u32 \<Rightarrow> nat option \<Rightarrow> nat \<Rightarrow> ipc_perm list \<Rightarrow> ipc_found" where
  "ipc_search k flag a i [] = Absent a"
| "ipc_search k flag a i (p # ps) =
     (if ipc_alloc p then
        if key p = k then
          if flag AND (IPC_CREAT OR IPC_EXCL) = IPC_CREAT OR IPC_EXCL then Failed EEXIST
          else if (flag AND 0x1FF) AND NOT (mode p) \<noteq> 0 then Failed EACCES
          else Found i
        else ipc_search k flag a (i + 1) ps
      else ipc_search k flag (if a = None then Some i else a) (i + 1) ps)"

text \<open>The code from the label \<open>init\<close> on: the entry gets its owner, mode and key; \<open>seq\<close> stays.\<close>

definition ipc_init :: "int \<Rightarrow> u32 \<Rightarrow> cred \<Rightarrow> ipc_perm \<Rightarrow> ipc_perm" where
  "ipc_init k flag cr p =
     p\<lparr>mode := IPC_ALLOC OR (flag AND 0x1FF), key := k, cuid := cr_uid cr, uid := cr_uid cr,
       cgid := cr_gid cr, gid := cr_gid cr\<rparr>"

definition ipcget :: "int \<Rightarrow> u32 \<Rightarrow> ipc_perm list \<Rightarrow> cred \<Rightarrow> errno + (bool \<times> nat \<times> ipc_perm list)" where
  "ipcget k flag base cr =
     (if k = IPC_PRIVATE then
        (case ipc_free 0 base of
           None \<Rightarrow> Inl ENOSPC
         | Some i \<Rightarrow> Inr (True, i, base[i := ipc_init k flag cr (base ! i)]))
      else
        (case ipc_search k flag None 0 base of
           Failed e \<Rightarrow> Inl e
         | Found i \<Rightarrow> Inr (False, i, base)
         | Absent a \<Rightarrow>
             if flag AND IPC_CREAT = 0 then Inl ENOENT
             else (case a of
                None \<Rightarrow> Inl ENOSPC
              | Some i \<Rightarrow> Inr (True, i, base[i := ipc_init k flag cr (base ! i)]))))"

section \<open>Lemmas\<close>

lemma group_search_iff: "group_search g gs \<longleftrightarrow> g \<in> set gs"
  by (induction gs) auto

lemma groupmember_iff: "groupmember g cr \<longleftrightarrow> g = cr_gid cr \<or> g \<in> set (cr_groups cr)"
  by (simp add: groupmember_def group_search_iff)

lemma ipc_free_None: "ipc_free i ps = None \<longleftrightarrow> (\<forall>p \<in> set ps. ipc_alloc p)"
  by (induction ps arbitrary: i) auto

lemma ipc_free_Some:
  "ipc_free i ps = Some j \<Longrightarrow> i \<le> j \<and> j - i < length ps \<and> \<not> ipc_alloc (ps ! (j - i)) \<and>
     (\<forall>n < j - i. ipc_alloc (ps ! n))"
proof (induction ps arbitrary: i)
  case (Cons p ps)
  show ?case
  proof (cases "ipc_alloc p")
    case True
    then have "i + 1 \<le> j \<and> j - (i + 1) < length ps \<and> \<not> ipc_alloc (ps ! (j - (i + 1))) \<and>
        (\<forall>n < j - (i + 1). ipc_alloc (ps ! n))"
      using Cons by simp
    moreover from this obtain d where "j = Suc (i + d)" using le_Suc_ex [of "i + 1" j] by auto
    ultimately show ?thesis using True by (auto simp: nth_Cons split: nat.splits)
  next
    case False
    then show ?thesis using Cons.prems by simp
  qed
qed simp

definition holds_key :: "int \<Rightarrow> ipc_perm \<Rightarrow> bool" where
  "holds_key k p \<longleftrightarrow> ipc_alloc p \<and> key p = k"

text \<open>The outcome of the search as a function of the first entry that holds the key.\<close>

lemma ipc_search_absent:
  "\<forall>p \<in> set ps. \<not> holds_key k p \<Longrightarrow>
     ipc_search k flag a i ps = Absent (if a = None then ipc_free i ps else a)"
  by (induction ps arbitrary: a i) (auto simp: holds_key_def)

lemma ipc_search_present:
  "\<forall>p \<in> set xs. \<not> holds_key k p \<Longrightarrow> holds_key k p \<Longrightarrow>
     ipc_search k flag a i (xs @ p # ys) =
       (if flag AND (IPC_CREAT OR IPC_EXCL) = IPC_CREAT OR IPC_EXCL then Failed EEXIST
        else if (flag AND 0x1FF) AND NOT (mode p) \<noteq> 0 then Failed EACCES
        else Found (i + length xs))"
  by (induction xs arbitrary: a i) (auto simp: holds_key_def)

lemma ipc_init_alloc: "ipc_alloc (ipc_init k flag cr p)" "key (ipc_init k flag cr p) = k"
    "seq (ipc_init k flag cr p) = seq p"
proof -
  have "bit (mode (ipc_init k flag cr p) AND IPC_ALLOC) 15"
    by (simp add: ipc_init_def ipc_bits bit_simps)
  then show "ipc_alloc (ipc_init k flag cr p)" unfolding ipc_alloc_def by (metis bit_0_eq bot_apply bot_bool_def)
qed (simp_all add: ipc_init_def)

lemma ipc_alloc_iff: "ipc_alloc p \<longleftrightarrow> bit (mode p) 15"
proof -
  have eq: "IPC_ALLOC = push_bit 15 1" by (simp add: IPC_ALLOC_def)
  show ?thesis unfolding ipc_alloc_def eq and_push_bit_1 ..
qed

text \<open>What a successful call of \<open>ipcget\<close> does to the array.\<close>

lemma ipcget_new:
  assumes "ipcget k flag ps cr = Inr (True, i, ps')"
  shows "i < length ps" "\<not> ipc_alloc (ps ! i)" "ps' = ps[i := ipc_init k flag cr (ps ! i)]"
    "k = IPC_PRIVATE \<or> (\<forall>p \<in> set ps. \<not> holds_key k p)"
proof -
  have "(\<exists>j. ipc_free 0 ps = Some j \<and> j = i) \<and> ps' = ps[i := ipc_init k flag cr (ps ! i)] \<and>
      (k = IPC_PRIVATE \<or> (\<forall>p \<in> set ps. \<not> holds_key k p))"
  proof (cases "k = IPC_PRIVATE")
    case True
    then show ?thesis using assms by (auto simp: ipcget_def split: option.splits)
  next
    case False
    show ?thesis
    proof (cases "\<forall>p \<in> set ps. \<not> holds_key k p")
      case True
      then show ?thesis
        using assms False ipc_search_absent [OF True, of flag None 0]
        by (auto simp: ipcget_def split: option.splits if_splits)
    next
      case some: False
      then obtain xs p ys where "ps = xs @ p # ys" "\<forall>p \<in> set xs. \<not> holds_key k p" "holds_key k p"
        using split_list_first_prop [of ps "holds_key k"] by auto
      then show ?thesis
        using assms False ipc_search_present [of xs k p flag None 0 ys]
        by (auto simp: ipcget_def split: if_splits)
    qed
  qed
  then show "i < length ps" "\<not> ipc_alloc (ps ! i)" "ps' = ps[i := ipc_init k flag cr (ps ! i)]"
    "k = IPC_PRIVATE \<or> (\<forall>p \<in> set ps. \<not> holds_key k p)"
    using ipc_free_Some [of 0 ps i] by auto
qed

lemma ipcget_old:
  assumes "ipcget k flag ps cr = Inr (False, i, ps')"
  shows "ps' = ps" "i < length ps" "holds_key k (ps ! i)" "k \<noteq> IPC_PRIVATE"
    "(flag AND 0x1FF) AND NOT (mode (ps ! i)) = 0"
proof -
  have k: "k \<noteq> IPC_PRIVATE" using assms by (auto simp: ipcget_def split: option.splits)
  show "k \<noteq> IPC_PRIVATE" by (rule k)
  have "\<not> (\<forall>p \<in> set ps. \<not> holds_key k p)"
  proof
    assume "\<forall>p \<in> set ps. \<not> holds_key k p"
    from ipc_search_absent [OF this, of flag None 0] show False
      using assms k by (auto simp: ipcget_def split: option.splits if_splits)
  qed
  then obtain xs p ys where ps: "ps = xs @ p # ys" "\<forall>p \<in> set xs. \<not> holds_key k p" "holds_key k p"
    using split_list_first_prop [of ps "holds_key k"] by auto
  then show "ps' = ps" "i < length ps" "holds_key k (ps ! i)" "(flag AND 0x1FF) AND NOT (mode (ps ! i)) = 0"
    using assms k ipc_search_present [of xs k p flag None 0 ys]
    by (auto simp: ipcget_def split: if_splits)
qed

section \<open>Properties\<close>

text \<open>
  \<open>ipcaccess\<close> grants the super-user everything and everyone else exactly when a requested
  bit of the class the caller falls in (owner or creator, group or creator's group with the
  supplementary groups, others) is in the entry's mode.
\<close>

theorem ipcaccess_correct:
  "ipcaccess p m cr = None \<longleftrightarrow>
    (cr_uid cr = 0 \<or>
     (if cr_uid cr \<in> {uid p, cuid p} then m AND mode p \<noteq> 0
      else if {gid p, cgid p} \<inter> insert (cr_gid cr) (set (cr_groups cr)) = {} then drop_bit 6 m AND mode p \<noteq> 0
      else drop_bit 3 m AND mode p \<noteq> 0))"
  by (auto simp: ipcaccess_def groupmember_iff Let_def)

text \<open>The creation of an entry in the first unallocated place.\<close>

definition ipc_create :: "int \<Rightarrow> u32 \<Rightarrow> ipc_perm list \<Rightarrow> cred \<Rightarrow> errno + (bool \<times> nat \<times> ipc_perm list)" where
  "ipc_create k flag ps cr =
     (let i = length (takeWhile ipc_alloc ps)
      in if i = length ps then Inl ENOSPC else Inr (True, i, ps[i := ipc_init k flag cr (ps ! i)]))"

lemma ipc_free_takeWhile:
  "ipc_free i ps = (if length (takeWhile ipc_alloc ps) = length ps then None else Some (i + length (takeWhile ipc_alloc ps)))"
  by (induction ps arbitrary: i) auto

text \<open>
  \<open>ipcget\<close> by cases.  A private key always asks for a new entry.  Another key that an
  allocated entry holds gives that entry, \<open>EEXIST\<close> when creation was to be exclusive, \<open>EACCES\<close>
  when a mode bit is asked that the entry does not grant.  A key that no entry holds gives
  \<open>ENOENT\<close> without \<open>IPC_CREAT\<close>.  A new entry is the first unallocated one, \<open>ENOSPC\<close> when there
  is none, and the other entries are untouched.
\<close>

theorem ipcget_correct:
  "ipcget k flag ps cr =
    (if k = IPC_PRIVATE then ipc_create k flag ps cr
     else case find (holds_key k) ps of
       None \<Rightarrow> if flag AND IPC_CREAT = 0 then Inl ENOENT else ipc_create k flag ps cr
     | Some p \<Rightarrow>
         if flag AND (IPC_CREAT OR IPC_EXCL) = IPC_CREAT OR IPC_EXCL then Inl EEXIST
         else if (flag AND 0x1FF) AND NOT (mode p) \<noteq> 0 then Inl EACCES
         else Inr (False, length (takeWhile (\<lambda>p. \<not> holds_key k p) ps), ps))"
proof -
  have tw: "takeWhile (\<lambda>p. \<not> holds_key k p) (xs @ p # ys) = xs" "find (holds_key k) (xs @ p # ys) = Some p"
    if "\<forall>p \<in> set xs. \<not> holds_key k p" "holds_key k p" for xs p ys
    using that by (induction xs) auto
  show ?thesis
  proof (cases "\<forall>p \<in> set ps. \<not> holds_key k p")
    case True
    then have "find (holds_key k) ps = None" by (simp add: find_None_iff)
    then show ?thesis
      using ipc_search_absent [OF True, of flag None 0]
      by (simp add: ipcget_def ipc_create_def ipc_free_takeWhile Let_def)
  next
    case False
    then obtain xs p ys where ps: "ps = xs @ p # ys" "\<forall>p \<in> set xs. \<not> holds_key k p" "holds_key k p"
      using split_list_first_prop [of ps "holds_key k"] by auto
    then show ?thesis
      using ipc_search_present [OF ps(2,3), of flag None 0 ys] tw [OF ps(2,3)]
      by (simp add: ipcget_def ipc_create_def ipc_free_takeWhile Let_def)
  qed
qed

definition keys_unique :: "ipc_perm list \<Rightarrow> bool" where
  "keys_unique ps \<longleftrightarrow> distinct (map key (filter (\<lambda>p. ipc_alloc p \<and> key p \<noteq> IPC_PRIVATE) ps))"

text \<open>
  C37: no two allocated entries ever hold the same non-private key: a call of \<open>ipcget\<close> keeps the
  keys unique.
\<close>

theorem ipcget_keys_unique:
  assumes "keys_unique ps" and "ipcget k flag ps cr = Inr (new, i, ps')"
  shows "keys_unique ps'"
proof (cases new)
  case True
  have "ipcget k flag ps cr = Inr (True, i, ps')" using assms(2) True by simp
  note n = ipcget_new [OF this]
  let ?P = "\<lambda>p. ipc_alloc p \<and> key p \<noteq> IPC_PRIVATE"
  have "ps = take i ps @ ps ! i # drop (Suc i) ps" using n(1) by (rule id_take_nth_drop)
  then have f: "filter ?P ps = filter ?P (take i ps) @ filter ?P (drop (Suc i) ps)"
    using n(2) by (metis (mono_tags, lifting) filter.simps(2) filter_append)
  have f': "filter ?P ps' = filter ?P (take i ps) @ filter ?P (ipc_init k flag cr (ps ! i) # drop (Suc i) ps)"
    using n(1,3) by (simp add: upd_conv_take_nth_drop)
  have k: "k = IPC_PRIVATE \<or> k \<notin> key ` set (filter ?P ps)"
    using n(4) by (auto simp: holds_key_def)
  show ?thesis
    using assms(1) k unfolding keys_unique_def f f'
    by (cases "k = IPC_PRIVATE") (auto simp: ipc_init_alloc)
next
  case False
  then show ?thesis using ipcget_old(1) [of k flag ps cr i ps'] assms by simp
qed

text \<open>An allocated entry for the witnesses.\<close>

definition perm0 :: ipc_perm where
  "perm0 = \<lparr>uid = 7, gid = 3, cuid = 7, cgid = 3, mode = 0x8180, seq = 0, key = 99\<rparr>"

theorem ipcget_keys_unique_witness:
  "keys_unique [perm0, perm0\<lparr>mode := 0\<rparr>] \<and>
   (\<exists>ps'. ipcget 5 0x380 [perm0, perm0\<lparr>mode := 0\<rparr>] \<lparr>cr_uid = 9, cr_gid = 3, cr_groups = []\<rparr> = Inr (True, 1, ps') \<and>
     keys_unique ps')"
proof -
  have u: "keys_unique [perm0, perm0\<lparr>mode := 0\<rparr>]"
    by (simp add: keys_unique_def ipc_alloc_def perm0_def)
  have "\<exists>ps'. ipcget 5 0x380 [perm0, perm0\<lparr>mode := 0\<rparr>] \<lparr>cr_uid = 9, cr_gid = 3, cr_groups = []\<rparr> = Inr (True, 1, ps')"
    by (simp add: ipcget_def ipc_alloc_def perm0_def ipc_bits IPC_PRIVATE_def)
  then show ?thesis using ipcget_keys_unique [OF u] u by blast
qed

end
