(* ===== verification/Sem.thy ===== *)
theory Sem imports Prelude Rmap Ipc begin

text \<open>
  The semaphore facility, \<open>os/sem.c\<close>: the table of semaphore sets, the semaphores they share
  through the resource map \<open>semmap\<close>, the adjust-on-exit (undo) entries of each process, and the
  system calls \<open>semget\<close>, \<open>semctl\<close>, \<open>semop\<close> with \<open>semexit\<close>.  Pointers into the arrays \<open>sema\<close>,
  \<open>sem\<close> and \<open>semu\<close> are indices; the chains \<open>semunp\<close> and \<open>semfup\<close> are lists of indices; the
  entries of an undo structure are a list (\<open>un_cnt\<close> is its length); \<open>sem_wakes\<close> logs the calls
  of \<open>wakeprocs\<close>.  A call that sleeps is an outcome that names the semaphore.
\<close>

section \<open>State\<close>

record sem =
  semval :: u16
  sempid :: int
  semncnt :: u16
  semzcnt :: u16

record semid_ds =
  sem_perm :: ipc_perm
  sem_base :: nat
  sem_nsems :: u16
  sem_otime :: int
  sem_ctime :: int

record undo =
  un_aoe :: int
  un_num :: u16
  un_id :: int

record seminfo =
  semmni :: int
  semmns :: int
  semmnu :: int
  semmsl :: int
  semopm :: int
  semume :: int
  semvmx :: int
  semaem :: int

record sembuf =
  sem_num :: u16
  sem_op :: u16
  sem_flg :: u16

datatype sem_wake = WakeN nat | WakeZ nat

record semst =
  sinfo :: seminfo
  sema :: "semid_ds list"
  sems :: "sem list"
  semmap :: rmap
  sem_undo :: "nat option list"
  semu :: "undo list list"
  semunp :: "nat list"
  semfup :: "nat list"
  sem_wakes :: "sem_wake list"
  sema_cnt :: nat

text \<open>The calling process: its slot, pid and credentials, and the time.\<close>

record caller =
  p_slot :: nat
  p_pid :: int
  u_cred :: cred
  hrestime :: int

definition SEM_A :: u32 where "SEM_A = 0x80"
definition SEM_R :: u32 where "SEM_R = 0x100"
definition SEM_UNDO :: u16 where "SEM_UNDO = 0x1000"
definition SEM_NOWAIT :: u16 where "SEM_NOWAIT = 0x800"
definition INT16_MAX :: nat where "INT16_MAX = 32767"
definition MAXUID :: int where "MAXUID = 60002"

section \<open>Adjust-on-exit entries\<close>

text \<open>
  \<open>semaoe\<close>: \<open>un_before\<close> is the test of its search loop, \<open>pre\<close> the entries the loop passes.
  Assignments to the short \<open>un_aoe\<close> are narrowed.
\<close>

definition un_before :: "int \<Rightarrow> u16 \<Rightarrow> undo \<Rightarrow> bool" where
  "un_before sid num e \<longleftrightarrow> un_id e < sid \<or> un_id e = sid \<and> un_num e < num"

definition semaoe_entry :: "int \<Rightarrow> int \<Rightarrow> u16 \<Rightarrow> nat \<Rightarrow> semst \<Rightarrow> errno option \<times> semst" where
  "semaoe_entry val sid num up st =
     (let ents = semu st ! up;
          pre = takeWhile (un_before sid num) ents;
          suf = dropWhile (un_before sid num) ents
      in if suf = [] \<or> \<not> (un_id (hd suf) = sid \<and> un_num (hd suf) = num) then
           (if int (length ents) \<ge> semume (sinfo st) then (Some EINVAL, st)
            else (None, st\<lparr>semunp := (if ents = [] then up # semunp st else semunp st),
                   semu := (semu st)[up := pre @ \<lparr>un_aoe = s16 (- val), un_num = num, un_id = sid\<rparr> # suf]\<rparr>))
         else
           (let e = hd suf;
                aoe = s16 (un_aoe e - val)
            in if aoe > semaem (sinfo st) \<or> aoe < - semaem (sinfo st) then
                 (Some ERANGE, st\<lparr>semu := (semu st)[up := pre @ e\<lparr>un_aoe := s16 (aoe + val)\<rparr> # tl suf]\<rparr>)
               else if aoe = 0 then
                 (None, st\<lparr>semu := (semu st)[up := pre @ tl suf],
                    semunp := (if pre @ tl suf = [] then remove1 up (semunp st) else semunp st)\<rparr>)
               else (None, st\<lparr>semu := (semu st)[up := pre @ e\<lparr>un_aoe := aoe\<rparr> # tl suf]\<rparr>)))"

definition semaoe :: "caller \<Rightarrow> int \<Rightarrow> int \<Rightarrow> u16 \<Rightarrow> semst \<Rightarrow> errno option \<times> semst" where
  "semaoe u val sid num st =
     (if val = 0 then (None, st)
      else if val > semaem (sinfo st) \<or> val < - semaem (sinfo st) then (Some ERANGE, st)
      else case sem_undo st ! p_slot u of
        Some up \<Rightarrow> semaoe_entry val sid num up st
      | None \<Rightarrow>
          (case semfup st of
             [] \<Rightarrow> (Some ENOSPC, st)
           | up # fs \<Rightarrow> semaoe_entry val sid num up
               (st\<lparr>semfup := fs, sem_undo := (sem_undo st)[p_slot u := Some up]\<rparr>)))"

text \<open>\<open>semunrm\<close>: the inner loop on one structure's entries, the walk of the chain, the function.\<close>

fun unrm_ents :: "int \<Rightarrow> u16 \<Rightarrow> u16 \<Rightarrow> undo list \<Rightarrow> undo list" where
  "unrm_ents sid low high [] = []"
| "unrm_ents sid low high (e # es) =
     (if sid < un_id e then e # es
      else if sid > un_id e \<or> low > un_num e then e # unrm_ents sid low high es
      else if high < un_num e then e # es
      else unrm_ents sid low high es)"

fun unrm_walk :: "int \<Rightarrow> u16 \<Rightarrow> u16 \<Rightarrow> nat list \<Rightarrow> undo list list \<Rightarrow> nat list \<times> undo list list" where
  "unrm_walk sid low high [] tab = ([], tab)"
| "unrm_walk sid low high (p # ps) tab =
     (let es = unrm_ents sid low high (tab ! p);
          (ps', tab') = unrm_walk sid low high ps (tab[p := es])
      in (if es = [] then ps' else p # ps', tab'))"

definition semunrm :: "int \<Rightarrow> u16 \<Rightarrow> u16 \<Rightarrow> semst \<Rightarrow> semst" where
  "semunrm sid low high st =
     (let (chain, semu') = unrm_walk sid low high (semunp st) (semu st)
      in st\<lparr>semunp := chain, semu := semu'\<rparr>)"

section \<open>Operations on semaphores\<close>

definition upd_sem :: "nat \<Rightarrow> (sem \<Rightarrow> sem) \<Rightarrow> semst \<Rightarrow> semst" where
  "upd_sem j f st = st\<lparr>sems := (sems st)[j := f (sems st ! j)]\<rparr>"

definition wake_n :: "nat \<Rightarrow> semst \<Rightarrow> semst" where
  "wake_n j st =
     (if semncnt (sems st ! j) \<noteq> 0
      then (upd_sem j (\<lambda>s. s\<lparr>semncnt := 0\<rparr>) st)\<lparr>sem_wakes := sem_wakes st @ [WakeN j]\<rparr> else st)"

definition wake_z :: "nat \<Rightarrow> semst \<Rightarrow> semst" where
  "wake_z j st =
     (if semzcnt (sems st ! j) \<noteq> 0
      then (upd_sem j (\<lambda>s. s\<lparr>semzcnt := 0\<rparr>) st)\<lparr>sem_wakes := sem_wakes st @ [WakeZ j]\<rparr> else st)"

definition sop :: "sembuf \<Rightarrow> int" where
  "sop op = sint (sem_op op)"

definition sem_at :: "semid_ds \<Rightarrow> sembuf \<Rightarrow> nat" where
  "sem_at sp op = sem_base sp + unat (sem_num op)"

text \<open>\<open>semundo\<close> takes back the first \<open>n\<close> operations, the last one first.\<close>

definition semundo_op :: "caller \<Rightarrow> int \<Rightarrow> semid_ds \<Rightarrow> sembuf \<Rightarrow> semst \<Rightarrow> semst" where
  "semundo_op u sid sp op st =
     (if sem_op op = 0 then st
      else
        let st' = upd_sem (sem_at sp op) (\<lambda>s. s\<lparr>semval := semval s - sem_op op\<rparr>) st
        in if sem_flg op AND SEM_UNDO \<noteq> 0 then snd (semaoe u (s16 (- sop op)) sid (sem_num op) st') else st')"

definition semundo :: "caller \<Rightarrow> sembuf list \<Rightarrow> nat \<Rightarrow> int \<Rightarrow> semid_ds \<Rightarrow> semst \<Rightarrow> semst" where
  "semundo u ops n sid sp st = foldl (\<lambda>st op. semundo_op u sid sp op st) st (rev (take n ops))"

definition semconv :: "int \<Rightarrow> semst \<Rightarrow> errno + nat" where
  "semconv s st =
     (if s < 0 then Inl EINVAL
      else
        let i = nat (s mod semmni (sinfo st)); sp = sema st ! i
        in if mode (sem_perm sp) AND IPC_ALLOC = 0 \<or> word_of_int (s div semmni (sinfo st)) \<noteq> seq (sem_perm sp)
           then Inl EINVAL else Inr i)"

text \<open>
  \<open>semop\<close>.  \<open>semop_verify\<close> is the check of numbers and permissions; \<open>semop_pass\<close> the loop that
  performs the operations, the first of which are already done (\<open>i\<close> of them); its outcome is
  that all are done, an error, or the semaphore to sleep on.
\<close>

datatype pass = Done | Err errno | SleepN nat | SleepZ nat

fun semop_verify :: "semid_ds \<Rightarrow> cred \<Rightarrow> sembuf list \<Rightarrow> errno option" where
  "semop_verify sp cr [] = None"
| "semop_verify sp cr (op # ops) =
     (case ipcaccess (sem_perm sp) (if sem_op op \<noteq> 0 then SEM_A else SEM_R) cr of
        Some e \<Rightarrow> Some e
      | None \<Rightarrow> if sem_num op \<ge> sem_nsems sp then Some EFBIG else semop_verify sp cr ops)"

definition undo_flagged :: "caller \<Rightarrow> int \<Rightarrow> sembuf \<Rightarrow> semst \<Rightarrow> errno option \<times> semst" where
  "undo_flagged u sid op st =
     (if sem_flg op AND SEM_UNDO \<noteq> 0 then semaoe u (sop op) sid (sem_num op) st else (None, st))"

definition semop_undo :: "caller \<Rightarrow> sembuf list \<Rightarrow> nat \<Rightarrow> int \<Rightarrow> semid_ds \<Rightarrow> semst \<Rightarrow> semst" where
  "semop_undo u ops i sid sp st = (if i \<noteq> 0 then semundo u ops i sid sp st else st)"

definition add_val :: "nat \<Rightarrow> u16 \<Rightarrow> semst \<Rightarrow> semst" where
  "add_val j d st = upd_sem j (\<lambda>s. s\<lparr>semval := semval s + d\<rparr>) st"

definition wake_zero :: "nat \<Rightarrow> semst \<Rightarrow> semst" where
  "wake_zero j st = (if semval (sems st ! j) = 0 then wake_z j st else st)"

definition cur_val :: "nat \<Rightarrow> semst \<Rightarrow> int" where
  "cur_val j st = int (unat (semval (sems st ! j)))"

fun semop_pass :: "caller \<Rightarrow> int \<Rightarrow> semid_ds \<Rightarrow> sembuf list \<Rightarrow> nat \<Rightarrow> sembuf list \<Rightarrow> semst \<Rightarrow> pass \<times> semst" where
  "semop_pass u sid sp all i [] st = (Done, st)"
| "semop_pass u sid sp all i (op # ops) st =
     (let j = sem_at sp op
      in if sop op > 0 then
           (if sop op + cur_val j st > semvmx (sinfo st) then (Err ERANGE, semop_undo u all i sid sp st)
            else case undo_flagged u sid op st of
              (Some e, st1) \<Rightarrow> (Err e, semop_undo u all i sid sp st1)
            | (None, st1) \<Rightarrow>
                semop_pass u sid sp all (i + 1) ops (wake_zero j (wake_n j (add_val j (sem_op op) st1))))
         else if sop op < 0 then
           (if cur_val j st \<ge> - sop op then
              case undo_flagged u sid op st of
                (Some e, st1) \<Rightarrow> (Err e, semop_undo u all i sid sp st1)
              | (None, st1) \<Rightarrow>
                  semop_pass u sid sp all (i + 1) ops (wake_zero j (add_val j (sem_op op) st1))
            else
              let st1 = semop_undo u all i sid sp st
              in if sem_flg op AND SEM_NOWAIT \<noteq> 0 then (Err EAGAIN, st1)
                 else (SleepN j, upd_sem j (\<lambda>s. s\<lparr>semncnt := semncnt s + 1\<rparr>) st1))
         else if cur_val j st \<noteq> 0 then
           (let st1 = semop_undo u all i sid sp st
            in if sem_flg op AND SEM_NOWAIT \<noteq> 0 then (Err EAGAIN, st1)
               else (SleepZ j, upd_sem j (\<lambda>s. s\<lparr>semzcnt := semzcnt s + 1\<rparr>) st1))
         else semop_pass u sid sp all (i + 1) ops st)"

text \<open>An interrupted sleep: the count goes down, and at 1 or less everyone is woken.\<close>

definition sleep_intr :: "pass \<Rightarrow> semst \<Rightarrow> semst" where
  "sleep_intr w st =
     (case w of
        SleepN j \<Rightarrow>
          if semncnt (sems st ! j) \<le> 1
          then (upd_sem j (\<lambda>s. s\<lparr>semncnt := 0\<rparr>) st)\<lparr>sem_wakes := sem_wakes st @ [WakeN j]\<rparr>
          else upd_sem j (\<lambda>s. s\<lparr>semncnt := semncnt s - 1\<rparr>) st
      | SleepZ j \<Rightarrow>
          if semzcnt (sems st ! j) \<le> 1
          then (upd_sem j (\<lambda>s. s\<lparr>semzcnt := 0\<rparr>) st)\<lparr>sem_wakes := sem_wakes st @ [WakeZ j]\<rparr>
          else upd_sem j (\<lambda>s. s\<lparr>semzcnt := semzcnt s - 1\<rparr>) st
      | _ \<Rightarrow> st)"

definition pass_err :: "pass \<Rightarrow> errno option" where
  "pass_err w = (case w of Err e \<Rightarrow> Some e | _ \<Rightarrow> None)"

definition semop_finish :: "caller \<Rightarrow> nat \<Rightarrow> sembuf list \<Rightarrow> semst \<Rightarrow> semst" where
  "semop_finish u i ops st =
     (let st' = foldl (\<lambda>st op. upd_sem (sem_at (sema st ! i) op) (\<lambda>s. s\<lparr>sempid := p_pid u\<rparr>) st) st ops
      in st'\<lparr>sema := (sema st')[i := (sema st' ! i)\<lparr>sem_otime := hrestime u\<rparr>]\<rparr>)"

text \<open>
  The loop at the label \<open>check\<close>, for attempt \<open>n\<close>.  \<open>slp\<close> is what happens while the caller
  sleeps (whether the sleep was interrupted, and the state the others leave) and \<open>copyin n\<close> the
  operations read from the user at attempt \<open>n\<close>.  The code may sleep for ever, hence
  \<open>partial_function\<close>.
\<close>

partial_function (option) semop_check ::
    "(pass \<Rightarrow> semst \<Rightarrow> bool \<times> semst) \<Rightarrow> (nat \<Rightarrow> sembuf list option) \<Rightarrow> caller \<Rightarrow> int \<Rightarrow> nat \<Rightarrow> nat \<Rightarrow> semst
      \<Rightarrow> (errno option \<times> semst) option" where
  [code]: "semop_check slp copyin u sid i n st =
     (if n \<noteq> 0 \<and> isl (semconv sid st) then Some (Some EIDRM, st)
      else case copyin n of
        None \<Rightarrow> Some (Some EFAULT, st)
      | Some ops \<Rightarrow>
          (case semop_pass u sid (sema st ! i) ops 0 ops st of
             (w, st1) \<Rightarrow>
               if w = Done then Some (None, semop_finish u i ops st1)
               else (case pass_err w of
                  Some e \<Rightarrow> Some (Some e, st1)
                | None \<Rightarrow>
                    (case slp w st1 of
                       (intr, st2) \<Rightarrow>
                         if intr then Some (Some EINTR, sleep_intr w st2)
                         else semop_check slp copyin u sid i (n + 1) st2))))"

definition semop ::
    "(pass \<Rightarrow> semst \<Rightarrow> bool \<times> semst) \<Rightarrow> (nat \<Rightarrow> sembuf list option) \<Rightarrow> caller \<Rightarrow> int \<Rightarrow> nat \<Rightarrow> semst
      \<Rightarrow> (errno option \<times> semst) option" where
  "semop slp copyin u sid nsops st0 =
     (let st = st0\<lparr>sema_cnt := sema_cnt st0 + 1\<rparr>
      in case semconv sid st of
           Inl e \<Rightarrow> Some (Some e, st)
         | Inr i \<Rightarrow>
             if int nsops > semopm (sinfo st) then Some (Some E2BIG, st)
             else case copyin 0 of
               None \<Rightarrow> Some (Some EFAULT, st)
             | Some ops \<Rightarrow>
                 (case semop_verify (sema st ! i) (u_cred u) ops of
                    Some e \<Rightarrow> Some (Some e, st)
                  | None \<Rightarrow> semop_check slp copyin u sid i 0 st))"

section \<open>Control, creation and exit\<close>

text \<open>
  \<open>semctl\<close>.  \<open>o_semid_ds\<close> is the SVR3 structure; \<open>sem_user\<close> stands for the user's memory: what
  \<open>copyin\<close> delivers (\<open>None\<close> for a fault) and whether the \<open>n\<close>-th \<open>copyout\<close> succeeds.  The result
  is \<open>r_val1\<close> with what was copied out.
\<close>

record o_semid_ds =
  o_uid :: u16
  o_gid :: u16
  o_cuid :: u16
  o_cgid :: u16
  o_mode :: u16
  o_seq :: u16
  o_key :: int
  o_nsems :: u16
  o_otime :: int
  o_ctime :: int

record sem_user =
  in_ods :: "o_semid_ds option"
  in_ds :: "semid_ds option"
  in_vals :: "nat \<Rightarrow> u16 list option"
  out_ok :: "nat \<Rightarrow> bool"

datatype semctl_out = OutNone | OutOds o_semid_ds | OutDs semid_ds | OutVals "u16 list"

definition GETNCNT :: int where "GETNCNT = 3"
definition GETPID :: int where "GETPID = 4"
definition GETVAL :: int where "GETVAL = 5"
definition GETALL :: int where "GETALL = 6"
definition GETZCNT :: int where "GETZCNT = 7"
definition SETVAL :: int where "SETVAL = 8"
definition SETALL :: int where "SETALL = 9"

definition may_control :: "caller \<Rightarrow> ipc_perm \<Rightarrow> bool" where
  "may_control u p \<longleftrightarrow> cr_uid (u_cred u) = uid p \<or> cr_uid (u_cred u) = cuid p \<or> suser (u_cred u)"

definition upd_sema :: "nat \<Rightarrow> (semid_ds \<Rightarrow> semid_ds) \<Rightarrow> semst \<Rightarrow> semst" where
  "upd_sema i f st = st\<lparr>sema := (sema st)[i := f (sema st ! i)]\<rparr>"

text \<open>The loop of \<open>IPC_RMID\<close> over the set's semaphores, for one of them.\<close>

definition rmid_sem :: "nat \<Rightarrow> semst \<Rightarrow> semst" where
  "rmid_sem j st = wake_z j (wake_n j (upd_sem j (\<lambda>s. s\<lparr>semval := 0, sempid := 0\<rparr>) st))"

definition semctl_rmid :: "int \<Rightarrow> nat \<Rightarrow> semst \<Rightarrow> semst" where
  "semctl_rmid sid i st =
     (let sp = sema st ! i;
          st1 = semunrm sid 0 (sem_nsems sp) st;
          st2 = foldl (\<lambda>st j. rmid_sem j st) st1 [sem_base sp ..< sem_base sp + unat (sem_nsems sp)];
          st3 = st2\<lparr>semmap := rmfree (semmap st2) (ucast (sem_nsems sp)) (of_nat (sem_base sp) + 1)\<rparr>;
          reuse = take_bit 32 (sid + semmni (sinfo st)) > int INT16_MAX
      in upd_sema i (\<lambda>sp. sp\<lparr>sem_perm := (sem_perm sp)
             \<lparr>seq := (if reuse then 0 else seq (sem_perm sp) + 1), mode := 0\<rparr>\<rparr>) st3)"

definition sem_set_perm :: "int \<Rightarrow> int \<Rightarrow> u32 \<Rightarrow> caller \<Rightarrow> semid_ds \<Rightarrow> semid_ds" where
  "sem_set_perm u g m c sp =
     sp\<lparr>sem_perm := (sem_perm sp)\<lparr>uid := u, gid := g, mode := (m AND 0x1FF) OR IPC_ALLOC\<rparr>,
        sem_ctime := hrestime c\<rparr>"

definition o_semid_of :: "semid_ds \<Rightarrow> o_semid_ds option" where
  "o_semid_of sp =
     (let p = sem_perm sp
      in if uid p > 65535 \<or> gid p > 65535 \<or> cuid p > 65535 \<or> cgid p > 65535 \<or> seq p > 65535 then None
         else Some \<lparr>o_uid = word_of_int (uid p), o_gid = word_of_int (gid p), o_cuid = word_of_int (cuid p),
           o_cgid = word_of_int (cgid p), o_mode = ucast (mode p), o_seq = ucast (seq p), o_key = key p,
           o_nsems = sem_nsems sp, o_otime = sem_otime sp, o_ctime = sem_ctime sp\<rparr>)"

text \<open>The body of \<open>SETVAL\<close> and of the loop of \<open>SETALL\<close> for semaphore \<open>j\<close>.\<close>

definition set_val :: "nat \<Rightarrow> u16 \<Rightarrow> semst \<Rightarrow> semst" where
  "set_val j v st =
     (let st1 = upd_sem j (\<lambda>s. s\<lparr>semval := v\<rparr>) st
      in if v \<noteq> 0 then wake_n j st1 else wake_z j st1)"

definition set_pid :: "caller \<Rightarrow> nat \<Rightarrow> semst \<Rightarrow> semst" where
  "set_pid u j st = upd_sem j (\<lambda>s. s\<lparr>sempid := p_pid u\<rparr>) st"

fun set_vals :: "caller \<Rightarrow> nat \<Rightarrow> u16 list \<Rightarrow> semst \<Rightarrow> semst" where
  "set_vals u j [] st = st"
| "set_vals u j (v # vs) st = set_vals u (j + 1) vs (set_pid u j (set_val j v st))"

definition semctl_get ::
    "caller \<Rightarrow> semid_ds \<Rightarrow> u32 \<Rightarrow> (sem \<Rightarrow> int) \<Rightarrow> semst \<Rightarrow> (errno + int \<times> semctl_out) \<times> semst" where
  "semctl_get u sp semnum get st =
     (case ipcaccess (sem_perm sp) SEM_R (u_cred u) of
        Some e \<Rightarrow> (Inl e, st)
      | None \<Rightarrow>
          if unat semnum \<ge> unat (sem_nsems sp) then (Inl EINVAL, st)
          else (Inr (get (sems st ! (sem_base sp + unat semnum)), OutNone), st))"

definition semctl ::
    "sem_user \<Rightarrow> caller \<Rightarrow> int \<Rightarrow> u32 \<Rightarrow> int \<Rightarrow> u32 \<Rightarrow> semst \<Rightarrow> (errno + int \<times> semctl_out) \<times> semst" where
  "semctl usr u sid semnum cmd arg st =
     (case semconv sid st of
        Inl e \<Rightarrow> (Inl e, st)
      | Inr i \<Rightarrow>
        (let sp = sema st ! i; p = sem_perm sp; n = unat (sem_nsems sp); ok = (Inr (0, OutNone) :: errno + int \<times> semctl_out)
         in if cmd = IPC_O_RMID \<or> cmd = IPC_RMID then
              (if \<not> may_control u p then (Inl EPERM, st) else (ok, semctl_rmid sid i st))
            else if cmd = IPC_O_SET then
              (if \<not> may_control u p then (Inl EPERM, st)
               else case in_ods usr of
                 None \<Rightarrow> (Inl EFAULT, st)
               | Some d \<Rightarrow>
                   if int (unat (o_uid d)) > MAXUID \<or> int (unat (o_gid d)) > MAXUID then (Inl EINVAL, st)
                   else (ok, upd_sema i (sem_set_perm (int (unat (o_uid d))) (int (unat (o_gid d))) (ucast (o_mode d)) u) st))
            else if cmd = IPC_SET then
              (if \<not> may_control u p then (Inl EPERM, st)
               else case in_ds usr of
                 None \<Rightarrow> (Inl EFAULT, st)
               | Some d \<Rightarrow>
                   let q = sem_perm d
                   in if uid q < 0 \<or> uid q > MAXUID \<or> gid q < 0 \<or> gid q > MAXUID then (Inl EINVAL, st)
                      else (ok, upd_sema i (sem_set_perm (uid q) (gid q) (mode q) u) st))
            else if cmd = IPC_O_STAT then
              (case ipcaccess p SEM_R (u_cred u) of
                 Some e \<Rightarrow> (Inl e, st)
               | None \<Rightarrow>
                   (case o_semid_of sp of
                      None \<Rightarrow> (Inl EOVERFLOW, st)
                    | Some d \<Rightarrow> (if out_ok usr 0 then Inr (0, OutOds d) else Inl EFAULT, st)))
            else if cmd = IPC_STAT then
              (case ipcaccess p SEM_R (u_cred u) of
                 Some e \<Rightarrow> (Inl e, st)
               | None \<Rightarrow> (if out_ok usr 0 then Inr (0, OutDs sp) else Inl EFAULT, st))
            else if cmd = GETNCNT then semctl_get u sp semnum (\<lambda>s. int (unat (semncnt s))) st
            else if cmd = GETPID then semctl_get u sp semnum sempid st
            else if cmd = GETVAL then semctl_get u sp semnum (\<lambda>s. int (unat (semval s))) st
            else if cmd = GETALL then
              (case ipcaccess p SEM_R (u_cred u) of
                 Some e \<Rightarrow> (Inl e, st)
               | None \<Rightarrow>
                   if list_all (out_ok usr) [0..<n]
                   then (Inr (0, OutVals (map (\<lambda>k. semval (sems st ! (sem_base sp + k))) [0..<n])), st)
                   else (Inl EFAULT, st))
            else if cmd = GETZCNT then semctl_get u sp semnum (\<lambda>s. int (unat (semzcnt s))) st
            else if cmd = SETVAL then
              (case ipcaccess p SEM_A (u_cred u) of
                 Some e \<Rightarrow> (Inl e, st)
               | None \<Rightarrow>
                   if unat semnum \<ge> n then (Inl EINVAL, st)
                   else if int (unat arg) > semvmx (sinfo st) then (Inl ERANGE, st)
                   else (ok, semunrm sid (ucast semnum) (ucast semnum)
                          (set_pid u (sem_base sp + unat semnum) (set_val (sem_base sp + unat semnum) (ucast arg) st))))
            else if cmd = SETALL then
              (case ipcaccess p SEM_A (u_cred u) of
                 Some e \<Rightarrow> (Inl e, st)
               | None \<Rightarrow>
                   (case in_vals usr n of
                      None \<Rightarrow> (Inl EFAULT, st)
                    | Some vs \<Rightarrow>
                        if list_ex (\<lambda>v. int (unat v) > semvmx (sinfo st)) vs then (Inl ERANGE, st)
                        else (ok, set_vals u (sem_base sp) vs (semunrm sid 0 (sem_nsems sp) st))))
            else (Inl EINVAL, st)))"

text \<open>\<open>semexit\<close>: the adjustment of one entry, the last entry first, then the structure is freed.\<close>

definition semexit_entry :: "undo \<Rightarrow> semst \<Rightarrow> semst" where
  "semexit_entry e st =
     (case semconv (un_id e) st of
        Inl _ \<Rightarrow> st
      | Inr i \<Rightarrow>
          (let j = sem_base (sema st ! i) + unat (un_num e);
               v = cur_val j st + un_aoe e
           in if v < 0 \<or> v > semvmx (sinfo st) then st
              else
                let st1 = upd_sem j (\<lambda>s. s\<lparr>semval := word_of_int v\<rparr>) st;
                    st2 = (if v = 0 then wake_z j st1 else st1)
                in if un_aoe e > 0 then wake_n j st2 else st2))"

definition semexit :: "caller \<Rightarrow> semst \<Rightarrow> semst" where
  "semexit u st =
     (case sem_undo st ! p_slot u of
        None \<Rightarrow> st
      | Some up \<Rightarrow>
          (let st1 = (if semu st ! up = [] then st
                 else
                   let st0 = foldl (\<lambda>st e. semexit_entry e st) st (rev (semu st ! up))
                   in st0\<lparr>semu := (semu st0)[up := []], semunp := remove1 up (semunp st0)\<rparr>)
           in st1\<lparr>semfup := up # semfup st1, sem_undo := (sem_undo st1)[p_slot u := None]\<rparr>))"

text \<open>\<open>semget\<close>, whose result is \<open>r_val1\<close>, and \<open>seminit\<close>.\<close>

definition set_perms :: "ipc_perm list \<Rightarrow> semid_ds list \<Rightarrow> semid_ds list" where
  "set_perms ps ds = map (\<lambda>(p, d). d\<lparr>sem_perm := p\<rparr>) (zip ps ds)"

definition clear_mode :: "semid_ds \<Rightarrow> semid_ds" where
  "clear_mode sp = sp\<lparr>sem_perm := (sem_perm sp)\<lparr>mode := 0\<rparr>\<rparr>"

definition semget :: "caller \<Rightarrow> int \<Rightarrow> int \<Rightarrow> u32 \<Rightarrow> semst \<Rightarrow> (errno + int) \<times> semst" where
  "semget u k nsems semflg st =
     (case ipcget k semflg (map sem_perm (sema st)) (u_cred u) of
        Inl e \<Rightarrow> (Inl e, st)
      | Inr (s, i, perms) \<Rightarrow>
        (let st1 = st\<lparr>sema := set_perms perms (sema st)\<rparr>;
             rval = (\<lambda>st. s32 (int (unat (seq (sem_perm (sema st ! i)))) * semmni (sinfo st) + int i))
         in if s then
              (if nsems \<le> 0 \<or> nsems > semmsl (sinfo st) then (Inl EINVAL, upd_sema i clear_mode st1)
               else
                 (case rmalloc (semmap st1) (word_of_int nsems) of
                    (a, mp) \<Rightarrow>
                      if a = 0 then (Inl ENOSPC, upd_sema i clear_mode (st1\<lparr>semmap := mp\<rparr>))
                      else
                        let st2 = upd_sema i (\<lambda>sp. sp\<lparr>sem_base := unat (a - 1), sem_nsems := word_of_int nsems,
                                    sem_ctime := hrestime u, sem_otime := 0\<rparr>) (st1\<lparr>semmap := mp\<rparr>)
                        in (Inr (rval st2), st2)))
            else if nsems \<noteq> 0 \<and> int (unat (sem_nsems (sema st ! i))) < take_bit 32 nsems then (Inl EINVAL, st1)
            else (Inr (rval st1), st1)))"

definition seminit :: "nat \<Rightarrow> semst \<Rightarrow> semst" where
  "seminit mapents st =
     st\<lparr>semmap := rmfree (mapinit mapents) (word_of_int (semmns (sinfo st))) 1,
        semfup := [0..<nat (semmnu (sinfo st))]\<rparr>"

text \<open>\<open>semsys\<close>: the dispatch on the opcode.\<close>

datatype sem_args =
    SemctlArgs int u32 int u32
  | SemgetArgs int int u32
  | SemopArgs int nat

definition semsys ::
    "sem_user \<Rightarrow> (pass \<Rightarrow> semst \<Rightarrow> bool \<times> semst) \<Rightarrow> (nat \<Rightarrow> sembuf list option) \<Rightarrow> caller \<Rightarrow> sem_args option \<Rightarrow> semst
      \<Rightarrow> ((errno + int \<times> semctl_out) \<times> semst) option" where
  "semsys usr slp copyin u uap st =
     (case uap of
        Some (SemctlArgs sid semnum cmd arg) \<Rightarrow> Some (semctl usr u sid semnum cmd arg st)
      | Some (SemgetArgs k nsems semflg) \<Rightarrow>
          (case semget u k nsems semflg st of
             (Inl e, st') \<Rightarrow> Some (Inl e, st')
           | (Inr v, st') \<Rightarrow> Some (Inr (v, OutNone), st'))
      | Some (SemopArgs sid nsops) \<Rightarrow>
          (case semop slp copyin u sid nsops st of
             None \<Rightarrow> None
           | Some (Some e, st') \<Rightarrow> Some (Inl e, st')
           | Some (None, st') \<Rightarrow> Some (Inr (0, OutNone), st'))
      | None \<Rightarrow> Some (Inl EINVAL, st))"

end
