(* ===== verification/Sem_Undo.thy ===== *)
theory Sem_Undo imports Sem "HOL-Library.Multiset" begin

text \<open>
  The adjust-on-exit entries of \<open>os/sem.c\<close>: what \<open>semaoe\<close> and \<open>semunrm\<close> do to the adjustments a
  process has, and the invariant of the undo table.
\<close>

section \<open>Lists of undo entries as functions\<close>

definition un_key :: "undo \<Rightarrow> int \<times> u16" where
  "un_key e = (un_id e, un_num e)"

fun aoe_of :: "undo list \<Rightarrow> int \<times> u16 \<Rightarrow> int" where
  "aoe_of [] k = 0"
| "aoe_of (e # es) k = (if un_key e = k then un_aoe e else aoe_of es k)"

definition ents_sorted :: "undo list \<Rightarrow> bool" where
  "ents_sorted = sorted_wrt (\<lambda>a b. un_before (un_id b) (un_num b) a)"

definition ents_ok :: "seminfo \<Rightarrow> undo list \<Rightarrow> bool" where
  "ents_ok si es \<longleftrightarrow> ents_sorted es \<and> int (length es) \<le> semume si \<and>
     (\<forall>e \<in> set es. un_aoe e \<noteq> 0 \<and> \<bar>un_aoe e\<bar> \<le> semaem si)"

lemma un_before_trans: "un_before (un_id b) (un_num b) a \<Longrightarrow> un_before i n b \<Longrightarrow> un_before i n a"
  by (auto simp: un_before_def)

lemma un_before_key: "un_before i n e \<Longrightarrow> un_key e \<noteq> (i, n)"
  by (auto simp: un_before_def un_key_def)

lemma un_before_linear: "\<not> un_before i n e \<Longrightarrow> un_key e = (i, n) \<or> un_before (un_id e) (un_num e) \<lparr>un_aoe = v, un_num = n, un_id = i\<rparr>"
  by (auto simp: un_before_def un_key_def)

lemma aoe_of_append: "k \<notin> un_key ` set xs \<Longrightarrow> aoe_of (xs @ ys) k = aoe_of ys k"
  by (induction xs) auto

lemma aoe_of_absent: "k \<notin> un_key ` set xs \<Longrightarrow> aoe_of xs k = 0"
  by (induction xs) auto

lemma ents_sorted_keys: "ents_sorted (e # es) \<Longrightarrow> un_key e \<notin> un_key ` set es"
  by (auto simp: ents_sorted_def un_before_def un_key_def)

lemma ents_sorted_distinct: "ents_sorted es \<Longrightarrow> distinct (map un_key es)"
  by (induction es) (use ents_sorted_keys in \<open>auto simp: ents_sorted_def\<close>)

lemma aoe_of_mem: "ents_sorted es \<Longrightarrow> e \<in> set es \<Longrightarrow> aoe_of es (un_key e) = un_aoe e"
proof (induction es)
  case (Cons x xs)
  then show ?case using ents_sorted_keys [of x xs] by (auto simp: ents_sorted_def)
qed simp

lemma support_card:
  assumes "ents_ok si es"
  shows "card {k. aoe_of es k \<noteq> 0} = length es" "finite {k. aoe_of es k \<noteq> 0}"
proof -
  have s: "ents_sorted es" using assms by (simp add: ents_ok_def)
  have "{k. aoe_of es k \<noteq> 0} = un_key ` set es"
    using aoe_of_absent aoe_of_mem [OF s] assms by (fastforce simp: ents_ok_def)
  then show "card {k. aoe_of es k \<noteq> 0} = length es" "finite {k. aoe_of es k \<noteq> 0}"
    using distinct_card [OF ents_sorted_distinct [OF s]] by simp_all
qed

text \<open>The search of \<open>semaoe\<close> splits a sorted list at its key.\<close>

lemma search_split:
  assumes s: "ents_sorted es"
  obtains pre suf where "es = pre @ suf" "takeWhile (un_before i n) es = pre" "dropWhile (un_before i n) es = suf"
    "\<forall>e \<in> set pre. un_before i n e" "\<forall>e \<in> set suf. \<not> un_before i n e"
proof -
  have "\<forall>e \<in> set (dropWhile (un_before i n) es). \<not> un_before i n e"
    using s
  proof (induction es)
    case (Cons x xs)
    then show ?case using un_before_trans [of _ x] by (auto simp: ents_sorted_def)
  qed simp
  then show ?thesis
    by (intro that [of "takeWhile (un_before i n) es" "dropWhile (un_before i n) es"])
       (auto dest: set_takeWhileD)
qed

lemma search_cases:
  assumes s: "ents_sorted es"
  obtains (absent) pre suf where "es = pre @ suf" "takeWhile (un_before i n) es = pre"
      "dropWhile (un_before i n) es = suf" "suf = [] \<or> un_key (hd suf) \<noteq> (i, n)" "aoe_of es (i, n) = 0"
      "\<And>v. ents_sorted (pre @ \<lparr>un_aoe = v, un_num = n, un_id = i\<rparr> # suf)"
      "\<And>v k. aoe_of (pre @ \<lparr>un_aoe = v, un_num = n, un_id = i\<rparr> # suf) k = (if k = (i, n) then v else aoe_of es k)"
  | (present) pre e suf where "es = pre @ e # suf" "takeWhile (un_before i n) es = pre"
      "dropWhile (un_before i n) es = e # suf" "un_key e = (i, n)" "aoe_of es (i, n) = un_aoe e"
      "ents_sorted (pre @ suf)" "\<And>v. ents_sorted (pre @ e\<lparr>un_aoe := v\<rparr> # suf)"
      "\<And>v k. aoe_of (pre @ e\<lparr>un_aoe := v\<rparr> # suf) k = (if k = (i, n) then v else aoe_of es k)"
      "\<And>k. aoe_of (pre @ suf) k = (if k = (i, n) then 0 else aoe_of es k)"
proof (rule search_split [OF s, of i n])
  fix pre suf
  assume split: "es = pre @ suf" "takeWhile (un_before i n) es = pre" "dropWhile (un_before i n) es = suf"
    and pre: "\<forall>e \<in> set pre. un_before i n e" and suf: "\<forall>e \<in> set suf. \<not> un_before i n e"
  have npre: "(i, n) \<notin> un_key ` set pre"
  proof
    assume "(i, n) \<in> un_key ` set pre"
    then obtain e where "e \<in> set pre" "un_key e = (i, n)" by (metis imageE)
    then show False using pre un_before_key [of i n e] by simp
  qed
  have ap: "aoe_of (pre @ ys) k = (if k \<in> un_key ` set pre then aoe_of pre k else aoe_of ys k)" for ys k
    by (induction pre) auto
  show ?thesis
  proof (cases "suf = [] \<or> un_key (hd suf) \<noteq> (i, n)")
    case True
    have "un_key e \<noteq> (i, n)" if "e \<in> set suf" for e
    proof (cases suf)
      case (Cons h t)
      have st: "ents_sorted (h # t)" using s by (simp add: split(1) Cons ents_sorted_def sorted_wrt_append)
      show ?thesis
      proof
        assume k: "un_key e = (i, n)"
        then have "e \<in> set t" using True that Cons by auto
        then have "un_before (un_id e) (un_num e) h" using st by (simp add: ents_sorted_def)
        then have "un_before i n h" using k by (simp add: un_key_def)
        then show False using suf Cons by simp
      qed
    qed (use that in simp)
    then have nsuf: "(i, n) \<notin> un_key ` set suf" by force
    have after: "un_before (un_id e) (un_num e) \<lparr>un_aoe = v, un_num = n, un_id = i\<rparr>" if "e \<in> set suf" for e v
      using un_before_linear [of i n e v] suf nsuf that by force
    show ?thesis
    proof (rule absent [OF split True])
      show "aoe_of es (i, n) = 0" using npre nsuf by (simp add: split(1) aoe_of_append aoe_of_absent)
      show "ents_sorted (pre @ \<lparr>un_aoe = v, un_num = n, un_id = i\<rparr> # suf)" for v
        using s pre after unfolding split(1) by (auto simp: ents_sorted_def sorted_wrt_append)
      show "aoe_of (pre @ \<lparr>un_aoe = v, un_num = n, un_id = i\<rparr> # suf) k = (if k = (i, n) then v else aoe_of es k)" for v k
        using npre by (auto simp: split(1) ap un_key_def)
    qed
  next
    case False
    then obtain e suf' where c: "suf = e # suf'" "un_key e = (i, n)" by (cases suf) auto
    have s': "ents_sorted (pre @ e # suf')" using s by (simp add: split(1) c(1))
    have nk: "(i, n) \<notin> un_key ` set suf'"
      using s' ents_sorted_keys [of e suf'] c(2) by (auto simp: ents_sorted_def sorted_wrt_append)
    show ?thesis
    proof (rule present [of pre e suf'])
      show "es = pre @ e # suf'" "takeWhile (un_before i n) es = pre" "dropWhile (un_before i n) es = e # suf'"
        "un_key e = (i, n)"
        using split c by simp_all
      show "aoe_of es (i, n) = un_aoe e" using npre by (simp add: split(1) c aoe_of_append)
      show "ents_sorted (pre @ suf')" using s' by (auto simp: ents_sorted_def sorted_wrt_append)
      show "ents_sorted (pre @ e\<lparr>un_aoe := v\<rparr> # suf')" for v
        using s' by (auto simp: ents_sorted_def sorted_wrt_append un_before_def)
      show "aoe_of (pre @ e\<lparr>un_aoe := v\<rparr> # suf') k = (if k = (i, n) then v else aoe_of es k)" for v k
        using npre c by (auto simp: split(1) ap un_key_def)
      show "aoe_of (pre @ suf') k = (if k = (i, n) then 0 else aoe_of es k)" for k
        using npre c nk by (auto simp: split(1) ap un_key_def aoe_of_absent)
    qed
  qed
qed

section \<open>The undo state\<close>

text \<open>
  \<open>undo_ok\<close>: every structure's entries are sorted, within the limits and not 0; the chain
  \<open>semunp\<close> holds exactly the structures with entries; free structures and those of processes
  partition the table, and free ones are empty.  \<open>adj\<close> reads the adjustment a process has for a
  semaphore.
\<close>

definition somes :: "'a option list \<Rightarrow> 'a list" where
  "somes l = map the (filter (\<lambda>x. x \<noteq> None) l)"

definition owned :: "semst \<Rightarrow> nat list" where
  "owned st = somes (sem_undo st)"

lemma somes_split:
  "i < length l \<Longrightarrow> somes l = somes (take i l) @ (case l ! i of None \<Rightarrow> [] | Some x \<Rightarrow> [x]) @ somes (drop (Suc i) l)"
  by (induction l arbitrary: i) (auto simp: somes_def nth_Cons split: nat.splits option.splits)

lemma somes_mem: "Some x \<in> set l \<Longrightarrow> x \<in> set (somes l)"
  by (force simp: somes_def)

definition undo_ok :: "semst \<Rightarrow> bool" where
  "undo_ok st \<longleftrightarrow>
     (\<forall>up < length (semu st). ents_ok (sinfo st) (semu st ! up)) \<and>
     distinct (semunp st) \<and> set (semunp st) = {up. up < length (semu st) \<and> semu st ! up \<noteq> []} \<and>
     mset (semfup st) + mset (owned st) = mset [0..<length (semu st)] \<and>
     (\<forall>up \<in> set (semfup st). semu st ! up = [])"

definition adj :: "semst \<Rightarrow> nat \<Rightarrow> int \<times> u16 \<Rightarrow> int" where
  "adj st slot k = (case sem_undo st ! slot of None \<Rightarrow> 0 | Some up \<Rightarrow> aoe_of (semu st ! up) k)"

definition limits_ok :: "seminfo \<Rightarrow> bool" where
  "limits_ok si \<longleftrightarrow> 0 \<le> semaem si \<and> semaem si \<le> 16384 \<and> 0 \<le> semvmx si \<and> semvmx si \<le> 65535 \<and>
     0 < semmni si \<and> 0 \<le> semume si"

definition same_but_undo :: "semst \<Rightarrow> semst \<Rightarrow> bool" where
  "same_but_undo st st' \<longleftrightarrow> length (sem_undo st') = length (sem_undo st) \<and> length (semu st') = length (semu st) \<and>
     sems st' = sems st \<and> sinfo st' = sinfo st \<and> sema st' = sema st \<and> semmap st' = semmap st \<and>
     sem_wakes st' = sem_wakes st \<and> sema_cnt st' = sema_cnt st"

lemma same_but_undoD:
  assumes "same_but_undo st st'"
  shows "sems st' = sems st" "sinfo st' = sinfo st" "sema st' = sema st" "semmap st' = semmap st"
    "sem_wakes st' = sem_wakes st" "sema_cnt st' = sema_cnt st"
    "length (sem_undo st') = length (sem_undo st)" "length (semu st') = length (semu st)"
  using assms by (simp_all add: same_but_undo_def)

lemma same_but_undo_trans: "same_but_undo a b \<Longrightarrow> same_but_undo b c \<Longrightarrow> same_but_undo a c"
  by (simp add: same_but_undo_def)

lemma same_but_undo_refl [simp]: "same_but_undo st st"
  by (simp add: same_but_undo_def)

lemma owned_mem: "slot < length (sem_undo st) \<Longrightarrow> sem_undo st ! slot = Some up \<Longrightarrow> up \<in> set (owned st)"
  unfolding owned_def by (rule somes_mem) (metis nth_mem)

lemma undo_ok_owned:
  assumes ok: "undo_ok st" and s: "slot < length (sem_undo st)" "sem_undo st ! slot = Some up"
  shows "up < length (semu st)" "up \<notin> set (semfup st)"
    "\<And>s'. s' < length (sem_undo st) \<Longrightarrow> s' \<noteq> slot \<Longrightarrow> sem_undo st ! s' \<noteq> Some up"
proof -
  have m: "mset (semfup st @ owned st) = mset [0..<length (semu st)]" using ok by (simp add: undo_ok_def)
  have d: "distinct (semfup st @ owned st)" using mset_eq_imp_distinct_iff [OF m] by simp
  have "set (semfup st @ owned st) = {..<length (semu st)}" using mset_eq_setD [OF m] by auto
  then show "up < length (semu st)" using owned_mem [OF s] by auto
  show "up \<notin> set (semfup st)" using owned_mem [OF s] d by auto
  fix s' assume s': "s' < length (sem_undo st)" "s' \<noteq> slot"
  show "sem_undo st ! s' \<noteq> Some up"
  proof
    assume e: "sem_undo st ! s' = Some up"
    obtain i j where ij: "i < j" "j < length (sem_undo st)" "sem_undo st ! i = Some up" "sem_undo st ! j = Some up"
      using s s' e by (metis linorder_neqE_nat)
    have "owned st = somes (take j (sem_undo st)) @ up # somes (drop (Suc j) (sem_undo st))"
      using somes_split [OF ij(2)] ij(4) by (simp add: owned_def)
    moreover have "Some up \<in> set (take j (sem_undo st))"
      using ij(1,2,3) by (auto simp: in_set_conv_nth intro!: exI [of _ i])
    then have "up \<in> set (somes (take j (sem_undo st)))" by (rule somes_mem)
    ultimately show False using d by auto
  qed
qed

definition chain_upd :: "nat \<Rightarrow> undo list \<Rightarrow> undo list \<Rightarrow> nat list \<Rightarrow> nat list" where
  "chain_upd up old new ch =
     (if old = [] \<and> new \<noteq> [] then up # ch else if old \<noteq> [] \<and> new = [] then remove1 up ch else ch)"

lemma replace_ents:
  assumes ok: "undo_ok st" and s: "slot < length (sem_undo st)" "sem_undo st ! slot = Some up"
    and es: "ents_ok (sinfo st) es"
  defines "st' \<equiv> st\<lparr>semu := (semu st)[up := es], semunp := chain_upd up (semu st ! up) es (semunp st)\<rparr>"
  shows "undo_ok st'" "same_but_undo st st'" "sem_undo st' = sem_undo st"
    "s' < length (sem_undo st) \<Longrightarrow> adj st' s' k = (if s' = slot then aoe_of es k else adj st s' k)"
proof -
  note o = undo_ok_owned [OF ok s]
  have ch: "distinct (semunp st)" "set (semunp st) = {up. up < length (semu st) \<and> semu st ! up \<noteq> []}"
    using ok by (auto simp: undo_ok_def)
  have "distinct (chain_upd up (semu st ! up) es (semunp st))"
    "set (chain_upd up (semu st ! up) es (semunp st)) = {q. q < length (semu st) \<and> (semu st)[up := es] ! q \<noteq> []}"
    using ch o(1) by (auto simp: chain_upd_def nth_list_update)
  then show "undo_ok st'"
    using ok es o(1,2) by (auto simp: undo_ok_def st'_def owned_def nth_list_update)
  show "same_but_undo st st'" "sem_undo st' = sem_undo st" by (simp_all add: same_but_undo_def st'_def)
  show "adj st' s' k = (if s' = slot then aoe_of es k else adj st s' k)" if "s' < length (sem_undo st)"
  proof (cases "s' = slot")
    case True
    then show ?thesis using s o(1) by (simp add: adj_def st'_def)
  next
    case False
    then show ?thesis using o(3) [OF that False]
      by (auto simp: adj_def st'_def split: option.splits)
  qed
qed

text \<open>Giving a free structure to a process that has none.\<close>

lemma take_free:
  assumes ok: "undo_ok st" and s: "slot < length (sem_undo st)" "sem_undo st ! slot = None" and f: "semfup st = up # fs"
  defines "st' \<equiv> st\<lparr>semfup := fs, sem_undo := (sem_undo st)[slot := Some up]\<rparr>"
  shows "undo_ok st'" "same_but_undo st st'" "sem_undo st' ! slot = Some up" "slot < length (sem_undo st')"
    "adj st' s' k = adj st s' k"
proof -
  have e: "semu st ! up = []" using ok f by (simp add: undo_ok_def)
  have "owned st = somes (take slot (sem_undo st)) @ somes (drop (Suc slot) (sem_undo st))"
    using somes_split [OF s(1)] s(2) by (simp add: owned_def)
  moreover have "owned st' = somes (take slot (sem_undo st)) @ up # somes (drop (Suc slot) (sem_undo st))"
    using s(1) somes_split [of slot "(sem_undo st)[slot := Some up]"]
    by (simp add: owned_def st'_def)
  ultimately have "mset (semfup st') + mset (owned st') = mset (semfup st) + mset (owned st)"
    by (simp add: f st'_def)
  then show "undo_ok st'" using ok f by (auto simp: undo_ok_def st'_def)
  show "same_but_undo st st'" "sem_undo st' ! slot = Some up" "slot < length (sem_undo st')"
    using s by (simp_all add: same_but_undo_def st'_def)
  show "adj st' s' k = adj st s' k"
    using s e by (cases "s' = slot") (auto simp: adj_def st'_def split: option.splits)
qed

lemma s16_add: "s16 (s16 x + y) = s16 (x + y)"
proof -
  have t: "take_bit 16 (signed_take_bit 15 x) = take_bit 16 x" by (simp add: take_bit_signed_take_bit)
  have "take_bit 16 (signed_take_bit 15 x + y) = take_bit 16 (take_bit 16 (signed_take_bit 15 x) + take_bit 16 y)"
    by (simp add: take_bit_add)
  then have "take_bit 16 (signed_take_bit 15 x + y) = take_bit 16 (x + y)"
    by (simp add: t take_bit_add)
  then show ?thesis unfolding s16_def by (simp add: signed_take_bit_eq_iff_take_bit_eq)
qed

lemma s16_window:
  assumes "\<bar>x\<bar> \<le> 32768" "m \<le> 16384"
  shows "s16 x > m \<or> s16 x < - m \<longleftrightarrow> \<bar>x\<bar> > m" "\<bar>x\<bar> \<le> m \<Longrightarrow> s16 x = x"
proof -
  have "s16 (32768 :: int) = -32768" by (simp add: s16_def)
  moreover have "s16 x = x" if "x < 32768" using that assms(1) by (intro s16_id) auto
  ultimately show "s16 x > m \<or> s16 x < - m \<longleftrightarrow> \<bar>x\<bar> > m"
    using assms by (cases "x = 32768") auto
  show "s16 x = x" if "\<bar>x\<bar> \<le> m" using that assms by (intro s16_id) auto
qed

text \<open>
  \<open>semaoe_entry\<close> on the adjustments: on success the entry of the semaphore goes down by \<open>val\<close>, on
  an error nothing changes.
\<close>

lemma semaoe_entry_spec:
  assumes ok: "undo_ok st" and lim: "limits_ok (sinfo st)"
    and s: "slot < length (sem_undo st)" "sem_undo st ! slot = Some up"
    and val: "val \<noteq> 0" "\<bar>val\<bar> \<le> semaem (sinfo st)"
    and r: "semaoe_entry val sid num up st = (r, st')"
  shows "undo_ok st' \<and> same_but_undo st st' \<and> sem_undo st' = sem_undo st \<and>
    (\<forall>s' k. s' < length (sem_undo st) \<longrightarrow>
      adj st' s' k = adj st s' k - (if r = None \<and> s' = slot \<and> k = (sid, num) then val else 0)) \<and>
    (r = None \<longleftrightarrow> \<bar>adj st slot (sid, num) - val\<bar> \<le> semaem (sinfo st) \<and>
      (adj st slot (sid, num) = 0 \<longrightarrow> int (length (semu st ! up)) < semume (sinfo st)))"
proof -
  note o = undo_ok_owned [OF ok s]
  let ?es = "semu st ! up"
  have es: "ents_ok (sinfo st) ?es" using ok o(1) by (simp add: undo_ok_def)
  then have srt: "ents_sorted ?es" by (simp add: ents_ok_def)
  have a: "adj st slot (sid, num) = aoe_of ?es (sid, num)" using s by (simp add: adj_def)
  have aem: "semaem (sinfo st) \<le> 16384" using lim by (simp add: limits_ok_def)
  show ?thesis
    using srt
  proof (cases rule: search_cases [of ?es sid num])
    case (absent pre suf)
    have nf: "(suf = [] \<or> \<not> (un_id (hd suf) = sid \<and> un_num (hd suf) = num)) = True"
      using absent(4) by (auto simp: un_key_def)
    show ?thesis
    proof (cases "int (length ?es) \<ge> semume (sinfo st)")
      case True
      then have "r = Some EINVAL" "st' = st"
        using r by (simp_all only: semaoe_entry_def Let_def absent(2,3) nf if_True True prod.inject)
      then show ?thesis using ok True absent(5) a by simp
    next
      case False
      let ?new = "pre @ \<lparr>un_aoe = s16 (- val), un_num = num, un_id = sid\<rparr> # suf"
      have v: "s16 (- val) = - val" using val aem by (intro s16_id) auto
      have "ents_ok (sinfo st) ?new"
        using es False absent(1,6) val by (auto simp: ents_ok_def v)
      note rep = replace_ents [OF ok s this]
      have "r = None" "st' = st\<lparr>semu := (semu st)[up := ?new], semunp := chain_upd up ?es ?new (semunp st)\<rparr>"
        using r False unfolding semaoe_entry_def Let_def absent(2,3) nf if_True by (auto simp: chain_upd_def)
      then show ?thesis
        using rep absent(5,7) a val False v by (auto simp: adj_def s)
    qed
  next
    case (present pre e suf)
    have f: "(e # suf = [] \<or> \<not> (un_id e = sid \<and> un_num e = num)) = False"
      using present(4) by (simp add: un_key_def)
    have e: "un_aoe e \<noteq> 0" "\<bar>un_aoe e\<bar> \<le> semaem (sinfo st)"
      using es by (simp_all add: ents_ok_def present(1))
    have win: "\<bar>un_aoe e - val\<bar> \<le> 32768" using e val aem by linarith
    note w = s16_window [OF win aem]
    consider (range) "\<bar>un_aoe e - val\<bar> > semaem (sinfo st)" | (zero) "un_aoe e = val"
      | (upd) "\<bar>un_aoe e - val\<bar> \<le> semaem (sinfo st)" "un_aoe e \<noteq> val" by linarith
    then show ?thesis
    proof cases
      case range
      have "s16 (s16 (un_aoe e - val) + val) = un_aoe e"
        using e aem by (simp add: s16_add s16_id)
      moreover have "e\<lparr>un_aoe := un_aoe e\<rparr> = e" by simp
      ultimately have "r = Some ERANGE" "st' = st\<lparr>semu := (semu st)[up := ?es]\<rparr>"
        using r w(1) range unfolding semaoe_entry_def Let_def present(2,3) f if_False list.sel
        by (auto simp flip: present(1))
      then have "r = Some ERANGE" "st' = st" by simp_all
      then show ?thesis using ok range present(5) a by simp
    next
      case zero
      have "ents_ok (sinfo st) (pre @ suf)"
        using es present(1,6) by (auto simp: ents_ok_def)
      note rep = replace_ents [OF ok s this]
      have z: "s16 0 = 0" by (simp add: s16_def)
      have "?es \<noteq> []" by (simp add: present(1))
      then have "r = None" "st' = st\<lparr>semu := (semu st)[up := pre @ suf], semunp := chain_upd up ?es (pre @ suf) (semunp st)\<rparr>"
        using r zero lim unfolding semaoe_entry_def Let_def present(2,3) f if_False list.sel
        by (auto simp: chain_upd_def z limits_ok_def)
      then show ?thesis
        using rep present(5,9) a zero e lim by (auto simp: adj_def s limits_ok_def)
    next
      case upd
      let ?new = "pre @ e\<lparr>un_aoe := un_aoe e - val\<rparr> # suf"
      have "ents_ok (sinfo st) ?new" using es upd present(1,7) by (auto simp: ents_ok_def)
      note rep = replace_ents [OF ok s this]
      have "?es \<noteq> []" by (simp add: present(1))
      then have "r = None" "st' = st\<lparr>semu := (semu st)[up := ?new], semunp := chain_upd up ?es ?new (semunp st)\<rparr>"
        using r upd w unfolding semaoe_entry_def Let_def present(2,3) f if_False list.sel
        by (auto simp: chain_upd_def)
      then show ?thesis
        using rep present(5,8) a upd e by (auto simp: adj_def s)
    qed
  qed
qed

text \<open>\<open>semaoe\<close> on the adjustments, with the cases in which it must succeed.\<close>

lemma semaoe_spec:
  assumes ok: "undo_ok st" and lim: "limits_ok (sinfo st)" and s: "p_slot u < length (sem_undo st)"
    and r: "semaoe u val sid num st = (r, st')"
  shows "undo_ok st' \<and> same_but_undo st st' \<and>
    (\<forall>s' k. s' < length (sem_undo st) \<longrightarrow>
      adj st' s' k = adj st s' k - (if r = None \<and> s' = p_slot u \<and> k = (sid, num) then val else 0)) \<and>
    (sem_undo st ! p_slot u \<noteq> None \<or> r = None \<and> val \<noteq> 0 \<longrightarrow> sem_undo st' ! p_slot u \<noteq> None)"
proof (cases "val = 0 \<or> \<bar>val\<bar> > semaem (sinfo st)")
  case True
  then have "st' = st \<and> (r = None \<longleftrightarrow> val = 0)" using r by (auto simp: semaoe_def split: if_splits)
  then show ?thesis using ok by auto
next
  case False
  then have v: "val \<noteq> 0" "\<bar>val\<bar> \<le> semaem (sinfo st)"
    and nv: "\<not> (val > semaem (sinfo st) \<or> val < - semaem (sinfo st))" by auto
  show ?thesis
  proof (cases "sem_undo st ! p_slot u")
    case (Some up)
    then have "semaoe_entry val sid num up st = (r, st')" using r v nv by (simp add: semaoe_def)
    from semaoe_entry_spec [OF ok lim s Some v this] show ?thesis using Some by simp
  next
    case None
    show ?thesis
    proof (cases "semfup st")
      case Nil
      then have "st' = st" "r = Some ENOSPC" using r v nv None by (auto simp: semaoe_def)
      then show ?thesis using ok by simp
    next
      case (Cons up fs)
      define st1 where "st1 = st\<lparr>semfup := fs, sem_undo := (sem_undo st)[p_slot u := Some up]\<rparr>"
      note t = take_free [OF ok s None Cons, folded st1_def]
      have si: "sinfo st1 = sinfo st" "length (sem_undo st1) = length (sem_undo st)" by (simp_all add: st1_def)
      have "semaoe_entry val sid num up st1 = (r, st')"
        using r v nv None Cons by (simp add: semaoe_def st1_def)
      from semaoe_entry_spec [OF t(1) _ t(4,3) v(1) _ this] show ?thesis
        using lim v(2) t same_but_undo_trans [OF t(2)] by (simp add: si)
    qed
  qed
qed

lemma semaoe_succeeds:
  assumes ok: "undo_ok st" and lim: "limits_ok (sinfo st)" and s: "p_slot u < length (sem_undo st)"
    and has: "sem_undo st ! p_slot u = Some up" and v: "\<bar>val\<bar> \<le> semaem (sinfo st)"
    and rng: "\<bar>adj st (p_slot u) (sid, num) - val\<bar> \<le> semaem (sinfo st)"
    and cap: "adj st (p_slot u) (sid, num) = 0 \<Longrightarrow> int (length (semu st ! up)) < semume (sinfo st)"
  shows "fst (semaoe u val sid num st) = None"
proof (cases "val = 0")
  case False
  obtain r st' where e: "semaoe_entry val sid num up st = (r, st')" by (cases "semaoe_entry val sid num up st")
  have "r = None" using semaoe_entry_spec [OF ok lim s has False v e] rng cap by simp
  moreover have "semaoe u val sid num st = (r, st')"
    using has v False e by (auto simp: semaoe_def)
  ultimately show ?thesis by simp
qed (simp add: semaoe_def)

text \<open>The number of entries of a process is the number of semaphores it has an adjustment for.\<close>

lemma adj_support:
  assumes ok: "undo_ok st" and s: "slot < length (sem_undo st)" and has: "sem_undo st ! slot = Some up"
  shows "card {k. adj st slot k \<noteq> 0} = length (semu st ! up)" "finite {k. adj st slot k \<noteq> 0}"
    "int (length (semu st ! up)) \<le> semume (sinfo st)"
proof -
  have "ents_ok (sinfo st) (semu st ! up)" using ok undo_ok_owned(1) [OF ok s has] by (simp add: undo_ok_def)
  then show "card {k. adj st slot k \<noteq> 0} = length (semu st ! up)" "finite {k. adj st slot k \<noteq> 0}"
    "int (length (semu st ! up)) \<le> semume (sinfo st)"
    using support_card by (simp_all add: adj_def has) (simp add: ents_ok_def)
qed

lemma adj_bound:
  assumes ok: "undo_ok st" and lim: "limits_ok (sinfo st)" and s: "slot < length (sem_undo st)"
  shows "\<bar>adj st slot k\<bar> \<le> semaem (sinfo st)"
proof (cases "sem_undo st ! slot")
  case None
  then show ?thesis using lim by (simp add: adj_def limits_ok_def)
next
  case (Some up)
  then have es: "ents_ok (sinfo st) (semu st ! up)" using ok undo_ok_owned(1) [OF ok s Some] by (simp add: undo_ok_def)
  then have srt: "ents_sorted (semu st ! up)" by (simp add: ents_ok_def)
  show ?thesis
  proof (cases "k \<in> un_key ` set (semu st ! up)")
    case True
    then obtain e where "e \<in> set (semu st ! up)" "k = un_key e" by blast
    then show ?thesis using aoe_of_mem [OF srt] es Some by (auto simp: adj_def ents_ok_def)
  next
    case False
    then show ?thesis using Some lim by (simp add: adj_def aoe_of_absent limits_ok_def)
  qed
qed

end
