(* ===== verification/Sem_Op.thy ===== *)
theory Sem_Op imports Sem_Undo begin

text \<open>
  \<open>semop\<close> is atomic: the proofs that a pass over the operations which does not complete takes
  everything back, and what a pass that completes does to the values and the adjustments.
\<close>

section \<open>Performing operations on values and adjustments\<close>

text \<open>
  \<open>do_val\<close> and \<open>do_adj\<close> are one operation on the list of semaphore values and on the caller's
  adjustments; \<open>progress\<close> relates a state in the middle of a pass to the state before it.
\<close>

definition do_val :: "semid_ds \<Rightarrow> sembuf \<Rightarrow> u16 list \<Rightarrow> u16 list" where
  "do_val sp op V = V[sem_at sp op := V ! sem_at sp op + sem_op op]"

definition do_adj :: "int \<Rightarrow> sembuf \<Rightarrow> (int \<times> u16 \<Rightarrow> int) \<Rightarrow> int \<times> u16 \<Rightarrow> int" where
  "do_adj sid op f =
     (if sem_flg op AND SEM_UNDO \<noteq> 0 then f((sid, sem_num op) := f (sid, sem_num op) - sop op) else f)"

definition semvals :: "semst \<Rightarrow> u16 list" where
  "semvals st = map semval (sems st)"

definition progress :: "caller \<Rightarrow> semst \<Rightarrow> semst \<Rightarrow> u16 list \<Rightarrow> (int \<times> u16 \<Rightarrow> int) \<Rightarrow> bool" where
  "progress u st0 st V f \<longleftrightarrow>
     undo_ok st \<and> sinfo st = sinfo st0 \<and> sema st = sema st0 \<and> semmap st = semmap st0 \<and>
     sema_cnt st = sema_cnt st0 \<and> length (sem_undo st) = length (sem_undo st0) \<and>
     semvals st = V \<and> map sempid (sems st) = map sempid (sems st0) \<and>
     (\<forall>s' k. s' < length (sem_undo st0) \<longrightarrow> adj st s' k = (if s' = p_slot u then f k else adj st0 s' k))"

lemma progress_adj:
  "progress u st0 st V f \<Longrightarrow> p_slot u < length (sem_undo st0) \<Longrightarrow> adj st (p_slot u) k = f k"
  by (cases k) (simp add: progress_def)

text \<open>Adjustments that fit the caller's undo structure.\<close>

definition good_adj :: "seminfo \<Rightarrow> (int \<times> u16 \<Rightarrow> int) \<Rightarrow> bool" where
  "good_adj si f \<longleftrightarrow> (\<forall>k. \<bar>f k\<bar> \<le> semaem si) \<and> finite {k. f k \<noteq> 0} \<and> int (card {k. f k \<noteq> 0}) \<le> semume si"

definition undo_op :: "sembuf \<Rightarrow> bool" where
  "undo_op op \<longleftrightarrow> sem_flg op AND SEM_UNDO \<noteq> 0 \<and> sop op \<noteq> 0"

lemma sop_0: "sop op = 0 \<longleftrightarrow> sem_op op = 0"
  by (simp add: sop_def signed_eq_0_iff)

lemma adj_cong: "sem_undo st = sem_undo st' \<Longrightarrow> semu st = semu st' \<Longrightarrow> adj st = adj st'"
  by (rule ext)+ (simp add: adj_def cong: option.case_cong)

lemma upd_sem_frame:
  "sinfo (upd_sem j g st) = sinfo st" "sema (upd_sem j g st) = sema st" "semmap (upd_sem j g st) = semmap st"
  "sem_undo (upd_sem j g st) = sem_undo st" "semu (upd_sem j g st) = semu st" "adj (upd_sem j g st) = adj st"
  "undo_ok (upd_sem j g st) = undo_ok st" "sema_cnt (upd_sem j g st) = sema_cnt st"
  "length (sems (upd_sem j g st)) = length (sems st)"
  by (simp_all add: upd_sem_def undo_ok_def owned_def adj_cong [of st "st\<lparr>sems := x\<rparr>" for x, symmetric])

lemma semvals_upd: "semvals (upd_sem j g st) = (semvals st)[j := semval (g (sems st ! j))]"
  by (simp add: semvals_def upd_sem_def map_update)

lemma upd_sem_same:
  assumes "\<And>s. semval (g s) = semval s" "\<And>s. sempid (g s) = sempid s"
  shows "semvals (upd_sem j g st) = semvals st" "map sempid (sems (upd_sem j g st)) = map sempid (sems st)"
proof -
  show "semvals (upd_sem j g st) = semvals st"
    using assms(1) by (cases "j < length (sems st)") (simp_all add: upd_sem_def semvals_def map_update list_update_same_conv list_update_beyond)
  show "map sempid (sems (upd_sem j g st)) = map sempid (sems st)"
    using assms(2) by (cases "j < length (sems st)") (simp_all add: upd_sem_def map_update list_update_same_conv list_update_beyond)
qed

lemma map_sempid_upd:
  assumes "\<And>s. sempid (g s) = sempid s"
  shows "map sempid (sems (upd_sem j g st)) = map sempid (sems st)"
  using assms by (cases "j < length (sems st)") (simp_all add: upd_sem_def map_update list_update_same_conv list_update_beyond)

lemma progress_upd:
  assumes "progress u st0 st V f" "\<And>s. sempid (g s) = sempid s"
  shows "progress u st0 (upd_sem j g st) (V[j := semval (g (sems st ! j))]) f"
  using assms map_sempid_upd [of g j st] by (simp add: progress_def upd_sem_frame semvals_upd)

lemma progress_same:
  assumes "progress u st0 st V f" "\<And>s. semval (g s) = semval s" "\<And>s. sempid (g s) = sempid s"
  shows "progress u st0 (upd_sem j g st) V f"
  using assms upd_sem_same [of g j st] by (simp add: progress_def upd_sem_frame)

lemma progress_wakes:
  "progress u st0 (st\<lparr>sem_wakes := w\<rparr>) V f = progress u st0 st V f"
  by (simp add: progress_def undo_ok_def owned_def adj_cong [of "st\<lparr>sem_wakes := w\<rparr>" st] semvals_def)

lemma progress_wake:
  assumes "progress u st0 st V f"
  shows "progress u st0 (wake_n j st) V f" "progress u st0 (wake_z j st) V f" "progress u st0 (wake_zero j st) V f"
  using assms by (simp_all add: wake_n_def wake_z_def wake_zero_def progress_wakes progress_same)

lemma progress_add_val:
  assumes "progress u st0 st V f"
  shows "progress u st0 (add_val (sem_at sp op) (sem_op op) st) (do_val sp op V) f"
proof -
  have V: "V = semvals st" using assms by (simp add: progress_def)
  have "V[sem_at sp op := semval (sems st ! sem_at sp op) + sem_op op] = do_val sp op V"
    by (cases "sem_at sp op < length (sems st)") (simp_all add: do_val_def V semvals_def list_update_beyond)
  then show ?thesis
    using progress_upd [OF assms, of "\<lambda>s. s\<lparr>semval := semval s + sem_op op\<rparr>" "sem_at sp op"]
    by (simp add: add_val_def)
qed

text \<open>A call of \<open>semaoe\<close> that succeeds, and one that fails, in the middle of a pass.\<close>

lemma progress_semaoe:
  assumes p: "progress u st0 st V f" and lim: "limits_ok (sinfo st0)" and s: "p_slot u < length (sem_undo st0)"
    and r: "semaoe u val sid num st = (r, st')"
  shows "progress u st0 st' V (if r = None then f((sid, num) := f (sid, num) - val) else f)"
    "sems st' = sems st" "r = None \<Longrightarrow> val \<noteq> 0 \<Longrightarrow> sem_undo st' ! p_slot u \<noteq> None"
    "sem_undo st ! p_slot u \<noteq> None \<Longrightarrow> sem_undo st' ! p_slot u \<noteq> None"
    "r = None \<Longrightarrow> \<bar>val\<bar> \<le> semaem (sinfo st0)"
proof -
  have h: "undo_ok st" "limits_ok (sinfo st)" "p_slot u < length (sem_undo st)"
    using p lim s by (simp_all add: progress_def)
  note sp = semaoe_spec [OF h r]
  note fr = same_but_undoD [of st st']
  have sb: "same_but_undo st st'" using sp by blast
  show "sems st' = sems st" using fr(1) [OF sb] .
  show "r = None \<Longrightarrow> val \<noteq> 0 \<Longrightarrow> sem_undo st' ! p_slot u \<noteq> None"
    "sem_undo st ! p_slot u \<noteq> None \<Longrightarrow> sem_undo st' ! p_slot u \<noteq> None"
    using sp by blast+
  show "r = None \<Longrightarrow> \<bar>val\<bar> \<le> semaem (sinfo st0)"
    using r p lim by (auto simp: semaoe_def progress_def limits_ok_def split: if_splits)
  have a: "adj st' s' k = adj st s' k - (if r = None \<and> s' = p_slot u \<and> k = (sid, num) then val else 0)"
    if "s' < length (sem_undo st0)" for s' k
  proof -
    have "length (sem_undo st) = length (sem_undo st0)" using p by (simp add: progress_def)
    then show ?thesis using sp that by metis
  qed
  show "progress u st0 st' V (if r = None then f((sid, num) := f (sid, num) - val) else f)"
    using p fr [OF sb] sp a by (auto simp: progress_def semvals_def)
qed

text \<open>The adjustments of a state are good.\<close>

lemma progress_good:
  assumes p: "progress u st0 st V f" and lim: "limits_ok (sinfo st0)" and s: "p_slot u < length (sem_undo st0)"
  shows "good_adj (sinfo st0) f"
proof -
  have h: "undo_ok st" "limits_ok (sinfo st)" "p_slot u < length (sem_undo st)" "sinfo st = sinfo st0"
    using p lim s by (simp_all add: progress_def)
  note f = progress_adj [OF p s]
  show ?thesis
  proof (cases "sem_undo st ! p_slot u")
    case None
    then have "f k = 0" for k using f [of k] by (simp add: adj_def)
    then show ?thesis using lim by (simp add: good_adj_def limits_ok_def)
  next
    case (Some up)
    show ?thesis
      using adj_support [OF h(1,3) Some] adj_bound [OF h(1,2,3)] by (simp add: good_adj_def f h(4))
  qed
qed

section \<open>Taking operations back\<close>

lemma semundo_op_back:
  assumes p: "progress u st0 st (do_val sp op V) (do_adj sid op f)"
    and lim: "limits_ok (sinfo st0)" and s: "p_slot u < length (sem_undo st0)"
    and good: "good_adj (sinfo st0) f"
    and u: "undo_op op \<Longrightarrow> \<bar>sop op\<bar> \<le> semaem (sinfo st0) \<and> sem_undo st ! p_slot u \<noteq> None"
  shows "progress u st0 (semundo_op u sid sp op st) V f"
    and "sem_undo st ! p_slot u \<noteq> None \<Longrightarrow> sem_undo (semundo_op u sid sp op st) ! p_slot u \<noteq> None"
proof -
  let ?j = "sem_at sp op" and ?k = "(sid, sem_num op)"
  define st1 where "st1 = upd_sem ?j (\<lambda>s. s\<lparr>semval := semval s - sem_op op\<rparr>) st"
  have V: "semvals st = do_val sp op V" using p by (simp add: progress_def)
  have "(do_val sp op V)[?j := semval (sems st ! ?j) - sem_op op] = V"
  proof (cases "?j < length V")
    case True
    then have "?j < length (sems st)" using V by (metis do_val_def length_list_update length_map semvals_def)
    then have "semval (sems st ! ?j) = do_val sp op V ! ?j" by (simp flip: V add: semvals_def)
    then show ?thesis using True by (simp add: do_val_def)
  qed (simp add: do_val_def list_update_beyond)
  then have p1: "progress u st0 st1 V (do_adj sid op f)"
    using progress_upd [OF p, of "\<lambda>s. s\<lparr>semval := semval s - sem_op op\<rparr>" ?j] by (simp add: st1_def)
  have u1: "sem_undo st1 = sem_undo st" "semu st1 = semu st" by (simp_all add: st1_def upd_sem_frame)
  have "progress u st0 (semundo_op u sid sp op st) V f \<and>
    (sem_undo st ! p_slot u \<noteq> None \<longrightarrow> sem_undo (semundo_op u sid sp op st) ! p_slot u \<noteq> None)"
  proof (cases "sem_op op = 0")
    case True
    then have "do_val sp op V = V" "do_adj sid op f = f" "semundo_op u sid sp op st = st"
      using sop_0 [of op] by (simp_all add: do_val_def do_adj_def semundo_op_def)
    then show ?thesis using p by simp
  next
    case nz: False
    show ?thesis
    proof (cases "sem_flg op AND SEM_UNDO = 0")
      case True
      then have "semundo_op u sid sp op st = st1" "do_adj sid op f = f"
        using nz by (simp_all add: semundo_op_def st1_def do_adj_def)
      then show ?thesis using p1 u1 by simp
    next
      case False
      then have uo: "undo_op op" using nz by (simp add: undo_op_def sop_0)
      then obtain up where up: "sem_undo st1 ! p_slot u = Some up" and le: "\<bar>sop op\<bar> \<le> semaem (sinfo st0)"
        using u u1 by auto
      have v: "s16 (- sop op) = - sop op" using le lim by (intro s16_id) (auto simp: limits_ok_def)
      let ?f' = "f(?k := f ?k - sop op)"
      have f': "do_adj sid op f = ?f'" using False by (simp add: do_adj_def)
      have h: "undo_ok st1" "limits_ok (sinfo st1)" "p_slot u < length (sem_undo st1)" "sinfo st1 = sinfo st0"
        using p1 lim s by (simp_all add: progress_def)
      note adj1 = progress_adj [OF p1 s, unfolded f']
      obtain r st2 where r: "semaoe u (- sop op) sid (sem_num op) st1 = (r, st2)"
        by (cases "semaoe u (- sop op) sid (sem_num op) st1")
      have "fst (semaoe u (- sop op) sid (sem_num op) st1) = None"
      proof (rule semaoe_succeeds [OF h(1,2,3) up])
        show "\<bar>- sop op\<bar> \<le> semaem (sinfo st1)" using le by (simp add: h(4))
        show "\<bar>adj st1 (p_slot u) ?k - - sop op\<bar> \<le> semaem (sinfo st1)"
          using good by (simp add: adj1 h(4) good_adj_def)
        assume z: "adj st1 (p_slot u) ?k = 0"
        then have nzk: "f ?k \<noteq> 0" using nz by (simp add: adj1 sop_0)
        define S where "S = {k. ?f' k \<noteq> 0}"
        have "{k. f k \<noteq> 0} = insert ?k S" "?k \<notin> S" using nzk z by (auto simp: adj1 S_def)
        moreover have "finite S" "card S = length (semu st1 ! up)"
          using adj_support [OF h(1,3) up, unfolded adj1, folded S_def] by simp_all
        ultimately have "card {k. f k \<noteq> 0} = Suc (length (semu st1 ! up))" by simp
        then show "int (length (semu st1 ! up)) < semume (sinfo st1)"
          using good by (simp add: good_adj_def h(4))
      qed
      then have rN: "r = None" using r by simp
      have eq: "semundo_op u sid sp op st = st2"
        using nz False r by (simp add: semundo_op_def Let_def v flip: st1_def)
      have "progress u st0 st2 V f"
        using progress_semaoe(1) [OF p1 lim s r] by (simp add: rN f')
      moreover have "sem_undo st2 ! p_slot u \<noteq> None"
        using progress_semaoe(4) [OF p1 lim s r] up by simp
      ultimately show ?thesis by (simp add: eq)
    qed
  qed
  then show "progress u st0 (semundo_op u sid sp op st) V f"
    "sem_undo st ! p_slot u \<noteq> None \<Longrightarrow> sem_undo (semundo_op u sid sp op st) ! p_slot u \<noteq> None"
    by blast+
qed

text \<open>\<open>ready\<close>: what a pass has ensured about the operations it has done.\<close>

definition ready :: "caller \<Rightarrow> int \<Rightarrow> semst \<Rightarrow> semst \<Rightarrow> (int \<times> u16 \<Rightarrow> int) \<Rightarrow> sembuf list \<Rightarrow> bool" where
  "ready u sid st0 st f ops \<longleftrightarrow>
     ((\<exists>op \<in> set ops. undo_op op) \<longrightarrow> sem_undo st ! p_slot u \<noteq> None) \<and>
     (\<forall>op \<in> set ops. undo_op op \<longrightarrow> \<bar>sop op\<bar> \<le> semaem (sinfo st0)) \<and>
     (\<forall>m < length ops. good_adj (sinfo st0) (fold (do_adj sid) (take m ops) f))"

lemma semundo_back:
  assumes "progress u st0 st (fold (do_val sp) ops V) (fold (do_adj sid) ops f)"
    and lim: "limits_ok (sinfo st0)" and s: "p_slot u < length (sem_undo st0)"
    and "ready u sid st0 st f ops"
  shows "progress u st0 (foldl (\<lambda>st op. semundo_op u sid sp op st) st (rev ops)) V f"
  using assms(1,4)
proof (induction ops arbitrary: st rule: rev_induct)
  case (snoc op ops)
  let ?V = "fold (do_val sp) ops V" and ?f = "fold (do_adj sid) ops f"
  have p: "progress u st0 st (do_val sp op ?V) (do_adj sid op ?f)" using snoc.prems(1) by simp
  have good: "good_adj (sinfo st0) ?f"
    using snoc.prems(2) by (auto simp: ready_def dest!: spec [of _ "length ops"])
  have uo: "undo_op op \<Longrightarrow> \<bar>sop op\<bar> \<le> semaem (sinfo st0) \<and> sem_undo st ! p_slot u \<noteq> None"
    using snoc.prems(2) by (auto simp: ready_def)
  note b = semundo_op_back [OF p lim s good uo]
  have "good_adj (sinfo st0) (fold (do_adj sid) (take m ops) f)" if "m < length ops" for m
    using snoc.prems(2) that by (auto simp: ready_def dest!: spec [of _ m])
  then have "ready u sid st0 (semundo_op u sid sp op st) f ops"
    using snoc.prems(2) b(2) by (auto simp: ready_def)
  from snoc.IH [OF b(1) this] show ?case by simp
qed simp

section \<open>A pass over the operations\<close>

text \<open>
  \<open>feasible\<close>: each operation can be done on the values the ones before it leave; an increment
  stays within \<open>semvmx\<close>, a decrement finds the value, a wait for zero finds zero.
\<close>

fun feasible :: "semid_ds \<Rightarrow> int \<Rightarrow> sembuf list \<Rightarrow> u16 list \<Rightarrow> bool" where
  "feasible sp vmx [] V \<longleftrightarrow> True"
| "feasible sp vmx (op # ops) V \<longleftrightarrow>
     (let c = int (unat (V ! sem_at sp op))
      in (sop op > 0 \<longrightarrow> sop op + c \<le> vmx) \<and> (sop op < 0 \<longrightarrow> - sop op \<le> c) \<and> (sop op = 0 \<longrightarrow> c = 0)) \<and>
     feasible sp vmx ops (do_val sp op V)"

lemma semop_undo_back:
  assumes "progress u st0 st (fold (do_val sp) ds V) (fold (do_adj sid) ds f)"
    and "limits_ok (sinfo st0)" and "p_slot u < length (sem_undo st0)" and "ready u sid st0 st f ds"
  shows "progress u st0 (semop_undo u (ds @ ops) (length ds) sid sp st) V f"
  using semundo_back [OF assms] assms(1) by (cases "ds = []") (simp_all add: semop_undo_def semundo_def)

lemma ready_snoc:
  assumes rd: "ready u sid st0 st f ds" and good: "good_adj (sinfo st0) (fold (do_adj sid) ds f)"
    and keep: "sem_undo st ! p_slot u \<noteq> None \<Longrightarrow> sem_undo st' ! p_slot u \<noteq> None"
    and op: "undo_op op \<Longrightarrow> \<bar>sop op\<bar> \<le> semaem (sinfo st0) \<and> sem_undo st' ! p_slot u \<noteq> None"
  shows "ready u sid st0 st' f (ds @ [op])"
proof -
  have "good_adj (sinfo st0) (fold (do_adj sid) (take m (ds @ [op])) f)" if "m < Suc (length ds)" for m
    using rd good that by (cases "m = length ds") (auto simp: ready_def)
  then show ?thesis using rd keep op by (auto simp: ready_def)
qed

lemma ready_keep:
  "ready u sid st0 st f ds \<Longrightarrow> (sem_undo st ! p_slot u \<noteq> None \<Longrightarrow> sem_undo st' ! p_slot u \<noteq> None) \<Longrightarrow>
     ready u sid st0 st' f ds"
  by (auto simp: ready_def)

text \<open>The adjustment of an operation that is done: success and failure.\<close>

lemma undo_flagged_step:
  assumes p: "progress u st0 st (fold (do_val sp) ds V) (fold (do_adj sid) ds f)"
    and lim: "limits_ok (sinfo st0)" and s: "p_slot u < length (sem_undo st0)"
    and rd: "ready u sid st0 st f ds" and r: "undo_flagged u sid op st = (r, st1)"
  shows "r = None \<Longrightarrow> progress u st0 st1 (fold (do_val sp) ds V) (fold (do_adj sid) (ds @ [op]) f) \<and>
      ready u sid st0 st1 f (ds @ [op]) \<and> sems st1 = sems st"
    and "r \<noteq> None \<Longrightarrow> progress u st0 st1 (fold (do_val sp) ds V) (fold (do_adj sid) ds f) \<and> ready u sid st0 st1 f ds"
proof -
  note good = progress_good [OF p lim s]
  have all: "(r = None \<longrightarrow> progress u st0 st1 (fold (do_val sp) ds V) (fold (do_adj sid) (ds @ [op]) f) \<and>
      ready u sid st0 st1 f (ds @ [op]) \<and> sems st1 = sems st) \<and>
    (r \<noteq> None \<longrightarrow> progress u st0 st1 (fold (do_val sp) ds V) (fold (do_adj sid) ds f) \<and> ready u sid st0 st1 f ds)"
  proof (cases "sem_flg op AND SEM_UNDO = 0")
    case True
    then have "r = None" "st1 = st" "\<not> undo_op op" "do_adj sid op (fold (do_adj sid) ds f) = fold (do_adj sid) ds f"
      using r by (simp_all add: undo_flagged_def undo_op_def do_adj_def)
    then show ?thesis using p ready_snoc [OF rd good] by auto
  next
    case False
    then have sr: "semaoe u (sop op) sid (sem_num op) st = (r, st1)"
      and da: "do_adj sid op (fold (do_adj sid) ds f) =
        (fold (do_adj sid) ds f)((sid, sem_num op) := fold (do_adj sid) ds f (sid, sem_num op) - sop op)"
      using r by (simp_all add: undo_flagged_def do_adj_def)
    note sp = progress_semaoe [OF p lim s sr]
    show ?thesis
    proof (cases "r = None")
      case True
      have "ready u sid st0 st1 f (ds @ [op])"
        using sp(3,4,5) True by (intro ready_snoc [OF rd good]) (auto simp: undo_op_def)
      then show ?thesis using True sp(1,2) da by simp
    next
      case False
      then show ?thesis using sp(1,4) ready_keep [OF rd] by auto
    qed
  qed
  then show "r = None \<Longrightarrow> progress u st0 st1 (fold (do_val sp) ds V) (fold (do_adj sid) (ds @ [op]) f) \<and>
      ready u sid st0 st1 f (ds @ [op]) \<and> sems st1 = sems st"
    "r \<noteq> None \<Longrightarrow> progress u st0 st1 (fold (do_val sp) ds V) (fold (do_adj sid) ds f) \<and> ready u sid st0 st1 f ds"
    by blast+
qed

lemma ready_frame:
  "ready u sid st0 (add_val j d st) f ds = ready u sid st0 st f ds"
  "ready u sid st0 (wake_n j st) f ds = ready u sid st0 st f ds"
  "ready u sid st0 (wake_z j st) f ds = ready u sid st0 st f ds"
  "ready u sid st0 (wake_zero j st) f ds = ready u sid st0 st f ds"
  by (simp_all add: ready_def add_val_def wake_n_def wake_z_def wake_zero_def upd_sem_frame)

lemma progress_cur_val:
  "progress u st0 st V f \<Longrightarrow> j < length (sems st0) \<Longrightarrow> cur_val j st = int (unat (V ! j))"
proof -
  assume p: "progress u st0 st V f" and j: "j < length (sems st0)"
  have "length (sems st) = length (sems st0)"
    using p unfolding progress_def by (metis length_map)
  moreover have "V = semvals st" using p by (simp add: progress_def)
  ultimately show ?thesis using j by (simp add: cur_val_def semvals_def)
qed

lemma semop_pass_spec:
  assumes "semop_pass u sid sp (ds @ ops) (length ds) ops st = (w, st')"
    and lim: "limits_ok (sinfo st0)" and s: "p_slot u < length (sem_undo st0)"
    and "progress u st0 st (fold (do_val sp) ds V) (fold (do_adj sid) ds f)" and "ready u sid st0 st f ds"
    and rng: "\<forall>op \<in> set ops. sem_at sp op < length (sems st0)"
  shows "if w = Done
    then progress u st0 st' (fold (do_val sp) (ds @ ops) V) (fold (do_adj sid) (ds @ ops) f) \<and>
      feasible sp (semvmx (sinfo st0)) ops (fold (do_val sp) ds V)
    else progress u st0 st' V f"
  using assms(1,4,5,6)
proof (induction ops arbitrary: ds st)
  case (Cons op ops)
  let ?j = "sem_at sp op" and ?V = "fold (do_val sp) ds V" and ?F = "fold (do_adj sid) ds f"
  note p = Cons.prems(2) and rd = Cons.prems(3)
  have si: "sinfo st = sinfo st0" using p by (simp add: progress_def)
  have cur: "cur_val ?j st = int (unat (?V ! ?j))" using progress_cur_val [OF p] Cons.prems(4) by simp
  note bk = semop_undo_back [OF p lim s rd, of "op # ops"]
  have IH: "if w = Done
      then progress u st0 st' (fold (do_val sp) (ds @ op # ops) V) (fold (do_adj sid) (ds @ op # ops) f) \<and>
        feasible sp (semvmx (sinfo st0)) ops (do_val sp op ?V)
      else progress u st0 st' V f"
    if "semop_pass u sid sp (ds @ op # ops) (length ds + 1) ops st2 = (w, st')"
      "progress u st0 st2 (do_val sp op ?V) (fold (do_adj sid) (ds @ [op]) f)" "ready u sid st0 st2 f (ds @ [op])" for st2
    using Cons.IH [of "ds @ [op]" st2] that Cons.prems(4) by (cases "w = Done") simp_all
  obtain r st1 where r: "undo_flagged u sid op st = (r, st1)" by (cases "undo_flagged u sid op st")
  note uf = undo_flagged_step [OF p lim s rd r]
  have fail: "progress u st0 (semop_undo u (ds @ op # ops) (length ds) sid sp st1) V f" if "r \<noteq> None"
    using uf(2) [OF that] semop_undo_back [OF _ lim s, of st1 sp ds V sid f "op # ops"] by blast
  have step: "progress u st0 (add_val ?j (sem_op op) st1) (do_val sp op ?V) (fold (do_adj sid) (ds @ [op]) f)"
      "ready u sid st0 (add_val ?j (sem_op op) st1) f (ds @ [op])" if "r = None"
    using uf(1) [OF that] progress_add_val [of u st0 st1 ?V _ sp op] by (auto simp: ready_frame)
  consider (pos) "sop op > 0" | (neg) "sop op < 0" | (zero) "sop op = 0" by linarith
  then show ?case
  proof cases
    case pos
    show ?thesis
    proof (cases "sop op + cur_val ?j st > semvmx (sinfo st)")
      case True
      then have "w = Err ERANGE" "st' = semop_undo u (ds @ op # ops) (length ds) sid sp st"
        using Cons.prems(1) pos by (simp_all add: Let_def)
      then show ?thesis using bk by simp
    next
      case False
      show ?thesis
      proof (cases r)
        case None
        have "semop_pass u sid sp (ds @ op # ops) (length ds + 1) ops
            (wake_zero ?j (wake_n ?j (add_val ?j (sem_op op) st1))) = (w, st')"
          using Cons.prems(1) pos False r None by (simp add: Let_def)
        from IH [OF this] step [OF None] show ?thesis
          using pos False by (simp add: progress_wake ready_frame cur si split: if_splits)
      next
        case (Some e)
        then have "w = Err e" "st' = semop_undo u (ds @ op # ops) (length ds) sid sp st1"
          using Cons.prems(1) pos False r by (simp_all add: Let_def)
        then show ?thesis using fail Some by simp
      qed
    qed
  next
    case neg
    show ?thesis
    proof (cases "cur_val ?j st \<ge> - sop op")
      case True
      show ?thesis
      proof (cases r)
        case None
        have "semop_pass u sid sp (ds @ op # ops) (length ds + 1) ops
            (wake_zero ?j (add_val ?j (sem_op op) st1)) = (w, st')"
          using Cons.prems(1) neg True r None by (simp add: Let_def)
        from IH [OF this] step [OF None] show ?thesis
          using neg True by (simp add: progress_wake ready_frame cur split: if_splits)
      next
        case (Some e)
        then have "w = Err e" "st' = semop_undo u (ds @ op # ops) (length ds) sid sp st1"
          using Cons.prems(1) neg True r by (simp_all add: Let_def)
        then show ?thesis using fail Some by simp
      qed
    next
      case False
      have "progress u st0 (upd_sem ?j (\<lambda>s. s\<lparr>semncnt := semncnt s + 1\<rparr>)
          (semop_undo u (ds @ op # ops) (length ds) sid sp st)) V f"
        using bk by (rule progress_same) simp_all
      then show ?thesis
        using Cons.prems(1) neg False bk by (auto simp: Let_def split: if_splits)
    qed
  next
    case zero
    show ?thesis
    proof (cases "cur_val ?j st = 0")
      case True
      have "semop_pass u sid sp (ds @ op # ops) (length ds + 1) ops st = (w, st')"
        using Cons.prems(1) zero True by (simp add: Let_def)
      moreover have "do_val sp op ?V = ?V" "do_adj sid op ?F = ?F" "\<not> undo_op op"
        using zero sop_0 [of op] by (simp_all add: do_val_def do_adj_def undo_op_def)
      moreover have "ready u sid st0 st f (ds @ [op])"
        using ready_snoc [OF rd progress_good [OF p lim s]] zero by (auto simp: undo_op_def)
      ultimately show ?thesis using IH [of st] p zero True cur by (simp split: if_splits)
    next
      case False
      have "progress u st0 (upd_sem ?j (\<lambda>s. s\<lparr>semzcnt := semzcnt s + 1\<rparr>)
          (semop_undo u (ds @ op # ops) (length ds) sid sp st)) V f"
        using bk by (rule progress_same) simp_all
      then show ?thesis
        using Cons.prems(1) zero False bk by (auto simp: Let_def split: if_splits)
    qed
  qed
qed simp

lemma progress_start: "undo_ok st \<Longrightarrow> progress u st st (semvals st) (adj st (p_slot u))"
  by (simp add: progress_def)

lemma progress_back:
  assumes p: "progress u st st' (semvals st) (adj st (p_slot u))" and k: "s' < length (sem_undo st)"
  shows "adj st' s' k = adj st s' k"
  using p k by (cases k) (simp add: progress_def)

text \<open>The values after a feasible list of operations, as integers: nothing wraps.\<close>

lemma feasible_vals:
  assumes "feasible sp vmx ops V" and "vmx \<le> 65535"
    and "\<forall>op \<in> set ops. sem_at sp op < length V" and "\<forall>v \<in> set V. int (unat v) \<le> vmx" and "j < length V"
  shows "int (unat (fold (do_val sp) ops V ! j)) =
      int (unat (V ! j)) + (\<Sum>op \<leftarrow> filter (\<lambda>op. sem_at sp op = j) ops. sop op) \<and>
    (\<forall>v \<in> set (fold (do_val sp) ops V). int (unat v) \<le> vmx)"
  using assms
proof (induction ops arbitrary: V)
  case (Cons op ops)
  let ?i = "sem_at sp op"
  have i: "?i < length V" using Cons.prems by simp
  have len: "length (do_val sp op V) = length V" by (simp add: do_val_def)
  define c where "c = int (unat (V ! ?i))"
  have c: "0 \<le> c" "c \<le> vmx" using Cons.prems i by (auto simp: c_def)
  have sum: "0 \<le> c + sop op" "c + sop op \<le> vmx"
    using Cons.prems(1) c by (auto simp: c_def Let_def)
  have u: "int (unat (V ! ?i + sem_op op)) = c + sop op"
  proof -
    have "uint (V ! ?i + sem_op op) = (c + sop op) mod 65536"
    proof -
      have w: "word_of_int (c + sop op) = V ! ?i + sem_op op"
        by (simp add: c_def sop_def)
      show ?thesis unfolding w [symmetric] uint_word_of_int by simp
    qed
    then show ?thesis using sum assms(2) by simp
  qed
  have vs: "\<forall>v \<in> set (do_val sp op V). int (unat v) \<le> vmx"
    using Cons.prems(4) u sum(2) by (auto simp: do_val_def dest!: set_update_subset_insert [THEN subsetD])
  have f: "feasible sp vmx ops (do_val sp op V)" "\<forall>op \<in> set ops. sem_at sp op < length (do_val sp op' V)" for op'
    using Cons.prems by (simp_all add: do_val_def)
  have at: "int (unat (do_val sp op V ! j)) = int (unat (V ! j)) + (if ?i = j then sop op else 0)"
    using i u by (auto simp: do_val_def c_def nth_list_update)
  show ?case
    using Cons.IH [OF f(1) assms(2) f(2) vs] Cons.prems(5) at by (simp add: len)
qed simp

text \<open>A feasible list of operations without \<open>SEM_UNDO\<close> always completes.\<close>

lemma semop_pass_complete:
  assumes "feasible sp (semvmx (sinfo st)) ops (semvals st)"
    and "\<forall>op \<in> set ops. sem_at sp op < length (sems st) \<and> sem_flg op AND SEM_UNDO = 0"
  shows "fst (semop_pass u sid sp all i ops st) = Done"
  using assms
proof (induction ops arbitrary: i st)
  case (Cons op ops)
  let ?j = "sem_at sp op"
  have cur: "cur_val ?j st = int (unat (semvals st ! ?j))"
    using Cons.prems(2) by (simp add: cur_val_def semvals_def)
  have uf: "undo_flagged u sid op st = (None, st)" using Cons.prems(2) by (simp add: undo_flagged_def)
  have fr: "sinfo (wake_zero j st) = sinfo st" "sinfo (wake_n j st) = sinfo st" "sinfo (add_val j d st) = sinfo st"
    "semvals (wake_zero j st) = semvals st" "semvals (wake_n j st) = semvals st"
    "length (sems (wake_zero j st)) = length (sems st)" "length (sems (wake_n j st)) = length (sems st)"
    "length (sems (add_val j d st)) = length (sems st)" for j d st
  proof -
    have sv: "semvals (st\<lparr>sem_wakes := w\<rparr>) = semvals st" for w st by (simp add: semvals_def)
    have z: "semvals (wake_z j st) = semvals st" for j st
      by (simp add: wake_z_def sv upd_sem_same(1))
    show "semvals (wake_n j st) = semvals st" by (simp add: wake_n_def sv upd_sem_same(1))
    show "semvals (wake_zero j st) = semvals st" by (simp add: wake_zero_def z)
  qed (simp_all add: wake_zero_def wake_z_def wake_n_def add_val_def upd_sem_frame)
  have av: "semvals (add_val ?j (sem_op op) st) = do_val sp op (semvals st)"
    using Cons.prems(2) by (simp add: add_val_def semvals_upd do_val_def) (simp add: semvals_def)
  have dz: "do_val sp op (semvals st) = semvals st" if "sop op = 0"
    using that sop_0 [of op] by (simp add: do_val_def)
  consider (pos) "sop op > 0" | (neg) "sop op < 0" | (zero) "sop op = 0" by linarith
  then show ?case
  proof cases
    case pos
    then show ?thesis
      using Cons.prems cur Cons.IH [of "wake_zero ?j (wake_n ?j (add_val ?j (sem_op op) st))" "i + 1"]
      by (simp add: Let_def uf fr av)
  next
    case neg
    then show ?thesis
      using Cons.prems cur Cons.IH [of "wake_zero ?j (add_val ?j (sem_op op) st)" "i + 1"]
      by (simp add: Let_def uf fr av)
  next
    case zero
    then show ?thesis using Cons.prems cur Cons.IH [of st "i + 1"] by (simp add: Let_def dz)
  qed
qed simp

text \<open>With \<open>IPC_NOWAIT\<close> on every operation a pass never sleeps.\<close>

lemma semop_pass_nowait:
  assumes "\<forall>op \<in> set ops. sem_flg op AND SEM_NOWAIT \<noteq> 0"
  shows "fst (semop_pass u sid sp all i ops st) = Done \<or> (\<exists>e. fst (semop_pass u sid sp all i ops st) = Err e)"
  using assms
proof (induction ops arbitrary: i st)
  case (Cons op ops)
  have nw: "sem_flg op AND SEM_NOWAIT \<noteq> 0" using Cons.prems by simp
  have IH: "fst (semop_pass u sid sp all i' ops st') = Done \<or> (\<exists>e. fst (semop_pass u sid sp all i' ops st') = Err e)" for i' st'
    using Cons.IH Cons.prems by simp
  obtain r st1 where r: "undo_flagged u sid op st = (r, st1)" by (cases "undo_flagged u sid op st")
  show ?case using nw IH by (simp add: r Let_def split: option.split)
qed simp

section \<open>Properties\<close>

text \<open>
  A facility for the witnesses: one set of three semaphores, two processes, the second of which
  holds an adjustment; \<open>caller0\<close> has no undo structure yet.
\<close>

definition seminfo0 :: seminfo where
  "seminfo0 = \<lparr>semmni = 10, semmns = 3, semmnu = 2, semmsl = 25, semopm = 10, semume = 10,
     semvmx = 32767, semaem = 16384\<rparr>"

definition sem0 :: sem where
  "sem0 = \<lparr>semval = 5, sempid = 0, semncnt = 0, semzcnt = 0\<rparr>"

definition semid0 :: semid_ds where
  "semid0 = \<lparr>sem_perm = perm0, sem_base = 0, sem_nsems = 3, sem_otime = 0, sem_ctime = 0\<rparr>"

definition semst0 :: semst where
  "semst0 = \<lparr>sinfo = seminfo0, sema = semid0 # replicate 9 (semid0\<lparr>sem_perm := perm0\<lparr>mode := 0\<rparr>\<rparr>),
     sems = [sem0, sem0, sem0], semmap = map6, sem_undo = [None, Some 1],
     semu = [[], [\<lparr>un_aoe = 4, un_num = 1, un_id = 0\<rparr>]], semunp = [1], semfup = [0], sem_wakes = [], sema_cnt = 0\<rparr>"

definition caller0 :: caller where
  "caller0 = \<lparr>p_slot = 0, p_pid = 100, u_cred = \<lparr>cr_uid = 0, cr_gid = 3, cr_groups = []\<rparr>, hrestime = 55\<rparr>"

lemma semst0_ok: "undo_ok semst0" "limits_ok (sinfo semst0)"
proof -
  show "undo_ok semst0"
    by (auto simp: undo_ok_def semst0_def seminfo0_def ents_ok_def ents_sorted_def owned_def somes_def less_Suc_eq)
  show "limits_ok (sinfo semst0)" by (simp add: limits_ok_def semst0_def seminfo0_def)
qed

text \<open>
  C4: a pass of \<open>semop\<close> over its operations is all-or-nothing.  Either it does every operation,
  each of which was possible on the values the ones before it left, and then the values and the
  caller's adjustments change by exactly the operations; or it leaves every semaphore value,
  every process's adjustments and every last pid as they were, although operations before the
  failing one had been performed.  In both cases the undo table stays well formed and other
  processes' adjustments are untouched.
\<close>

theorem semop_pass_atomic:
  assumes "undo_ok st" and "limits_ok (sinfo st)" and "p_slot u < length (sem_undo st)"
    and "list_all (\<lambda>op. sem_at sp op < length (sems st)) ops"
    and "semop_pass u sid sp ops 0 ops st = (w, st')"
  shows "undo_ok st' \<and> map sempid (sems st') = map sempid (sems st) \<and>
    (if w = Done
     then feasible sp (semvmx (sinfo st)) ops (semvals st) \<and>
       semvals st' = fold (do_val sp) ops (semvals st) \<and>
       adj st' (p_slot u) = fold (do_adj sid) ops (adj st (p_slot u))
     else semvals st' = semvals st \<and> adj st' (p_slot u) = adj st (p_slot u)) \<and>
    (\<forall>slot < length (sem_undo st). slot \<noteq> p_slot u \<longrightarrow> adj st' slot = adj st slot)"
proof -
  have rd: "ready u sid st st (adj st (p_slot u)) []" by (simp add: ready_def)
  have p: "if w = Done
      then progress u st st' (fold (do_val sp) ops (semvals st)) (fold (do_adj sid) ops (adj st (p_slot u))) \<and>
        feasible sp (semvmx (sinfo st)) ops (semvals st)
      else progress u st st' (semvals st) (adj st (p_slot u))"
    using semop_pass_spec [of u sid sp "[]" ops st w st' st "semvals st" "adj st (p_slot u)"]
      assms progress_start rd by (cases "w = Done") (simp_all add: list_all_iff)
  obtain V f where pr: "progress u st st' V f" and V: "V = (if w = Done then fold (do_val sp) ops (semvals st) else semvals st)"
    and f: "f = (if w = Done then fold (do_adj sid) ops (adj st (p_slot u)) else adj st (p_slot u))"
    and feas: "w = Done \<Longrightarrow> feasible sp (semvmx (sinfo st)) ops (semvals st)"
    using p by (cases "w = Done") auto
  have "adj st' (p_slot u) = f"
    using progress_adj [OF pr assms(3)] by (rule ext)
  moreover have "adj st' slot = adj st slot" if "slot < length (sem_undo st)" "slot \<noteq> p_slot u" for slot
    using pr that by (auto simp: progress_def fun_eq_iff)
  ultimately show ?thesis using pr V f feas by (auto simp: progress_def)
qed

text \<open>Two operations the first of which can be done and the second of which would sleep.\<close>

definition ops0 :: "sembuf list" where
  "ops0 = [\<lparr>sem_num = 0, sem_op = 0xFFFD, sem_flg = SEM_UNDO\<rparr>, \<lparr>sem_num = 2, sem_op = 0xFFF0, sem_flg = 0\<rparr>]"

theorem semop_pass_atomic_witness:
  "\<exists>st'. semop_pass caller0 0 semid0 ops0 0 ops0 semst0 = (SleepN 2, st') \<and>
    semvals st' = [5, 5, 5] \<and> adj st' 0 = adj semst0 0 \<and> undo_ok st'"
proof -
  have "fst (semop_pass caller0 0 semid0 ops0 0 ops0 semst0) = SleepN 2"
    by code_simp
  then obtain st' where p: "semop_pass caller0 0 semid0 ops0 0 ops0 semst0 = (SleepN 2, st')"
    by (cases "semop_pass caller0 0 semid0 ops0 0 ops0 semst0") simp
  have s: "p_slot caller0 < length (sem_undo semst0)" "p_slot caller0 = 0" by (simp_all add: caller0_def semst0_def)
  have r: "list_all (\<lambda>op. sem_at semid0 op < length (sems semst0)) ops0"
    by (simp add: ops0_def sem_at_def semid0_def semst0_def)
  have v: "semvals semst0 = [5, 5, 5]" by (simp add: semvals_def semst0_def sem0_def)
  show ?thesis
    using semop_pass_atomic [OF semst0_ok s(1) r p] p by (simp add: v s(2))
qed

text \<open>
  C28: a completed pass changes each value by the sum of the operations on it, in the integers:
  no intermediate or final value wraps around 16 bits or exceeds \<open>semvmx\<close>.
\<close>

theorem semop_pass_values:
  assumes "undo_ok st" and "limits_ok (sinfo st)" and "p_slot u < length (sem_undo st)"
    and "list_all (\<lambda>op. sem_at sp op < length (sems st)) ops"
    and "list_all (\<lambda>v. int (unat v) \<le> semvmx (sinfo st)) (semvals st)"
    and "semop_pass u sid sp ops 0 ops st = (Done, st')" and "j < length (sems st)"
  shows "cur_val j st' = cur_val j st + (\<Sum>op \<leftarrow> filter (\<lambda>op. sem_at sp op = j) ops. sop op) \<and>
    list_all (\<lambda>v. int (unat v) \<le> semvmx (sinfo st)) (semvals st')"
proof -
  have rd: "ready u sid st st (adj st (p_slot u)) []" by (simp add: ready_def)
  have p: "progress u st st' (fold (do_val sp) ops (semvals st)) (fold (do_adj sid) ops (adj st (p_slot u)))"
    "feasible sp (semvmx (sinfo st)) ops (semvals st)"
    using semop_pass_spec [of u sid sp "[]" ops st Done st' st "semvals st" "adj st (p_slot u)"]
      assms progress_start rd by (simp_all add: list_all_iff)
  have "j < length (semvals st)" using assms(7) by (simp add: semvals_def)
  then have "int (unat (fold (do_val sp) ops (semvals st) ! j)) =
      int (unat (semvals st ! j)) + (\<Sum>op \<leftarrow> filter (\<lambda>op. sem_at sp op = j) ops. sop op) \<and>
    (\<forall>v \<in> set (fold (do_val sp) ops (semvals st)). int (unat v) \<le> semvmx (sinfo st))"
    using feasible_vals [OF p(2)] assms(2,4,5) by (simp add: limits_ok_def list_all_iff semvals_def)
  moreover have "semvals st' = fold (do_val sp) ops (semvals st)" using p(1) by (simp add: progress_def)
  ultimately show ?thesis
    using progress_cur_val [OF p(1) assms(7)] progress_cur_val [OF progress_start [OF assms(1), of u] assms(7)]
    by (simp add: list_all_iff)
qed

definition ops1 :: "sembuf list" where
  "ops1 = [\<lparr>sem_num = 0, sem_op = 7, sem_flg = SEM_UNDO\<rparr>, \<lparr>sem_num = 0, sem_op = 0xFFF4, sem_flg = SEM_UNDO\<rparr>,
     \<lparr>sem_num = 0, sem_op = 0, sem_flg = 0\<rparr>]"

theorem semop_pass_values_witness:
  "\<exists>st'. semop_pass caller0 0 semid0 ops1 0 ops1 semst0 = (Done, st') \<and> cur_val 0 st' = 0"
proof -
  have "fst (semop_pass caller0 0 semid0 ops1 0 ops1 semst0) = Done"
    by code_simp
  then obtain st' where p: "semop_pass caller0 0 semid0 ops1 0 ops1 semst0 = (Done, st')"
    by (cases "semop_pass caller0 0 semid0 ops1 0 ops1 semst0") simp
  have s: "p_slot caller0 < length (sem_undo semst0)" "0 < length (sems semst0)" by (simp_all add: caller0_def semst0_def)
  have r: "list_all (\<lambda>op. sem_at semid0 op < length (sems semst0)) ops1"
    by (simp add: ops1_def sem_at_def semid0_def semst0_def)
  have v: "list_all (\<lambda>v. int (unat v) \<le> semvmx (sinfo semst0)) (semvals semst0)"
    by (simp add: semvals_def semst0_def sem0_def seminfo0_def)
  have "(\<Sum>op \<leftarrow> filter (\<lambda>op. sem_at semid0 op = 0) ops1. sop op) = -5" "cur_val 0 semst0 = 5"
    by (simp_all add: ops1_def sem_at_def semid0_def sop_def cur_val_def semst0_def sem0_def)
  then show ?thesis
    using semop_pass_values [OF semst0_ok s(1) r v p s(2)] p by simp
qed

text \<open>
  Operations without \<open>SEM_UNDO\<close> that are possible in their order always complete: a pass
  fails or sleeps only when some operation cannot be done.
\<close>

theorem semop_pass_progress:
  assumes "feasible sp (semvmx (sinfo st)) ops (semvals st)"
    and "list_all (\<lambda>op. sem_at sp op < length (sems st) \<and> sem_flg op AND SEM_UNDO = 0) ops"
  shows "fst (semop_pass u sid sp ops 0 ops st) = Done"
  using semop_pass_complete [OF assms(1)] assms(2) by (simp add: list_all_iff)

theorem semop_pass_progress_witness:
  "fst (semop_pass caller0 0 semid0 [\<lparr>sem_num = 1, sem_op = 0xFFFB, sem_flg = 0\<rparr>] 0
      [\<lparr>sem_num = 1, sem_op = 0xFFFB, sem_flg = 0\<rparr>] semst0) = Done"
  by (rule semop_pass_progress)
     (simp_all add: semst0_def semid0_def sem_at_def seminfo0_def semvals_def sem0_def sop_def Let_def)

end
