(* ===== verification/Sem_Set.thy ===== *)
theory Sem_Set imports Sem_Op begin

text \<open>
  The semaphore sets of \<open>os/sem.c\<close>: allocation of a set's semaphores from \<open>semmap\<close> through the
  contract \<open>extent_allocator\<close>, identifiers, removal, resets (\<open>semunrm\<close>) and process exit.
\<close>

section \<open>Clearing adjustments\<close>

definition unrm_hit :: "int \<Rightarrow> u16 \<Rightarrow> u16 \<Rightarrow> int \<times> u16 \<Rightarrow> bool" where
  "unrm_hit sid low high k \<longleftrightarrow> fst k = sid \<and> low \<le> snd k \<and> snd k \<le> high"

lemma unrm_ents_filter:
  "ents_sorted es \<Longrightarrow> unrm_ents sid low high es = filter (\<lambda>e. \<not> unrm_hit sid low high (un_key e)) es"
proof (induction es)
  case (Cons e es)
  have s: "ents_sorted es" and later: "\<And>x. x \<in> set es \<Longrightarrow> un_before (un_id x) (un_num x) e"
    using Cons.prems by (auto simp: ents_sorted_def)
  have keep: "filter (\<lambda>e. \<not> unrm_hit sid low high (un_key e)) es = es"
    if "sid < un_id e \<or> sid = un_id e \<and> high < un_num e"
  proof (rule filter_True, rule ballI)
    fix x assume "x \<in> set es"
    then have b: "un_id e < un_id x \<or> un_id e = un_id x \<and> un_num e < un_num x"
      using later [of x] unfolding un_before_def by blast
    show "\<not> unrm_hit sid low high (un_key x)"
    proof
      assume "unrm_hit sid low high (un_key x)"
      then have h: "un_id x = sid" "un_num x \<le> high" by (simp_all add: unrm_hit_def un_key_def)
      then have "un_id e = sid" "un_num e < un_num x" "high < un_num e" using b that by auto
      then show False using h(2) by (meson leD less_trans)
    qed
  qed
  have hit: "unrm_hit sid low high (un_key e) \<longleftrightarrow> un_id e = sid \<and> low \<le> un_num e \<and> un_num e \<le> high"
    by (simp add: unrm_hit_def un_key_def)
  consider (a) "sid < un_id e" | (b) "\<not> sid < un_id e" "sid > un_id e \<or> low > un_num e"
    | (c) "sid = un_id e" "low \<le> un_num e" "high < un_num e"
    | (d) "sid = un_id e" "low \<le> un_num e" "un_num e \<le> high"
    by (metis linorder_cases not_le)
  then show ?case
  proof cases
    case a
    then show ?thesis using keep hit by simp
  next
    case b
    then show ?thesis using Cons.IH [OF s] hit by auto
  next
    case c
    then have "\<not> low > un_num e" "\<not> un_num e \<le> high" by simp_all
    then show ?thesis using c keep hit by simp
  next
    case d
    then have "\<not> low > un_num e" "\<not> un_num e > high" by simp_all
    then show ?thesis using d Cons.IH [OF s] hit by simp
  qed
qed simp

lemma aoe_of_filter: "aoe_of (filter (\<lambda>e. Q (un_key e)) es) k = (if Q k then aoe_of es k else 0)"
  by (induction es) auto

lemma ents_ok_filter: "ents_ok si es \<Longrightarrow> ents_ok si (filter P es)"
proof -
  assume "ents_ok si es"
  moreover have "length (filter P es) \<le> length es" by simp
  ultimately show ?thesis
    by (auto simp: ents_ok_def ents_sorted_def sorted_wrt_filter simp del: length_filter_le)
qed

lemma unrm_walk_spec:
  assumes "distinct ps" and "set ps \<subseteq> {..<length tab}" and "unrm_walk sid low high ps tab = (ps', tab')"
  shows "length tab' = length tab \<and>
    (\<forall>p < length tab. tab' ! p = (if p \<in> set ps then unrm_ents sid low high (tab ! p) else tab ! p)) \<and>
    ps' = filter (\<lambda>p. tab' ! p \<noteq> []) ps"
  using assms
proof (induction ps arbitrary: tab ps' tab')
  case (Cons p ps)
  let ?tab1 = "tab[p := unrm_ents sid low high (tab ! p)]"
  obtain qs tab2 where w: "unrm_walk sid low high ps ?tab1 = (qs, tab2)"
    by (cases "unrm_walk sid low high ps ?tab1")
  then have e: "ps' = (if unrm_ents sid low high (tab ! p) = [] then qs else p # qs)" "tab' = tab2"
    using Cons.prems(3) by (auto simp: Let_def)
  have IH: "length tab2 = length ?tab1 \<and>
    (\<forall>q < length ?tab1. tab2 ! q = (if q \<in> set ps then unrm_ents sid low high (?tab1 ! q) else ?tab1 ! q)) \<and>
    qs = filter (\<lambda>q. tab2 ! q \<noteq> []) ps"
    using Cons.prems by (intro Cons.IH [OF _ _ w]) auto
  have p: "p < length tab" "p \<notin> set ps" using Cons.prems by auto
  then show ?case using IH e by (auto simp: nth_list_update)
qed simp

lemma semunrm_spec:
  assumes ok: "undo_ok st"
  shows "undo_ok (semunrm sid low high st)" "same_but_undo st (semunrm sid low high st)"
    "sem_undo (semunrm sid low high st) = sem_undo st"
    "slot < length (sem_undo st) \<Longrightarrow>
      adj (semunrm sid low high st) slot k = (if unrm_hit sid low high k then 0 else adj st slot k)"
proof -
  obtain ps tab where w: "unrm_walk sid low high (semunp st) (semu st) = (ps, tab)"
    by (cases "unrm_walk sid low high (semunp st) (semu st)")
  have st': "semunrm sid low high st = st\<lparr>semunp := ps, semu := tab\<rparr>" by (simp add: semunrm_def w)
  have ch: "distinct (semunp st)" "set (semunp st) = {up. up < length (semu st) \<and> semu st ! up \<noteq> []}"
    using ok by (auto simp: undo_ok_def)
  have sub: "set (semunp st) \<subseteq> {..<length (semu st)}" using ch(2) by auto
  have sp: "length tab = length (semu st)"
      "\<And>p. p < length (semu st) \<Longrightarrow> tab ! p = (if p \<in> set (semunp st) then unrm_ents sid low high (semu st ! p) else semu st ! p)"
      "ps = filter (\<lambda>p. tab ! p \<noteq> []) (semunp st)"
    using unrm_walk_spec [OF ch(1) sub w] by auto
  have eok: "ents_ok (sinfo st) (semu st ! p)" if "p < length (semu st)" for p
    using ok that by (simp add: undo_ok_def)
  have tab: "tab ! p = filter (\<lambda>e. \<not> unrm_hit sid low high (un_key e)) (semu st ! p)" if "p < length (semu st)" for p
  proof (cases "semu st ! p = []")
    case True
    then show ?thesis using sp(2) [OF that] by auto
  next
    case False
    then show ?thesis
      using sp(2) [OF that] ch(2) that unrm_ents_filter [of "semu st ! p" sid low high] eok [OF that]
      by (simp add: ents_ok_def)
  qed
  have tok: "ents_ok (sinfo st) (tab ! p)" if "p < length (semu st)" for p
    using ents_ok_filter [OF eok [OF that]] tab [OF that] by simp
  have "set ps = {up. up < length tab \<and> tab ! up \<noteq> []}"
    using ch(2) sp(1,3) tab by auto
  moreover have "\<forall>up \<in> set (semfup st). tab ! up = []"
  proof
    fix up assume up: "up \<in> set (semfup st)"
    have "mset (semfup st @ owned st) = mset [0..<length (semu st)]" using ok by (simp add: undo_ok_def)
    then have "up < length (semu st)" using up mset_eq_setD by fastforce
    then show "tab ! up = []" using tab ok up by (simp add: undo_ok_def)
  qed
  ultimately show "undo_ok (semunrm sid low high st)"
    using ok ch(1) sp(1,3) tok by (simp add: st' undo_ok_def owned_def)
  show "same_but_undo st (semunrm sid low high st)" "sem_undo (semunrm sid low high st) = sem_undo st"
    by (simp_all add: st' same_but_undo_def sp(1))
  show "adj (semunrm sid low high st) slot k = (if unrm_hit sid low high k then 0 else adj st slot k)"
    if slot: "slot < length (sem_undo st)"
  proof (cases "sem_undo st ! slot")
    case None
    then show ?thesis by (simp add: adj_def st')
  next
    case (Some up)
    have up: "up < length (semu st)" using undo_ok_owned(1) [OF ok slot Some] .
    show ?thesis
      using aoe_of_filter [of "\<lambda>k. \<not> unrm_hit sid low high k" "semu st ! up" k] Some
      by (simp add: adj_def st' tab [OF up])
  qed
qed

section \<open>The sets and the map of free semaphores\<close>

definition set_alloc :: "semid_ds \<Rightarrow> bool" where
  "set_alloc sp \<longleftrightarrow> ipc_alloc (sem_perm sp)"

definition set_block :: "semid_ds \<Rightarrow> u32 \<times> u32" where
  "set_block sp = (of_nat (sem_base sp) + 1, ucast (sem_nsems sp))"

definition set_blocks :: "semid_ds list \<Rightarrow> (u32 \<times> u32) list" where
  "set_blocks ds = map set_block (filter set_alloc ds)"

text \<open>
  \<open>sets_ok\<close>: the allocated sets hold disjoint blocks of \<open>semmap\<close>, apart from its free units, and
  lie within the array of semaphores.
\<close>

definition sets_ok :: "semst \<Rightarrow> bool" where
  "sets_ok st \<longleftrightarrow> rmap_ok (semmap st) \<and> holds (free_units (semmap st)) (set_blocks (sema st)) \<and>
     free_units (semmap st) \<subseteq> {1..length (sems st)} \<and> length (sems st) < 2 ^ 32 - 1 \<and>
     (\<forall>sp \<in> set (sema st). set_alloc sp \<longrightarrow> sem_base sp + unat (sem_nsems sp) \<le> length (sems st)) \<and>
     length (sema st) = nat (semmni (sinfo st)) \<and> 0 < semmni (sinfo st) \<and> semmsl (sinfo st) \<le> 65535"

lemma set_block_ends:
  assumes "sem_base sp + unat (sem_nsems sp) \<le> n" "n < 2 ^ 32 - 1"
  shows "unat (of_nat (sem_base sp) + 1 :: u32) = sem_base sp + 1" "unat (ucast (sem_nsems sp) :: u32) = unat (sem_nsems sp)"
  using assms by (simp_all add: unat_word_ariths unat_of_nat unsigned_ucast_eq take_bit_nat_eq_self_iff less_le_trans [OF unat_u16_less])

lemma set_block_units:
  assumes "sem_base sp + unat (sem_nsems sp) \<le> n" "n < 2 ^ 32 - 1"
  shows "block (fst (set_block sp)) (snd (set_block sp)) = {sem_base sp + 1 ..< sem_base sp + 1 + unat (sem_nsems sp)}"
  using set_block_ends [OF assms] by (simp add: set_block_def block_def)

lemma filter_split:
  assumes "i < length xs"
  shows "filter P xs = filter P (take i xs) @ (if P (xs ! i) then [xs ! i] else []) @ filter P (drop (Suc i) xs)"
proof -
  have "filter P (take i xs @ xs ! i # drop (Suc i) xs) =
      filter P (take i xs) @ (if P (xs ! i) then [xs ! i] else []) @ filter P (drop (Suc i) xs)" by simp
  then show ?thesis using id_take_nth_drop [OF assms] by simp
qed

lemma set_blocks_split:
  assumes "i < length ds"
  shows "set_blocks ds = set_blocks (take i ds) @ (if set_alloc (ds ! i) then [set_block (ds ! i)] else []) @ set_blocks (drop (Suc i) ds)"
  unfolding set_blocks_def by (subst filter_split [OF assms, of set_alloc]) simp

lemma set_blocks_update:
  assumes "i < length ds"
  shows "set_blocks (ds[i := d]) = set_blocks (take i ds) @ (if set_alloc d then [set_block d] else []) @ set_blocks (drop (Suc i) ds)"
  using set_blocks_split [of i "ds[i := d]"] assms by simp

text \<open>Two allocated sets never share a semaphore.\<close>

lemma sets_ok_disjoint:
  assumes ok: "sets_ok st" and i: "i < j" "j < length (sema st)"
    and a: "set_alloc (sema st ! i)" "set_alloc (sema st ! j)"
  shows "{sem_base (sema st ! i) ..< sem_base (sema st ! i) + unat (sem_nsems (sema st ! i))} \<inter>
    {sem_base (sema st ! j) ..< sem_base (sema st ! j) + unat (sem_nsems (sema st ! j))} = {}"
proof -
  let ?ds = "sema st"
  have ij: "i < length ?ds" "j - Suc i < length (drop (Suc i) ?ds)" "drop (Suc i) ?ds ! (j - Suc i) = ?ds ! j"
    using i by auto
  have "set_blocks ?ds = set_blocks (take i ?ds) @ set_block (?ds ! i) #
      set_blocks (take (j - Suc i) (drop (Suc i) ?ds)) @ set_block (?ds ! j) # set_blocks (drop (Suc (j - Suc i)) (drop (Suc i) ?ds))"
    using set_blocks_split [OF ij(1)] set_blocks_split [OF ij(2)] a ij(3) by simp
  then have "block (fst (set_block (?ds ! i))) (snd (set_block (?ds ! i))) \<inter>
      block (fst (set_block (?ds ! j))) (snd (set_block (?ds ! j))) = {}"
    using ok holds_disjoint unfolding sets_ok_def by metis
  moreover have "block (fst (set_block (?ds ! k))) (snd (set_block (?ds ! k))) =
      {sem_base (?ds ! k) + 1 ..< sem_base (?ds ! k) + 1 + unat (sem_nsems (?ds ! k))}"
    if "k < length ?ds" "set_alloc (?ds ! k)" for k
    using ok that nth_mem [OF that(1)] by (intro set_block_units) (auto simp: sets_ok_def)
  ultimately have d: "{sem_base (?ds ! i) + 1 ..< sem_base (?ds ! i) + 1 + unat (sem_nsems (?ds ! i))} \<inter>
      {sem_base (?ds ! j) + 1 ..< sem_base (?ds ! j) + 1 + unat (sem_nsems (?ds ! j))} = {}"
    using i(2) ij(1) a by simp
  show ?thesis
  proof (rule ccontr)
    assume "\<not> ?thesis"
    then obtain x where "x \<in> {sem_base (?ds ! i) ..< sem_base (?ds ! i) + unat (sem_nsems (?ds ! i))}"
      "x \<in> {sem_base (?ds ! j) ..< sem_base (?ds ! j) + unat (sem_nsems (?ds ! j))}" by blast
    then have "Suc x \<in> {sem_base (?ds ! i) + 1 ..< sem_base (?ds ! i) + 1 + unat (sem_nsems (?ds ! i))} \<inter>
      {sem_base (?ds ! j) + 1 ..< sem_base (?ds ! j) + 1 + unat (sem_nsems (?ds ! j))}" by simp
    then show False using d by blast
  qed
qed

subsection \<open>Creation\<close>

lemma set_perms_same: "set_perms (map sem_perm ds) ds = ds"
  by (induction ds) (auto simp: set_perms_def)

lemma set_perms_update:
  "i < length ds \<Longrightarrow> set_perms ((map sem_perm ds)[i := p]) ds = ds[i := (ds ! i)\<lparr>sem_perm := p\<rparr>]"
proof (rule nth_equalityI)
  assume i: "i < length ds"
  show "length (set_perms ((map sem_perm ds)[i := p]) ds) = length (ds[i := (ds ! i)\<lparr>sem_perm := p\<rparr>])"
    by (simp add: set_perms_def)
  fix k assume "k < length (set_perms ((map sem_perm ds)[i := p]) ds)"
  then have k: "k < length ds" by (simp add: set_perms_def)
  then show "set_perms ((map sem_perm ds)[i := p]) ds ! k = ds[i := (ds ! i)\<lparr>sem_perm := p\<rparr>] ! k"
    using i by (cases "k = i") (simp_all add: set_perms_def)
qed

text \<open>An entry that stays or becomes unallocated does not matter.\<close>

lemma sets_ok_free_entry:
  assumes ok: "sets_ok st" and i: "i < length (sema st)" "\<not> set_alloc (sema st ! i)" "\<not> set_alloc d"
  shows "sets_ok (st\<lparr>sema := (sema st)[i := d]\<rparr>)"
proof -
  have "set_blocks ((sema st)[i := d]) = set_blocks (sema st)"
    using set_blocks_split [OF i(1)] set_blocks_update [OF i(1), of d] i(2,3) by simp
  then show ?thesis
    using ok i(3) by (auto simp: sets_ok_def dest!: set_update_subset_insert [THEN subsetD])
qed

lemma sets_ok_new_entry:
  assumes ok: "sets_ok st" and i: "i < length (sema st)" "\<not> set_alloc (sema st ! i)" and d: "set_alloc d"
    and al: "rmalloc (semmap st) n = (a, mp)" "a \<noteq> 0" and n: "ucast (sem_nsems d) = n" and b: "sem_base d = unat (a - 1)"
  shows "sets_ok (st\<lparr>semmap := mp, sema := (sema st)[i := d]\<rparr>)"
proof -
  have m: "rmap_ok (semmap st)" "holds (free_units (semmap st)) (set_blocks (sema st))"
    "free_units (semmap st) \<subseteq> {1..length (sems st)}"
    using ok by (auto simp: sets_ok_def)
  note al' = rm.alloc_some [OF m(1) al]
  have bl: "set_block d = (a, n)" using n b by (simp add: set_block_def)
  have h: "holds (free_units mp) ((a, n) # set_blocks (take i (sema st)) @ set_blocks (drop (Suc i) (sema st)))"
    using rm.alloc_holds [OF m(1,2) al] set_blocks_split [OF i(1)] i(2) by simp
  then have "holds (free_units mp) (set_blocks ((sema st)[i := d]))"
    using holds_insert [OF h] set_blocks_update [OF i(1), of d] d bl by simp
  moreover have "sem_base d + unat (sem_nsems d) \<le> length (sems st)"
  proof -
    have un: "unat n = unat (sem_nsems d)"
      by (simp add: unsigned_ucast_eq take_bit_nat_eq_self_iff less_le_trans [OF unat_u16_less] flip: n)
    have wf: "a \<noteq> 0" "n \<noteq> 0" "unat a + unat n < 2 ^ 32" and sub: "{unat a ..< unat a + unat n} \<subseteq> {1..length (sems st)}"
      using al' m(3) by (auto simp: block_wf_def block_def)
    have "unat (a - 1) = unat a - 1" using wf(1) by (simp add: unat_minus_one)
    moreover have "0 < unat a" "0 < unat n" using wf by (simp_all add: word_nat)
    moreover have "unat a + unat n - 1 \<in> {1..length (sems st)}"
      using sub calculation(2,3) by (intro subsetD [OF sub]) simp
    ultimately show ?thesis using b un by simp
  qed
  ultimately show ?thesis
    using ok al' by (auto simp: sets_ok_def dest!: set_update_subset_insert [THEN subsetD])
qed

text \<open>What \<open>semget\<close> does, by outcome.\<close>

lemma semget_cases:
  assumes ok: "sets_ok st" and r: "semget u k nsems semflg st = (res, st')"
  obtains (error) e where "res = Inl e" "st' = st"
  | (dead) e i p where "res = Inl e" "i < length (sema st)" "\<not> set_alloc (sema st ! i)" "mode p = 0"
      "st' = st\<lparr>sema := (sema st)[i := (sema st ! i)\<lparr>sem_perm := p\<rparr>]\<rparr>"
  | (old) i where "res = Inr (s32 (int (unat (seq (sem_perm (sema st ! i)))) * semmni (sinfo st) + int i))"
      "st' = st" "i < length (sema st)" "set_alloc (sema st ! i)" "k \<noteq> IPC_PRIVATE" "key (sem_perm (sema st ! i)) = k"
      "nsems = 0 \<or> take_bit 32 nsems \<le> int (unat (sem_nsems (sema st ! i)))"
  | (new) i a mp d where "res = Inr (s32 (int (unat (seq (sem_perm (sema st ! i)))) * semmni (sinfo st) + int i))"
      "i < length (sema st)" "\<not> set_alloc (sema st ! i)" "set_alloc d" "key (sem_perm d) = k"
      "seq (sem_perm d) = seq (sem_perm (sema st ! i))" "0 < nsems" "nsems \<le> semmsl (sinfo st)"
      "rmalloc (semmap st) (word_of_int nsems) = (a, mp)" "a \<noteq> 0" "sem_nsems d = word_of_int nsems"
      "sem_base d = unat (a - 1)" "st' = st\<lparr>semmap := mp, sema := (sema st)[i := d]\<rparr>"
proof (cases "ipcget k semflg (map sem_perm (sema st)) (u_cred u)")
  case (Inl e)
  then have "res = Inl e" "st' = st" using r by (auto simp: semget_def)
  then show ?thesis by (rule error)
next
  case (Inr t)
  obtain s i ps where t: "t = (s, i, ps)" by (cases t)
  show ?thesis
  proof (cases s)
    case False
    have g: "ipcget k semflg (map sem_perm (sema st)) (u_cred u) = Inr (False, i, ps)" using Inr t False by simp
    note o = ipcget_old [OF g]
    have i: "i < length (sema st)" using o(2) by simp
    have st1: "st\<lparr>sema := set_perms ps (sema st)\<rparr> = st" using o(1) by (simp add: set_perms_same)
    show ?thesis
    proof (cases "nsems \<noteq> 0 \<and> int (unat (sem_nsems (sema st ! i))) < take_bit 32 nsems")
      case True
      then show ?thesis using r g st1 error [of EINVAL] by (simp add: semget_def)
    next
      case nt: False
      have "res = Inr (s32 (int (unat (seq (sem_perm (sema st ! i)))) * semmni (sinfo st) + int i))" "st' = st"
        using r g st1 nt by (auto simp: semget_def)
      then show ?thesis
        using old [of i] i o nt by (auto simp: holds_key_def set_alloc_def not_less)
    qed
  next
    case True
    have g: "ipcget k semflg (map sem_perm (sema st)) (u_cred u) = Inr (True, i, ps)" using Inr t True by simp
    note n = ipcget_new [OF g]
    have i: "i < length (sema st)" "\<not> set_alloc (sema st ! i)" using n(1,2) by (simp_all add: set_alloc_def)
    define p where "p = ipc_init k semflg (u_cred u) (sem_perm (sema st ! i))"
    define st1 where "st1 = st\<lparr>sema := (sema st)[i := (sema st ! i)\<lparr>sem_perm := p\<rparr>]\<rparr>"
    have p: "ipc_alloc p" "key p = k" "seq p = seq (sem_perm (sema st ! i))" by (simp_all add: p_def ipc_init_alloc)
    have pseq: "set_perms ps (sema st) = (sema st)[i := (sema st ! i)\<lparr>sem_perm := p\<rparr>]"
      using n(3) i(1) set_perms_update [OF i(1), of p] by (simp add: p_def)
    then have ps: "st\<lparr>sema := set_perms ps (sema st)\<rparr> = st1" by (simp add: st1_def)
    have fields: "sinfo st1 = sinfo st" "semmap st1 = semmap st" "sema st1 ! i = (sema st ! i)\<lparr>sem_perm := p\<rparr>"
      using i by (simp_all add: st1_def)
    have clr: "upd_sema i clear_mode (st1\<lparr>semmap := mp\<rparr>) =
        st\<lparr>semmap := mp, sema := (sema st)[i := (sema st ! i)\<lparr>sem_perm := p\<lparr>mode := 0\<rparr>\<rparr>]\<rparr>" for mp
      using i by (simp add: upd_sema_def st1_def clear_mode_def)
    have self: "st\<lparr>semmap := semmap st, sema := X\<rparr> = st\<lparr>sema := X\<rparr>" "st1\<lparr>semmap := semmap st\<rparr> = st1" for X
      by (simp_all add: st1_def)
    show ?thesis
    proof (cases "nsems \<le> 0 \<or> nsems > semmsl (sinfo st)")
      case True
      then have "res = Inl EINVAL" "st' = upd_sema i clear_mode st1"
        using r g ps fields by (auto simp: semget_def Let_def)
      then show ?thesis using dead [of EINVAL i "p\<lparr>mode := 0\<rparr>"] i clr [of "semmap st"] by (simp add: self)
    next
      case False
      obtain a mp where al: "rmalloc (semmap st) (word_of_int nsems) = (a, mp)"
        by (cases "rmalloc (semmap st) (word_of_int nsems)")
      show ?thesis
      proof (cases "a = 0")
        case True
        then have "mp = semmap st" using rm.alloc_none al ok by (simp add: sets_ok_def)
        moreover have "res = Inl ENOSPC" "st' = upd_sema i clear_mode (st1\<lparr>semmap := mp\<rparr>)"
          using r g ps fields False al True by (auto simp: semget_def Let_def)
        ultimately show ?thesis using dead [of ENOSPC i "p\<lparr>mode := 0\<rparr>"] i clr [of "semmap st"] by (simp add: self)
      next
        case nz: False
        let ?d = "(sema st ! i)\<lparr>sem_perm := p, sem_base := unat (a - 1), sem_nsems := word_of_int nsems,
          sem_ctime := hrestime u, sem_otime := 0\<rparr>"
        have "res = Inr (s32 (int (unat (seq (sem_perm ?d))) * semmni (sinfo st) + int i))"
          "st' = st\<lparr>semmap := mp, sema := (sema st)[i := ?d]\<rparr>"
          using r g False al nz i by (auto simp: semget_def Let_def upd_sema_def pseq)
        then show ?thesis
          using new [of i ?d a mp] i p False al nz by (simp add: set_alloc_def)
      qed
    qed
  qed
qed

lemma semget_sets_ok:
  assumes ok: "sets_ok st" and r: "semget u k nsems semflg st = (res, st')"
  shows "sets_ok st'"
  using ok r
proof (cases rule: semget_cases)
  case (error e)
  then show ?thesis using ok by simp
next
  case (dead e i p)
  have "\<not> set_alloc ((sema st ! i)\<lparr>sem_perm := p\<rparr>)" using dead(4) by (simp add: set_alloc_def ipc_alloc_def)
  then show ?thesis using sets_ok_free_entry [OF ok dead(2,3)] dead(5) by simp
next
  case (old i)
  then show ?thesis using ok by simp
next
  case (new i a mp d)
  have "nsems \<le> 65535" using new(8) ok by (simp add: sets_ok_def)
  then have "uint (word_of_int nsems :: u16) = nsems" "uint (word_of_int nsems :: u32) = nsems"
    using new(7) by (simp_all add: uint_word_of_int)
  then have "ucast (sem_nsems d) = (word_of_int nsems :: u32)"
    using new(11) by (simp add: ucast_eq)
  then show ?thesis using sets_ok_new_entry [OF ok new(2,3,4,9,10) _ new(12)] new(13) by simp
qed

subsection \<open>Removal and initialisation\<close>

text \<open>\<open>only_sems\<close>: a step that changes the semaphores and the log of wakeups only.\<close>

definition only_sems :: "semst \<Rightarrow> semst \<Rightarrow> bool" where
  "only_sems st st' \<longleftrightarrow> sinfo st' = sinfo st \<and> sema st' = sema st \<and> semmap st' = semmap st \<and>
     sem_undo st' = sem_undo st \<and> semu st' = semu st \<and> semunp st' = semunp st \<and> semfup st' = semfup st \<and>
     length (sems st') = length (sems st)"

lemma only_sems_refl [simp]: "only_sems st st"
  by (simp add: only_sems_def)

lemma only_sems_trans: "only_sems a b \<Longrightarrow> only_sems b c \<Longrightarrow> only_sems a c"
  by (simp add: only_sems_def)

lemma only_sems_steps:
  "only_sems st (upd_sem j f st)" "only_sems st (wake_n j st)" "only_sems st (wake_z j st)"
  by (simp_all add: only_sems_def upd_sem_def wake_n_def wake_z_def)

lemma only_sems_then:
  "only_sems st s \<Longrightarrow> only_sems st (upd_sem j f s)" "only_sems st s \<Longrightarrow> only_sems st (wake_n j s)"
  "only_sems st s \<Longrightarrow> only_sems st (wake_z j s)"
  using only_sems_steps only_sems_trans by blast+

lemma only_sems_undo:
  assumes "only_sems st st'"
  shows "undo_ok st' = undo_ok st" "adj st' = adj st"
  using assms adj_cong [of st' st] by (simp_all add: only_sems_def undo_ok_def owned_def)

lemma only_sems_sets: "only_sems st st' \<Longrightarrow> sets_ok st' = sets_ok st"
  by (simp add: only_sems_def sets_ok_def)

lemma semvals_wake: "semvals (wake_n j st) = semvals st" "semvals (wake_z j st) = semvals st"
proof -
  have sv: "semvals (s\<lparr>sem_wakes := w\<rparr>) = semvals s" for w s by (simp add: semvals_def)
  show "semvals (wake_n j st) = semvals st" "semvals (wake_z j st) = semvals st"
    by (simp_all add: wake_n_def wake_z_def sv upd_sem_same(1))
qed

lemma rmid_sem_spec:
  "only_sems st (rmid_sem j st)" "semvals (rmid_sem j st) = (semvals st)[j := 0]"
proof -
  show "only_sems st (rmid_sem j st)"
    unfolding rmid_sem_def by (meson only_sems_steps only_sems_trans)
  show "semvals (rmid_sem j st) = (semvals st)[j := 0]"
    by (simp add: rmid_sem_def semvals_wake semvals_upd)
qed

lemma rmid_loop_spec:
  "only_sems st (foldl (\<lambda>st j. rmid_sem j st) st js)"
  "semvals (foldl (\<lambda>st j. rmid_sem j st) st js) = foldl (\<lambda>V j. V[j := 0]) (semvals st) js"
  by (induction js arbitrary: st) (auto simp: rmid_sem_spec intro: only_sems_trans [OF rmid_sem_spec(1)])

lemma zero_loop_nth:
  "k < length V \<Longrightarrow> foldl (\<lambda>V j. V[j := 0 :: u16]) V js ! k = (if k \<in> set js then 0 else V ! k)"
  by (induction js arbitrary: V) (auto simp: nth_list_update)

lemma zero_loop_length: "length (foldl (\<lambda>V j. V[j := 0 :: u16]) V js) = length V"
  by (induction js arbitrary: V) auto

lemma same_but_undo_sets: "same_but_undo st st' \<Longrightarrow> sets_ok st' = sets_ok st"
  by (simp add: same_but_undo_def sets_ok_def)

text \<open>
  The map after a set's block is given back: its units are the free ones and those of the set (units
  count from 1, semaphores from 0), unless the map was full and no free extent touches the block.
\<close>

definition block_returned :: "semid_ds \<Rightarrow> rmap \<Rightarrow> rmap \<Rightarrow> bool" where
  "block_returned sp mp mp' \<longleftrightarrow>
     (let units = {sem_base sp + 1 ..< sem_base sp + 1 + unat (sem_nsems sp)}
      in free_units mp' = free_units mp \<union> units \<or>
         mp' = mp \<and> mapsize mp = 0 \<and> sem_base sp \<notin> free_units mp \<and> sem_base sp + 1 + unat (sem_nsems sp) \<notin> free_units mp)"

lemma ext_bounds_free:
  assumes "a \<in> free_units mp" "{a + 1 ..< b} \<inter> free_units mp = {}" "a + 1 < b"
  shows "\<exists>e \<in> set (live mp). ext_end e = a + 1"
proof -
  obtain e where e: "e \<in> set (live mp)" "unat (m_addr e) \<le> a" "a < ext_end e"
    using assms(1) by (auto simp: free_units_def ext_units_def)
  moreover have "\<not> a + 1 < ext_end e"
  proof
    assume "a + 1 < ext_end e"
    then have "a + 1 \<in> free_units mp" using e by (auto simp: free_units_def ext_units_def intro!: bexI [of _ e])
    then show False using assms(2,3) by auto
  qed
  ultimately show ?thesis by force
qed

lemma ext_start_free:
  assumes "b \<in> free_units mp" "{a ..< b} \<inter> free_units mp = {}" "a < b"
  shows "\<exists>e \<in> set (live mp). unat (m_addr e) = b"
proof -
  obtain e where e: "e \<in> set (live mp)" "unat (m_addr e) \<le> b" "b < ext_end e"
    using assms(1) by (auto simp: free_units_def ext_units_def)
  moreover have "\<not> unat (m_addr e) < b"
  proof
    assume "unat (m_addr e) < b"
    then have "b - 1 \<in> free_units mp" using e by (auto simp: free_units_def ext_units_def intro!: bexI [of _ e])
    moreover have "b - 1 \<in> {a ..< b}" using assms(3) by auto
    ultimately show False using assms(2) by blast
  qed
  ultimately show ?thesis by force
qed

lemma semctl_rmid_parts:
  fixes st :: semst and sid :: int
  assumes ok: "sets_ok st" and un: "undo_ok st" and i: "i < length (sema st)" "set_alloc (sema st ! i)"
  defines "sp \<equiv> sema st ! i" and "st' \<equiv> semctl_rmid sid i st"
  shows "sets_ok st'" "undo_ok st'" "\<not> set_alloc (sema st' ! i)" "sinfo st' = sinfo st"
    "semvals st' = foldl (\<lambda>V j. V[j := 0]) (semvals st) [sem_base sp ..< sem_base sp + unat (sem_nsems sp)]"
    "length (sem_undo st') = length (sem_undo st)"
    "slot < length (sem_undo st) \<Longrightarrow> adj st' slot k = (if fst k = sid \<and> snd k \<le> sem_nsems sp then 0 else adj st slot k)"
    "sema st' = (sema st)[i := sema st' ! i]"
    "block_returned sp (semmap st) (semmap st')"
proof -
  define st1 where "st1 = semunrm sid 0 (sem_nsems sp) st"
  define st2 where "st2 = foldl (\<lambda>st j. rmid_sem j st) st1 [sem_base sp ..< sem_base sp + unat (sem_nsems sp)]"
  define mp where "mp = rmfree (semmap st) (ucast (sem_nsems sp)) (of_nat (sem_base sp) + 1)"
  define d where "d = sp\<lparr>sem_perm := (sem_perm sp)
    \<lparr>seq := (if take_bit 32 (sid + semmni (sinfo st)) > int INT16_MAX then 0 else seq (sem_perm sp) + 1), mode := 0\<rparr>\<rparr>"
  note u = semunrm_spec [OF un, where sid = sid and low = 0 and high = "sem_nsems sp", folded st1_def]
  note f1 = same_but_undoD [OF u(2)]
  note l = rmid_loop_spec [of st1 "[sem_base sp ..< sem_base sp + unat (sem_nsems sp)]", folded st2_def]
  have f2: "sema st2 = sema st" "semmap st2 = semmap st" "sinfo st2 = sinfo st" "length (sems st2) = length (sems st)"
    "length (sem_undo st2) = length (sem_undo st)"
    using l(1) f1 u(3) by (simp_all add: only_sems_def)
  have st': "st' = st2\<lparr>semmap := mp, sema := (sema st)[i := d]\<rparr>"
    unfolding st'_def semctl_rmid_def Let_def upd_sema_def
    by (simp add: f2 mp_def d_def st2_def [symmetric] st1_def [symmetric] sp_def [symmetric])
  have ok2: "sets_ok st2"
    using ok only_sems_sets [OF l(1)] same_but_undo_sets [OF u(2)] by simp
  have nd: "\<not> set_alloc d" by (simp add: d_def set_alloc_def ipc_alloc_def)
  have h: "rmap_ok (semmap st)" "holds (free_units (semmap st)) (set_blocks (take i (sema st)) @ set_block sp # set_blocks (drop (Suc i) (sema st)))"
    using ok set_blocks_split [OF i(1)] i(2) by (simp_all add: sets_ok_def sp_def)
  have sb: "set_block sp = (of_nat (sem_base sp) + 1, ucast (sem_nsems sp))" by (simp add: set_block_def)
  have rel: "rmap_ok mp" "holds (free_units mp) (set_blocks (take i (sema st)) @ set_blocks (drop (Suc i) (sema st)))"
    using rm.release_inv [OF h(1) h(2) [unfolded sb]] rm.release_holds [OF h(1) h(2) [unfolded sb]] by (simp_all add: mp_def)
  have bnd: "sem_base sp + unat (sem_nsems sp) \<le> length (sems st)" "length (sems st) < 2 ^ 32 - 1"
    using ok i nth_mem [OF i(1)] by (auto simp: sets_ok_def sp_def)
  have wf: "block_wf (set_block sp)" "block (fst (set_block sp)) (snd (set_block sp)) \<inter> free_units (semmap st) = {}"
    using holds_mem [OF h(2), of "set_block sp"] by simp_all
  have units: "block (fst (set_block sp)) (snd (set_block sp)) = {sem_base sp + 1 ..< sem_base sp + 1 + unat (sem_nsems sp)}"
    by (rule set_block_units [OF bnd])
  have "released (semmap st) mp (ucast (sem_nsems sp)) (of_nat (sem_base sp) + 1) \<or> mapsize (semmap st) = 0 \<and> mp = semmap st \<and>
      (\<forall>e \<in> set (live (semmap st)). ext_end e \<noteq> sem_base sp + 1 \<and> unat (m_addr e) \<noteq> sem_base sp + 1 + unat (sem_nsems sp))"
    using rmfree_cases [of "semmap st" "ucast (sem_nsems sp)" "of_nat (sem_base sp) + 1"] h(1) wf set_block_ends [OF bnd]
    by (simp add: mp_def sb block_wf_def block_def)
  moreover have "semmap st' = mp" by (simp add: st')
  moreover have "0 < unat (sem_nsems sp)" using wf(1) by (simp add: sb block_wf_def unat_gt_0) (metis ucast_0)
  ultimately show "block_returned sp (semmap st) (semmap st')"
    using wf(2) units ext_bounds_free [of "sem_base sp" "semmap st" "sem_base sp + 1 + unat (sem_nsems sp)"]
      ext_start_free [of "sem_base sp + 1 + unat (sem_nsems sp)" "semmap st" "sem_base sp + 1"]
    by (auto simp: block_returned_def released_def sb block_def)
  have "free_units mp \<subseteq> free_units (semmap st) \<union> block (fst (set_block sp)) (snd (set_block sp))"
    using rm.release_units [OF h(1), of "fst (set_block sp)" "snd (set_block sp)"] wf by (auto simp: mp_def sb)
  moreover have "block (fst (set_block sp)) (snd (set_block sp)) \<subseteq> {1..length (sems st)}"
    using set_block_units [OF bnd] bnd(1) by auto
  moreover have "free_units (semmap st) \<subseteq> {1..length (sems st)}" using ok by (simp add: sets_ok_def)
  ultimately have "free_units mp \<subseteq> {1..length (sems st)}" by blast
  moreover have "set_blocks ((sema st)[i := d]) = set_blocks (take i (sema st)) @ set_blocks (drop (Suc i) (sema st))"
    using set_blocks_update [OF i(1)] nd by simp
  ultimately show "sets_ok st'"
    using ok rel nd f2 by (auto simp: sets_ok_def st' dest!: set_update_subset_insert [THEN subsetD])
  have "undo_ok st2" using u(1) only_sems_undo(1) [OF l(1)] by simp
  then show "undo_ok st'" by (simp add: st' undo_ok_def owned_def)
  show "\<not> set_alloc (sema st' ! i)" using nd i by (simp add: st')
  show "sinfo st' = sinfo st" "length (sem_undo st') = length (sem_undo st)" by (simp_all add: st' f2)
  have "semvals st1 = semvals st" using f1(1) by (simp add: semvals_def)
  then show "semvals st' = foldl (\<lambda>V j. V[j := 0]) (semvals st) [sem_base sp ..< sem_base sp + unat (sem_nsems sp)]"
    using l(2) by (simp add: st' semvals_def)
  show "sema st' = (sema st)[i := sema st' ! i]" using i by (simp add: st')
  show "adj st' slot k = (if fst k = sid \<and> snd k \<le> sem_nsems sp then 0 else adj st slot k)" if "slot < length (sem_undo st)"
  proof -
    have "adj st' = adj st2" by (rule adj_cong) (simp_all add: st')
    also have "\<dots> = adj st1" using only_sems_undo(2) [OF l(1)] .
    finally show ?thesis using u(4) [OF that, of k] by (simp add: unrm_hit_def)
  qed
qed

lemma semconv_id:
  assumes i: "i < nat (semmni (sinfo st))" and q: "int (unat q) * semmni (sinfo st) + int i < 2 ^ 31"
    and a: "set_alloc (sema st ! i)" and s: "seq (sem_perm (sema st ! i)) = q"
  shows "semconv (s32 (int (unat q) * semmni (sinfo st) + int i)) st = Inr i"
proof -
  let ?n = "semmni (sinfo st)" and ?v = "int (unat q) * semmni (sinfo st) + int i"
  have n: "0 < ?n" "int i < ?n" using i by simp_all
  have "0 \<le> ?v" using n by simp
  then have v: "s32 ?v = ?v" using q by (intro s32_id) simp_all
  have "?v mod ?n = int i" using n by simp
  moreover have "?v div ?n = int (unat q)" using n by simp
  moreover have "mode (sem_perm (sema st ! i)) AND IPC_ALLOC \<noteq> 0"
    using a by (simp add: set_alloc_def ipc_alloc_def)
  ultimately show ?thesis
    unfolding v semconv_def using \<open>0 \<le> ?v\<close> s by (simp add: Let_def)
qed

lemma rmap_ok_mapinit:
  assumes "3 \<le> y" "y < 2 ^ 32"
  shows "rmap_ok (mapinit y)" "free_units (mapinit y) = {}" "mapsize (mapinit y) \<noteq> 0"
proof -
  obtain k where k: "y = k + 2" using assms(1) by (metis add.commute le_Suc_ex numeral_2_eq_2 numeral_3_eq_3 Suc_leD)
  have sz: "unat (of_nat y - 2 :: u32) = y - 2"
    using assms(2) by (simp add: k unat_of_nat)
  have l: "live (mapinit y) = []" using assms by (cases y) (simp_all add: live_def mapinit_def)
  have "y - 1 = Suc (y - 2)" using assms by simp
  then show "rmap_ok (mapinit y)"
    using assms by (simp add: rmap_ok_def l) (simp add: mapinit_def sz)
  show "free_units (mapinit y) = {}" by (simp add: free_units_def l)
  have "unat (mapsize (mapinit y)) \<noteq> 0" using assms sz by (simp add: mapinit_def)
  then show "mapsize (mapinit y) \<noteq> 0" by auto
qed

section \<open>Properties\<close>

text \<open>A facility as it is before \<open>seminit\<close>: no set, no undo structure in use.\<close>

definition sem_blank :: "semst \<Rightarrow> bool" where
  "sem_blank st \<longleftrightarrow> list_all (\<lambda>sp. \<not> set_alloc sp) (sema st) \<and> length (sema st) = nat (semmni (sinfo st)) \<and>
     0 < semmni (sinfo st) \<and> semmsl (sinfo st) \<le> 65535 \<and> 0 \<le> semume (sinfo st) \<and>
     0 < semmns (sinfo st) \<and> length (sems st) = nat (semmns (sinfo st)) \<and> semmns (sinfo st) < 2 ^ 32 - 1 \<and>
     sem_undo st = replicate (length (sem_undo st)) None \<and> semu st = replicate (nat (semmnu (sinfo st))) [] \<and> semunp st = []"

lemma seminit_inv:
  assumes "sem_blank st" and "3 \<le> y" and "y < 2 ^ 32"
  shows "sets_ok (seminit y st) \<and> undo_ok (seminit y st) \<and>
    free_units (semmap (seminit y st)) = {1..nat (semmns (sinfo st))}"
proof -
  note mi = rmap_ok_mapinit [OF assms(2,3)]
  let ?n = "word_of_int (semmns (sinfo st)) :: u32"
  have n: "unat ?n = nat (semmns (sinfo st))" "0 < semmns (sinfo st)" "semmns (sinfo st) < 2 ^ 32 - 1"
  proof -
    show "0 < semmns (sinfo st)" "semmns (sinfo st) < 2 ^ 32 - 1" using assms(1) by (auto simp: sem_blank_def)
    then have "semmns (sinfo st) = int (nat (semmns (sinfo st)))" "nat (semmns (sinfo st)) < 2 ^ 32 - 1" by auto
    moreover define m where "m = nat (semmns (sinfo st))"
    ultimately have "semmns (sinfo st) = int m" "m < 2 ^ 32 - 1" by simp_all
    then show "unat ?n = nat (semmns (sinfo st))" by (simp add: unat_of_nat)
  qed
  have wf: "block_wf (1, ?n)" "block 1 ?n = {1..nat (semmns (sinfo st))}"
    using n by (auto simp: block_wf_def block_def)
  have f: "released (mapinit y) (rmfree (mapinit y) ?n 1) ?n 1"
    using rmfree_cases [OF mi(1), of ?n 1] wf mi(2,3) by (auto simp: block_wf_def)
  then have r: "rmap_ok (rmfree (mapinit y) ?n 1)" "free_units (rmfree (mapinit y) ?n 1) = {1..nat (semmns (sinfo st))}"
    using mi(2) wf(2) by (auto simp: released_def block_def)
  have "set_blocks (sema st) = []"
    using assms(1) by (auto simp: set_blocks_def sem_blank_def list_all_iff filter_empty_conv)
  then have "sets_ok (seminit y st)"
    using assms(1) r n by (auto simp: sets_ok_def seminit_def sem_blank_def list_all_iff)
  moreover have "owned (seminit y st) = []"
  proof -
    have "somes (replicate m (None :: nat option)) = []" for m by (simp add: somes_def)
    moreover have "owned (seminit y st) = somes (replicate (length (sem_undo st)) None)"
      using assms(1) by (simp add: owned_def seminit_def sem_blank_def)
    ultimately show ?thesis by simp
  qed
  then have "undo_ok (seminit y st)"
    using assms(1) by (auto simp: undo_ok_def seminit_def sem_blank_def ents_ok_def ents_sorted_def)
  ultimately show ?thesis using r by (simp add: seminit_def)
qed

text \<open>
  \<open>seminit\<close> leaves all semaphores free and the undo structures on the free chain; with no
  set allocated the invariants of the sets and of the undo table hold.
\<close>

theorem seminit_correct:
  assumes "sem_blank st" and "3 \<le> y" and "y < 2 ^ 32"
  shows "sets_ok (seminit y st) \<and> undo_ok (seminit y st) \<and>
    free_units (semmap (seminit y st)) = {1..nat (semmns (sinfo st))}"
  by (rule seminit_inv [OF assms])

definition blank0 :: semst where
  "blank0 = \<lparr>sinfo = seminfo0, sema = replicate 10 (semid0\<lparr>sem_perm := perm0\<lparr>mode := 0\<rparr>\<rparr>),
     sems = replicate 3 sem0, semmap = mapinit 3, sem_undo = [None, None], semu = [[], []], semunp = [],
     semfup = [], sem_wakes = [], sema_cnt = 0\<rparr>"

lemma blank0_blank: "sem_blank blank0"
  by (simp add: sem_blank_def blank0_def set_alloc_def ipc_alloc_def seminfo0_def replicate_numeral list_all_iff)

theorem seminit_correct_witness:
  "sem_blank blank0 \<and> free_units (semmap (seminit 6 blank0)) = {1..3}"
  using seminit_correct [OF blank0_blank, of 6] blank0_blank by (simp add: blank0_def seminfo0_def)

text \<open>The facility of the next witnesses: initialised, and then with a set of two semaphores.\<close>

definition semst1 :: semst where
  "semst1 = seminit 6 blank0"

definition semst2 :: semst where
  "semst2 = snd (semget caller0 5 2 0x380 semst1)"

lemma semst1_ok: "sets_ok semst1" "undo_ok semst1"
  using seminit_inv [OF blank0_blank, of 6] by (simp_all add: semst1_def)

lemma semget1: "semget caller0 5 2 0x380 semst1 = (Inr 0, semst2)"
proof -
  have "fst (semget caller0 5 2 0x380 semst1) = Inr 0" by code_simp
  then show ?thesis by (simp add: semst2_def prod_eq_iff)
qed

text \<open>
  C35: \<open>semget\<close> keeps the sets disjoint whatever it returns, and the identifier it returns is one
  that \<open>semconv\<close> maps back to an allocated set of the key, as long as identifiers fit an \<open>int\<close>.
\<close>

theorem semget_correct:
  assumes "sets_ok st" and "semget u k nsems semflg st = (res, st')"
    and "list_all (\<lambda>sp. (int (unat (seq (sem_perm sp))) + 1) * semmni (sinfo st) < 2 ^ 31) (sema st)"
  shows "sets_ok st' \<and>
    (case res of Inl e \<Rightarrow> True
     | Inr v \<Rightarrow> \<exists>i < length (sema st'). semconv v st' = Inr i \<and> set_alloc (sema st' ! i) \<and> key (sem_perm (sema st' ! i)) = k)"
proof -
  have ok': "sets_ok st'" by (rule semget_sets_ok [OF assms(1,2)])
  have len: "length (sema st) = nat (semmni (sinfo st))" using assms(1) by (simp add: sets_ok_def)
  have q: "int (unat (seq (sem_perm (sema st ! i)))) * semmni (sinfo st) + int i < 2 ^ 31" if "i < length (sema st)" for i
  proof -
    have "(int (unat (seq (sem_perm (sema st ! i)))) + 1) * semmni (sinfo st) < 2 ^ 31"
      using assms(3) that by (simp add: list_all_iff)
    then show ?thesis using that len by (simp add: algebra_simps)
  qed
  show ?thesis
    using assms(1,2)
  proof (cases rule: semget_cases)
    case (old i)
    then show ?thesis using ok' semconv_id [of i st "seq (sem_perm (sema st ! i))"] q [OF old(3)] len by auto
  next
    case (new i a mp d)
    have "semconv (s32 (int (unat (seq (sem_perm (sema st ! i)))) * semmni (sinfo st) + int i)) st' = Inr i"
      using semconv_id [of i st' "seq (sem_perm (sema st ! i))"] q [OF new(2)] new len by simp
    then show ?thesis using ok' new by auto
  qed (use ok' in auto)
qed

theorem semget_correct_witness:
  "semget caller0 5 2 0x380 semst1 = (Inr 0, semst2) \<and> sets_ok semst2 \<and>
   (\<exists>i < length (sema semst2). semconv 0 semst2 = Inr i \<and> key (sem_perm (sema semst2 ! i)) = 5)"
proof -
  have "list_all (\<lambda>sp. (int (unat (seq (sem_perm sp))) + 1) * semmni (sinfo semst1) < 2 ^ 31) (sema semst1)"
    by (simp add: semst1_def blank0_def seminit_def seminfo0_def semid0_def perm0_def list_all_iff)
  from semget_correct [OF semst1_ok(1) semget1 this] show ?thesis using semget1 by auto
qed

text \<open>
  C36: removing a set gives its identifier up at once (\<open>semconv\<close> refuses it), zeroes its
  semaphores and no others, takes the adjustments every process holds for the identifier away, and
  only those, and adds exactly its block to the free units of the map without disturbing the other
  sets; the block is lost only when the map is full and nothing free lies next to it.
\<close>

theorem semctl_rmid_correct:
  assumes "sets_ok st" and "undo_ok st" and "semconv sid st = Inr i" and "i < length (sema st)"
    and "sp = sema st ! i" and "st' = semctl_rmid sid i st"
  shows "sets_ok st' \<and> undo_ok st' \<and> semconv sid st' = Inl EINVAL \<and> block_returned sp (semmap st) (semmap st') \<and>
    (\<forall>j < length (sems st). semvals st' ! j =
      (if sem_base sp \<le> j \<and> j < sem_base sp + unat (sem_nsems sp) then 0 else semvals st ! j)) \<and>
    (\<forall>slot < length (sem_undo st). \<forall>n. \<forall>s. adj st' slot (s, n) =
      (if s = sid \<and> n \<le> sem_nsems sp then 0 else adj st slot (s, n)))"
proof -
  have al: "set_alloc (sema st ! i)" and i': "i = nat (sid mod semmni (sinfo st))" "0 \<le> sid"
    using assms(3) by (auto simp: semconv_def Let_def set_alloc_def ipc_alloc_def split: if_splits)
  note p = semctl_rmid_parts [OF assms(1,2,4) al, where sid = sid, folded assms(5,6)]
  have "semconv sid st' = Inl EINVAL"
    using p(3,4) i' by (simp add: semconv_def Let_def set_alloc_def ipc_alloc_def)
  moreover have "semvals st' ! j = (if sem_base sp \<le> j \<and> j < sem_base sp + unat (sem_nsems sp) then 0 else semvals st ! j)"
    if "j < length (sems st)" for j
    using that by (subst p(5)) (simp add: zero_loop_nth semvals_def)
  ultimately show ?thesis using p(1,2,7,9) by simp
qed

lemma semst2_ok: "sets_ok semst2" "undo_ok semst2"
proof -
  show "sets_ok semst2" by (rule semget_sets_ok [OF semst1_ok(1) semget1])
  have "semu semst2 = semu semst1" "semunp semst2 = semunp semst1" "semfup semst2 = semfup semst1"
    "sem_undo semst2 = sem_undo semst1" "sinfo semst2 = sinfo semst1"
    unfolding semst2_def by (auto simp: semget_def upd_sema_def Let_def split: sum.splits prod.splits if_splits)
  then show "undo_ok semst2" using semst1_ok(2) by (simp add: undo_ok_def owned_def)
qed

theorem semctl_rmid_correct_witness:
  "sets_ok (semctl_rmid 0 0 semst2) \<and> semconv 0 (semctl_rmid 0 0 semst2) = Inl EINVAL \<and>
   semvals (semctl_rmid 0 0 semst2) ! 0 = 0 \<and>
   free_units (semmap (semctl_rmid 0 0 semst2)) = free_units (semmap semst2) \<union> {1, 2}"
proof -
  have c: "semconv 0 semst2 = Inr 0" by code_simp
  have l: "0 < length (sema semst2)" "length (sems semst2) = 3" "sem_base (sema semst2 ! 0) = 0" "sem_nsems (sema semst2 ! 0) = 2"
    by code_simp+
  have "mapsize (semmap semst2) \<noteq> 0" "{Suc 0 ..< Suc (Suc (Suc 0))} = {Suc 0, 2}" by (code_simp, auto)
  then show ?thesis using semctl_rmid_correct [OF semst2_ok c l(1) refl refl] l(2-4) by (simp add: block_returned_def)
qed

section \<open>The system call and process exit\<close>

lemma semop_verify_range:
  "semop_verify sp cr ops = None \<Longrightarrow> \<forall>op \<in> set ops. sem_num op < sem_nsems sp"
  by (induction ops) (auto split: option.splits if_splits)

lemma semconv_range:
  assumes "semconv sid st = Inr i" "sets_ok st"
  shows "i < length (sema st)" "set_alloc (sema st ! i)"
proof -
  have "i = nat (sid mod semmni (sinfo st))" "0 < semmni (sinfo st)" "length (sema st) = nat (semmni (sinfo st))"
    using assms by (auto simp: semconv_def sets_ok_def Let_def split: if_splits)
  then show "i < length (sema st)" by simp
  show "set_alloc (sema st ! i)"
    using assms(1) by (auto simp: semconv_def Let_def set_alloc_def ipc_alloc_def split: if_splits)
qed

lemma verified_range:
  assumes ok: "sets_ok st" and c: "semconv sid st = Inr i" and v: "semop_verify (sema st ! i) cr ops = None"
  shows "\<forall>op \<in> set ops. sem_at (sema st ! i) op < length (sems st)"
proof
  fix op assume "op \<in> set ops"
  then have "unat (sem_num op) < unat (sem_nsems (sema st ! i))"
    using semop_verify_range [OF v] by (simp add: word_less_nat_alt)
  moreover have "sem_base (sema st ! i) + unat (sem_nsems (sema st ! i)) \<le> length (sems st)"
    using ok semconv_range [OF c ok] by (simp add: sets_ok_def)
  ultimately show "sem_at (sema st ! i) op < length (sems st)" by (simp add: sem_at_def)
qed

lemma upd_sem_semvals:
  assumes "\<And>s. semval (g s) = semval s"
  shows "semvals (upd_sem j g st) = semvals st"
  using assms
  by (cases "j < length (sems st)") (simp_all add: upd_sem_def semvals_def map_update list_update_same_conv list_update_beyond)

lemma semop_finish_frame:
  "semvals (semop_finish u i ops st) = semvals st" "undo_ok (semop_finish u i ops st) = undo_ok st"
  "adj (semop_finish u i ops st) = adj st"
proof -
  define st' where "st' = foldl (\<lambda>st op. upd_sem (sem_at (sema st ! i) op) (\<lambda>s. s\<lparr>sempid := p_pid u\<rparr>) st) st ops"
  have f: "only_sems st (foldl (\<lambda>st op. upd_sem (sem_at (sema st ! i) op) (\<lambda>s. s\<lparr>sempid := p_pid u\<rparr>) st) st ops) \<and>
      semvals (foldl (\<lambda>st op. upd_sem (sem_at (sema st ! i) op) (\<lambda>s. s\<lparr>sempid := p_pid u\<rparr>) st) st ops) = semvals st" for st
    by (induction ops arbitrary: st)
       (auto intro: only_sems_trans [OF only_sems_steps(1)] simp: upd_sem_semvals)
  have e: "semop_finish u i ops st = st'\<lparr>sema := (sema st')[i := (sema st' ! i)\<lparr>sem_otime := hrestime u\<rparr>]\<rparr>"
    by (simp only: semop_finish_def Let_def st'_def)
  have "adj (semop_finish u i ops st) = adj st'" by (rule adj_cong) (simp_all add: e)
  then show "adj (semop_finish u i ops st) = adj st"
    using only_sems_undo(2) f [of st, folded st'_def] by simp
  show "undo_ok (semop_finish u i ops st) = undo_ok st"
    using only_sems_undo(1) f [of st, folded st'_def] by (auto simp: e undo_ok_def owned_def)
  show "semvals (semop_finish u i ops st) = semvals st"
    using f [of st, folded st'_def] by (simp add: e semvals_def)
qed

text \<open>
  With \<open>IPC_NOWAIT\<close> on every operation the system call \<open>semop\<close> always returns, without
  sleeping; when it returns an error, of whatever kind, every semaphore value and every
  adjustment of the caller is as before the call.
\<close>

theorem semop_nowait_returns:
  assumes "sets_ok st" and "undo_ok st" and "limits_ok (sinfo st)" and "p_slot u < length (sem_undo st)"
    and "case copyin 0 of None \<Rightarrow> True | Some ops \<Rightarrow> list_all (\<lambda>op. sem_flg op AND SEM_NOWAIT \<noteq> 0) ops"
  shows "\<exists>r st'. semop slp copyin u sid nsops st = Some (r, st') \<and> undo_ok st' \<and>
    (r = None \<or> semvals st' = semvals st \<and> adj st' (p_slot u) = adj st (p_slot u))"
proof -
  define st1 where "st1 = st\<lparr>sema_cnt := sema_cnt st + 1\<rparr>"
  have st1: "sets_ok st1" "undo_ok st1" "limits_ok (sinfo st1)" "p_slot u < length (sem_undo st1)"
    "semvals st1 = semvals st" "adj st1 = adj st"
    using assms(1-4) adj_cong [of st1 st] by (simp_all add: st1_def sets_ok_def undo_ok_def owned_def semvals_def)
  have semop_eq: "semop slp copyin u sid nsops st =
      (case semconv sid st1 of
         Inl e \<Rightarrow> Some (Some e, st1)
       | Inr i \<Rightarrow>
           if int nsops > semopm (sinfo st1) then Some (Some E2BIG, st1)
           else case copyin 0 of
             None \<Rightarrow> Some (Some EFAULT, st1)
           | Some ops \<Rightarrow>
               (case semop_verify (sema st1 ! i) (u_cred u) ops of
                  Some e \<Rightarrow> Some (Some e, st1)
                | None \<Rightarrow> semop_check slp copyin u sid i 0 st1))"
    by (simp only: semop_def Let_def st1_def)
  have same: "undo_ok st1 \<and> (r = None \<or> semvals st1 = semvals st \<and> adj st1 (p_slot u) = adj st (p_slot u))" for r :: "errno option"
    using st1 by simp
  show ?thesis
  proof (cases "semconv sid st1")
    case (Inl e)
    then have "semop slp copyin u sid nsops st = Some (Some e, st1)" by (simp add: semop_eq)
    then show ?thesis using same by blast
  next
    case (Inr i)
    show ?thesis
    proof (cases "int nsops > semopm (sinfo st1)")
      case True
      then have "semop slp copyin u sid nsops st = Some (Some E2BIG, st1)" using Inr by (simp add: semop_eq)
      then show ?thesis using same by blast
    next
      case le: False
      show ?thesis
      proof (cases "copyin 0")
        case None
        then have "semop slp copyin u sid nsops st = Some (Some EFAULT, st1)"
          using Inr le by (simp add: semop_eq)
        then show ?thesis using same by blast
      next
        case (Some ops)
        show ?thesis
        proof (cases "semop_verify (sema st1 ! i) (u_cred u) ops")
          case (Some e)
          then have "semop slp copyin u sid nsops st = Some (Some e, st1)"
            using Inr le \<open>copyin 0 = Some ops\<close> by (simp add: semop_eq)
          then show ?thesis using same by blast
        next
          case None
          have rng: "\<forall>op \<in> set ops. sem_at (sema st1 ! i) op < length (sems st1)"
            by (rule verified_range [OF st1(1) Inr None])
          obtain w st2 where p: "semop_pass u sid (sema st1 ! i) ops 0 ops st1 = (w, st2)"
            by (cases "semop_pass u sid (sema st1 ! i) ops 0 ops st1")
          have "\<forall>op \<in> set ops. sem_flg op AND SEM_NOWAIT \<noteq> 0"
            using assms(5) Some by (simp add: list_all_iff)
          from semop_pass_nowait [OF this, of u sid "sema st1 ! i" ops 0 st1]
          have w: "w = Done \<or> (\<exists>e. w = Err e)" by (simp add: p)
          have pr: "if w = Done
              then progress u st1 st2 (fold (do_val (sema st1 ! i)) ops (semvals st1)) (fold (do_adj sid) ops (adj st1 (p_slot u))) \<and>
                feasible (sema st1 ! i) (semvmx (sinfo st1)) ops (semvals st1)
              else progress u st1 st2 (semvals st1) (adj st1 (p_slot u))"
            using semop_pass_spec [of u sid "sema st1 ! i" "[]" ops st1 w st2 st1 "semvals st1" "adj st1 (p_slot u)"]
              p st1 rng progress_start [OF st1(2)] by (cases "w = Done") (simp_all add: ready_def)
          have eq: "semop slp copyin u sid nsops st = semop_check slp copyin u sid i 0 st1"
            using Inr le Some None by (simp add: semop_eq)
          show ?thesis
          proof (cases "w = Done")
            case True
            then have "semop slp copyin u sid nsops st = Some (None, semop_finish u i ops st2)"
              unfolding eq by (subst semop_check.simps) (simp add: Some p)
            moreover have "undo_ok st2" using pr True by (simp add: progress_def)
            ultimately show ?thesis using semop_finish_frame(2) by blast
          next
            case False
            then obtain e where e: "w = Err e" using w by blast
            then have "semop slp copyin u sid nsops st = Some (Some e, st2)"
              unfolding eq by (subst semop_check.simps) (simp add: Some p pass_err_def)
            moreover have g: "progress u st1 st2 (semvals st1) (adj st1 (p_slot u))" using pr False by simp
            have "adj st2 (p_slot u) = adj st (p_slot u)" using progress_adj [OF g st1(4)] st1(6) by (simp add: fun_eq_iff)
            moreover have "undo_ok st2" "semvals st2 = semvals st" using g st1(5) by (simp_all add: progress_def)
            ultimately show ?thesis by blast
          qed
        qed
      qed
    qed
  qed
qed

theorem semop_nowait_returns_witness:
  "\<exists>r st'. semop (\<lambda>w st. (True, st)) (\<lambda>n. Some [\<lparr>sem_num = 0, sem_op = 0xFFFF, sem_flg = SEM_NOWAIT\<rparr>]) caller0 0 1 semst2 =
      Some (r, st') \<and> undo_ok st'"
proof -
  have s: "limits_ok (sinfo semst2)" "p_slot caller0 < length (sem_undo semst2)"
    by (simp add: limits_ok_def) code_simp+
  have "list_all (\<lambda>op. sem_flg op AND SEM_NOWAIT \<noteq> 0) [\<lparr>sem_num = 0, sem_op = 0xFFFF, sem_flg = SEM_NOWAIT\<rparr>]"
    by (simp add: SEM_NOWAIT_def)
  then show ?thesis
    using semop_nowait_returns [OF semst2_ok s, where slp = "\<lambda>w st. (True, st)" and sid = 0 and nsops = 1
        and copyin = "\<lambda>n. Some [\<lparr>sem_num = 0, sem_op = 0xFFFF, sem_flg = SEM_NOWAIT\<rparr>]"]
    by auto
qed

text \<open>Freeing a process's structure that has become empty.\<close>

lemma give_back:
  assumes ok: "undo_ok st" and s: "slot < length (sem_undo st)" "sem_undo st ! slot = Some up" and e: "semu st ! up = []"
  defines "st' \<equiv> st\<lparr>semfup := up # semfup st, sem_undo := (sem_undo st)[slot := None]\<rparr>"
  shows "undo_ok st'" "s' < length (sem_undo st) \<Longrightarrow> adj st' s' k = adj st s' k"
proof -
  have "owned st = somes (take slot (sem_undo st)) @ up # somes (drop (Suc slot) (sem_undo st))"
    using somes_split [OF s(1)] s(2) by (simp add: owned_def)
  moreover have "owned st' = somes (take slot (sem_undo st)) @ somes (drop (Suc slot) (sem_undo st))"
    using s(1) somes_split [of slot "(sem_undo st)[slot := None]"] by (simp add: owned_def st'_def)
  ultimately have "mset (semfup st') + mset (owned st') = mset (semfup st) + mset (owned st)"
    by (simp add: st'_def)
  moreover have "semu st' = semu st" by (simp add: st'_def)
  ultimately have m: "mset (semfup st') + mset (owned st') = mset [0..<length (semu st')]"
    using ok by (simp only: undo_ok_def)
  moreover have "semunp st' = semunp st" "sinfo st' = sinfo st" "semfup st' = up # semfup st" by (simp_all add: st'_def)
  ultimately show "undo_ok st'" using ok e \<open>semu st' = semu st\<close> by (simp only: undo_ok_def) simp
  show "adj st' s' k = adj st s' k" if "s' < length (sem_undo st)"
    using s e by (cases "s' = slot") (auto simp: adj_def st'_def split: option.splits)
qed

lemma semexit_entry_spec:
  "only_sems st (semexit_entry e st)"
  "list_all (\<lambda>v. int (unat v) \<le> semvmx (sinfo st)) (semvals st) \<Longrightarrow> semvmx (sinfo st) \<le> 65535 \<Longrightarrow>
     list_all (\<lambda>v. int (unat v) \<le> semvmx (sinfo st)) (semvals (semexit_entry e st))"
proof -
  show "only_sems st (semexit_entry e st)"
    unfolding semexit_entry_def
    by (auto simp: Let_def intro!: only_sems_then split: sum.splits)
  assume v: "list_all (\<lambda>v. int (unat v) \<le> semvmx (sinfo st)) (semvals st)" and m: "semvmx (sinfo st) \<le> 65535"
  have up: "list_all (\<lambda>v. int (unat v) \<le> semvmx (sinfo st)) ((semvals st)[j := word_of_int x])"
    if "0 \<le> x" "x \<le> semvmx (sinfo st)" for j x
  proof -
    have "uint (word_of_int x :: u16) = x" using that m by (simp add: uint_word_of_int)
    then have "int (unat (word_of_int x :: u16)) \<le> semvmx (sinfo st)" using that by simp
    then show ?thesis using v by (auto simp: list_all_iff dest!: set_update_subset_insert [THEN subsetD])
  qed
  show "list_all (\<lambda>v. int (unat v) \<le> semvmx (sinfo st)) (semvals (semexit_entry e st))"
  proof (cases "semconv (un_id e) st")
    case (Inl a)
    then show ?thesis using v by (simp add: semexit_entry_def)
  next
    case (Inr i)
    define j where "j = sem_base (sema st ! i) + unat (un_num e)"
    define x where "x = cur_val j st + un_aoe e"
    define st1 where "st1 = upd_sem j (\<lambda>s. s\<lparr>semval := word_of_int x\<rparr>) st"
    have "semexit_entry e st = (if x < 0 \<or> x > semvmx (sinfo st) then st
        else let st2 = (if x = 0 then wake_z j st1 else st1) in if un_aoe e > 0 then wake_n j st2 else st2)"
      using Inr by (simp only: semexit_entry_def sum.case Let_def j_def x_def st1_def)
    moreover have "semvals st1 = (semvals st)[j := word_of_int x]" by (simp add: st1_def semvals_upd)
    ultimately show ?thesis using v up [of x j] up [of 0 j] by (simp add: Let_def semvals_wake)
  qed
qed

lemma semexit_loop_spec:
  "only_sems st (foldl (\<lambda>st e. semexit_entry e st) st es)"
  "list_all (\<lambda>v. int (unat v) \<le> semvmx (sinfo st)) (semvals st) \<Longrightarrow> semvmx (sinfo st) \<le> 65535 \<Longrightarrow>
     list_all (\<lambda>v. int (unat v) \<le> semvmx (sinfo st)) (semvals (foldl (\<lambda>st e. semexit_entry e st) st es))"
proof -
  have si: "sinfo (semexit_entry e st) = sinfo st" for e st
    using semexit_entry_spec(1) [of st e] by (simp add: only_sems_def)
  show "only_sems st (foldl (\<lambda>st e. semexit_entry e st) st es)"
    by (induction es arbitrary: st) (auto intro: only_sems_trans [OF semexit_entry_spec(1)])
  show "list_all (\<lambda>v. int (unat v) \<le> semvmx (sinfo st)) (semvals st) \<Longrightarrow> semvmx (sinfo st) \<le> 65535 \<Longrightarrow>
     list_all (\<lambda>v. int (unat v) \<le> semvmx (sinfo st)) (semvals (foldl (\<lambda>st e. semexit_entry e st) st es))"
  proof (induction es arbitrary: st)
    case (Cons e es)
    then show ?case using Cons.IH [of "semexit_entry e st"] semexit_entry_spec(2) [of st e] by (simp add: si)
  qed simp
qed

text \<open>
  What exit owes a semaphore: the adjustments held for it are applied one after the other, each that
  would take the value below 0 or above \<open>semvmx\<close> left out.
\<close>

definition held_entries :: "nat \<Rightarrow> semst \<Rightarrow> undo list" where
  "held_entries slot st = (case sem_undo st ! slot of None \<Rightarrow> [] | Some up \<Rightarrow> semu st ! up)"

definition adjusts :: "semst \<Rightarrow> nat \<Rightarrow> undo \<Rightarrow> bool" where
  "adjusts st j e \<longleftrightarrow>
     (case semconv (un_id e) st of Inl _ \<Rightarrow> False | Inr i \<Rightarrow> j = sem_base (sema st ! i) + unat (un_num e))"

definition exit_value :: "int \<Rightarrow> int \<Rightarrow> int list \<Rightarrow> int" where
  "exit_value mx = foldl (\<lambda>v a. if 0 \<le> v + a \<and> v + a \<le> mx then v + a else v)"

lemma semexit_entry_val:
  assumes "semvmx (sinfo st) \<le> 65535" and j: "j < length (sems st)"
  shows "int (unat (semvals (semexit_entry e st) ! j)) =
    exit_value (semvmx (sinfo st)) (int (unat (semvals st ! j))) (if adjusts st j e then [un_aoe e] else [])"
proof (cases "semconv (un_id e) st")
  case (Inl a)
  then show ?thesis by (simp add: semexit_entry_def adjusts_def exit_value_def)
next
  case (Inr i)
  define k where "k = sem_base (sema st ! i) + unat (un_num e)"
  define x where "x = cur_val k st + un_aoe e"
  define st1 where "st1 = upd_sem k (\<lambda>s. s\<lparr>semval := word_of_int x\<rparr>) st"
  have "semexit_entry e st = (if x < 0 \<or> x > semvmx (sinfo st) then st
      else let st2 = (if x = 0 then wake_z k st1 else st1) in if un_aoe e > 0 then wake_n k st2 else st2)"
    using Inr by (simp only: semexit_entry_def sum.case Let_def k_def x_def st1_def)
  then have v: "semvals (semexit_entry e st) =
      (if x < 0 \<or> x > semvmx (sinfo st) then semvals st else (semvals st)[k := word_of_int x])"
    by (simp add: Let_def semvals_wake st1_def semvals_upd)
  have a: "adjusts st j e \<longleftrightarrow> j = k" using Inr by (simp add: adjusts_def k_def)
  have c: "cur_val k st = int (unat (semvals st ! k))" if "k < length (sems st)"
    using that by (simp add: cur_val_def semvals_def)
  have "uint (word_of_int x :: u16) = x" if "0 \<le> x" "x \<le> semvmx (sinfo st)"
    using that assms(1) by (simp add: uint_word_of_int)
  then show ?thesis
    using c j unfolding v a by (auto simp: exit_value_def x_def semvals_def)
qed

lemma semexit_loop_val:
  assumes "semvmx (sinfo st) \<le> 65535" and "j < length (sems st)"
  shows "int (unat (semvals (foldl (\<lambda>st e. semexit_entry e st) st es) ! j)) =
    exit_value (semvmx (sinfo st)) (int (unat (semvals st ! j))) (map un_aoe (filter (adjusts st j) es))"
  using assms
proof (induction es arbitrary: st)
  case Nil
  then show ?case by (simp add: exit_value_def)
next
  case (Cons e es)
  have o: "sinfo (semexit_entry e st) = sinfo st" "sema (semexit_entry e st) = sema st"
    "length (sems (semexit_entry e st)) = length (sems st)"
    using semexit_entry_spec(1) [of st e] by (simp_all add: only_sems_def)
  then have "adjusts (semexit_entry e st) j = adjusts st j" by (simp add: fun_eq_iff adjusts_def semconv_def Let_def)
  then show ?case
    using Cons.IH [of "semexit_entry e st"] semexit_entry_val [OF Cons.prems, of e] Cons.prems o
    by (simp add: exit_value_def)
qed

text \<open>
  C29: \<open>semexit\<close> applies the caller's adjustments, the last entry first: the new value of each
  semaphore is its old one with every adjustment held for it added in turn that keeps it within
  \<open>0 .. semvmx\<close>, the others (and those of sets that are gone) left out. The undo structure is given
  back: afterwards the caller has no structure and no adjustment, the other processes keep theirs,
  the undo table is well formed, and no value has left the range \<open>0 .. semvmx\<close>.
\<close>

theorem semexit_correct:
  assumes "undo_ok st" and "limits_ok (sinfo st)" and "p_slot u < length (sem_undo st)"
    and "list_all (\<lambda>v. int (unat v) \<le> semvmx (sinfo st)) (semvals st)"
  shows "undo_ok (semexit u st) \<and> sem_undo (semexit u st) ! p_slot u = None \<and>
    (\<forall>slot < length (sem_undo st). \<forall>k1. \<forall>k2. adj (semexit u st) slot (k1, k2) = (if slot = p_slot u then 0 else adj st slot (k1, k2))) \<and>
    list_all (\<lambda>v. int (unat v) \<le> semvmx (sinfo st)) (semvals (semexit u st)) \<and>
    (\<forall>j < length (sems st). int (unat (semvals (semexit u st) ! j)) =
      exit_value (semvmx (sinfo st)) (int (unat (semvals st ! j)))
        (map un_aoe (filter (adjusts st j) (rev (held_entries (p_slot u) st)))))"
proof (cases "sem_undo st ! p_slot u")
  case None
  then show ?thesis using assms by (auto simp: semexit_def adj_def held_entries_def exit_value_def)
next
  case (Some up)
  define st0 where "st0 = foldl (\<lambda>st e. semexit_entry e st) st (rev (semu st ! up))"
  note l = semexit_loop_spec [of st "rev (semu st ! up)", folded st0_def]
  have f: "semu st0 = semu st" "sem_undo st0 = sem_undo st" "semunp st0 = semunp st" "sinfo st0 = sinfo st"
    "semfup st0 = semfup st" using l(1) by (simp_all add: only_sems_def)
  have ok0: "undo_ok st0" "adj st0 = adj st" using only_sems_undo [OF l(1)] assms(1) by simp_all
  have s0: "p_slot u < length (sem_undo st0)" "sem_undo st0 ! p_slot u = Some up" using assms(3) Some by (simp_all add: f)
  have upl: "up < length (semu st0)" using undo_ok_owned(1) [OF ok0(1) s0] .
  define st1 where "st1 = st0\<lparr>semu := (semu st0)[up := []], semunp := chain_upd up (semu st0 ! up) [] (semunp st0)\<rparr>"
  have "ents_ok (sinfo st0) []" using assms(2) by (simp add: ents_ok_def ents_sorted_def f limits_ok_def)
  note rep = replace_ents [OF ok0(1) s0 this, folded st1_def]
  have s1: "p_slot u < length (sem_undo st1)" "sem_undo st1 ! p_slot u = Some up" "semu st1 ! up = []"
    using s0 upl by (simp_all add: st1_def)
  note gb = give_back [OF rep(1) s1]
  have eq: "semexit u st = st1\<lparr>semfup := up # semfup st1, sem_undo := (sem_undo st1)[p_slot u := None]\<rparr>"
  proof (cases "semu st ! up = []")
    case True
    then have "st0 = st" by (simp add: st0_def)
    moreover have "(semu st)[up := []] = semu st" using True upl by (metis list_update_id)
    ultimately have "st1 = st" using True by (simp add: st1_def chain_upd_def)
    then show ?thesis using Some True by (simp add: semexit_def)
  next
    case False
    then have "st1 = st0\<lparr>semu := (semu st0)[up := []], semunp := remove1 up (semunp st0)\<rparr>"
      by (simp add: st1_def chain_upd_def f)
    then show ?thesis using Some False by (simp add: semexit_def st0_def [symmetric] Let_def)
  qed
  have "adj (semexit u st) slot (k1, k2) = (if slot = p_slot u then 0 else adj st slot (k1, k2))"
    if "slot < length (sem_undo st)" for slot k1 k2
    using gb(2) [of slot] rep(3) rep(4) [of slot] that by (simp add: eq f ok0(2))
  moreover have "semvals (semexit u st) = semvals st0" by (simp add: eq st1_def semvals_def)
  moreover have "held_entries (p_slot u) st = semu st ! up" using Some by (simp add: held_entries_def)
  moreover have "semvmx (sinfo st) \<le> 65535" using assms(2) by (simp add: limits_ok_def)
  ultimately show ?thesis
    using gb(1) l(2) semexit_loop_val [of st _ "rev (semu st ! up)", folded st0_def] assms(2,3,4)
    by (simp add: eq st1_def f limits_ok_def)
qed

theorem semexit_correct_witness:
  "undo_ok (semexit (caller0\<lparr>p_slot := 1\<rparr>) semst0) \<and> sem_undo (semexit (caller0\<lparr>p_slot := 1\<rparr>) semst0) ! 1 = None \<and>
   int (unat (semvals (semexit (caller0\<lparr>p_slot := 1\<rparr>) semst0) ! 1)) = 9"
proof -
  have h: "p_slot (caller0\<lparr>p_slot := 1\<rparr>) < length (sem_undo semst0)"
    "list_all (\<lambda>v. int (unat v) \<le> semvmx (sinfo semst0)) (semvals semst0)"
    by (simp_all add: semst0_def semvals_def sem0_def seminfo0_def)
  have "exit_value (semvmx (sinfo semst0)) (int (unat (semvals semst0 ! 1)))
      (map un_aoe (filter (adjusts semst0 1) (rev (held_entries 1 semst0)))) = 9" "length (sems semst0) = 3" by code_simp+
  then show ?thesis using semexit_correct [OF semst0_ok h] by (simp del: One_nat_def)
qed

end
