(* ===== verification/Flock.thy ===== *)
theory Flock imports Prelude begin

text \<open>
  File and record locking, \<open>os/flock.c\<close>: the list of locks of a vnode, the adjustment of that
  list to a new lock or unlock (\<open>flckadj\<close>), the test for a blocking lock (\<open>blocked\<close>), the chain
  of sleeping requests with the deadlock test (\<open>deadflck\<close>), and \<open>reclock\<close>, \<open>chklock\<close>,
  \<open>convoff\<close> and \<open>cleanlocks\<close>.  The doubly linked lists are lists; a pointer to a lock of a list
  is its position from 1, with 0 for \<open>NULL\<close>.  \<open>l_end\<close> is a macro for \<open>l_len\<close> in the source, and
  so it is here; \<open>stat\<close> is a union, whose first word is both \<open>wakeflg\<close> and \<open>blk.sysid\<close>.
\<close>

section \<open>Data\<close>

record flock =
  l_type :: int
  l_whence :: int
  l_start :: int
  l_len :: int
  l_sysid :: int
  l_pid :: int

abbreviation l_end :: "flock \<Rightarrow> int" where
  "l_end \<equiv> l_len"

record filock =
  lset :: flock
  wakeflg :: int
  blk_pid :: int
  lck_id :: nat

abbreviation blk_sysid :: "filock \<Rightarrow> int" where
  "blk_sysid \<equiv> wakeflg"

definition F_RDLCK :: int where "F_RDLCK = 1"
definition F_WRLCK :: int where "F_WRLCK = 2"
definition F_UNLCK :: int where "F_UNLCK = 3"
definition MAXEND :: int where "MAXEND = 2147483647"

definition INOFLCK :: u32 where "INOFLCK = 1"
definition SETFLCK :: u32 where "SETFLCK = 2"
definition SLPFLCK :: u32 where "SLPFLCK = 4"
definition RCMDLCK :: u32 where "RCMDLCK = 8"

definition FREAD :: u32 where "FREAD = 1"
definition FWRITE :: u32 where "FWRITE = 2"
definition FNDELAY :: u32 where "FNDELAY = 4"
definition FNONBLOCK :: u32 where "FNONBLOCK = 0x80"

definition IGN_PID :: int where "IGN_PID = -1"

text \<open>
  The state: \<open>flckinfo\<close> with its limit \<open>t_flckrec\<close>, whether the \<open>n\<close>-th \<open>kmem_zalloc\<close> succeeds, the
  lists, and the log of wakeups.  \<open>lck_id\<close> numbers the locks, for the processes that sleep on
  their address.
\<close>

record flk =
  reccnt :: int
  rectot :: int
  t_flckrec :: int
  kmem_ok :: "nat \<Rightarrow> bool"
  kmem_n :: nat
  next_id :: nat
  v_filocks :: "filock list"
  sleeplcks :: "filock list"
  lck_wakes :: "nat list"

definition sameowner :: "flock \<Rightarrow> flock \<Rightarrow> bool" where
  "sameowner a b \<longleftrightarrow> l_pid a = l_pid b \<and> l_sysid a = l_sysid b"

section \<open>Lists of locks\<close>

text \<open>
  \<open>new_lock\<close> is the allocation of \<open>insflck\<close>, \<open>insflck\<close> the insertion after position \<open>p\<close> (0 for
  the head); \<open>drop_lock\<close> is what \<open>delflck\<close> does beside taking the lock out of its list.
\<close>

definition new_lock :: "flock \<Rightarrow> flk \<Rightarrow> (filock \<times> flk) option" where
  "new_lock ld st =
     (if reccnt st \<ge> t_flckrec st then None
      else
        let st1 = st\<lparr>kmem_n := kmem_n st + 1\<rparr>
        in if \<not> kmem_ok st (kmem_n st) then None
           else Some (\<lparr>lset = ld, wakeflg = 0, blk_pid = 0, lck_id = next_id st1\<rparr>,
             st1\<lparr>reccnt := reccnt st1 + 1, rectot := rectot st1 + 1, next_id := next_id st1 + 1\<rparr>))"

definition insflck :: "filock list \<Rightarrow> flock \<Rightarrow> nat \<Rightarrow> flk \<Rightarrow> (filock list \<times> flk) option" where
  "insflck ls ld p st =
     (case new_lock ld st of
        None \<Rightarrow> None
      | Some (new, st') \<Rightarrow> Some (take p ls @ new # drop p ls, st'))"

definition wakeup :: "filock \<Rightarrow> flk \<Rightarrow> filock \<times> flk" where
  "wakeup f st =
     (if wakeflg f \<noteq> 0 then (f\<lparr>wakeflg := 0\<rparr>, st\<lparr>lck_wakes := lck_wakes st @ [lck_id f]\<rparr>) else (f, st))"

definition drop_lock :: "filock \<Rightarrow> flk \<Rightarrow> flk" where
  "drop_lock f st = (let st1 = snd (wakeup f st) in st1\<lparr>reccnt := reccnt st1 - 1\<rparr>)"

text \<open>\<open>regflck\<close>: where the span of a request starts and ends relative to a lock.\<close>

datatype sreg = S_BEFORE | S_START | S_MIDDLE | S_END | S_AFTER
datatype ereg = E_BEFORE | E_START | E_MIDDLE | E_END | E_AFTER

definition regflck :: "flock \<Rightarrow> filock \<Rightarrow> sreg \<times> ereg" where
  "regflck ld flp =
     (let f = lset flp;
          e = (if l_end ld < l_end f then
                 (if l_end ld = l_start f - 1 then E_START
                  else if l_end ld < l_start f then E_BEFORE else E_MIDDLE)
               else if l_end ld = l_end f then E_END else E_AFTER)
      in if l_start ld > l_start f then
           (if l_start ld - 1 = l_end f then (S_END, E_AFTER)
            else if l_start ld > l_end f then (S_AFTER, E_AFTER)
            else (S_MIDDLE, e))
         else if l_start ld = l_start f then (S_START, e)
         else (S_BEFORE, e))"

section \<open>Adjusting a list to a request\<close>

text \<open>
  The \<open>while\<close> loop of \<open>flckadj\<close>.  \<open>pre\<close> are the locks before the current one and \<open>f # suf\<close> the
  rest; \<open>ip\<close> is the position of \<open>insrtp\<close>.  The loop ends with a return from the function
  (\<open>AdjRet\<close>, 0 or \<open>ENOLCK\<close>, with the request as the loop has changed it) or with the request, \<open>insrtp\<close> and the list the code after it works
  on (\<open>AdjEnd\<close>).  \<open>adj_piece\<close> sets up the piece after the end of the request.
\<close>

datatype adj_res =
    AdjRet "errno option" flock "filock list" flk
  | AdjEnd flock nat "filock list" flk

definition adj_piece :: "flock \<Rightarrow> filock \<Rightarrow> filock list \<Rightarrow> flk \<Rightarrow> (filock list \<times> flk) option" where
  "adj_piece ld f suf st =
     (let td = (lset f)\<lparr>l_start := l_end ld + 1\<rparr>;
          before = (\<lambda>x. l_start (lset x) < l_start td)
      in case new_lock td st of
           None \<Rightarrow> None
         | Some (new, st') \<Rightarrow>
             Some (if before f then takeWhile before suf @ new # dropWhile before suf else new # suf, st'))"

fun adj_scan :: "flock \<Rightarrow> nat \<Rightarrow> filock list \<Rightarrow> filock list \<Rightarrow> flk \<Rightarrow> adj_res" where
  "adj_scan ld ip pre [] st = AdjEnd ld ip pre st"
| "adj_scan ld ip pre (f # suf) st =
     (if \<not> sameowner (lset f) ld then adj_scan ld ip (pre @ [f]) suf st
      else
        let same = (l_type ld = l_type (lset f));
            shrunk = wakeup (f\<lparr>lset := (lset f)\<lparr>l_len := l_start ld - 1\<rparr>\<rparr>) st
        in case regflck ld f of
          (S_BEFORE, E_BEFORE) \<Rightarrow> AdjEnd ld ip (pre @ f # suf) st
        | (S_BEFORE, E_START) \<Rightarrow>
            if same then AdjEnd (ld\<lparr>l_len := l_end (lset f)\<rparr>) ip (pre @ suf) (drop_lock f st)
            else AdjEnd ld ip (pre @ f # suf) st
        | (S_START, E_END) \<Rightarrow>
            if same then AdjRet None ld (pre @ f # suf) st
            else adj_scan ld (length pre) pre suf (drop_lock f st)
        | (S_START, E_AFTER) \<Rightarrow> adj_scan ld (length pre) pre suf (drop_lock f st)
        | (S_BEFORE, E_END) \<Rightarrow>
            if same then AdjEnd ld ip (pre @ suf) (drop_lock f st)
            else adj_scan ld ip pre suf (drop_lock f st)
        | (S_BEFORE, E_AFTER) \<Rightarrow> adj_scan ld ip pre suf (drop_lock f st)
        | (S_START, E_MIDDLE) \<Rightarrow>
            if same then AdjRet None ld (pre @ f # suf) st
            else (case adj_piece ld f suf st of
                    None \<Rightarrow> AdjRet (Some ENOLCK) ld (pre @ f # suf) st
                  | Some (suf', st') \<Rightarrow> AdjEnd ld (length pre) (pre @ suf') (drop_lock f st'))
        | (S_MIDDLE, E_MIDDLE) \<Rightarrow>
            if same then AdjRet None ld (pre @ f # suf) st
            else (case adj_piece ld f suf st of
                    None \<Rightarrow> AdjRet (Some ENOLCK) ld (pre @ f # suf) st
                  | Some (suf', st') \<Rightarrow>
                      (case wakeup (f\<lparr>lset := (lset f)\<lparr>l_len := l_start ld - 1\<rparr>\<rparr>) st' of
                         (f', st'') \<Rightarrow> AdjEnd ld (length pre + 1) (pre @ f' # suf') st''))
        | (S_BEFORE, E_MIDDLE) \<Rightarrow>
            if same then AdjEnd (ld\<lparr>l_len := l_end (lset f)\<rparr>) ip (pre @ suf) (drop_lock f st)
            else (case adj_piece ld f suf st of
                    None \<Rightarrow> AdjRet (Some ENOLCK) ld (pre @ f # suf) st
                  | Some (suf', st') \<Rightarrow> AdjEnd ld ip (pre @ suf') (drop_lock f st'))
        | (S_MIDDLE, E_END) \<Rightarrow>
            if same then AdjRet None ld (pre @ f # suf) st
            else adj_scan ld (length pre + 1) (pre @ [fst shrunk]) suf (snd shrunk)
        | (S_MIDDLE, E_AFTER) \<Rightarrow>
            if same then adj_scan (ld\<lparr>l_start := l_start (lset f)\<rparr>) (length pre) pre suf (drop_lock f st)
            else adj_scan ld (length pre + 1) (pre @ [fst shrunk]) suf (snd shrunk)
        | (S_END, E_AFTER) \<Rightarrow>
            if same then adj_scan (ld\<lparr>l_start := l_start (lset f)\<rparr>) (length pre) pre suf (drop_lock f st)
            else adj_scan ld ip (pre @ [f]) suf st
        | (S_AFTER, E_AFTER) \<Rightarrow> adj_scan ld (length pre + 1) (pre @ [f]) suf st
        | _ \<Rightarrow> adj_scan ld ip (pre @ [f]) suf st)"

text \<open>The end of \<open>flckadj\<close>: move \<open>insrtp\<close> on while the locks start before the request, insert.\<close>

definition adj_insert_pos :: "flock \<Rightarrow> nat \<Rightarrow> filock list \<Rightarrow> nat" where
  "adj_insert_pos ld ip ls =
     (if ip = 0 then 0
      else
        let n = length (takeWhile (\<lambda>x. l_start (lset x) < l_start ld) (drop (ip - 1) ls))
        in if n = 0 then ip else ip - 1 + n)"

definition flckadj ::
    "filock list \<Rightarrow> nat \<Rightarrow> flock \<Rightarrow> flk \<Rightarrow> errno option \<times> flock \<times> filock list \<times> flk" where
  "flckadj ls insrtp ld st =
     (case adj_scan ld insrtp (take (insrtp - 1) ls) (drop (insrtp - 1) ls) st of
        AdjRet e ld' ls' st' \<Rightarrow> (e, ld', ls', st')
      | AdjEnd ld' ip ls' st' \<Rightarrow>
          if l_type ld' \<noteq> F_UNLCK then
            (case insflck ls' ld' (adj_insert_pos ld' ip ls') st' of
               None \<Rightarrow> (Some ENOLCK, ld', ls', st')
             | Some (ls'', st'') \<Rightarrow> (None, ld', ls'', st''))
          else (None, ld', ls', st'))"

section \<open>Blocking locks\<close>

text \<open>
  \<open>blocked\<close>: the two loops, with \<open>i\<close> the position of the current lock; \<open>xen\<close> is the XENIX
  condition \<open>xenix_compat && ISLOCKING\<close>.  The first loop returns a blocking lock, or goes on with
  the second one at the lock it stopped at; both give the position of the blocking lock and
  \<open>*insrt\<close>.
\<close>

definition blocks :: "bool \<Rightarrow> flock \<Rightarrow> filock \<Rightarrow> bool" where
  "blocks xen ld f \<longleftrightarrow> l_type (lset f) = F_WRLCK \<or> xen \<or> l_type (lset f) = F_RDLCK \<and> l_type ld = F_WRLCK"

fun blocked_rest :: "bool \<Rightarrow> flock \<Rightarrow> nat \<Rightarrow> filock list \<Rightarrow> nat option" where
  "blocked_rest xen ld i [] = None"
| "blocked_rest xen ld i (f # fs) =
     (if l_end ld < l_start (lset f) then None
      else if l_start ld \<le> l_end (lset f) \<and> \<not> sameowner (lset f) ld \<and> blocks xen ld f then Some i
      else blocked_rest xen ld (i + 1) fs)"

fun blocked_scan :: "bool \<Rightarrow> flock \<Rightarrow> nat \<Rightarrow> nat \<Rightarrow> filock list \<Rightarrow> nat option \<times> nat" where
  "blocked_scan xen ld insrt i [] = (None, insrt)"
| "blocked_scan xen ld insrt i (f # fs) =
     (if l_start (lset f) < l_start ld then
        (if sameowner (lset f) ld then
           (if l_start ld - 1 \<le> l_end (lset f) then (blocked_rest xen ld i (f # fs), i)
            else blocked_scan xen ld i (i + 1) fs)
         else if l_start ld \<le> l_end (lset f) \<and> blocks xen ld f then (Some i, i)
         else blocked_scan xen ld i (i + 1) fs)
      else (blocked_rest xen ld i (f # fs), insrt))"

definition blocked :: "bool \<Rightarrow> filock list \<Rightarrow> flock \<Rightarrow> nat option \<times> nat" where
  "blocked xen ls ld = blocked_scan xen ld 0 1 ls"

section \<open>Requests\<close>

text \<open>
  \<open>deadflck\<close>: \<open>sleeping_on\<close> is its search of the chain for the request a process sleeps with.
  The walk need not end when the chain has a cycle, hence \<open>partial_function\<close>.
\<close>

fun sleeping_on :: "filock list \<Rightarrow> int \<times> int \<Rightarrow> (int \<times> int) option" where
  "sleeping_on [] o1 = None"
| "sleeping_on (sf # sfs) o1 =
     (if fst o1 = l_pid (lset sf) \<and> snd o1 = l_sysid (lset sf) then Some (blk_pid sf, blk_sysid sf)
      else sleeping_on sfs o1)"

partial_function (option) dead_walk :: "filock list \<Rightarrow> int \<times> int \<Rightarrow> int \<times> int \<Rightarrow> bool option" where
  [code]: "dead_walk sl me blck =
     (if blck = me then Some True
      else case sleeping_on sl blck of
        None \<Rightarrow> Some False
      | Some nxt \<Rightarrow> dead_walk sl me nxt)"

definition owner :: "flock \<Rightarrow> int \<times> int" where
  "owner l = (l_pid l, l_sysid l)"

definition deadflck :: "filock list \<Rightarrow> filock \<Rightarrow> flock \<Rightarrow> bool option" where
  "deadflck sl flp ld = dead_walk sl (owner ld) (owner (lset flp))"

text \<open>\<open>convoff\<close>; \<open>size\<close> is what \<open>VOP_GETATTR\<close> delivers.\<close>

definition convoff :: "errno + int \<Rightarrow> flock \<Rightarrow> int \<Rightarrow> int \<Rightarrow> errno option \<times> flock" where
  "convoff sz ld whence offset =
     (case sz of
        Inl e \<Rightarrow> (Some e, ld)
      | Inr va_size \<Rightarrow>
          if l_whence ld \<noteq> 0 \<and> l_whence ld \<noteq> 1 \<and> l_whence ld \<noteq> 2 then (Some EINVAL, ld)
          else
            let ld1 = (if l_whence ld = 1 then ld\<lparr>l_start := s32 (l_start ld + offset)\<rparr>
                       else if l_whence ld = 2 then ld\<lparr>l_start := s32 (l_start ld + va_size)\<rparr> else ld)
            in if l_start ld1 < 0 then (Some EINVAL, ld1)
               else if whence \<noteq> 0 \<and> whence \<noteq> 1 \<and> whence \<noteq> 2 then (Some EINVAL, ld1)
               else
                 let ld2 = (if whence = 1 then ld1\<lparr>l_start := s32 (l_start ld1 - offset)\<rparr>
                            else if whence = 2 then ld1\<lparr>l_start := s32 (l_start ld1 - va_size)\<rparr> else ld1)
                 in (None, ld2\<lparr>l_whence := s16 whence\<rparr>))"

record xenix =
  VIRTUAL_XOUT :: bool
  ISFCNTL :: bool
  ISLOCKING :: bool
  BADVISE_PRE_SV :: bool

text \<open>
  \<open>xenix_compat\<close> of \<open>blocked\<close>, and the two loops of \<open>reclock\<close> over the chain of sleeping
  requests: the removal of the old requests a request covers, and the search for one that is
  there already.
\<close>

definition xen_block :: "xenix \<Rightarrow> flock \<Rightarrow> bool" where
  "xen_block x ld \<longleftrightarrow>
     (VIRTUAL_XOUT x \<and> ISFCNTL x \<and> l_type ld = F_UNLCK \<or> BADVISE_PRE_SV x) \<and> ISLOCKING x"

definition old_request :: "flock \<Rightarrow> filock \<Rightarrow> bool" where
  "old_request ld sf \<longleftrightarrow> l_whence (lset sf) = l_whence ld \<and> l_start (lset sf) \<ge> l_start ld \<and>
     l_len (lset sf) \<le> l_len ld \<and> l_sysid (lset sf) = l_sysid ld \<and> l_pid (lset sf) = l_pid ld"

fun cleanslp :: "flock \<Rightarrow> filock list \<Rightarrow> flk \<Rightarrow> filock list \<times> flk" where
  "cleanslp ld [] st = ([], st)"
| "cleanslp ld (sf # sfs) st =
     (if old_request ld sf then cleanslp ld sfs (drop_lock sf st)
      else case cleanslp ld sfs st of (sfs', st') \<Rightarrow> (sf # sfs', st'))"

definition clean_sleepers :: "flock \<Rightarrow> flk \<Rightarrow> flk" where
  "clean_sleepers ld st = (case cleanslp ld (sleeplcks st) st of (sl, st') \<Rightarrow> st'\<lparr>sleeplcks := sl\<rparr>)"

definition same_request :: "flock \<Rightarrow> filock \<Rightarrow> filock \<Rightarrow> bool" where
  "same_request ld found sf \<longleftrightarrow> l_type (lset sf) = l_type ld \<and> l_whence (lset sf) = l_whence ld \<and>
     l_start (lset sf) = l_start ld \<and> l_len (lset sf) = l_len ld \<and> l_sysid (lset sf) = l_sysid ld \<and>
     l_pid (lset sf) = l_pid ld \<and> blk_sysid sf = l_sysid (lset found) \<and> blk_pid sf = l_pid (lset found)"

text \<open>Putting a request at the head of \<open>sleeplcks\<close>, blocked by the owner of \<open>found\<close>.\<close>

definition add_sleeper :: "flock \<Rightarrow> filock \<Rightarrow> flk \<Rightarrow> (filock \<times> flk) option" where
  "add_sleeper ld found st =
     (case new_lock ld st of
        None \<Rightarrow> None
      | Some (sf, st') \<Rightarrow>
          let sf' = sf\<lparr>blk_pid := l_pid (lset found), wakeflg := l_sysid (lset found)\<rparr>
          in Some (sf', st'\<lparr>sleeplcks := sf' # sleeplcks st'\<rparr>))"

text \<open>After the sleep the request is taken off the chain, its \<open>blk\<close> cleared before.\<close>

definition del_sleeper :: "nat \<Rightarrow> flk \<Rightarrow> flk" where
  "del_sleeper i st =
     (case filter (\<lambda>f. lck_id f = i) (sleeplcks st) of
        [] \<Rightarrow> st
      | sf # _ \<Rightarrow> drop_lock (sf\<lparr>wakeflg := 0, blk_pid := 0\<rparr>)
          (st\<lparr>sleeplcks := filter (\<lambda>f. lck_id f \<noteq> i) (sleeplcks st)\<rparr>))"

text \<open>
  The \<open>do ... while\<close> loop of \<open>reclock\<close>.  \<open>slp\<close> is what happens while the caller sleeps on the lock
  with a given number: whether the sleep was interrupted, and the state the others leave.
\<close>

definition has :: "u32 \<Rightarrow> u32 \<Rightarrow> bool" where
  "has cmd bits \<longleftrightarrow> cmd AND bits \<noteq> 0"

definition rcmd_sleep :: "u32 \<Rightarrow> bool" where
  "rcmd_sleep cmd \<longleftrightarrow> cmd AND (RCMDLCK OR SLPFLCK) = RCMDLCK OR SLPFLCK"

definition reclock_free :: "u32 \<Rightarrow> nat \<Rightarrow> flock \<Rightarrow> flk \<Rightarrow> errno option \<times> flock \<times> flk" where
  "reclock_free cmd insrt ld st =
     (let (ret, ld1, st1) =
        (if has cmd SETFLCK then
           (case flckadj (v_filocks st) insrt ld st of
              (e, ld', ls, st') \<Rightarrow> (e, ld', st'\<lparr>v_filocks := ls\<rparr>))
         else (None, ld\<lparr>l_type := F_UNLCK\<rparr>, st))
      in (ret, ld1, if rcmd_sleep cmd then clean_sleepers ld1 st1 else st1))"

definition reclock_rcmd :: "flock \<Rightarrow> filock \<Rightarrow> flk \<Rightarrow> errno option \<times> flk" where
  "reclock_rcmd ld found st =
     (if list_ex (same_request ld found) (sleeplcks st) then (Some EINTR, st)
      else case add_sleeper ld found st of
        None \<Rightarrow> (Some ENOLCK, st)
      | Some (_, st') \<Rightarrow> (Some EINTR, st'))"

definition reclock_unlock :: "xenix \<Rightarrow> u32 \<Rightarrow> flock \<Rightarrow> flk \<Rightarrow> errno option \<times> flock \<times> flk" where
  "reclock_unlock x cmd ld st =
     (let (ret, ld1, st1) =
        (if has cmd SETFLCK then
           (case flckadj (v_filocks st) (if v_filocks st = [] then 0 else 1) ld st of
              (e, ld', ls, st') \<Rightarrow> (e, ld', st'\<lparr>v_filocks := ls\<rparr>))
         else if VIRTUAL_XOUT x \<and> ISFCNTL x then
           (case fst (blocked (xen_block x ld) (v_filocks st) ld) of
              None \<Rightarrow> (None, ld, st)
            | Some i \<Rightarrow> (None, lset (v_filocks st ! (i - 1)), st))
         else (None, ld, st))
      in (ret, ld1, if has cmd RCMDLCK then clean_sleepers ld1 st1 else st1))"

partial_function (option) reclock_loop ::
    "xenix \<Rightarrow> (nat \<Rightarrow> flk \<Rightarrow> bool \<times> flk) \<Rightarrow> u32 \<Rightarrow> flock \<Rightarrow> flk \<Rightarrow> (errno option \<times> flock \<times> flk) option" where
  [code]: "reclock_loop x slp cmd ld st =
     (if l_type ld = F_RDLCK \<or> l_type ld = F_WRLCK then
        (case fst (blocked (xen_block x ld) (v_filocks st) ld) of
           None \<Rightarrow> Some (reclock_free cmd (snd (blocked (xen_block x ld) (v_filocks st) ld)) ld st)
         | Some i \<Rightarrow>
             if has cmd SLPFLCK then
               (case deadflck (sleeplcks st) (v_filocks st ! (i - 1)) ld of
                  None \<Rightarrow> None
                | Some dead \<Rightarrow>
                    if dead then Some (Some EDEADLK, ld, st)
                    else if has cmd RCMDLCK then
                      Some (fst (reclock_rcmd ld (v_filocks st ! (i - 1)) st), ld,
                        snd (reclock_rcmd ld (v_filocks st ! (i - 1)) st))
                    else
                      (case add_sleeper ld (v_filocks st ! (i - 1)) st of
                         None \<Rightarrow> Some (Some ENOLCK, ld, st)
                       | Some (sf, st1) \<Rightarrow>
                           (case slp (lck_id (v_filocks st ! (i - 1)))
                                (st1\<lparr>v_filocks := (v_filocks st1)[i - 1 := (v_filocks st1 ! (i - 1))
                                     \<lparr>wakeflg := wakeflg (v_filocks st1 ! (i - 1)) + 1\<rparr>]\<rparr>) of
                              (intr, st2) \<Rightarrow>
                                if intr then Some (Some EINTR, ld, del_sleeper (lck_id sf) st2)
                                else reclock_loop x slp cmd ld (del_sleeper (lck_id sf) st2))))
             else if has cmd SETFLCK then Some (Some EAGAIN, ld, st)
             else Some (None, lset (v_filocks st ! (i - 1)), st))
      else if l_type ld = F_UNLCK then Some (reclock_unlock x cmd ld st)
      else Some (Some EINVAL, ld, st))"

definition reclock_restore :: "flock \<Rightarrow> flock" where
  "reclock_restore ld =
     (if l_end ld = MAXEND then ld\<lparr>l_len := 0\<rparr> else ld\<lparr>l_len := s32 (l_len ld - (l_start ld - 1))\<rparr>)"

definition reclock ::
    "xenix \<Rightarrow> (nat \<Rightarrow> flk \<Rightarrow> bool \<times> flk) \<Rightarrow> errno + int \<Rightarrow> flock \<Rightarrow> u32 \<Rightarrow> u32 \<Rightarrow> int \<Rightarrow> flk
      \<Rightarrow> (errno option \<times> flock \<times> flk) option" where
  "reclock x slp sz ld cmd flag offset st =
     (if \<not> BADVISE_PRE_SV x \<and> (has cmd SETFLCK \<or> VIRTUAL_XOUT x \<and> ISFCNTL x \<or> ISLOCKING x) \<and>
         (l_type ld = F_RDLCK \<and> \<not> has flag FREAD \<or> l_type ld = F_WRLCK \<and> \<not> has flag FWRITE)
      then Some (if VIRTUAL_XOUT x \<or> ISLOCKING x then Some EINVAL else Some EBADF, ld, st)
      else case convoff sz ld 0 offset of
        (Some e, ld1) \<Rightarrow> Some (Some e, ld1, st)
      | (None, ld1) \<Rightarrow>
          if l_len ld1 < 0 then Some (Some EINVAL, ld1, st)
          else
            let ld2 = (if l_len ld1 = 0 then ld1\<lparr>l_len := MAXEND\<rparr>
                       else ld1\<lparr>l_len := s32 (l_len ld1 + (l_start ld1 - 1))\<rparr>)
            in if l_start ld2 > l_end ld2 then Some (Some EINVAL, ld2, st)
               else case reclock_loop x slp cmd ld2 st of
                 None \<Rightarrow> None
               | Some (e, ld3, st') \<Rightarrow> Some (e, reclock_restore ld3, st'))"

text \<open>\<open>chklock\<close>: the mandatory check before a read or write; \<open>epid\<close> and \<open>sysid\<close> are the caller's.\<close>

definition chklock ::
    "xenix \<Rightarrow> (nat \<Rightarrow> flk \<Rightarrow> bool \<times> flk) \<Rightarrow> errno + int \<Rightarrow> int \<Rightarrow> int \<Rightarrow> u32 \<Rightarrow> int \<Rightarrow> int \<Rightarrow> u32 \<Rightarrow> flk
      \<Rightarrow> (errno option \<times> flk) option" where
  "chklock x slp sz epid sysid iomode offset len fmode st =
     (let bf = \<lparr>l_type = (if has iomode FWRITE then F_WRLCK else F_RDLCK), l_whence = 0, l_start = offset,
            l_len = (if len = 0 \<and> (VIRTUAL_XOUT x \<or> ISLOCKING x) then 1 else len),
            l_sysid = sysid, l_pid = epid\<rparr>;
          i = (if has fmode (FNDELAY OR FNONBLOCK) then INOFLCK else INOFLCK OR SLPFLCK)
      in case reclock x slp sz bf i 0 offset st of
           None \<Rightarrow> None
         | Some (e, bf', st') \<Rightarrow>
             if e \<noteq> None \<or> l_type bf' \<noteq> F_UNLCK then
               (let error = (case e of Some err \<Rightarrow> err | None \<Rightarrow> EAGAIN)
                in Some (Some (if BADVISE_PRE_SV x \<and> error = EAGAIN then EACCES else error), st'))
             else Some (None, st'))"

text \<open>\<open>cleanlocks\<close>: remove the locks of a process (of every process for \<open>IGN_PID\<close>) of a system.\<close>

fun clean_list :: "int \<Rightarrow> int \<Rightarrow> filock list \<Rightarrow> flk \<Rightarrow> filock list \<times> flk" where
  "clean_list pid sysid [] st = ([], st)"
| "clean_list pid sysid (f # fs) st =
     (if (l_pid (lset f) = pid \<or> pid = IGN_PID) \<and> l_sysid (lset f) = sysid
      then clean_list pid sysid fs (drop_lock f st)
      else case clean_list pid sysid fs st of (fs', st') \<Rightarrow> (f # fs', st'))"

definition cleanlocks :: "int \<Rightarrow> int \<Rightarrow> flk \<Rightarrow> flk" where
  "cleanlocks pid sysid st =
     (case clean_list pid sysid (v_filocks st) st of (ls, st') \<Rightarrow> st'\<lparr>v_filocks := ls\<rparr>)"

end
