(* ===== verification/Flock_Adj.thy ===== *)
theory Flock_Adj imports Flock begin

text \<open>
  What \<open>flckadj\<close> and \<open>blocked\<close> do to the bytes of a file.  The list of a vnode is sorted by start
  and the locks of one owner are apart (\<open>locks_ok\<close>); \<open>holds_lock\<close> reads it as the relation between
  owners, types and bytes that the list stands for.
\<close>

section \<open>Locks as sets of bytes\<close>

definition covers :: "flock \<Rightarrow> int \<Rightarrow> bool" where
  "covers l b \<longleftrightarrow> l_start l \<le> b \<and> b \<le> l_end l"

definition holds_lock :: "filock list \<Rightarrow> int \<times> int \<Rightarrow> int \<Rightarrow> int \<Rightarrow> bool" where
  "holds_lock ls u t b \<longleftrightarrow> (\<exists>f\<in>set ls. owner (lset f) = u \<and> l_type (lset f) = t \<and> covers (lset f) b)"

text \<open>Locks that neither overlap nor, when they have the same type, touch.\<close>

definition sep :: "flock \<Rightarrow> flock \<Rightarrow> bool" where
  "sep a c \<longleftrightarrow> l_end a < l_start c \<and> (l_type a = l_type c \<longrightarrow> l_end a + 1 < l_start c)"

definition before_ok :: "filock \<Rightarrow> filock \<Rightarrow> bool" where
  "before_ok f g \<longleftrightarrow> l_start (lset f) \<le> l_start (lset g) \<and>
     (owner (lset f) = owner (lset g) \<longrightarrow> sep (lset f) (lset g))"

definition good_lock :: "flock \<Rightarrow> bool" where
  "good_lock l \<longleftrightarrow> l_start l \<le> l_end l \<and> (l_type l = F_RDLCK \<or> l_type l = F_WRLCK)"

definition locks_ok :: "filock list \<Rightarrow> bool" where
  "locks_ok ls \<longleftrightarrow> sorted_wrt before_ok ls \<and> list_all (\<lambda>f. good_lock (lset f)) ls"

text \<open>What is held once the request \<open>ld\<close> is laid over the list.\<close>

definition after_lock :: "flock \<Rightarrow> filock list \<Rightarrow> int \<times> int \<Rightarrow> int \<Rightarrow> int \<Rightarrow> bool" where
  "after_lock ld ls u t b \<longleftrightarrow> (if u = owner ld \<and> covers ld b then t = l_type ld else holds_lock ls u t b)"

lemma sameowner_iff: "sameowner a b \<longleftrightarrow> owner a = owner b"
  by (simp add: sameowner_def owner_def)

lemma owner_update [simp]:
  "owner (l\<lparr>l_start := x\<rparr>) = owner l" "owner (l\<lparr>l_len := y\<rparr>) = owner l" "owner (l\<lparr>l_type := z\<rparr>) = owner l"
  by (simp_all add: owner_def)

lemma covers_update [simp]:
  "covers (l\<lparr>l_start := x\<rparr>) b \<longleftrightarrow> x \<le> b \<and> b \<le> l_end l"
  "covers (l\<lparr>l_len := y\<rparr>) b \<longleftrightarrow> l_start l \<le> b \<and> b \<le> y"
  by (simp_all add: covers_def)

lemma holds_lock_append [simp]:
  "holds_lock (xs @ ys) u t b \<longleftrightarrow> holds_lock xs u t b \<or> holds_lock ys u t b"
  by (auto simp: holds_lock_def)

lemma holds_lock_Nil [simp]: "\<not> holds_lock [] u t b"
  by (simp add: holds_lock_def)

lemma holds_lock_Cons [simp]:
  "holds_lock (f # fs) u t b \<longleftrightarrow>
     owner (lset f) = u \<and> l_type (lset f) = t \<and> covers (lset f) b \<or> holds_lock fs u t b"
  by (auto simp: holds_lock_def)

lemma locks_ok_Nil [simp]: "locks_ok []"
  by (simp add: locks_ok_def)

lemma locks_ok_Cons:
  "locks_ok (f # fs) \<longleftrightarrow> list_all (before_ok f) fs \<and> good_lock (lset f) \<and> locks_ok fs"
  by (auto simp: locks_ok_def list_all_iff)

lemma locks_ok_append:
  "locks_ok (xs @ ys) \<longleftrightarrow> locks_ok xs \<and> locks_ok ys \<and> (\<forall>x\<in>set xs. list_all (before_ok x) ys)"
  by (auto simp: locks_ok_def sorted_wrt_append list_all_iff)

lemma locks_ok_drop: "locks_ok (pre @ f # suf) \<Longrightarrow> locks_ok (pre @ suf)"
  by (auto simp: locks_ok_append locks_ok_Cons)

lemma locks_ok_middle:
  assumes "locks_ok (pre @ f # suf)"
  shows "good_lock (lset f)" and "\<And>x. x \<in> set pre \<Longrightarrow> before_ok x f"
    and "\<And>x. x \<in> set suf \<Longrightarrow> before_ok f x"
  using assms by (auto simp: locks_ok_append locks_ok_Cons list_all_iff)

text \<open>A lock may be cut at its end, and a lock apart from those of its owner may be put in.\<close>

lemma locks_ok_shrink:
  assumes "locks_ok (pre @ f # suf)" and "lset g = (lset f)\<lparr>l_len := y\<rparr>"
    and "l_start (lset f) \<le> y" and "y \<le> l_end (lset f)"
  shows "locks_ok (pre @ g # suf)"
  using assms by (auto simp: locks_ok_append locks_ok_Cons list_all_iff before_ok_def sep_def good_lock_def)

lemma locks_ok_insert:
  assumes ok: "locks_ok (xs @ ys)" and g: "good_lock (lset n)"
    and x: "\<And>x. x \<in> set xs \<Longrightarrow> l_start (lset x) \<le> l_start (lset n)"
    and y: "\<And>y. y \<in> set ys \<Longrightarrow> l_start (lset n) \<le> l_start (lset y)"
    and s: "\<And>z. z \<in> set (xs @ ys) \<Longrightarrow> owner (lset z) = owner (lset n) \<Longrightarrow>
      sep (lset z) (lset n) \<or> sep (lset n) (lset z)"
  shows "locks_ok (xs @ n # ys)"
proof -
  have gz: "good_lock (lset z)" if "z \<in> set (xs @ ys)" for z
    using ok that by (auto simp: locks_ok_def list_all_iff)
  have "before_ok z n" if "z \<in> set xs" for z
    using x [OF that] s [of z] gz [of z] g that by (auto simp: before_ok_def sep_def good_lock_def)
  moreover have "before_ok n z" if "z \<in> set ys" for z
    using y [OF that] s [of z] gz [of z] g that by (auto simp: before_ok_def sep_def good_lock_def)
  ultimately show ?thesis
    using ok g by (auto simp: locks_ok_append locks_ok_Cons list_all_iff)
qed

section \<open>One step of the loop\<close>

text \<open>What every edit of the loop keeps: the bytes held once the request is laid over the list.\<close>

definition adj_keeps :: "flock \<Rightarrow> filock list \<Rightarrow> flock \<Rightarrow> filock list \<Rightarrow> bool" where
  "adj_keeps ld ls ld' ls' \<longleftrightarrow> owner ld' = owner ld \<and> l_type ld' = l_type ld \<and>
     (\<forall>u t b. after_lock ld' ls' u t b = after_lock ld ls u t b) \<and>
     (\<forall>u t b. holds_lock ls' u t b \<longrightarrow> holds_lock ls u t b)"

lemma adj_keeps_refl [simp]: "adj_keeps ld ls ld ls"
  by (simp add: adj_keeps_def)

lemma adj_keeps_trans: "adj_keeps a x b y \<Longrightarrow> adj_keeps b y c z \<Longrightarrow> adj_keeps a x c z"
  by (simp add: adj_keeps_def)

lemma adj_keeps_drop:
  assumes "owner (lset f) = owner ld" and "l_start ld \<le> l_start (lset f)" and "l_end (lset f) \<le> l_end ld"
  shows "adj_keeps ld (pre @ f # suf) ld (pre @ suf)"
  using assms by (auto simp: adj_keeps_def after_lock_def covers_def)

text \<open>No other lock of the owner of \<open>f\<close> covers a byte of \<open>f\<close>.\<close>

lemma own_only:
  assumes "locks_ok (pre @ f # suf)" and "covers (lset f) b" and "owner (lset f) = u"
  shows "\<not> holds_lock (pre @ suf) u t b"
proof
  assume "holds_lock (pre @ suf) u t b"
  then obtain g where g: "g \<in> set pre \<or> g \<in> set suf" "owner (lset g) = u" "covers (lset g) b"
    by (auto simp: holds_lock_def)
  then show False
    using locks_ok_middle(2,3) [OF assms(1), of g] assms(2,3) by (auto simp: before_ok_def sep_def covers_def)
qed

lemma adj_keeps_merge:
  assumes ok: "locks_ok (pre @ f # suf)" and own: "owner (lset f) = owner ld"
    and ty: "l_type ld = l_type (lset f)"
    and ld': "owner ld' = owner ld" "l_type ld' = l_type ld"
    and cov: "\<And>b. covers ld' b \<longleftrightarrow> covers ld b \<or> covers (lset f) b"
  shows "adj_keeps ld (pre @ f # suf) ld' (pre @ suf)"
proof -
  have "after_lock ld' (pre @ suf) u t b = after_lock ld (pre @ f # suf) u t b" for u t b
    using own_only [OF ok, of b u t] own ty ld' cov [of b] by (auto simp: after_lock_def)
  then show ?thesis using ld' by (auto simp: adj_keeps_def)
qed

lemma adj_keeps_shrink:
  assumes own: "owner (lset f) = owner ld" and g: "lset g = (lset f)\<lparr>l_len := l_start ld - 1\<rparr>"
    and r: "l_start ld \<le> l_end (lset f)" "l_end (lset f) \<le> l_end ld"
  shows "adj_keeps ld (pre @ f # suf) ld (pre @ g # suf)"
  using assms by (auto simp: adj_keeps_def after_lock_def covers_def)

lemma adj_keeps_piece:
  assumes own: "owner (lset f) = owner ld" and n: "lset n = (lset f)\<lparr>l_start := l_end ld + 1\<rparr>"
    and r: "l_start (lset f) \<le> l_end ld" "l_end ld < l_end (lset f)" and s: "l_start ld \<le> l_start (lset f)"
  shows "adj_keeps ld (pre @ f # xs @ ys) ld (pre @ xs @ n # ys)"
  using assms by (auto simp: adj_keeps_def after_lock_def covers_def)

lemma adj_keeps_split:
  assumes own: "owner (lset f) = owner ld" and n: "lset n = (lset f)\<lparr>l_start := l_end ld + 1\<rparr>"
    and g: "lset g = (lset f)\<lparr>l_len := l_start ld - 1\<rparr>"
    and r: "l_start (lset f) < l_start ld" "l_start ld \<le> l_end ld" "l_end ld < l_end (lset f)"
  shows "adj_keeps ld (pre @ f # xs @ ys) ld (pre @ g # xs @ n # ys)"
  using assms by (auto simp: adj_keeps_def after_lock_def covers_def)


section \<open>The loop\<close>

text \<open>The inequalities each region of \<open>regflck\<close> stands for.\<close>

definition in_region :: "flock \<Rightarrow> flock \<Rightarrow> sreg \<times> ereg \<Rightarrow> bool" where
  "in_region ld f r \<longleftrightarrow>
     (case fst r of
        S_BEFORE \<Rightarrow> l_start ld < l_start f
      | S_START \<Rightarrow> l_start ld = l_start f
      | S_MIDDLE \<Rightarrow> l_start f < l_start ld \<and> l_start ld \<le> l_end f
      | S_END \<Rightarrow> l_start ld = l_end f + 1 \<and> snd r = E_AFTER
      | S_AFTER \<Rightarrow> l_end f + 1 < l_start ld \<and> snd r = E_AFTER) \<and>
     (case snd r of
        E_BEFORE \<Rightarrow> l_end ld < l_start f - 1 \<and> fst r = S_BEFORE
      | E_START \<Rightarrow> l_end ld = l_start f - 1 \<and> fst r = S_BEFORE
      | E_MIDDLE \<Rightarrow> l_start f \<le> l_end ld \<and> l_end ld < l_end f
      | E_END \<Rightarrow> l_end ld = l_end f
      | E_AFTER \<Rightarrow> l_end f < l_end ld)"

lemma regflck_region:
  assumes "l_start ld \<le> l_end ld" and "good_lock (lset f)"
  shows "in_region ld (lset f) (regflck ld f)"
  using assms by (auto simp: regflck_def in_region_def good_lock_def Let_def)

text \<open>
  Where the loop stands: the locks before the current one are apart from the request, and
  \<open>insrtp\<close> is a place from which the insertion can be found.
\<close>

definition pos_ok :: "flock \<Rightarrow> nat \<Rightarrow> filock list \<Rightarrow> bool" where
  "pos_ok ld ip ls \<longleftrightarrow>
     (if ip = 0 then list_all (\<lambda>x. l_start ld \<le> l_start (lset x)) ls
      else ip \<le> length ls \<and> l_start (lset (ls ! (ip - 1))) \<le> l_start ld)"

definition scan_ok :: "flock \<Rightarrow> nat \<Rightarrow> filock list \<Rightarrow> filock list \<Rightarrow> bool" where
  "scan_ok ld ip pre suf \<longleftrightarrow> locks_ok (pre @ suf) \<and> l_start ld \<le> l_end ld \<and>
     list_all (\<lambda>f. owner (lset f) = owner ld \<longrightarrow> sep (lset f) ld) pre \<and>
     (l_type ld = F_UNLCK \<or> pos_ok ld ip (pre @ suf))"

definition end_ok :: "flock \<Rightarrow> nat \<Rightarrow> filock list \<Rightarrow> bool" where
  "end_ok ld ip ls \<longleftrightarrow> locks_ok ls \<and> l_start ld \<le> l_end ld \<and>
     list_all (\<lambda>f. owner (lset f) = owner ld \<longrightarrow> sep (lset f) ld \<or> sep ld (lset f)) ls \<and>
     (l_type ld = F_UNLCK \<or> pos_ok ld ip ls)"

lemma pos_ok_len [simp]: "pos_ok (ld\<lparr>l_len := y\<rparr>) ip ls = pos_ok ld ip ls"
  by (simp add: pos_ok_def)

lemma pos_ok_step: "pos_ok ld ip (pre @ f # suf) \<Longrightarrow> pos_ok ld ip ((pre @ [f]) @ suf)"
  by simp

lemma pos_ok_before:
  assumes "pos_ok ld ip (pre @ f # suf)" and "l_start ld < l_start (lset f)" and "locks_ok (pre @ f # suf)"
  shows "ip \<le> length pre"
proof (rule ccontr)
  assume n: "\<not> ip \<le> length pre"
  then have "(pre @ f # suf) ! (ip - 1) = (f # suf) ! (ip - 1 - length pre)"
    and "ip - 1 - length pre < length (f # suf)"
    using assms(1) by (auto simp: pos_ok_def nth_append)
  then have "(pre @ f # suf) ! (ip - 1) \<in> set (f # suf)" by (metis nth_mem)
  then have "l_start (lset f) \<le> l_start (lset ((pre @ f # suf) ! (ip - 1)))"
    using locks_ok_middle(3) [OF assms(3)] by (auto simp: before_ok_def)
  then show False using assms(1,2) n by (auto simp: pos_ok_def split: if_splits)
qed

text \<open>Taking out a lock that starts after the request leaves \<open>insrtp\<close> where it is.\<close>

lemma pos_ok_drop:
  assumes "pos_ok ld ip (pre @ f # suf)" and "l_start ld < l_start (lset f)" and "locks_ok (pre @ f # suf)"
  shows "pos_ok ld ip (pre @ suf)"
proof -
  have "ip \<le> length pre"
    using assms pos_ok_before by blast
  then show ?thesis using assms(1) by (auto simp: pos_ok_def nth_append)
qed

text \<open>
  The lock before the current one is a place to insert at when the current one, or one it
  replaces, starts where the request does; and so is a lock that starts before the request.
\<close>

lemma pos_ok_prev:
  assumes "locks_ok (pre @ f # suf)" and "l_start (lset f) = l_start ld"
  shows "pos_ok ld (length pre) (pre @ suf)"
proof (cases "pre = []")
  case True
  then show ?thesis
    using locks_ok_middle(3) [OF assms(1)] assms(2) by (auto simp: pos_ok_def before_ok_def list_all_iff)
next
  case False
  then have "l_start (lset (last pre)) \<le> l_start ld"
    using locks_ok_middle(2) [OF assms(1), of "last pre"] assms(2) by (simp add: before_ok_def)
  then show ?thesis using False by (simp add: pos_ok_def nth_append last_conv_nth)
qed

lemma pos_ok_at: "l_start (lset f) \<le> l_start ld \<Longrightarrow> pos_ok ld (length pre + 1) (pre @ f # suf)"
  by (simp add: pos_ok_def)

lemma pos_ok_insert:
  assumes "pos_ok ld ip (pre @ xs @ ys)" and "ip \<le> length pre"
    and "l_start ld \<le> l_start (lset n)"
  shows "pos_ok ld ip (pre @ xs @ n # ys)"
  using assms by (auto simp: pos_ok_def nth_append)

text \<open>The insertion at the end.\<close>

lemma dropWhile_start:
  assumes "sorted_wrt before_ok xs" and "y \<in> set (dropWhile (\<lambda>x. l_start (lset x) < c) xs)"
  shows "c \<le> l_start (lset y)"
  using assms by (induction xs) (auto simp: before_ok_def split: if_splits)

lemma insert_split:
  assumes ok: "locks_ok ls" and p: "pos_ok ld ip ls"
  defines "k \<equiv> adj_insert_pos ld ip ls"
  shows "(\<forall>x\<in>set (take k ls). l_start (lset x) \<le> l_start ld) \<and>
    (\<forall>y\<in>set (drop k ls). l_start ld \<le> l_start (lset y))"
proof (cases "ip = 0")
  case True
  then show ?thesis using p by (auto simp: k_def adj_insert_pos_def pos_ok_def list_all_iff)
next
  case False
  let ?P = "\<lambda>x. l_start (lset x) < l_start ld"
  let ?c = "ls ! (ip - 1)" and ?pre = "take (ip - 1) ls" and ?suf = "drop ip ls"
  have split: "ls = ?pre @ ?c # ?suf" and dr: "drop (ip - 1) ls = ?c # ?suf" and le: "l_start (lset ?c) \<le> l_start ld"
    using p False id_take_nth_drop [of "ip - 1" ls] Cons_nth_drop_Suc [of "ip - 1" ls] by (auto simp: pos_ok_def)
  have okc: "locks_ok (?pre @ ?c # ?suf)" using ok split by simp
  have pre: "l_start (lset x) \<le> l_start ld" if "x \<in> set ?pre" for x
    using locks_ok_middle(2) [OF okc that] le by (simp add: before_ok_def)
  have sorted: "sorted_wrt before_ok (?c # ?suf)"
    using okc by (simp add: locks_ok_def sorted_wrt_append)
  show ?thesis
  proof (cases "?P ?c")
    case True
    let ?w = "takeWhile ?P (?c # ?suf)" and ?d = "dropWhile ?P (?c # ?suf)"
    have k: "k = length (?pre @ ?w)"
      unfolding k_def adj_insert_pos_def dr using False True p by (simp add: pos_ok_def)
    have ls: "ls = (?pre @ ?w) @ ?d" using split by simp
    have t: "take k ls = ?pre @ ?w" and d: "drop k ls = ?d"
      using append_eq_conv_conj [of "?pre @ ?w" ?d ls] ls k by simp_all
    have "l_start ld \<le> l_start (lset y)" if "y \<in> set ?d" for y
      by (rule dropWhile_start [OF sorted that])
    moreover have "l_start (lset x) \<le> l_start ld" if "x \<in> set ?w" for x
      using set_takeWhileD [OF that] by simp
    ultimately show ?thesis unfolding t d using pre by auto
  next
    case False
    then have eq: "l_start (lset ?c) = l_start ld" using le by simp
    have k: "k = ip" unfolding k_def adj_insert_pos_def dr using \<open>ip \<noteq> 0\<close> False by simp
    have t: "take k ls = ?pre @ [?c]" and d: "drop k ls = ?suf"
      using k p \<open>ip \<noteq> 0\<close> take_Suc_conv_app_nth [of "ip - 1" ls] by (auto simp: pos_ok_def)
    show ?thesis unfolding t d using pre eq locks_ok_middle(3) [OF okc] by (auto simp: before_ok_def)
  qed
qed


text \<open>How each kind of edit moves the loop on.\<close>

lemma scan_okD:
  assumes "scan_ok ld ip pre (f # suf)"
  shows "locks_ok (pre @ f # suf)" and "l_start ld \<le> l_end ld" and "good_lock (lset f)"
    and "\<And>x. x \<in> set pre \<Longrightarrow> owner (lset x) = owner ld \<Longrightarrow> sep (lset x) ld"
    and "\<And>x. x \<in> set pre \<Longrightarrow> before_ok x f"
    and "\<And>x. x \<in> set suf \<Longrightarrow> before_ok f x"
    and "l_type ld \<noteq> F_UNLCK \<Longrightarrow> pos_ok ld ip (pre @ f # suf)"
  using assms locks_ok_middle [of pre f suf] by (auto simp: scan_ok_def list_all_iff)

lemma scan_advance:
  assumes "scan_ok ld ip pre (f # suf)" and "owner (lset f) = owner ld \<longrightarrow> sep (lset f) ld"
  shows "scan_ok ld ip (pre @ [f]) suf"
  using assms by (simp add: scan_ok_def)

lemma scan_advance_to:
  assumes "scan_ok ld ip pre (f # suf)" and "owner (lset f) = owner ld \<longrightarrow> sep (lset f) ld"
    and "l_start (lset f) \<le> l_start ld"
  shows "scan_ok ld (length pre + 1) (pre @ [f]) suf"
  using assms pos_ok_at [of f ld pre suf] by (simp add: scan_ok_def)

lemma scan_drop_before:
  assumes "scan_ok ld ip pre (f # suf)" and "l_start ld < l_start (lset f)"
  shows "scan_ok ld ip pre suf"
  using scan_okD [OF assms(1)] assms locks_ok_drop [of pre f suf] pos_ok_drop [of ld ip pre f suf]
  by (auto simp: scan_ok_def)

lemma scan_drop_start:
  assumes "scan_ok ld ip pre (f # suf)" and "l_start (lset f) = l_start ld"
  shows "scan_ok ld (length pre) pre suf"
  using scan_okD [OF assms(1)] assms locks_ok_drop [of pre f suf] pos_ok_prev [of pre f suf ld]
  by (auto simp: scan_ok_def)

lemma scan_merge:
  assumes "scan_ok ld ip pre (f # suf)" and "owner (lset f) = owner ld" and "l_type ld = l_type (lset f)"
    and "l_start (lset f) < l_start ld"
  shows "scan_ok (ld\<lparr>l_start := l_start (lset f)\<rparr>) (length pre) pre suf"
proof -
  note d = scan_okD [OF assms(1)]
  have "sep (lset x) (ld\<lparr>l_start := l_start (lset f)\<rparr>)" if "x \<in> set pre" "owner (lset x) = owner ld" for x
    using d(5) [OF that(1)] that(2) assms(2,3) by (auto simp: before_ok_def sep_def)
  then show ?thesis
    using d(1,2) assms(4) locks_ok_drop [OF d(1)] pos_ok_prev [OF d(1), of "ld\<lparr>l_start := l_start (lset f)\<rparr>"]
    by (auto simp: scan_ok_def list_all_iff)
qed

lemma scan_shrink:
  assumes "scan_ok ld ip pre (f # suf)" and "lset g = (lset f)\<lparr>l_len := l_start ld - 1\<rparr>"
    and "l_type ld \<noteq> l_type (lset f)" and "l_start (lset f) < l_start ld" and "l_start ld \<le> l_end (lset f)"
  shows "scan_ok ld (length pre + 1) (pre @ [g]) suf"
proof -
  note d = scan_okD [OF assms(1)]
  have "locks_ok (pre @ g # suf)" using locks_ok_shrink [OF d(1) assms(2)] assms(4,5) by simp
  then show ?thesis
    using d(2,4) assms pos_ok_at [of g ld pre suf] by (auto simp: scan_ok_def sep_def list_all_iff)
qed

text \<open>How the loop ends: the locks after the current one start after the request ends.\<close>

lemma end_okI:
  assumes "locks_ok (pre @ suf)" and "l_start ld \<le> l_end ld"
    and "\<And>x. x \<in> set pre \<Longrightarrow> owner (lset x) = owner ld \<Longrightarrow> sep (lset x) ld"
    and "\<And>x. x \<in> set suf \<Longrightarrow> owner (lset x) = owner ld \<Longrightarrow> sep ld (lset x)"
    and "l_type ld \<noteq> F_UNLCK \<Longrightarrow> pos_ok ld ip (pre @ suf)"
  shows "end_ok ld ip (pre @ suf)"
  using assms by (auto simp: end_ok_def list_all_iff)

lemma end_stop:
  assumes "scan_ok ld ip pre (f # suf)" and "owner (lset f) = owner ld" and "sep ld (lset f)"
    and "l_start ld < l_start (lset f)"
  shows "end_ok ld ip (pre @ f # suf)"
proof (rule end_okI)
  note d = scan_okD [OF assms(1)]
  show "sep ld (lset x)" if "x \<in> set (f # suf)" "owner (lset x) = owner ld" for x
    using that d(3) d(6) [of x] assms(2,3) by (auto simp: before_ok_def sep_def good_lock_def)
qed (use scan_okD [OF assms(1)] in auto)

lemma end_join:
  assumes "scan_ok ld ip pre (f # suf)" and "owner (lset f) = owner ld" and "l_type ld = l_type (lset f)"
    and "l_start ld < l_start (lset f)" and "ld' = ld\<lparr>l_len := l_end (lset f)\<rparr>"
  shows "end_ok ld' ip (pre @ suf)"
proof (rule end_okI)
  note d = scan_okD [OF assms(1)]
  show "sep ld' (lset x)" if "x \<in> set suf" "owner (lset x) = owner ld'" for x
    using that d(6) [of x] assms(2,3,5) by (auto simp: before_ok_def sep_def)
  show "sep (lset x) ld'" if "x \<in> set pre" "owner (lset x) = owner ld'" for x
    using that d(4) [of x] assms(5) by (auto simp: sep_def)
  show "l_start ld' \<le> l_end ld'" using assms(4,5) d(3) by (simp add: good_lock_def)
  show "pos_ok ld' ip (pre @ suf)" if "l_type ld' \<noteq> F_UNLCK"
    using pos_ok_drop [OF d(7) assms(4) d(1)] that assms(5) by simp
qed (use locks_ok_drop scan_okD(1) [OF assms(1)] in auto)

lemma end_drop:
  assumes "scan_ok ld ip pre (f # suf)" and "owner (lset f) = owner ld" and "l_type ld = l_type (lset f)"
    and "l_start ld < l_start (lset f)" and "l_end ld = l_end (lset f)"
  shows "end_ok ld ip (pre @ suf)"
  using end_join [OF assms(1-4), of ld] assms(5) by simp



text \<open>The piece after the end of the request.\<close>

lemma new_lockD:
  assumes "new_lock ld st = Some (n, st')"
  shows "lset n = ld" and "wakeflg n = 0" and "lck_id n = next_id st"
    and "st' = st\<lparr>kmem_n := kmem_n st + 1, reccnt := reccnt st + 1, rectot := rectot st + 1, next_id := next_id st + 1\<rparr>"
    and "reccnt st < t_flckrec st"
  using assms by (auto simp: new_lock_def Let_def split: if_splits)

lemma adj_pieceD:
  assumes "adj_piece ld f suf st = Some (suf', st')"
  defines "before \<equiv> \<lambda>x. l_start (lset x) < l_start ((lset f)\<lparr>l_start := l_end ld + 1\<rparr>)"
  shows "\<exists>n. lset n = (lset f)\<lparr>l_start := l_end ld + 1\<rparr> \<and>
    new_lock ((lset f)\<lparr>l_start := l_end ld + 1\<rparr>) st = Some (n, st') \<and>
    suf' = (if l_start (lset f) \<le> l_end ld then takeWhile before suf @ n # dropWhile before suf else n # suf)"
proof (cases "new_lock ((lset f)\<lparr>l_start := l_end ld + 1\<rparr>) st")
  case None
  then show ?thesis using assms(1) by (simp add: adj_piece_def)
next
  case (Some p)
  obtain n s1 where p: "p = (n, s1)" by (cases p)
  have "l_start (lset f) \<le> l_end ld \<longleftrightarrow> before f" by (auto simp: before_def)
  then show ?thesis
    using assms(1) Some p new_lockD(1) [of _ st n s1] by (auto simp: adj_piece_def before_def Let_def)
qed

lemma piece_place:
  assumes "scan_ok ld ip pre (f # suf)" and "owner (lset f) = owner ld"
    and "l_start (lset f) \<le> l_end ld" and "l_end ld < l_end (lset f)"
    and "adj_piece ld f suf st = Some (suf', st')"
  obtains n xs ys where "suf = xs @ ys" "suf' = xs @ n # ys" "lset n = (lset f)\<lparr>l_start := l_end ld + 1\<rparr>"
    "\<And>x. x \<in> set xs \<Longrightarrow> l_start (lset x) \<le> l_start (lset n)"
    "\<And>y. y \<in> set ys \<Longrightarrow> l_start (lset n) \<le> l_start (lset y)"
    "\<And>z. z \<in> set pre \<Longrightarrow> owner (lset z) = owner (lset n) \<Longrightarrow> sep (lset z) (lset n)"
    "\<And>z. z \<in> set suf \<Longrightarrow> owner (lset z) = owner (lset n) \<Longrightarrow> sep (lset n) (lset z)"
    "good_lock (lset n)"
proof -
  note d = scan_okD [OF assms(1)]
  let ?td = "(lset f)\<lparr>l_start := l_end ld + 1\<rparr>"
  let ?P = "\<lambda>x. l_start (lset x) < l_start ?td"
  obtain n where n: "lset n = ?td" "suf' = takeWhile ?P suf @ n # dropWhile ?P suf"
    using adj_pieceD [OF assms(5)] assms(3) by auto
  have srt: "sorted_wrt before_ok suf" using d(1) by (simp add: locks_ok_def sorted_wrt_append)
  show thesis
  proof (rule that [of "takeWhile ?P suf" "dropWhile ?P suf" n])
    show "l_start (lset x) \<le> l_start (lset n)" if "x \<in> set (takeWhile ?P suf)" for x
      using set_takeWhileD [OF that] n(1) by simp
    show "l_start (lset n) \<le> l_start (lset y)" if "y \<in> set (dropWhile ?P suf)" for y
      using dropWhile_start [OF srt that] n(1) by simp
    show "sep (lset z) (lset n)" if "z \<in> set pre" "owner (lset z) = owner (lset n)" for z
      using d(5) [OF that(1)] that(2) n(1) assms(3) by (auto simp: before_ok_def sep_def)
    show "sep (lset n) (lset z)" if "z \<in> set suf" "owner (lset z) = owner (lset n)" for z
      using d(6) [OF that(1)] that(2) n(1) by (auto simp: before_ok_def sep_def)
    show "good_lock (lset n)" using d(3) n(1) assms(4) by (simp add: good_lock_def)
  qed (use n in simp_all)
qed

lemma end_piece:
  assumes sc: "scan_ok ld ip pre (f # suf)" and own: "owner (lset f) = owner ld"
    and ty: "l_type ld \<noteq> l_type (lset f)"
    and r: "l_start (lset f) \<le> l_end ld" "l_end ld < l_end (lset f)"
    and s: "l_start ld \<le> l_start (lset f)"
    and p: "adj_piece ld f suf st = Some (suf', st')"
    and ip: "ip' = (if l_start (lset f) = l_start ld then length pre else ip)"
  shows "end_ok ld ip' (pre @ suf') \<and> adj_keeps ld (pre @ f # suf) ld (pre @ suf')"
proof -
  note d = scan_okD [OF sc]
  obtain n xs ys where w: "suf = xs @ ys" "suf' = xs @ n # ys" "lset n = (lset f)\<lparr>l_start := l_end ld + 1\<rparr>"
    "\<And>x. x \<in> set xs \<Longrightarrow> l_start (lset x) \<le> l_start (lset n)"
    "\<And>y. y \<in> set ys \<Longrightarrow> l_start (lset n) \<le> l_start (lset y)"
    "\<And>z. z \<in> set pre \<Longrightarrow> owner (lset z) = owner (lset n) \<Longrightarrow> sep (lset z) (lset n)"
    "\<And>z. z \<in> set suf \<Longrightarrow> owner (lset z) = owner (lset n) \<Longrightarrow> sep (lset n) (lset z)"
    "good_lock (lset n)"
    by (rule piece_place [OF sc own r p]) (rule that)
  have "locks_ok ((pre @ xs) @ ys)" using locks_ok_drop [OF d(1)] w(1) by simp
  then have ok: "locks_ok ((pre @ xs) @ n # ys)"
  proof (rule locks_ok_insert [OF _ w(8)])
    show "l_start (lset x) \<le> l_start (lset n)" if "x \<in> set (pre @ xs)" for x
      using that w(4) d(5) [of x] w(3) r(1) by (auto simp: before_ok_def)
    show "l_start (lset n) \<le> l_start (lset y)" if "y \<in> set ys" for y by (rule w(5) [OF that])
    show "sep (lset z) (lset n) \<or> sep (lset n) (lset z)"
      if "z \<in> set ((pre @ xs) @ ys)" "owner (lset z) = owner (lset n)" for z
      using that w(1,6,7) by auto
  qed
  have pos: "pos_ok ld ip' (pre @ xs @ n # ys)" if u: "l_type ld \<noteq> F_UNLCK"
  proof (cases "l_start (lset f) = l_start ld")
    case True
    have "pos_ok ld (length pre) (pre @ xs @ ys)" using pos_ok_prev [OF d(1) True] w(1) by simp
    then show ?thesis using pos_ok_insert [of ld "length pre" pre xs ys n] True ip w(3) d(2) by simp
  next
    case False
    then have lt: "l_start ld < l_start (lset f)" using s by simp
    have "pos_ok ld ip (pre @ xs @ ys)" using pos_ok_drop [OF d(7) [OF u] lt d(1)] w(1) by simp
    moreover have "ip \<le> length pre" by (rule pos_ok_before [OF d(7) [OF u] lt d(1)])
    ultimately show ?thesis using pos_ok_insert [of ld ip pre xs ys n] False ip w(3) d(2) by simp
  qed
  have "end_ok ld ip' (pre @ (xs @ n # ys))"
  proof (rule end_okI)
    show "sep ld (lset x)" if "x \<in> set (xs @ n # ys)" "owner (lset x) = owner ld" for x
      using that w(1,3) ty d(6) [of x] own r(2) by (auto simp: before_ok_def sep_def)
    show "locks_ok (pre @ xs @ n # ys)" using ok by simp
    show "pos_ok ld ip' (pre @ xs @ n # ys)" if "l_type ld \<noteq> F_UNLCK" by (rule pos [OF that])
  qed (use d(2,4) in simp_all)
  then show ?thesis using adj_keeps_piece [OF own w(3) r s] w(1,2) by simp
qed

lemma end_split:
  assumes sc: "scan_ok ld ip pre (f # suf)" and own: "owner (lset f) = owner ld"
    and ty: "l_type ld \<noteq> l_type (lset f)"
    and r: "l_start (lset f) < l_start ld" "l_end ld < l_end (lset f)"
    and p: "adj_piece ld f suf st = Some (suf', st')" and g: "lset g = (lset f)\<lparr>l_len := l_start ld - 1\<rparr>"
  shows "end_ok ld (length pre + 1) (pre @ g # suf') \<and> adj_keeps ld (pre @ f # suf) ld (pre @ g # suf')"
proof -
  note d = scan_okD [OF sc]
  have fe: "l_start (lset f) \<le> l_end ld" using r(1) d(2) by simp
  obtain n xs ys where w: "suf = xs @ ys" "suf' = xs @ n # ys" "lset n = (lset f)\<lparr>l_start := l_end ld + 1\<rparr>"
    "\<And>x. x \<in> set xs \<Longrightarrow> l_start (lset x) \<le> l_start (lset n)"
    "\<And>y. y \<in> set ys \<Longrightarrow> l_start (lset n) \<le> l_start (lset y)"
    "\<And>z. z \<in> set pre \<Longrightarrow> owner (lset z) = owner (lset n) \<Longrightarrow> sep (lset z) (lset n)"
    "\<And>z. z \<in> set suf \<Longrightarrow> owner (lset z) = owner (lset n) \<Longrightarrow> sep (lset n) (lset z)"
    "good_lock (lset n)"
    by (rule piece_place [OF sc own fe r(2) p]) (rule that)
  have gn: "sep (lset g) (lset n)" using g w(3) d(2) by (auto simp: sep_def)
  have "locks_ok (pre @ g # suf)" using locks_ok_shrink [OF d(1) g] r d(2) by simp
  then have "locks_ok ((pre @ g # xs) @ ys)" using w(1) by simp
  then have ok: "locks_ok ((pre @ g # xs) @ n # ys)"
  proof (rule locks_ok_insert [OF _ w(8)])
    show "l_start (lset x) \<le> l_start (lset n)" if "x \<in> set (pre @ g # xs)" for x
      using that w(4) d(5) [of x] w(3) fe g by (auto simp: before_ok_def)
    show "sep (lset z) (lset n) \<or> sep (lset n) (lset z)"
      if "z \<in> set ((pre @ g # xs) @ ys)" "owner (lset z) = owner (lset n)" for z
      using that w(1,6,7) gn by auto
  qed (use w in auto)
  have "end_ok ld (length pre + 1) ((pre @ [g]) @ (xs @ n # ys))"
  proof (rule end_okI)
    show "sep ld (lset x)" if "x \<in> set (xs @ n # ys)" "owner (lset x) = owner ld" for x
      using that w(1,3) ty d(6) [of x] own r(2) by (auto simp: before_ok_def sep_def)
    show "sep (lset x) ld" if "x \<in> set (pre @ [g])" "owner (lset x) = owner ld" for x
      using that d(4) ty g by (auto simp: sep_def)
    show "pos_ok ld (length pre + 1) ((pre @ [g]) @ (xs @ n # ys))"
      using pos_ok_at [of g ld pre "xs @ n # ys"] g r(1) by simp
  qed (use ok d in auto)
  then show ?thesis using adj_keeps_split [OF own w(3) g r(1) d(2) r(2)] w(1,2) by simp
qed


text \<open>The loop as a whole.\<close>

definition scan_post :: "flock \<Rightarrow> filock list \<Rightarrow> adj_res \<Rightarrow> bool" where
  "scan_post ld ls r \<longleftrightarrow>
     (case r of
        AdjRet e ld' ls' st' \<Rightarrow> locks_ok ls' \<and> adj_keeps ld ls ld' ls' \<and>
          (case e of
             None \<Rightarrow> (\<forall>u t b. after_lock ld' ls' u t b = holds_lock ls' u t b)
           | Some err \<Rightarrow> err = ENOLCK)
      | AdjEnd ld' ip' ls' st' \<Rightarrow> end_ok ld' ip' ls' \<and> adj_keeps ld ls ld' ls')"

lemma scan_post_step: "adj_keeps ld ls ld1 ls1 \<Longrightarrow> scan_post ld1 ls1 r \<Longrightarrow> scan_post ld ls r"
  by (auto simp: scan_post_def split: adj_res.splits option.splits intro: adj_keeps_trans)

lemma scan_post_covered:
  assumes "locks_ok (pre @ f # suf)" and "owner (lset f) = owner ld" and "l_type ld = l_type (lset f)"
    and "l_start (lset f) \<le> l_start ld" and "l_end ld \<le> l_end (lset f)"
  shows "scan_post ld (pre @ f # suf) (AdjRet None ld (pre @ f # suf) st)"
proof -
  have "after_lock ld (pre @ f # suf) u t b = holds_lock (pre @ f # suf) u t b" for u t b
    using own_only [OF assms(1), of b u t] assms(2-5) by (auto simp: after_lock_def covers_def)
  then show ?thesis using assms(1) by (simp add: scan_post_def)
qed

lemma scan_post_noent: "locks_ok ls \<Longrightarrow> scan_post ld ls (AdjRet (Some ENOLCK) ld ls st)"
  by (simp add: scan_post_def)

lemma scan_post_end: "end_ok ld' ip ls' \<Longrightarrow> adj_keeps ld ls ld' ls' \<Longrightarrow> scan_post ld ls (AdjEnd ld' ip ls' st)"
  by (simp add: scan_post_def)

lemma wakeup_lset [simp]: "lset (fst (wakeup f st)) = lset f"
  by (simp add: wakeup_def)

lemma in_region_impossible:
  assumes "in_region ld f (s, e)" and "l_start ld \<le> l_end ld" and "good_lock f"
  shows "s = S_END \<or> s = S_AFTER \<Longrightarrow> e = E_AFTER" and "e = E_BEFORE \<or> e = E_START \<Longrightarrow> s = S_BEFORE"
  using assms by (auto simp: in_region_def)

lemma adj_scan_own:
  assumes sc: "scan_ok ld ip pre (f # suf)" and own: "owner (lset f) = owner ld"
    and r: "regflck ld f = (s, e)"
    and IH: "\<And>ld' ip' g st'. scan_ok ld' ip' (pre @ g) suf \<Longrightarrow>
      scan_post ld' ((pre @ g) @ suf) (adj_scan ld' ip' (pre @ g) suf st')"
  shows "scan_post ld (pre @ f # suf) (adj_scan ld ip pre (f # suf) st)"
proof -
  note d = scan_okD [OF sc]
  have reg: "in_region ld (lset f) (s, e)" using regflck_region [OF d(2,3)] r by simp
  have own': "sameowner (lset f) ld" using own by (simp add: sameowner_iff)
  have ne: "l_start (lset f) \<le> l_end (lset f)" using d(3) by (simp add: good_lock_def)
  let ?L = "pre @ f # suf"
  let ?g = "fst (wakeup (f\<lparr>lset := (lset f)\<lparr>l_len := l_start ld - 1\<rparr>\<rparr>) st)"
  have drop: "scan_post ld ?L (adj_scan ld ip' pre suf st')"
    if "scan_ok ld ip' pre suf" "l_start ld \<le> l_start (lset f)" "l_end (lset f) \<le> l_end ld" for ip' st'
    using scan_post_step [OF adj_keeps_drop [OF own that(2,3)] IH [of ld ip' "[]" st', simplified, OF that(1)]] .
  have pass: "scan_post ld ?L (adj_scan ld ip' (pre @ [f]) suf st')"
    if "scan_ok ld ip' (pre @ [f]) suf" for ip' st'
    using IH [of ld ip' "[f]" st', OF that] by simp
  have merge: "scan_post ld ?L (adj_scan (ld\<lparr>l_start := l_start (lset f)\<rparr>) (length pre) pre suf (drop_lock f st))"
    if "l_type ld = l_type (lset f)" "l_start (lset f) < l_start ld" "l_start ld \<le> l_end (lset f) + 1"
      "l_end (lset f) \<le> l_end ld"
  proof (rule scan_post_step)
    show "adj_keeps ld ?L (ld\<lparr>l_start := l_start (lset f)\<rparr>) (pre @ suf)"
      by (rule adj_keeps_merge [OF d(1) own that(1)]) (use that in \<open>auto simp: covers_def\<close>)
  qed (use IH [of _ _ "[]", simplified, OF scan_merge [OF sc own that(1,2)]] in simp)
  have join: "scan_post ld ?L (AdjEnd (ld\<lparr>l_len := l_end (lset f)\<rparr>) ip (pre @ suf) (drop_lock f st))"
    if "l_type ld = l_type (lset f)" "l_start ld < l_start (lset f)" "l_start (lset f) \<le> l_end ld + 1"
      "l_end ld \<le> l_end (lset f)"
  proof (rule scan_post_end [OF end_join [OF sc own that(1,2) refl]])
    show "adj_keeps ld ?L (ld\<lparr>l_len := l_end (lset f)\<rparr>) (pre @ suf)"
      by (rule adj_keeps_merge [OF d(1) own that(1)]) (use that ne in \<open>auto simp: covers_def\<close>)
  qed
  have shrink: "scan_post ld ?L (adj_scan ld (length pre + 1) (pre @ [?g]) suf st')"
    if "l_type ld \<noteq> l_type (lset f)" "l_start (lset f) < l_start ld" "l_start ld \<le> l_end (lset f)"
      "l_end (lset f) \<le> l_end ld" for st'
  proof -
    have g: "lset ?g = (lset f)\<lparr>l_len := l_start ld - 1\<rparr>" by simp
    show ?thesis
      using scan_post_step [OF adj_keeps_shrink [OF own g that(3,4)], of pre suf]
        IH [OF scan_shrink [OF sc g that(1-3)], of st'] by simp
  qed
  have after: "scan_ok ld ip (pre @ [f]) suf" if "l_type ld \<noteq> l_type (lset f)" "l_end (lset f) < l_start ld"
    using scan_advance [OF sc] that by (simp add: sep_def)
  show ?thesis
  proof (cases s)
    case S_BEFORE
    then have lt: "l_start ld < l_start (lset f)" using reg by (simp add: in_region_def)
    have sk: "scan_ok ld ip pre suf" by (rule scan_drop_before [OF sc lt])
    show ?thesis
    proof (cases e)
      case E_BEFORE
      then have "sep ld (lset f)" using reg by (simp add: in_region_def sep_def)
      then show ?thesis using scan_post_end [OF end_stop [OF sc own _ lt] adj_keeps_refl] r S_BEFORE E_BEFORE own' by simp
    next
      case E_START
      then have e1: "l_end ld = l_start (lset f) - 1" using reg by (simp add: in_region_def)
      show ?thesis
      proof (cases "l_type ld = l_type (lset f)")
        case True then show ?thesis using join e1 ne lt r S_BEFORE E_START own' by simp
      next
        case False
        then have "sep ld (lset f)" using e1 by (simp add: sep_def)
        then show ?thesis
          using scan_post_end [OF end_stop [OF sc own _ lt] adj_keeps_refl] r S_BEFORE E_START own' False by simp
      qed
    next
      case E_MIDDLE
      then have e1: "l_start (lset f) \<le> l_end ld" "l_end ld < l_end (lset f)" using reg by (simp_all add: in_region_def)
      show ?thesis
      proof (cases "l_type ld = l_type (lset f)")
        case True then show ?thesis using join e1 lt r S_BEFORE E_MIDDLE own' by simp
      next
        case False
        then show ?thesis
          using scan_post_noent [OF d(1)] end_piece [OF sc own False e1] lt
            scan_post_end r S_BEFORE E_MIDDLE own' by (auto split: option.split)
      qed
    next
      case E_END
      then have e1: "l_end ld = l_end (lset f)" using reg by (simp add: in_region_def)
      show ?thesis
      proof (cases "l_type ld = l_type (lset f)")
        case True
        show ?thesis
          using scan_post_end [OF end_drop [OF sc own True lt e1] adj_keeps_drop [OF own]] lt e1 True
            r S_BEFORE E_END own' by simp
      next
        case False then show ?thesis using drop [OF sk] lt e1 r S_BEFORE E_END own' by simp
      qed
    next
      case E_AFTER
      then show ?thesis using drop [OF sk] lt reg r S_BEFORE own' by (simp add: in_region_def)
    qed
  next
    case S_START
    then have eq: "l_start (lset f) = l_start ld" using reg by (simp add: in_region_def)
    have sk: "scan_ok ld (length pre) pre suf" by (rule scan_drop_start [OF sc eq])
    show ?thesis
    proof (cases e)
      case E_BEFORE then show ?thesis using in_region_impossible [OF reg d(2,3)] S_START by simp
    next
      case E_START then show ?thesis using in_region_impossible [OF reg d(2,3)] S_START by simp
    next
      case E_MIDDLE
      then have e1: "l_start (lset f) \<le> l_end ld" "l_end ld < l_end (lset f)" using reg by (simp_all add: in_region_def)
      show ?thesis
      proof (cases "l_type ld = l_type (lset f)")
        case True
        then show ?thesis using scan_post_covered [OF d(1) own True] eq e1 r S_START E_MIDDLE own' by simp
      next
        case False
        then show ?thesis
          using scan_post_noent [OF d(1)] end_piece [OF sc own False e1] eq
            scan_post_end r S_START E_MIDDLE own' by (auto split: option.split)
      qed
    next
      case E_END
      then have e1: "l_end ld = l_end (lset f)" using reg by (simp add: in_region_def)
      show ?thesis
        using scan_post_covered [OF d(1) own] drop [OF sk] eq e1 r S_START E_END own' by simp
    next
      case E_AFTER
      then show ?thesis using drop [OF sk] eq reg r S_START own' by (simp add: in_region_def)
    qed
  next
    case S_MIDDLE
    then have m: "l_start (lset f) < l_start ld" "l_start ld \<le> l_end (lset f)" using reg by (simp_all add: in_region_def)
    show ?thesis
    proof (cases e)
      case E_BEFORE then show ?thesis using in_region_impossible [OF reg d(2,3)] S_MIDDLE by simp
    next
      case E_START then show ?thesis using in_region_impossible [OF reg d(2,3)] S_MIDDLE by simp
    next
      case E_MIDDLE
      then have e1: "l_end ld < l_end (lset f)" using reg by (simp add: in_region_def)
      show ?thesis
      proof (cases "l_type ld = l_type (lset f)")
        case True
        then show ?thesis using scan_post_covered [OF d(1) own True] m e1 r S_MIDDLE E_MIDDLE own' by simp
      next
        case False
        have "scan_post ld ?L (AdjEnd ld (length pre + 1) (pre @ fst (wakeup (f\<lparr>lset := (lset f)\<lparr>l_len := l_start ld - 1\<rparr>\<rparr>) st') # suf') st'')"
          if "adj_piece ld f suf st = Some (suf', st')" for suf' st' st''
          using end_split [OF sc own False m(1) e1 that, of "fst (wakeup (f\<lparr>lset := (lset f)\<lparr>l_len := l_start ld - 1\<rparr>\<rparr>) st')"]
            scan_post_end by simp
        then show ?thesis
          using scan_post_noent [OF d(1)] False r S_MIDDLE E_MIDDLE own' by (simp split: option.split prod.split) (metis fst_conv)
      qed
    next
      case E_END
      then have e1: "l_end ld = l_end (lset f)" using reg by (simp add: in_region_def)
      show ?thesis
        using scan_post_covered [OF d(1) own] shrink m e1 r S_MIDDLE E_END own' by (simp add: Let_def)
    next
      case E_AFTER
      then have e1: "l_end (lset f) < l_end ld" using reg by (simp add: in_region_def)
      show ?thesis using merge shrink m e1 r S_MIDDLE E_AFTER own' by (simp add: Let_def)
    qed
  next
    case S_END
    then have e: "e = E_AFTER" "l_start ld = l_end (lset f) + 1" using reg by (simp_all add: in_region_def)
    show ?thesis
    proof (cases "l_type ld = l_type (lset f)")
      case True then show ?thesis using merge e ne d(2) r S_END own' by simp
    next
      case False then show ?thesis using pass [OF after] e r S_END own' by simp
    qed
  next
    case S_AFTER
    then have e: "e = E_AFTER" "l_end (lset f) + 1 < l_start ld" using reg by (simp_all add: in_region_def)
    then have "scan_ok ld (length pre + 1) (pre @ [f]) suf"
      using scan_advance_to [OF sc] ne by (simp add: sep_def)
    then show ?thesis using pass e(1) r S_AFTER own' by simp
  qed
qed

lemma adj_scan_spec:
  "scan_ok ld ip pre suf \<Longrightarrow> scan_post ld (pre @ suf) (adj_scan ld ip pre suf st)"
proof (induction suf arbitrary: ld ip pre st)
  case Nil
  then have "end_ok ld ip (pre @ [])" by (intro end_okI) (auto simp: scan_ok_def list_all_iff)
  then show ?case by (simp add: scan_post_def)
next
  case (Cons f suf)
  show ?case
  proof (cases "owner (lset f) = owner ld")
    case True
    show ?thesis
      by (rule adj_scan_own [OF Cons.prems True prod.collapse [symmetric]]) (rule Cons.IH)
  next
    case False
    then show ?thesis
      using Cons.IH [OF scan_advance [OF Cons.prems], of st] by (simp add: sameowner_iff)
  qed
qed


section \<open>The whole adjustment\<close>

text \<open>What a call of \<open>flckadj\<close> leaves of the list it is given.\<close>

definition adjusted :: "errno option \<Rightarrow> flock \<Rightarrow> filock list \<Rightarrow> filock list \<Rightarrow> bool" where
  "adjusted e ld ls ls' \<longleftrightarrow> locks_ok ls' \<and>
     (\<forall>u t b. u \<noteq> owner ld \<longrightarrow> holds_lock ls' u t b = holds_lock ls u t b) \<and>
     (case e of
        None \<Rightarrow> \<forall>u t b. holds_lock ls' u t b \<longleftrightarrow>
          (if u = owner ld \<and> covers ld b then t = l_type ld \<and> t \<noteq> F_UNLCK else holds_lock ls u t b)
      | Some err \<Rightarrow> err = ENOLCK \<and> (\<forall>u t b. holds_lock ls' u t b \<longrightarrow> holds_lock ls u t b))"

lemma adj_keeps_others:
  assumes "adj_keeps ld ls ld' ls'" and "u \<noteq> owner ld"
  shows "holds_lock ls' u t b = holds_lock ls u t b"
  using assms unfolding adj_keeps_def after_lock_def by metis

lemma adj_keeps_own:
  assumes "adj_keeps ld ls ld' ls'" and "\<And>u t b. after_lock ld' ls' u t b \<Longrightarrow> t \<noteq> F_UNLCK \<Longrightarrow> holds_lock ls2 u t b"
    and "\<And>u t b. holds_lock ls2 u t b \<Longrightarrow> t \<noteq> F_UNLCK \<and> after_lock ld' ls' u t b"
    and "locks_ok ls"
  shows "holds_lock ls2 u t b \<longleftrightarrow>
    (if u = owner ld \<and> covers ld b then t = l_type ld \<and> t \<noteq> F_UNLCK else holds_lock ls u t b)"
proof -
  have "t \<noteq> F_UNLCK" if "holds_lock ls u t b"
    using that assms(4) by (auto simp: holds_lock_def locks_ok_def list_all_iff good_lock_def F_UNLCK_def F_RDLCK_def F_WRLCK_def)
  moreover have "after_lock ld' ls' u t b = after_lock ld ls u t b" using assms(1) unfolding adj_keeps_def by blast
  ultimately show ?thesis using assms(2) [of u t b] assms(3) [of u t b] by (auto simp: after_lock_def split: if_splits)
qed

lemma holds_type:
  assumes "locks_ok ls" and "holds_lock ls u t b"
  shows "t = F_RDLCK \<or> t = F_WRLCK"
  using assms by (auto simp: holds_lock_def locks_ok_def list_all_iff good_lock_def)

lemmas lock_types = F_RDLCK_def F_WRLCK_def F_UNLCK_def

lemma holds_not_unlck: "locks_ok ls \<Longrightarrow> holds_lock ls u t b \<Longrightarrow> t \<noteq> F_UNLCK"
  using holds_type [of ls u t b] by (auto simp: lock_types)

text \<open>The end of the loop: the insertion, and the unlock that inserts nothing.\<close>

lemma insert_ok:
  assumes en: "end_ok ld ip ls" and ty: "l_type ld = F_RDLCK \<or> l_type ld = F_WRLCK"
    and n: "lset n = ld"
  defines "k \<equiv> adj_insert_pos ld ip ls"
  shows "locks_ok (take k ls @ n # drop k ls)"
proof (rule locks_ok_insert)
  have ok: "locks_ok ls" and p: "pos_ok ld ip ls" using en ty by (auto simp: end_ok_def lock_types)
  note sp = insert_split [OF ok p, folded k_def]
  show "locks_ok (take k ls @ drop k ls)" using ok by simp
  show "good_lock (lset n)" using en ty n by (simp add: end_ok_def good_lock_def)
  show "l_start (lset x) \<le> l_start (lset n)" if "x \<in> set (take k ls)" for x using sp n that by blast
  show "l_start (lset n) \<le> l_start (lset y)" if "y \<in> set (drop k ls)" for y using sp n that by blast
  show "sep (lset z) (lset n) \<or> sep (lset n) (lset z)"
    if "z \<in> set (take k ls @ drop k ls)" "owner (lset z) = owner (lset n)" for z
    using en n that by (simp add: end_ok_def list_all_iff)
qed

lemma end_apart:
  assumes "end_ok ld ip ls" and "covers ld b"
  shows "\<not> holds_lock ls (owner ld) t b"
  using assms by (auto simp: end_ok_def holds_lock_def list_all_iff sep_def covers_def)

lemma after_inserted:
  assumes "end_ok ld ip ls" and "lset n = ld" and "l_type ld \<noteq> F_UNLCK"
  shows "holds_lock (take k ls @ n # drop k ls) u t b = after_lock ld ls u t b"
proof -
  have h: "holds_lock ls u t b = (holds_lock (take k ls) u t b \<or> holds_lock (drop k ls) u t b)"
    using holds_lock_append [of "take k ls" "drop k ls" u t b] by simp
  show ?thesis using end_apart [OF assms(1), of b t] assms(2) h by (auto simp: after_lock_def)
qed

lemma flckadj_spec:
  assumes sc: "scan_ok ld ip (take (ip - 1) ls) (drop (ip - 1) ls)"
    and ty: "l_type ld = F_RDLCK \<or> l_type ld = F_WRLCK \<or> l_type ld = F_UNLCK"
    and r: "flckadj ls ip ld st = (e, ld', ls', st')"
  shows "adjusted e ld ls ls'"
proof -
  let ?r = "adj_scan ld ip (take (ip - 1) ls) (drop (ip - 1) ls) st"
  have ok: "locks_ok ls" using sc by (simp add: scan_ok_def)
  have post: "scan_post ld ls ?r" using adj_scan_spec [OF sc, of st] by simp
  show ?thesis
  proof (cases ?r)
    case (AdjRet e1 ld1 ls1 st1)
    then have [simp]: "e1 = e" "ls1 = ls'" "ld1 = ld'" using r by (simp_all add: flckadj_def)
    have k: "locks_ok ls'" "adj_keeps ld ls ld' ls'"
      and c: "case e of None \<Rightarrow> \<forall>u t b. after_lock ld' ls' u t b = holds_lock ls' u t b | Some err \<Rightarrow> err = ENOLCK"
      using post AdjRet by (simp_all add: scan_post_def)
    show ?thesis
    proof (cases e)
      case None
      have "holds_lock ls' u t b \<longleftrightarrow>
        (if u = owner ld \<and> covers ld b then t = l_type ld \<and> t \<noteq> F_UNLCK else holds_lock ls u t b)" for u t b
        by (rule adj_keeps_own [OF k(2) _ _ ok]) (use c None holds_not_unlck [OF k(1)] in auto)
      then show ?thesis using k None by (simp add: adjusted_def)
    next
      case (Some err)
      then show ?thesis using k c adj_keeps_others [OF k(2)] by (auto simp: adjusted_def adj_keeps_def)
    qed
  next
    case (AdjEnd ld1 ip1 ls1 st1)
    have en: "end_ok ld1 ip1 ls1" and k: "adj_keeps ld ls ld1 ls1" using post AdjEnd by (simp_all add: scan_post_def)
    have ok1: "locks_ok ls1" using en by (simp add: end_ok_def)
    have ty1: "l_type ld1 = l_type ld" using k by (simp add: adj_keeps_def)
    show ?thesis
    proof (cases "l_type ld = F_UNLCK")
      case True
      then have r1: "e = None" "ls' = ls1" using r AdjEnd ty1 by (simp_all add: flckadj_def)
      have "holds_lock ls1 u t b \<longleftrightarrow>
        (if u = owner ld \<and> covers ld b then t = l_type ld \<and> t \<noteq> F_UNLCK else holds_lock ls u t b)" for u t b
        by (rule adj_keeps_own [OF k _ _ ok])
          (use end_apart [OF en] holds_not_unlck [OF ok1] True ty1 in \<open>auto simp: after_lock_def split: if_splits\<close>)
      then show ?thesis using r1 ok1 by (simp add: adjusted_def)
    next
      case False
      then have ty2: "l_type ld1 = F_RDLCK \<or> l_type ld1 = F_WRLCK" using ty ty1 by simp
      show ?thesis
      proof (cases "new_lock ld1 st1")
        case None
        then have "e = Some ENOLCK" "ls' = ls1" using r AdjEnd False ty1 by (simp_all add: flckadj_def insflck_def)
        then show ?thesis using ok1 k adj_keeps_others [OF k] by (auto simp: adjusted_def adj_keeps_def)
      next
        case (Some p)
        obtain n st2 where p: "p = (n, st2)" by (cases p)
        let ?k = "adj_insert_pos ld1 ip1 ls1"
        have n: "lset n = ld1" using new_lockD(1) Some p by blast
        have r1: "e = None" "ls' = take ?k ls1 @ n # drop ?k ls1"
          using r AdjEnd False ty1 Some p by (auto simp: flckadj_def insflck_def)
        have ok2: "locks_ok ls'" using insert_ok [OF en ty2 n] r1 by simp
        have af: "holds_lock ls' u t b = after_lock ld1 ls1 u t b" for u t b
          using after_inserted [OF en n] False ty1 r1 by simp
        have "holds_lock ls' u t b \<longleftrightarrow>
          (if u = owner ld \<and> covers ld b then t = l_type ld \<and> t \<noteq> F_UNLCK else holds_lock ls u t b)" for u t b
          by (rule adj_keeps_own [OF k _ _ ok]) (use af holds_not_unlck [OF ok2] in auto)
        then show ?thesis using r1 ok2 by (simp add: adjusted_def)
      qed
    qed
  qed
qed

section \<open>Blocking locks\<close>

definition conflict :: "bool \<Rightarrow> flock \<Rightarrow> filock \<Rightarrow> bool" where
  "conflict xen ld f \<longleftrightarrow> owner (lset f) \<noteq> owner ld \<and> l_start (lset f) \<le> l_end ld \<and>
     l_start ld \<le> l_end (lset f) \<and> blocks xen ld f"

lemma blocked_rest_spec:
  assumes "sorted_wrt before_ok fs"
  shows "case blocked_rest xen ld i fs of
      None \<Rightarrow> list_all (\<lambda>f. \<not> conflict xen ld f) fs
    | Some j \<Rightarrow> i \<le> j \<and> j - i < length fs \<and> conflict xen ld (fs ! (j - i)) \<and>
        list_all (\<lambda>f. \<not> conflict xen ld f) (take (j - i) fs)"
  using assms
proof (induction fs arbitrary: i)
  case Nil
  then show ?case by simp
next
  case (Cons f fs)
  have late: "list_all (\<lambda>f. \<not> conflict xen ld f) (f # fs)" if "l_end ld < l_start (lset f)"
    using that Cons.prems by (auto simp: conflict_def before_ok_def list_all_iff)
  consider (late) "l_end ld < l_start (lset f)"
    | (here) "\<not> l_end ld < l_start (lset f)" "l_start ld \<le> l_end (lset f) \<and> \<not> sameowner (lset f) ld \<and> blocks xen ld f"
    | (later) "\<not> l_end ld < l_start (lset f)" "\<not> (l_start ld \<le> l_end (lset f) \<and> \<not> sameowner (lset f) ld \<and> blocks xen ld f)"
    by blast
  then show ?case
  proof cases
    case late then show ?thesis using \<open>l_end ld < l_start (lset f) \<Longrightarrow> _\<close> by simp
  next
    case here then show ?thesis by (simp add: conflict_def sameowner_iff)
  next
    case later
    have nc: "\<not> conflict xen ld f" using later by (auto simp: conflict_def sameowner_iff)
    have eq: "blocked_rest xen ld i (f # fs) = blocked_rest xen ld (i + 1) fs" using later by auto
    show ?thesis
    proof (cases "blocked_rest xen ld (i + 1) fs")
      case None
      then show ?thesis unfolding eq using Cons.IH [of "i + 1"] Cons.prems nc by simp
    next
      case (Some j)
      then have j: "i + 1 \<le> j" "j - (i + 1) < length fs" "conflict xen ld (fs ! (j - (i + 1)))"
        "list_all (\<lambda>f. \<not> conflict xen ld f) (take (j - (i + 1)) fs)"
        using Cons.IH [of "i + 1"] Cons.prems by simp_all
      have s: "j - i = Suc (j - (i + 1))" using j(1) by simp
      show ?thesis unfolding eq Some using j nc by (simp add: s)
    qed
  qed
qed


text \<open>
  The result of \<open>blocked\<close> over a whole list: the first conflicting lock, or none and a place at
  which the adjustment can start.
\<close>

definition block_spec :: "bool \<Rightarrow> flock \<Rightarrow> filock list \<Rightarrow> nat option \<times> nat \<Rightarrow> bool" where
  "block_spec xen ld ls r \<longleftrightarrow>
     (case fst r of
        None \<Rightarrow> list_all (\<lambda>f. \<not> conflict xen ld f) ls \<and> pos_ok ld (snd r) ls \<and>
          list_all (\<lambda>f. owner (lset f) = owner ld \<longrightarrow> sep (lset f) ld) (take (snd r - 1) ls)
      | Some j \<Rightarrow> 0 < j \<and> j \<le> length ls \<and> conflict xen ld (ls ! (j - 1)) \<and>
          list_all (\<lambda>f. \<not> conflict xen ld f) (take (j - 1) ls))"

lemma block_spec_rest:
  assumes "sorted_wrt before_ok fs" and "list_all (\<lambda>f. \<not> conflict xen ld f) pre"
    and "pos_ok ld ip (pre @ fs)" and "list_all (\<lambda>f. owner (lset f) = owner ld \<longrightarrow> sep (lset f) ld) (take (ip - 1) (pre @ fs))"
  shows "block_spec xen ld (pre @ fs) (blocked_rest xen ld (length pre + 1) fs, ip)"
proof (cases "blocked_rest xen ld (length pre + 1) fs")
  case None
  then show ?thesis using blocked_rest_spec [OF assms(1), of xen ld "length pre + 1"] assms by (simp add: block_spec_def)
next
  case (Some j)
  then have j: "length pre + 1 \<le> j" "j - (length pre + 1) < length fs" "conflict xen ld (fs ! (j - (length pre + 1)))"
    "list_all (\<lambda>f. \<not> conflict xen ld f) (take (j - (length pre + 1)) fs)"
    using blocked_rest_spec [OF assms(1), of xen ld "length pre + 1"] by simp_all
  have "\<not> j - 1 < length pre" "j \<le> length pre + length fs" using j(1,2) by simp_all
  then show ?thesis using j Some assms(2) by (simp add: block_spec_def nth_append)
qed

lemma blocked_scan_spec:
  assumes "locks_ok (pre @ fs)" and "l_start ld \<le> l_end ld"
    and "\<And>x. x \<in> set pre \<Longrightarrow> l_start (lset x) < l_start ld"
    and "\<And>x. x \<in> set pre \<Longrightarrow> owner (lset x) = owner ld \<Longrightarrow> l_end (lset x) + 1 < l_start ld"
    and "\<And>x. x \<in> set pre \<Longrightarrow> \<not> conflict xen ld x"
  shows "block_spec xen ld (pre @ fs) (blocked_scan xen ld (length pre) (length pre + 1) fs)"
  using assms
proof (induction fs arbitrary: pre)
  case Nil
  have s: "list_all (\<lambda>f. owner (lset f) = owner ld \<longrightarrow> sep (lset f) ld) (take (length pre - 1) pre)"
    using Nil.prems(4) by (force simp: list_all_iff sep_def dest!: in_set_takeD)
  have "pos_ok ld (length pre) pre"
    using Nil.prems(3) by (cases pre rule: rev_cases) (auto simp: pos_ok_def intro: less_imp_le)
  then show ?case using s Nil.prems(5) by (simp add: block_spec_def list_all_iff)
next
  case (Cons f fs)
  have nc: "list_all (\<lambda>f. \<not> conflict xen ld f) pre" using Cons.prems(5) by (simp add: list_all_iff)
  have sp: "sep (lset x) ld" if "x \<in> set pre" "owner (lset x) = owner ld" for x
    using Cons.prems(4) [OF that] by (simp add: sep_def)
  have srt: "sorted_wrt before_ok (f # fs)" using Cons.prems(1) by (simp add: locks_ok_def sorted_wrt_append)
  have next_step: "block_spec xen ld (pre @ f # fs) (blocked_scan xen ld (length pre + 1) (length pre + 2) fs)"
    if "l_start (lset f) < l_start ld" "owner (lset f) = owner ld \<Longrightarrow> l_end (lset f) + 1 < l_start ld" "\<not> conflict xen ld f"
    using Cons.IH [of "pre @ [f]"] Cons.prems that by auto
  show ?case
  proof (cases "l_start (lset f) < l_start ld")
    case True
    show ?thesis
    proof (cases "owner (lset f) = owner ld")
      case own: True
      show ?thesis
      proof (cases "l_start ld - 1 \<le> l_end (lset f)")
        case here: True
        have "pos_ok ld (length pre + 1) (pre @ f # fs)" using pos_ok_at True by simp
        then show ?thesis
          using block_spec_rest [OF srt nc, of "length pre + 1"] sp True own here
          by (simp add: sameowner_iff list_all_iff)
      next
        case False
        then show ?thesis using next_step True own by (simp add: sameowner_iff conflict_def)
      qed
    next
      case other: False
      show ?thesis
      proof (cases "conflict xen ld f")
        case c: True
        then show ?thesis using True other nc by (simp add: block_spec_def sameowner_iff conflict_def)
      next
        case False
        then have "\<not> (l_start ld \<le> l_end (lset f) \<and> blocks xen ld f)"
          using True other Cons.prems(2) by (auto simp: conflict_def)
        then show ?thesis using next_step True other False by (auto simp: sameowner_iff)
      qed
    qed
  next
    case False
    have "pos_ok ld (length pre) (pre @ f # fs)"
    proof (cases pre rule: rev_cases)
      case Nil
      then show ?thesis using False srt by (auto simp: pos_ok_def before_ok_def list_all_iff)
    next
      case (snoc ys y)
      then show ?thesis using Cons.prems(3) [of y] by (simp add: pos_ok_def nth_append)
    qed
    moreover have "list_all (\<lambda>f. owner (lset f) = owner ld \<longrightarrow> sep (lset f) ld) (take (length pre - 1) (pre @ f # fs))"
      using sp by (auto simp: list_all_iff dest!: in_set_takeD)
    ultimately show ?thesis using block_spec_rest [OF srt nc] False by simp
  qed
qed

lemma blocked_spec:
  assumes "locks_ok ls" and "l_start ld \<le> l_end ld"
  shows "block_spec xen ld ls (blocked xen ls ld)"
  using blocked_scan_spec [of "[]" ls ld xen] assms by (simp add: blocked_def)

text \<open>The two places the callers of \<open>flckadj\<close> start at.\<close>

lemma blocked_start:
  assumes "locks_ok ls" and "l_start ld \<le> l_end ld" and "blocked xen ls ld = (None, ip)"
  shows "scan_ok ld ip (take (ip - 1) ls) (drop (ip - 1) ls)"
  using blocked_spec [OF assms(1,2), of xen] assms by (simp add: block_spec_def scan_ok_def)

lemma unlock_start:
  assumes "locks_ok ls" and "l_start ld \<le> l_end ld" and "l_type ld = F_UNLCK" and "ip \<le> 1"
  shows "scan_ok ld ip (take (ip - 1) ls) (drop (ip - 1) ls)"
  using assms by (simp add: scan_ok_def)

end
