(* ===== verification/Flock_Set.thy ===== *)
theory Flock_Set imports Flock_Adj begin

text \<open>
  The properties of file locking: the adjustment of a list and its bookkeeping, the search for a
  blocking lock, exclusion between owners through the sleeps of \<open>reclock\<close>, the mandatory check,
  the clean-up, and the deadlock test.
\<close>

declare split_paired_All [simp del] split_paired_Ex [simp del]

section \<open>Bookkeeping\<close>

text \<open>
  What the edits of a list keep of the rest of the state: \<open>reccnt\<close> counts the locks, its limit is
  not passed, and a lock somebody sleeps on stays as it is unless its sleepers are woken.
\<close>

definition accounts :: "filock list \<Rightarrow> flk \<Rightarrow> filock list \<Rightarrow> flk \<Rightarrow> bool" where
  "accounts ls st ls' st' \<longleftrightarrow>
     reccnt st' - int (length ls') = reccnt st - int (length ls) \<and>
     (reccnt st \<le> t_flckrec st \<longrightarrow> reccnt st' \<le> t_flckrec st) \<and> t_flckrec st' = t_flckrec st \<and>
     sleeplcks st' = sleeplcks st \<and> v_filocks st' = v_filocks st \<and>
     set (lck_wakes st) \<subseteq> set (lck_wakes st') \<and>
     (\<forall>f\<in>set ls. wakeflg f \<noteq> 0 \<longrightarrow> f \<in> set ls' \<or> lck_id f \<in> set (lck_wakes st'))"

lemma accounts_refl [simp]: "accounts ls st ls st"
  by (simp add: accounts_def)

lemma accounts_trans: "accounts a s b t \<Longrightarrow> accounts b t c u \<Longrightarrow> accounts a s c u"
  unfolding accounts_def by auto

lemma drop_lock_frame [simp]:
  "v_filocks (drop_lock f st) = v_filocks st" "sleeplcks (drop_lock f st) = sleeplcks st"
  "t_flckrec (drop_lock f st) = t_flckrec st" "reccnt (drop_lock f st) = reccnt st - 1"
  "lck_wakes (drop_lock f st) = lck_wakes st @ (if wakeflg f \<noteq> 0 then [lck_id f] else [])"
  by (simp_all add: drop_lock_def wakeup_def Let_def)

lemma accounts_drop: "accounts (pre @ f # suf) st (pre @ suf) (drop_lock f st)"
  by (auto simp: accounts_def)

lemma accounts_insert:
  assumes "new_lock ld st = Some (n, st')"
  shows "accounts (xs @ ys) st (xs @ n # ys) st'"
  using new_lockD(4,5) [OF assms] by (auto simp: accounts_def)

lemma accounts_shrink:
  "wakeup (f\<lparr>lset := l\<rparr>) st = (g, st') \<Longrightarrow> accounts (pre @ f # suf) st (pre @ g # suf) st'"
  by (auto simp: wakeup_def accounts_def split: if_splits)

lemma accounts_piece:
  assumes "adj_piece ld f suf st = Some (suf', st')"
  shows "accounts (pre @ suf) st (pre @ suf') st'"
proof -
  let ?P = "\<lambda>x. l_start (lset x) < l_start ((lset f)\<lparr>l_start := l_end ld + 1\<rparr>)"
  obtain n where n: "new_lock ((lset f)\<lparr>l_start := l_end ld + 1\<rparr>) st = Some (n, st')"
    and suf': "suf' = (if l_start (lset f) \<le> l_end ld then takeWhile ?P suf @ n # dropWhile ?P suf else n # suf)"
    using adj_pieceD [OF assms] by blast
  show ?thesis
  proof (cases "l_start (lset f) \<le> l_end ld")
    case True
    then show ?thesis using accounts_insert [OF n, of "pre @ takeWhile ?P suf" "dropWhile ?P suf"] suf' by simp
  next
    case False
    then show ?thesis using accounts_insert [OF n, of pre suf] suf' by simp
  qed
qed

definition res_accounts :: "filock list \<Rightarrow> flk \<Rightarrow> adj_res \<Rightarrow> bool" where
  "res_accounts ls st r \<longleftrightarrow>
     (case r of AdjRet e ld' ls' st' \<Rightarrow> accounts ls st ls' st' | AdjEnd ld' ip ls' st' \<Rightarrow> accounts ls st ls' st')"

lemma res_accounts_simps [simp]:
  "res_accounts ls st (AdjRet e ld' ls' st') = accounts ls st ls' st'"
  "res_accounts ls st (AdjEnd ld' ip ls' st') = accounts ls st ls' st'"
  by (simp_all add: res_accounts_def)

lemma res_accounts_step: "accounts a s b t \<Longrightarrow> res_accounts b t r \<Longrightarrow> res_accounts a s r"
  by (auto simp: res_accounts_def split: adj_res.splits intro: accounts_trans)

lemma accounts_piece_drop:
  assumes "adj_piece ld f suf st = Some (suf', st')"
  shows "accounts (pre @ f # suf) st (pre @ suf') (drop_lock f st')"
  using accounts_trans [OF accounts_piece [OF assms, of "pre @ [f]"]] accounts_drop [of pre f suf' st'] by simp

lemma accounts_piece_shrink:
  assumes "adj_piece ld f suf st = Some (suf', st')" and "wakeup (f\<lparr>lset := l\<rparr>) st' = (g, st'')"
  shows "accounts (pre @ f # suf) st (pre @ g # suf') st''"
  using accounts_trans [OF accounts_piece [OF assms(1), of "pre @ [f]"]] accounts_shrink [OF assms(2), of pre suf'] by simp

lemma adj_scan_accounts: "res_accounts (pre @ suf) st (adj_scan ld ip pre suf st)"
proof (induction suf arbitrary: ld ip pre st)
  case Nil
  then show ?case by simp
next
  case (Cons f suf)
  let ?r = "adj_scan ld ip pre (f # suf) st"
  let ?w = "wakeup (f\<lparr>lset := (lset f)\<lparr>l_len := l_start ld - 1\<rparr>\<rparr>) st"
  have pass: "res_accounts (pre @ f # suf) st (adj_scan ld' ip' (pre @ [f]) suf st)" for ld' ip'
    using Cons.IH [of "pre @ [f]" st] by simp
  have drop: "res_accounts (pre @ f # suf) st (adj_scan ld' ip' pre suf (drop_lock f st))" for ld' ip'
    by (rule res_accounts_step [OF accounts_drop Cons.IH])
  have shrink: "res_accounts (pre @ f # suf) st (adj_scan ld' ip' (pre @ [fst ?w]) suf (snd ?w))" for ld' ip'
  proof (rule res_accounts_step)
    show "accounts (pre @ f # suf) st (pre @ fst ?w # suf) (snd ?w)" by (rule accounts_shrink) simp
  qed (use Cons.IH [of "pre @ [fst ?w]"] in simp)
  show ?case
  proof (cases "sameowner (lset f) ld")
    case False
    then show ?thesis using pass by simp
  next
    case own: True
    obtain s e where r: "regflck ld f = (s, e)" by (cases "regflck ld f")
    show ?thesis
      using own r pass drop shrink
      by (cases s; cases e)
        (auto simp: accounts_drop accounts_piece_drop accounts_piece_shrink Let_def split: option.split prod.split)
  qed
qed

lemma flckadj_accounts_lemma:
  assumes "flckadj ls ip ld st = (e, ld', ls', st')"
  shows "accounts ls st ls' st'"
proof -
  have a: "res_accounts ls st (adj_scan ld ip (take (ip - 1) ls) (drop (ip - 1) ls) st)"
    using adj_scan_accounts [of "take (ip - 1) ls" "drop (ip - 1) ls"] by simp
  show ?thesis
  proof (cases "adj_scan ld ip (take (ip - 1) ls) (drop (ip - 1) ls) st")
    case (AdjRet e1 ld1 ls1 st1)
    then show ?thesis using a assms by (simp add: flckadj_def)
  next
    case (AdjEnd ld1 ip1 ls1 st1)
    let ?k = "adj_insert_pos ld1 ip1 ls1"
    have i: "accounts ls1 st1 (take ?k ls1 @ n # drop ?k ls1) st2" if "new_lock ld1 st1 = Some (n, st2)" for n st2
      using accounts_insert [OF that, of "take ?k ls1" "drop ?k ls1"] by simp
    show ?thesis
      using a assms AdjEnd accounts_trans [OF _ i, of ls st]
      by (auto simp: flckadj_def insflck_def split: if_splits option.splits prod.splits)
  qed
qed


section \<open>Exclusion\<close>

text \<open>No byte is held by two owners unless both only read.\<close>

definition exclusive :: "filock list \<Rightarrow> bool" where
  "exclusive ls \<longleftrightarrow> (\<forall>u v t t' b. holds_lock ls u t b \<longrightarrow> holds_lock ls v t' b \<longrightarrow> u \<noteq> v \<longrightarrow>
     t = F_RDLCK \<and> t' = F_RDLCK)"

definition file_ok :: "flk \<Rightarrow> bool" where
  "file_ok st \<longleftrightarrow> locks_ok (v_filocks st) \<and> exclusive (v_filocks st)"

lemma exclusiveD:
  "exclusive ls \<Longrightarrow> holds_lock ls u t b \<Longrightarrow> holds_lock ls v t' b \<Longrightarrow> u \<noteq> v \<Longrightarrow> t = F_RDLCK \<and> t' = F_RDLCK"
  unfolding exclusive_def by blast

lemma exclusive_subset:
  "exclusive ls \<Longrightarrow> (\<And>u t b. holds_lock ls' u t b \<Longrightarrow> holds_lock ls u t b) \<Longrightarrow> exclusive ls'"
  unfolding exclusive_def by blast

lemma no_conflict_read:
  assumes "list_all (\<lambda>f. \<not> conflict xen ld f) ls" and "locks_ok ls"
    and "l_type ld = F_RDLCK \<or> l_type ld = F_WRLCK" and "covers ld b" and "holds_lock ls u t b" and "u \<noteq> owner ld"
  shows "t = F_RDLCK \<and> l_type ld = F_RDLCK"
proof -
  obtain f where f: "f \<in> set ls" "owner (lset f) = u" "l_type (lset f) = t" "covers (lset f) b"
    using assms(5) by (auto simp: holds_lock_def)
  then have "\<not> blocks xen ld f" using assms(1,4,6) by (auto simp: list_all_iff conflict_def covers_def)
  then show ?thesis
    using holds_type [OF assms(2,5)] assms(3) f(3) by (auto simp: blocks_def)
qed

lemma adjusted_exclusive:
  assumes ex: "exclusive ls" and ok: "locks_ok ls" and adj: "adjusted e ld ls ls'"
    and ty: "l_type ld = F_UNLCK \<or>
      (l_type ld = F_RDLCK \<or> l_type ld = F_WRLCK) \<and> list_all (\<lambda>f. \<not> conflict xen ld f) ls"
  shows "exclusive ls'"
proof (cases e)
  case (Some err)
  then have "holds_lock ls u t b" if "holds_lock ls' u t b" for u t b using adj that by (simp add: adjusted_def)
  then show ?thesis by (rule exclusive_subset [OF ex])
next
  case None
  have h: "holds_lock ls' u t b \<longleftrightarrow>
    (if u = owner ld \<and> covers ld b then t = l_type ld \<and> t \<noteq> F_UNLCK else holds_lock ls u t b)" for u t b
    using adj None unfolding adjusted_def by (cases u) simp
  have new: "t = F_RDLCK \<and> l_type ld = F_RDLCK"
    if "covers ld b" "holds_lock ls u t b" "u \<noteq> owner ld" "l_type ld \<noteq> F_UNLCK" for u t b
    using no_conflict_read [OF _ ok _ that(1-3)] ty that(4) by blast
  show ?thesis
    unfolding exclusive_def
  proof (intro allI impI)
    fix u v t t' b
    assume u: "holds_lock ls' u t b" and v: "holds_lock ls' v t' b" and n: "u \<noteq> v"
    show "t = F_RDLCK \<and> t' = F_RDLCK"
    proof (cases "covers ld b \<and> (u = owner ld \<or> v = owner ld)")
      case True
      then show ?thesis using u v n new [of b v t'] new [of b u t] unfolding h by auto
    next
      case False
      then show ?thesis using u v n exclusiveD [OF ex, of u t b v t'] unfolding h by (auto split: if_splits)
    qed
  qed
qed

text \<open>The parts of the state a list of locks reads.\<close>

lemma holds_lock_cong: "map lset ls = map lset ls' \<Longrightarrow> holds_lock ls u t b = holds_lock ls' u t b"
proof -
  have "holds_lock xs u t b \<longleftrightarrow> (\<exists>l\<in>set (map lset xs). owner l = u \<and> l_type l = t \<and> covers l b)" for xs
    by (auto simp: holds_lock_def)
  then show "map lset ls = map lset ls' \<Longrightarrow> ?thesis" by metis
qed

lemma locks_ok_map:
  "locks_ok ls \<longleftrightarrow> sorted_wrt (\<lambda>a c. l_start a \<le> l_start c \<and> (owner a = owner c \<longrightarrow> sep a c)) (map lset ls) \<and>
     list_all good_lock (map lset ls)"
  unfolding locks_ok_def sorted_wrt_map list.pred_map by (simp add: before_ok_def [abs_def] comp_def)

lemma file_ok_cong:
  assumes "map lset (v_filocks st) = map lset (v_filocks st')"
  shows "file_ok st = file_ok st'"
  unfolding file_ok_def locks_ok_map exclusive_def assms using holds_lock_cong [OF assms] by simp

lemma clean_sleepers_frame [simp]: "v_filocks (clean_sleepers ld st) = v_filocks st"
proof -
  have "v_filocks (snd (cleanslp ld sl s)) = v_filocks s" for sl s
    by (induction ld sl s rule: cleanslp.induct) (auto split: prod.splits)
  then show ?thesis by (simp add: clean_sleepers_def split: prod.splits) (metis snd_conv)
qed

lemma add_sleeper_frame:
  assumes "add_sleeper ld found st = Some (sf, st')"
  shows "v_filocks st' = v_filocks st"
    and "sleeplcks st' = sf # sleeplcks st" and "lset sf = ld" and "(blk_pid sf, blk_sysid sf) = owner (lset found)"
proof -
  obtain n s1 where n: "new_lock ld st = Some (n, s1)"
    using assms by (auto simp: add_sleeper_def split: option.splits)
  then have "sf = n\<lparr>blk_pid := l_pid (lset found), wakeflg := l_sysid (lset found)\<rparr>" "st' = s1\<lparr>sleeplcks := sf # sleeplcks s1\<rparr>"
    using assms by (auto simp: add_sleeper_def Let_def)
  then show "v_filocks st' = v_filocks st" "sleeplcks st' = sf # sleeplcks st" "lset sf = ld"
    "(blk_pid sf, blk_sysid sf) = owner (lset found)"
    using new_lockD(1,4) [OF n] by (simp_all add: owner_def)
qed

lemma del_sleeper_frame [simp]: "v_filocks (del_sleeper i st) = v_filocks st"
  by (auto simp: del_sleeper_def split: list.split)

text \<open>The branches of \<open>reclock\<close> that change the list of the file.\<close>

lemma flckadj_file_ok:
  assumes ok: "file_ok st" and ld: "l_start ld \<le> l_end ld"
    and start: "l_type ld = F_UNLCK \<and> ip \<le> 1 \<or>
      (l_type ld = F_RDLCK \<or> l_type ld = F_WRLCK) \<and> blocked xen (v_filocks st) ld = (None, ip)"
    and r: "flckadj (v_filocks st) ip ld st = (e, ld', ls, st')"
  shows "file_ok (st'\<lparr>v_filocks := ls\<rparr>)"
proof -
  have ok': "locks_ok (v_filocks st)" "exclusive (v_filocks st)" using ok by (simp_all add: file_ok_def)
  have sc: "scan_ok ld ip (take (ip - 1) (v_filocks st)) (drop (ip - 1) (v_filocks st))"
    using start unlock_start [OF ok'(1) ld] blocked_start [OF ok'(1) ld] by blast
  have adj: "adjusted e ld (v_filocks st) ls" using flckadj_spec [OF sc _ r] start by blast
  have "l_type ld = F_UNLCK \<or> (l_type ld = F_RDLCK \<or> l_type ld = F_WRLCK) \<and> list_all (\<lambda>f. \<not> conflict xen ld f) (v_filocks st)"
    using start blocked_spec [OF ok'(1) ld, of xen] by (auto simp: block_spec_def)
  then show ?thesis
    using adjusted_exclusive [OF ok'(2,1) adj] adj by (simp add: file_ok_def adjusted_def)
qed

lemma reclock_free_file_ok:
  assumes "file_ok st" and "l_start ld \<le> l_end ld" and "l_type ld = F_RDLCK \<or> l_type ld = F_WRLCK"
    and "fst (blocked xen (v_filocks st) ld) = None"
  shows "file_ok (snd (snd (reclock_free cmd (snd (blocked xen (v_filocks st) ld)) ld st)))"
proof -
  obtain e ld' ls st' where r: "flckadj (v_filocks st) (snd (blocked xen (v_filocks st) ld)) ld st = (e, ld', ls, st')"
    by (cases "flckadj (v_filocks st) (snd (blocked xen (v_filocks st) ld)) ld st")
  have "blocked xen (v_filocks st) ld = (None, snd (blocked xen (v_filocks st) ld))"
    using assms(4) by (metis prod.collapse)
  then have "file_ok (st'\<lparr>v_filocks := ls\<rparr>)"
    using flckadj_file_ok [OF assms(1,2) _ r, of xen] assms(3) by simp
  then show ?thesis
    using assms(1) r file_ok_cong [of "clean_sleepers _ _"] by (auto simp: reclock_free_def Let_def)
qed

lemma reclock_unlock_file_ok:
  assumes "file_ok st" and "l_start ld \<le> l_end ld" and "l_type ld = F_UNLCK"
  shows "file_ok (snd (snd (reclock_unlock x cmd ld st)))"
proof -
  let ?ip = "if v_filocks st = [] then 0 else 1 :: nat"
  obtain e ld' ls st' where r: "flckadj (v_filocks st) ?ip ld st = (e, ld', ls, st')"
    by (cases "flckadj (v_filocks st) ?ip ld st")
  have "file_ok (st'\<lparr>v_filocks := ls\<rparr>)"
    using flckadj_file_ok [OF assms(1,2) _ r] assms(3) by simp
  then show ?thesis
    using assms(1) r file_ok_cong [of "clean_sleepers _ _"] by (auto simp: reclock_unlock_def Let_def split: option.split)
qed



text \<open>The loop, for every behaviour of the others that keeps the list of the file in order.\<close>

lemmas reclock_loop_induct =
  reclock_loop.raw_induct [where xa = "((((x, slp), cmd), ld), st)" for x slp cmd ld st, unfolded prod.case]

definition keeps_file_ok :: "(nat \<Rightarrow> flk \<Rightarrow> bool \<times> flk) \<Rightarrow> bool" where
  "keeps_file_ok slp \<longleftrightarrow> (\<forall>i st. file_ok st \<longrightarrow> file_ok (snd (slp i st)))"

lemma file_ok_sleepers [simp]: "file_ok (del_sleeper i st) = file_ok st" "file_ok (st\<lparr>v_filocks := ls\<rparr>) = (locks_ok ls \<and> exclusive ls)"
  using file_ok_cong [of "del_sleeper i st" st] by (simp_all add: file_ok_def)

lemma map_lset_wake [simp]: "map lset (ls[k := (ls ! k)\<lparr>wakeflg := w\<rparr>]) = map lset ls"
proof (rule nth_equalityI)
  show "map lset (ls[k := (ls ! k)\<lparr>wakeflg := w\<rparr>]) ! i = map lset ls ! i"
    if "i < length (map lset (ls[k := (ls ! k)\<lparr>wakeflg := w\<rparr>]))" for i
    using that by (cases "k = i") simp_all
qed simp

lemma reclock_rcmd_file_ok: "file_ok st \<Longrightarrow> file_ok (snd (reclock_rcmd ld found st))"
proof (cases "add_sleeper ld found st")
  case (Some p)
  then show "file_ok st \<Longrightarrow> ?thesis"
    using add_sleeper_frame(1) [of ld found st "fst p" "snd p"] by (cases p) (auto simp: reclock_rcmd_def file_ok_def)
qed (simp add: reclock_rcmd_def)

lemma reclock_loop_file_ok:
  assumes "reclock_loop x slp cmd ld st = Some r" and "keeps_file_ok slp"
    and "file_ok st" and "l_start ld \<le> l_end ld"
  shows "file_ok (snd (snd r))"
proof -
  have "keeps_file_ok slp \<longrightarrow> file_ok st \<longrightarrow> l_start ld \<le> l_end ld \<longrightarrow> file_ok (snd (snd r))"
  proof (rule reclock_loop_induct [OF _ assms(1)], intro impI)
    fix loop :: "xenix \<Rightarrow> (nat \<Rightarrow> flk \<Rightarrow> bool \<times> flk) \<Rightarrow> u32 \<Rightarrow> flock \<Rightarrow> flk \<Rightarrow> (errno option \<times> flock \<times> flk) option"
    fix x slp cmd ld st r
    assume IH: "\<And>x slp cmd ld st r. loop x slp cmd ld st = Some r \<Longrightarrow>
        keeps_file_ok slp \<longrightarrow> file_ok st \<longrightarrow> l_start ld \<le> l_end ld \<longrightarrow> file_ok (snd (snd r))"
      and slp: "keeps_file_ok slp" and ok: "file_ok st" and ld: "l_start ld \<le> l_end ld"
    let ?b = "blocked (xen_block x ld) (v_filocks st) ld"
    let ?f = "v_filocks st ! (the (fst ?b) - 1)"
    let ?wait = "\<lambda>i st1. st1\<lparr>v_filocks := (v_filocks st1)[i := (v_filocks st1 ! i)\<lparr>wakeflg := wakeflg (v_filocks st1 ! i) + 1\<rparr>]\<rparr>"
    assume r: "(if l_type ld = F_RDLCK \<or> l_type ld = F_WRLCK then
        (case fst ?b of
           None \<Rightarrow> Some (reclock_free cmd (snd ?b) ld st)
         | Some i \<Rightarrow>
             if has cmd SLPFLCK then
               (case deadflck (sleeplcks st) (v_filocks st ! (i - 1)) ld of
                  None \<Rightarrow> None
                | Some dead \<Rightarrow>
                    if dead then Some (Some EDEADLK, ld, st)
                    else if has cmd RCMDLCK then
                      Some (fst (reclock_rcmd ld (v_filocks st ! (i - 1)) st), ld,
                        snd (reclock_rcmd ld (v_filocks st ! (i - 1)) st))
                    else
                      (case add_sleeper ld (v_filocks st ! (i - 1)) st of
                         None \<Rightarrow> Some (Some ENOLCK, ld, st)
                       | Some (sf, st1) \<Rightarrow>
                           (case slp (lck_id (v_filocks st ! (i - 1))) (?wait (i - 1) st1) of
                              (intr, st2) \<Rightarrow>
                                if intr then Some (Some EINTR, ld, del_sleeper (lck_id sf) st2)
                                else loop x slp cmd ld (del_sleeper (lck_id sf) st2))))
             else if has cmd SETFLCK then Some (Some EAGAIN, ld, st)
             else Some (None, lset (v_filocks st ! (i - 1)), st))
      else if l_type ld = F_UNLCK then Some (reclock_unlock x cmd ld st)
      else Some (Some EINVAL, ld, st)) = Some r"
    show "file_ok (snd (snd r))"
    proof (cases "l_type ld = F_RDLCK \<or> l_type ld = F_WRLCK")
      case False
      then show ?thesis using r ok reclock_unlock_file_ok [OF ok ld] by (auto split: if_splits)
    next
      case rw: True
      show ?thesis
      proof (cases "fst ?b")
        case None
        then have "r = reclock_free cmd (snd ?b) ld st" using r rw by simp
        then show ?thesis using reclock_free_file_ok [OF ok ld rw None] by simp
      next
        case (Some i)
        have wait: "file_ok (snd (slp k (?wait (i - 1) st1)))"
          if "add_sleeper ld (v_filocks st ! (i - 1)) st = Some (sf, st1)" for sf st1 k
        proof -
          have "file_ok (?wait (i - 1) st1)"
            by (rule iffD2 [OF file_ok_cong ok]) (simp add: add_sleeper_frame(1) [OF that])
          then show ?thesis using slp by (simp add: keeps_file_ok_def)
        qed
        show ?thesis
        proof (cases "add_sleeper ld (v_filocks st ! (i - 1)) st")
          case None
          then show ?thesis using r rw Some ok reclock_rcmd_file_ok [OF ok]
            by (auto split: if_splits option.splits)
        next
          case s: (Some p)
          obtain sf st1 where p: "p = (sf, st1)" by (cases p)
          obtain intr st2 where q: "slp (lck_id (v_filocks st ! (i - 1))) (?wait (i - 1) st1) = (intr, st2)"
            by (cases "slp (lck_id (v_filocks st ! (i - 1))) (?wait (i - 1) st1)")
          have ok2: "file_ok st2" using wait [OF s [unfolded p]] q by (metis snd_conv)
          show ?thesis
            using r rw Some s p q ok ok2 reclock_rcmd_file_ok [OF ok] IH [of x slp cmd ld "del_sleeper (lck_id sf) st2" r] slp ld
            by (auto split: if_splits option.splits)
        qed
      qed
    qed
  qed
  then show ?thesis using assms by blast
qed


lemma reclock_file_ok:
  assumes "reclock x slp sz ld cmd flag offset st = Some (e, ld', st')" and "keeps_file_ok slp" and "file_ok st"
  shows "file_ok st'"
proof -
  have "file_ok (snd (snd r))" if "reclock_loop x slp cmd l st = Some r" "\<not> l_end l < l_start l" for l r
    using reclock_loop_file_ok [OF that(1) assms(2,3)] that(2) by simp
  then show ?thesis
    using assms(1,3) unfolding reclock_def
    by (auto simp: Let_def split: if_splits option.splits prod.splits)
qed

section \<open>Waiting\<close>

text \<open>
  Who waits for whom, read off the requests that are asleep; \<open>deadflck\<close> follows the first request it
  finds of an owner, which is the only one when nobody sleeps with two requests at a time.
\<close>

definition waits :: "filock list \<Rightarrow> ((int \<times> int) \<times> (int \<times> int)) set" where
  "waits sl = (\<lambda>sf. (owner (lset sf), (blk_pid sf, blk_sysid sf))) ` set sl"

lemma finite_waits: "finite (waits sl)"
  by (simp add: waits_def)

lemma waits_Cons: "waits (sf # sl) = insert (owner (lset sf), (blk_pid sf, blk_sysid sf)) (waits sl)"
  by (simp add: waits_def)

lemma sleeping_on_waits: "sleeping_on sl a = Some b \<Longrightarrow> (a, b) \<in> waits sl"
  by (cases a, induction sl) (auto simp: waits_Cons owner_def waits_def split: if_splits)

lemma waits_sleeping_on: "(a, b) \<in> waits sl \<Longrightarrow> sleeping_on sl a \<noteq> None"
  by (cases a, induction sl) (auto simp: waits_Cons owner_def waits_def)

lemma waits_fun:
  assumes "single_valued (waits sl)"
  shows "(a, b) \<in> waits sl \<longleftrightarrow> sleeping_on sl a = Some b"
  using assms sleeping_on_waits waits_sleeping_on by (metis not_None_eq single_valuedD)

lemma dead_walk_result:
  assumes "acyclic (waits sl)" and "single_valued (waits sl)"
  shows "dead_walk sl me b = Some ((b, me) \<in> (waits sl)\<^sup>*)"
proof -
  have "wf ((waits sl)\<inverse>)" by (rule finite_acyclic_wf_converse [OF finite_waits assms(1)])
  then show ?thesis
  proof (induction b rule: wf_induct_rule)
    case (less b)
    show ?case
    proof (cases "b = me \<or> sleeping_on sl b = None")
      case True
      then have "(b, me) \<in> (waits sl)\<^sup>* \<longleftrightarrow> b = me"
        by (auto simp: waits_fun [OF assms(2)] elim: converse_rtranclE)
      then show ?thesis using True by (auto simp: dead_walk.simps [of sl me b])
    next
      case False
      then obtain c where c: "sleeping_on sl b = Some c" and n: "b \<noteq> me" by auto
      have "(b, me) \<in> (waits sl)\<^sup>* \<longleftrightarrow> (c, me) \<in> (waits sl)\<^sup>*"
      proof
        assume "(b, me) \<in> (waits sl)\<^sup>*"
        then show "(c, me) \<in> (waits sl)\<^sup>*" using c n by (auto simp: waits_fun [OF assms(2)] elim: converse_rtranclE)
      next
        assume "(c, me) \<in> (waits sl)\<^sup>*"
        then show "(b, me) \<in> (waits sl)\<^sup>*" using c by (meson waits_fun [OF assms(2)] converse_rtrancl_into_rtrancl)
      qed
      then show ?thesis using less [of c] c n by (simp add: dead_walk.simps [of sl me b] waits_fun [OF assms(2)])
    qed
  qed
qed

lemma add_sleeper_waits:
  assumes "add_sleeper ld found st = Some (sf, st')"
  shows "waits (sleeplcks st') = insert (owner ld, owner (lset found)) (waits (sleeplcks st))"
  using add_sleeper_frame [OF assms] by (simp add: waits_Cons)

section \<open>The system calls' answers\<close>

lemma cmd_bits [simp]:
  "\<not> has INOFLCK SETFLCK" "\<not> has INOFLCK SLPFLCK" "\<not> rcmd_sleep INOFLCK"
  by (simp_all add: has_def rcmd_sleep_def INOFLCK_def SETFLCK_def SLPFLCK_def RCMDLCK_def)

definition mandatory :: "int \<Rightarrow> int \<Rightarrow> u32 \<Rightarrow> int \<Rightarrow> int \<Rightarrow> flock" where
  "mandatory epid sysid iomode offset len =
     \<lparr>l_type = (if has iomode FWRITE then F_WRLCK else F_RDLCK), l_whence = 0, l_start = offset,
      l_len = offset + len - 1, l_sysid = sysid, l_pid = epid\<rparr>"

lemma reclock_loop_test:
  assumes ok: "locks_ok (v_filocks st)" and ld: "l_start ld \<le> l_end ld"
    and ty: "l_type ld = F_RDLCK \<or> l_type ld = F_WRLCK"
  shows "\<exists>ld'. reclock_loop x slp INOFLCK ld st = Some (None, ld', st) \<and>
    (l_type ld' = F_UNLCK \<longleftrightarrow> list_all (\<lambda>f. \<not> conflict (xen_block x ld) ld f) (v_filocks st))"
proof (cases "fst (blocked (xen_block x ld) (v_filocks st) ld)")
  case None
  then show ?thesis
    using blocked_spec [OF ok ld, of "xen_block x ld"] ty
    by (simp add: reclock_loop.simps [of x slp INOFLCK ld st] block_spec_def reclock_free_def)
next
  case (Some i)
  let ?f = "v_filocks st ! (i - 1)"
  have i: "i - 1 < length (v_filocks st)" "conflict (xen_block x ld) ld ?f"
    using blocked_spec [OF ok ld, of "xen_block x ld"] Some by (auto simp: block_spec_def)
  then have m: "?f \<in> set (v_filocks st)" by simp
  then have "l_type (lset ?f) \<noteq> F_UNLCK"
    using ok by (auto simp: locks_ok_def list_all_iff good_lock_def lock_types)
  moreover have "\<not> list_all (\<lambda>f. \<not> conflict (xen_block x ld) ld f) (v_filocks st)"
    using i(2) m by (auto simp: list_all_iff)
  ultimately show ?thesis
    using Some ty by (simp add: reclock_loop.simps [of x slp INOFLCK ld st])
qed

lemma chklock_result:
  assumes ok: "locks_ok (v_filocks st)" and x: "\<not> VIRTUAL_XOUT x" "\<not> ISLOCKING x" "\<not> BADVISE_PRE_SV x"
    and r: "0 \<le> offset" "0 < len" "offset + len - 1 \<le> MAXEND"
    and nd: "has fmode (FNDELAY OR FNONBLOCK)"
  shows "chklock x slp (Inr va_size) epid sysid iomode offset len fmode st =
    Some (if list_ex (conflict False (mandatory epid sysid iomode offset len)) (v_filocks st) then Some EAGAIN else None, st)"
proof -
  let ?bf = "\<lparr>l_type = (if has iomode FWRITE then F_WRLCK else F_RDLCK), l_whence = 0, l_start = offset,
      l_len = len, l_sysid = sysid, l_pid = epid\<rparr>"
  let ?ld = "mandatory epid sysid iomode offset len"
  have s: "s16 0 = 0" "s32 (len + (offset - 1)) = offset + len - 1"
    using r by (simp_all add: s16_def s32_id MAXEND_def)
  have xb: "xen_block x ?ld = False" using x by (simp add: xen_block_def)
  have le: "l_start ?ld \<le> l_end ?ld" and ty: "l_type ?ld = F_RDLCK \<or> l_type ?ld = F_WRLCK"
    using r by (simp_all add: mandatory_def)
  obtain ld' where l: "reclock_loop x slp INOFLCK ?ld st = Some (None, ld', st)"
    and t: "l_type ld' = F_UNLCK \<longleftrightarrow> list_all (\<lambda>f. \<not> conflict False ?ld f) (v_filocks st)"
    using reclock_loop_test [OF ok le ty, of x slp] unfolding xb by blast
  have m: "?bf\<lparr>l_len := offset + len - 1\<rparr> = ?ld" by (simp add: mandatory_def)
  have "reclock x slp (Inr va_size) ?bf INOFLCK 0 offset st = Some (None, reclock_restore ld', st)"
    using x r s l m le by (simp add: reclock_def convoff_def Let_def)
  moreover have "l_type (reclock_restore ld') = l_type ld'" by (simp add: reclock_restore_def)
  ultimately show ?thesis
    using t r x nd by (simp add: chklock_def Let_def list_ex_iff list_all_iff)
qed

text \<open>\<open>cleanlocks\<close>.\<close>

definition of_process :: "int \<Rightarrow> int \<Rightarrow> filock \<Rightarrow> bool" where
  "of_process pid sysid f \<longleftrightarrow> (l_pid (lset f) = pid \<or> pid = IGN_PID) \<and> l_sysid (lset f) = sysid"

lemma clean_list_result:
  "fst (clean_list pid sysid ls st) = filter (\<lambda>f. \<not> of_process pid sysid f) ls"
  "lck_wakes (snd (clean_list pid sysid ls st)) =
     lck_wakes st @ map lck_id (filter (\<lambda>f. of_process pid sysid f \<and> wakeflg f \<noteq> 0) ls)"
  "reccnt (snd (clean_list pid sysid ls st)) = reccnt st - int (length (filter (of_process pid sysid) ls))"
proof -
  let ?g = "of_process pid sysid"
  have drop: "clean_list pid sysid (f # fs) s = clean_list pid sysid fs (drop_lock f s)" if "?g f" for f fs s
    using that by (simp add: of_process_def)
  have keep: "clean_list pid sysid (f # fs) s = (f # fst (clean_list pid sysid fs s), snd (clean_list pid sysid fs s))"
    if "\<not> ?g f" for f fs s
    using that by (auto simp: of_process_def split: prod.split)
  show "fst (clean_list pid sysid ls st) = filter (\<lambda>f. \<not> ?g f) ls"
    by (induction ls arbitrary: st) (simp_all add: drop keep del: clean_list.simps(2))
  show "lck_wakes (snd (clean_list pid sysid ls st)) = lck_wakes st @ map lck_id (filter (\<lambda>f. ?g f \<and> wakeflg f \<noteq> 0) ls)"
  proof (induction ls arbitrary: st)
    case (Cons f fs)
    then show ?case by (cases "?g f") (simp_all add: drop keep del: clean_list.simps(2))
  qed simp
  show "reccnt (snd (clean_list pid sysid ls st)) = reccnt st - int (length (filter ?g ls))"
    by (induction ls arbitrary: st) (simp_all add: drop keep del: clean_list.simps(2))
qed

lemma cleanlocks_result:
  "v_filocks (cleanlocks pid sysid st) = filter (\<lambda>f. \<not> of_process pid sysid f) (v_filocks st)"
  "lck_wakes (cleanlocks pid sysid st) =
     lck_wakes st @ map lck_id (filter (\<lambda>f. of_process pid sysid f \<and> wakeflg f \<noteq> 0) (v_filocks st))"
  "reccnt (cleanlocks pid sysid st) = reccnt st - int (length (filter (of_process pid sysid) (v_filocks st)))"
  using clean_list_result [of pid sysid "v_filocks st" st]
  by (cases "clean_list pid sysid (v_filocks st) st", simp add: cleanlocks_def)+

lemma file_ok_filter:
  assumes "file_ok st"
  shows "file_ok (st'\<lparr>v_filocks := filter P (v_filocks st)\<rparr>)"
  using assms sorted_wrt_filter [of before_ok "v_filocks st" P]
    exclusive_subset [of "v_filocks st" "filter P (v_filocks st)"]
  by (auto simp: file_ok_def locks_ok_def list_all_iff holds_lock_def)


section \<open>Properties\<close>

text \<open>The data of the witnesses: a file with three locks of two processes.\<close>

definition req :: "int \<Rightarrow> int \<Rightarrow> int \<Rightarrow> int \<Rightarrow> flock" where
  "req t s e p = \<lparr>l_type = t, l_whence = 0, l_start = s, l_len = e, l_sysid = 0, l_pid = p\<rparr>"

definition lk :: "flock \<Rightarrow> int \<Rightarrow> nat \<Rightarrow> filock" where
  "lk l w i = \<lparr>lset = l, wakeflg = w, blk_pid = 0, lck_id = i\<rparr>"

definition flk0 :: flk where
  "flk0 = \<lparr>reccnt = 3, rectot = 3, t_flckrec = 10, kmem_ok = (\<lambda>n. True), kmem_n = 0, next_id = 4,
     v_filocks = [lk (req F_WRLCK 0 9 5) 1 1, lk (req F_RDLCK 20 29 7) 0 2, lk (req F_RDLCK 25 39 5) 0 3],
     sleeplcks = [], lck_wakes = []\<rparr>"

lemma flk0_ok: "file_ok flk0"
  by (auto simp: file_ok_def locks_ok_def exclusive_def flk0_def lk_def req_def before_ok_def sep_def
      good_lock_def owner_def covers_def lock_types)

text \<open>
  C3: \<open>flckadj\<close>, called where \<open>reclock\<close> calls it, lays the request over the list: the owner
  holds exactly the requested type on every byte of the request (nothing after an unlock), every
  other byte of every owner is held as before, and the list stays sorted with the locks of one
  owner apart.  When it fails with \<open>ENOLCK\<close> nothing is held that was not held before.
\<close>

theorem flckadj_correct:
  assumes "locks_ok ls" and "l_start ld \<le> l_end ld"
    and "l_type ld = F_UNLCK \<and> ip \<le> 1 \<or>
      (l_type ld = F_RDLCK \<or> l_type ld = F_WRLCK) \<and> blocked xen ls ld = (None, ip)"
    and "flckadj ls ip ld st = (e, ld', ls', st')"
  shows "adjusted e ld ls ls'"
  using flckadj_spec [OF _ _ assms(4)] unlock_start [OF assms(1,2)] blocked_start [OF assms(1,2)] assms(3) by blast

theorem flckadj_correct_witness:
  "\<exists>ld' ls' st'. flckadj (v_filocks flk0) 1 (req F_UNLCK 3 5 5) flk0 = (None, ld', ls', st') \<and> length ls' = 4 \<and>
     adjusted None (req F_UNLCK 3 5 5) (v_filocks flk0) ls'"
proof -
  let ?r = "flckadj (v_filocks flk0) 1 (req F_UNLCK 3 5 5) flk0"
  have c: "fst ?r = None \<and> length (fst (snd (snd ?r))) = 4" by code_simp
  have r: "?r = (None, fst (snd ?r), fst (snd (snd ?r)), snd (snd (snd ?r)))"
    using c by (metis prod.collapse)
  have "adjusted None (req F_UNLCK 3 5 5) (v_filocks flk0) (fst (snd (snd ?r)))"
    by (rule flckadj_correct [OF _ _ _ r]) (use flk0_ok in \<open>simp_all add: file_ok_def req_def\<close>)
  then show ?thesis using r c by metis
qed

text \<open>
  \<open>blocked\<close> finds a conflicting lock exactly when there is one, and then the first of the list.
\<close>

theorem blocked_correct:
  assumes "locks_ok ls" and "l_start ld \<le> l_end ld"
  shows "case fst (blocked xen ls ld) of
      None \<Rightarrow> list_all (\<lambda>f. \<not> conflict xen ld f) ls
    | Some j \<Rightarrow> 0 < j \<and> j \<le> length ls \<and> conflict xen ld (ls ! (j - 1)) \<and>
        list_all (\<lambda>f. \<not> conflict xen ld f) (take (j - 1) ls)"
  using blocked_spec [OF assms, of xen] by (simp add: block_spec_def split: option.splits)

theorem blocked_correct_witness:
  "fst (blocked False (v_filocks flk0) (req F_WRLCK 30 31 7)) = Some 3 \<and>
   conflict False (req F_WRLCK 30 31 7) (v_filocks flk0 ! 2)"
proof -
  have b: "fst (blocked False (v_filocks flk0) (req F_WRLCK 30 31 7)) = Some 3" by code_simp
  show ?thesis
    using blocked_correct [of "v_filocks flk0" "req F_WRLCK 30 31 7" False] flk0_ok
    unfolding b by (simp add: file_ok_def req_def)
qed

text \<open>
  The bookkeeping of \<open>flckadj\<close>: \<open>reccnt\<close> changes with the number of locks and does not pass its
  limit, and a lock somebody sleeps on either stays as it is or has its sleepers woken.
\<close>

theorem flckadj_accounts:
  assumes "flckadj ls ip ld st = (e, ld', ls', st')"
  shows "accounts ls st ls' st'"
  using assms by (rule flckadj_accounts_lemma)

theorem flckadj_accounts_witness:
  "\<exists>e ld' ls' st'. flckadj (v_filocks flk0) 1 (req F_UNLCK 3 5 5) flk0 = (e, ld', ls', st') \<and>
     lck_wakes st' = [1] \<and> reccnt st' = 4 \<and> accounts (v_filocks flk0) flk0 ls' st'"
proof -
  let ?r = "flckadj (v_filocks flk0) 1 (req F_UNLCK 3 5 5) flk0"
  have c: "lck_wakes (snd (snd (snd ?r))) = [1] \<and> reccnt (snd (snd (snd ?r))) = 4" by code_simp
  have r: "?r = (fst ?r, fst (snd ?r), fst (snd (snd ?r)), snd (snd (snd ?r)))" by simp
  show ?thesis using flckadj_accounts [OF r] r c by blast
qed

text \<open>
  C1: \<open>reclock\<close> never lets two owners hold a byte unless both only read: whatever the request, and
  whatever the others do while the caller sleeps as long as they keep the list in order, the list
  it leaves is in order and exclusive.
\<close>

theorem reclock_exclusive:
  assumes "reclock x slp sz ld cmd flag offset st = Some (e, ld', st')"
    and "keeps_file_ok slp" and "locks_ok (v_filocks st)" and "exclusive (v_filocks st)"
  shows "locks_ok (v_filocks st') \<and> exclusive (v_filocks st')"
  using reclock_file_ok [OF assms(1,2)] assms(3,4) by (simp add: file_ok_def)

definition xenix0 :: xenix where
  "xenix0 = \<lparr>VIRTUAL_XOUT = False, ISFCNTL = False, ISLOCKING = False, BADVISE_PRE_SV = False\<rparr>"

text \<open>Process 7 asks for bytes of process 5, sleeps, and gets them once the others have let go.\<close>

theorem reclock_exclusive_witness:
  "\<exists>ld' st'. reclock xenix0 (\<lambda>i s. (False, s\<lparr>v_filocks := []\<rparr>)) (Inr 100) (req F_WRLCK 5 3 7) (SETFLCK OR SLPFLCK)
       FWRITE 0 flk0 = Some (None, ld', st') \<and> length (v_filocks st') = 1 \<and> exclusive (v_filocks st')"
proof -
  let ?slp = "\<lambda>i s. (False, s\<lparr>v_filocks := []\<rparr>) :: bool \<times> flk"
  let ?r = "reclock xenix0 ?slp (Inr 100) (req F_WRLCK 5 3 7) (SETFLCK OR SLPFLCK) FWRITE 0 flk0"
  have c: "map_option (\<lambda>r. (fst r, length (v_filocks (snd (snd r))))) ?r = Some (None, 1)" by code_simp
  then obtain ld' st' where r: "?r = Some (None, ld', st')" "length (v_filocks st') = 1" by auto
  have "keeps_file_ok ?slp" by (simp add: keeps_file_ok_def exclusive_def)
  then show ?thesis using reclock_exclusive [OF r(1)] flk0_ok r by (auto simp: file_ok_def)
qed

text \<open>
  C21: the deadlock test.  When no owner sleeps with two requests at a time and no requests wait in a
  circle, \<open>deadflck\<close> ends; it says yes exactly when the owner of the blocking lock waits, directly
  or through others, for the caller.  When it says no and the caller, not asleep itself, is put to
  sleep on that lock, there is again no circle and no owner with two requests.
\<close>

theorem deadflck_correct:
  assumes "acyclic (waits (sleeplcks st))" and "single_valued (waits (sleeplcks st))"
  shows "deadflck (sleeplcks st) found ld = Some ((owner (lset found), owner ld) \<in> (waits (sleeplcks st))\<^sup>*) \<and>
    (deadflck (sleeplcks st) found ld = Some False \<longrightarrow> add_sleeper ld found st = Some (sf, st') \<longrightarrow>
     acyclic (waits (sleeplcks st')) \<and>
     (owner ld \<notin> Domain (waits (sleeplcks st)) \<longrightarrow> single_valued (waits (sleeplcks st'))))"
proof -
  have d: "deadflck (sleeplcks st) found ld = Some ((owner (lset found), owner ld) \<in> (waits (sleeplcks st))\<^sup>*)"
    using dead_walk_result [OF assms] by (simp add: deadflck_def)
  moreover have "acyclic (waits (sleeplcks st')) \<and>
      (owner ld \<notin> Domain (waits (sleeplcks st)) \<longrightarrow> single_valued (waits (sleeplcks st')))"
    if "(owner (lset found), owner ld) \<notin> (waits (sleeplcks st))\<^sup>*" "add_sleeper ld found st = Some (sf, st')"
    using add_sleeper_waits [OF that(2)] assms that(1) by (auto simp: acyclic_insert single_valued_def)
  ultimately show ?thesis by simp
qed

theorem deadflck_correct_witness:
  "\<exists>sf st'. add_sleeper (req F_WRLCK 0 0 7) (lk (req F_WRLCK 0 9 5) 0 1) flk0 = Some (sf, st') \<and>
     deadflck (sleeplcks st') (lk (req F_RDLCK 20 29 7) 0 2) (req F_WRLCK 20 20 5) = Some True \<and>
     ((7, 0), (5, 0)) \<in> (waits (sleeplcks st'))\<^sup>*"
proof -
  let ?a = "add_sleeper (req F_WRLCK 0 0 7) (lk (req F_WRLCK 0 9 5) 0 1) flk0"
  obtain sf st' where a: "?a = Some (sf, st')" "sleeplcks st' = [sf]" "owner (lset sf) = (7, 0)"
    "(blk_pid sf, blk_sysid sf) = (5, 0)"
    by (simp add: add_sleeper_def new_lock_def flk0_def lk_def req_def owner_def Let_def)
  have w: "waits (sleeplcks st') = {((7, 0), (5, 0))}"
    using a(2-4) by (simp add: waits_def)
  have ac: "acyclic (waits (sleeplcks st'))" unfolding w by (simp add: acyclic_def trancl_insert)
  have sv: "single_valued (waits (sleeplcks st'))" unfolding w by (simp add: single_valued_def)
  have "((7, 0), (5, 0)) \<in> (waits (sleeplcks st'))\<^sup>*" unfolding w by auto
  then show ?thesis
    using deadflck_correct [OF ac sv, of "lk (req F_RDLCK 20 29 7) 0 2" "req F_WRLCK 20 20 5"] a(1)
    by (auto simp: lk_def req_def owner_def)
qed

text \<open>
  C38: the mandatory check of a read or write that may not wait: \<open>chklock\<close> returns \<open>EAGAIN\<close>
  exactly when another owner holds a conflicting lock on a byte of the transfer, and changes
  nothing.
\<close>

theorem chklock_correct:
  assumes "locks_ok (v_filocks st)" and "\<not> VIRTUAL_XOUT x" and "\<not> ISLOCKING x" and "\<not> BADVISE_PRE_SV x"
    and "0 \<le> offset" and "0 < len" and "offset + len - 1 \<le> MAXEND" and "has fmode (FNDELAY OR FNONBLOCK)"
  shows "chklock x slp (Inr va_size) epid sysid iomode offset len fmode st =
    Some (if list_ex (conflict False (mandatory epid sysid iomode offset len)) (v_filocks st) then Some EAGAIN else None, st)"
  using assms by (rule chklock_result)

theorem chklock_correct_witness:
  "chklock xenix0 (\<lambda>i s. (False, s)) (Inr 100) 7 0 FWRITE 5 3 FNDELAY flk0 = Some (Some EAGAIN, flk0) \<and>
   chklock xenix0 (\<lambda>i s. (False, s)) (Inr 100) 7 0 FREAD 26 10 FNDELAY flk0 = Some (None, flk0)"
proof -
  have x: "\<not> VIRTUAL_XOUT xenix0" "\<not> ISLOCKING xenix0" "\<not> BADVISE_PRE_SV xenix0" by (simp_all add: xenix0_def)
  have f: "has FNDELAY (FNDELAY OR FNONBLOCK)" by (simp add: has_def FNDELAY_def FNONBLOCK_def)
  have ok: "locks_ok (v_filocks flk0)" using flk0_ok by (simp add: file_ok_def)
  have c: "list_ex (conflict False (mandatory 7 0 FWRITE 5 3)) (v_filocks flk0)"
    "\<not> list_ex (conflict False (mandatory 7 0 FREAD 26 10)) (v_filocks flk0)"
    by code_simp+
  show ?thesis
    using chklock_correct [OF ok x _ _ _ f, of 5 3 _ 100 7 0 FWRITE] chklock_correct [OF ok x _ _ _ f, of 26 10 _ 100 7 0 FREAD] c
    by (simp add: MAXEND_def)
qed

text \<open>
  \<open>cleanlocks\<close> takes away exactly the locks of the process (of all processes of the system for
  \<open>IGN_PID\<close>), wakes everyone who sleeps on one of them, gives their records back, and leaves the
  other locks in order and exclusive.
\<close>

theorem cleanlocks_correct:
  assumes "file_ok st"
  shows "v_filocks (cleanlocks pid sysid st) = filter (\<lambda>f. \<not> of_process pid sysid f) (v_filocks st) \<and>
    lck_wakes (cleanlocks pid sysid st) =
      lck_wakes st @ map lck_id (filter (\<lambda>f. of_process pid sysid f \<and> wakeflg f \<noteq> 0) (v_filocks st)) \<and>
    reccnt (cleanlocks pid sysid st) = reccnt st - int (length (filter (of_process pid sysid) (v_filocks st))) \<and>
    file_ok (cleanlocks pid sysid st)"
  using cleanlocks_result [of pid sysid st] file_ok_filter [OF assms, where P = "\<lambda>f. \<not> of_process pid sysid f"]
  by (simp add: file_ok_def)

theorem cleanlocks_correct_witness:
  "map lck_id (v_filocks (cleanlocks 5 0 flk0)) = [2] \<and> lck_wakes (cleanlocks 5 0 flk0) = [1] \<and>
   file_ok (cleanlocks 5 0 flk0)"
  using cleanlocks_correct [OF flk0_ok, of 5 0]
  by (simp add: flk0_def lk_def req_def of_process_def IGN_PID_def)

end
