(* ===== verification/Msg.thy ===== *)
theory Msg imports Sem begin

text \<open>
  The message facility, \<open>os/msg.c\<close>: queues of messages whose headers come from one free list and
  whose texts lie in one buffer that the resource map \<open>msgmap\<close> hands out in segments, and the
  system calls \<open>msgget\<close>, \<open>msgctl\<close>, \<open>msgsnd\<close> and \<open>msgrcv\<close>.  A header is its index in \<open>msgh\<close>; the
  chain from \<open>msg_first\<close> to \<open>msg_last\<close> and the chain \<open>msgfp\<close> are lists of headers; \<open>msgmem\<close> is the
  buffer at \<open>msg\<close>.  \<open>msglock\<close> has a flag for each queue.  A call that sleeps names the channel it
  sleeps on; \<open>msg_wakes\<close> logs the calls of \<open>wakeprocs\<close> (whose preemption flag is left out).
\<close>

section \<open>State\<close>

record msg =
  msg_type :: int
  msg_ts :: u16
  msg_spot :: int

record msqid_ds =
  msg_perm :: ipc_perm
  msg_q :: "nat list"
  msg_cbytes :: u32
  msg_qnum :: u32
  msg_qbytes :: u32
  msg_lspid :: int
  msg_lrpid :: int
  msg_stime :: int
  msg_rtime :: int
  msg_ctime :: int

record msginfo =
  mi_map :: nat
  msgmax :: int
  msgmnb :: int
  msgmni :: int
  msgssz :: int
  msgtql :: int
  msgseg :: u16

datatype msg_chan = ChLock nat | ChSend nat | ChRecv nat | ChHdr | ChMap

record msgst =
  minfo :: msginfo
  msgque :: "msqid_ds list"
  msgh :: "msg list"
  msgfp :: "nat list"
  msgmap :: rmap
  msgmem :: "u8 list"
  msglock :: "bool list"
  msg_wakes :: "msg_chan list"
  msg_cnt :: nat

type_synonym msg_sleep = "msg_chan \<Rightarrow> msgst \<Rightarrow> bool \<times> msgst"

definition MSG_R :: u32 where "MSG_R = 0x100"
definition MSG_W :: u32 where "MSG_W = 0x80"
definition MSG_RWAIT :: u32 where "MSG_RWAIT = 0x200"
definition MSG_WWAIT :: u32 where "MSG_WWAIT = 0x400"
definition MSG_NOERROR :: u32 where "MSG_NOERROR = 0x1000"
definition USHRT_MAX :: int where "USHRT_MAX = 65535"
definition SHRT_MAX :: int where "SHRT_MAX = 32767"

definition upd_que :: "nat \<Rightarrow> (msqid_ds \<Rightarrow> msqid_ds) \<Rightarrow> msgst \<Rightarrow> msgst" where
  "upd_que i f st = st\<lparr>msgque := (msgque st)[i := f (msgque st ! i)]\<rparr>"

definition msg_wake :: "msg_chan \<Rightarrow> msgst \<Rightarrow> msgst" where
  "msg_wake c st = st\<lparr>msg_wakes := msg_wakes st @ [c]\<rparr>"

definition upd_mode :: "(u32 \<Rightarrow> u32) \<Rightarrow> msqid_ds \<Rightarrow> msqid_ds" where
  "upd_mode f q = q\<lparr>msg_perm := (msg_perm q)\<lparr>mode := f (mode (msg_perm q))\<rparr>\<rparr>"

section \<open>Headers, segments and locks\<close>

text \<open>\<open>btoq\<close>, in \<open>long\<close> arithmetic; the quotient of non-negative numbers is that of C.\<close>

definition btoq :: "msgst \<Rightarrow> int \<Rightarrow> u32" where
  "btoq st x = word_of_int ((x + msgssz (minfo st) - 1) div msgssz (minfo st))"

text \<open>Putting a header on the free list; who waits for one is woken when there was none.\<close>

definition put_hdr :: "nat \<Rightarrow> msgst \<Rightarrow> msgst" where
  "put_hdr mp st =
     (let st1 = (if msgfp st = [] then msg_wake ChHdr st else st) in st1\<lparr>msgfp := mp # msgfp st1\<rparr>)"

text \<open>\<open>msgfree\<close> of the \<open>k\<close>-th message of queue \<open>i\<close>, with the wakeup of waiting senders.\<close>

definition wake_senders :: "nat \<Rightarrow> msgst \<Rightarrow> msgst" where
  "wake_senders i st =
     (if mode (msg_perm (msgque st ! i)) AND MSG_WWAIT \<noteq> 0
      then msg_wake (ChSend i) (upd_que i (upd_mode (\<lambda>m. m AND NOT MSG_WWAIT)) st) else st)"

definition msgfree :: "nat \<Rightarrow> nat \<Rightarrow> msgst \<Rightarrow> msgst" where
  "msgfree i k st =
     (let mp = msg_q (msgque st ! i) ! k;
          st1 = upd_que i (\<lambda>q. q\<lparr>msg_q := take k (msg_q q) @ drop (k + 1) (msg_q q), msg_qnum := msg_qnum q - 1\<rparr>) st;
          st2 = wake_senders i st1;
          m = msgh st2 ! mp;
          st3 = (if msg_ts m \<noteq> 0
                 then st2\<lparr>msgmap := rmfree (msgmap st2) (btoq st2 (int (unat (msg_ts m)))) (word_of_int (msg_spot m + 1))\<rparr>
                 else st2)
      in put_hdr mp st3)"

text \<open>
  The lock of a queue.  \<open>lock_wait\<close> is the loop \<open>while (*lockp) sleep (lockp)\<close>, which need not end.
\<close>

partial_function (option) lock_wait :: "msg_sleep \<Rightarrow> nat \<Rightarrow> msgst \<Rightarrow> msgst option" where
  [code]: "lock_wait slp i st =
     (if msglock st ! i then lock_wait slp i (snd (slp (ChLock i) st)) else Some st)"

definition set_lock :: "nat \<Rightarrow> bool \<Rightarrow> msgst \<Rightarrow> msgst" where
  "set_lock i b st = st\<lparr>msglock := (msglock st)[i := b]\<rparr>"

definition unlock :: "nat \<Rightarrow> msgst \<Rightarrow> msgst" where
  "unlock i st = msg_wake (ChLock i) (set_lock i False st)"

definition msgconv :: "msg_sleep \<Rightarrow> int \<Rightarrow> msgst \<Rightarrow> ((errno + nat) \<times> msgst) option" where
  "msgconv slp id1 st =
     (if id1 < 0 then Some (Inl EINVAL, st)
      else
        let i = nat (id1 mod msgmni (minfo st))
        in case lock_wait slp i st of
             None \<Rightarrow> None
           | Some st1 \<Rightarrow>
               (let st2 = set_lock i True st1; p = msg_perm (msgque st2 ! i)
                in if mode p AND IPC_ALLOC = 0 \<or> id1 div msgmni (minfo st2) \<noteq> int (unat (seq p))
                   then Some (Inl EINVAL, unlock i st2)
                   else Some (Inr i, st2)))"

section \<open>Control\<close>

record o_msqid_ds =
  om_uid :: u16
  om_gid :: u16
  om_cuid :: u16
  om_cgid :: u16
  om_mode :: u16
  om_seq :: u16
  om_key :: int
  om_cbytes :: u16
  om_qnum :: u16
  om_qbytes :: u16
  om_lspid :: int
  om_lrpid :: int
  om_stime :: int
  om_rtime :: int
  om_ctime :: int

text \<open>The user's memory: what \<open>copyin\<close> delivers (\<open>None\<close> for a fault), whether \<open>copyout\<close> succeeds.\<close>

record msg_user =
  in_ods :: "o_msqid_ds option"
  in_ds :: "msqid_ds option"
  in_type :: "int option"
  in_text :: "u8 list option"
  out_ds :: bool
  out_type :: bool
  out_text :: bool

datatype msgctl_out = MoNone | MoOds o_msqid_ds | MoDs msqid_ds

fun rmid_free :: "nat \<Rightarrow> nat list \<Rightarrow> msgst \<Rightarrow> msgst" where
  "rmid_free i [] st = st"
| "rmid_free i (m # ms) st = rmid_free i ms (msgfree i 0 st)"

definition msgctl_rmid :: "int \<Rightarrow> nat \<Rightarrow> msgst \<Rightarrow> msgst" where
  "msgctl_rmid id1 i st =
     (let st1 = rmid_free i (msg_q (msgque st ! i)) st;
          st2 = upd_que i (\<lambda>q. q\<lparr>msg_cbytes := 0, msg_perm := (msg_perm q)
                  \<lparr>seq := (if unat (word_of_int (id1 + msgmni (minfo st1)) :: u32) > INT16_MAX then 0
                           else seq (msg_perm q) + 1)\<rparr>\<rparr>) st1;
          p = msg_perm (msgque st2 ! i);
          st3 = (if mode p AND MSG_RWAIT \<noteq> 0 then msg_wake (ChRecv i) st2 else st2);
          st4 = (if mode p AND MSG_WWAIT \<noteq> 0 then msg_wake (ChSend i) st3 else st3)
      in upd_que i (upd_mode (\<lambda>m. 0)) st4)"

definition msg_set :: "int \<Rightarrow> int \<Rightarrow> u32 \<Rightarrow> u32 \<Rightarrow> caller \<Rightarrow> msqid_ds \<Rightarrow> msqid_ds" where
  "msg_set ud gd md qb u q =
     q\<lparr>msg_perm := (msg_perm q)\<lparr>uid := ud, gid := gd,
         mode := (mode (msg_perm q) AND NOT 0x1FF) OR (md AND 0x1FF)\<rparr>,
       msg_qbytes := qb, msg_ctime := hrestime u\<rparr>"

definition o_msqid_of :: "msqid_ds \<Rightarrow> o_msqid_ds option" where
  "o_msqid_of q =
     (let p = msg_perm q in
      if uid p > USHRT_MAX \<or> gid p > USHRT_MAX \<or> cuid p > USHRT_MAX \<or> cgid p > USHRT_MAX \<or>
         int (unat (seq p)) > USHRT_MAX \<or> int (unat (msg_cbytes q)) > USHRT_MAX \<or>
         int (unat (msg_qnum q)) > USHRT_MAX \<or> int (unat (msg_qbytes q)) > USHRT_MAX \<or>
         msg_lspid q > SHRT_MAX \<or> msg_lrpid q > SHRT_MAX
      then None
      else Some \<lparr>om_uid = word_of_int (uid p), om_gid = word_of_int (gid p), om_cuid = word_of_int (cuid p),
        om_cgid = word_of_int (cgid p), om_mode = ucast (mode p), om_seq = ucast (seq p), om_key = key p,
        om_cbytes = ucast (msg_cbytes q), om_qnum = ucast (msg_qnum q), om_qbytes = ucast (msg_qbytes q),
        om_lspid = s16 (msg_lspid q), om_lrpid = s16 (msg_lrpid q), om_stime = msg_stime q,
        om_rtime = msg_rtime q, om_ctime = msg_ctime q\<rparr>)"

text \<open>The \<open>switch\<close> of \<open>msgctl\<close>, entered with the queue locked, and the whole call.\<close>

definition msgctl_cmd ::
    "msg_user \<Rightarrow> caller \<Rightarrow> int \<Rightarrow> int \<Rightarrow> nat \<Rightarrow> msgst \<Rightarrow> (errno + msgctl_out) \<times> msgst" where
  "msgctl_cmd usr u id1 cmd i st =
     (let q = msgque st ! i; p = msg_perm q
      in if cmd = IPC_O_RMID \<or> cmd = IPC_RMID then
           (if \<not> may_control u p then (Inl EPERM, st) else (Inr MoNone, msgctl_rmid id1 i st))
         else if cmd = IPC_O_SET then
           (if \<not> may_control u p then (Inl EPERM, st)
            else case in_ods usr of
              None \<Rightarrow> (Inl EFAULT, st)
            | Some d \<Rightarrow>
                if unat (om_qbytes d) > unat (msg_qbytes q) \<and> \<not> suser (u_cred u) then (Inl EPERM, st)
                else if int (unat (om_uid d)) > MAXUID \<or> int (unat (om_gid d)) > MAXUID then (Inl EINVAL, st)
                else (Inr MoNone, upd_que i (msg_set (int (unat (om_uid d))) (int (unat (om_gid d)))
                        (ucast (om_mode d)) (ucast (om_qbytes d)) u) st))
         else if cmd = IPC_SET then
           (if \<not> may_control u p then (Inl EPERM, st)
            else case in_ds usr of
              None \<Rightarrow> (Inl EFAULT, st)
            | Some d \<Rightarrow>
                let dp = msg_perm d
                in if msg_qbytes d > msg_qbytes q \<and> \<not> suser (u_cred u) then (Inl EPERM, st)
                   else if uid dp < 0 \<or> uid dp > MAXUID \<or> gid dp < 0 \<or> gid dp > MAXUID then (Inl EINVAL, st)
                   else (Inr MoNone, upd_que i (msg_set (uid dp) (gid dp) (mode dp) (msg_qbytes d) u) st))
         else if cmd = IPC_O_STAT then
           (case ipcaccess p MSG_R (u_cred u) of
              Some e \<Rightarrow> (Inl e, st)
            | None \<Rightarrow>
                (case o_msqid_of q of
                   None \<Rightarrow> (Inl EOVERFLOW, st)
                 | Some d \<Rightarrow> (if out_ds usr then Inr (MoOds d) else Inl EFAULT, st)))
         else if cmd = IPC_STAT then
           (case ipcaccess p MSG_R (u_cred u) of
              Some e \<Rightarrow> (Inl e, st)
            | None \<Rightarrow> (if out_ds usr then Inr (MoDs q) else Inl EFAULT, st))
         else (Inl EINVAL, st))"

definition msgctl ::
    "msg_sleep \<Rightarrow> msg_user \<Rightarrow> caller \<Rightarrow> int \<Rightarrow> int \<Rightarrow> msgst \<Rightarrow> ((errno + msgctl_out) \<times> msgst) option" where
  "msgctl slp usr u id1 cmd st =
     (case msgconv slp id1 st of
        None \<Rightarrow> None
      | Some (Inl e, st1) \<Rightarrow> Some (Inl e, st1)
      | Some (Inr i, st1) \<Rightarrow>
          (case msgctl_cmd usr u id1 cmd i st1 of (r, st2) \<Rightarrow> Some (r, unlock i st2)))"

section \<open>Creation\<close>

definition set_que_perms :: "ipc_perm list \<Rightarrow> msqid_ds list \<Rightarrow> msqid_ds list" where
  "set_que_perms ps qs = map (\<lambda>(p, q). q\<lparr>msg_perm := p\<rparr>) (zip ps qs)"

definition msgget :: "caller \<Rightarrow> int \<Rightarrow> u32 \<Rightarrow> msgst \<Rightarrow> (errno + int) \<times> msgst" where
  "msgget u k msgflg st =
     (case ipcget k msgflg (map msg_perm (msgque st)) (u_cred u) of
        Inl e \<Rightarrow> (Inl e, st)
      | Inr (s, i, perms) \<Rightarrow>
        (let st1 = st\<lparr>msgque := set_que_perms perms (msgque st)\<rparr>;
             st2 = (if s then upd_que i (\<lambda>q. q\<lparr>msg_q := [], msg_qnum := 0,
                        msg_qbytes := ucast (word_of_int (msgmnb (minfo st)) :: u16), msg_lspid := 0, msg_lrpid := 0,
                        msg_stime := 0, msg_rtime := 0, msg_ctime := hrestime u\<rparr>) st1
                    else st1)
         in (Inr (s32 (int (unat (seq (msg_perm (msgque st2 ! i)))) * msgmni (minfo st) + int i)), st2)))"

text \<open>\<open>msginit\<close>; \<open>kseg\<close> is the buffer it gets, or nothing.\<close>

definition msginit :: "u8 list option \<Rightarrow> msgst \<Rightarrow> msgst" where
  "msginit kseg st =
     (let st1 = (case kseg of
                   None \<Rightarrow> st\<lparr>minfo := (minfo st)\<lparr>msgseg := 0\<rparr>\<rparr>
                 | Some mem \<Rightarrow> st\<lparr>msgmem := mem\<rparr>)
      in st1\<lparr>msgmap := rmfree (mapinit (mi_map (minfo st1))) (ucast (msgseg (minfo st1))) 1,
             msgfp := [0..<max 1 (nat (msgtql (minfo st1)))]\<rparr>)"

section \<open>Receiving\<close>

text \<open>
  The search of \<open>msgrcv\<close> through a queue: \<open>k\<close> is the position of the current message, \<open>best\<close> the
  position and type of the one found so far (\<open>smp\<close>).
\<close>

fun find_type :: "int \<Rightarrow> nat \<Rightarrow> (nat \<times> int) option \<Rightarrow> int list \<Rightarrow> nat option" where
  "find_type typ k best [] = map_option fst best"
| "find_type typ k best (t # ts) =
     (if typ > 0 then (if typ \<noteq> t then find_type typ (k + 1) best ts else Some k)
      else if t \<le> s32 (- typ) then
        (case best of
           Some (j, t') \<Rightarrow> if t' \<le> t then find_type typ (k + 1) best ts else find_type typ (k + 1) (Some (k, t)) ts
         | None \<Rightarrow> find_type typ (k + 1) (Some (k, t)) ts)
      else find_type typ (k + 1) best ts)"

definition select_msg :: "int \<Rightarrow> int list \<Rightarrow> nat option" where
  "select_msg typ ts = (if typ = 0 then (if ts = [] then None else Some 0) else find_type typ 0 None ts)"

definition queue_types :: "msgst \<Rightarrow> nat \<Rightarrow> int list" where
  "queue_types st i = map (\<lambda>h. msg_type (msgh st ! h)) (msg_q (msgque st ! i))"

text \<open>Delivering the \<open>k\<close>-th message: its type, its size and its text.\<close>

definition text_at :: "msgst \<Rightarrow> int \<Rightarrow> nat \<Rightarrow> u8 list" where
  "text_at st spot n = take n (drop (nat (msgssz (minfo st) * spot)) (msgmem st))"

definition deliver ::
    "msg_user \<Rightarrow> caller \<Rightarrow> nat \<Rightarrow> nat \<Rightarrow> int \<Rightarrow> u32 \<Rightarrow> msgst \<Rightarrow> (errno + int \<times> int \<times> u8 list) \<times> msgst" where
  "deliver usr u i k msgsz msgflg st =
     (let m = msgh st ! (msg_q (msgque st ! i) ! k); ts = int (unat (msg_ts m))
      in if take_bit 32 msgsz < ts \<and> msgflg AND MSG_NOERROR = 0 then (Inl E2BIG, st)
         else
           let sz = (if take_bit 32 msgsz < ts then msgsz else ts)
           in if \<not> out_type usr then (Inl EFAULT, st)
              else if sz \<noteq> 0 \<and> \<not> out_text usr then (Inl EFAULT, st)
              else
                (Inr (sz, msg_type m, text_at st (msg_spot m) (nat sz)),
                 msgfree i k (upd_que i (\<lambda>q. q\<lparr>msg_cbytes := msg_cbytes q - ucast (msg_ts m), msg_lrpid := p_pid u,
                   msg_rtime := hrestime u\<rparr>) st)))"

partial_function (option) msgrcv_loop ::
    "msg_sleep \<Rightarrow> msg_user \<Rightarrow> caller \<Rightarrow> nat \<Rightarrow> int \<Rightarrow> int \<Rightarrow> int \<Rightarrow> u32 \<Rightarrow> msgst
      \<Rightarrow> ((errno + int \<times> int \<times> u8 list) \<times> msgst) option" where
  [code]: "msgrcv_loop slp usr u i id1 msgsz msgtyp msgflg st =
     (case msgconv slp id1 st of
        None \<Rightarrow> None
      | Some (Inl e, st1) \<Rightarrow> Some (Inl EIDRM, st1)
      | Some (Inr j, st1) \<Rightarrow>
          if j \<noteq> i then Some (Inl EIDRM, unlock j st1)
          else
            (case select_msg msgtyp (queue_types st1 i) of
               Some k \<Rightarrow> (case deliver usr u i k msgsz msgflg st1 of (r, st2) \<Rightarrow> Some (r, unlock i st2))
             | None \<Rightarrow>
                 if msgflg AND IPC_NOWAIT \<noteq> 0 then Some (Inl ENOMSG, unlock i st1)
                 else
                   (case slp (ChRecv i) (unlock i (upd_que i (upd_mode (\<lambda>m. m OR MSG_RWAIT)) st1)) of
                      (intr, st2) \<Rightarrow>
                        if intr then Some (Inl EINTR, st2)
                        else msgrcv_loop slp usr u i id1 msgsz msgtyp msgflg st2)))"

definition msgrcv ::
    "msg_sleep \<Rightarrow> msg_user \<Rightarrow> caller \<Rightarrow> int \<Rightarrow> int \<Rightarrow> int \<Rightarrow> u32 \<Rightarrow> msgst
      \<Rightarrow> ((errno + int \<times> int \<times> u8 list) \<times> msgst) option" where
  "msgrcv slp usr u id1 msgsz msgtyp msgflg st =
     (case msgconv slp id1 (st\<lparr>msg_cnt := msg_cnt st + 1\<rparr>) of
        None \<Rightarrow> None
      | Some (Inl e, st1) \<Rightarrow> Some (Inl e, st1)
      | Some (Inr i, st1) \<Rightarrow>
          (case ipcaccess (msg_perm (msgque st1 ! i)) MSG_R (u_cred u) of
             Some e \<Rightarrow> Some (Inl e, unlock i st1)
           | None \<Rightarrow>
               if msgsz < 0 then Some (Inl EINVAL, unlock i st1)
               else msgrcv_loop slp usr u i id1 msgsz msgtyp msgflg (unlock i st1)))"

section \<open>Sending\<close>

definition write_text :: "msgst \<Rightarrow> int \<Rightarrow> u8 list \<Rightarrow> msgst" where
  "write_text st spot bs =
     (let a = nat (msgssz (minfo st) * spot)
      in st\<lparr>msgmem := take a (msgmem st) @ bs @ drop (a + length bs) (msgmem st)\<rparr>)"

text \<open>Everything is there: the header \<open>mp\<close> is filled in and goes to the end of the queue.\<close>

definition enqueue_msg :: "caller \<Rightarrow> nat \<Rightarrow> nat \<Rightarrow> int \<Rightarrow> int \<Rightarrow> int \<Rightarrow> msgst \<Rightarrow> msgst" where
  "enqueue_msg u i mp cnt typ spot st =
     (let st1 = upd_que i (\<lambda>q. q\<lparr>msg_qnum := msg_qnum q + 1, msg_cbytes := msg_cbytes q + word_of_int cnt,
            msg_lspid := p_pid u, msg_stime := hrestime u, msg_q := msg_q q @ [mp]\<rparr>) st;
          st2 = st1\<lparr>msgh := (msgh st1)[mp := \<lparr>msg_type = typ, msg_ts = word_of_int cnt,
            msg_spot = s16 (if cnt \<noteq> 0 then spot else -1)\<rparr>]\<rparr>
      in if mode (msg_perm (msgque st2 ! i)) AND MSG_RWAIT \<noteq> 0
         then msg_wake (ChRecv i) (upd_que i (upd_mode (\<lambda>m. m AND NOT MSG_RWAIT)) st2) else st2)"

text \<open>
  One round of \<open>msgsnd\<close> with the queue locked: it is done, or waits on a channel for space on the
  queue, a header or buffer space (\<open>SndWait\<close>, in the state before the lock is given up).
\<close>

datatype send_step = SndDone "errno + int" msgst | SndWait msg_chan msgst

definition send_text ::
    "msg_user \<Rightarrow> caller \<Rightarrow> nat \<Rightarrow> int \<Rightarrow> int \<Rightarrow> u32 \<Rightarrow> nat \<Rightarrow> msgst \<Rightarrow> send_step" where
  "send_text usr u i cnt typ msgflg mp st =
     (if cnt = 0 then SndDone (Inr 0) (enqueue_msg u i mp cnt typ 0 st)
      else case rmalloc (msgmap st) (btoq st cnt) of
        (a, mm) \<Rightarrow>
          (let st1 = st\<lparr>msgmap := mm\<rparr>
           in if a = 0 then
                (if msgflg AND IPC_NOWAIT \<noteq> 0 then SndDone (Inl EAGAIN) (put_hdr mp st1)
                 else SndWait ChMap (put_hdr mp (st1\<lparr>msgmap := (msgmap st1)\<lparr>mapwant := mapwant (msgmap st1) + 1\<rparr>\<rparr>)))
              else
                (case in_text usr of
                   None \<Rightarrow> SndDone (Inl EFAULT) (put_hdr mp (st1\<lparr>msgmap := rmfree (msgmap st1) (btoq st1 cnt) a\<rparr>))
                 | Some bs \<Rightarrow>
                     SndDone (Inr 0) (enqueue_msg u i mp cnt typ (int (unat a) - 1)
                       (write_text st1 (int (unat a) - 1) (take (nat cnt) bs))))))"

definition send_round ::
    "msg_user \<Rightarrow> caller \<Rightarrow> nat \<Rightarrow> int \<Rightarrow> int \<Rightarrow> u32 \<Rightarrow> msgst \<Rightarrow> send_step" where
  "send_round usr u i cnt typ msgflg st =
     (if word_of_int cnt + msg_cbytes (msgque st ! i) > msg_qbytes (msgque st ! i) then
        (if msgflg AND IPC_NOWAIT \<noteq> 0 then SndDone (Inl EAGAIN) st
         else SndWait (ChSend i) (upd_que i (upd_mode (\<lambda>m. m OR MSG_WWAIT)) st))
      else
        (case msgfp st of
           [] \<Rightarrow> if msgflg AND IPC_NOWAIT \<noteq> 0 then SndDone (Inl EAGAIN) st else SndWait ChHdr st
         | mp # fps \<Rightarrow> send_text usr u i cnt typ msgflg mp (st\<lparr>msgfp := fps\<rparr>)))"

text \<open>An interrupted sleep: the lock is taken again, and a sender waiting for space wakes the others.\<close>

definition send_intr ::
    "msg_sleep \<Rightarrow> nat \<Rightarrow> int \<Rightarrow> msg_chan \<Rightarrow> msgst \<Rightarrow> ((errno + int) \<times> msgst) option" where
  "send_intr slp i id1 c st =
     (case msgconv slp id1 st of
        None \<Rightarrow> None
      | Some (Inl e, st1) \<Rightarrow> Some (Inl e, st1)
      | Some (Inr j, st1) \<Rightarrow>
          if j \<noteq> i then Some (Inl EINTR, unlock j st1)
          else if c = ChSend i then
            Some (Inl EINTR, unlock i (msg_wake (ChSend i) (upd_que i (upd_mode (\<lambda>m. m AND NOT MSG_WWAIT)) st1)))
          else Some (Inl EINTR, unlock i st1))"

partial_function (option) msgsnd_loop ::
    "msg_sleep \<Rightarrow> msg_user \<Rightarrow> caller \<Rightarrow> nat \<Rightarrow> int \<Rightarrow> int \<Rightarrow> int \<Rightarrow> u32 \<Rightarrow> msgst \<Rightarrow> ((errno + int) \<times> msgst) option" where
  [code]: "msgsnd_loop slp usr u i id1 cnt typ msgflg st =
     (case msgconv slp id1 st of
        None \<Rightarrow> None
      | Some (Inl e, st1) \<Rightarrow> Some (Inl EIDRM, st1)
      | Some (Inr j, st1) \<Rightarrow>
          if j \<noteq> i then Some (Inl EIDRM, unlock j st1)
          else
            (case send_round usr u i cnt typ msgflg st1 of
               SndDone r st2 \<Rightarrow> Some (r, unlock i st2)
             | SndWait c st2 \<Rightarrow>
                 (case slp c (unlock i st2) of
                    (intr, st3) \<Rightarrow>
                      if intr then send_intr slp i id1 c st3
                      else msgsnd_loop slp usr u i id1 cnt typ msgflg st3)))"

definition msgsnd ::
    "msg_sleep \<Rightarrow> msg_user \<Rightarrow> caller \<Rightarrow> int \<Rightarrow> int \<Rightarrow> u32 \<Rightarrow> msgst \<Rightarrow> ((errno + int) \<times> msgst) option" where
  "msgsnd slp usr u id1 msgsz msgflg st =
     (case msgconv slp id1 (st\<lparr>msg_cnt := msg_cnt st + 1\<rparr>) of
        None \<Rightarrow> None
      | Some (Inl e, st1) \<Rightarrow> Some (Inl e, st1)
      | Some (Inr i, st1) \<Rightarrow>
          (case ipcaccess (msg_perm (msgque st1 ! i)) MSG_W (u_cred u) of
             Some e \<Rightarrow> Some (Inl e, unlock i st1)
           | None \<Rightarrow>
               if msgsz < 0 \<or> msgsz > msgmax (minfo st1) then Some (Inl EINVAL, unlock i st1)
               else
                 (case in_type usr of
                    None \<Rightarrow> Some (Inl EFAULT, unlock i st1)
                  | Some typ \<Rightarrow>
                      if typ < 1 then Some (Inl EINVAL, unlock i st1)
                      else msgsnd_loop slp usr u i id1 msgsz typ msgflg (unlock i st1))))"

text \<open>\<open>msgsys\<close>: the dispatch on the opcode.\<close>

datatype msg_args =
    MsggetArgs int u32
  | MsgctlArgs int int
  | MsgrcvArgs int int int u32
  | MsgsndArgs int int u32

datatype msg_result = RVal int | RCtl msgctl_out | RMsg int int "u8 list"

definition msgsys ::
    "msg_sleep \<Rightarrow> msg_user \<Rightarrow> caller \<Rightarrow> msg_args option \<Rightarrow> msgst \<Rightarrow> ((errno + msg_result) \<times> msgst) option" where
  "msgsys slp usr u uap st =
     (case uap of
        Some (MsggetArgs k msgflg) \<Rightarrow>
          (case msgget u k msgflg st of (r, st') \<Rightarrow> Some (map_sum (\<lambda>e. e) RVal r, st'))
      | Some (MsgctlArgs id1 cmd) \<Rightarrow> map_option (\<lambda>(r, st'). (map_sum (\<lambda>e. e) RCtl r, st')) (msgctl slp usr u id1 cmd st)
      | Some (MsgrcvArgs id1 msgsz msgtyp msgflg) \<Rightarrow>
          map_option (\<lambda>(r, st'). (map_sum (\<lambda>e. e) (\<lambda>(sz, t, bs). RMsg sz t bs) r, st'))
            (msgrcv slp usr u id1 msgsz msgtyp msgflg st)
      | Some (MsgsndArgs id1 msgsz msgflg) \<Rightarrow>
          map_option (\<lambda>(r, st'). (map_sum (\<lambda>e. e) RVal r, st')) (msgsnd slp usr u id1 msgsz msgflg st)
      | None \<Rightarrow> Some (Inl EINVAL, st))"

end
