(* ===== verification/Msg_Inv.thy ===== *)
theory Msg_Inv imports Msg Rmap begin

text \<open>
  The invariant of the message facility and what sending and receiving do to the queues, read as
  lists of typed texts.
\<close>

section \<open>The parts of a state\<close>

text \<open>The headers in use and free, and the segments of the buffer the queued messages occupy.\<close>

definition queued :: "msgst \<Rightarrow> nat list" where
  "queued st = concat (map msg_q (msgque st))"

definition seg :: "msgst \<Rightarrow> nat \<Rightarrow> u32 \<times> u32" where
  "seg st h = (word_of_int (msg_spot (msgh st ! h) + 1), btoq st (int (unat (msg_ts (msgh st ! h)))))"

definition segs :: "msgst \<Rightarrow> nat list \<Rightarrow> (u32 \<times> u32) list" where
  "segs st hs = map (seg st) (filter (\<lambda>h. msg_ts (msgh st ! h) \<noteq> 0) hs)"

definition que_bytes :: "msgst \<Rightarrow> nat list \<Rightarrow> u32" where
  "que_bytes st hs = sum_list (map (\<lambda>h. ucast (msg_ts (msgh st ! h))) hs)"

text \<open>
  The limits of the configuration, the headers (each on one queue or free), the segments (apart
  from each other and from the free ones) and the counts of each queue.
\<close>

definition msg_limits :: "msgst \<Rightarrow> bool" where
  "msg_limits st \<longleftrightarrow> length (msgque st) = nat (msgmni (minfo st)) \<and> 0 < msgmni (minfo st) \<and>
     length (msglock st) = length (msgque st) \<and> 0 < msgssz (minfo st) \<and> msgmax (minfo st) \<le> 65535 \<and>
     unat (msgseg (minfo st)) < 32768 \<and>
     nat (msgssz (minfo st)) * unat (msgseg (minfo st)) \<le> length (msgmem st)"

definition hdrs_ok :: "msgst \<Rightarrow> bool" where
  "hdrs_ok st \<longleftrightarrow> distinct (msgfp st @ queued st) \<and> set (msgfp st @ queued st) \<subseteq> {..<length (msgh st)}"

definition segs_ok :: "msgst \<Rightarrow> bool" where
  "segs_ok st \<longleftrightarrow> rmap_ok (msgmap st) \<and> holds (free_units (msgmap st)) (segs st (queued st)) \<and>
     free_units (msgmap st) \<subseteq> {1..unat (msgseg (minfo st))} \<and>
     (\<forall>b\<in>set (segs st (queued st)). block (fst b) (snd b) \<subseteq> {1..unat (msgseg (minfo st))})"

definition que_ok :: "msqid_ds \<Rightarrow> bool" where
  "que_ok q \<longleftrightarrow> msg_qnum q = of_nat (length (msg_q q)) \<and> (\<not> ipc_alloc (msg_perm q) \<longrightarrow> msg_q q = [])"

definition spots_ok :: "msgst \<Rightarrow> bool" where
  "spots_ok st \<longleftrightarrow> (\<forall>h\<in>set (queued st). msg_ts (msgh st ! h) \<noteq> 0 \<longrightarrow> 0 \<le> msg_spot (msgh st ! h) \<and> msg_spot (msgh st ! h) < 32767)"

definition msgs_core :: "msgst \<Rightarrow> bool" where
  "msgs_core st \<longleftrightarrow> msg_limits st \<and> hdrs_ok st \<and> segs_ok st \<and> spots_ok st \<and> list_all que_ok (msgque st)"

definition bytes_ok :: "msgst \<Rightarrow> msqid_ds \<Rightarrow> bool" where
  "bytes_ok st q \<longleftrightarrow> msg_cbytes q = que_bytes st (msg_q q)"

definition msgs_ok :: "msgst \<Rightarrow> bool" where
  "msgs_ok st \<longleftrightarrow> msgs_core st \<and> list_all (bytes_ok st) (msgque st)"

lemma segs_append [simp]: "segs st (xs @ ys) = segs st xs @ segs st ys"
  by (simp add: segs_def)

lemma segs_Cons: "segs st (h # hs) = (if msg_ts (msgh st ! h) \<noteq> 0 then [seg st h] else []) @ segs st hs"
  by (simp add: segs_def)

lemma segs_Nil [simp]: "segs st [] = []"
  by (simp add: segs_def)

lemma que_bytes_append [simp]: "que_bytes st (xs @ ys) = que_bytes st xs + que_bytes st ys"
  by (simp add: que_bytes_def)

lemma que_bytes_Cons [simp]: "que_bytes st (h # hs) = ucast (msg_ts (msgh st ! h)) + que_bytes st hs"
  by (simp add: que_bytes_def)

lemma que_bytes_Nil [simp]: "que_bytes st [] = 0"
  by (simp add: que_bytes_def)

lemma concat_update:
  assumes "i < length xs"
  shows "concat (xs[i := y]) = concat (take i xs) @ y @ concat (drop (Suc i) xs)"
  using assms by (simp add: upd_conv_take_nth_drop)

lemma queued_split:
  assumes "i < length (msgque st)"
  obtains a c where "queued st = a @ msg_q (msgque st ! i) @ c"
    and "\<And>st' q. msgque st' = (msgque st)[i := q] \<Longrightarrow> queued st' = a @ msg_q q @ c"
proof (rule that)
  let ?m = "map msg_q (msgque st)"
  show "queued st' = concat (take i ?m) @ msg_q q @ concat (drop (Suc i) ?m)"
    if "msgque st' = (msgque st)[i := q]" for st' q
    using assms concat_update [of i ?m "msg_q q"] by (simp add: queued_def that map_update)
  have c: "concat (?m[i := ?m ! i]) = concat (take i ?m) @ ?m ! i @ concat (drop (Suc i) ?m)"
    by (rule concat_update) (simp add: assms)
  show "queued st = concat (take i ?m) @ msg_q (msgque st ! i) @ concat (drop (Suc i) ?m)"
    using c assms unfolding list_update_id by (simp add: queued_def)
qed

text \<open>Segments and bytes only read the headers and the size of a segment.\<close>

lemma segs_cong:
  assumes "\<And>h. h \<in> set hs \<Longrightarrow> msgh st' ! h = msgh st ! h" and "minfo st' = minfo st"
  shows "segs st' hs = segs st hs"
  using assms by (induction hs) (auto simp: segs_Cons seg_def btoq_def)

lemma que_bytes_cong:
  assumes "\<And>h. h \<in> set hs \<Longrightarrow> msgh st' ! h = msgh st ! h"
  shows "que_bytes st' hs = que_bytes st hs"
  using assms by (induction hs) auto

section \<open>The primitives\<close>

lemma msg_wake_simps [simp]:
  "minfo (msg_wake c st) = minfo st" "msgque (msg_wake c st) = msgque st" "msgh (msg_wake c st) = msgh st"
  "msgfp (msg_wake c st) = msgfp st" "msgmap (msg_wake c st) = msgmap st" "msgmem (msg_wake c st) = msgmem st"
  "msglock (msg_wake c st) = msglock st"
  by (simp_all add: msg_wake_def)

lemma upd_que_simps [simp]:
  "minfo (upd_que i f st) = minfo st" "msgque (upd_que i f st) = (msgque st)[i := f (msgque st ! i)]"
  "msgh (upd_que i f st) = msgh st" "msgfp (upd_que i f st) = msgfp st" "msgmap (upd_que i f st) = msgmap st"
  "msgmem (upd_que i f st) = msgmem st" "msglock (upd_que i f st) = msglock st"
  by (simp_all add: upd_que_def)

lemma set_lock_simps [simp]:
  "minfo (set_lock i b st) = minfo st" "msgque (set_lock i b st) = msgque st" "msgh (set_lock i b st) = msgh st"
  "msgfp (set_lock i b st) = msgfp st" "msgmap (set_lock i b st) = msgmap st" "msgmem (set_lock i b st) = msgmem st"
  "msglock (set_lock i b st) = (msglock st)[i := b]"
  by (simp_all add: set_lock_def)

lemma put_hdr_simps [simp]:
  "minfo (put_hdr mp st) = minfo st" "msgque (put_hdr mp st) = msgque st" "msgh (put_hdr mp st) = msgh st"
  "msgfp (put_hdr mp st) = mp # msgfp st" "msgmap (put_hdr mp st) = msgmap st" "msgmem (put_hdr mp st) = msgmem st"
  "msglock (put_hdr mp st) = msglock st"
  by (simp_all add: put_hdr_def Let_def)

lemma upd_mode_simps [simp]:
  "msg_q (upd_mode f q) = msg_q q" "msg_cbytes (upd_mode f q) = msg_cbytes q" "msg_qnum (upd_mode f q) = msg_qnum q"
  "msg_qbytes (upd_mode f q) = msg_qbytes q" "msg_perm (upd_mode f q) = (msg_perm q)\<lparr>mode := f (mode (msg_perm q))\<rparr>"
  by (simp_all add: upd_mode_def)

lemma wake_senders_simps [simp]:
  "minfo (wake_senders i st) = minfo st" "msgh (wake_senders i st) = msgh st"
  "msgfp (wake_senders i st) = msgfp st" "msgmap (wake_senders i st) = msgmap st" "msgmem (wake_senders i st) = msgmem st"
  "msglock (wake_senders i st) = msglock st"
  by (simp_all add: wake_senders_def)

text \<open>The wait bits of the mode are not the allocation bit.\<close>

lemma alloc_bits [simp]:
  "ipc_alloc (p\<lparr>mode := mode p AND NOT MSG_WWAIT\<rparr>) = ipc_alloc p"
  "ipc_alloc (p\<lparr>mode := mode p OR MSG_WWAIT\<rparr>) = ipc_alloc p"
  "ipc_alloc (p\<lparr>mode := mode p AND NOT MSG_RWAIT\<rparr>) = ipc_alloc p"
  "ipc_alloc (p\<lparr>mode := mode p OR MSG_RWAIT\<rparr>) = ipc_alloc p"
  by (simp_all add: ipc_alloc_iff MSG_WWAIT_def MSG_RWAIT_def bit_simps)

lemma wake_senders_que:
  "msgque (wake_senders i st) = (msgque st)[i := msgque (wake_senders i st) ! i]"
  "msg_q (msgque (wake_senders i st) ! i) = msg_q (msgque st ! i)"
  "msg_qnum (msgque (wake_senders i st) ! i) = msg_qnum (msgque st ! i)"
  "msg_cbytes (msgque (wake_senders i st) ! i) = msg_cbytes (msgque st ! i)"
  "ipc_alloc (msg_perm (msgque (wake_senders i st) ! i)) = ipc_alloc (msg_perm (msgque st ! i))"
proof -
  let ?c = "mode (msg_perm (msgque st ! i)) AND MSG_WWAIT \<noteq> 0"
  have w: "msgque (wake_senders i st) =
      (if ?c then (msgque st)[i := upd_mode (\<lambda>m. m AND NOT MSG_WWAIT) (msgque st ! i)] else msgque st)"
    by (simp add: wake_senders_def)
  show "msgque (wake_senders i st) = (msgque st)[i := msgque (wake_senders i st) ! i]"
    by (cases "i < length (msgque st)") (auto simp: w list_update_beyond)
  have "msgque (wake_senders i st) ! i \<in> {msgque st ! i, upd_mode (\<lambda>m. m AND NOT MSG_WWAIT) (msgque st ! i)}"
    by (cases "i < length (msgque st)") (auto simp: w list_update_beyond)
  then show "msg_q (msgque (wake_senders i st) ! i) = msg_q (msgque st ! i)"
    "msg_qnum (msgque (wake_senders i st) ! i) = msg_qnum (msgque st ! i)"
    "msg_cbytes (msgque (wake_senders i st) ! i) = msg_cbytes (msgque st ! i)"
    "ipc_alloc (msg_perm (msgque (wake_senders i st) ! i)) = ipc_alloc (msg_perm (msgque st ! i))"
    by auto
qed


section \<open>What the operations keep\<close>

lemma msgs_core_upd:
  assumes core: "msgs_core st" and i: "i < length (msgque st)"
    and que: "msgque st' = (msgque st)[i := q]"
    and q: "msg_q q = msg_q (msgque st ! i)" "msg_qnum q = msg_qnum (msgque st ! i)"
      "ipc_alloc (msg_perm q) \<or> msg_q q = []"
    and rest: "minfo st' = minfo st" "msgh st' = msgh st" "msgfp st' = msgfp st" "msgmap st' = msgmap st"
      "msgmem st' = msgmem st" "length (msglock st') = length (msglock st)"
  shows "msgs_core st'"
proof -
  obtain a c where s: "queued st = a @ msg_q (msgque st ! i) @ c"
    "\<And>st' q. msgque st' = (msgque st)[i := q] \<Longrightarrow> queued st' = a @ msg_q q @ c"
    using queued_split [OF i] by blast
  have qd: "queued st' = queued st" using s(1) s(2) [OF que] q(1) by simp
  have sg: "segs st' hs = segs st hs" for hs by (rule segs_cong) (simp_all add: rest)
  have "que_ok (msgque st ! i)" using core i by (simp add: msgs_core_def list_all_length)
  then have "que_ok q" using q by (auto simp: que_ok_def)
  then have "list_all que_ok (msgque st')"
    using core i unfolding que msgs_core_def by (simp add: list_all_length nth_list_update)
  then show ?thesis
    using core rest que by (simp add: msgs_core_def msg_limits_def hdrs_ok_def segs_ok_def spots_ok_def qd sg)
qed

lemma msgfree_effect:
  assumes "i < length (msgque st)"
  shows "\<exists>q'. msgque (msgfree i k st) = (msgque st)[i := q'] \<and> msg_q q' = take k (msg_q (msgque st ! i)) @ drop (k + 1) (msg_q (msgque st ! i)) \<and>
      msg_qnum q' = msg_qnum (msgque st ! i) - 1 \<and> msg_cbytes q' = msg_cbytes (msgque st ! i) \<and>
      ipc_alloc (msg_perm q') = ipc_alloc (msg_perm (msgque st ! i))"
    and "minfo (msgfree i k st) = minfo st" and "msgh (msgfree i k st) = msgh st" and "msgmem (msgfree i k st) = msgmem st" and "msglock (msgfree i k st) = msglock st"
    and "msgfp (msgfree i k st) = msg_q (msgque st ! i) ! k # msgfp st"
    and "msgmap (msgfree i k st) = (if msg_ts (msgh st ! (msg_q (msgque st ! i) ! k)) \<noteq> 0
      then rmfree (msgmap st) (snd (seg st (msg_q (msgque st ! i) ! k))) (fst (seg st (msg_q (msgque st ! i) ! k))) else msgmap st)"
proof -
  let ?st1 = "upd_que i (\<lambda>q. q\<lparr>msg_q := take k (msg_q q) @ drop (k + 1) (msg_q q), msg_qnum := msg_qnum q - 1\<rparr>) st"
  let ?q' = "msgque (wake_senders i ?st1) ! i"
  have m: "msgque (msgfree i k st) = msgque (wake_senders i ?st1)" by (simp add: msgfree_def Let_def)
  have "msgque (msgfree i k st) = (msgque st)[i := ?q']"
    unfolding m by (subst wake_senders_que(1)) simp
  then show "\<exists>q'. msgque (msgfree i k st) = (msgque st)[i := q'] \<and> msg_q q' = take k (msg_q (msgque st ! i)) @ drop (k + 1) (msg_q (msgque st ! i)) \<and>
      msg_qnum q' = msg_qnum (msgque st ! i) - 1 \<and> msg_cbytes q' = msg_cbytes (msgque st ! i) \<and>
      ipc_alloc (msg_perm q') = ipc_alloc (msg_perm (msgque st ! i))"
    using wake_senders_que(2-5) [of i ?st1] assms(1) by (intro exI [of _ ?q']) simp
qed (simp_all add: msgfree_def Let_def seg_def btoq_def)

lemma hdrs_move:
  assumes "distinct (fp @ a @ (xs @ h # ys) @ c)"
  shows "distinct ((h # fp) @ a @ (xs @ ys) @ c) \<and> set ((h # fp) @ a @ (xs @ ys) @ c) = set (fp @ a @ (xs @ h # ys) @ c)"
  using assms by auto

lemma msgfree_core:
  assumes core: "msgs_core st" and i: "i < length (msgque st)" and k: "k < length (msg_q (msgque st ! i))"
  shows "msgs_core (msgfree i k st)"
proof -
  let ?q = "msg_q (msgque st ! i)" and ?st' = "msgfree i k st"
  let ?h = "?q ! k" and ?xs = "take k ?q" and ?ys = "drop (k + 1) ?q"
  note e = msgfree_effect [OF i, of k]
  obtain q' where q': "msgque ?st' = (msgque st)[i := q']" "msg_q q' = ?xs @ ?ys"
    "msg_qnum q' = msg_qnum (msgque st ! i) - 1" "ipc_alloc (msg_perm q') = ipc_alloc (msg_perm (msgque st ! i))"
    using e(1) by blast
  obtain a c where s: "queued st = a @ ?q @ c"
    "\<And>st' q. msgque st' = (msgque st)[i := q] \<Longrightarrow> queued st' = a @ msg_q q @ c"
    using queued_split [OF i] by blast
  have qs: "?q = ?xs @ ?h # ?ys" using k by (simp add: id_take_nth_drop)
  have qd: "queued st = a @ (?xs @ ?h # ?ys) @ c" using s(1) qs by simp
  have qd': "queued ?st' = a @ (?xs @ ?ys) @ c" using s(2) [OF q'(1)] q'(2) by simp
  have sg: "segs ?st' hs = segs st hs" for hs by (rule segs_cong) (simp_all add: e)
  have hd: "hdrs_ok ?st'"
    using core hdrs_move [of "msgfp st" a ?xs ?h ?ys c] e(3,6)
    by (simp only: msgs_core_def hdrs_ok_def qd qd')
  have seg: "segs_ok ?st'"
  proof (cases "msg_ts (msgh st ! ?h) \<noteq> 0")
    case False
    then show ?thesis
      using core e(2,7) by (simp add: msgs_core_def segs_ok_def qd qd' sg segs_Cons)
  next
    case True
    obtain b n where bn: "seg st ?h = (b, n)" by (cases "seg st ?h")
    have ok: "rmap_ok (msgmap st)" "holds (free_units (msgmap st)) ((segs st a @ segs st ?xs) @ (b, n) # segs st ?ys @ segs st c)"
      and bl: "block b n \<subseteq> {1..unat (msgseg (minfo st))}" "free_units (msgmap st) \<subseteq> {1..unat (msgseg (minfo st))}"
      using core True bn by (simp_all add: msgs_core_def segs_ok_def qd segs_Cons)
    have m: "msgmap ?st' = rmfree (msgmap st) n b" using e(7) True bn by simp
    have "free_units (rmfree (msgmap st) n b) \<in> {free_units (msgmap st), free_units (msgmap st) \<union> block b n}"
      using rm.release_units [OF ok(1)] holds_mem [OF ok(2), of "(b, n)"] by simp
    then show ?thesis
      using rm.release_inv [OF ok] rm.release_holds [OF ok] bl core e(2)
      by (auto simp: msgs_core_def segs_ok_def qd qd' sg segs_Cons m)
  qed
  have sp: "spots_ok ?st'" using core e(3) by (auto simp: msgs_core_def spots_ok_def qd qd')
  have lim: "msg_limits ?st'" using core e(2,4,5) q'(1) by (simp add: msgs_core_def msg_limits_def)
  have "que_ok (msgque st ! i)" using core i by (simp add: msgs_core_def list_all_length)
  then have "que_ok q'"
    using q' qs k by (auto simp: que_ok_def)
  then have "list_all que_ok (msgque ?st')"
    using core i unfolding q'(1) msgs_core_def by (simp add: list_all_length nth_list_update)
  then show ?thesis using hd seg sp lim by (simp add: msgs_core_def)
qed


section \<open>Receiving a message\<close>

text \<open>A queue as the list of its messages: type and text.\<close>

definition msg_text :: "msgst \<Rightarrow> nat \<Rightarrow> u8 list" where
  "msg_text st h = text_at st (msg_spot (msgh st ! h)) (unat (msg_ts (msgh st ! h)))"

definition view :: "msgst \<Rightarrow> nat \<Rightarrow> (int \<times> u8 list) list" where
  "view st i = map (\<lambda>h. (msg_type (msgh st ! h), msg_text st h)) (msg_q (msgque st ! i))"

lemma bytes_ok_cong:
  assumes "\<And>h. h \<in> set (msg_q q) \<Longrightarrow> msgh st' ! h = msgh st ! h"
  shows "bytes_ok st' q = bytes_ok st q"
  unfolding bytes_ok_def using que_bytes_cong [of "msg_q q" st' st] assms by simp

lemma que_in_queued: "i < length (msgque st) \<Longrightarrow> set (msg_q (msgque st ! i)) \<subseteq> set (queued st)"
  using nth_mem by (fastforce simp: queued_def)

lemma msgs_ok_same:
  assumes ok: "msgs_ok st"
    and rest: "minfo st' = minfo st" "msgque st' = msgque st" "msgh st' = msgh st" "msgfp st' = msgfp st"
      "length (msgmem st') = length (msgmem st)" "length (msglock st') = length (msglock st)"
    and m: "rmap_ok (msgmap st')" "holds (free_units (msgmap st')) (segs st (queued st))"
      "free_units (msgmap st') \<subseteq> {1..unat (msgseg (minfo st))}"
  shows "msgs_ok st'"
proof -
  have sg: "segs st' hs = segs st hs" for hs by (rule segs_cong) (simp_all add: rest)
  have qd: "queued st' = queued st" using rest by (simp add: queued_def)
  have "bytes_ok st' = bytes_ok st" by (rule ext, rule bytes_ok_cong) (simp add: rest)
  then show ?thesis
    using ok rest m by (simp add: msgs_ok_def msgs_core_def msg_limits_def hdrs_ok_def segs_ok_def spots_ok_def sg qd)
qed

lemma msgs_okD:
  assumes "msgs_ok st"
  shows "rmap_ok (msgmap st)" and "holds (free_units (msgmap st)) (segs st (queued st))"
    and "free_units (msgmap st) \<subseteq> {1..unat (msgseg (minfo st))}"
    and "msg_limits st" and "hdrs_ok st" and "spots_ok st" and "segs_ok st"
    and "list_all que_ok (msgque st)" and "list_all (bytes_ok st) (msgque st)" and "msgs_core st"
  using assms by (simp_all add: msgs_ok_def msgs_core_def segs_ok_def)

lemma msgs_ok_iff:
  assumes "minfo st' = minfo st" "msgque st' = msgque st" "msgh st' = msgh st" "msgfp st' = msgfp st"
    "length (msgmem st') = length (msgmem st)" "length (msglock st') = length (msglock st)" "msgmap st' = msgmap st"
  shows "msgs_ok st' = msgs_ok st"
proof -
  have "segs st' hs = segs st hs" for hs by (rule segs_cong) (simp_all add: assms)
  moreover have "queued st' = queued st" using assms by (simp add: queued_def)
  moreover have "bytes_ok st' = bytes_ok st" by (rule ext, rule bytes_ok_cong) (simp add: assms)
  ultimately show ?thesis
    using assms by (simp add: msgs_ok_def msgs_core_def msg_limits_def hdrs_ok_def segs_ok_def spots_ok_def)
qed

lemma msgs_ok_wake [simp]: "msgs_ok (msg_wake c st) = msgs_ok st"
  by (rule msgs_ok_iff) simp_all

lemma msgs_ok_lock [simp]: "msgs_ok (set_lock i b st) = msgs_ok st"
  by (rule msgs_ok_iff) simp_all

lemma msgs_ok_unlock [simp]: "msgs_ok (unlock i st) = msgs_ok st"
  by (simp add: unlock_def)

lemma unlock_simps [simp]:
  "minfo (unlock i st) = minfo st" "msgque (unlock i st) = msgque st" "msgh (unlock i st) = msgh st"
  "msgfp (unlock i st) = msgfp st" "msgmap (unlock i st) = msgmap st" "msgmem (unlock i st) = msgmem st"
  by (simp_all add: unlock_def)

text \<open>Taking a message off its queue.\<close>

lemma view_upd:
  assumes "msgque st' = (msgque st)[i := q]" and "\<And>h. h \<in> set (queued st) \<Longrightarrow> msgh st' ! h = msgh st ! h \<and> msg_text st' h = msg_text st h"
    and "j \<noteq> i" and "j < length (msgque st)"
  shows "view st' j = view st j"
  using assms que_in_queued [OF assms(4)] by (auto simp: view_def)

text \<open>The text of a message only reads the header and the buffer.\<close>

lemma msg_text_cong:
  "msgh st' ! h = msgh st ! h \<Longrightarrow> minfo st' = minfo st \<Longrightarrow> msgmem st' = msgmem st \<Longrightarrow> msg_text st' h = msg_text st h"
  by (simp add: msg_text_def text_at_def)

text \<open>Where the text of a queued message lies.\<close>

lemma unat_of_int_u32: "0 \<le> x \<Longrightarrow> x < 2 ^ 32 \<Longrightarrow> unat (word_of_int x :: u32) = nat x"
  by (simp add: unsigned_of_int take_bit_int_eq_self)

lemma btoq_bounds:
  assumes "0 < msgssz (minfo st)" and "0 \<le> x" and "x \<le> 65535"
  shows "x \<le> msgssz (minfo st) * int (unat (btoq st x))" and "int (unat (btoq st x)) \<le> x"
proof -
  let ?s = "msgssz (minfo st)"
  let ?d = "(x + ?s - 1) div ?s"
  have e: "?s * ?d + (x + ?s - 1) mod ?s = x + ?s - 1" by simp
  have r: "(x + ?s - 1) mod ?s \<le> ?s - 1" using pos_mod_bound [OF assms(1), of "x + ?s - 1"] by simp
  have d0: "0 \<le> ?d" using assms by (intro pos_imp_zdiv_nonneg_iff [THEN iffD2]) auto
  have "x + ?s - 1 \<le> ?s * x + (?s - 1)"
    using mult_right_mono [of 1 ?s x] assms by simp
  then have "?d \<le> (?s * x + (?s - 1)) div ?s" by (rule zdiv_mono1 [OF _ assms(1)])
  also have "(?s * x + (?s - 1)) div ?s = x" using assms(1) by simp
  finally have d1: "?d \<le> x" .
  have u: "int (unat (btoq st x)) = ?d"
    using d0 d1 assms(3) by (simp add: btoq_def unsigned_of_int take_bit_int_eq_self)
  show "x \<le> ?s * int (unat (btoq st x))" unfolding u using e r by linarith
  show "int (unat (btoq st x)) \<le> x" using d1 u by simp
qed

definition text_bytes :: "msgst \<Rightarrow> nat \<Rightarrow> nat set" where
  "text_bytes st h = {nat (msgssz (minfo st) * msg_spot (msgh st ! h)) ..<
     nat (msgssz (minfo st) * msg_spot (msgh st ! h)) + unat (msg_ts (msgh st ! h))}"

text \<open>The bytes of a block of segments.\<close>

definition block_bytes :: "msgst \<Rightarrow> u32 \<times> u32 \<Rightarrow> nat set" where
  "block_bytes st b = {nat (msgssz (minfo st)) * (unat (fst b) - 1) ..<
     nat (msgssz (minfo st)) * (unat (fst b) - 1 + unat (snd b))}"

lemma block_bytes_disjoint:
  assumes "block (fst b) (snd b) \<inter> block (fst c) (snd c) = {}" and "fst b \<noteq> 0" and "fst c \<noteq> 0"
    and "snd b \<noteq> 0" and "snd c \<noteq> 0"
  shows "block_bytes st b \<inter> block_bytes st c = {}"
proof -
  let ?s = "nat (msgssz (minfo st))"
  have p: "0 < unat (fst b)" "0 < unat (fst c)" "0 < unat (snd b)" "0 < unat (snd c)"
    using assms(2-5) by (simp_all add: unat_gt_0)
  have "unat (fst b) + unat (snd b) \<le> unat (fst c) \<or> unat (fst c) + unat (snd c) \<le> unat (fst b)"
  proof (rule ccontr)
    assume "\<not> ?thesis"
    then have "max (unat (fst b)) (unat (fst c)) \<in> block (fst b) (snd b) \<inter> block (fst c) (snd c)"
      using p by (auto simp: block_def)
    then show False using assms(1) by simp
  qed
  then have "unat (fst b) - 1 + unat (snd b) \<le> unat (fst c) - 1 \<or> unat (fst c) - 1 + unat (snd c) \<le> unat (fst b) - 1"
    using p by linarith
  then have "?s * (unat (fst b) - 1 + unat (snd b)) \<le> ?s * (unat (fst c) - 1) \<or>
      ?s * (unat (fst c) - 1 + unat (snd c)) \<le> ?s * (unat (fst b) - 1)"
    by (meson mult_le_mono2)
  then show ?thesis by (auto simp: block_bytes_def)
qed

lemma block_bytes_bound:
  assumes "msg_limits st" and "block (fst b) (snd b) \<subseteq> {1..unat (msgseg (minfo st))}" and "snd b \<noteq> 0"
  shows "nat (msgssz (minfo st)) * (unat (fst b) - 1 + unat (snd b)) \<le> length (msgmem st)"
proof -
  have "0 < unat (snd b)" using assms(3) by (simp add: unat_gt_0)
  then have "unat (fst b) + unat (snd b) - 1 \<in> block (fst b) (snd b)" "unat (fst b) \<in> block (fst b) (snd b)"
    by (auto simp: block_def)
  then have "unat (fst b) + unat (snd b) - 1 \<in> {1..unat (msgseg (minfo st))}" "unat (fst b) \<in> {1..unat (msgseg (minfo st))}"
    using assms(2) by blast+
  then have "unat (fst b) - 1 + unat (snd b) \<le> unat (msgseg (minfo st))" by simp
  then have "nat (msgssz (minfo st)) * (unat (fst b) - 1 + unat (snd b)) \<le> nat (msgssz (minfo st)) * unat (msgseg (minfo st))"
    by simp
  then show ?thesis using assms(1) unfolding msg_limits_def by linarith
qed

lemma text_in_block:
  assumes ok: "msgs_ok st" and h: "h \<in> set (queued st)"
  shows "msg_ts (msgh st ! h) \<noteq> 0 \<Longrightarrow> text_bytes st h \<subseteq> block_bytes st (seg st h)"
    and "length (msg_text st h) = unat (msg_ts (msgh st ! h))"
proof -
  let ?m = "msgh st ! h" and ?s = "msgssz (minfo st)"
  have lim: "msg_limits st" and s0: "0 < ?s" using msgs_okD(4) [OF ok] by (simp_all add: msg_limits_def)
  have in_block: "text_bytes st h \<subseteq> block_bytes st (seg st h) \<and>
      nat (?s * msg_spot ?m) + unat (msg_ts ?m) \<le> length (msgmem st)" if ts: "msg_ts ?m \<noteq> 0"
  proof -
    let ?n = "unat (btoq st (int (unat (msg_ts ?m))))"
    have sp: "0 \<le> msg_spot ?m" "msg_spot ?m < 32767" using msgs_okD(6) [OF ok] h ts by (auto simp: spots_ok_def)
    have u: "unat (word_of_int (msg_spot ?m + 1) :: u32) = nat (msg_spot ?m) + 1"
      using sp by (subst unat_of_int_u32) (simp_all add: nat_add_distrib)
    have tl: "int (unat (msg_ts ?m)) \<le> 65535" using unat_u16_less [of "msg_ts ?m"] by linarith
    have b: "int (unat (msg_ts ?m)) \<le> ?s * int ?n" using btoq_bounds(1) [OF s0 _ tl] by simp
    have "seg st h \<in> set (segs st (queued st))" using h ts by (simp add: segs_def)
    then have bl: "block (fst (seg st h)) (snd (seg st h)) \<subseteq> {1..unat (msgseg (minfo st))}" "snd (seg st h) \<noteq> 0"
      using msgs_okD(2,7) [OF ok] holds_mem [of _ "segs st (queued st)" "seg st h"]
      by (auto simp: segs_ok_def block_wf_def)
    have e: "nat (?s * msg_spot ?m) = nat ?s * nat (msg_spot ?m)" using s0 by (simp add: nat_mult_distrib)
    have t: "unat (msg_ts ?m) \<le> nat ?s * ?n"
      using b s0 by (metis int_nat_eq nat_int nat_mono nat_mult_distrib less_imp_le)
    have m: "nat ?s * nat (msg_spot ?m) + unat (msg_ts ?m) \<le> nat ?s * (nat (msg_spot ?m) + ?n)"
      using t by (simp add: distrib_left)
    have f: "unat (fst (seg st h)) - 1 = nat (msg_spot ?m)" "unat (snd (seg st h)) = ?n"
      using u by (simp_all add: seg_def)
    show ?thesis
      using m block_bytes_bound [OF lim bl] unfolding text_bytes_def block_bytes_def e f by auto
  qed
  show "msg_ts ?m \<noteq> 0 \<Longrightarrow> text_bytes st h \<subseteq> block_bytes st (seg st h)" using in_block by blast
  show "length (msg_text st h) = unat (msg_ts ?m)"
    using in_block by (cases "msg_ts ?m = 0") (auto simp: msg_text_def text_at_def)
qed


lemma que_bytes_remove:
  assumes "k < length hs"
  shows "que_bytes st hs = ucast (msg_ts (msgh st ! (hs ! k))) + que_bytes st (take k hs @ drop (k + 1) hs)"
proof -
  have "que_bytes st hs = que_bytes st (take k hs @ hs ! k # drop (Suc k) hs)"
    by (subst id_take_nth_drop [OF assms]) simp
  then show ?thesis by simp
qed

text \<open>The state in which \<open>msgrcv\<close> has taken the bytes of the message off the count of the queue.\<close>

lemma deliver_take:
  assumes ok: "msgs_ok st" and i: "i < length (msgque st)" and k: "k < length (msg_q (msgque st ! i))"
    and q: "msg_q q = msg_q (msgque st ! i)" "msg_qnum q = msg_qnum (msgque st ! i)"
      "ipc_alloc (msg_perm q) = ipc_alloc (msg_perm (msgque st ! i))"
      "msg_cbytes q = msg_cbytes (msgque st ! i) - ucast (msg_ts (msgh st ! (msg_q (msgque st ! i) ! k)))"
  defines "st1 \<equiv> upd_que i (\<lambda>_. q) st"
  shows "msgs_ok (msgfree i k st1)"
    and "view (msgfree i k st1) i = take k (view st i) @ drop (k + 1) (view st i)"
    and "j \<noteq> i \<Longrightarrow> j < length (msgque st) \<Longrightarrow> view (msgfree i k st1) j = view st j"
proof -
  let ?hs = "msg_q (msgque st ! i)"
  have qi: "que_ok (msgque st ! i)" "bytes_ok st (msgque st ! i)"
    using msgs_okD(8,9) [OF ok] i by (simp_all add: list_all_length)
  have core1: "msgs_core st1"
    unfolding st1_def by (rule msgs_core_upd [OF msgs_okD(10) [OF ok] i]) (use q qi in \<open>auto simp: que_ok_def\<close>)
  have st1: "msgque st1 = (msgque st)[i := q]" "msgque st1 ! i = q" "i < length (msgque st1)" "msgh st1 = msgh st"
    using i by (simp_all add: st1_def)
  note e = msgfree_effect [OF st1(3), of k]
  obtain q' where q': "msgque (msgfree i k st1) = (msgque st1)[i := q']" "msg_q q' = take k ?hs @ drop (k + 1) ?hs"
    "msg_cbytes q' = msg_cbytes q"
    using e(1) st1(2) q(1) by auto
  have core: "msgs_core (msgfree i k st1)"
    using msgfree_core [OF core1 st1(3)] k st1(2) q(1) by simp
  have h: "msgh (msgfree i k st1) = msgh st" using e(3) st1(4) by simp
  have b: "bytes_ok (msgfree i k st1) = bytes_ok st" by (rule ext, rule bytes_ok_cong) (simp add: h)
  have "bytes_ok st q'"
    using qi(2) q(4) q'(2,3) que_bytes_remove [OF k, of st] by (simp add: bytes_ok_def)
  then have "list_all (bytes_ok (msgfree i k st1)) (msgque (msgfree i k st1))"
    using msgs_okD(9) [OF ok] i unfolding b q'(1) st1(1) by (simp add: list_all_length nth_list_update)
  then show "msgs_ok (msgfree i k st1)" using core by (simp add: msgs_ok_def)
  have t: "msg_text (msgfree i k st1) h = msg_text st h" for h
    by (rule msg_text_cong) (use e in \<open>simp_all add: st1_def\<close>)
  show "view (msgfree i k st1) i = take k (view st i) @ drop (k + 1) (view st i)"
    using st1 by (simp add: view_def t h q'(1,2) take_map drop_map)
  show "j \<noteq> i \<Longrightarrow> j < length (msgque st) \<Longrightarrow> view (msgfree i k st1) j = view st j"
    using st1 by (simp add: view_def t h q'(1))
qed

lemma take_text_at: "n \<le> m \<Longrightarrow> take n (text_at st s m) = text_at st s n"
  by (simp add: text_at_def min_absorb1)

lemma deliver_cases:
  assumes ok: "msgs_ok st" and i: "i < length (msgque st)" and k: "k < length (view st i)"
    and sz0: "0 \<le> msgsz" "msgsz < 2 ^ 32"
    and r: "deliver usr u i k msgsz msgflg st = (r, st')"
  shows "msgs_ok st' \<and> (case r of
      Inl e \<Rightarrow> st' = st
    | Inr (sz, t, bs) \<Rightarrow> sz = min msgsz (int (length (snd (view st i ! k)))) \<and>
        (t, bs) = (fst (view st i ! k), take (nat sz) (snd (view st i ! k))) \<and>
        view st' i = take k (view st i) @ drop (k + 1) (view st i) \<and>
        (\<forall>j<length (msgque st). j \<noteq> i \<longrightarrow> view st' j = view st j))"
proof -
  let ?hs = "msg_q (msgque st ! i)"
  let ?h = "?hs ! k"
  let ?m = "msgh st ! ?h"
  let ?q = "(msgque st ! i)\<lparr>msg_cbytes := msg_cbytes (msgque st ! i) - ucast (msg_ts ?m), msg_lrpid := p_pid u, msg_rtime := hrestime u\<rparr>"
  have kl: "k < length ?hs" using k by (simp add: view_def)
  then have hq: "?h \<in> set (queued st)" using que_in_queued [OF i] nth_mem by blast
  have len: "length (msg_text st ?h) = unat (msg_ts ?m)" by (rule text_in_block(2) [OF ok hq])
  have v: "view st i ! k = (msg_type ?m, msg_text st ?h)" using kl by (simp add: view_def)
  have tb: "take_bit 32 msgsz = msgsz" using sz0 by (simp add: take_bit_int_eq_self)
  let ?sz = "if msgsz < int (unat (msg_ts ?m)) then msgsz else int (unat (msg_ts ?m))"
  have sz: "?sz = min msgsz (int (length (snd (view st i ! k))))" using v len by auto
  have bs: "text_at st (msg_spot ?m) (nat ?sz) = take (nat ?sz) (snd (view st i ! k))"
    using v by (simp add: msg_text_def take_text_at nat_le_iff)
  have upd: "upd_que i (\<lambda>q. q\<lparr>msg_cbytes := msg_cbytes q - ucast (msg_ts ?m), msg_lrpid := p_pid u, msg_rtime := hrestime u\<rparr>) st
      = upd_que i (\<lambda>_. ?q) st"
    by (simp add: upd_que_def)
  note t = deliver_take [OF ok i kl, of ?q]
  show ?thesis
  proof (cases r)
    case (Inl e)
    then have "st' = st" using r by (auto simp: deliver_def Let_def split: if_splits)
    then show ?thesis using ok Inl by simp
  next
    case (Inr p)
    then have p: "p = (?sz, msg_type ?m, text_at st (msg_spot ?m) (nat ?sz))" "st' = msgfree i k (upd_que i (\<lambda>_. ?q) st)"
      using r unfolding deliver_def Let_def tb upd by (auto split: if_splits)
    have "msgs_ok st'" "view st' i = take k (view st i) @ drop (k + 1) (view st i)"
      "\<And>j. j \<noteq> i \<Longrightarrow> j < length (msgque st) \<Longrightarrow> view st' j = view st j"
      unfolding p(2) by (rule t; simp)+
    then show ?thesis using Inr p(1) sz bs v by simp
  qed
qed


section \<open>Sending a message\<close>

text \<open>A header that is neither free nor queued: the one \<open>msgsnd\<close> has taken.\<close>

definition taken :: "nat \<Rightarrow> msgst \<Rightarrow> bool" where
  "taken mp st \<longleftrightarrow> mp \<notin> set (msgfp st @ queued st) \<and> mp < length (msgh st)"

lemma enqueue_effect:
  assumes "i < length (msgque st)"
  shows "\<exists>q'. msgque (enqueue_msg u i mp cnt ty spot st) = (msgque st)[i := q'] \<and>
      msg_q q' = msg_q (msgque st ! i) @ [mp] \<and> msg_qnum q' = msg_qnum (msgque st ! i) + 1 \<and>
      msg_cbytes q' = msg_cbytes (msgque st ! i) + word_of_int cnt \<and>
      ipc_alloc (msg_perm q') = ipc_alloc (msg_perm (msgque st ! i))"
    and "minfo (enqueue_msg u i mp cnt ty spot st) = minfo st"
    and "msgh (enqueue_msg u i mp cnt ty spot st) =
      (msgh st)[mp := \<lparr>msg_type = ty, msg_ts = word_of_int cnt, msg_spot = s16 (if cnt \<noteq> 0 then spot else -1)\<rparr>]"
    and "msgmem (enqueue_msg u i mp cnt ty spot st) = msgmem st"
    and "msglock (enqueue_msg u i mp cnt ty spot st) = msglock st"
    and "msgfp (enqueue_msg u i mp cnt ty spot st) = msgfp st"
    and "msgmap (enqueue_msg u i mp cnt ty spot st) = msgmap st"
  using assms by (auto simp: enqueue_msg_def Let_def)

text \<open>The segment of the new message: nothing for an empty one, else a block apart from the rest.\<close>

definition new_seg :: "int \<Rightarrow> u32 \<Rightarrow> u32 \<Rightarrow> (u32 \<times> u32) list" where
  "new_seg cnt a n = (if cnt = 0 then [] else [(a, n)])"

lemma enqueue_ok:
  assumes ok: "msgs_ok st" and i: "i < length (msgque st)" and al: "ipc_alloc (msg_perm (msgque st ! i))"
    and mp: "taken mp st" and cnt: "0 \<le> cnt" "cnt \<le> 65535"
    and sg: "holds (free_units (msgmap st)) (new_seg cnt a (btoq st cnt) @ segs st (queued st))"
    and bl: "cnt \<noteq> 0 \<Longrightarrow> block a (btoq st cnt) \<subseteq> {1..unat (msgseg (minfo st))}"
    and sp: "cnt \<noteq> 0 \<Longrightarrow> spot = int (unat a) - 1"
    and st': "st' = enqueue_msg u i mp cnt ty spot st"
  shows "msgs_ok st'"
proof -
  note e = enqueue_effect [OF i, of u mp cnt ty spot, folded st']
  obtain q' where q': "msgque st' = (msgque st)[i := q']" "msg_q q' = msg_q (msgque st ! i) @ [mp]"
    "msg_qnum q' = msg_qnum (msgque st ! i) + 1" "msg_cbytes q' = msg_cbytes (msgque st ! i) + word_of_int cnt"
    "ipc_alloc (msg_perm q')"
    using e(1) al by blast
  obtain x y where s: "queued st = x @ msg_q (msgque st ! i) @ y"
    "\<And>st' q. msgque st' = (msgque st)[i := q] \<Longrightarrow> queued st' = x @ msg_q q @ y"
    using queued_split [OF i] by blast
  let ?x = "x @ msg_q (msgque st ! i)"
  have qd: "queued st = ?x @ y" and qd': "queued st' = ?x @ mp # y" using s(1) s(2) [OF q'(1)] q'(2) by simp_all
  have old: "msgh st' ! h = msgh st ! h" if "h \<noteq> mp" for h using e(3) that by simp
  have nq: "mp \<notin> set (queued st)" using mp by (simp add: taken_def)
  have sgo: "segs st' hs = segs st hs" if "set hs \<subseteq> set (queued st)" for hs
    by (rule segs_cong) (use that nq e(2) in \<open>auto intro!: old\<close>)
  have bt: "btoq st' = btoq st" by (rule ext) (simp add: btoq_def e(2))
  have new: "msgh st' ! mp = \<lparr>msg_type = ty, msg_ts = word_of_int cnt, msg_spot = s16 (if cnt \<noteq> 0 then spot else -1)\<rparr>"
    using e(3) mp by (simp add: taken_def)
  have ts: "unat (word_of_int cnt :: u16) = nat cnt"
    using cnt by (simp add: unsigned_of_int take_bit_int_eq_self)
  have ts0: "(word_of_int cnt :: u16) = 0 \<longleftrightarrow> cnt = 0"
    using ts cnt by (metis nat_0_iff order_antisym unat_eq_zero word_of_int_0)
  have seg_new: "seg st' mp = (a, btoq st cnt) \<and> 0 \<le> spot \<and> spot < 32767 \<and> msg_spot (msgh st' ! mp) = spot" if c: "cnt \<noteq> 0"
  proof -
    have wf: "block_wf (a, btoq st cnt)"
      using sg c by (simp add: new_seg_def)
    then have "unat a \<in> block a (btoq st cnt)" by (auto simp: block_wf_def block_def unat_gt_0)
    then have "unat a \<in> {1..unat (msgseg (minfo st))}" using bl [OF c] by blast
    then have u: "1 \<le> unat a" "unat a < 32768" using msgs_okD(4) [OF ok] by (simp_all add: msg_limits_def)
    have ui: "1 \<le> int (unat a)" "int (unat a) < 32768" using u by linarith+
    have s16: "s16 spot = spot" using ui sp [OF c] by (intro s16_id) auto
    have "word_of_int (spot + 1) = a" using sp [OF c] by simp
    then show ?thesis using ui sp [OF c] s16 new c ts cnt by (simp add: seg_def bt)
  qed
  have segs': "segs st' (queued st') = segs st ?x @ new_seg cnt a (btoq st cnt) @ segs st y"
  proof -
    have "segs st' [mp] = new_seg cnt a (btoq st cnt)"
      using seg_new new ts0 by (simp add: segs_Cons new_seg_def)
    then show ?thesis using sgo [of ?x] sgo [of y] unfolding qd'
      by (metis append_Cons append_Nil segs_append qd Un_iff set_append subsetI)
  qed
  have hol: "holds (free_units (msgmap st)) (segs st' (queued st'))"
    using sg holds_insert [of "free_units (msgmap st)" "(a, btoq st cnt)" "segs st ?x" "segs st y"]
    unfolding segs' qd by (cases "cnt = 0") (simp_all add: new_seg_def)
  have so: "segs_ok st'"
    using msgs_okD(1,3,7) [OF ok] hol bl e(2,7) unfolding segs_ok_def segs' qd
    by (auto simp: new_seg_def)
  have sp': "spots_ok st'"
    unfolding spots_ok_def
  proof (intro ballI impI)
    fix h assume h: "h \<in> set (queued st')" "msg_ts (msgh st' ! h) \<noteq> 0"
    show "0 \<le> msg_spot (msgh st' ! h) \<and> msg_spot (msgh st' ! h) < 32767"
    proof (cases "h = mp")
      case True
      then show ?thesis using seg_new new ts0 h(2) by auto
    next
      case False
      then have "h \<in> set (queued st)" using h(1) by (simp add: qd qd')
      then show ?thesis using msgs_okD(6) [OF ok] h(2) old [OF False] by (simp add: spots_ok_def)
    qed
  qed
  have hd: "hdrs_ok st'"
    using msgs_okD(5) [OF ok] mp e(3,6) by (auto simp: hdrs_ok_def taken_def qd qd')
  have lim: "msg_limits st'" using msgs_okD(4) [OF ok] e(2,4,5) q'(1) by (simp add: msg_limits_def)
  have qi: "que_ok (msgque st ! i)" "bytes_ok st (msgque st ! i)"
    using msgs_okD(8,9) [OF ok] i by (simp_all add: list_all_length)
  have "que_ok q'" using q' qi(1) by (simp add: que_ok_def)
  then have qs: "list_all que_ok (msgque st')"
    using msgs_okD(8) [OF ok] i unfolding q'(1) by (simp add: list_all_length nth_list_update)
  have bo: "bytes_ok st' q = bytes_ok st q" if "set (msg_q q) \<subseteq> set (queued st)" for q
    by (rule bytes_ok_cong) (use that nq in \<open>auto intro!: old\<close>)
  have "que_bytes st' (msg_q (msgque st ! i)) = que_bytes st (msg_q (msgque st ! i))"
    by (rule que_bytes_cong) (use nq que_in_queued [OF i] in \<open>auto intro!: old\<close>)
  moreover have "(ucast (word_of_int cnt :: u16) :: u32) = word_of_int cnt"
    using cnt by (intro word_unat_eq_iff [THEN iffD2]) (simp add: ts unsigned_ucast_eq unat_of_int_u32 take_bit_nat_eq_self)
  ultimately have "bytes_ok st' q'" using qi(2) q'(2,4) new by (simp add: bytes_ok_def)
  then have "list_all (bytes_ok st') (msgque st')"
    using msgs_okD(9) [OF ok] i bo que_in_queued unfolding q'(1)
    by (auto simp: list_all_length nth_list_update)
  then show ?thesis using so sp' hd lim qs by (simp add: msgs_ok_def msgs_core_def)
qed


text \<open>The text written for one message leaves the texts of the others.\<close>

lemma splice_other:
  fixes m :: "'a list"
  assumes "a + length bs \<le> length m" and "c + n \<le> a \<or> a + length bs \<le> c"
  shows "take n (drop c (take a m @ bs @ drop (a + length bs) m)) = take n (drop c m)"
  using assms(2)
proof
  assume "c + n \<le> a"
  then have "take (n + c) (take a m @ bs @ drop (a + length bs) m) = take (n + c) m" using assms(1) by simp
  then show ?thesis by (simp only: take_drop)
next
  assume "a + length bs \<le> c"
  then have "drop c (take a m @ bs @ drop (a + length bs) m) = drop c m" using assms(1) by simp
  then show ?thesis by simp
qed

lemma splice_new:
  fixes m :: "'a list"
  assumes "a + length bs \<le> length m"
  shows "take (length bs) (drop a (take a m @ bs @ drop (a + length bs) m)) = bs"
  using assms by simp

lemma write_text_simps [simp]:
  "minfo (write_text st spot bs) = minfo st" "msgque (write_text st spot bs) = msgque st"
  "msgh (write_text st spot bs) = msgh st" "msgfp (write_text st spot bs) = msgfp st"
  "msgmap (write_text st spot bs) = msgmap st" "msglock (write_text st spot bs) = msglock st"
  by (simp_all add: write_text_def Let_def)

text \<open>The place in the buffer of a block that the map has just given out.\<close>

lemma new_block_place:
  assumes lim: "msg_limits st" and bl: "block a (btoq st cnt) \<subseteq> {1..unat (msgseg (minfo st))}"
    and wf: "block_wf (a, btoq st cnt)" and cnt: "0 < cnt" "cnt \<le> 65535" and len: "length bs \<le> nat cnt"
  defines "p \<equiv> nat (msgssz (minfo st) * (int (unat a) - 1))"
  shows "p + length bs \<le> length (msgmem st)" and "{p ..< p + length bs} \<subseteq> block_bytes st (a, btoq st cnt)"
proof -
  let ?s = "msgssz (minfo st)" and ?n = "unat (btoq st cnt)"
  have s0: "0 < ?s" using lim by (simp add: msg_limits_def)
  have a0: "0 < unat a" using wf by (simp add: block_wf_def unat_gt_0)
  have "int (unat a) - 1 = int (unat a - 1)" using a0 by linarith
  then have p: "p = nat ?s * (unat a - 1)" using s0 by (simp add: p_def nat_mult_distrib)
  have "cnt \<le> ?s * int ?n" using btoq_bounds(1) [OF s0, of cnt] cnt by simp
  then have "nat cnt \<le> nat ?s * ?n" using s0 by (metis int_nat_eq nat_int nat_mono nat_mult_distrib less_imp_le)
  then have "p + length bs \<le> nat ?s * (unat a - 1 + ?n)" using len by (simp add: p distrib_left)
  moreover have "nat ?s * (unat a - 1 + ?n) \<le> length (msgmem st)"
    using block_bytes_bound [OF lim, of "(a, btoq st cnt)"] bl wf by (simp add: block_wf_def)
  ultimately show "p + length bs \<le> length (msgmem st)" "{p ..< p + length bs} \<subseteq> block_bytes st (a, btoq st cnt)"
    unfolding block_bytes_def p by auto
qed

lemma write_text_other:
  assumes ok: "msgs_ok st" and h: "h \<in> set (queued st)"
    and hol: "holds f ((a, btoq st cnt) # segs st (queued st))"
    and bl: "block a (btoq st cnt) \<subseteq> {1..unat (msgseg (minfo st))}"
    and cnt: "0 < cnt" "cnt \<le> 65535" and len: "length bs \<le> nat cnt"
  shows "msg_text (write_text st (int (unat a) - 1) bs) h = msg_text st h"
proof (cases "msg_ts (msgh st ! h) = 0")
  case True
  then show ?thesis by (simp add: msg_text_def text_at_def)
next
  case False
  let ?p = "nat (msgssz (minfo st) * (int (unat a) - 1))"
  let ?c = "nat (msgssz (minfo st) * msg_spot (msgh st ! h))" and ?n = "unat (msg_ts (msgh st ! h))"
  have wf: "block_wf (a, btoq st cnt)" using hol by simp
  have sg: "seg st h \<in> set (segs st (queued st))" using h False by (simp add: segs_def)
  then have wf': "block_wf (seg st h)" and d: "block a (btoq st cnt) \<inter> block (fst (seg st h)) (snd (seg st h)) = {}"
    using hol holds_mem [of f "segs st (queued st)" "seg st h"] by auto
  note pl = new_block_place [OF msgs_okD(4) [OF ok] bl wf cnt len]
  have "block_bytes st (a, btoq st cnt) \<inter> block_bytes st (seg st h) = {}"
    by (rule block_bytes_disjoint) (use d wf wf' in \<open>simp_all add: block_wf_def\<close>)
  then have dj: "{?p ..< ?p + length bs} \<inter> {?c ..< ?c + ?n} = {}"
    using pl(2) text_in_block(1) [OF ok h False] unfolding text_bytes_def by blast
  show ?thesis
  proof (cases "bs = []")
    case True
    then show ?thesis by (simp add: write_text_def Let_def msg_text_def text_at_def)
  next
    case bs: False
    have "?c + ?n \<le> ?p \<or> ?p + length bs \<le> ?c"
    proof (rule ccontr)
      assume n: "\<not> ?thesis"
      have "0 < ?n" using False by (simp add: unat_gt_0)
      then have "max ?p ?c \<in> {?p ..< ?p + length bs} \<inter> {?c ..< ?c + ?n}" using n bs by auto
      then show False using dj by blast
    qed
    then show ?thesis
      using splice_other [OF pl(1)] by (simp add: write_text_def Let_def msg_text_def text_at_def)
  qed
qed

lemma enqueue_view:
  assumes ok: "msgs_ok st" and i: "i < length (msgque st)" and mp: "taken mp st"
    and cnt: "0 \<le> cnt" "cnt \<le> 65535" and sp: "cnt \<noteq> 0 \<Longrightarrow> 0 \<le> spot \<and> spot < 32768"
  shows "view (enqueue_msg u i mp cnt ty spot st) i = view st i @ [(ty, text_at st spot (nat cnt))]"
    and "j \<noteq> i \<Longrightarrow> j < length (msgque st) \<Longrightarrow> view (enqueue_msg u i mp cnt ty spot st) j = view st j"
proof -
  let ?st' = "enqueue_msg u i mp cnt ty spot st"
  note e = enqueue_effect [OF i, of u mp cnt ty spot]
  obtain q' where q': "msgque ?st' = (msgque st)[i := q']" "msg_q q' = msg_q (msgque st ! i) @ [mp]"
    using e(1) by blast
  have nq: "mp \<notin> set (queued st)" using mp by (simp add: taken_def)
  have old: "msgh ?st' ! h = msgh st ! h \<and> msg_text ?st' h = msg_text st h" if "h \<in> set (queued st)" for h
  proof -
    have "msgh ?st' ! h = msgh st ! h" using e(3) nq that by (metis nth_list_update_neq)
    then show ?thesis using msg_text_cong [of ?st' h st] e(2,4) by simp
  qed
  have ts: "unat (word_of_int cnt :: u16) = nat cnt" using cnt by (simp add: unsigned_of_int take_bit_int_eq_self)
  have new: "msgh ?st' ! mp = \<lparr>msg_type = ty, msg_ts = word_of_int cnt, msg_spot = s16 (if cnt \<noteq> 0 then spot else -1)\<rparr>"
    using e(3) mp by (simp add: taken_def)
  have s: "s16 spot = spot" if "cnt \<noteq> 0" using sp [OF that] by (intro s16_id) auto
  have "msg_text ?st' mp = text_at st spot (nat cnt)"
    using new ts e(2,4) s by (cases "cnt = 0") (simp_all add: msg_text_def text_at_def)
  then show "view ?st' i = view st i @ [(ty, text_at st spot (nat cnt))]"
    using q' i new old que_in_queued [OF i] by (auto simp: view_def)
  show "j \<noteq> i \<Longrightarrow> j < length (msgque st) \<Longrightarrow> view ?st' j = view st j"
    by (rule view_upd [OF q'(1) old])
qed

lemma put_hdr_ok:
  assumes ok: "msgs_ok st" and mp: "taken mp st"
  shows "msgs_ok (put_hdr mp st)" and "view (put_hdr mp st) j = view st j"
proof -
  let ?st' = "put_hdr mp st"
  have sg: "segs ?st' hs = segs st hs" for hs by (rule segs_cong) simp_all
  have qd: "queued ?st' = queued st" by (simp add: queued_def)
  have b: "bytes_ok ?st' = bytes_ok st" by (rule ext, rule bytes_ok_cong) simp
  show "msgs_ok ?st'"
    using ok mp by (auto simp: msgs_ok_def msgs_core_def msg_limits_def hdrs_ok_def segs_ok_def spots_ok_def sg qd b taken_def)
  show "view ?st' j = view st j" by (simp add: view_def msg_text_def text_at_def)
qed

lemma take_hdr_ok:
  assumes ok: "msgs_ok st" and fp: "msgfp st = mp # fps"
  shows "msgs_ok (st\<lparr>msgfp := fps\<rparr>)" and "taken mp (st\<lparr>msgfp := fps\<rparr>)" and "view (st\<lparr>msgfp := fps\<rparr>) j = view st j"
proof -
  let ?st' = "st\<lparr>msgfp := fps\<rparr>"
  have sg: "segs ?st' hs = segs st hs" for hs by (rule segs_cong) simp_all
  have qd: "queued ?st' = queued st" by (simp add: queued_def)
  have b: "bytes_ok ?st' = bytes_ok st" by (rule ext, rule bytes_ok_cong) simp
  show "msgs_ok ?st'"
    using ok fp by (auto simp: msgs_ok_def msgs_core_def msg_limits_def hdrs_ok_def segs_ok_def spots_ok_def sg qd b)
  show "taken mp ?st'" using msgs_okD(5) [OF ok] fp by (auto simp: taken_def hdrs_ok_def qd)
  show "view ?st' j = view st j" by (simp add: view_def msg_text_def text_at_def)
qed


text \<open>What a round of \<open>msgsnd\<close> leaves: on success the message at the end of its queue.\<close>

definition sent :: "nat \<Rightarrow> int \<Rightarrow> u8 list \<Rightarrow> msgst \<Rightarrow> msgst \<Rightarrow> bool" where
  "sent i ty bs st st' \<longleftrightarrow> view st' i = view st i @ [(ty, bs)] \<and>
     (\<forall>j<length (msgque st). j \<noteq> i \<longrightarrow> view st' j = view st j)"

definition round_ok :: "msg_user \<Rightarrow> nat \<Rightarrow> int \<Rightarrow> int \<Rightarrow> msgst \<Rightarrow> send_step \<Rightarrow> bool" where
  "round_ok usr i cnt ty st r \<longleftrightarrow>
     (case r of
        SndDone (Inr v) st' \<Rightarrow> msgs_ok st' \<and>
          (cnt = 0 \<or> (\<exists>bs. in_text usr = Some bs \<and> nat cnt \<le> length bs) \<longrightarrow>
             sent i ty (if cnt = 0 then [] else take (nat cnt) (the (in_text usr))) st st')
      | SndDone (Inl e) st' \<Rightarrow> msgs_ok st' \<and> (\<forall>j. view st' j = view st j)
      | SndWait c st' \<Rightarrow> msgs_ok st' \<and> (\<forall>j. view st' j = view st j))"

lemma round_ok_cong:
  assumes "\<And>j. view s j = view st j" and "length (msgque s) = length (msgque st)"
  shows "round_ok usr i cnt ty s r = round_ok usr i cnt ty st r"
proof -
  have "view s = view st" by (rule ext) (rule assms(1))
  then have "sent i ty bs s = sent i ty bs st" for bs by (simp add: sent_def fun_eq_iff assms(2))
  then show ?thesis
    by (cases r) (auto simp: round_ok_def assms(1) split: sum.splits)
qed

lemma view_map [simp]: "view (st\<lparr>msgmap := m\<rparr>) j = view st j"
  by (simp add: view_def msg_text_def text_at_def)

lemma map_want [simp]:
  "rmap_ok (m\<lparr>mapwant := w\<rparr>) = rmap_ok m" "free_units (m\<lparr>mapwant := w\<rparr>) = free_units m"
proof -
  have l: "live (m\<lparr>mapwant := w\<rparr>) = live m" by (simp add: live_def)
  show "rmap_ok (m\<lparr>mapwant := w\<rparr>) = rmap_ok m" "free_units (m\<lparr>mapwant := w\<rparr>) = free_units m"
    by (simp_all add: rmap_ok_def free_units_def l)
qed

lemma msgs_ok_map:
  assumes "msgs_ok st" and "rmap_ok m" and "holds (free_units m) (segs st (queued st))"
    and "free_units m \<subseteq> {1..unat (msgseg (minfo st))}"
  shows "msgs_ok (st\<lparr>msgmap := m\<rparr>)"
  by (rule msgs_ok_same [OF assms(1)]) (use assms in simp_all)

lemma taken_map [simp]: "taken mp (st\<lparr>msgmap := m\<rparr>) = taken mp st"
  by (simp add: taken_def queued_def)

lemma taken_write [simp]: "taken mp (write_text st spot bs) = taken mp st"
  by (simp add: taken_def queued_def)

lemma map_write_simps [simp]:
  "btoq (st\<lparr>msgmap := m\<rparr>) = btoq st" "btoq (write_text st spot bs) = btoq st"
  "queued (st\<lparr>msgmap := m\<rparr>) = queued st" "queued (write_text st spot bs) = queued st"
  "segs (st\<lparr>msgmap := m\<rparr>) hs = segs st hs" "segs (write_text st spot bs) hs = segs st hs"
  by (simp_all add: fun_eq_iff btoq_def queued_def segs_def seg_def)

lemma msgs_ok_write:
  assumes "msgs_ok st" and "nat (msgssz (minfo st) * spot) + length bs \<le> length (msgmem st)"
  shows "msgs_ok (write_text st spot bs)"
proof -
  have "length (msgmem (write_text st spot bs)) = length (msgmem st)"
    using assms(2) by (simp add: write_text_def Let_def)
  then show ?thesis using assms(1) msgs_ok_iff [of "write_text st spot bs" st] by simp
qed

lemma send_text_ok:
  assumes ok: "msgs_ok st" and i: "i < length (msgque st)" and al: "ipc_alloc (msg_perm (msgque st ! i))"
    and mp: "taken mp st" and cnt: "0 \<le> cnt" "cnt \<le> 65535"
  shows "round_ok usr i cnt ty st (send_text usr u i cnt ty msgflg mp st)"
proof (cases "cnt = 0")
  case True
  have "msgs_ok (enqueue_msg u i mp cnt ty 0 st)"
    by (rule enqueue_ok [OF ok i al mp cnt _ _ _ refl, where a = 0]) (use True msgs_okD(2) [OF ok] in \<open>simp_all add: new_seg_def\<close>)
  then show ?thesis
    using enqueue_view [OF ok i mp cnt, where u = u and spot = 0 and ty = ty] True
    by (simp add: send_text_def round_ok_def sent_def text_at_def)
next
  case False
  let ?n = "btoq st cnt"
  obtain a m where am: "rmalloc (msgmap st) ?n = (a, m)" by (cases "rmalloc (msgmap st) ?n")
  let ?st1 = "st\<lparr>msgmap := m\<rparr>"
  note R = msgs_okD(1-3) [OF ok]
  have bt: "btoq ?st1 cnt = ?n" by (simp add: btoq_def)
  have def: "send_text usr u i cnt ty msgflg mp st =
     (if a = 0 then
        (if msgflg AND IPC_NOWAIT \<noteq> 0 then SndDone (Inl EAGAIN) (put_hdr mp ?st1)
         else SndWait ChMap (put_hdr mp (?st1\<lparr>msgmap := m\<lparr>mapwant := mapwant m + 1\<rparr>\<rparr>)))
      else
        (case in_text usr of
           None \<Rightarrow> SndDone (Inl EFAULT) (put_hdr mp (?st1\<lparr>msgmap := rmfree m ?n a\<rparr>))
         | Some bs \<Rightarrow> SndDone (Inr 0) (enqueue_msg u i mp cnt ty (int (unat a) - 1)
             (write_text ?st1 (int (unat a) - 1) (take (nat cnt) bs)))))"
    using False am bt by (cases "in_text usr") (simp_all add: send_text_def Let_def)
  show ?thesis
  proof (cases "a = 0")
    case a0: True
    then have m: "m = msgmap st" using rm.alloc_none [OF R(1)] am by blast
    have "msgs_ok (st\<lparr>msgmap := m\<lparr>mapwant := w\<rparr>\<rparr>)" for w using msgs_ok_map [OF ok] R m by simp
    moreover have "msgs_ok ?st1" using ok m by simp
    ultimately show ?thesis
      unfolding def using a0 put_hdr_ok mp by (simp add: round_ok_def)
  next
    case a1: False
    have al1: "rmap_ok m" "block_wf (a, ?n)" "block a ?n \<subseteq> free_units (msgmap st)" "free_units m = free_units (msgmap st) - block a ?n"
      using rm.alloc_some [OF R(1) am a1] by auto
    have hol: "holds (free_units m) ((a, ?n) # segs st (queued st))"
      using rm.alloc_holds [OF R(1,2) am a1] .
    have bl: "block a ?n \<subseteq> {1..unat (msgseg (minfo st))}" using al1(3) R(3) by blast
    have fr: "free_units m \<subseteq> {1..unat (msgseg (minfo st))}" using al1(4) R(3) by blast
    have ok1: "msgs_ok ?st1" using msgs_ok_map [OF ok al1(1) _ fr] hol by simp
    have cnt0: "0 < cnt" using False cnt(1) by simp
    show ?thesis
    proof (cases "in_text usr")
      case None
      have h0: "holds (free_units m) ([] @ (a, ?n) # segs st (queued st))" using hol by simp
      have "free_units (rmfree m ?n a) \<in> {free_units m, free_units m \<union> block a ?n}"
        using rm.release_units [OF al1(1,2)] al1(4) by blast
      then have "free_units (rmfree m ?n a) \<subseteq> {1..unat (msgseg (minfo st))}" using fr bl by auto
      then have "msgs_ok (st\<lparr>msgmap := rmfree m ?n a\<rparr>)"
        using msgs_ok_map [OF ok rm.release_inv [OF al1(1) h0]] rm.release_holds [OF al1(1) h0] by simp
      then show ?thesis unfolding def using None a1 put_hdr_ok mp by (simp add: round_ok_def)
    next
      case (Some bs)
      let ?bs = "take (nat cnt) bs" and ?spot = "int (unat a) - 1"
      let ?st2 = "write_text ?st1 ?spot ?bs"
      have lb: "length ?bs \<le> nat cnt" by simp
      have hol1: "holds (free_units m) ((a, btoq ?st1 cnt) # segs ?st1 (queued ?st1))"
        using hol segs_cong [of "queued st" ?st1 st] by (simp add: bt queued_def)
      have bl1: "block a (btoq ?st1 cnt) \<subseteq> {1..unat (msgseg (minfo ?st1))}" using bl bt by simp
      have pl: "nat (msgssz (minfo ?st1) * ?spot) + length ?bs \<le> length (msgmem ?st1)"
        using new_block_place(1) [OF msgs_okD(4) [OF ok1] bl1 _ cnt0 cnt(2) lb] al1(2) bt by simp
      have ok2: "msgs_ok ?st2" by (rule msgs_ok_write [OF ok1 pl])
      have ok3: "msgs_ok (enqueue_msg u i mp cnt ty ?spot ?st2)"
        by (rule enqueue_ok [OF ok2 _ _ _ cnt _ _ _ refl, where a = a])
          (use i al mp False hol bl in \<open>simp_all add: new_seg_def\<close>)
      have a32: "0 \<le> ?spot \<and> ?spot < 32768"
      proof -
        have "unat a \<in> block a ?n" using al1(2) by (auto simp: block_wf_def block_def unat_gt_0)
        then have "1 \<le> unat a" "unat a < 32768" using bl msgs_okD(4) [OF ok] by (auto simp: msg_limits_def)
        then show ?thesis by linarith
      qed
      have vw: "view ?st2 j = view st j" if "j < length (msgque st)" for j
        using write_text_other [OF ok1 _ hol1 bl1 cnt0 cnt(2) lb] que_in_queued [of j ?st1] that
        by (auto simp: view_def msg_text_def text_at_def)
      have new: "text_at ?st2 ?spot (nat cnt) = ?bs" if "nat cnt \<le> length bs"
        using splice_new [OF pl] that by (simp add: text_at_def write_text_def Let_def min_absorb2)
      have "sent i ty ?bs st (enqueue_msg u i mp cnt ty ?spot ?st2)" if "nat cnt \<le> length bs"
        using enqueue_view [OF ok2 _ _ cnt a32, where i = i and mp = mp and u = u and ty = ty] i mp new [OF that] vw by (simp add: sent_def)
      then show ?thesis unfolding def using Some a1 ok3 False by (simp add: round_ok_def)
    qed
  qed
qed

lemma mode_wait_ok:
  assumes ok: "msgs_ok st" and i: "i < length (msgque st)"
    and f: "ipc_alloc ((msg_perm (msgque st ! i))\<lparr>mode := f (mode (msg_perm (msgque st ! i)))\<rparr>) = ipc_alloc (msg_perm (msgque st ! i))"
  shows "msgs_ok (upd_que i (upd_mode f) st)" and "view (upd_que i (upd_mode f) st) j = view st j"
proof -
  let ?st' = "upd_que i (upd_mode f) st"
  have qi: "que_ok (msgque st ! i)" "bytes_ok st (msgque st ! i)"
    using msgs_okD(8,9) [OF ok] i by (simp_all add: list_all_length)
  have "msgs_core ?st'"
    by (rule msgs_core_upd [OF msgs_okD(10) [OF ok] i upd_que_simps(2)]) (use qi f in \<open>auto simp: que_ok_def\<close>)
  moreover have "bytes_ok ?st' = bytes_ok st" by (rule ext, rule bytes_ok_cong) simp
  moreover have "bytes_ok st (upd_mode f (msgque st ! i))" using qi by (simp add: bytes_ok_def)
  ultimately show "msgs_ok ?st'"
    using msgs_okD(9) [OF ok] i by (simp add: msgs_ok_def list_all_length nth_list_update)
  show "view ?st' j = view st j"
    by (cases "i = j") (use i in \<open>simp_all add: view_def msg_text_def text_at_def\<close>)
qed

lemma send_round_ok:
  assumes ok: "msgs_ok st" and i: "i < length (msgque st)" and al: "ipc_alloc (msg_perm (msgque st ! i))"
    and cnt: "0 \<le> cnt" "cnt \<le> 65535"
  shows "round_ok usr i cnt ty st (send_round usr u i cnt ty msgflg st)"
proof (cases "msgfp st")
  case Nil
  then show ?thesis
    using ok mode_wait_ok [OF ok i, of "\<lambda>m. m OR MSG_WWAIT"] by (simp add: send_round_def round_ok_def)
next
  case (Cons mp fps)
  note t = take_hdr_ok [OF ok Cons]
  have "round_ok usr i cnt ty (st\<lparr>msgfp := fps\<rparr>) (send_text usr u i cnt ty msgflg mp (st\<lparr>msgfp := fps\<rparr>))"
    by (rule send_text_ok [OF t(1) _ _ t(2) cnt]) (use i al in simp_all)
  then have "round_ok usr i cnt ty st (send_text usr u i cnt ty msgflg mp (st\<lparr>msgfp := fps\<rparr>))"
    using round_ok_cong [of "st\<lparr>msgfp := fps\<rparr>" st] t(3) by simp
  then show ?thesis
    using ok mode_wait_ok [OF ok i, of "\<lambda>m. m OR MSG_WWAIT"] Cons by (simp add: send_round_def round_ok_def)
qed

end
