(* ===== verification/Msg_Set.thy ===== *)
theory Msg_Set imports Msg_Inv begin

text \<open>
  The properties of the message facility: the choice of a message, the invariant through every
  system call and its sleeps, sending and receiving on the queues as lists, and the removal of a
  queue.
\<close>

section \<open>Locks and sleeps\<close>

definition keeps_msgs :: "msg_sleep \<Rightarrow> bool" where
  "keeps_msgs slp \<longleftrightarrow> (\<forall>c st. msgs_ok st \<longrightarrow> msgs_ok (snd (slp c st)) \<and> minfo (snd (slp c st)) = minfo st)"

lemma keeps_msgsD:
  "keeps_msgs slp \<Longrightarrow> msgs_ok st \<Longrightarrow> slp c st = (b, st') \<Longrightarrow> msgs_ok st' \<and> minfo st' = minfo st"
  unfolding keeps_msgs_def by (metis snd_conv)

lemma lock_wait_ok:
  assumes "lock_wait slp i st = Some st'" and "keeps_msgs slp" and "msgs_ok st"
  shows "msgs_ok st' \<and> minfo st' = minfo st"
proof -
  have "keeps_msgs slp \<longrightarrow> msgs_ok st \<longrightarrow> msgs_ok st' \<and> minfo st' = minfo st"
    using assms(1)
  proof (rule lock_wait.raw_induct [rotated])
    fix wait slp i and st st' :: msgst
    assume IH: "\<And>slp i st st'. wait slp i st = Some st' \<Longrightarrow>
        keeps_msgs slp \<longrightarrow> msgs_ok st \<longrightarrow> msgs_ok st' \<and> minfo st' = minfo st"
      and r: "(if msglock st ! i then wait slp i (snd (slp (ChLock i) st)) else Some st) = Some st'"
    show "keeps_msgs slp \<longrightarrow> msgs_ok st \<longrightarrow> msgs_ok st' \<and> minfo st' = minfo st"
    proof (intro impI)
      assume k: "keeps_msgs slp" and ok: "msgs_ok st"
      then have "msgs_ok (snd (slp (ChLock i) st)) \<and> minfo (snd (slp (ChLock i) st)) = minfo st"
        by (simp add: keeps_msgs_def)
      then show "msgs_ok st' \<and> minfo st' = minfo st"
        using IH [of slp i "snd (slp (ChLock i) st)" st'] r k ok by (cases "msglock st ! i") auto
    qed
  qed
  then show ?thesis using assms(2,3) by blast
qed

lemma msgconv_ok:
  assumes r: "msgconv slp id1 st = Some (r, st')" and "keeps_msgs slp" and "msgs_ok st"
  shows "msgs_ok st' \<and> minfo st' = minfo st \<and>
    (\<forall>i. r = Inr i \<longrightarrow> i = nat (id1 mod msgmni (minfo st)) \<and> i < length (msgque st') \<and> ipc_alloc (msg_perm (msgque st' ! i)))"
proof (cases "id1 < 0")
  case True
  then show ?thesis using assms by (auto simp: msgconv_def)
next
  case False
  let ?i = "nat (id1 mod msgmni (minfo st))"
  obtain st1 where w: "lock_wait slp ?i st = Some st1"
    using r False by (auto simp: msgconv_def Let_def split: option.splits)
  have o: "msgs_ok st1" "minfo st1 = minfo st" using lock_wait_ok [OF w assms(2,3)] by simp_all
  have "?i < length (msgque st1)"
    using msgs_okD(4) [OF o(1)] o(2) by (simp add: msg_limits_def nat_less_eq_zless)
  then show ?thesis
    using r False w o by (auto simp: msgconv_def Let_def ipc_alloc_def split: if_splits)
qed

section \<open>The calls keep the invariant\<close>

lemma deliver_ok:
  assumes ok: "msgs_ok st" and i: "i < length (msgque st)" and k: "k < length (msg_q (msgque st ! i))"
  shows "msgs_ok (snd (deliver usr u i k msgsz msgflg st))"
proof -
  let ?m = "msgh st ! (msg_q (msgque st ! i) ! k)"
  let ?f = "\<lambda>q. q\<lparr>msg_cbytes := msg_cbytes q - ucast (msg_ts ?m), msg_lrpid := p_pid u, msg_rtime := hrestime u\<rparr>"
  have "upd_que i ?f st = upd_que i (\<lambda>_. ?f (msgque st ! i)) st" by (simp add: upd_que_def)
  then have "msgs_ok (msgfree i k (upd_que i ?f st))"
    using deliver_take(1) [OF ok i k, of "?f (msgque st ! i)"] by simp
  then show ?thesis using ok by (simp add: deliver_def Let_def)
qed

lemma select_msg_less:
  assumes "select_msg ty ts = Some k"
  shows "k < length ts"
proof -
  have "k < n + length ts" if "find_type ty n best ts = Some k" "\<And>j t. best = Some (j, t) \<Longrightarrow> j < n + length ts" for n best
    using that
  proof (induction ts arbitrary: n best)
    case Nil
    then show ?case by (cases best) auto
  next
    case (Cons t ts)
    then show ?case
      using Cons.IH [of "n + 1" best] Cons.IH [of "n + 1" "Some (n, t)"]
      by (auto split: if_splits option.splits)
  qed
  from this [of 0 None] show ?thesis using assms by (auto simp: select_msg_def split: if_splits)
qed

lemma mode_recv_ok:
  "msgs_ok st \<Longrightarrow> i < length (msgque st) \<Longrightarrow> msgs_ok (upd_que i (upd_mode (\<lambda>m. m OR MSG_RWAIT)) st)"
  "msgs_ok st \<Longrightarrow> i < length (msgque st) \<Longrightarrow> msgs_ok (upd_que i (upd_mode (\<lambda>m. m AND NOT MSG_WWAIT)) st)"
  by (rule mode_wait_ok(1); simp)+


lemma msgrcv_loop_ok:
  assumes "msgrcv_loop slp usr u i id1 msgsz ty msgflg st = Some r" and "keeps_msgs slp" and "msgs_ok st"
  shows "msgs_ok (snd r)"
proof -
  have "keeps_msgs slp \<longrightarrow> msgs_ok st \<longrightarrow> msgs_ok (snd r)"
    using assms(1)
  proof (rule msgrcv_loop.raw_induct [rotated], intro impI)
    fix loop slp usr u i id1 msgsz ty msgflg and st :: msgst and r
    assume IH: "\<And>slp usr u i id1 msgsz ty msgflg st r. loop slp usr u i id1 msgsz ty msgflg st = Some r \<Longrightarrow>
        keeps_msgs slp \<longrightarrow> msgs_ok st \<longrightarrow> msgs_ok (snd r)"
      and k: "keeps_msgs slp" and ok: "msgs_ok st"
      and r: "(case msgconv slp id1 st of
        None \<Rightarrow> None
      | Some (Inl e, st1) \<Rightarrow> Some (Inl EIDRM, st1)
      | Some (Inr j, st1) \<Rightarrow>
          if j \<noteq> i then Some (Inl EIDRM, unlock j st1)
          else
            (case select_msg ty (queue_types st1 i) of
               None \<Rightarrow>
                 if msgflg AND IPC_NOWAIT \<noteq> 0 then Some (Inl ENOMSG, unlock i st1)
                 else
                   (case slp (ChRecv i) (unlock i (upd_que i (upd_mode (\<lambda>m. m OR MSG_RWAIT)) st1)) of
                      (intr, st2) \<Rightarrow>
                        if intr then Some (Inl EINTR, st2)
                        else loop slp usr u i id1 msgsz ty msgflg st2)
             | Some k \<Rightarrow> (case deliver usr u i k msgsz msgflg st1 of (r, st2) \<Rightarrow> Some (r, unlock i st2)))) = Some r"
    obtain c st1 where c: "msgconv slp id1 st = Some (c, st1)" using r by (cases "msgconv slp id1 st") auto
    note m = msgconv_ok [OF c k ok]
    show "msgs_ok (snd r)"
    proof (cases c)
      case (Inl e)
      then show ?thesis using r c m by auto
    next
      case (Inr j)
      show ?thesis
      proof (cases "j = i")
        case False
        then show ?thesis using r c Inr m by auto
      next
        case True
        then have i: "i < length (msgque st1)" and ok1: "msgs_ok st1" using m Inr by simp_all
        show ?thesis
        proof (cases "select_msg ty (queue_types st1 i)")
          case (Some n)
          then have "n < length (msg_q (msgque st1 ! i))" using select_msg_less by (fastforce simp: queue_types_def)
          then have "msgs_ok (snd (deliver usr u i n msgsz msgflg st1))" by (rule deliver_ok [OF ok1 i])
          then show ?thesis using r c Inr True Some by (auto split: prod.splits)
        next
          case None
          obtain b st2 where s: "slp (ChRecv i) (unlock i (upd_que i (upd_mode (\<lambda>m. m OR MSG_RWAIT)) st1)) = (b, st2)"
            by (cases "slp (ChRecv i) (unlock i (upd_que i (upd_mode (\<lambda>m. m OR MSG_RWAIT)) st1))")
          have ok2: "msgs_ok st2" using keeps_msgsD [OF k _ s] mode_recv_ok(1) [OF ok1 i] by simp
          show ?thesis
          proof (cases "msgflg AND IPC_NOWAIT \<noteq> 0 \<or> b")
            case True
            then show ?thesis using r c Inr \<open>j = i\<close> None s ok1 ok2 by (auto split: if_splits)
          next
            case False
            then have "loop slp usr u i id1 msgsz ty msgflg st2 = Some r" using r c Inr \<open>j = i\<close> None s by simp
            then show ?thesis using IH k ok2 by blast
          qed
        qed
      qed
    qed
  qed
  then show ?thesis using assms(2,3) by blast
qed

lemma send_intr_ok:
  assumes r: "send_intr slp i id1 c st = Some r" and k: "keeps_msgs slp" and ok: "msgs_ok st"
  shows "msgs_ok (snd r)"
proof -
  obtain x st1 where c: "msgconv slp id1 st = Some (x, st1)"
    using r by (cases "msgconv slp id1 st") (auto simp: send_intr_def)
  show ?thesis
    using r c msgconv_ok [OF c k ok] mode_recv_ok(2) [of st1 i]
    by (auto simp: send_intr_def split: sum.splits if_splits)
qed

lemma msgsnd_loop_ok:
  assumes "msgsnd_loop slp usr u i id1 cnt ty msgflg st = Some r" and "keeps_msgs slp" and "msgs_ok st"
    and "0 \<le> cnt" and "cnt \<le> 65535"
  shows "msgs_ok (snd r)"
proof -
  have "keeps_msgs slp \<longrightarrow> msgs_ok st \<longrightarrow> 0 \<le> cnt \<longrightarrow> cnt \<le> 65535 \<longrightarrow> msgs_ok (snd r)"
    using assms(1)
  proof (rule msgsnd_loop.raw_induct [rotated], intro impI)
    fix loop slp usr u i id1 cnt ty msgflg and st :: msgst and r
    assume IH: "\<And>slp usr u i id1 cnt ty msgflg st r. loop slp usr u i id1 cnt ty msgflg st = Some r \<Longrightarrow>
        keeps_msgs slp \<longrightarrow> msgs_ok st \<longrightarrow> 0 \<le> cnt \<longrightarrow> cnt \<le> 65535 \<longrightarrow> msgs_ok (snd r)"
      and k: "keeps_msgs slp" and ok: "msgs_ok st" and cnt: "0 \<le> cnt" "cnt \<le> 65535"
      and r: "(case msgconv slp id1 st of
        None \<Rightarrow> None
      | Some (Inl e, st1) \<Rightarrow> Some (Inl EIDRM, st1)
      | Some (Inr j, st1) \<Rightarrow>
          if j \<noteq> i then Some (Inl EIDRM, unlock j st1)
          else
            (case send_round usr u i cnt ty msgflg st1 of
               SndDone r st2 \<Rightarrow> Some (r, unlock i st2)
             | SndWait c st2 \<Rightarrow>
                 (case slp c (unlock i st2) of
                    (intr, st3) \<Rightarrow>
                      if intr then send_intr slp i id1 c st3
                      else loop slp usr u i id1 cnt ty msgflg st3))) = Some r"
    obtain c st1 where c: "msgconv slp id1 st = Some (c, st1)" using r by (cases "msgconv slp id1 st") auto
    note m = msgconv_ok [OF c k ok]
    show "msgs_ok (snd r)"
    proof (cases c)
      case (Inl e)
      then show ?thesis using r c m by auto
    next
      case (Inr j)
      show ?thesis
      proof (cases "j = i")
        case False
        then show ?thesis using r c Inr m by auto
      next
        case True
        then have i: "i < length (msgque st1)" "ipc_alloc (msg_perm (msgque st1 ! i))" and ok1: "msgs_ok st1"
          using m Inr by auto
        have ro: "round_ok usr i cnt ty st1 (send_round usr u i cnt ty msgflg st1)"
          by (rule send_round_ok [OF ok1 i cnt])
        show ?thesis
        proof (cases "send_round usr u i cnt ty msgflg st1")
          case (SndDone x st2)
          then have "msgs_ok st2" using ro by (auto simp: round_ok_def split: sum.splits)
          then show ?thesis using r c Inr True SndDone by auto
        next
          case (SndWait ch st2)
          obtain b st3 where s: "slp ch (unlock i st2) = (b, st3)" by (cases "slp ch (unlock i st2)")
          have "msgs_ok st2" using ro SndWait by (simp add: round_ok_def)
          then have ok3: "msgs_ok st3" using keeps_msgsD [OF k _ s] by simp
          show ?thesis
          proof (cases b)
            case b: True
            then have "send_intr slp i id1 ch st3 = Some r" using r c Inr True SndWait s by simp
            then show ?thesis by (rule send_intr_ok [OF _ k ok3])
          next
            case b: False
            then have "loop slp usr u i id1 cnt ty msgflg st3 = Some r" using r c Inr True SndWait s by simp
            then show ?thesis using IH k ok3 cnt by blast
          qed
        qed
      qed
    qed
  qed
  then show ?thesis using assms(2-5) by blast
qed

lemma msgs_ok_cnt [simp]: "msgs_ok (st\<lparr>msg_cnt := n\<rparr>) = msgs_ok st"
  by (rule msgs_ok_iff) simp_all

lemma msgrcv_ok:
  assumes r: "msgrcv slp usr u id1 msgsz ty msgflg st = Some r" and k: "keeps_msgs slp" and ok: "msgs_ok st"
  shows "msgs_ok (snd r)"
proof -
  obtain c st1 where c: "msgconv slp id1 (st\<lparr>msg_cnt := msg_cnt st + 1\<rparr>) = Some (c, st1)"
    using r by (cases "msgconv slp id1 (st\<lparr>msg_cnt := msg_cnt st + 1\<rparr>)") (auto simp: msgrcv_def)
  have "msgs_ok st1" using msgconv_ok [OF c k] ok by simp
  then show ?thesis
    using r c msgrcv_loop_ok [OF _ k, of usr u _ id1 msgsz ty msgflg "unlock _ st1" r]
    by (auto simp: msgrcv_def split: sum.splits option.splits if_splits)
qed

lemma msgsnd_ok:
  assumes r: "msgsnd slp usr u id1 msgsz msgflg st = Some r" and k: "keeps_msgs slp" and ok: "msgs_ok st"
  shows "msgs_ok (snd r)"
proof -
  obtain c st1 where c: "msgconv slp id1 (st\<lparr>msg_cnt := msg_cnt st + 1\<rparr>) = Some (c, st1)"
    using r by (cases "msgconv slp id1 (st\<lparr>msg_cnt := msg_cnt st + 1\<rparr>)") (auto simp: msgsnd_def)
  have ok1: "msgs_ok st1" using msgconv_ok [OF c k] ok by simp
  then have "msgmax (minfo st1) \<le> 65535" using msgs_okD(4) by (auto simp: msg_limits_def)
  then show ?thesis
    using r c ok1 msgsnd_loop_ok [OF _ k, of usr u _ id1 msgsz _ msgflg "unlock _ st1" r]
    by (auto simp: msgsnd_def split: sum.splits option.splits if_splits)
qed

section \<open>Removal, control and creation\<close>

text \<open>Freeing every message of a queue.\<close>

lemma rmid_free_spec:
  assumes "msgs_core st" and "i < length (msgque st)" and "msg_q (msgque st ! i) = ms"
  defines "st' \<equiv> rmid_free i ms st"
  shows "msgs_core st' \<and> (\<exists>q'. msgque st' = (msgque st)[i := q'] \<and> msg_q q' = [] \<and>
      ipc_alloc (msg_perm q') = ipc_alloc (msg_perm (msgque st ! i))) \<and>
    minfo st' = minfo st \<and> msgh st' = msgh st \<and> msgmem st' = msgmem st \<and> msglock st' = msglock st \<and>
    set (msgfp st') = set ms \<union> set (msgfp st)"
  using assms(1-3) unfolding st'_def
proof (induction ms arbitrary: st)
  case Nil
  then show ?case by (auto intro: exI [of _ "msgque st ! i"])
next
  case (Cons m ms)
  let ?st1 = "msgfree i 0 st"
  note e = msgfree_effect [OF Cons.prems(2), of 0]
  obtain q' where q': "msgque ?st1 = (msgque st)[i := q']" "msg_q q' = ms"
    "ipc_alloc (msg_perm q') = ipc_alloc (msg_perm (msgque st ! i))"
    using e(1) Cons.prems(3) by auto
  have i1: "i < length (msgque ?st1)" "msgque ?st1 ! i = q'" using q'(1) Cons.prems(2) by simp_all
  have "msgs_core ?st1" by (rule msgfree_core [OF Cons.prems(1,2)]) (simp add: Cons.prems(3))
  then show ?case
    using Cons.IH [OF _ i1(1)] i1(2) q' e Cons.prems(3) by auto
qed

lemma msg_wakes_mono: "set (msg_wakes st) \<subseteq> set (msg_wakes (msgfree i k st))"
  by (auto simp: msgfree_def Let_def put_hdr_def wake_senders_def msg_wake_def upd_que_def)

lemma rmid_free_mode:
  "mode (msg_perm (msgque (rmid_free i ms st) ! i)) AND MSG_RWAIT = mode (msg_perm (msgque st ! i)) AND MSG_RWAIT \<and>
   set (msg_wakes st) \<subseteq> set (msg_wakes (rmid_free i ms st)) \<and>
   (i < length (msgque st) \<longrightarrow> mode (msg_perm (msgque st ! i)) AND MSG_WWAIT \<noteq> 0 \<longrightarrow>
     mode (msg_perm (msgque (rmid_free i ms st) ! i)) AND MSG_WWAIT \<noteq> 0 \<or> ChSend i \<in> set (msg_wakes (rmid_free i ms st)))"
proof (induction ms arbitrary: st)
  case Nil
  then show ?case by simp
next
  case (Cons m ms)
  have r: "mode (msg_perm (msgque (msgfree i 0 st) ! i)) AND MSG_RWAIT = mode (msg_perm (msgque st ! i)) AND MSG_RWAIT"
  proof -
    have n: "NOT MSG_WWAIT AND MSG_RWAIT = MSG_RWAIT" by (simp add: MSG_WWAIT_def MSG_RWAIT_def)
    have b: "(w AND NOT MSG_WWAIT) AND MSG_RWAIT = w AND MSG_RWAIT" for w
      by (simp only: and.assoc n)
    show ?thesis
      by (cases "i < length (msgque st)")
        (auto simp: msgfree_def Let_def wake_senders_def b list_update_beyond)
  qed
  have w: "mode (msg_perm (msgque (msgfree i 0 st) ! i)) AND MSG_WWAIT \<noteq> 0 \<or> ChSend i \<in> set (msg_wakes (msgfree i 0 st))"
    if "i < length (msgque st)" "mode (msg_perm (msgque st ! i)) AND MSG_WWAIT \<noteq> 0"
    using that by (auto simp: msgfree_def Let_def wake_senders_def put_hdr_def msg_wake_def upd_que_def)
  have l: "length (msgque (msgfree i 0 st)) = length (msgque st)"
    by (simp add: msgfree_def Let_def wake_senders_def)
  show ?case
    using Cons.IH [of "msgfree i 0 st"] r w msg_wakes_mono [of st i 0] l by auto
qed

lemma msgctl_rmid_spec:
  assumes ok: "msgs_ok st" and i: "i < length (msgque st)" and st'_def: "st' = msgctl_rmid id1 i st"
  shows "msgs_ok st'" and "view st' i = []" and "\<not> ipc_alloc (msg_perm (msgque st' ! i))"
    and "\<And>j. j \<noteq> i \<Longrightarrow> j < length (msgque st) \<Longrightarrow> view st' j = view st j"
    and "set (msgfp st') = set (msgfp st) \<union> set (msg_q (msgque st ! i))"
    and "mode (msg_perm (msgque st ! i)) AND MSG_RWAIT \<noteq> 0 \<Longrightarrow> ChRecv i \<in> set (msg_wakes st')"
    and "mode (msg_perm (msgque st ! i)) AND MSG_WWAIT \<noteq> 0 \<Longrightarrow> ChSend i \<in> set (msg_wakes st')"
proof -
  let ?st1 = "rmid_free i (msg_q (msgque st ! i)) st"
  obtain q1 where f: "msgs_core ?st1" "msgque ?st1 = (msgque st)[i := q1]" "msg_q q1 = []"
    "minfo ?st1 = minfo st" "msgh ?st1 = msgh st" "msgmem ?st1 = msgmem st" "msglock ?st1 = msglock st"
    "set (msgfp ?st1) = set (msg_q (msgque st ! i)) \<union> set (msgfp st)"
    using rmid_free_spec [OF msgs_okD(10) [OF ok] i refl] by blast
  have i1: "i < length (msgque ?st1)" "msgque ?st1 ! i = q1" using f(2) i by simp_all
  define sq where "sq = (if unat (word_of_int (id1 + msgmni (minfo ?st1)) :: u32) > INT16_MAX then 0 else seq (msg_perm q1) + 1)"
  let ?q = "q1\<lparr>msg_cbytes := 0, msg_perm := (msg_perm q1)\<lparr>seq := sq, mode := 0\<rparr>\<rparr>"
  let ?m = "mode (msg_perm q1)"
  have q': "msgque st' = (msgque st)[i := ?q]"
    using i i1 f(2) by (auto simp: st'_def msgctl_rmid_def Let_def upd_mode_def sq_def)
  have wk: "msg_wakes st' = msg_wakes ?st1 @ (if ?m AND MSG_RWAIT \<noteq> 0 then [ChRecv i] else []) @
      (if ?m AND MSG_WWAIT \<noteq> 0 then [ChSend i] else [])"
    using i1 by (auto simp: st'_def msgctl_rmid_def Let_def msg_wake_def upd_que_def)
  have rm: "?m AND MSG_RWAIT = mode (msg_perm (msgque st ! i)) AND MSG_RWAIT"
    and ws: "set (msg_wakes st) \<subseteq> set (msg_wakes ?st1)"
    and wm: "mode (msg_perm (msgque st ! i)) AND MSG_WWAIT \<noteq> 0 \<Longrightarrow> ?m AND MSG_WWAIT \<noteq> 0 \<or> ChSend i \<in> set (msg_wakes ?st1)"
    using rmid_free_mode [of i "msg_q (msgque st ! i)" st] i i1(2) by auto
  have st': "minfo st' = minfo st" "msgh st' = msgh st" "msgfp st' = msgfp ?st1" "msgmap st' = msgmap ?st1"
    "msgmem st' = msgmem st" "msglock st' = msglock st"
    using f by (simp_all add: st'_def msgctl_rmid_def Let_def)
  have core: "msgs_core st'"
    by (rule msgs_core_upd [OF f(1) i1(1), of st' ?q]) (use q' f i1 st' in simp_all)
  have b: "bytes_ok st' = bytes_ok st" by (rule ext, rule bytes_ok_cong) (simp add: st')
  have "bytes_ok st ?q" using f(3) by (simp add: bytes_ok_def)
  then show "msgs_ok st'"
    using core msgs_okD(9) [OF ok] i unfolding msgs_ok_def b q' by (simp add: list_all_length nth_list_update)
  show "view st' i = []" "\<not> ipc_alloc (msg_perm (msgque st' ! i))" using q' i f(3) by (simp_all add: view_def ipc_alloc_def)
  show "view st' j = view st j" if "j \<noteq> i" "j < length (msgque st)" for j
    using that q' msg_text_cong [of st' _ st] st' by (simp add: view_def)
  show "set (msgfp st') = set (msgfp st) \<union> set (msg_q (msgque st ! i))" using f(8) st'(3) by auto
  show "ChRecv i \<in> set (msg_wakes st')" if "mode (msg_perm (msgque st ! i)) AND MSG_RWAIT \<noteq> 0"
    using that rm unfolding wk by simp
  show "ChSend i \<in> set (msg_wakes st')" if "mode (msg_perm (msgque st ! i)) AND MSG_WWAIT \<noteq> 0"
    using wm [OF that] unfolding wk by auto
qed

lemma msg_set_alloc: "ipc_alloc (msg_perm (msg_set ud gd md qb u q)) = ipc_alloc (msg_perm q)"
proof -
  have "\<not> bit (0x1FF :: u32) 15" by simp
  then show ?thesis by (simp add: msg_set_def ipc_alloc_iff bit_or_iff bit_and_iff bit_not_iff)
qed

lemma msg_set_ok:
  assumes ok: "msgs_ok st" and i: "i < length (msgque st)"
  shows "msgs_ok (upd_que i (msg_set ud gd md qb u) st)"
proof -
  let ?st' = "upd_que i (msg_set ud gd md qb u) st"
  have qi: "que_ok (msgque st ! i)" "bytes_ok st (msgque st ! i)"
    using msgs_okD(8,9) [OF ok] i by (simp_all add: list_all_length)
  have "msgs_core ?st'"
    by (rule msgs_core_upd [OF msgs_okD(10) [OF ok] i upd_que_simps(2)])
      (use qi msg_set_alloc in \<open>auto simp: que_ok_def msg_set_def\<close>)
  moreover have "bytes_ok ?st' = bytes_ok st" by (rule ext, rule bytes_ok_cong) simp
  moreover have "bytes_ok st (msg_set ud gd md qb u (msgque st ! i))" using qi by (simp add: bytes_ok_def msg_set_def)
  ultimately show ?thesis
    using msgs_okD(9) [OF ok] i by (simp add: msgs_ok_def list_all_length nth_list_update)
qed

lemma msgctl_ok:
  assumes r: "msgctl slp usr u id1 cmd st = Some r" and k: "keeps_msgs slp" and ok: "msgs_ok st"
  shows "msgs_ok (snd r)"
proof -
  obtain c st1 where c: "msgconv slp id1 st = Some (c, st1)" using r by (cases "msgconv slp id1 st") (auto simp: msgctl_def)
  note m = msgconv_ok [OF c k ok]
  show ?thesis
  proof (cases c)
    case (Inl e)
    then show ?thesis using r c m by (auto simp: msgctl_def)
  next
    case (Inr i)
    then have i: "i < length (msgque st1)" and ok1: "msgs_ok st1" using m by auto
    have "msgs_ok (snd (msgctl_cmd usr u id1 cmd i st1))"
      unfolding msgctl_cmd_def Let_def
      using ok1 msgctl_rmid_spec(1) [OF ok1 i refl] msg_set_ok [OF ok1 i]
      by (auto split: option.split)
    then show ?thesis using r c Inr by (auto simp: msgctl_def split: prod.splits)
  qed
qed

lemma set_que_perms_same: "set_que_perms (map msg_perm qs) qs = qs"
  by (induction qs) (auto simp: set_que_perms_def)

lemma set_que_perms_update:
  assumes i: "i < length qs"
  shows "set_que_perms ((map msg_perm qs)[i := p]) qs = qs[i := (qs ! i)\<lparr>msg_perm := p\<rparr>]"
proof (rule nth_equalityI)
  show "length (set_que_perms ((map msg_perm qs)[i := p]) qs) = length (qs[i := (qs ! i)\<lparr>msg_perm := p\<rparr>])"
    by (simp add: set_que_perms_def)
  fix k assume "k < length (set_que_perms ((map msg_perm qs)[i := p]) qs)"
  then have k: "k < length qs" by (simp add: set_que_perms_def)
  then show "set_que_perms ((map msg_perm qs)[i := p]) qs ! k = qs[i := (qs ! i)\<lparr>msg_perm := p\<rparr>] ! k"
    using i by (cases "k = i") (simp_all add: set_que_perms_def)
qed

lemma msgget_ok:
  assumes r: "msgget u k msgflg st = (r, st')" and ok: "msgs_ok st"
  shows "msgs_ok st'"
proof (cases "ipcget k msgflg (map msg_perm (msgque st)) (u_cred u)")
  case (Inl e)
  then show ?thesis using r ok by (simp add: msgget_def)
next
  case (Inr p)
  obtain s i ps where p: "ipcget k msgflg (map msg_perm (msgque st)) (u_cred u) = Inr (s, i, ps)"
    using Inr by (cases p) auto
  show ?thesis
  proof (cases s)
    case False
    then have "ps = map msg_perm (msgque st)" using ipcget_old(1) [of k msgflg "map msg_perm (msgque st)" "u_cred u" i ps] p by simp
    then show ?thesis using r ok p False by (simp add: msgget_def Let_def set_que_perms_same)
  next
    case True
    then have n: "i < length (msgque st)" "\<not> ipc_alloc (msg_perm (msgque st ! i))"
      "ps = (map msg_perm (msgque st))[i := ipc_init k msgflg (u_cred u) (map msg_perm (msgque st) ! i)]"
      using ipcget_new [of k msgflg "map msg_perm (msgque st)" "u_cred u" i ps] p by simp_all
    have qi: "msg_q (msgque st ! i) = []" "msg_qnum (msgque st ! i) = 0" "msg_cbytes (msgque st ! i) = 0"
      using msgs_okD(8,9) [OF ok] n(1,2) by (auto simp: list_all_length que_ok_def bytes_ok_def)
    obtain q' where q': "msgque st' = (msgque st)[i := q']" "msg_q q' = []" "msg_qnum q' = 0" "msg_cbytes q' = 0"
      using r p True n qi by (auto simp: msgget_def Let_def set_que_perms_update)
    have st': "minfo st' = minfo st" "msgh st' = msgh st" "msgfp st' = msgfp st" "msgmap st' = msgmap st"
      "msgmem st' = msgmem st" "msglock st' = msglock st"
      using r p True by (auto simp: msgget_def Let_def)
    have core: "msgs_core st'"
      by (rule msgs_core_upd [OF msgs_okD(10) [OF ok] n(1) q'(1)]) (use q' qi st' in simp_all)
    have b: "bytes_ok st' = bytes_ok st" by (rule ext, rule bytes_ok_cong) (simp add: st')
    have "bytes_ok st q'" using q' by (simp add: bytes_ok_def)
    then show ?thesis
      using core msgs_okD(9) [OF ok] n(1) unfolding msgs_ok_def b q'(1) by (simp add: list_all_length nth_list_update)
  qed
qed

text \<open>\<open>msgsys\<close>.\<close>

lemma msgsys_ok:
  assumes r: "msgsys slp usr u uap st = Some r" and k: "keeps_msgs slp" and ok: "msgs_ok st"
  shows "msgs_ok (snd r)"
proof (cases uap)
  case None
  then show ?thesis using r ok by (auto simp: msgsys_def)
next
  case (Some a)
  then show ?thesis
    using r msgget_ok [OF _ ok] msgctl_ok [OF _ k ok] msgrcv_ok [OF _ k ok] msgsnd_ok [OF _ k ok]
    by (cases a) (auto simp: msgsys_def split: prod.splits)
qed

section \<open>The choice of a message\<close>

text \<open>What \<open>msgtyp\<close> asks for.\<close>

definition wanted :: "int \<Rightarrow> int \<Rightarrow> bool" where
  "wanted ty t \<longleftrightarrow> ty = 0 \<or> (if ty > 0 then t = ty else t \<le> - ty)"

lemma find_type_pos:
  assumes "0 < ty"
  shows "case find_type ty n None ts of
      None \<Rightarrow> list_all (\<lambda>t. \<not> wanted ty t) ts
    | Some k \<Rightarrow> n \<le> k \<and> k - n < length ts \<and> wanted ty (ts ! (k - n)) \<and> list_all (\<lambda>t. \<not> wanted ty t) (take (k - n) ts)"
proof (induction ts arbitrary: n)
  case Nil
  then show ?case by simp
next
  case (Cons t ts)
  show ?case
  proof (cases "ty = t")
    case True
    then show ?thesis using assms by (simp add: wanted_def)
  next
    case False
    then have w: "\<not> wanted ty t" "find_type ty n None (t # ts) = find_type ty (n + 1) None ts"
      using assms by (auto simp: wanted_def)
    show ?thesis
    proof (cases "find_type ty (n + 1) None ts")
      case None
      then show ?thesis unfolding w(2) using Cons.IH [of "n + 1"] w(1) by simp
    next
      case (Some k)
      then have j: "n + 1 \<le> k" "k - (n + 1) < length ts" "wanted ty (ts ! (k - (n + 1)))"
        "list_all (\<lambda>t. \<not> wanted ty t) (take (k - (n + 1)) ts)"
        using Cons.IH [of "n + 1"] by simp_all
      have s: "k - n = Suc (k - (n + 1))" using j(1) by simp
      show ?thesis unfolding w(2) Some using j w(1) by (simp add: s)
    qed
  qed
qed

text \<open>For a negative type: the loop after \<open>pre\<close> has the least wanted type so far, the first of it.\<close>

definition least_first :: "int \<Rightarrow> int list \<Rightarrow> nat \<Rightarrow> bool" where
  "least_first ty ts k \<longleftrightarrow> k < length ts \<and> wanted ty (ts ! k) \<and> list_all (\<lambda>t. ts ! k \<le> t) ts \<and>
     list_all (\<lambda>t. ts ! k < t) (take k ts)"

lemma find_type_neg:
  assumes ty: "ty < 0" "- (2 ^ 31) < ty"
    and best: "case best of None \<Rightarrow> list_all (\<lambda>t. \<not> wanted ty t) pre | Some (k, t) \<Rightarrow> least_first ty pre k \<and> pre ! k = t"
  shows "case find_type ty (length pre) best ts of
      None \<Rightarrow> list_all (\<lambda>t. \<not> wanted ty t) (pre @ ts)
    | Some k \<Rightarrow> least_first ty (pre @ ts) k"
  using best
proof (induction ts arbitrary: pre best)
  case Nil
  then show ?case by (cases best) auto
next
  case (Cons t ts)
  have s: "s32 (- ty) = - ty" using ty by (intro s32_id) auto
  have w: "wanted ty x \<longleftrightarrow> x \<le> - ty" for x using ty by (simp add: wanted_def)
  have step: "find_type ty (length pre) best (t # ts) = find_type ty (length (pre @ [t])) best' ts"
    if "best' = (if t \<le> - ty then (case best of Some (j, t') \<Rightarrow> if t' \<le> t then best else Some (length pre, t)
        | None \<Rightarrow> Some (length pre, t)) else best)" for best'
    using ty that s by (auto split: option.splits)
  have inv: "case best' of None \<Rightarrow> list_all (\<lambda>t. \<not> wanted ty t) (pre @ [t])
      | Some (k, t') \<Rightarrow> least_first ty (pre @ [t]) k \<and> (pre @ [t]) ! k = t'"
    if b: "best' = (if t \<le> - ty then (case best of Some (j, t') \<Rightarrow> if t' \<le> t then best else Some (length pre, t)
        | None \<Rightarrow> Some (length pre, t)) else best)" for best'
  proof (cases best)
    case None
    then have n: "list_all (\<lambda>x. - ty < x) pre" using Cons.prems by (simp add: w not_le)
    then show ?thesis using None b by (auto simp: least_first_def w list_all_iff nth_append)
  next
    case (Some p)
    obtain j t' where p: "p = (j, t')" by (cases p)
    have l: "j < length pre" "pre ! j \<le> - ty" "list_all (\<lambda>x. pre ! j \<le> x) pre" "list_all (\<lambda>x. pre ! j < x) (take j pre)" "pre ! j = t'"
      using Cons.prems Some p by (auto simp: least_first_def w)
    show ?thesis
    proof (cases "t \<le> - ty \<and> \<not> t' \<le> t")
      case True
      then have "best' = Some (length pre, t)" using b Some p by simp
      then show ?thesis using l True by (auto simp: least_first_def w list_all_iff)
    next
      case False
      then have "best' = Some (j, t')" "t' \<le> t" using b Some p l(2,5) by auto
      then show ?thesis using l by (auto simp: least_first_def w nth_append)
    qed
  qed
  show ?case
    using Cons.IH [OF inv [OF refl]] unfolding step [OF refl] append_assoc append_Cons append_Nil .
qed


section \<open>Properties\<close>

text \<open>The data of the witnesses: two queues, the first one in use, and ten segments of four bytes.\<close>

definition que0 :: msqid_ds where
  "que0 = \<lparr>msg_perm = perm0, msg_q = [], msg_cbytes = 0, msg_qnum = 0, msg_qbytes = 16, msg_lspid = 0,
     msg_lrpid = 0, msg_stime = 0, msg_rtime = 0, msg_ctime = 0\<rparr>"

definition msgst0 :: msgst where
  "msgst0 = \<lparr>minfo = \<lparr>mi_map = 6, msgmax = 20, msgmnb = 16, msgmni = 2, msgssz = 4, msgtql = 3, msgseg = 10\<rparr>,
     msgque = [que0, upd_mode (\<lambda>m. 0) que0], msgh = replicate 3 \<lparr>msg_type = 0, msg_ts = 0, msg_spot = 0\<rparr>,
     msgfp = [0, 1, 2], msgmap = map6, msgmem = replicate 40 0, msglock = [False, False], msg_wakes = [], msg_cnt = 0\<rparr>"

definition mcaller :: caller where
  "mcaller = \<lparr>p_slot = 0, p_pid = 12, u_cred = \<lparr>cr_uid = 7, cr_gid = 3, cr_groups = []\<rparr>, hrestime = 100\<rparr>"

definition muser :: msg_user where
  "muser = \<lparr>in_ods = None, in_ds = None, in_type = Some 3, in_text = Some [1, 2, 3, 4, 5], out_ds = True,
     out_type = True, out_text = True\<rparr>"

lemma msgst0_ok: "msgs_ok msgst0"
proof -
  have f: "free_units map6 \<subseteq> {1..10}" by (auto simp: free_units_def map6_ok ext_units_def ext_end_def)
  show ?thesis
    using map6_ok(1) f
    by (auto simp: msgs_ok_def msgs_core_def msg_limits_def hdrs_ok_def segs_ok_def spots_ok_def que_ok_def bytes_ok_def
        queued_def msgst0_def que0_def perm0_def ipc_alloc_def IPC_ALLOC_def)
qed

definition msgst1 :: msgst where
  "msgst1 = (case send_round muser mcaller 0 5 3 0 msgst0 of SndDone r st \<Rightarrow> st | SndWait c st \<Rightarrow> st)"

lemma msgst1_eq: "send_round muser mcaller 0 5 3 0 msgst0 = SndDone (Inr 0) msgst1"
proof -
  have "(case send_round muser mcaller 0 5 3 0 msgst0 of SndDone r st \<Rightarrow> r | SndWait c st \<Rightarrow> Inl EPERM) = Inr 0"
    by code_simp
  then show ?thesis unfolding msgst1_def by (cases "send_round muser mcaller 0 5 3 0 msgst0") simp_all
qed

lemma msgst0_que: "0 < length (msgque msgst0)" "ipc_alloc (msg_perm (msgque msgst0 ! 0))"
  by (simp_all add: msgst0_def que0_def perm0_def ipc_alloc_def IPC_ALLOC_def)

lemma msgst1_ok: "msgs_ok msgst1" "view msgst1 0 = [(3, [1, 2, 3, 4, 5])]" "length (msgque msgst1) = 2"
proof -
  show "msgs_ok msgst1"
    using send_round_ok [OF msgst0_ok msgst0_que, where cnt = 5 and usr = muser and ty = 3 and u = mcaller and msgflg = 0] msgst1_eq by (simp add: round_ok_def)
  show "view msgst1 0 = [(3, [1, 2, 3, 4, 5])]" by code_simp
  show "length (msgque msgst1) = 2" by code_simp
qed

text \<open>
  The choice of \<open>msgrcv\<close>: with type 0 the first message; with a positive type the first of that
  type; with a negative type the first of the least type that is at most its absolute value; and
  none exactly when no message qualifies.
\<close>

theorem msg_select_correct:
  assumes "- (2 ^ 31) < ty"
  shows "case select_msg ty ts of
      None \<Rightarrow> list_all (\<lambda>t. \<not> wanted ty t) ts
    | Some k \<Rightarrow> k < length ts \<and> wanted ty (ts ! k) \<and>
        (if ty < 0 then list_all (\<lambda>t. ts ! k \<le> t) ts \<and> list_all (\<lambda>t. ts ! k < t) (take k ts)
         else list_all (\<lambda>t. \<not> wanted ty t) (take k ts))"
proof (cases "ty = 0")
  case True
  then show ?thesis by (cases ts) (simp_all add: select_msg_def wanted_def)
next
  case False
  show ?thesis
  proof (cases "0 < ty")
    case True
    then show ?thesis
      using find_type_pos [OF True, where n = 0 and ts = ts] by (auto simp: select_msg_def split: option.splits)
  next
    case neg: False
    then show ?thesis
      using find_type_neg [where ty = ty and best = None and pre = "[]" and ts = ts] assms False
      by (auto simp: select_msg_def least_first_def split: option.splits)
  qed
qed

theorem msg_select_correct_witness:
  "select_msg (-5) [7, 4, 2, 9, 2] = Some 2 \<and> wanted (-5) ([7, 4, 2, 9, 2] ! 2) \<and>
   list_all (\<lambda>t. ([7, 4, 2, 9, 2] :: int list) ! 2 \<le> t) [7, 4, 2, 9, 2]"
proof -
  have s: "select_msg (-5) [7, 4, 2, 9, 2] = Some 2" by code_simp
  show ?thesis using msg_select_correct [of "-5" "[7, 4, 2, 9, 2]"] unfolding s by simp
qed

text \<open>
  C9: every message system call, with all its sleeps and whatever the others do that keeps the
  invariant, keeps it: each header is free or on one queue, the texts lie in segments of their own
  outside the free ones, the counts of each queue are those of its messages, and a queue that is
  not allocated is empty.
\<close>

theorem msgsys_keeps_ok:
  assumes "msgsys slp usr u uap st = Some (r, st')" and "keeps_msgs slp" and "msgs_ok st"
  shows "msgs_ok st'"
  using msgsys_ok [OF assms] by simp

theorem msgsys_keeps_ok_witness:
  "\<exists>st'. msgsys (\<lambda>c s. (True, s)) muser mcaller (Some (MsgsndArgs 0 5 0)) msgst0 = Some (Inr (RVal 0), st') \<and>
     length (msgfp st') = 2 \<and> msgs_ok st'"
proof -
  let ?r = "msgsys (\<lambda>c s. (True, s)) muser mcaller (Some (MsgsndArgs 0 5 0)) msgst0"
  have "map_option (\<lambda>r. (fst r, length (msgfp (snd r)))) ?r = Some (Inr (RVal 0), 2)" by code_simp
  then obtain st' where r: "?r = Some (Inr (RVal 0), st')" "length (msgfp st') = 2" by auto
  have "keeps_msgs (\<lambda>c s. (True, s))" by (simp add: keeps_msgs_def)
  then show ?thesis using msgsys_keeps_ok [OF r(1) _ msgst0_ok] r by blast
qed

text \<open>
  C25: sending refines appending to a list: when a round of \<open>msgsnd\<close> succeeds, the queue, read as
  the list of its typed texts, is the old one with the new message at its end, the text the
  user's bytes, and every other queue reads as before.
\<close>

theorem msgsnd_appends:
  assumes "msgs_ok st" and "i < length (msgque st)" and "ipc_alloc (msg_perm (msgque st ! i))"
    and "0 < cnt" and "cnt \<le> 65535" and "in_text usr = Some bs" and "nat cnt \<le> length bs"
    and "send_round usr u i cnt ty msgflg st = SndDone (Inr v) st'"
  shows "view st' i = view st i @ [(ty, take (nat cnt) bs)] \<and>
    (\<forall>j<length (msgque st). j \<noteq> i \<longrightarrow> view st' j = view st j)"
  using send_round_ok [OF assms(1-3) _ assms(5), where usr = usr and ty = ty and u = u and msgflg = msgflg] assms(4-8) by (simp add: round_ok_def sent_def)

theorem msgsnd_appends_witness:
  "send_round muser mcaller 0 5 3 0 msgst0 = SndDone (Inr 0) msgst1 \<and>
   view msgst1 0 = view msgst0 0 @ [(3, [1, 2, 3, 4, 5])]"
  using msgsnd_appends [OF msgst0_ok msgst0_que, where cnt = 5 and usr = muser and bs = "[1, 2, 3, 4, 5]" and u = mcaller and ty = 3
    and msgflg = 0 and v = 0 and st' = msgst1] msgst1_eq
  by (simp add: muser_def)

section \<open>Receiving, seen from outside\<close>

text \<open>
  What the queues hold has not changed; and: only the others, while the caller slept, have changed what
  the queues hold.
\<close>

definition same_views :: "msgst \<Rightarrow> msgst \<Rightarrow> bool" where
  "same_views st st' \<longleftrightarrow> length (msgque st') = length (msgque st) \<and> (\<forall>j < length (msgque st). view st' j = view st j)"

inductive others_only :: "msg_sleep \<Rightarrow> msgst \<Rightarrow> msgst \<Rightarrow> bool" for slp where
  awake: "same_views st s \<Longrightarrow> others_only slp st s"
| slept: "others_only slp st s \<Longrightarrow> same_views (snd (slp c s)) s' \<Longrightarrow> others_only slp st s'"

text \<open>
  What \<open>msgrcv\<close> decides when it looks at queue \<open>i\<close>: which message it chooses (the first with type 0; the
  first of a positive type; the first of the least type within the bound of a negative one), what
  becomes of it, and that otherwise there is no message it may take and the caller does not want to wait.
\<close>

definition chosen :: "int \<Rightarrow> int list \<Rightarrow> nat \<Rightarrow> bool" where
  "chosen ty ts k \<longleftrightarrow> k < length ts \<and> wanted ty (ts ! k) \<and>
     (if ty < 0 then list_all (\<lambda>t. ts ! k \<le> t) ts \<and> list_all (\<lambda>t. ts ! k < t) (take k ts)
      else list_all (\<lambda>t. \<not> wanted ty t) (take k ts))"

definition handed_over :: "msg_user \<Rightarrow> int \<Rightarrow> u32 \<Rightarrow> int \<times> u8 list \<Rightarrow> errno + int \<times> int \<times> u8 list" where
  "handed_over usr msgsz msgflg m =
     (let len = int (length (snd m)); sz = min msgsz len
      in if msgsz < len \<and> msgflg AND MSG_NOERROR = 0 then Inl E2BIG
         else if \<not> out_type usr \<or> sz \<noteq> 0 \<and> \<not> out_text usr then Inl EFAULT
         else Inr (sz, fst m, take (nat sz) (snd m)))"

definition rcv_decides :: "msg_user \<Rightarrow> nat \<Rightarrow> int \<Rightarrow> int \<Rightarrow> u32 \<Rightarrow> msgst \<Rightarrow> errno + int \<times> int \<times> u8 list \<Rightarrow> msgst \<Rightarrow> bool" where
  "rcv_decides usr i msgsz ty msgflg st r st' \<longleftrightarrow>
     (if list_ex (wanted ty) (map fst (view st i)) then
        (\<exists>k. chosen ty (map fst (view st i)) k \<and> r = handed_over usr msgsz msgflg (view st i ! k) \<and>
          (case r of
             Inl e \<Rightarrow> same_views st st'
           | Inr m \<Rightarrow> view st' i = take k (view st i) @ drop (k + 1) (view st i) \<and>
               (\<forall>j < length (msgque st). j \<noteq> i \<longrightarrow> view st' j = view st j)))
      else msgflg AND IPC_NOWAIT \<noteq> 0 \<and> r = Inl ENOMSG \<and> same_views st st')"

lemma same_views_refl [simp]: "same_views st st"
  by (simp add: same_views_def)

lemma same_views_trans: "same_views st s \<Longrightarrow> same_views s s' \<Longrightarrow> same_views st s'"
  by (simp add: same_views_def)

lemma view_cong: "msgque st' = msgque st \<Longrightarrow> msgh st' = msgh st \<Longrightarrow> msgmem st' = msgmem st \<Longrightarrow> minfo st' = minfo st \<Longrightarrow> view st' i = view st i"
  by (simp add: view_def msg_text_def text_at_def)

lemma view_lock [simp]: "view (set_lock i b st) j = view st j" "view (unlock i st) j = view st j" "view (st\<lparr>msg_cnt := c\<rparr>) j = view st j"
  by (rule view_cong; simp)+

lemma same_views_lock [simp]:
  "same_views (set_lock i b st) s = same_views st s" "same_views (unlock i st) s = same_views st s"
  "same_views st (set_lock i b s) = same_views st s" "same_views st (unlock i s) = same_views st s"
  "same_views (st\<lparr>msg_cnt := c\<rparr>) s = same_views st s"
  by (simp_all add: same_views_def)

lemma same_views_mode: "same_views st (upd_que i (upd_mode f) st)"
proof (cases "i < length (msgque st)")
  case True
  have "view (upd_que i (upd_mode f) st) j = view st j" if "j < length (msgque st)" for j
    using that True by (simp add: view_def upd_que_def upd_mode_def msg_text_def text_at_def nth_list_update)
  then show ?thesis by (simp add: same_views_def upd_que_def)
qed (simp add: upd_que_def same_views_def view_def msg_text_def text_at_def)

lemma others_more: "others_only slp st s \<Longrightarrow> same_views s s' \<Longrightarrow> others_only slp st s'"
  by (induction rule: others_only.induct) (auto intro: others_only.intros same_views_trans)

lemma others_slept: "others_only slp st s \<Longrightarrow> others_only slp st (snd (slp c s))"
  by (erule others_only.slept [where c = c]) (rule same_views_refl)

lemma lock_wait_others:
  assumes "lock_wait slp i s = Some s'" "others_only slp st s"
  shows "others_only slp st s'"
proof -
  have "others_only slp st s \<longrightarrow> others_only slp st s'"
  proof (rule lock_wait.raw_induct [where P = "\<lambda>slp i s s'. others_only slp st s \<longrightarrow> others_only slp st s'", OF _ assms(1)], intro impI)
    fix f slp i s s'
    assume IH: "\<And>slp i s s'. f slp i s = Some s' \<Longrightarrow> others_only slp st s \<longrightarrow> others_only slp st s'"
      and e: "(if msglock s ! i then f slp i (snd (slp (ChLock i) s)) else Some s) = Some s'" and o: "others_only slp st s"
    show "others_only slp st s'" using IH [of slp i "snd (slp (ChLock i) s)" s'] e o others_slept [OF o, of "ChLock i"] by (auto split: if_splits)
  qed
  then show ?thesis using assms(2) by blast
qed

lemma msgconv_others:
  assumes "msgconv slp id1 s = Some (r, s')" "others_only slp st s"
  shows "others_only slp st s'"
proof (cases "id1 < 0")
  case True
  then show ?thesis using assms by (simp add: msgconv_def)
next
  case False
  then obtain s1 where w: "lock_wait slp (nat (id1 mod msgmni (minfo s))) s = Some s1"
    using assms(1) by (auto simp: msgconv_def Let_def split: option.splits)
  then have "others_only slp st s1" using lock_wait_others assms(2) by blast
  then show ?thesis using assms(1) False w by (auto simp: msgconv_def Let_def intro: others_more split: if_splits)
qed

lemma select_chosen:
  assumes "- (2 ^ 31) < ty"
  shows "case select_msg ty ts of None \<Rightarrow> \<not> list_ex (wanted ty) ts | Some k \<Rightarrow> chosen ty ts k"
  using msg_select_correct [OF assms, of ts] by (auto simp: chosen_def list_ex_iff list_all_iff split: option.splits)

lemma chosen_wanted: "chosen ty ts k \<Longrightarrow> list_ex (wanted ty) ts"
  by (auto simp: chosen_def list_ex_iff)

lemma queue_types_view: "queue_types st i = map fst (view st i)"
  by (simp add: queue_types_def view_def)

lemma deliver_handed:
  assumes ok: "msgs_ok st" and i: "i < length (msgque st)" and k: "k < length (view st i)" and sz0: "0 \<le> msgsz" "msgsz < 2 ^ 32"
  shows "fst (deliver usr u i k msgsz msgflg st) = handed_over usr msgsz msgflg (view st i ! k)"
proof -
  let ?h = "msg_q (msgque st ! i) ! k"
  have kl: "k < length (msg_q (msgque st ! i))" using k by (simp add: view_def)
  then have "?h \<in> set (queued st)" using que_in_queued [OF i] nth_mem by blast
  then have len: "length (msg_text st ?h) = unat (msg_ts (msgh st ! ?h))" by (rule text_in_block(2) [OF ok])
  have v: "view st i ! k = (msg_type (msgh st ! ?h), msg_text st ?h)" using kl by (simp add: view_def)
  have tb: "take_bit 32 msgsz = msgsz" using sz0 by (simp add: take_bit_int_eq_self)
  have tx: "text_at st (msg_spot (msgh st ! ?h)) n = take n (msg_text st ?h)" if "n \<le> unat (msg_ts (msgh st ! ?h))" for n
    using that by (simp add: msg_text_def take_text_at)
  have n: "nat msgsz \<le> unat (msg_ts (msgh st ! ?h))" if "msgsz < int (unat (msg_ts (msgh st ! ?h)))" using that by linarith
  show ?thesis
  proof (cases "msgsz < int (unat (msg_ts (msgh st ! ?h)))")
    case True
    then have "min msgsz (int (unat (msg_ts (msgh st ! ?h)))) = msgsz" by simp
    then show ?thesis using True tx [OF n [OF True]] unfolding deliver_def handed_over_def Let_def v tb fst_conv snd_conv len by auto
  next
    case False
    then have "min msgsz (int (unat (msg_ts (msgh st ! ?h)))) = int (unat (msg_ts (msgh st ! ?h)))" by simp
    then show ?thesis using False tx [OF order_refl] unfolding deliver_def handed_over_def Let_def v tb fst_conv snd_conv len by auto
  qed
qed

lemma rcv_taken:
  assumes ok: "msgs_ok st" and i: "i < length (msgque st)" and sz0: "0 \<le> msgsz" "msgsz < 2 ^ 32" and ty: "- (2 ^ 31) < ty"
    and k: "select_msg ty (queue_types st i) = Some k" and d: "deliver usr u i k msgsz msgflg st = (r, s)"
  shows "rcv_decides usr i msgsz ty msgflg st r (unlock i s)"
proof -
  have c: "chosen ty (map fst (view st i)) k" using select_chosen [OF ty, of "queue_types st i"] k by (simp add: queue_types_view)
  then have kl: "k < length (view st i)" by (simp add: chosen_def)
  have h: "r = handed_over usr msgsz msgflg (view st i ! k)" using deliver_handed [OF ok i kl sz0, of usr u msgflg] d by simp
  have "case r of Inl e \<Rightarrow> same_views st (unlock i s)
     | Inr m \<Rightarrow> view (unlock i s) i = take k (view st i) @ drop (k + 1) (view st i) \<and>
         (\<forall>j < length (msgque st). j \<noteq> i \<longrightarrow> view (unlock i s) j = view st j)"
    using deliver_cases [OF ok i kl sz0 d] by (auto split: sum.splits)
  then show ?thesis unfolding rcv_decides_def using c h chosen_wanted [OF c] by auto
qed

lemma rcv_none:
  assumes "- (2 ^ 31) < ty" "select_msg ty (queue_types st i) = None" "msgflg AND IPC_NOWAIT \<noteq> 0" "same_views st s"
  shows "rcv_decides usr i msgsz ty msgflg st (Inl ENOMSG) s"
  using select_chosen [OF assms(1), of "queue_types st i"] assms by (simp add: rcv_decides_def queue_types_view)

lemma rcv_decides_views:
  assumes "same_views st s" "i < length (msgque st)" "rcv_decides usr i msgsz ty msgflg s r s'"
  shows "rcv_decides usr i msgsz ty msgflg st r s'"
  using assms unfolding rcv_decides_def same_views_def by (auto split: sum.splits if_splits)

text \<open>Or it says no for another reason, and changes nothing.\<close>

definition rcv_outcome :: "msg_user \<Rightarrow> nat \<Rightarrow> int \<Rightarrow> int \<Rightarrow> u32 \<Rightarrow> msgst \<Rightarrow> errno + int \<times> int \<times> u8 list \<Rightarrow> msgst \<Rightarrow> bool" where
  "rcv_outcome usr i msgsz ty msgflg st r st' \<longleftrightarrow>
     rcv_decides usr i msgsz ty msgflg st r st' \<or> r \<in> Inl ` {EINVAL, EACCES, EIDRM, EINTR} \<and> same_views st st'"

lemma msgrcv_loop_outcome:
  assumes "msgrcv_loop slp usr u i id1 msgsz ty msgflg s = Some r" and "keeps_msgs slp" and "msgs_ok s"
    and "others_only slp st s" and "0 \<le> msgsz" "msgsz < 2 ^ 32" and ty: "- (2 ^ 31) < ty"
  shows "\<exists>s'. others_only slp st s' \<and> msgs_ok s' \<and> rcv_outcome usr i msgsz ty msgflg s' (fst r) (snd r)"
proof -
  let ?Q = "\<lambda>slp usr i msgsz ty msgflg r. \<exists>s'. others_only slp st s' \<and> msgs_ok s' \<and> rcv_outcome usr i msgsz ty msgflg s' (fst r) (snd r)"
  let ?P = "\<lambda>slp usr u i id1 msgsz ty msgflg s r. keeps_msgs slp \<longrightarrow> msgs_ok s \<longrightarrow> others_only slp st s \<longrightarrow> 0 \<le> msgsz \<longrightarrow>
      msgsz < 2 ^ 32 \<longrightarrow> - (2 ^ 31) < ty \<longrightarrow> ?Q slp usr i msgsz ty msgflg r"
  have "?P slp usr u i id1 msgsz ty msgflg s r"
  proof (rule msgrcv_loop.raw_induct [where P = ?P, OF _ assms(1)], intro impI)
    fix loop slp usr u i id1 msgsz ty msgflg and s :: msgst and r
    assume IH: "\<And>slp usr u i id1 msgsz ty msgflg s r. loop slp usr u i id1 msgsz ty msgflg s = Some r \<Longrightarrow> ?P slp usr u i id1 msgsz ty msgflg s r"
      and k: "keeps_msgs slp" and ok: "msgs_ok s" and o: "others_only slp st s" and sz: "0 \<le> msgsz" "msgsz < 2 ^ 32" and ty: "- (2 ^ 31) < ty"
      and r: "(case msgconv slp id1 s of
        None \<Rightarrow> None
      | Some (Inl e, st1) \<Rightarrow> Some (Inl EIDRM, st1)
      | Some (Inr j, st1) \<Rightarrow>
          if j \<noteq> i then Some (Inl EIDRM, unlock j st1)
          else
            (case select_msg ty (queue_types st1 i) of
               None \<Rightarrow>
                 if msgflg AND IPC_NOWAIT \<noteq> 0 then Some (Inl ENOMSG, unlock i st1)
                 else
                   (case slp (ChRecv i) (unlock i (upd_que i (upd_mode (\<lambda>m. m OR MSG_RWAIT)) st1)) of
                      (intr, st2) \<Rightarrow>
                        if intr then Some (Inl EINTR, st2)
                        else loop slp usr u i id1 msgsz ty msgflg st2)
             | Some k \<Rightarrow> (case deliver usr u i k msgsz msgflg st1 of (r, st2) \<Rightarrow> Some (r, unlock i st2)))) = Some r"
    obtain c s1 where c: "msgconv slp id1 s = Some (c, s1)" using r by (cases "msgconv slp id1 s") auto
    note m = msgconv_ok [OF c k ok]
    have ok1: "msgs_ok s1" and o1: "others_only slp st s1" using m msgconv_others [OF c o] by simp_all
    have no: "?Q slp usr i msgsz ty msgflg (Inl e, s')" if "e \<in> {EINVAL, EACCES, EIDRM, EINTR}" "others_only slp st s'" "msgs_ok s'" for e s'
      using that by (intro exI [of _ s']) (auto simp: rcv_outcome_def)
    show "?Q slp usr i msgsz ty msgflg r"
    proof (cases "c = Inr i")
      case False
      then have "\<exists>s'. r = (Inl EIDRM, s') \<and> (s' = s1 \<or> (\<exists>j. s' = unlock j s1))" using r c by (auto split: sum.splits if_splits)
      moreover have "others_only slp st (unlock j s1)" for j by (rule others_more [OF o1]) simp
      ultimately show ?thesis using no o1 ok1 by (auto simp del: image_insert)
    next
      case ci: True
      then have i: "i < length (msgque s1)" using m by simp
      show ?thesis
      proof (cases "select_msg ty (queue_types s1 i)")
        case (Some n)
        obtain a s2 where d: "deliver usr u i n msgsz msgflg s1 = (a, s2)" by fastforce
        have "rcv_decides usr i msgsz ty msgflg s1 a (unlock i s2)" by (rule rcv_taken [OF ok1 i sz ty Some d])
        moreover have "r = (a, unlock i s2)" using r c ci Some d by simp
        ultimately show ?thesis using o1 ok1 by (intro exI [of _ s1]) (simp add: rcv_outcome_def)
      next
        case None
        show ?thesis
        proof (cases "msgflg AND IPC_NOWAIT \<noteq> 0")
          case True
          then have "rcv_decides usr i msgsz ty msgflg s1 (Inl ENOMSG) (unlock i s1)" by (intro rcv_none [OF ty None]) simp_all
          moreover have "r = (Inl ENOMSG, unlock i s1)" using r c ci None True by simp
          ultimately show ?thesis using o1 ok1 by (intro exI [of _ s1]) (simp add: rcv_outcome_def)
        next
          case False
          let ?w = "unlock i (upd_que i (upd_mode (\<lambda>m. m OR MSG_RWAIT)) s1)"
          obtain b s2 where s: "slp (ChRecv i) ?w = (b, s2)" by fastforce
          have ok2: "msgs_ok s2" using keeps_msgsD [OF k _ s] mode_recv_ok(1) [OF ok1 i] by simp
          have "others_only slp st ?w" by (rule others_more [OF o1]) (simp add: same_views_mode)
          then have o2: "others_only slp st s2" using others_slept [of slp st ?w "ChRecv i"] s by simp
          have "r = (Inl EINTR, s2) \<or> loop slp usr u i id1 msgsz ty msgflg s2 = Some r" using r c ci None False s by (auto split: if_splits)
          then show ?thesis using no [of EINTR s2] IH [of slp usr u i id1 msgsz ty msgflg s2 r] k ok2 o2 sz ty by blast
        qed
      qed
    qed
  qed
  then show ?thesis using assms(2-7) by blast
qed

lemma msgrcv_outcome:
  assumes r: "msgrcv slp usr u id1 msgsz ty msgflg st = Some (r, st')" and k: "keeps_msgs slp" and ok: "msgs_ok st"
    and sz: "msgsz < 2 ^ 32" and ty: "- (2 ^ 31) < ty"
  shows "\<exists>s. others_only slp st s \<and> msgs_ok s \<and> rcv_outcome usr (nat (id1 mod msgmni (minfo st))) msgsz ty msgflg s r st'"
proof -
  let ?i = "nat (id1 mod msgmni (minfo st))"
  obtain c s1 where c: "msgconv slp id1 (st\<lparr>msg_cnt := msg_cnt st + 1\<rparr>) = Some (c, s1)"
    using r by (cases "msgconv slp id1 (st\<lparr>msg_cnt := msg_cnt st + 1\<rparr>)") (auto simp: msgrcv_def)
  have "msgs_ok (st\<lparr>msg_cnt := msg_cnt st + 1\<rparr>)" using ok by simp
  note m = msgconv_ok [OF c k this]
  have "others_only slp st (st\<lparr>msg_cnt := msg_cnt st + 1\<rparr>)" by (rule others_only.awake) (simp add: same_views_def)
  then have o1: "others_only slp st s1" by (rule msgconv_others [OF c])
  have ok1: "msgs_ok s1" using m by simp
  have no: ?thesis if "r = Inl e" "e \<in> {EINVAL, EACCES, EIDRM, EINTR}" "st' = s1 \<or> (\<exists>j. st' = unlock j s1)" for e
    using that o1 ok1 by (intro exI [of _ s1]) (auto simp: rcv_outcome_def)
  show ?thesis
  proof (cases c)
    case (Inl e)
    then have "e = EINVAL" using c by (auto simp: msgconv_def Let_def split: if_splits option.splits)
    then show ?thesis using r c Inl by (intro no [of EINVAL]) (auto simp: msgrcv_def)
  next
    case (Inr j)
    then have j: "j = ?i" using c by (auto simp: msgconv_def Let_def split: if_splits option.splits)
    show ?thesis
    proof (cases "ipcaccess (msg_perm (msgque s1 ! j)) MSG_R (u_cred u)")
      case (Some e)
      then have "e = EACCES" by (auto simp: ipcaccess_def Let_def split: if_splits)
      then show ?thesis using r c Inr Some by (intro no [of EACCES]) (auto simp: msgrcv_def)
    next
      case None
      show ?thesis
      proof (cases "msgsz < 0")
        case True
        then show ?thesis using r c Inr None by (intro no [of EINVAL]) (auto simp: msgrcv_def)
      next
        case False
        then have l: "msgrcv_loop slp usr u j id1 msgsz ty msgflg (unlock j s1) = Some (r, st')"
          using r c Inr None by (simp add: msgrcv_def)
        have "others_only slp st (unlock j s1)" by (rule others_more [OF o1]) simp
        from msgrcv_loop_outcome [OF l k _ this _ sz ty] ok1 False show ?thesis by (simp add: j)
      qed
    qed
  qed
qed

text \<open>A call that need not sleep: the identifier is that of queue \<open>i\<close>, which nobody has locked.\<close>

definition rcv_ready :: "caller \<Rightarrow> int \<Rightarrow> nat \<Rightarrow> msgst \<Rightarrow> bool" where
  "rcv_ready u id1 i st \<longleftrightarrow> 0 \<le> id1 \<and> nat (id1 mod msgmni (minfo st)) = i \<and> i < length (msgque st) \<and> i < length (msglock st) \<and>
     \<not> msglock st ! i \<and> mode (msg_perm (msgque st ! i)) AND IPC_ALLOC \<noteq> 0 \<and>
     id1 div msgmni (minfo st) = int (unat (seq (msg_perm (msgque st ! i)))) \<and>
     ipcaccess (msg_perm (msgque st ! i)) MSG_R (u_cred u) = None"

lemma msgconv_ready: "rcv_ready u id1 i st \<Longrightarrow> msgconv slp id1 st = Some (Inr i, set_lock i True st)"
proof -
  assume rd: "rcv_ready u id1 i st"
  then have "lock_wait slp i st = Some st" by (subst lock_wait.simps) (simp add: rcv_ready_def)
  then show ?thesis using rd by (simp add: rcv_ready_def msgconv_def Let_def)
qed

lemma msgrcv_direct:
  assumes rd: "rcv_ready u id1 i st" and ok: "msgs_ok st" and sz: "0 \<le> msgsz" "msgsz < 2 ^ 32" and ty: "- (2 ^ 31) < ty"
    and w: "msgflg AND IPC_NOWAIT \<noteq> 0 \<or> list_ex (wanted ty) (map fst (view st i))"
  shows "\<exists>r st'. msgrcv slp usr u id1 msgsz ty msgflg st = Some (r, st') \<and> rcv_decides usr i msgsz ty msgflg st r st'"
proof -
  let ?s0 = "st\<lparr>msg_cnt := msg_cnt st + 1\<rparr>"
  let ?s1 = "unlock i (set_lock i True ?s0)"
  let ?s2 = "set_lock i True ?s1"
  have rd0: "rcv_ready u id1 i ?s0" and rd1: "rcv_ready u id1 i ?s1"
    using rd by (simp_all add: rcv_ready_def unlock_def)
  have run: "msgrcv slp usr u id1 msgsz ty msgflg st = msgrcv_loop slp usr u i id1 msgsz ty msgflg ?s1"
    using msgconv_ready [OF rd0, of slp] rd sz(1) by (simp add: msgrcv_def rcv_ready_def)
  have ok2: "msgs_ok ?s2" and i: "i < length (msgque ?s2)" and sv: "same_views st ?s2"
    using ok rd by (simp_all add: rcv_ready_def) (simp add: same_views_def)
  have il: "i < length (msgque st)" using rd by (simp add: rcv_ready_def)
  have vt: "queue_types ?s2 i = map fst (view st i)" by (simp add: queue_types_view)
  have "\<exists>r st'. msgrcv_loop slp usr u i id1 msgsz ty msgflg ?s1 = Some (r, st') \<and> rcv_decides usr i msgsz ty msgflg ?s2 r st'"
  proof (cases "select_msg ty (queue_types ?s2 i)")
    case (Some k)
    obtain a s where d: "deliver usr u i k msgsz msgflg ?s2 = (a, s)" by fastforce
    have "rcv_decides usr i msgsz ty msgflg ?s2 a (unlock i s)" by (rule rcv_taken [OF ok2 i sz ty Some d])
    then show ?thesis using msgconv_ready [OF rd1, of slp] Some d by (subst msgrcv_loop.simps) simp
  next
    case None
    then have n: "msgflg AND IPC_NOWAIT \<noteq> 0" using select_chosen [OF ty, of "queue_types ?s2 i"] w unfolding vt by simp
    have "rcv_decides usr i msgsz ty msgflg ?s2 (Inl ENOMSG) (unlock i ?s2)" by (rule rcv_none [OF ty None n]) simp
    then show ?thesis using msgconv_ready [OF rd1, of slp] None n by (subst msgrcv_loop.simps) simp
  qed
  then show ?thesis using run rcv_decides_views [OF sv il] by auto
qed

section \<open>The other properties\<close>

text \<open>
  C26: receiving refines taking an element out of a list.  Whatever the others do while \<open>msgrcv\<close> sleeps, as
  long as they keep the invariant: it looks at the queue in some state \<open>s\<close> that only they have made; there it
  takes the message its type argument asks for (\<open>chosen\<close>), hands over its type and its text, cut to the size
  asked for, and leaves the queue without that message and every other queue as it reads; when it says no,
  it leaves all queues as they read, and \<open>ENOMSG\<close> only when no message qualifies and the caller would not
  wait (\<open>rcv_decides\<close>).  A call with a good identifier, size and permission that finds the queue unlocked, and a
  message or \<open>IPC_NOWAIT\<close>, does not sleep: it returns, and what it decides it decides in the first state.
\<close>

theorem msgrcv_takes:
  assumes "msgs_ok st" and "keeps_msgs slp" and "msgsz < 2 ^ 32" and "- (2 ^ 31) < ty"
  shows "(msgrcv slp usr u id1 msgsz ty msgflg st = Some (r, st') \<longrightarrow>
      (\<exists>s. others_only slp st s \<and> msgs_ok s \<and> rcv_outcome usr (nat (id1 mod msgmni (minfo st))) msgsz ty msgflg s r st')) \<and>
    (rcv_ready u id1 i st \<longrightarrow> 0 \<le> msgsz \<longrightarrow> msgflg AND IPC_NOWAIT \<noteq> 0 \<or> list_ex (wanted ty) (map fst (view st i)) \<longrightarrow>
      (\<exists>r st'. msgrcv slp usr u id1 msgsz ty msgflg st = Some (r, st') \<and> rcv_decides usr i msgsz ty msgflg st r st'))"
  using msgrcv_outcome [OF _ assms(2,1,3,4)] msgrcv_direct [OF _ assms(1) _ assms(3,4)] by blast

theorem msgrcv_takes_witness:
  "\<exists>st'. msgrcv (\<lambda>c s. (True, s)) muser mcaller 0 3 (-4) MSG_NOERROR msgst1 = Some (Inr (3, 3, [1, 2, 3]), st') \<and> view st' 0 = []"
proof -
  have w: "list_ex (wanted (-4)) (map fst (view msgst1 0))" unfolding msgst1_ok(2) by (simp add: wanted_def)
  have n: "(0 :: int) \<le> 3" "(3 :: int) < 2 ^ 32" "- (2 ^ 31) < (-4 :: int)" by simp_all
  have "rcv_ready mcaller 0 0 msgst1" unfolding rcv_ready_def by code_simp
  moreover have "keeps_msgs (\<lambda>c s. (True, s))" by (simp add: keeps_msgs_def)
  ultimately obtain r st' where r: "msgrcv (\<lambda>c s. (True, s)) muser mcaller 0 3 (-4) MSG_NOERROR msgst1 = Some (r, st')"
    "rcv_decides muser 0 3 (-4) MSG_NOERROR msgst1 r st'"
    using msgrcv_takes [OF msgst1_ok(1) _ n(2,3)] n(1) w by blast
  have "\<exists>k. chosen (-4) [3] k \<and> r = handed_over muser 3 MSG_NOERROR ([(3, [1, 2, 3, 4, 5])] ! k) \<and>
      (case r of Inl e \<Rightarrow> same_views msgst1 st' | Inr m \<Rightarrow> view st' 0 = take k [(3, [1, 2, 3, 4, 5])] @ drop (k + 1) [(3, [1, 2, 3, 4, 5])])"
    using r(2) w unfolding rcv_decides_def msgst1_ok(2) by (auto split: sum.splits)
  moreover have "handed_over muser 3 MSG_NOERROR (3, [1, 2, 3, 4, 5]) = Inr (3, 3, [1, 2, 3])" by code_simp
  ultimately show ?thesis using r(1) by (auto simp: chosen_def)
qed

text \<open>
  Removing a queue frees everything: its headers go back to the free list, it reads as empty,
  its identifier is not accepted any more, the others read as before, and whoever waits to
  receive from it or to send to it is woken.
\<close>

theorem msgctl_rmid_correct:
  assumes "msgs_ok st" and "i < length (msgque st)" and "st' = msgctl_rmid id1 i st"
  shows "msgs_ok st' \<and> view st' i = [] \<and> set (msgfp st') = set (msgfp st) \<union> set (msg_q (msgque st ! i)) \<and>
    \<not> ipc_alloc (msg_perm (msgque st' ! i)) \<and>
    (\<forall>j<length (msgque st). j \<noteq> i \<longrightarrow> view st' j = view st j) \<and>
    (mode (msg_perm (msgque st ! i)) AND MSG_RWAIT \<noteq> 0 \<longrightarrow> ChRecv i \<in> set (msg_wakes st')) \<and>
    (mode (msg_perm (msgque st ! i)) AND MSG_WWAIT \<noteq> 0 \<longrightarrow> ChSend i \<in> set (msg_wakes st'))"
  using msgctl_rmid_spec [OF assms] by blast

theorem msgctl_rmid_correct_witness:
  "msgs_ok (msgctl_rmid 0 0 msgst1) \<and> view (msgctl_rmid 0 0 msgst1) 0 = [] \<and>
   0 \<in> set (msgfp (msgctl_rmid 0 0 msgst1))"
proof -
  have "0 \<in> set (msgfp (msgctl_rmid 0 0 msgst1))" by code_simp
  then show ?thesis using msgctl_rmid_correct [OF msgst1_ok(1) _ refl, of 0 0] msgst1_ok(3) by simp
qed

end
