(* ===== verification/Strq.thy ===== *)
theory Strq imports Prelude begin

text \<open>
  The message queues of STREAMS, the second half of \<open>io/stream.c\<close>, with \<open>allocband\<close> and
  \<open>setqback\<close> of \<open>os/strsubr.c\<close>.  A queue is its index in \<open>sqs\<close>, a message its index in
  \<open>smsgs\<close>.  The chain from \<open>q_first\<close> to \<open>q_last\<close> is the list \<open>q_msgs\<close>, the chain from \<open>qhead\<close> to
  \<open>qtail\<close> the list \<open>qrun\<close>, the chain at \<open>q_bandp\<close> the list of its \<open>qband\<close> structures, the one of
  band \<open>i\<close> at position \<open>i - 1\<close>; the pointers \<open>qb_first\<close> and \<open>qb_last\<close> are kept as the code keeps
  them.  A read queue and its write queue lie side by side.  Of a message only what the queues
  look at is there: its band, flags and type and the lengths \<open>b_wptr - b_rptr\<close> of its blocks.
  \<open>sfreed\<close> logs the calls of \<open>freemsg\<close>; \<open>kmem\<close> holds the outcomes of the coming calls of
  \<open>kmem_zalloc\<close>, which fails when the list is at its end.
\<close>

section \<open>State\<close>

record mblk =
  b_band :: u8
  b_flag :: u16
  db_type :: u8
  b_sizes :: "u32 list"

record qband =
  qb_count :: u32
  qb_first :: "nat option"
  qb_last :: "nat option"
  qb_hiwat :: u32
  qb_lowat :: u32
  qb_flag :: u32

record queue =
  qi_srvp :: bool
  q_msgs :: "nat list"
  q_next :: "nat option"
  q_count :: u32
  q_flag :: u32
  q_minpsz :: int
  q_maxpsz :: int
  q_hiwat :: u32
  q_lowat :: u32
  q_bandp :: "qband list"
  q_nband :: u8

record strst =
  sqs :: "queue list"
  smsgs :: "mblk list"
  qrun :: "nat list"
  qrunflag :: bool
  sfreed :: "nat list"
  kmem :: "bool list"
  qband_cnt :: int
  strcount :: int

definition QENAB :: u32 where "QENAB = 0x001"
definition QWANTR :: u32 where "QWANTR = 0x002"
definition QWANTW :: u32 where "QWANTW = 0x004"
definition QFULL :: u32 where "QFULL = 0x008"
definition QREADR :: u32 where "QREADR = 0x010"
definition QNOENB :: u32 where "QNOENB = 0x040"
definition QBACK :: u32 where "QBACK = 0x100"
definition QB_FULL :: u32 where "QB_FULL = 0x01"
definition QB_WANTW :: u32 where "QB_WANTW = 0x02"
definition QB_BACK :: u32 where "QB_BACK = 0x04"
definition MSGNOGET :: u16 where "MSGNOGET = 0x08"
definition M_DATA :: u8 where "M_DATA = 0x00"
definition M_PROTO :: u8 where "M_PROTO = 0x01"
definition M_DELAY :: u8 where "M_DELAY = 0x0c"
definition M_PCPROTO :: u8 where "M_PCPROTO = 0x83"
definition QNORM :: u8 where "QNORM = 0x00"
definition QPCTL :: u8 where "QPCTL = 0x80"

definition queclass :: "mblk \<Rightarrow> u8" where
  "queclass m = (if db_type m \<ge> QPCTL then QPCTL else QNORM)"

definition datamsg :: "u8 \<Rightarrow> bool" where
  "datamsg ty \<longleftrightarrow> ty = M_DATA \<or> ty = M_PROTO \<or> ty = M_PCPROTO \<or> ty = M_DELAY"

definition canenable :: "queue \<Rightarrow> bool" where
  "canenable q \<longleftrightarrow> q_flag q AND QNOENB = 0"

definition upd_q :: "nat \<Rightarrow> (queue \<Rightarrow> queue) \<Rightarrow> strst \<Rightarrow> strst" where
  "upd_q i f st = st\<lparr>sqs := (sqs st)[i := f (sqs st ! i)]\<rparr>"

definition upd_band :: "u8 \<Rightarrow> (qband \<Rightarrow> qband) \<Rightarrow> queue \<Rightarrow> queue" where
  "upd_band pri f q = q\<lparr>q_bandp := (q_bandp q)[unat pri - 1 := f (q_bandp q ! (unat pri - 1))]\<rparr>"

definition set_qflag :: "u32 \<Rightarrow> queue \<Rightarrow> queue" where
  "set_qflag b q = q\<lparr>q_flag := q_flag q OR b\<rparr>"

definition clear_qflag :: "u32 \<Rightarrow> queue \<Rightarrow> queue" where
  "clear_qflag b q = q\<lparr>q_flag := q_flag q AND NOT b\<rparr>"

definition set_bflag :: "u32 \<Rightarrow> qband \<Rightarrow> qband" where
  "set_bflag b qb = qb\<lparr>qb_flag := qb_flag qb OR b\<rparr>"

definition clear_bflag :: "u32 \<Rightarrow> qband \<Rightarrow> qband" where
  "clear_bflag b qb = qb\<lparr>qb_flag := qb_flag qb AND NOT b\<rparr>"

definition log_freemsg :: "nat \<Rightarrow> strst \<Rightarrow> strst" where
  "log_freemsg m st = st\<lparr>sfreed := sfreed st @ [m]\<rparr>"

section \<open>Related queues and scheduling\<close>

definition otherq :: "strst \<Rightarrow> nat \<Rightarrow> nat" where
  "otherq st q = (if q_flag (sqs st ! q) AND QREADR \<noteq> 0 then q + 1 else q - 1)"

definition backq :: "strst \<Rightarrow> nat \<Rightarrow> nat option" where
  "backq st q = (case q_next (sqs st ! otherq st q) of None \<Rightarrow> None | Some n \<Rightarrow> Some (otherq st n))"

definition qenable :: "nat \<Rightarrow> strst \<Rightarrow> strst" where
  "qenable i st =
     (if \<not> qi_srvp (sqs st ! i) then st
      else if q_flag (sqs st ! i) AND QENAB \<noteq> 0 then st
      else (upd_q i (set_qflag QENAB) st)\<lparr>qrun := qrun st @ [i], qrunflag := True\<rparr>)"

text \<open>The nearest back queue with a service procedure; the walk need not end in a circular stream.\<close>

partial_function (option) back_srv :: "strst \<Rightarrow> nat \<Rightarrow> nat option option" where
  [code]: "back_srv st q =
     (case backq st q of
        None \<Rightarrow> Some None
      | Some p \<Rightarrow> if qi_srvp (sqs st ! p) then Some (Some p) else back_srv st p)"

text \<open>
  The bands of a queue: \<open>allocband\<close> gets a cleared \<open>struct qbinfo\<close>, 40 bytes on the i386, and
  \<open>band_loop\<close> adds bands until the queue has one for \<open>pri\<close>; when it cannot, those it got stay.
\<close>

definition allocband :: "strst \<Rightarrow> bool \<times> strst" where
  "allocband st =
     (case kmem st of
        True # ks \<Rightarrow> (True, st\<lparr>kmem := ks, qband_cnt := qband_cnt st + 1, strcount := strcount st + 40\<rparr>)
      | ks \<Rightarrow> (False, st\<lparr>kmem := tl ks\<rparr>))"

definition new_band :: "queue \<Rightarrow> qband" where
  "new_band q = \<lparr>qb_count = 0, qb_first = None, qb_last = None, qb_hiwat = q_hiwat q, qb_lowat = q_lowat q, qb_flag = 0\<rparr>"

definition add_band :: "queue \<Rightarrow> queue" where
  "add_band q = q\<lparr>q_bandp := q_bandp q @ [new_band q], q_nband := q_nband q + 1\<rparr>"

lemma add_band_less:
  assumes "q_nband q < pri"
  shows "unat pri - unat (q_nband (add_band q)) < unat pri - unat (q_nband q)"
proof -
  have "unat (q_nband q) < unat pri" using assms by (simp add: word_less_nat_alt)
  moreover from this have "unat (q_nband q + 1) = unat (q_nband q) + 1"
    using unat_u8_less [of pri] by (subst unat_add_nowrap) (simp_all del: unat_u8_less)
  ultimately show ?thesis by (simp add: add_band_def)
qed

function band_loop :: "u8 \<Rightarrow> queue \<Rightarrow> strst \<Rightarrow> bool \<times> queue \<times> strst" where
  "band_loop pri q st =
     (if pri > q_nband q then
        (case allocband st of
           (ok, st1) \<Rightarrow> if ok then band_loop pri (add_band q) st1 else (False, q, st1))
      else (True, q, st))"
  by pat_completeness auto
termination
  by (relation "measure (\<lambda>(pri, q, st). unat pri - unat (q_nband q))") (simp_all add: add_band_less)

definition need_band :: "nat \<Rightarrow> u8 \<Rightarrow> strst \<Rightarrow> bool \<times> strst" where
  "need_band i pri st =
     (case band_loop pri (sqs st ! i) st of (ok, q, st1) \<Rightarrow> (ok, upd_q i (\<lambda>_. q) st1))"

definition setqback :: "nat \<Rightarrow> u8 \<Rightarrow> strst \<Rightarrow> strst" where
  "setqback i pri st =
     (if pri \<noteq> 0 then
        (case need_band i pri st of
           (ok, st1) \<Rightarrow> if ok then upd_q i (upd_band pri (set_bflag QB_BACK)) st1 else st1)
      else upd_q i (set_qflag QBACK) st)"

text \<open>
  What \<open>getq\<close>, \<open>rmvq\<close> and \<open>flushband\<close> do when band \<open>pri\<close> of queue \<open>i\<close> may be written again and
  somebody wants to: the wish is cleared and the nearest service procedure behind it enabled.
\<close>

definition clear_want :: "nat \<Rightarrow> u8 \<Rightarrow> strst \<Rightarrow> strst" where
  "clear_want i pri st =
     upd_q i (if pri \<noteq> 0 then upd_band pri (clear_bflag QB_WANTW) else clear_qflag QWANTW) st"

definition back_enable :: "nat \<Rightarrow> u8 \<Rightarrow> strst \<Rightarrow> strst option" where
  "back_enable i pri st =
     (let st1 = clear_want i pri st
      in case back_srv st1 i of
           None \<Rightarrow> None
         | Some None \<Rightarrow> Some st1
         | Some (Some p) \<Rightarrow> Some (setqback p pri (qenable p st1)))"

section \<open>Putting messages on a queue\<close>

definition mb :: "strst \<Rightarrow> nat \<Rightarrow> mblk" where
  "mb st m = smsgs st ! m"

text \<open>Adding up the lengths of the blocks of a message, one after the other, and taking them off.\<close>

fun cont_add :: "u32 \<Rightarrow> u32 list \<Rightarrow> u32" where
  "cont_add c [] = c"
| "cont_add c (n # ns) = cont_add (c + n) ns"

fun cont_sub :: "u32 \<Rightarrow> u32 list \<Rightarrow> u32" where
  "cont_sub c [] = c"
| "cont_sub c (n # ns) = cont_sub (c - n) ns"

text \<open>
  Walking along a chain: \<open>walk P xs k\<close> is the position of the first message from the \<open>k\<close>-th on
  for which \<open>P\<close> fails, \<open>pos_of x xs\<close> the position of \<open>x\<close>; \<open>insert_at k x xs\<close> links \<open>x\<close> in before
  the \<open>k\<close>-th message, or at the end.
\<close>

definition walk :: "(nat \<Rightarrow> bool) \<Rightarrow> nat list \<Rightarrow> nat \<Rightarrow> nat" where
  "walk P xs k = k + length (takeWhile P (drop k xs))"

definition pos_of :: "nat \<Rightarrow> nat list \<Rightarrow> nat" where
  "pos_of x xs = length (takeWhile (\<lambda>y. y \<noteq> x) xs)"

definition insert_at :: "nat \<Rightarrow> nat \<Rightarrow> nat list \<Rightarrow> nat list" where
  "insert_at k x xs = take k xs @ x # drop k xs"

text \<open>A high priority message is in band 0.\<close>

definition force_band :: "nat \<Rightarrow> strst \<Rightarrow> strst" where
  "force_band bp st =
     (if queclass (mb st bp) = QPCTL \<and> b_band (mb st bp) \<noteq> 0
      then st\<lparr>smsgs := (smsgs st)[bp := (mb st bp)\<lparr>b_band := 0\<rparr>]\<rparr> else st)"

definition band_for :: "nat \<Rightarrow> nat \<Rightarrow> strst \<Rightarrow> bool \<times> strst" where
  "band_for i bp st =
     (let st1 = force_band bp st
      in if b_band (mb st1 bp) \<noteq> 0 then need_band i (b_band (mb st1 bp)) st1 else (True, st1))"

text \<open>Where \<open>putq\<close> links the message in, and what becomes of the pointers of its band.\<close>

definition putq_pos :: "strst \<Rightarrow> queue \<Rightarrow> nat \<Rightarrow> nat" where
  "putq_pos st q bp =
     (let xs = q_msgs q; mcls = queclass (mb st bp); band = b_band (mb st bp); tmp = mb st (last xs)
      in if xs = [] then 0
         else if band = 0 then
           (if mcls \<le> queclass tmp then length xs else walk (\<lambda>m. queclass (mb st m) \<ge> mcls) xs 0)
         else
           (case qb_first (q_bandp q ! (unat band - 1)) of
              Some f \<Rightarrow> pos_of (the (qb_last (q_bandp q ! (unat band - 1)))) xs + 1
            | None \<Rightarrow>
                if mcls < queclass tmp \<or> band \<le> b_band tmp then length xs
                else walk (\<lambda>m. b_band (mb st m) \<ge> band) xs (walk (\<lambda>m. db_type (mb st m) \<ge> QPCTL) xs 0)))"

definition putq_ptrs :: "nat \<Rightarrow> nat list \<Rightarrow> qband \<Rightarrow> qband" where
  "putq_ptrs bp xs qb =
     (if xs = [] \<or> qb_first qb = None then qb\<lparr>qb_first := Some bp, qb_last := Some bp\<rparr>
      else qb\<lparr>qb_last := Some bp\<rparr>)"

text \<open>The same for \<open>putbq\<close>.\<close>

definition putbq_pos :: "strst \<Rightarrow> queue \<Rightarrow> nat \<Rightarrow> nat" where
  "putbq_pos st q bp =
     (let xs = q_msgs q; mcls = queclass (mb st bp); band = b_band (mb st bp); tmp = mb st (last xs);
          before = (if mcls < queclass tmp \<or> band < b_band tmp then length xs
             else walk (\<lambda>m. b_band (mb st m) > band) xs (walk (\<lambda>m. db_type (mb st m) \<ge> QPCTL) xs 0))
      in if xs = [] \<or> mcls = QPCTL then 0
         else if band \<noteq> 0 then
           (case qb_first (q_bandp q ! (unat band - 1)) of Some f \<Rightarrow> pos_of f xs | None \<Rightarrow> before)
         else before)"

definition putbq_ptrs :: "nat \<Rightarrow> nat list \<Rightarrow> qband \<Rightarrow> qband" where
  "putbq_ptrs bp xs qb =
     (if xs = [] \<or> qb_first qb = None then qb\<lparr>qb_first := Some bp, qb_last := Some bp\<rparr>
      else qb\<lparr>qb_first := Some bp\<rparr>)"

text \<open>The message is charged to its band or, in band 0, to the queue.\<close>

definition charge_band :: "mblk \<Rightarrow> qband \<Rightarrow> qband" where
  "charge_band m qb =
     (let qb1 = qb\<lparr>qb_count := cont_add (qb_count qb) (b_sizes m)\<rparr>
      in if qb_count qb1 \<ge> qb_hiwat qb1 then set_bflag QB_FULL qb1 else qb1)"

definition charge_queue :: "mblk \<Rightarrow> queue \<Rightarrow> queue" where
  "charge_queue m q =
     (let q1 = q\<lparr>q_count := cont_add (q_count q) (b_sizes m)\<rparr>
      in if q_count q1 \<ge> q_hiwat q1 then set_qflag QFULL q1 else q1)"

definition charge :: "mblk \<Rightarrow> queue \<Rightarrow> queue" where
  "charge m q = (if b_band m \<noteq> 0 then upd_band (b_band m) (charge_band m) q else charge_queue m q)"

text \<open>Linking \<open>bp\<close> in before the \<open>k\<close>-th message, with the new pointers of its band and its charge.\<close>

definition link_in :: "nat \<Rightarrow> (nat list \<Rightarrow> qband \<Rightarrow> qband) \<Rightarrow> nat \<Rightarrow> mblk \<Rightarrow> queue \<Rightarrow> queue" where
  "link_in k ptrs bp m q =
     (let q1 = q\<lparr>q_msgs := insert_at k bp (q_msgs q)\<rparr>;
          q2 = (if b_band m \<noteq> 0 then upd_band (b_band m) (ptrs (q_msgs q)) q1 else q1)
      in charge m q2)"

definition put_enable :: "nat \<Rightarrow> u8 \<Rightarrow> strst \<Rightarrow> strst" where
  "put_enable i mcls st =
     (if mcls > QNORM \<or> canenable (sqs st ! i) \<and> q_flag (sqs st ! i) AND QWANTR \<noteq> 0 then qenable i st else st)"

definition putq :: "nat \<Rightarrow> nat \<Rightarrow> strst \<Rightarrow> bool \<times> strst" where
  "putq i bp st =
     (case band_for i bp st of
        (ok, st1) \<Rightarrow>
          if \<not> ok then (False, st1)
          else
            (let k = putq_pos st1 (sqs st1 ! i) bp;
                 st2 = upd_q i (link_in k (putq_ptrs bp) bp (mb st1 bp)) st1
             in (True, put_enable i (queclass (mb st1 bp)) st2)))"

definition putbq :: "nat \<Rightarrow> nat \<Rightarrow> strst \<Rightarrow> bool \<times> strst" where
  "putbq i bp st =
     (case band_for i bp st of
        (ok, st1) \<Rightarrow>
          if \<not> ok then (False, st1)
          else
            (let k = putbq_pos st1 (sqs st1 ! i) bp;
                 st2 = upd_q i (link_in k (putbq_ptrs bp) bp (mb st1 bp)) st1
             in (True, put_enable i (queclass (mb st1 bp)) st2)))"

text \<open>
  \<open>insq\<close>: \<open>mp\<close> goes before \<open>emp\<close>, or at the end; its class is ignored but for the check of the
  order, and the order of the bands is what is checked.
\<close>

definition insq_bad :: "strst \<Rightarrow> queue \<Rightarrow> nat option \<Rightarrow> nat \<Rightarrow> bool" where
  "insq_bad st q emp mp =
     (let xs = q_msgs q; m = mb st mp; mcls = queclass m
      in case emp of
           Some e \<Rightarrow>
             let k = pos_of e xs; prev_norm = (0 < k \<and> db_type (mb st (xs ! (k - 1))) < QPCTL)
             in mcls = QPCTL \<and> prev_norm \<or> mcls = QNORM \<and> b_band m < b_band (mb st e) \<or>
                prev_norm \<and> b_band (mb st (xs ! (k - 1))) < b_band m
         | None \<Rightarrow> xs \<noteq> [] \<and> mcls = QNORM \<and> b_band m > b_band (mb st (last xs)))"

definition insq_ptrs :: "strst \<Rightarrow> nat option \<Rightarrow> nat \<Rightarrow> nat list \<Rightarrow> qband \<Rightarrow> qband" where
  "insq_ptrs st emp mp xs qb =
     (if qb_first qb = None then qb\<lparr>qb_first := Some mp, qb_last := Some mp\<rparr>
      else if qb_first qb = emp then qb\<lparr>qb_first := Some mp\<rparr>
      else if (case emp of None \<Rightarrow> False | Some e \<Rightarrow> b_band (mb st e) \<noteq> b_band (mb st mp)) then qb\<lparr>qb_last := Some mp\<rparr>
      else qb)"

definition insq :: "nat \<Rightarrow> nat option \<Rightarrow> nat \<Rightarrow> strst \<Rightarrow> bool \<times> strst" where
  "insq i emp mp st =
     (let st0 = force_band mp st
      in if insq_bad st0 (sqs st0 ! i) emp mp then (False, st0)
         else
           (case band_for i mp st0 of
              (ok, st1) \<Rightarrow>
                if \<not> ok then (False, st1)
                else
                  (let xs = q_msgs (sqs st1 ! i);
                       k = (case emp of Some e \<Rightarrow> pos_of e xs | None \<Rightarrow> length xs);
                       st2 = upd_q i (link_in k (insq_ptrs st1 emp mp) mp (mb st1 mp)) st1
                   in (True,
                       if canenable (sqs st2 ! i) \<and> q_flag (sqs st2 ! i) AND QWANTR \<noteq> 0 then qenable i st2 else st2))))"

section \<open>Taking messages off a queue\<close>

text \<open>The charge is given back, and the mark of the full queue with it; then whether it has drained.\<close>

definition credit_band :: "mblk \<Rightarrow> qband \<Rightarrow> qband" where
  "credit_band m qb =
     (let qb1 = qb\<lparr>qb_count := cont_sub (qb_count qb) (b_sizes m)\<rparr>
      in if qb_count qb1 < qb_hiwat qb1 then clear_bflag QB_FULL qb1 else qb1)"

definition credit_queue :: "mblk \<Rightarrow> queue \<Rightarrow> queue" where
  "credit_queue m q =
     (let q1 = q\<lparr>q_count := cont_sub (q_count q) (b_sizes m)\<rparr>
      in if q_count q1 < q_hiwat q1 then clear_qflag QFULL q1 else q1)"

definition credit :: "mblk \<Rightarrow> queue \<Rightarrow> queue" where
  "credit m q = (if b_band m \<noteq> 0 then upd_band (b_band m) (credit_band m) q else credit_queue m q)"

definition drained :: "u8 \<Rightarrow> queue \<Rightarrow> bool" where
  "drained pri q \<longleftrightarrow>
     (if pri \<noteq> 0 then qb_count (q_bandp q ! (unat pri - 1)) \<le> qb_lowat (q_bandp q ! (unat pri - 1))
      else q_count q \<le> q_lowat q)"

definition wanted_by :: "u8 \<Rightarrow> queue \<Rightarrow> bool" where
  "wanted_by pri q \<longleftrightarrow>
     (if pri \<noteq> 0 then qb_flag (q_bandp q ! (unat pri - 1)) AND QB_WANTW \<noteq> 0 else q_flag q AND QWANTW \<noteq> 0)"

definition drain_enable :: "nat \<Rightarrow> u8 \<Rightarrow> strst \<Rightarrow> strst option" where
  "drain_enable i pri st =
     (if drained pri (sqs st ! i) \<and> wanted_by pri (sqs st ! i) then back_enable i pri st else Some st)"

text \<open>The band pointers when \<open>rmvq\<close> unlinks the \<open>k\<close>-th message of the chain \<open>xs\<close>.\<close>

definition rmvq_ptrs :: "strst \<Rightarrow> nat \<Rightarrow> nat list \<Rightarrow> qband \<Rightarrow> qband" where
  "rmvq_ptrs st k xs qb =
     (let mp = xs ! k; band = b_band (mb st mp);
          qb1 = (if qb_first qb = Some mp
                 then qb\<lparr>qb_first := (if k + 1 < length xs \<and> band = b_band (mb st (xs ! (k + 1))) then Some (xs ! (k + 1)) else None)\<rparr>
                 else qb)
      in if qb_last qb1 = Some mp
         then qb1\<lparr>qb_last := (if 0 < k \<and> band = b_band (mb st (xs ! (k - 1))) then Some (xs ! (k - 1)) else None)\<rparr>
         else qb1)"

definition unlink :: "nat \<Rightarrow> queue \<Rightarrow> queue" where
  "unlink k q = q\<lparr>q_msgs := take k (q_msgs q) @ drop (k + 1) (q_msgs q)\<rparr>"

definition rmvq_take :: "strst \<Rightarrow> nat \<Rightarrow> queue \<Rightarrow> queue" where
  "rmvq_take st mp q =
     (let k = pos_of mp (q_msgs q); m = mb st mp;
          q1 = (if b_band m \<noteq> 0 then upd_band (b_band m) (rmvq_ptrs st k (q_msgs q)) q else q)
      in credit m (unlink k q1))"

definition rmvq :: "nat \<Rightarrow> nat \<Rightarrow> strst \<Rightarrow> strst option" where
  "rmvq i mp st = drain_enable i (b_band (mb st mp)) (upd_q i (rmvq_take st mp) st)"

definition getq_ptrs :: "nat list \<Rightarrow> qband \<Rightarrow> qband" where
  "getq_ptrs xs qb =
     (if qb_first qb = qb_last qb then qb\<lparr>qb_first := None, qb_last := None\<rparr>
      else qb\<lparr>qb_first := (case xs of _ # n # _ \<Rightarrow> Some n | _ \<Rightarrow> None)\<rparr>)"

definition getq_take :: "mblk \<Rightarrow> queue \<Rightarrow> queue" where
  "getq_take m q =
     (let q1 = unlink 0 q;
          q2 = (if b_band m \<noteq> 0 then upd_band (b_band m) (getq_ptrs (q_msgs q)) q1 else q1)
      in clear_qflag QWANTR (credit m q2))"

definition getq :: "nat \<Rightarrow> strst \<Rightarrow> (nat option \<times> strst) option" where
  "getq i st =
     (case q_msgs (sqs st ! i) of
        [] \<Rightarrow>
          (let st1 = upd_q i (set_qflag QWANTR) st
           in map_option (Pair None) (if wanted_by 0 (sqs st1 ! i) then back_enable i 0 st1 else Some st1))
      | bp # xs \<Rightarrow>
          if b_flag (mb st bp) AND MSGNOGET \<noteq> 0 then
            (case dropWhile (\<lambda>m. b_flag (mb st m) AND MSGNOGET \<noteq> 0) (bp # xs) of
               [] \<Rightarrow> Some (None, st)
             | m # _ \<Rightarrow> map_option (Pair (Some m)) (rmvq i m st))
          else
            map_option (Pair (Some bp)) (drain_enable i (b_band (mb st bp)) (upd_q i (getq_take (mb st bp)) st)))"

section \<open>Flushing\<close>

definition empty_band :: "qband \<Rightarrow> qband" where
  "empty_band qb = clear_bflag QB_FULL (qb\<lparr>qb_first := None, qb_last := None, qb_count := 0\<rparr>)"

definition empty_queue :: "queue \<Rightarrow> queue" where
  "empty_queue q = clear_qflag QFULL (q\<lparr>q_msgs := [], q_count := 0, q_bandp := map empty_band (q_bandp q)\<rparr>)"

text \<open>The messages of the old chain: freed, or put back with \<open>putq\<close>.\<close>

fun flush_msgs :: "(mblk \<Rightarrow> bool) \<Rightarrow> nat \<Rightarrow> nat list \<Rightarrow> strst \<Rightarrow> strst" where
  "flush_msgs P i [] st = st"
| "flush_msgs P i (m # ms) st =
     (if P (mb st m) then flush_msgs P i ms (log_freemsg m st) else flush_msgs P i ms (snd (putq i m st)))"

text \<open>
  The bands that may be written to and are waited for; \<open>bpri\<close> counts them in an \<open>unsigned char\<close>,
  and the loop over \<open>qbf\<close> goes up to it.
\<close>

definition band_flush :: "qband \<Rightarrow> bool" where
  "band_flush qb \<longleftrightarrow> qb_flag qb AND QB_WANTW \<noteq> 0 \<and> qb_count qb \<le> qb_lowat qb"

definition queue_flush :: "queue \<Rightarrow> bool" where
  "queue_flush q \<longleftrightarrow> q_flag q AND QWANTW \<noteq> 0 \<and> q_count q \<le> q_lowat q"

definition clear_wants :: "queue \<Rightarrow> queue" where
  "clear_wants q =
     (let q1 = q\<lparr>q_bandp := map (\<lambda>qb. if band_flush qb then clear_bflag QB_WANTW qb else qb) (q_bandp q)\<rparr>
      in if queue_flush q1 then clear_qflag QWANTW q1 else q1)"

fun set_backs :: "nat \<Rightarrow> u8 \<Rightarrow> bool list \<Rightarrow> strst \<Rightarrow> strst" where
  "set_backs p j [] st = st"
| "set_backs p j (b # bs) st = set_backs p (j + 1) bs (if b then setqback p j st else st)"

definition flushq :: "nat \<Rightarrow> bool \<Rightarrow> strst \<Rightarrow> strst option" where
  "flushq i flag st =
     (let ms = q_msgs (sqs st ! i);
          st1 = flush_msgs (\<lambda>m. flag \<or> datamsg (db_type m)) i ms (upd_q i empty_queue st);
          q = sqs st1 ! i;
          qbf = queue_flush q # map band_flush (q_bandp q);
          bpri = (word_of_nat (length (q_bandp q) + 1) :: u8);
          st2 = upd_q i clear_wants st1
      in if True \<in> set qbf then
           (case back_srv st2 i of
              None \<Rightarrow> None
            | Some None \<Rightarrow> Some st2
            | Some (Some p) \<Rightarrow> Some (set_backs p 0 (take (unat bpri) qbf) (qenable p st2)))
         else Some st2)"

text \<open>
  The loop of \<open>flushband\<close> from \<open>qb_first\<close> on, along the chain \<open>ms\<close> from there: it stops at \<open>last\<close>
  and gives back the chain from it; running off the chain before \<open>last\<close> is no regular end.
\<close>

definition flush_one :: "nat \<Rightarrow> u8 \<Rightarrow> bool \<Rightarrow> nat \<Rightarrow> strst \<Rightarrow> strst option" where
  "flush_one i pri flag m st =
     (if b_band (mb st m) = pri \<and> (flag \<or> datamsg (db_type (mb st m)))
      then map_option (log_freemsg m) (rmvq i m st) else Some st)"

fun flush_to :: "nat \<Rightarrow> u8 \<Rightarrow> bool \<Rightarrow> nat option \<Rightarrow> nat list \<Rightarrow> strst \<Rightarrow> strst option" where
  "flush_to i pri flag lst [] st = (if lst = None then Some st else None)"
| "flush_to i pri flag lst (m # ms) st =
     (if lst = Some m then flush_one i pri flag m st
      else case flush_one i pri flag m st of
        None \<Rightarrow> None
      | Some st1 \<Rightarrow> flush_to i pri flag lst ms st1)"

definition flushband :: "nat \<Rightarrow> u8 \<Rightarrow> bool \<Rightarrow> strst \<Rightarrow> strst option" where
  "flushband i pri flag st =
     (if pri > q_nband (sqs st ! i) then Some st
      else if pri = 0 then
        (let ms = q_msgs (sqs st ! i);
             st1 = flush_msgs (\<lambda>m. b_band m = 0 \<and> db_type m < QPCTL \<and> (flag \<or> datamsg (db_type m))) i ms
                     (upd_q i empty_queue st)
         in if queue_flush (sqs st1 ! i) then back_enable i pri st1 else Some st1)
      else
        (let qb = q_bandp (sqs st ! i) ! (unat pri - 1)
         in case qb_first qb of
              None \<Rightarrow> Some st
            | Some mp \<Rightarrow>
                let ms = drop (pos_of mp (q_msgs (sqs st ! i))) (q_msgs (sqs st ! i));
                    lst = (if qb_last qb = Some mp then (case tl ms of [] \<Rightarrow> None | n # _ \<Rightarrow> Some n) else qb_last qb)
                in flush_to i pri flag lst ms st))"

section \<open>Flow control and the fields of a queue\<close>

partial_function (option) fwd_srv :: "strst \<Rightarrow> nat \<Rightarrow> nat option" where
  [code]: "fwd_srv st q =
     (case q_next (sqs st ! q) of
        None \<Rightarrow> Some q
      | Some n \<Rightarrow> if qi_srvp (sqs st ! q) then Some q else fwd_srv st n)"

definition canput :: "nat option \<Rightarrow> strst \<Rightarrow> (bool \<times> strst) option" where
  "canput qp st =
     (case qp of
        None \<Rightarrow> Some (False, st)
      | Some q0 \<Rightarrow>
          (case fwd_srv st q0 of
             None \<Rightarrow> None
           | Some q \<Rightarrow>
               if q_flag (sqs st ! q) AND QFULL \<noteq> 0 then Some (False, upd_q q (set_qflag QWANTW) st)
               else Some (True, st)))"

definition bcanput :: "nat option \<Rightarrow> u8 \<Rightarrow> strst \<Rightarrow> (bool \<times> strst) option" where
  "bcanput qp pri st =
     (case qp of
        None \<Rightarrow> Some (False, st)
      | Some q0 \<Rightarrow>
          (case fwd_srv st q0 of
             None \<Rightarrow> None
           | Some q \<Rightarrow>
               if pri = 0 then
                 (if q_flag (sqs st ! q) AND QFULL \<noteq> 0 then Some (False, upd_q q (set_qflag QWANTW) st)
                  else Some (True, st))
               else if pri > q_nband (sqs st ! q) then Some (True, st)
               else if qb_flag (q_bandp (sqs st ! q) ! (unat pri - 1)) AND QB_FULL \<noteq> 0
                 then Some (False, upd_q q (upd_band pri (set_bflag QB_WANTW)) st)
               else Some (True, st)))"

text \<open>\<open>putp\<close> is the put procedure of the queue; with no next queue \<open>qreply\<close> follows a null pointer.\<close>

definition qreply :: "(nat \<Rightarrow> nat \<Rightarrow> strst \<Rightarrow> strst) \<Rightarrow> nat \<Rightarrow> nat \<Rightarrow> strst \<Rightarrow> strst option" where
  "qreply putp q bp st = map_option (\<lambda>n. putp n bp st) (q_next (sqs st ! otherq st q))"

fun qsize_from :: "nat \<Rightarrow> nat list \<Rightarrow> nat" where
  "qsize_from c [] = c"
| "qsize_from c (m # ms) = qsize_from (c + 1) ms"

definition qsize :: "nat \<Rightarrow> strst \<Rightarrow> nat" where
  "qsize i st = qsize_from 0 (q_msgs (sqs st ! i))"

definition noenable :: "nat \<Rightarrow> strst \<Rightarrow> strst" where
  "noenable i st = upd_q i (set_qflag QNOENB) st"

definition enableok :: "nat \<Rightarrow> strst \<Rightarrow> strst" where
  "enableok i st = upd_q i (clear_qflag QNOENB) st"

definition QHIWAT :: int where "QHIWAT = 0"
definition QLOWAT :: int where "QLOWAT = 1"
definition QMAXPSZ :: int where "QMAXPSZ = 2"
definition QMINPSZ :: int where "QMINPSZ = 3"
definition QCOUNT :: int where "QCOUNT = 4"
definition QFIRST :: int where "QFIRST = 5"
definition QLAST :: int where "QLAST = 6"
definition QQFLAG :: int where "QQFLAG = 7"
definition QBAD :: int where "QBAD = 8"

definition strqset :: "nat \<Rightarrow> int \<Rightarrow> u8 \<Rightarrow> int \<Rightarrow> strst \<Rightarrow> errno option \<times> strst" where
  "strqset i what pri val st =
     (if what \<ge> QBAD then (Some EINVAL, st)
      else
        case (if pri \<noteq> 0 then need_band i pri st else (True, st)) of
          (ok, st1) \<Rightarrow>
            if \<not> ok then (Some EAGAIN, st1)
            else if what = QHIWAT then
              (None, upd_q i (\<lambda>q. if pri \<noteq> 0 then upd_band pri (\<lambda>qb. qb\<lparr>qb_hiwat := word_of_int val\<rparr>) q
                                  else q\<lparr>q_hiwat := word_of_int val\<rparr>) st1)
            else if what = QLOWAT then
              (None, upd_q i (\<lambda>q. if pri \<noteq> 0 then upd_band pri (\<lambda>qb. qb\<lparr>qb_lowat := word_of_int val\<rparr>) q
                                  else q\<lparr>q_lowat := word_of_int val\<rparr>) st1)
            else if what = QMAXPSZ then
              (if pri \<noteq> 0 then (Some EINVAL, st1) else (None, upd_q i (\<lambda>q. q\<lparr>q_maxpsz := val\<rparr>) st1))
            else if what = QMINPSZ then
              (if pri \<noteq> 0 then (Some EINVAL, st1) else (None, upd_q i (\<lambda>q. q\<lparr>q_minpsz := val\<rparr>) st1))
            else if what = QCOUNT \<or> what = QFIRST \<or> what = QLAST \<or> what = QQFLAG then (Some EPERM, st1)
            else (Some EINVAL, st1))"

datatype qval = QvUlong u32 | QvLong int | QvMsg "nat option"

definition strqget_band :: "int \<Rightarrow> qband \<Rightarrow> errno + qval" where
  "strqget_band what qb =
     (if what = QHIWAT then Inr (QvUlong (qb_hiwat qb))
      else if what = QLOWAT then Inr (QvUlong (qb_lowat qb))
      else if what = QCOUNT then Inr (QvUlong (qb_count qb))
      else if what = QFIRST then Inr (QvMsg (qb_first qb))
      else if what = QLAST then Inr (QvMsg (qb_last qb))
      else if what = QQFLAG then Inr (QvUlong (qb_flag qb))
      else Inl EINVAL)"

definition strqget_queue :: "int \<Rightarrow> queue \<Rightarrow> errno + qval" where
  "strqget_queue what q =
     (if what = QHIWAT then Inr (QvUlong (q_hiwat q))
      else if what = QLOWAT then Inr (QvUlong (q_lowat q))
      else if what = QMAXPSZ then Inr (QvLong (q_maxpsz q))
      else if what = QMINPSZ then Inr (QvLong (q_minpsz q))
      else if what = QCOUNT then Inr (QvUlong (q_count q))
      else if what = QFIRST then Inr (QvMsg (case q_msgs q of [] \<Rightarrow> None | m # _ \<Rightarrow> Some m))
      else if what = QLAST then Inr (QvMsg (case q_msgs q of [] \<Rightarrow> None | ms \<Rightarrow> Some (last ms)))
      else if what = QQFLAG then Inr (QvUlong (q_flag q))
      else Inl EINVAL)"

definition strqget :: "nat \<Rightarrow> int \<Rightarrow> u8 \<Rightarrow> strst \<Rightarrow> (errno + qval) \<times> strst" where
  "strqget i what pri st =
     (if what \<ge> QBAD then (Inl EINVAL, st)
      else
        case (if pri \<noteq> 0 then need_band i pri st else (True, st)) of
          (ok, st1) \<Rightarrow>
            if \<not> ok then (Inl EAGAIN, st1)
            else if pri \<noteq> 0 then (strqget_band what (q_bandp (sqs st1 ! i) ! (unat pri - 1)), st1)
            else (strqget_queue what (sqs st1 ! i), st1))"

end
