(* ===== verification/Strq_Inv.thy ===== *)
theory Strq_Inv imports Strq begin

text \<open>
  What a STREAMS queue keeps true: its messages in order of priority, the pointers, counts and
  full marks of its bands those of the messages; with the lemmas that linking a message in and
  taking one off keep it.
\<close>

section \<open>The invariant\<close>

definition prio :: "mblk \<Rightarrow> nat" where
  "prio m = (if db_type m \<ge> QPCTL then 256 else unat (b_band m))"

definition mblk_ok :: "mblk \<Rightarrow> bool" where
  "mblk_ok m \<longleftrightarrow> (db_type m \<ge> QPCTL \<longrightarrow> b_band m = 0)"

definition msize :: "mblk \<Rightarrow> nat" where
  "msize m = (\<Sum>n\<leftarrow>b_sizes m. unat n)"

definition bytes_of :: "mblk list \<Rightarrow> nat list \<Rightarrow> nat" where
  "bytes_of ms xs = (\<Sum>m\<leftarrow>xs. msize (ms ! m))"

definition in_band :: "mblk list \<Rightarrow> u8 \<Rightarrow> nat list \<Rightarrow> nat list" where
  "in_band ms pri xs = filter (\<lambda>m. b_band (ms ! m) = pri) xs"

definition first_of :: "nat list \<Rightarrow> nat option" where
  "first_of xs = (case xs of [] \<Rightarrow> None | x # _ \<Rightarrow> Some x)"

definition last_of :: "nat list \<Rightarrow> nat option" where
  "last_of xs = (if xs = [] then None else Some (last xs))"

definition full_ok :: "bool \<Rightarrow> u32 \<Rightarrow> u32 \<Rightarrow> bool" where
  "full_ok full hi c \<longleftrightarrow> (0 < hi \<longrightarrow> (full \<longleftrightarrow> hi \<le> c))"

definition band_ok :: "mblk list \<Rightarrow> nat list \<Rightarrow> qband \<Rightarrow> bool" where
  "band_ok ms bs qb \<longleftrightarrow> qb_first qb = first_of bs \<and> qb_last qb = last_of bs \<and>
     unat (qb_count qb) = bytes_of ms bs \<and> full_ok (qb_flag qb AND QB_FULL \<noteq> 0) (qb_hiwat qb) (qb_count qb)"

definition chain_ok :: "mblk list \<Rightarrow> u8 \<Rightarrow> nat list \<Rightarrow> bool" where
  "chain_ok ms nb xs \<longleftrightarrow> distinct xs \<and> set xs \<subseteq> {..<length ms} \<and>
     (\<forall>m\<in>set xs. mblk_ok (ms ! m) \<and> b_band (ms ! m) \<le> nb) \<and>
     sorted_wrt (\<lambda>a b. prio (ms ! b) \<le> prio (ms ! a)) xs"

definition bands_ok :: "mblk list \<Rightarrow> nat list \<Rightarrow> queue \<Rightarrow> bool" where
  "bands_ok ms xs q \<longleftrightarrow> length (q_bandp q) = unat (q_nband q) \<and>
     (\<forall>pri. 0 < pri \<longrightarrow> pri \<le> q_nband q \<longrightarrow> band_ok ms (in_band ms pri xs) (q_bandp q ! (unat pri - 1))) \<and>
     unat (q_count q) = bytes_of ms (in_band ms 0 xs) \<and> full_ok (q_flag q AND QFULL \<noteq> 0) (q_hiwat q) (q_count q)"

definition queue_ok :: "mblk list \<Rightarrow> queue \<Rightarrow> bool" where
  "queue_ok ms q \<longleftrightarrow> chain_ok ms (q_nband q) (q_msgs q) \<and> bands_ok ms (q_msgs q) q"

text \<open>All messages together are less than $2^{32}$ bytes, the address space of the machine.\<close>

definition mem_ok :: "mblk list \<Rightarrow> bool" where
  "mem_ok ms \<longleftrightarrow> (\<Sum>m\<leftarrow>ms. msize m) < 2 ^ 32"

section \<open>Flags, counts and priorities\<close>

lemmas q_bits = QENAB_def QWANTR_def QWANTW_def QFULL_def QREADR_def QNOENB_def QBACK_def
  QB_FULL_def QB_WANTW_def QB_BACK_def

lemma and_or_disjoint:
  fixes x a b :: "'a::len word"
  assumes "b AND a = 0"
  shows "(x OR b) AND a = x AND a"
proof (rule bit_word_eqI)
  fix n assume "n < LENGTH('a)"
  have "\<not> (bit b n \<and> bit a n)" using assms by (metis bit_0_eq bit_and_iff bot_apply bot_bool_def)
  then show "bit ((x OR b) AND a) n = bit (x AND a) n"
    using \<open>n < LENGTH('a)\<close> by (auto simp: bit_simps)
qed

lemma and_and_not:
  fixes x a b :: "'a::len word"
  assumes "b AND a = 0"
  shows "(x AND NOT b) AND a = x AND a"
proof (rule bit_word_eqI)
  fix n assume "n < LENGTH('a)"
  have "\<not> (bit b n \<and> bit a n)" using assms by (metis bit_0_eq bit_and_iff bot_apply bot_bool_def)
  then show "bit ((x AND NOT b) AND a) n = bit (x AND a) n"
    using \<open>n < LENGTH('a)\<close> by (auto simp: bit_simps)
qed

lemma and_or_same: "((x :: 'a::len word) OR b) AND b = b"
  by (rule bit_word_eqI) (auto simp: bit_simps)

lemma and_not_same: "((x :: 'a::len word) AND NOT b) AND b = 0"
  by (rule bit_word_eqI) (auto simp: bit_simps)

lemma cont_add_unat:
  assumes "unat c + (\<Sum>n\<leftarrow>ns. unat n) < 2 ^ 32"
  shows "unat (cont_add c ns) = unat c + (\<Sum>n\<leftarrow>ns. unat n)"
  using assms
proof (induction ns arbitrary: c)
  case (Cons n ns)
  then have "unat (c + n) = unat c + unat n" by (intro unat_add_nowrap) simp
  with Cons show ?case by simp
qed simp

lemma cont_sub_unat:
  assumes "(\<Sum>n\<leftarrow>ns. unat n) \<le> unat c"
  shows "unat (cont_sub c ns) = unat c - (\<Sum>n\<leftarrow>ns. unat n)"
  using assms
proof (induction ns arbitrary: c)
  case (Cons n ns)
  then have "unat (c - n) = unat c - unat n" by (intro unat_sub_le) (simp add: word_le_nat_alt)
  with Cons show ?case by simp
qed simp

lemma unat_u8_bound [simp]: "unat (w :: u8) \<noteq> 256" "unat (w :: u8) \<le> 256"
  using unat_u8_less [of w] by linarith+

lemma queclass_prio: "queclass m = (if prio m = 256 then QPCTL else QNORM)"
  by (auto simp: queclass_def prio_def)

lemma type_prio: "QPCTL \<le> db_type m \<longleftrightarrow> prio m = 256"
  by (auto simp: prio_def)

lemma prio_le: "prio m \<le> 256"
  by (simp add: prio_def)

lemma queclass_le: "QNORM \<le> queclass m" "queclass m \<le> QPCTL" "QNORM < QPCTL"
  by (simp_all add: queclass_def QNORM_def QPCTL_def)

lemma band_prio: "prio m \<noteq> 256 \<Longrightarrow> unat (b_band m) = prio m"
  by (simp add: prio_def split: if_splits)

lemma band_prio_256: "mblk_ok m \<Longrightarrow> prio m = 256 \<Longrightarrow> b_band m = 0"
  by (auto simp: prio_def mblk_ok_def split: if_splits)

lemma in_band_prio:
  assumes "mblk_ok m" "0 < pri"
  shows "b_band m = pri \<longleftrightarrow> prio m = unat pri"
proof (cases "prio m = 256")
  case True
  then show ?thesis using assms band_prio_256 [of m] by (auto simp: eq_commute [of 256])
next
  case False
  then show ?thesis by (simp add: band_prio [symmetric] word_unat_eq_iff)
qed

section \<open>Chains in order of priority\<close>

text \<open>A chain splits around a priority.\<close>

lemma split_sorted:
  assumes "sorted_wrt (\<lambda>a b. f b \<le> f a) xs"
  shows "xs = filter (\<lambda>m. p < f m) xs @ filter (\<lambda>m. f m = p) xs @ filter (\<lambda>m. f m < (p::nat)) xs"
  using assms
proof (induction xs)
  case (Cons x xs)
  have le: "\<forall>y\<in>set xs. f y \<le> f x" using Cons.prems by simp
  have IH: "xs = filter (\<lambda>m. p < f m) xs @ filter (\<lambda>m. f m = p) xs @ filter (\<lambda>m. f m < p) xs"
    using Cons by simp
  show ?case
  proof (cases "p < f x")
    case True
    then show ?thesis using IH by auto
  next
    case ge: False
    then have no: "filter (\<lambda>m. p < f m) xs = []" using le by (auto simp: filter_empty_conv)
    show ?thesis
    proof (cases "f x = p")
      case True
      then show ?thesis using IH no by auto
    next
      case False
      then have "filter (\<lambda>m. f m = p) xs = []" "filter (\<lambda>m. f m < p) xs = xs"
        using ge le by (auto simp: filter_empty_conv filter_id_conv)
      then show ?thesis using False ge no by auto
    qed
  qed
qed simp

definition parted :: "mblk list \<Rightarrow> nat \<Rightarrow> nat list \<Rightarrow> nat list \<Rightarrow> nat list \<Rightarrow> bool" where
  "parted ms p A B C \<longleftrightarrow> (\<forall>m\<in>set A. p < prio (ms ! m)) \<and> (\<forall>m\<in>set B. prio (ms ! m) = p) \<and>
     (\<forall>m\<in>set C. prio (ms ! m) < p)"

lemma chain_split:
  assumes "chain_ok ms nb xs"
  obtains A B C where "xs = A @ B @ C" "parted ms p A B C"
proof
  show "xs = filter (\<lambda>m. p < prio (ms ! m)) xs @ filter (\<lambda>m. prio (ms ! m) = p) xs @ filter (\<lambda>m. prio (ms ! m) < p) xs"
    using assms split_sorted [of "\<lambda>m. prio (ms ! m)" xs p] by (simp add: chain_ok_def)
  show "parted ms p (filter (\<lambda>m. p < prio (ms ! m)) xs) (filter (\<lambda>m. prio (ms ! m) = p) xs) (filter (\<lambda>m. prio (ms ! m) < p) xs)"
    by (auto simp: parted_def)
qed

lemma parted_band:
  assumes "chain_ok ms nb (A @ B @ C)" "parted ms (unat pri) A B C" "0 < pri"
  shows "in_band ms pri (A @ B @ C) = B"
proof -
  have ok: "m \<in> set (A @ B @ C) \<Longrightarrow> b_band (ms ! m) = pri \<longleftrightarrow> prio (ms ! m) = unat pri" for m
    using assms(1,3) in_band_prio by (simp add: chain_ok_def)
  have "in_band ms pri (A @ B @ C) = filter (\<lambda>m. prio (ms ! m) = unat pri) (A @ B @ C)"
    unfolding in_band_def using ok by (intro filter_cong) auto
  also have "\<dots> = [] @ B @ []"
    unfolding filter_append
    by (intro arg_cong2 [where f = append])
      (use assms(2) in \<open>auto simp: parted_def filter_empty_conv filter_id_conv\<close>)
  finally show ?thesis by simp
qed

lemma takeWhile_parts:
  assumes "\<forall>m\<in>set xs. P m" "\<forall>m\<in>set ys. \<not> P m"
  shows "takeWhile P (xs @ ys) = xs"
  using assms by (induction xs) (cases ys; auto)+

lemma pos_of_split: "x \<notin> set xs \<Longrightarrow> pos_of x (xs @ x # ys) = length xs"
  unfolding pos_of_def by (induction xs) auto

lemma walk_split:
  assumes "\<forall>m\<in>set ys. P m" "\<forall>m\<in>set zs. \<not> P m"
  shows "walk P (xs @ ys @ zs) (length xs) = length xs + length ys"
  unfolding walk_def using takeWhile_parts [OF assms] by simp

text \<open>Where the code links a message in: after all of its priority with \<open>putq\<close>, before them with \<open>putbq\<close>.\<close>

lemma last_part:
  assumes "parted ms p A B C" "A @ B @ C \<noteq> []"
  shows "p \<le> prio (ms ! last (A @ B @ C)) \<longleftrightarrow> C = []" "p < prio (ms ! last (A @ B @ C)) \<longleftrightarrow> B @ C = []"
proof -
  have le: "C = [] \<Longrightarrow> p \<le> prio (ms ! m)" "B @ C = [] \<Longrightarrow> p < prio (ms ! m)" if "m \<in> set (A @ B @ C)" for m
    using assms(1) that by (auto simp: parted_def)
  have mem: "last (A @ B @ C) \<in> set (A @ B @ C)" using assms(2) last_in_set by blast
  have C: "C \<noteq> [] \<Longrightarrow> prio (ms ! last (A @ B @ C)) < p" using assms(1) by (simp add: parted_def)
  have B: "C = [] \<Longrightarrow> B \<noteq> [] \<Longrightarrow> prio (ms ! last (A @ B @ C)) = p" using assms(1) by (simp add: parted_def)
  show "p \<le> prio (ms ! last (A @ B @ C)) \<longleftrightarrow> C = []" using le(1) [OF mem] C by fastforce
  show "p < prio (ms ! last (A @ B @ C)) \<longleftrightarrow> B @ C = []" using le(2) [OF mem] B C by fastforce
qed

lemma walk_prio:
  assumes c: "chain_ok ms nb (X @ Y)"
    and X: "\<forall>m\<in>set X. R (prio (ms ! m))" and Y: "\<forall>m\<in>set Y. \<not> R (prio (ms ! m))"
    and R: "R 256" and b: "\<And>m. prio (ms ! m) \<noteq> 256 \<Longrightarrow> Q m \<longleftrightarrow> R (prio (ms ! m))"
  shows "walk Q (X @ Y) (walk (\<lambda>m. QPCTL \<le> db_type (ms ! m)) (X @ Y) 0) = length X"
proof -
  define H where "H = takeWhile (\<lambda>m. prio (ms ! m) = 256) X"
  define L where "L = dropWhile (\<lambda>m. prio (ms ! m) = 256) X"
  have X_eq: "X = H @ L" by (simp add: H_def L_def)
  have s: "sorted_wrt (\<lambda>a b. prio (ms ! b) \<le> prio (ms ! a)) (H @ L)"
    using c by (simp add: chain_ok_def X_eq sorted_wrt_append)
  have H: "\<forall>m\<in>set H. prio (ms ! m) = 256" unfolding H_def by (auto dest: set_takeWhileD)
  have L: "\<forall>m\<in>set L. prio (ms ! m) \<noteq> 256"
  proof (cases L)
    case (Cons l ls)
    then have "prio (ms ! l) \<noteq> 256" unfolding L_def by (auto simp: dropWhile_eq_Cons_conv)
    then have "prio (ms ! l) < 256" using prio_le [of "ms ! l"] by simp
    then show ?thesis using s Cons by (fastforce simp: sorted_wrt_append)
  qed simp
  have Y256: "\<forall>m\<in>set Y. prio (ms ! m) \<noteq> 256" using Y R by metis
  have "walk (\<lambda>m. QPCTL \<le> db_type (ms ! m)) (H @ L @ Y) 0 = length H"
    using walk_split [of H "\<lambda>m. QPCTL \<le> db_type (ms ! m)" "L @ Y" "[]"] H L Y256 by (auto simp: type_prio)
  moreover have "walk Q (H @ L @ Y) (length H) = length H + length L"
    using L Y256 X Y b by (intro walk_split) (auto simp: X_eq)
  ultimately show ?thesis by (simp add: X_eq)
qed

lemma class_less: "queclass m < queclass m' \<longleftrightarrow> prio m \<noteq> 256 \<and> prio m' = 256"
  using queclass_le(3) by (auto simp: queclass_prio)

lemma class_le: "queclass m \<le> queclass m' \<longleftrightarrow> (prio m = 256 \<longrightarrow> prio m' = 256)"
  using queclass_le(3) by (auto simp: queclass_prio)

lemma chain_okD: "chain_ok ms nb xs \<Longrightarrow> m \<in> set xs \<Longrightarrow> mblk_ok (ms ! m)"
  by (simp add: chain_ok_def)

lemma parted_256: "parted ms 256 A B C \<Longrightarrow> A = []"
  unfolding parted_def by (metis last_in_set linorder_not_less prio_le)

lemma prio_or_le:
  assumes "mblk_ok m" "prio m' \<noteq> 256"
  shows "queclass m' < queclass m \<or> b_band m' \<le> b_band m \<longleftrightarrow> prio m' \<le> prio m"
proof (cases "prio m = 256")
  case True
  then show ?thesis using assms(2) prio_le [of m'] by (simp add: class_less)
next
  case False
  then have "\<not> queclass m' < queclass m" by (simp add: class_less)
  then show ?thesis using False assms by (simp add: word_le_nat_alt band_prio)
qed

lemma prio_or_less:
  assumes "mblk_ok m" "prio m' \<noteq> 256"
  shows "queclass m' < queclass m \<or> b_band m' < b_band m \<longleftrightarrow> prio m' < prio m"
proof (cases "prio m = 256")
  case True
  then show ?thesis using assms(2) prio_le [of m'] by (simp add: class_less)
next
  case False
  then have "\<not> queclass m' < queclass m" by (simp add: class_less)
  then show ?thesis using False assms by (simp add: word_less_nat_alt band_prio)
qed

lemma band_at:
  assumes "queue_ok ms q" "q_msgs q = A @ B @ C" "parted ms (unat pri) A B C" "0 < pri" "pri \<le> q_nband q"
  shows "band_ok ms B (q_bandp q ! (unat pri - 1))"
proof -
  have "in_band ms pri (q_msgs q) = B"
    using assms parted_band [of ms "q_nband q" A B C pri] by (simp add: queue_ok_def)
  then show ?thesis using assms(1,4,5) by (auto simp: queue_ok_def bands_ok_def)
qed

lemma prio_nonzero_band:
  assumes "b_band m \<noteq> 0" "mblk_ok m"
  shows "prio m = unat (b_band m)" "prio m \<noteq> 256" "0 < prio m" "0 < b_band m"
proof -
  show ne: "prio m \<noteq> 256" using assms by (auto simp: prio_def mblk_ok_def)
  show "prio m = unat (b_band m)" using band_prio [OF ne] by simp
  then show "0 < prio m" using assms(1) by (simp add: unat_gt_0)
  show "0 < b_band m" using assms(1) by (simp add: word_gt_0)
qed

lemma putq_pos_eq:
  assumes q: "queue_ok (smsgs st) q" and xs: "q_msgs q = A @ B @ C" and p: "parted (smsgs st) (prio (mb st bp)) A B C"
    and ok: "mblk_ok (mb st bp)" and nb: "b_band (mb st bp) \<le> q_nband q"
  shows "putq_pos st q bp = length A + length B"
proof (cases "q_msgs q = []")
  case True
  then show ?thesis using xs by (simp add: putq_pos_def Let_def)
next
  case ne: False
  let ?p = "prio (mb st bp)" and ?l = "last (A @ B @ C)"
  have ch: "chain_ok (smsgs st) (q_nband q) (A @ B @ C)" using q xs by (simp add: queue_ok_def)
  have last: "?p \<le> prio (mb st ?l) \<longleftrightarrow> C = []"
    using last_part [OF p] ne xs by (simp add: mb_def)
  have "?l \<in> set (A @ B @ C)" by (rule last_in_set) (use ne xs in simp)
  then have lok: "mblk_ok (mb st ?l)" unfolding mb_def by (rule chain_okD [OF ch])
  show ?thesis
  proof (cases "b_band (mb st bp) = 0")
    case True
    show ?thesis
    proof (cases "?p = 256")
      case hi: True
      have "queclass (mb st bp) \<le> queclass (mb st ?l) \<longleftrightarrow> C = []"
        using last prio_le [of "mb st ?l"] hi by (auto simp: class_le)
      moreover have "walk (\<lambda>m. queclass (mb st bp) \<le> queclass (mb st m)) ([] @ (A @ B) @ C) (length ([] :: nat list)) =
          length ([] :: nat list) + length (A @ B)"
      proof (rule walk_split)
        show "\<forall>m\<in>set (A @ B). queclass (mb st bp) \<le> queclass (mb st m)"
          using p hi parted_256 [OF p [unfolded hi]] by (simp add: class_le parted_def mb_def)
        show "\<forall>m\<in>set C. \<not> queclass (mb st bp) \<le> queclass (mb st m)"
          using p hi by (fastforce simp: class_le parted_def mb_def)
      qed
      ultimately show ?thesis using True ne xs by (simp add: putq_pos_def Let_def)
    next
      case False
      then have "?p = 0" using True band_prio [OF False] by simp
      then have "C = []" using last by simp
      then show ?thesis using True ne xs False by (simp add: putq_pos_def Let_def class_le)
    qed
  next
    case False
    note pr = prio_nonzero_band [OF False ok]
    let ?b = "q_bandp q ! (unat (b_band (mb st bp)) - 1)"
    have b: "band_ok (smsgs st) B ?b"
      using band_at [OF q xs _ pr(4) nb] p pr(1) by simp
    have cond: "queclass (mb st bp) < queclass (mb st ?l) \<or> b_band (mb st bp) \<le> b_band (mb st ?l) \<longleftrightarrow> C = []"
      using prio_or_le [OF lok pr(2)] last by simp
    show ?thesis
    proof (cases "B = []")
      case True
      have "walk (\<lambda>m. b_band (mb st m) \<ge> b_band (mb st bp)) (A @ C)
          (walk (\<lambda>m. db_type (smsgs st ! m) \<ge> QPCTL) (A @ C) 0) = length A"
      proof (rule walk_prio [where R = "\<lambda>x. ?p \<le> x", OF ch [unfolded True append_Nil]])
        show "\<forall>m\<in>set A. ?p \<le> prio (smsgs st ! m)" "\<forall>m\<in>set C. \<not> ?p \<le> prio (smsgs st ! m)"
          using p by (auto simp: parted_def)
        show "?p \<le> 256" by (rule prio_le)
        show "b_band (mb st bp) \<le> b_band (mb st m) \<longleftrightarrow> ?p \<le> prio (smsgs st ! m)" if "prio (smsgs st ! m) \<noteq> 256" for m
          using band_prio [OF that] pr(1) by (simp add: word_le_nat_alt mb_def)
      qed
      moreover have "qb_first ?b = None" using b True by (simp add: band_ok_def first_of_def)
      ultimately show ?thesis using False ne xs cond True by (simp add: putq_pos_def Let_def mb_def)
    next
      case B: False
      have l: "qb_last ?b = Some (last B)" "qb_first ?b = Some (hd B)"
        using b B by (cases B; simp add: band_ok_def first_of_def last_of_def)+
      have eq: "A @ B @ C = (A @ butlast B) @ last B # C" using B by simp
      have "distinct ((A @ butlast B) @ last B # C)" using ch unfolding chain_ok_def eq by blast
      then have "pos_of (last B) (A @ B @ C) = length (A @ butlast B)"
        unfolding eq by (intro pos_of_split) auto
      then show ?thesis using False ne xs l B by (simp add: putq_pos_def Let_def)
    qed
  qed
qed

lemma putbq_pos_eq:
  assumes q: "queue_ok (smsgs st) q" and xs: "q_msgs q = A @ B @ C" and p: "parted (smsgs st) (prio (mb st bp)) A B C"
    and ok: "mblk_ok (mb st bp)" and nb: "b_band (mb st bp) \<le> q_nband q"
  shows "putbq_pos st q bp = length A"
proof (cases "q_msgs q = [] \<or> prio (mb st bp) = 256")
  case True
  then have "A = []" using xs parted_256 [of "smsgs st" A B C] p by auto
  moreover have "q_msgs q = [] \<or> queclass (mb st bp) = QPCTL" using True by (auto simp: queclass_prio)
  ultimately show ?thesis by (simp add: putbq_pos_def Let_def)
next
  case ne: False
  let ?p = "prio (mb st bp)" and ?l = "last (A @ B @ C)"
  have ch: "chain_ok (smsgs st) (q_nband q) (A @ B @ C)" using q xs by (simp add: queue_ok_def)
  have last: "?p < prio (mb st ?l) \<longleftrightarrow> B @ C = []"
    using last_part [OF p] ne xs by (simp add: mb_def)
  have "?l \<in> set (A @ B @ C)" by (rule last_in_set) (use ne xs in simp)
  then have lok: "mblk_ok (mb st ?l)" unfolding mb_def by (rule chain_okD [OF ch])
  have cond: "queclass (mb st bp) < queclass (mb st ?l) \<or> b_band (mb st bp) < b_band (mb st ?l) \<longleftrightarrow> B @ C = []"
    using prio_or_less [OF lok] ne last by simp
  have nc: "queclass (mb st bp) \<noteq> QPCTL" using ne queclass_le(3) by (simp add: queclass_prio)
  have pb: "?p = unat (b_band (mb st bp))" using band_prio ne by simp
  have walk: "walk (\<lambda>m. b_band (mb st m) > b_band (mb st bp)) (A @ B @ C)
      (walk (\<lambda>m. db_type (smsgs st ! m) \<ge> QPCTL) (A @ B @ C) 0) = length A"
  proof (rule walk_prio [where R = "\<lambda>x. ?p < x", OF ch])
    show "\<forall>m\<in>set A. ?p < prio (smsgs st ! m)" "\<forall>m\<in>set (B @ C). \<not> ?p < prio (smsgs st ! m)"
      using p by (auto simp: parted_def)
    show "?p < 256" using ne prio_le [of "mb st bp"] by simp
    show "b_band (mb st bp) < b_band (mb st m) \<longleftrightarrow> ?p < prio (smsgs st ! m)" if "prio (smsgs st ! m) \<noteq> 256" for m
      using band_prio [OF that] pb by (simp add: word_less_nat_alt mb_def)
  qed
  show ?thesis
  proof (cases "b_band (mb st bp) = 0")
    case True
    then show ?thesis using ne nc xs cond walk by (auto simp: putbq_pos_def Let_def mb_def)
  next
    case False
    let ?b = "q_bandp q ! (unat (b_band (mb st bp)) - 1)"
    have b: "band_ok (smsgs st) B ?b"
      using band_at [OF q xs _ _ nb] p pb False by (simp add: word_gt_0)
    show ?thesis
    proof (cases "B = []")
      case True
      then have "qb_first ?b = None" using b by (simp add: band_ok_def first_of_def)
      then show ?thesis using False ne nc xs cond walk True by (auto simp: putbq_pos_def Let_def mb_def)
    next
      case B: False
      have l: "qb_first ?b = Some (hd B)"
        using b B by (cases B) (simp_all add: band_ok_def first_of_def)
      have eq: "A @ B @ C = A @ hd B # (tl B @ C)" using B by simp
      have "distinct (A @ hd B # (tl B @ C))" using ch unfolding chain_ok_def eq by blast
      then have "pos_of (hd B) (A @ B @ C) = length A"
        unfolding eq by (intro pos_of_split) auto
      then show ?thesis using False ne nc xs l B by (simp add: putbq_pos_def Let_def)
    qed
  qed
qed

section \<open>Counts\<close>

lemma bytes_of_simps [simp]:
  "bytes_of ms [] = 0" "bytes_of ms (x # xs) = msize (ms ! x) + bytes_of ms xs"
  "bytes_of ms (xs @ ys) = bytes_of ms xs + bytes_of ms ys"
  by (simp_all add: bytes_of_def)

lemma in_band_simps [simp]:
  "in_band ms pri [] = []" "in_band ms pri (xs @ ys) = in_band ms pri xs @ in_band ms pri ys"
  "in_band ms pri (x # xs) = (if b_band (ms ! x) = pri then x # in_band ms pri xs else in_band ms pri xs)"
  by (simp_all add: in_band_def)

lemma bytes_of_bound:
  assumes "distinct xs" "set xs \<subseteq> {..<length ms}"
  shows "bytes_of ms xs \<le> (\<Sum>m\<leftarrow>ms. msize m)"
proof -
  have "bytes_of ms xs = (\<Sum>m\<in>set xs. msize (ms ! m))"
    using assms(1) by (simp add: bytes_of_def sum_list_distinct_conv_sum_set)
  also have "\<dots> \<le> (\<Sum>m<length ms. msize (ms ! m))"
    using assms(2) by (intro sum_mono2) auto
  also have "\<dots> = (\<Sum>m\<leftarrow>ms. msize m)"
    by (simp add: sum_list_sum_nth atLeast0LessThan)
  finally show ?thesis .
qed

lemma bytes_in_band:
  assumes "mem_ok ms" "distinct xs" "set xs \<subseteq> {..<length ms}"
  shows "bytes_of ms (in_band ms pri xs) < 2 ^ 32"
proof -
  have "bytes_of ms (in_band ms pri xs) \<le> (\<Sum>m\<leftarrow>ms. msize m)"
    using assms(2,3) by (intro bytes_of_bound) (auto simp: in_band_def)
  then show ?thesis using assms(1) by (simp add: mem_ok_def)
qed

lemma upd_band_simps [simp]:
  "q_msgs (upd_band pri f q) = q_msgs q" "q_nband (upd_band pri f q) = q_nband q"
  "q_count (upd_band pri f q) = q_count q" "q_flag (upd_band pri f q) = q_flag q"
  "q_hiwat (upd_band pri f q) = q_hiwat q" "q_lowat (upd_band pri f q) = q_lowat q"
  "q_next (upd_band pri f q) = q_next q" "qi_srvp (upd_band pri f q) = qi_srvp q"
  "q_bandp (upd_band pri f q) = (q_bandp q)[unat pri - 1 := f (q_bandp q ! (unat pri - 1))]"
  by (simp_all add: upd_band_def)

lemma qflag_simps [simp]:
  "q_msgs (set_qflag b q) = q_msgs q" "q_nband (set_qflag b q) = q_nband q"
  "q_count (set_qflag b q) = q_count q" "q_flag (set_qflag b q) = q_flag q OR b"
  "q_hiwat (set_qflag b q) = q_hiwat q" "q_lowat (set_qflag b q) = q_lowat q"
  "q_next (set_qflag b q) = q_next q" "qi_srvp (set_qflag b q) = qi_srvp q" "q_bandp (set_qflag b q) = q_bandp q"
  "q_msgs (clear_qflag b q) = q_msgs q" "q_nband (clear_qflag b q) = q_nband q"
  "q_count (clear_qflag b q) = q_count q" "q_flag (clear_qflag b q) = q_flag q AND NOT b"
  "q_hiwat (clear_qflag b q) = q_hiwat q" "q_lowat (clear_qflag b q) = q_lowat q"
  "q_next (clear_qflag b q) = q_next q" "qi_srvp (clear_qflag b q) = qi_srvp q" "q_bandp (clear_qflag b q) = q_bandp q"
  by (simp_all add: set_qflag_def clear_qflag_def)

lemma bflag_simps [simp]:
  "qb_count (set_bflag b qb) = qb_count qb" "qb_first (set_bflag b qb) = qb_first qb"
  "qb_last (set_bflag b qb) = qb_last qb" "qb_hiwat (set_bflag b qb) = qb_hiwat qb"
  "qb_lowat (set_bflag b qb) = qb_lowat qb" "qb_flag (set_bflag b qb) = qb_flag qb OR b"
  "qb_count (clear_bflag b qb) = qb_count qb" "qb_first (clear_bflag b qb) = qb_first qb"
  "qb_last (clear_bflag b qb) = qb_last qb" "qb_hiwat (clear_bflag b qb) = qb_hiwat qb"
  "qb_lowat (clear_bflag b qb) = qb_lowat qb" "qb_flag (clear_bflag b qb) = qb_flag qb AND NOT b"
  by (simp_all add: set_bflag_def clear_bflag_def)

text \<open>A band whose messages, pointers and count change together; the full mark follows the count.\<close>

lemma charge_band_ok:
  assumes b: "full_ok (qb_flag qb AND QB_FULL \<noteq> 0) (qb_hiwat qb) (qb_count qb)" and c: "unat (qb_count qb) = n"
    and p: "qb_first qb = first_of bs" "qb_last qb = last_of bs" and n: "bytes_of ms bs = n + msize m" "bytes_of ms bs < 2 ^ 32"
  shows "band_ok ms bs (charge_band m qb)"
proof -
  have u: "unat (cont_add (qb_count qb) (b_sizes m)) = bytes_of ms bs"
    using cont_add_unat [of "qb_count qb" "b_sizes m"] c n by (simp add: msize_def)
  have mono: "qb_count qb \<le> cont_add (qb_count qb) (b_sizes m)" using u c n by (simp add: word_le_nat_alt)
  have f: "QB_FULL \<noteq> 0" by (simp add: QB_FULL_def)
  show ?thesis
    using b p u mono f
    by (auto simp: band_ok_def charge_band_def Let_def full_ok_def and_or_same)
qed

lemma credit_band_ok:
  assumes b: "full_ok (qb_flag qb AND QB_FULL \<noteq> 0) (qb_hiwat qb) (qb_count qb)" and c: "unat (qb_count qb) = n"
    and p: "qb_first qb = first_of bs" "qb_last qb = last_of bs" and n: "n = bytes_of ms bs + msize m"
  shows "band_ok ms bs (credit_band m qb)"
proof -
  have u: "unat (cont_sub (qb_count qb) (b_sizes m)) = bytes_of ms bs"
    using cont_sub_unat [of "b_sizes m" "qb_count qb"] c n by (simp add: msize_def)
  have mono: "cont_sub (qb_count qb) (b_sizes m) \<le> qb_count qb" using u c n by (simp add: word_le_nat_alt)
  show ?thesis
    using b p u mono
    by (auto simp: band_ok_def credit_band_def Let_def full_ok_def and_not_same)
qed

lemma charge_queue_ok:
  assumes b: "full_ok (q_flag q AND QFULL \<noteq> 0) (q_hiwat q) (q_count q)" and c: "unat (q_count q) = n"
    and n: "k = n + msize m" "k < 2 ^ 32"
  shows "unat (q_count (charge_queue m q)) = k"
    "full_ok (q_flag (charge_queue m q) AND QFULL \<noteq> 0) (q_hiwat q) (q_count (charge_queue m q))"
proof -
  have u: "unat (cont_add (q_count q) (b_sizes m)) = k"
    using cont_add_unat [of "q_count q" "b_sizes m"] c n by (simp add: msize_def)
  have mono: "q_count q \<le> cont_add (q_count q) (b_sizes m)" using u c n by (simp add: word_le_nat_alt)
  have f: "QFULL \<noteq> 0" by (simp add: QFULL_def)
  show "unat (q_count (charge_queue m q)) = k" using u by (simp add: charge_queue_def Let_def)
  show "full_ok (q_flag (charge_queue m q) AND QFULL \<noteq> 0) (q_hiwat q) (q_count (charge_queue m q))"
    using b mono f by (auto simp: charge_queue_def Let_def full_ok_def and_or_same)
qed

lemma credit_queue_ok:
  assumes b: "full_ok (q_flag q AND QFULL \<noteq> 0) (q_hiwat q) (q_count q)" and c: "unat (q_count q) = n"
    and n: "n = k + msize m"
  shows "unat (q_count (credit_queue m q)) = k"
    "full_ok (q_flag (credit_queue m q) AND QFULL \<noteq> 0) (q_hiwat q) (q_count (credit_queue m q))"
proof -
  have u: "unat (cont_sub (q_count q) (b_sizes m)) = k"
    using cont_sub_unat [of "b_sizes m" "q_count q"] c n by (simp add: msize_def)
  have mono: "cont_sub (q_count q) (b_sizes m) \<le> q_count q" using u c n by (simp add: word_le_nat_alt)
  show "unat (q_count (credit_queue m q)) = k" using u by (simp add: credit_queue_def Let_def)
  show "full_ok (q_flag (credit_queue m q) AND QFULL \<noteq> 0) (q_hiwat q) (q_count (credit_queue m q))"
    using b mono by (auto simp: credit_queue_def Let_def full_ok_def and_not_same)
qed

lemma bands_ok_queue:
  assumes "bands_ok ms xs q" and "\<And>pri. 0 < pri \<Longrightarrow> in_band ms pri xs' = in_band ms pri xs"
    and "q_bandp q' = q_bandp q" "q_nband q' = q_nband q" "q_hiwat q' = q_hiwat q"
    and "unat (q_count q') = bytes_of ms (in_band ms 0 xs')" "full_ok (q_flag q' AND QFULL \<noteq> 0) (q_hiwat q) (q_count q')"
  shows "bands_ok ms xs' q'"
  using assms by (auto simp: bands_ok_def)

lemma bands_ok_band:
  assumes ok: "bands_ok ms xs q" and pri: "0 < pri" "pri \<le> q_nband q"
    and other: "\<And>p. p \<noteq> pri \<Longrightarrow> in_band ms p xs' = in_band ms p xs"
    and q': "q_bandp q' = (q_bandp q)[unat pri - 1 := qb]" "q_nband q' = q_nband q" "q_hiwat q' = q_hiwat q"
      "q_count q' = q_count q" "q_flag q' AND QFULL = q_flag q AND QFULL"
    and b: "band_ok ms (in_band ms pri xs') qb"
  shows "bands_ok ms xs' q'"
proof -
  have len: "length (q_bandp q) = unat (q_nband q)" using ok by (simp add: bands_ok_def)
  have i: "unat pri - 1 < length (q_bandp q)" using pri len by (simp add: word_le_nat_alt word_less_nat_alt)
  have ne: "unat p - 1 \<noteq> unat pri - 1" if "p \<noteq> pri" "0 < p" for p
    using that pri(1) by (metis One_nat_def Suc_pred unat_gt_0 word_gt_0 word_unat_eq_iff)
  have 0: "in_band ms 0 xs' = in_band ms 0 xs" using other pri(1) by auto
  show ?thesis unfolding bands_ok_def q'
  proof (intro conjI allI impI)
    fix p assume p: "0 < p" "p \<le> q_nband q"
    show "band_ok ms (in_band ms p xs') ((q_bandp q)[unat pri - 1 := qb] ! (unat p - 1))"
    proof (cases "p = pri")
      case True
      then show ?thesis using b i by simp
    next
      case False
      then show ?thesis using ok p other ne [OF False p(1)] by (simp add: bands_ok_def)
    qed
  qed (use ok 0 len in \<open>simp_all add: bands_ok_def\<close>)
qed

section \<open>Linking in and taking off\<close>

lemma credit_queue_simps [simp]:
  "q_msgs (credit_queue m q) = q_msgs q" "q_nband (credit_queue m q) = q_nband q" "q_hiwat (credit_queue m q) = q_hiwat q"
  "q_lowat (credit_queue m q) = q_lowat q" "q_next (credit_queue m q) = q_next q"
  "qi_srvp (credit_queue m q) = qi_srvp q" "q_bandp (credit_queue m q) = q_bandp q"
  by (simp_all add: credit_queue_def Let_def)

lemma charge_queue_simps [simp]:
  "q_msgs (charge_queue m q) = q_msgs q" "q_nband (charge_queue m q) = q_nband q" "q_hiwat (charge_queue m q) = q_hiwat q"
  "q_lowat (charge_queue m q) = q_lowat q" "q_next (charge_queue m q) = q_next q"
  "qi_srvp (charge_queue m q) = qi_srvp q" "q_bandp (charge_queue m q) = q_bandp q"
  by (simp_all add: charge_queue_def Let_def)

text \<open>The flags a change of the counts leaves alone.\<close>

lemma count_flags:
  assumes "b AND QFULL = 0"
  shows "q_flag (credit_queue m q) AND b = q_flag q AND b" "q_flag (charge_queue m q) AND b = q_flag q AND b"
  using assms by (simp_all add: credit_queue_def charge_queue_def Let_def and_and_not and_or_disjoint and.commute [of QFULL])

lemma band_index:
  assumes "bands_ok ms xs q" "0 < pri" "pri \<le> q_nband q"
  shows "unat pri - 1 < length (q_bandp q)"
  using assms by (simp add: bands_ok_def word_le_nat_alt word_less_nat_alt)

lemma band_okD:
  assumes "bands_ok ms xs q" "0 < pri" "pri \<le> q_nband q"
  shows "band_ok ms (in_band ms pri xs) (q_bandp q ! (unat pri - 1))"
  using assms by (simp add: bands_ok_def)

lemma insert_at_split: "insert_at (length xs) x (xs @ ys) = xs @ x # ys"
  by (simp add: insert_at_def)

lemma chain_insert:
  assumes "chain_ok ms nb (X @ Y)" "bp < length ms" "bp \<notin> set (X @ Y)" "mblk_ok (ms ! bp)" "b_band (ms ! bp) \<le> nb"
    and "\<forall>m\<in>set X. prio (ms ! bp) \<le> prio (ms ! m)" "\<forall>m\<in>set Y. prio (ms ! m) \<le> prio (ms ! bp)"
  shows "chain_ok ms nb (X @ bp # Y)"
  using assms by (auto simp: chain_ok_def sorted_wrt_append)

lemma link_in_bands:
  assumes ok: "bands_ok ms (X @ Y) q" and xs: "q_msgs q = X @ Y" and mem: "mem_ok ms"
    and ch: "distinct (X @ bp # Y)" "set (X @ bp # Y) \<subseteq> {..<length ms}" and nb: "b_band (ms ! bp) \<le> q_nband q"
    and p: "\<And>qb. b_band (ms ! bp) \<noteq> 0 \<Longrightarrow> band_ok ms (in_band ms (b_band (ms ! bp)) (X @ Y)) qb \<Longrightarrow>
      qb_first (ptrs (X @ Y) qb) = first_of (in_band ms (b_band (ms ! bp)) (X @ bp # Y)) \<and>
      qb_last (ptrs (X @ Y) qb) = last_of (in_band ms (b_band (ms ! bp)) (X @ bp # Y)) \<and>
      qb_count (ptrs (X @ Y) qb) = qb_count qb \<and> qb_hiwat (ptrs (X @ Y) qb) = qb_hiwat qb \<and>
      qb_flag (ptrs (X @ Y) qb) = qb_flag qb"
  shows "bands_ok ms (X @ bp # Y) (link_in (length X) ptrs bp (ms ! bp) q)"
proof -
  let ?pri = "b_band (ms ! bp)" and ?q1 = "q\<lparr>q_msgs := X @ bp # Y\<rparr>"
  have b: "bytes_of ms (in_band ms pri (X @ bp # Y)) < 2 ^ 32" for pri
    by (rule bytes_in_band [OF mem ch])
  show ?thesis
  proof (cases "?pri = 0")
    case True
    have l: "link_in (length X) ptrs bp (ms ! bp) q = charge_queue (ms ! bp) ?q1"
      using True by (simp add: link_in_def xs insert_at_split charge_def)
    have "unat (q_count ?q1) = bytes_of ms (in_band ms 0 (X @ Y))" "full_ok (q_flag ?q1 AND QFULL \<noteq> 0) (q_hiwat ?q1) (q_count ?q1)"
      using ok by (simp_all add: bands_ok_def)
    from charge_queue_ok [OF this(2,1) _ b [of 0], of "ms ! bp"]
    show ?thesis unfolding l using True
      by (intro bands_ok_queue [OF ok]) (auto simp: ac_simps)
  next
    case False
    then have pri: "0 < ?pri" by (simp add: word_gt_0)
    note i = band_index [OF ok pri nb] and ob = band_okD [OF ok pri nb]
    have l: "q_bandp (link_in (length X) ptrs bp (ms ! bp) q) =
        (q_bandp q)[unat ?pri - 1 := charge_band (ms ! bp) (ptrs (X @ Y) (q_bandp q ! (unat ?pri - 1)))]"
      "q_nband (link_in (length X) ptrs bp (ms ! bp) q) = q_nband q" "q_hiwat (link_in (length X) ptrs bp (ms ! bp) q) = q_hiwat q"
      "q_count (link_in (length X) ptrs bp (ms ! bp) q) = q_count q" "q_flag (link_in (length X) ptrs bp (ms ! bp) q) = q_flag q"
      using False i by (simp_all add: link_in_def xs charge_def)
    let ?qb = "q_bandp q ! (unat ?pri - 1)"
    note pp = p [OF False ob]
    have "band_ok ms (in_band ms ?pri (X @ bp # Y)) (charge_band (ms ! bp) (ptrs (X @ Y) ?qb))"
    proof (rule charge_band_ok)
      show "full_ok (qb_flag (ptrs (X @ Y) ?qb) AND QB_FULL \<noteq> 0) (qb_hiwat (ptrs (X @ Y) ?qb)) (qb_count (ptrs (X @ Y) ?qb))"
        using pp ob by (simp only: band_ok_def)
      show "unat (qb_count (ptrs (X @ Y) ?qb)) = bytes_of ms (in_band ms ?pri (X @ Y))"
        using pp ob by (simp only: band_ok_def)
      show "qb_first (ptrs (X @ Y) ?qb) = first_of (in_band ms ?pri (X @ bp # Y))"
        "qb_last (ptrs (X @ Y) ?qb) = last_of (in_band ms ?pri (X @ bp # Y))" using pp by blast+
      show "bytes_of ms (in_band ms ?pri (X @ bp # Y)) = bytes_of ms (in_band ms ?pri (X @ Y)) + msize (ms ! bp)" by simp
      show "bytes_of ms (in_band ms ?pri (X @ bp # Y)) < 2 ^ 32" by (rule b)
    qed
    then show ?thesis
      by (intro bands_ok_band [OF ok pri nb _ l(1,2,3,4)]) (auto simp: l(5))
  qed
qed

lemma link_in_msgs [simp]:
  "q_msgs (link_in k ptrs bp m q) = insert_at k bp (q_msgs q)" "q_nband (link_in k ptrs bp m q) = q_nband q"
  "q_next (link_in k ptrs bp m q) = q_next q" "qi_srvp (link_in k ptrs bp m q) = qi_srvp q"
  "q_lowat (link_in k ptrs bp m q) = q_lowat q" "q_hiwat (link_in k ptrs bp m q) = q_hiwat q"
  "length (q_bandp (link_in k ptrs bp m q)) = length (q_bandp q)"
  by (simp_all add: link_in_def Let_def charge_def)

lemma link_in_flags:
  assumes "b AND QFULL = 0"
  shows "q_flag (link_in k ptrs bp m q) AND b = q_flag q AND b"
  using count_flags [OF assms] by (simp add: link_in_def Let_def charge_def)

lemma first_last_of [simp]:
  "first_of [] = None" "first_of (x # xs) = Some x" "last_of [] = None" "last_of (xs @ [x]) = Some x" "last_of [x] = Some x"
  "xs \<noteq> [] \<Longrightarrow> last_of (x # xs) = last_of xs"
  by (simp_all add: first_of_def last_of_def)

lemma first_of_append: "xs \<noteq> [] \<Longrightarrow> first_of (xs @ ys) = first_of xs"
  by (cases xs) simp_all

lemma first_of_None: "first_of xs = None \<longleftrightarrow> xs = []"
  by (cases xs) simp_all

lemma parted_bands:
  assumes ch: "chain_ok ms nb (A @ B @ C)" and p: "parted ms (unat pri) A B C" and pri: "0 < pri"
  shows "in_band ms pri A = []" "in_band ms pri B = B" "in_band ms pri C = []"
proof -
  have iff: "b_band (ms ! m) = pri \<longleftrightarrow> prio (ms ! m) = unat pri" if "m \<in> set (A @ B @ C)" for m
    by (rule in_band_prio [OF chain_okD [OF ch that] pri])
  show "in_band ms pri A = []" "in_band ms pri B = B" "in_band ms pri C = []"
    using iff p by (fastforce simp: in_band_def filter_empty_conv filter_id_conv parted_def)+
qed

lemma bp_band:
  assumes ch: "chain_ok ms nb (A @ B @ C)" and p: "parted ms (prio (ms ! bp)) A B C" and ok: "mblk_ok (ms ! bp)"
    and nz: "b_band (ms ! bp) \<noteq> 0"
  shows "in_band ms (b_band (ms ! bp)) A = []" "in_band ms (b_band (ms ! bp)) B = B" "in_band ms (b_band (ms ! bp)) C = []"
  using parted_bands [OF ch _ prio_nonzero_band(4) [OF nz ok]] p prio_nonzero_band(1) [OF nz ok] by simp_all

lemma putq_place:
  assumes q: "queue_ok ms q" and xs: "q_msgs q = A @ B @ C" and p: "parted ms (prio (ms ! bp)) A B C" and mem: "mem_ok ms"
    and bp: "bp < length ms" "bp \<notin> set (q_msgs q)" "mblk_ok (ms ! bp)" "b_band (ms ! bp) \<le> q_nband q"
  shows "queue_ok ms (link_in (length (A @ B)) (putq_ptrs bp) bp (ms ! bp) q)"
proof -
  have ch: "chain_ok ms (q_nband q) ((A @ B) @ C)" and bd: "bands_ok ms ((A @ B) @ C) q"
    using q xs by (simp_all add: queue_ok_def)
  have c': "chain_ok ms (q_nband q) ((A @ B) @ bp # C)"
    by (rule chain_insert [OF ch]) (use bp xs p in \<open>auto simp: parted_def\<close>)
  note B = bp_band [OF ch [unfolded append_assoc] p bp(3)]
  have "bands_ok ms ((A @ B) @ bp # C) (link_in (length (A @ B)) (putq_ptrs bp) bp (ms ! bp) q)"
  proof (rule link_in_bands [OF bd _ mem])
    show "distinct ((A @ B) @ bp # C)" "set ((A @ B) @ bp # C) \<subseteq> {..<length ms}" using c' by (simp_all add: chain_ok_def)
    fix qb assume nz: "b_band (ms ! bp) \<noteq> 0" and "band_ok ms (in_band ms (b_band (ms ! bp)) ((A @ B) @ C)) qb"
    then have "qb_first qb = first_of B" "qb_last qb = last_of B" using B [OF nz] by (simp_all add: band_ok_def)
    moreover have "in_band ms (b_band (ms ! bp)) ((A @ B) @ bp # C) = B @ [bp]" using B [OF nz] by simp
    moreover have "A @ B @ C = [] \<Longrightarrow> B = []" by simp
    ultimately show "qb_first (putq_ptrs bp ((A @ B) @ C) qb) = first_of (in_band ms (b_band (ms ! bp)) ((A @ B) @ bp # C)) \<and>
      qb_last (putq_ptrs bp ((A @ B) @ C) qb) = last_of (in_band ms (b_band (ms ! bp)) ((A @ B) @ bp # C)) \<and>
      qb_count (putq_ptrs bp ((A @ B) @ C) qb) = qb_count qb \<and> qb_hiwat (putq_ptrs bp ((A @ B) @ C) qb) = qb_hiwat qb \<and>
      qb_flag (putq_ptrs bp ((A @ B) @ C) qb) = qb_flag qb"
      by (cases "B = []") (simp_all add: putq_ptrs_def first_of_None first_of_append)
  qed (use xs bp in simp_all)
  then show ?thesis
    using c' xs insert_at_split [of "A @ B" bp C] by (simp add: queue_ok_def)
qed

lemma putbq_place:
  assumes q: "queue_ok ms q" and xs: "q_msgs q = A @ B @ C" and p: "parted ms (prio (ms ! bp)) A B C" and mem: "mem_ok ms"
    and bp: "bp < length ms" "bp \<notin> set (q_msgs q)" "mblk_ok (ms ! bp)" "b_band (ms ! bp) \<le> q_nband q"
  shows "queue_ok ms (link_in (length A) (putbq_ptrs bp) bp (ms ! bp) q)"
proof -
  have ch: "chain_ok ms (q_nband q) (A @ B @ C)" and bd: "bands_ok ms (A @ B @ C) q"
    using q xs by (simp_all add: queue_ok_def)
  have c': "chain_ok ms (q_nband q) (A @ bp # B @ C)"
    by (rule chain_insert [OF ch]) (use bp xs p in \<open>auto simp: parted_def\<close>)
  note B = bp_band [OF ch p bp(3)]
  have "bands_ok ms (A @ bp # B @ C) (link_in (length A) (putbq_ptrs bp) bp (ms ! bp) q)"
  proof (rule link_in_bands [OF bd _ mem])
    show "distinct (A @ bp # B @ C)" "set (A @ bp # B @ C) \<subseteq> {..<length ms}" using c' by (simp_all add: chain_ok_def)
    fix qb assume nz: "b_band (ms ! bp) \<noteq> 0" and "band_ok ms (in_band ms (b_band (ms ! bp)) (A @ B @ C)) qb"
    then have "qb_first qb = first_of B" "qb_last qb = last_of B" using B [OF nz] by (simp_all add: band_ok_def)
    moreover have "in_band ms (b_band (ms ! bp)) (A @ bp # B @ C) = bp # B" using B [OF nz] by simp
    moreover have "A @ B @ C = [] \<Longrightarrow> B = []" by simp
    ultimately show "qb_first (putbq_ptrs bp (A @ B @ C) qb) = first_of (in_band ms (b_band (ms ! bp)) (A @ bp # B @ C)) \<and>
      qb_last (putbq_ptrs bp (A @ B @ C) qb) = last_of (in_band ms (b_band (ms ! bp)) (A @ bp # B @ C)) \<and>
      qb_count (putbq_ptrs bp (A @ B @ C) qb) = qb_count qb \<and> qb_hiwat (putbq_ptrs bp (A @ B @ C) qb) = qb_hiwat qb \<and>
      qb_flag (putbq_ptrs bp (A @ B @ C) qb) = qb_flag qb"
      by (cases "B = []") (simp_all add: putbq_ptrs_def first_of_None)
  qed (use xs bp in simp_all)
  then show ?thesis
    using c' xs insert_at_split [of A bp "B @ C"] by (simp add: queue_ok_def)
qed

text \<open>Taking the \<open>k\<close>-th message off.\<close>

lemma chain_remove: "chain_ok ms nb (X @ m # Y) \<Longrightarrow> chain_ok ms nb (X @ Y)"
  by (auto simp: chain_ok_def sorted_wrt_append)

lemma unlink_split: "q_msgs q = X @ m # Y \<Longrightarrow> unlink (length X) q = q\<lparr>q_msgs := X @ Y\<rparr>"
  by (simp add: unlink_def)

lemma unlink_bands:
  assumes ok: "bands_ok ms (X @ m # Y) q" and nb: "b_band (ms ! m) \<le> q_nband q"
    and p: "\<And>qb. b_band (ms ! m) \<noteq> 0 \<Longrightarrow> band_ok ms (in_band ms (b_band (ms ! m)) (X @ m # Y)) qb \<Longrightarrow>
      qb_first (ptrs qb) = first_of (in_band ms (b_band (ms ! m)) (X @ Y)) \<and>
      qb_last (ptrs qb) = last_of (in_band ms (b_band (ms ! m)) (X @ Y)) \<and>
      qb_count (ptrs qb) = qb_count qb \<and> qb_hiwat (ptrs qb) = qb_hiwat qb \<and> qb_flag (ptrs qb) = qb_flag qb"
    and q': "q' = credit (ms ! m) ((if b_band (ms ! m) \<noteq> 0 then upd_band (b_band (ms ! m)) ptrs q else q)\<lparr>q_msgs := X @ Y\<rparr>)"
  shows "bands_ok ms (X @ Y) q'"
proof (cases "b_band (ms ! m) = 0")
  case True
  let ?q1 = "q\<lparr>q_msgs := X @ Y\<rparr>"
  have l: "q' = credit_queue (ms ! m) ?q1" using True q' by (simp add: credit_def)
  have "unat (q_count ?q1) = bytes_of ms (in_band ms 0 (X @ m # Y))" "full_ok (q_flag ?q1 AND QFULL \<noteq> 0) (q_hiwat ?q1) (q_count ?q1)"
    using ok by (simp_all add: bands_ok_def)
  from credit_queue_ok [OF this(2,1), of "bytes_of ms (in_band ms 0 (X @ Y))" "ms ! m"]
  show ?thesis unfolding l using True
    by (intro bands_ok_queue [OF ok]) auto
next
  case False
  let ?pri = "b_band (ms ! m)"
  let ?qb = "q_bandp q ! (unat ?pri - 1)"
  have pri: "0 < ?pri" using False by (simp add: word_gt_0)
  note i = band_index [OF ok pri nb] and ob = band_okD [OF ok pri nb]
  have l: "q_bandp q' = (q_bandp q)[unat ?pri - 1 := credit_band (ms ! m) (ptrs ?qb)]"
    "q_nband q' = q_nband q" "q_hiwat q' = q_hiwat q" "q_count q' = q_count q" "q_flag q' = q_flag q"
    using False i by (simp_all add: q' credit_def)
  note pp = p [OF False ob]
  have "band_ok ms (in_band ms ?pri (X @ Y)) (credit_band (ms ! m) (ptrs ?qb))"
  proof (rule credit_band_ok)
    show "full_ok (qb_flag (ptrs ?qb) AND QB_FULL \<noteq> 0) (qb_hiwat (ptrs ?qb)) (qb_count (ptrs ?qb))"
      using pp ob by (simp only: band_ok_def)
    show "unat (qb_count (ptrs ?qb)) = bytes_of ms (in_band ms ?pri (X @ m # Y))"
      using pp ob by (simp only: band_ok_def)
    show "qb_first (ptrs ?qb) = first_of (in_band ms ?pri (X @ Y))"
      "qb_last (ptrs ?qb) = last_of (in_band ms ?pri (X @ Y))" using pp by blast+
    show "bytes_of ms (in_band ms ?pri (X @ m # Y)) = bytes_of ms (in_band ms ?pri (X @ Y)) + msize (ms ! m)" by simp
  qed
  then show ?thesis
    by (intro bands_ok_band [OF ok pri nb _ l(1,2,3,4)]) (auto simp: l(5))
qed

lemma chain_at:
  assumes ch: "chain_ok ms nb (X @ m # Y)" and nz: "b_band (ms ! m) \<noteq> 0"
  obtains A B1 B2 C where "X = A @ B1" "Y = B2 @ C" "in_band ms (b_band (ms ! m)) A = []"
    "in_band ms (b_band (ms ! m)) B1 = B1" "in_band ms (b_band (ms ! m)) B2 = B2" "in_band ms (b_band (ms ! m)) C = []"
proof -
  have ok: "mblk_ok (ms ! m)" by (rule chain_okD [OF ch]) simp
  obtain A B C where eq: "X @ m # Y = A @ B @ C" and p: "parted ms (prio (ms ! m)) A B C"
    by (rule chain_split [OF ch])
  note b = bp_band [OF ch [unfolded eq] p ok nz]
  have "m \<in> set (A @ B @ C)" using eq by (metis in_set_conv_decomp)
  moreover have "m \<notin> set A" "m \<notin> set C" using p by (auto simp: parted_def)
  ultimately have "m \<in> set B" by simp
  then obtain B1 B2 where B: "B = B1 @ m # B2" by (meson split_list)
  have "X @ m # Y = (A @ B1) @ m # (B2 @ C)" using eq B by simp
  moreover have "m \<notin> set X" "m \<notin> set Y" using ch by (auto simp: chain_ok_def)
  ultimately have xy: "X = A @ B1" "Y = B2 @ C" using append_Cons_eq_iff by (metis, metis)
  have "filter (\<lambda>x. b_band (ms ! x) = b_band (ms ! m)) B = B" using b(2) by (simp add: in_band_def)
  then have "\<forall>x\<in>set B. b_band (ms ! x) = b_band (ms ! m)" by (simp add: filter_id_conv)
  then have "in_band ms (b_band (ms ! m)) B1 = B1" "in_band ms (b_band (ms ! m)) B2 = B2"
    unfolding B by (auto simp: in_band_def filter_id_conv)
  then show ?thesis using that xy b by blast
qed

lemma hd_band:
  assumes "in_band ms pri B = B" "B \<noteq> []"
  shows "b_band (ms ! hd B) = pri" "b_band (ms ! last B) = pri"
proof -
  have "\<forall>x\<in>set B. b_band (ms ! x) = pri" using assms(1) by (simp add: in_band_def filter_id_conv)
  then show "b_band (ms ! hd B) = pri" "b_band (ms ! last B) = pri" using assms(2) by simp_all
qed

lemma out_band:
  assumes "in_band ms pri C = []" "C \<noteq> []"
  shows "b_band (ms ! hd C) \<noteq> pri" "b_band (ms ! last C) \<noteq> pri"
  using assms by (auto simp: in_band_def filter_empty_conv)

lemma next_band:
  assumes "in_band ms pri B = B" "in_band ms pri C = []"
  shows "(if B @ C \<noteq> [] \<and> pri = b_band (ms ! hd (B @ C)) then Some (hd (B @ C)) else None) = first_of B"
  using hd_band(1) [OF assms(1)] out_band(1) [OF assms(2)] by (cases B) auto

lemma prev_band:
  assumes "in_band ms pri A = []" "in_band ms pri B = B"
  shows "(if A @ B \<noteq> [] \<and> pri = b_band (ms ! last (A @ B)) then Some (last (A @ B)) else None) = last_of B"
  using hd_band(2) [OF assms(2)] out_band(2) [OF assms(1)] by (cases "B = []") (auto simp: last_of_def)

lemma rmvq_ptrs_split:
  assumes "smsgs st = ms"
  shows "rmvq_ptrs st (length X) (X @ m # Y) qb =
    (let qb1 = (if qb_first qb = Some m
                then qb\<lparr>qb_first := (if Y \<noteq> [] \<and> b_band (ms ! m) = b_band (ms ! hd Y) then Some (hd Y) else None)\<rparr> else qb)
     in if qb_last qb1 = Some m
        then qb1\<lparr>qb_last := (if X \<noteq> [] \<and> b_band (ms ! m) = b_band (ms ! last X) then Some (last X) else None)\<rparr> else qb1)"
proof -
  have n: "Y \<noteq> [] \<Longrightarrow> (X @ m # Y) ! (length X + 1) = hd Y" by (simp add: nth_append hd_conv_nth)
  have l: "X \<noteq> [] \<Longrightarrow> (X @ m # Y) ! (length X - 1) = last X" by (simp add: nth_append last_conv_nth)
  show ?thesis
    using n l by (auto simp: rmvq_ptrs_def Let_def assms mb_def)
qed

lemma rmvq_ptrs_ok:
  assumes ch: "chain_ok ms nb (X @ m # Y)" and nz: "b_band (ms ! m) \<noteq> 0" and st: "smsgs st = ms"
    and b: "band_ok ms (in_band ms (b_band (ms ! m)) (X @ m # Y)) qb"
  defines "qb' \<equiv> rmvq_ptrs st (length X) (X @ m # Y) qb"
  shows "qb_first qb' = first_of (in_band ms (b_band (ms ! m)) (X @ Y)) \<and>
    qb_last qb' = last_of (in_band ms (b_band (ms ! m)) (X @ Y)) \<and>
    qb_count qb' = qb_count qb \<and> qb_hiwat qb' = qb_hiwat qb \<and> qb_flag qb' = qb_flag qb"
proof -
  obtain A B1 B2 C where xy: "X = A @ B1" "Y = B2 @ C" and A: "in_band ms (b_band (ms ! m)) A = []"
    and B1: "in_band ms (b_band (ms ! m)) B1 = B1" and B2: "in_band ms (b_band (ms ! m)) B2 = B2"
    and C: "in_band ms (b_band (ms ! m)) C = []"
    by (rule chain_at [OF ch nz])
  have ib: "in_band ms (b_band (ms ! m)) (X @ m # Y) = B1 @ m # B2" "in_band ms (b_band (ms ! m)) (X @ Y) = B1 @ B2"
    using xy A B1 B2 C by simp_all
  have d: "m \<notin> set B1" "m \<notin> set B2" using ch xy by (auto simp: chain_ok_def)
  have p: "qb_first qb = first_of (B1 @ m # B2)" "qb_last qb = last_of (B1 @ m # B2)" using b ib by (simp_all add: band_ok_def)
  have f: "qb_first qb = Some m \<longleftrightarrow> B1 = []" using p(1) d by (cases B1) auto
  have l: "qb_last qb = Some m \<longleftrightarrow> B2 = []" using p(2) d last_in_set [of B2] by (cases "B2 = []") (auto simp: last_of_def)
  have q: "qb' = (let qb1 = (if B1 = [] then qb\<lparr>qb_first := first_of B2\<rparr> else qb)
      in if B2 = [] then qb1\<lparr>qb_last := last_of B1\<rparr> else qb1)"
    unfolding qb'_def rmvq_ptrs_split [OF st] xy next_band [OF B2 C] prev_band [OF A B1]
    using f l by (simp add: Let_def)
  show ?thesis
    unfolding q ib using p by (cases "B1 = []"; cases "B2 = []") (simp_all add: first_of_append last_of_def)
qed

lemma rmvq_take_split:
  assumes "q_msgs q = X @ m # Y" "m \<notin> set X"
  shows "rmvq_take st m q = credit (mb st m)
    ((if b_band (mb st m) \<noteq> 0 then upd_band (b_band (mb st m)) (rmvq_ptrs st (length X) (X @ m # Y)) q else q)\<lparr>q_msgs := X @ Y\<rparr>)"
  using assms unlink_split [of "upd_band (b_band (mb st m)) (rmvq_ptrs st (length X) (X @ m # Y)) q" X m Y]
    unlink_split [of q X m Y]
  by (simp add: rmvq_take_def Let_def pos_of_split)

lemma credit_msgs [simp]:
  "q_msgs (credit m q) = q_msgs q" "q_nband (credit m q) = q_nband q" "q_next (credit m q) = q_next q"
  "qi_srvp (credit m q) = qi_srvp q" "q_lowat (credit m q) = q_lowat q" "q_hiwat (credit m q) = q_hiwat q"
  "length (q_bandp (credit m q)) = length (q_bandp q)"
  by (simp_all add: credit_def)

lemma rmvq_take_ok:
  assumes q: "queue_ok (smsgs st) q" and xs: "q_msgs q = X @ m # Y"
  shows "queue_ok (smsgs st) (rmvq_take st m q)" "q_msgs (rmvq_take st m q) = X @ Y" "q_nband (rmvq_take st m q) = q_nband q"
proof -
  have ch: "chain_ok (smsgs st) (q_nband q) (X @ m # Y)" and bd: "bands_ok (smsgs st) (X @ m # Y) q"
    using q xs by (simp_all add: queue_ok_def)
  have m: "m \<notin> set X" "b_band (smsgs st ! m) \<le> q_nband q" using ch by (auto simp: chain_ok_def)
  note eq = rmvq_take_split [OF xs m(1), of st]
  show f: "q_msgs (rmvq_take st m q) = X @ Y" "q_nband (rmvq_take st m q) = q_nband q" by (simp_all add: eq)
  have "bands_ok (smsgs st) (X @ Y) (rmvq_take st m q)"
    by (rule unlink_bands [OF bd m(2) rmvq_ptrs_ok [OF ch _ refl] eq [unfolded mb_def]])
  then show "queue_ok (smsgs st) (rmvq_take st m q)"
    using f chain_remove [OF ch] by (simp add: queue_ok_def)
qed

text \<open>\<open>getq\<close> takes the head off as \<open>rmvq\<close> would, and clears the wish to read.\<close>

lemma getq_ptrs_eq:
  assumes ch: "chain_ok ms nb (m # Y)" and nz: "b_band (ms ! m) \<noteq> 0" and st: "smsgs st = ms"
    and b: "band_ok ms (in_band ms (b_band (ms ! m)) (m # Y)) qb"
  shows "getq_ptrs (m # Y) qb = rmvq_ptrs st 0 (m # Y) qb"
proof -
  obtain A B1 B2 C where xy: "[] = A @ B1" "Y = B2 @ C"
    and B2: "in_band ms (b_band (ms ! m)) B2 = B2" and C: "in_band ms (b_band (ms ! m)) C = []"
    by (rule chain_at [of ms nb "[]" m Y]) (use ch nz in simp_all)
  have ib: "in_band ms (b_band (ms ! m)) (m # Y) = m # B2" using xy B2 C by simp
  have d: "m \<notin> set B2" using ch xy by (auto simp: chain_ok_def)
  have p: "qb_first qb = Some m" "qb_last qb = last_of (m # B2)" using b ib by (simp_all add: band_ok_def)
  have l: "qb_last qb = Some m \<longleftrightarrow> B2 = []" using p(2) d last_in_set [of B2] by (cases "B2 = []") (auto simp: last_of_def)
  have "rmvq_ptrs st (length ([] :: nat list)) ([] @ m # (B2 @ C)) qb = (let qb1 = qb\<lparr>qb_first := first_of B2\<rparr> in
      if B2 = [] then qb1\<lparr>qb_last := None\<rparr> else qb1)"
    unfolding rmvq_ptrs_split [OF st] next_band [OF B2 C] using p l by (simp add: Let_def)
  then show ?thesis
    using p l xy by (cases B2) (auto simp: getq_ptrs_def Let_def last_of_def)
qed

lemma clear_credit:
  "clear_qflag b (upd_band pri f q) = upd_band pri f (clear_qflag b q)"
  "(clear_qflag b q)\<lparr>q_msgs := xs\<rparr> = clear_qflag b (q\<lparr>q_msgs := xs\<rparr>)"
  by (simp_all add: clear_qflag_def upd_band_def)

lemma getq_take_eq:
  assumes q: "queue_ok (smsgs st) q" and xs: "q_msgs q = m # Y"
  shows "getq_take (mb st m) q = clear_qflag QWANTR (rmvq_take st m q)"
proof -
  have ch: "chain_ok (smsgs st) (q_nband q) (m # Y)" and bd: "bands_ok (smsgs st) (m # Y) q"
    using q xs by (simp_all add: queue_ok_def)
  have nb: "b_band (smsgs st ! m) \<le> q_nband q" using ch by (simp add: chain_ok_def)
  have r: "rmvq_take st m q = credit (mb st m)
      ((if b_band (mb st m) \<noteq> 0 then upd_band (b_band (mb st m)) (rmvq_ptrs st 0 (m # Y)) q else q)\<lparr>q_msgs := Y\<rparr>)"
    using rmvq_take_split [of q "[]" m Y st] xs by simp
  show ?thesis
  proof (cases "b_band (mb st m) = 0")
    case True
    then show ?thesis using r unlink_split [of q "[]" m Y] xs by (simp add: getq_take_def Let_def)
  next
    case False
    let ?pri = "b_band (mb st m)"
    have pri: "0 < ?pri" using False by (simp add: word_gt_0)
    have b: "band_ok (smsgs st) (in_band (smsgs st) ?pri (m # Y)) (q_bandp q ! (unat ?pri - 1))"
      using band_okD [OF bd pri] nb by (simp add: mb_def)
    have "getq_ptrs (m # Y) (q_bandp q ! (unat ?pri - 1)) = rmvq_ptrs st 0 (m # Y) (q_bandp q ! (unat ?pri - 1))"
      using getq_ptrs_eq [OF ch _ refl] b False by (simp add: mb_def)
    then have "upd_band ?pri (getq_ptrs (m # Y)) (q\<lparr>q_msgs := Y\<rparr>) =
        (upd_band ?pri (rmvq_ptrs st 0 (m # Y)) q)\<lparr>q_msgs := Y\<rparr>"
      by (simp add: upd_band_def)
    then show ?thesis using r False unlink_split [of q "[]" m Y] xs by (simp add: getq_take_def Let_def)
  qed
qed

section \<open>Bands that are added\<close>

lemma add_band_ok:
  assumes q: "queue_ok ms q" and nb: "q_nband q < pri"
  shows "queue_ok ms (add_band q)"
proof -
  have ch: "chain_ok ms (q_nband q) (q_msgs q)" and bd: "bands_ok ms (q_msgs q) q"
    using q by (simp_all add: queue_ok_def)
  have n: "unat (q_nband q + 1) = unat (q_nband q) + 1"
    using nb unat_u8_less [of pri] by (subst unat_add_nowrap) (simp_all add: word_less_nat_alt del: unat_u8_less)
  have le: "p \<le> q_nband q + 1 \<longleftrightarrow> p \<le> q_nband q \<or> p = q_nband q + 1" for p
    using n by (auto simp: word_le_nat_alt word_unat_eq_iff)
  have len: "length (q_bandp q) = unat (q_nband q)" using bd by (simp add: bands_ok_def)
  have "chain_ok ms (q_nband q + 1) (q_msgs q)"
    using ch le by (auto simp: chain_ok_def)
  moreover have "bands_ok ms (q_msgs q) (add_band q)"
    unfolding bands_ok_def
  proof (intro conjI allI impI)
    fix p assume p: "0 < p" "p \<le> q_nband (add_band q)"
    then consider "p \<le> q_nband q" | "p = q_nband q + 1" using le by (auto simp: add_band_def)
    then show "band_ok ms (in_band ms p (q_msgs q)) (q_bandp (add_band q) ! (unat p - 1))"
    proof cases
      case 1
      then have "unat p - 1 < length (q_bandp q)" using p(1) len by (simp add: word_le_nat_alt word_less_nat_alt)
      then show ?thesis using 1 p(1) band_okD [OF bd] by (simp add: add_band_def nth_append)
    next
      case 2
      have "\<forall>m\<in>set (q_msgs q). b_band (ms ! m) \<noteq> p"
        using ch 2 n by (auto simp: chain_ok_def word_le_nat_alt)
      then have "in_band ms p (q_msgs q) = []" by (auto simp: in_band_def filter_empty_conv)
      moreover have "q_bandp (add_band q) ! (unat p - 1) = new_band q"
        using 2 n len by (simp add: add_band_def nth_append)
      ultimately show ?thesis by (auto simp: band_ok_def new_band_def full_ok_def)
    qed
  qed (use bd n len in \<open>simp_all add: bands_ok_def add_band_def\<close>)
  ultimately show ?thesis by (simp add: queue_ok_def add_band_def)
qed

lemma add_band_simps [simp]:
  "q_msgs (add_band q) = q_msgs q" "q_next (add_band q) = q_next q" "q_flag (add_band q) = q_flag q"
  "qi_srvp (add_band q) = qi_srvp q" "q_count (add_band q) = q_count q" "q_hiwat (add_band q) = q_hiwat q"
  "q_lowat (add_band q) = q_lowat q"
  by (simp_all add: add_band_def)

declare band_loop.simps [simp del]

lemma allocband_core:
  assumes "allocband st = (ok, st')"
  shows "sqs st' = sqs st" "smsgs st' = smsgs st" "qrun st' = qrun st" "qrunflag st' = qrunflag st" "sfreed st' = sfreed st"
  using assms by (auto simp: allocband_def split: list.splits bool.splits)

lemma band_loop_ok:
  assumes "band_loop pri q st = (ok, q', st')" "queue_ok ms q"
  shows "queue_ok ms q' \<and> (ok \<longrightarrow> pri \<le> q_nband q') \<and> q_msgs q' = q_msgs q \<and> q_next q' = q_next q \<and> q_flag q' = q_flag q \<and>
    qi_srvp q' = qi_srvp q \<and> q_count q' = q_count q \<and> q_hiwat q' = q_hiwat q \<and> q_lowat q' = q_lowat q \<and>
    (\<exists>bs. q_bandp q' = q_bandp q @ bs) \<and> (pri \<le> q_nband q \<longrightarrow> ok \<and> q' = q \<and> st' = st) \<and>
    sqs st' = sqs st \<and> smsgs st' = smsgs st \<and> qrun st' = qrun st \<and> qrunflag st' = qrunflag st \<and> sfreed st' = sfreed st"
  using assms
proof (induction pri q st arbitrary: ok q' st' rule: band_loop.induct)
  case (1 pri q st)
  obtain a st1 where a: "allocband st = (a, st1)" by (cases "allocband st")
  note core = allocband_core [OF a]
  show ?case
  proof (cases "q_nband q < pri")
    case less: True
    show ?thesis
    proof (cases a)
      case True
      have "band_loop pri (add_band q) st1 = (ok, q', st')"
        using 1(2) less a True by (subst (asm) band_loop.simps) simp
      from 1(1) [OF less a [symmetric] True this add_band_ok [OF 1(3) less]]
      show ?thesis using less core by (auto simp: add_band_def)
    next
      case False
      then have "ok = False" "q' = q" "st' = st1"
        using 1(2) less a by (subst (asm) band_loop.simps; simp)+
      then show ?thesis using 1(3) less core by auto
    qed
  next
    case False
    then have "ok = True" "q' = q" "st' = st"
      using 1(2) by (subst (asm) band_loop.simps; simp)+
    then show ?thesis using 1(3) False by auto
  qed
qed

end
