(* ===== verification/Strq_Op.thy ===== *)
theory Strq_Op imports Strq_Inv begin

text \<open>
  The invariant of all the queues together, and that the operations of \<open>io/stream.c\<close> keep it:
  no message is on two queues, the run list holds exactly the enabled queues, and the links stay
  within the queues.
\<close>

section \<open>The invariant of the queues\<close>

definition apart :: "strst \<Rightarrow> bool" where
  "apart st \<longleftrightarrow> (\<forall>i<length (sqs st). \<forall>j<length (sqs st). i \<noteq> j \<longrightarrow>
     set (q_msgs (sqs st ! i)) \<inter> set (q_msgs (sqs st ! j)) = {})"

definition run_ok :: "strst \<Rightarrow> bool" where
  "run_ok st \<longleftrightarrow> distinct (qrun st) \<and> set (qrun st) \<subseteq> {..<length (sqs st)} \<and>
     (\<forall>i<length (sqs st). (i \<in> set (qrun st) \<longleftrightarrow> q_flag (sqs st ! i) AND QENAB \<noteq> 0) \<and>
        (i \<in> set (qrun st) \<longrightarrow> qi_srvp (sqs st ! i)))"

definition links_ok :: "strst \<Rightarrow> bool" where
  "links_ok st \<longleftrightarrow> even (length (sqs st)) \<and>
     (\<forall>i<length (sqs st). (q_flag (sqs st ! i) AND QREADR \<noteq> 0 \<longleftrightarrow> even i) \<and>
        pred_option (\<lambda>n. n < length (sqs st)) (q_next (sqs st ! i)))"

definition strst_ok :: "strst \<Rightarrow> bool" where
  "strst_ok st \<longleftrightarrow> mem_ok (smsgs st) \<and> (\<forall>i<length (sqs st). queue_ok (smsgs st) (sqs st ! i)) \<and>
     apart st \<and> run_ok st \<and> links_ok st"

text \<open>The messages of each queue, and whether a message is on some queue.\<close>

definition qchains :: "strst \<Rightarrow> nat list list" where
  "qchains st = map q_msgs (sqs st)"

definition on_queue :: "strst \<Rightarrow> nat \<Rightarrow> bool" where
  "on_queue st m \<longleftrightarrow> (\<exists>i<length (sqs st). m \<in> set (q_msgs (sqs st ! i)))"

section \<open>Changing one queue\<close>

lemma upd_q_simps [simp]:
  "smsgs (upd_q i f st) = smsgs st" "qrun (upd_q i f st) = qrun st" "qrunflag (upd_q i f st) = qrunflag st"
  "sfreed (upd_q i f st) = sfreed st" "length (sqs (upd_q i f st)) = length (sqs st)"
  "kmem (upd_q i f st) = kmem st"
  by (simp_all add: upd_q_def)

lemma upd_q_nth [simp]:
  "i < length (sqs st) \<Longrightarrow> sqs (upd_q i f st) ! i = f (sqs st ! i)"
  "j \<noteq> i \<Longrightarrow> sqs (upd_q i f st) ! j = sqs st ! j"
  by (simp_all add: upd_q_def)

lemma upd_q_at: "i < length (sqs st) \<Longrightarrow> sqs (upd_q i f st) ! j = (if j = i then f (sqs st ! i) else sqs st ! j)"
  by (simp add: upd_q_def nth_list_update)

lemma qchains_upd: "qchains (upd_q i f st) = (qchains st)[i := q_msgs (f (sqs st ! i))]"
  by (simp add: qchains_def upd_q_def map_update)

lemma qchains_same:
  assumes "q_msgs (f (sqs st ! i)) = q_msgs (sqs st ! i)"
  shows "qchains (upd_q i f st) = qchains st"
  using assms by (cases "i < length (sqs st)") (simp_all add: qchains_def upd_q_def map_update list_update_same_conv list_update_beyond)

lemma strst_okD:
  assumes "strst_ok st"
  shows "mem_ok (smsgs st)" "i < length (sqs st) \<Longrightarrow> queue_ok (smsgs st) (sqs st ! i)" "apart st" "run_ok st" "links_ok st"
  using assms by (simp_all add: strst_ok_def)

text \<open>A change of one queue that leaves its place in the streams and on the run list alone.\<close>

lemma strst_ok_upd:
  assumes ok: "strst_ok st" and i: "i < length (sqs st)" and q: "queue_ok (smsgs st) (f (sqs st ! i))"
    and new: "\<And>m. m \<in> set (q_msgs (f (sqs st ! i))) \<Longrightarrow> m \<in> set (q_msgs (sqs st ! i)) \<or> \<not> on_queue st m"
    and flags: "q_flag (f (sqs st ! i)) AND QENAB = q_flag (sqs st ! i) AND QENAB"
      "q_flag (f (sqs st ! i)) AND QREADR = q_flag (sqs st ! i) AND QREADR"
    and same: "q_next (f (sqs st ! i)) = q_next (sqs st ! i)" "qi_srvp (f (sqs st ! i)) = qi_srvp (sqs st ! i)"
  shows "strst_ok (upd_q i f st)"
proof -
  have "apart (upd_q i f st)"
    using strst_okD(3) [OF ok] i new unfolding apart_def on_queue_def
    by (auto simp: upd_q_at) blast+
  moreover have "run_ok (upd_q i f st)"
    using strst_okD(4) [OF ok] i flags(1) same unfolding run_ok_def by (auto simp: upd_q_at)
  moreover have "links_ok (upd_q i f st)"
    using strst_okD(5) [OF ok] i flags(2) same unfolding links_ok_def by (auto simp: upd_q_at)
  moreover have "\<forall>j<length (sqs st). queue_ok (smsgs st) (sqs (upd_q i f st) ! j)"
    using strst_okD(2) [OF ok] i q by (auto simp: upd_q_at)
  ultimately show ?thesis using strst_okD(1) [OF ok] by (simp add: strst_ok_def)
qed

lemma queue_ok_flags:
  assumes "queue_ok ms q" and "q_msgs q' = q_msgs q" "q_nband q' = q_nband q" "q_bandp q' = q_bandp q" "q_count q' = q_count q"
    "q_hiwat q' = q_hiwat q" "q_flag q' AND QFULL = q_flag q AND QFULL"
  shows "queue_ok ms q'"
  using assms by (simp add: queue_ok_def bands_ok_def)

lemma bit_apart:
  "QENAB AND QFULL = 0" "QWANTR AND QFULL = 0" "QWANTW AND QFULL = 0" "QBACK AND QFULL = 0" "QNOENB AND QFULL = 0" "QREADR AND QFULL = 0"
  "QFULL AND QENAB = 0" "QFULL AND QREADR = 0" "QFULL AND QWANTR = 0" "QFULL AND QWANTW = 0"
  "QWANTR AND QENAB = 0" "QWANTR AND QREADR = 0" "QWANTW AND QENAB = 0" "QWANTW AND QREADR = 0"
  "QBACK AND QENAB = 0" "QBACK AND QREADR = 0" "QNOENB AND QENAB = 0" "QNOENB AND QREADR = 0" "QENAB AND QREADR = 0"
  "QB_BACK AND QB_FULL = 0" "QB_WANTW AND QB_FULL = 0" "QB_FULL AND QB_WANTW = 0"
  "QBACK AND QWANTW = 0" "QENAB AND QWANTW = 0" "QENAB AND QBACK = 0" "QWANTR AND QWANTW = 0"
  by (simp_all add: q_bits)

lemma strst_ok_set_qflag:
  assumes ok: "strst_ok st" and i: "i < length (sqs st)" and b: "b AND QFULL = 0" "b AND QENAB = 0" "b AND QREADR = 0"
  shows "strst_ok (upd_q i (set_qflag b) st)" "strst_ok (upd_q i (clear_qflag b) st)"
proof -
  have q: "queue_ok (smsgs st) (set_qflag b (sqs st ! i))" "queue_ok (smsgs st) (clear_qflag b (sqs st ! i))"
    by (rule queue_ok_flags [OF strst_okD(2) [OF ok i]]; simp add: b and_or_disjoint and_and_not)+
  show "strst_ok (upd_q i (set_qflag b) st)" "strst_ok (upd_q i (clear_qflag b) st)"
    by (rule strst_ok_upd [where f = "set_qflag b", OF ok i q(1)]; simp add: b and_or_disjoint)
      (rule strst_ok_upd [where f = "clear_qflag b", OF ok i q(2)]; simp add: b and_and_not)
qed

lemma queue_ok_band_flag:
  assumes q: "queue_ok ms q" and pri: "0 < pri" "pri \<le> q_nband q" and b: "b AND QB_FULL = 0"
  shows "queue_ok ms (upd_band pri (set_bflag b) q)" "queue_ok ms (upd_band pri (clear_bflag b) q)"
proof -
  have bd: "bands_ok ms (q_msgs q) q" using q by (simp add: queue_ok_def)
  have s: "band_ok ms (in_band ms pri (q_msgs q)) (set_bflag b (q_bandp q ! (unat pri - 1)))"
    using band_okD [OF bd pri] b by (simp add: band_ok_def and_or_disjoint)
  have c: "band_ok ms (in_band ms pri (q_msgs q)) (clear_bflag b (q_bandp q ! (unat pri - 1)))"
    using band_okD [OF bd pri] b by (simp add: band_ok_def and_and_not)
  have "bands_ok ms (q_msgs q) (upd_band pri (set_bflag b) q)"
    by (rule bands_ok_band [OF bd pri refl _ _ _ _ _ s]) simp_all
  then show "queue_ok ms (upd_band pri (set_bflag b) q)" using q by (simp add: queue_ok_def)
  have "bands_ok ms (q_msgs q) (upd_band pri (clear_bflag b) q)"
    by (rule bands_ok_band [OF bd pri refl _ _ _ _ _ c]) simp_all
  then show "queue_ok ms (upd_band pri (clear_bflag b) q)" using q by (simp add: queue_ok_def)
qed

section \<open>Scheduling and bands\<close>

text \<open>What the queues hold is as before.\<close>

definition keeps :: "strst \<Rightarrow> strst \<Rightarrow> bool" where
  "keeps st st' \<longleftrightarrow> strst_ok st' \<and> qchains st' = qchains st \<and> smsgs st' = smsgs st \<and> sfreed st' = sfreed st"

lemma keepsD:
  assumes "keeps st st'"
  shows "strst_ok st'" "qchains st' = qchains st" "smsgs st' = smsgs st" "sfreed st' = sfreed st" "length (sqs st') = length (sqs st)"
proof -
  show c: "qchains st' = qchains st" using assms by (simp add: keeps_def)
  show "length (sqs st') = length (sqs st)" using arg_cong [OF c, of length] by (simp add: qchains_def)
qed (use assms in \<open>simp_all add: keeps_def\<close>)

lemma keeps_refl: "strst_ok st \<Longrightarrow> keeps st st"
  by (simp add: keeps_def)

lemma keeps_trans: "keeps st st1 \<Longrightarrow> keeps st1 st2 \<Longrightarrow> keeps st st2"
  by (simp add: keeps_def)

lemma qchains_nth: "i < length (sqs st) \<Longrightarrow> qchains st ! i = q_msgs (sqs st ! i)"
  by (simp add: qchains_def)

lemma keeps_msgs:
  assumes "keeps st st'" "i < length (sqs st)"
  shows "q_msgs (sqs st' ! i) = q_msgs (sqs st ! i)"
  using keepsD(2,5) [OF assms(1)] assms(2) qchains_nth [of i st] qchains_nth [of i st'] by simp

lemma strst_ok_core:
  assumes "strst_ok st" "sqs st' = sqs st" "smsgs st' = smsgs st" "qrun st' = qrun st"
  shows "strst_ok st'"
  using assms by (simp add: strst_ok_def apart_def run_ok_def links_ok_def)

lemma keeps_flag:
  assumes "strst_ok st" "i < length (sqs st)" "b AND QFULL = 0" "b AND QENAB = 0" "b AND QREADR = 0"
  shows "keeps st (upd_q i (set_qflag b) st)" "keeps st (upd_q i (clear_qflag b) st)"
  using strst_ok_set_qflag [OF assms] by (simp_all add: keeps_def qchains_same)

lemma qenable_keeps:
  assumes ok: "strst_ok st" and i: "i < length (sqs st)"
  shows "keeps st (qenable i st)" "qi_srvp (sqs st ! i) \<Longrightarrow> i \<in> set (qrun (qenable i st))"
proof -
  have run: "run_ok st" by (rule strst_okD(4) [OF ok])
  consider "\<not> qi_srvp (sqs st ! i)" | "qi_srvp (sqs st ! i)" "q_flag (sqs st ! i) AND QENAB \<noteq> 0"
    | "qi_srvp (sqs st ! i)" "q_flag (sqs st ! i) AND QENAB = 0" by blast
  then have "keeps st (qenable i st) \<and> (qi_srvp (sqs st ! i) \<longrightarrow> i \<in> set (qrun (qenable i st)))"
  proof cases
    case 3
    let ?st1 = "upd_q i (set_qflag QENAB) st"
    have e: "qenable i st = ?st1\<lparr>qrun := qrun st @ [i], qrunflag := True\<rparr>" using 3 by (simp add: qenable_def)
    have new: "i \<notin> set (qrun st)" using run i 3 by (simp add: run_ok_def)
    have "run_ok (qenable i st)"
      unfolding run_ok_def e using run i 3 new
      by (auto simp: run_ok_def upd_q_at and_or_same and_or_disjoint q_bits)
    moreover have "links_ok (qenable i st)"
      unfolding links_ok_def e using strst_okD(5) [OF ok] i
      by (auto simp: links_ok_def upd_q_at and_or_disjoint bit_apart)
    moreover have "\<forall>j<length (sqs st). queue_ok (smsgs st) (sqs (qenable i st) ! j)"
      using strst_okD(2) [OF ok] i queue_ok_flags [OF strst_okD(2) [OF ok i], of "set_qflag QENAB (sqs st ! i)"]
      by (auto simp: e upd_q_at and_or_disjoint bit_apart)
    moreover have "apart (qenable i st)"
      using strst_okD(3) [OF ok] i by (auto simp: apart_def e upd_q_at)
    moreover have "qchains (qenable i st) = qchains st"
      using qchains_same [of "set_qflag QENAB" st i] by (simp add: e qchains_def)
    ultimately show ?thesis using strst_okD(1) [OF ok] by (simp add: keeps_def strst_ok_def e)
  qed (use run i ok in \<open>auto simp: qenable_def keeps_refl run_ok_def\<close>)
  then show "keeps st (qenable i st)" "qi_srvp (sqs st ! i) \<Longrightarrow> i \<in> set (qrun (qenable i st))" by simp_all
qed

lemma need_band_keeps:
  assumes ok: "strst_ok st" and i: "i < length (sqs st)" and r: "need_band i pri st = (b, st')"
  shows "keeps st st'" "b \<Longrightarrow> pri \<le> q_nband (sqs st' ! i)" "qrun st' = qrun st" "qrunflag st' = qrunflag st"
    "j \<noteq> i \<Longrightarrow> sqs st' ! j = sqs st ! j" "q_flag (sqs st' ! i) = q_flag (sqs st ! i)"
    "pri \<le> q_nband (sqs st ! i) \<Longrightarrow> b \<and> st' = st" "qi_srvp (sqs st' ! i) = qi_srvp (sqs st ! i)"
    "q_next (sqs st' ! i) = q_next (sqs st ! i)" "q_count (sqs st' ! i) = q_count (sqs st ! i)"
    "\<exists>bs. q_bandp (sqs st' ! i) = q_bandp (sqs st ! i) @ bs"
proof -
  obtain q st1 where l: "band_loop pri (sqs st ! i) st = (b, q, st1)"
    using r by (auto simp: need_band_def split: prod.splits)
  have st': "st' = upd_q i (\<lambda>_. q) st1" using r l by (simp add: need_band_def)
  note q = band_loop_ok [OF l strst_okD(2) [OF ok i]]
  have ok1: "strst_ok st1" by (rule strst_ok_core [OF ok]) (use q in simp_all)
  have "strst_ok st'"
    unfolding st' by (rule strst_ok_upd [OF ok1]) (use q i in simp_all)
  then show "keeps st st'" using q by (simp add: keeps_def st' qchains_same) (simp add: qchains_def)
  show "b \<Longrightarrow> pri \<le> q_nband (sqs st' ! i)" "qrun st' = qrun st" "qrunflag st' = qrunflag st"
    "j \<noteq> i \<Longrightarrow> sqs st' ! j = sqs st ! j" "q_flag (sqs st' ! i) = q_flag (sqs st ! i)"
    "qi_srvp (sqs st' ! i) = qi_srvp (sqs st ! i)" "q_next (sqs st' ! i) = q_next (sqs st ! i)"
    "q_count (sqs st' ! i) = q_count (sqs st ! i)"
    "\<exists>bs. q_bandp (sqs st' ! i) = q_bandp (sqs st ! i) @ bs"
    using q i by (simp_all add: st')
  show "pri \<le> q_nband (sqs st ! i) \<Longrightarrow> b \<and> st' = st"
    using q by (simp add: st' upd_q_def)
qed

lemma upd_band_keeps:
  assumes ok: "strst_ok st" and i: "i < length (sqs st)" and pri: "0 < pri" "pri \<le> q_nband (sqs st ! i)" and b: "b AND QB_FULL = 0"
  shows "keeps st (upd_q i (upd_band pri (set_bflag b)) st)" "keeps st (upd_q i (upd_band pri (clear_bflag b)) st)"
proof -
  note q = queue_ok_band_flag [OF strst_okD(2) [OF ok i] pri b]
  have "strst_ok (upd_q i (upd_band pri (set_bflag b)) st)"
    by (rule strst_ok_upd [where f = "upd_band pri (set_bflag b)", OF ok i q(1)]) simp_all
  then show "keeps st (upd_q i (upd_band pri (set_bflag b)) st)" by (simp add: keeps_def qchains_same)
  have "strst_ok (upd_q i (upd_band pri (clear_bflag b)) st)"
    by (rule strst_ok_upd [where f = "upd_band pri (clear_bflag b)", OF ok i q(2)]) simp_all
  then show "keeps st (upd_q i (upd_band pri (clear_bflag b)) st)" by (simp add: keeps_def qchains_same)
qed

lemma setqback_keeps:
  assumes ok: "strst_ok st" and i: "i < length (sqs st)"
  shows "keeps st (setqback i pri st)" "qrun (setqback i pri st) = qrun st"
    "qi_srvp (sqs (setqback i pri st) ! j) = qi_srvp (sqs st ! j)" "q_next (sqs (setqback i pri st) ! j) = q_next (sqs st ! j)"
    "j \<noteq> i \<Longrightarrow> sqs (setqback i pri st) ! j = sqs st ! j"
proof -
  have "keeps st (setqback i pri st) \<and> qrun (setqback i pri st) = qrun st \<and>
    qi_srvp (sqs (setqback i pri st) ! j) = qi_srvp (sqs st ! j) \<and> q_next (sqs (setqback i pri st) ! j) = q_next (sqs st ! j) \<and>
    (j \<noteq> i \<longrightarrow> sqs (setqback i pri st) ! j = sqs st ! j)"
  proof (cases "pri = 0")
    case True
    then show ?thesis using keeps_flag(1) [OF ok i, of QBACK] i by (simp add: setqback_def bit_apart upd_q_at)
  next
    case False
    obtain b st1 where r: "need_band i pri st = (b, st1)" by (cases "need_band i pri st")
    note n = need_band_keeps [OF ok i r] and k = keepsD [OF need_band_keeps(1) [OF ok i r]]
    have 0: "0 < pri" using False by (simp add: word_gt_0)
    show ?thesis
    proof (cases b)
      case True
      have "keeps st1 (upd_q i (upd_band pri (set_bflag QB_BACK)) st1)"
        using upd_band_keeps(1) [OF k(1) _ 0 n(2) [OF True]] i k(5) by (simp add: bit_apart)
      then have "keeps st (upd_q i (upd_band pri (set_bflag QB_BACK)) st1)" by (rule keeps_trans [OF n(1)])
      then show ?thesis using False r True n(3,5,8,9) i k(5) by (cases "j = i") (simp_all add: setqback_def upd_q_at)
    next
      case b: False
      then show ?thesis using False r n by (cases "j = i") (simp_all add: setqback_def)
    qed
  qed
  then show "keeps st (setqback i pri st)" "qrun (setqback i pri st) = qrun st"
    "qi_srvp (sqs (setqback i pri st) ! j) = qi_srvp (sqs st ! j)" "q_next (sqs (setqback i pri st) ! j) = q_next (sqs st ! j)"
    "j \<noteq> i \<Longrightarrow> sqs (setqback i pri st) ! j = sqs st ! j"
    by simp_all
qed


section \<open>Enabling the queue behind\<close>

lemma otherq_range: "links_ok st \<Longrightarrow> q < length (sqs st) \<Longrightarrow> otherq st q < length (sqs st)"
  by (auto simp: links_ok_def otherq_def elim!: evenE)

lemma backq_range:
  assumes "links_ok st" "q < length (sqs st)" "backq st q = Some p"
  shows "p < length (sqs st)"
proof -
  obtain n where n: "q_next (sqs st ! otherq st q) = Some n" "p = otherq st n"
    using assms(3) by (auto simp: backq_def split: option.splits)
  have "n < length (sqs st)" using otherq_range [OF assms(1,2)] assms(1) n(1) by (auto simp: links_ok_def)
  then show ?thesis using n(2) otherq_range [OF assms(1)] by simp
qed

lemma back_srv_range:
  assumes "back_srv st q = Some r" "links_ok st" "q < length (sqs st)" "r = Some p"
  shows "p < length (sqs st) \<and> qi_srvp (sqs st ! p)"
proof -
  have "links_ok st \<longrightarrow> q < length (sqs st) \<longrightarrow> r = Some p \<longrightarrow> p < length (sqs st) \<and> qi_srvp (sqs st ! p)"
  proof (rule back_srv.raw_induct [OF _ assms(1)])
    fix srv st q r
    assume IH: "\<And>st q r. srv st q = Some r \<Longrightarrow>
        links_ok st \<longrightarrow> q < length (sqs st) \<longrightarrow> r = Some p \<longrightarrow> p < length (sqs st) \<and> qi_srvp (sqs st ! p)"
      and r: "(case backq st q of None \<Rightarrow> Some None | Some p \<Rightarrow> if qi_srvp (sqs st ! p) then Some (Some p) else srv st p) = Some r"
    show "links_ok st \<longrightarrow> q < length (sqs st) \<longrightarrow> r = Some p \<longrightarrow> p < length (sqs st) \<and> qi_srvp (sqs st ! p)"
    proof (cases "backq st q")
      case None
      then show ?thesis using r by simp
    next
      case (Some x)
      then show ?thesis using r backq_range [of st q x] IH [of st x r] by (auto split: if_splits)
    qed
  qed
  then show ?thesis using assms(2-4) by blast
qed

text \<open>The walk ends when the stream is not circular.\<close>

definition acyclic_streams :: "strst \<Rightarrow> bool" where
  "acyclic_streams st \<longleftrightarrow> acyclic {(p, q). q < length (sqs st) \<and> backq st q = Some p}"

lemma back_srv_returns:
  assumes ok: "links_ok st" and ac: "acyclic_streams st" and q: "q < length (sqs st)"
  shows "\<exists>r. back_srv st q = Some r"
proof -
  let ?R = "{(p, q). q < length (sqs st) \<and> backq st q = Some p}"
  have "?R \<subseteq> {..<length (sqs st)} \<times> {..<length (sqs st)}" using backq_range [OF ok] by auto
  then have "finite ?R" by (rule finite_subset) simp
  then have "wf ?R" using ac finite_acyclic_wf unfolding acyclic_streams_def by blast
  then show ?thesis using q
  proof (induction q rule: wf_induct_rule)
    case (less q)
    show ?case
    proof (cases "backq st q")
      case None
      then show ?thesis by (subst back_srv.simps) simp
    next
      case (Some p)
      have "\<exists>r. back_srv st p = Some r" using less.IH [of p] less.prems Some backq_range [OF ok less.prems Some] by simp
      then show ?thesis using Some by (subst back_srv.simps) auto
    qed
  qed
qed

lemma clear_want_keeps:
  assumes ok: "strst_ok st" and i: "i < length (sqs st)" and pri: "pri \<le> q_nband (sqs st ! i)"
  shows "keeps st (clear_want i pri st)"
proof (cases "pri = 0")
  case True
  then show ?thesis using keeps_flag(2) [OF ok i, of QWANTW] by (simp add: clear_want_def bit_apart)
next
  case False
  then have "0 < pri" by (simp add: word_gt_0)
  then show ?thesis using upd_band_keeps(2) [OF ok i _ pri, of QB_WANTW] False by (simp add: clear_want_def bit_apart)
qed

lemma links_same:
  assumes "length (sqs st') = length (sqs st)" "\<And>j. j < length (sqs st) \<Longrightarrow> q_next (sqs st' ! j) = q_next (sqs st ! j)"
    "\<And>j. j < length (sqs st) \<Longrightarrow> q_flag (sqs st' ! j) AND QREADR = q_flag (sqs st ! j) AND QREADR"
    and l: "links_ok st" and q: "q < length (sqs st)"
  shows "otherq st' q = otherq st q" "backq st' q = backq st q"
proof -
  show o: "otherq st' q = otherq st q" using assms by (simp add: otherq_def)
  show "backq st' q = backq st q"
  proof (cases "q_next (sqs st ! otherq st q)")
    case None
    then show ?thesis using assms(2) otherq_range [OF l q] by (simp add: backq_def o)
  next
    case (Some n)
    then have "n < length (sqs st)" using l otherq_range [OF l q] by (auto simp: links_ok_def)
    then show ?thesis using assms(2) otherq_range [OF l q] Some assms(3) by (simp add: backq_def o) (simp add: otherq_def)
  qed
qed

text \<open>\<open>back_enable\<close> keeps what the queues hold, and enables a queue with a service procedure if one is found.\<close>

lemma back_enable_keeps:
  assumes ok: "strst_ok st" and i: "i < length (sqs st)" and pri: "pri \<le> q_nband (sqs st ! i)"
    and r: "back_enable i pri st = Some st'"
  shows "keeps st st'" "back_srv (clear_want i pri st) i = Some (Some p) \<Longrightarrow> p \<in> set (qrun st')"
    "j \<noteq> i \<Longrightarrow> back_srv (clear_want i pri st) i \<noteq> Some (Some j) \<Longrightarrow> sqs st' ! j = sqs st ! j"
proof -
  let ?st1 = "clear_want i pri st"
  have k: "keeps st ?st1" by (rule clear_want_keeps [OF ok i pri])
  note k1 = keepsD [OF k]
  have other: "j \<noteq> i \<Longrightarrow> sqs ?st1 ! j = sqs st ! j" by (simp add: clear_want_def)
  have "keeps st st' \<and> (\<forall>p. back_srv ?st1 i = Some (Some p) \<longrightarrow> p \<in> set (qrun st')) \<and>
    (j \<noteq> i \<longrightarrow> back_srv ?st1 i \<noteq> Some (Some j) \<longrightarrow> sqs st' ! j = sqs st ! j)"
  proof (cases "back_srv ?st1 i")
    case None
    then show ?thesis using r by (simp add: back_enable_def Let_def)
  next
    case (Some p')
    show ?thesis
    proof (cases p')
      case None
      then show ?thesis using r Some k other by (simp add: back_enable_def Let_def)
    next
      case p': (Some p)
      have p: "p < length (sqs ?st1) \<and> qi_srvp (sqs ?st1 ! p)"
        by (rule back_srv_range [OF Some strst_okD(5) [OF k1(1)] _ p']) (use i k1(5) in simp)
      note e = qenable_keeps [OF k1(1), of p]
      have e1: "keeps ?st1 (qenable p ?st1)" "p \<in> set (qrun (qenable p ?st1))" using e p by simp_all
      note s = setqback_keeps [OF keepsD(1) [OF e1(1)], of p]
      have pl: "p < length (sqs (qenable p ?st1))" using p keepsD(5) [OF e1(1)] by simp
      have st': "st' = setqback p pri (qenable p ?st1)" using r Some p' by (simp add: back_enable_def Let_def)
      have "keeps st st'" unfolding st' by (rule keeps_trans [OF k keeps_trans [OF e1(1) s(1) [OF pl]]])
      moreover have "j \<noteq> p \<Longrightarrow> sqs (qenable p ?st1) ! j = sqs ?st1 ! j" by (simp add: qenable_def)
      ultimately show ?thesis using Some p' e1(2) s(2,5) [OF pl] other by (simp add: st')
    qed
  qed
  then show "keeps st st'" "back_srv ?st1 i = Some (Some p) \<Longrightarrow> p \<in> set (qrun st')"
    "j \<noteq> i \<Longrightarrow> back_srv ?st1 i \<noteq> Some (Some j) \<Longrightarrow> sqs st' ! j = sqs st ! j"
    by blast+
qed


section \<open>Taking off\<close>

lemma drain_enable_keeps:
  assumes "strst_ok st" "i < length (sqs st)" "pri \<le> q_nband (sqs st ! i)" "drain_enable i pri st = Some st'"
  shows "keeps st st'"
  using assms back_enable_keeps(1) [OF assms(1-3)] by (auto simp: drain_enable_def keeps_refl split: if_splits)

lemma rmvq_take_links:
  assumes "q_msgs q = X @ m # Y" "m \<notin> set X"
  shows "q_next (rmvq_take st m q) = q_next q" "qi_srvp (rmvq_take st m q) = qi_srvp q"
    "b AND QFULL = 0 \<Longrightarrow> q_flag (rmvq_take st m q) AND b = q_flag q AND b"
  using count_flags(1) by (simp_all add: rmvq_take_split [OF assms] credit_def)

lemma on_queueI: "i < length (sqs st) \<Longrightarrow> m \<in> set (q_msgs (sqs st ! i)) \<Longrightarrow> on_queue st m"
  by (auto simp: on_queue_def)

lemma rmvq_taken:
  assumes ok: "strst_ok st" and i: "i < length (sqs st)" and xs: "q_msgs (sqs st ! i) = X @ m # Y"
  shows "strst_ok (upd_q i (rmvq_take st m) st)" "qchains (upd_q i (rmvq_take st m) st) = (qchains st)[i := X @ Y]"
    "b_band (mb st m) \<le> q_nband (sqs (upd_q i (rmvq_take st m) st) ! i)"
proof -
  have q: "queue_ok (smsgs st) (sqs st ! i)" by (rule strst_okD(2) [OF ok i])
  have ch: "chain_ok (smsgs st) (q_nband (sqs st ! i)) (X @ m # Y)" using q xs by (simp add: queue_ok_def)
  then have m: "m \<notin> set X" by (auto simp: chain_ok_def)
  note t = rmvq_take_ok [OF q xs] and l = rmvq_take_links [OF xs m, where st = st]
  show "strst_ok (upd_q i (rmvq_take st m) st)"
  proof (rule strst_ok_upd [where f = "rmvq_take st m", OF ok i t(1)])
    show "x \<in> set (q_msgs (rmvq_take st m (sqs st ! i))) \<Longrightarrow> x \<in> set (q_msgs (sqs st ! i)) \<or> \<not> on_queue st x" for x
      using t(2) xs by auto
  qed (use l bit_apart in \<open>simp_all add: and.commute [of QFULL]\<close>)
  show "qchains (upd_q i (rmvq_take st m) st) = (qchains st)[i := X @ Y]" using t(2) by (simp add: qchains_upd)
  show "b_band (mb st m) \<le> q_nband (sqs (upd_q i (rmvq_take st m) st) ! i)"
    using t(3) i ch by (simp add: chain_ok_def mb_def)
qed

lemma rmvq_ok:
  assumes ok: "strst_ok st" and i: "i < length (sqs st)" and xs: "q_msgs (sqs st ! i) = X @ m # Y"
    and r: "rmvq i m st = Some st'"
  shows "strst_ok st' \<and> qchains st' = (qchains st)[i := X @ Y] \<and> smsgs st' = smsgs st \<and> sfreed st' = sfreed st"
proof -
  note t = rmvq_taken [OF ok i xs]
  have "keeps (upd_q i (rmvq_take st m) st) st'"
    by (rule drain_enable_keeps [OF t(1) _ t(3)]) (use i r in \<open>simp_all add: rmvq_def\<close>)
  note k = keepsD [OF this]
  show ?thesis using k t(2) by simp
qed

text \<open>\<open>getq\<close> is \<open>rmvq\<close> of the head, after the wish to read is cleared.\<close>

lemma rmvq_take_clear:
  assumes "q_msgs q = X @ m # Y" "m \<notin> set X"
  shows "rmvq_take st m (clear_qflag QWANTR q) = clear_qflag QWANTR (rmvq_take st m q)"
proof -
  let ?Q = "(if b_band (mb st m) \<noteq> 0 then upd_band (b_band (mb st m)) (rmvq_ptrs st (length X) (X @ m # Y)) q else q)\<lparr>q_msgs := X @ Y\<rparr>"
  have "credit (mb st m) (clear_qflag QWANTR ?Q) = clear_qflag QWANTR (credit (mb st m) ?Q)"
    by (auto simp: credit_def clear_qflag_def upd_band_def credit_queue_def Let_def ac_simps)
  moreover have "(if b_band (mb st m) \<noteq> 0 then upd_band (b_band (mb st m)) (rmvq_ptrs st (length X) (X @ m # Y)) (clear_qflag QWANTR q)
      else clear_qflag QWANTR q)\<lparr>q_msgs := X @ Y\<rparr> = clear_qflag QWANTR ?Q"
    by (simp add: clear_qflag_def upd_band_def)
  ultimately show ?thesis
    using rmvq_take_split [OF assms, of st] rmvq_take_split [of "clear_qflag QWANTR q" X m Y st] assms by simp
qed

lemma getq_rmvq:
  assumes ok: "strst_ok st" and i: "i < length (sqs st)" and xs: "q_msgs (sqs st ! i) = bp # Y"
    and get: "b_flag (mb st bp) AND MSGNOGET = 0"
  shows "getq i st = map_option (Pair (Some bp)) (rmvq i bp (upd_q i (clear_qflag QWANTR) st))"
proof -
  have "getq_take (mb st bp) (sqs st ! i) = rmvq_take st bp (clear_qflag QWANTR (sqs st ! i))"
    using getq_take_eq [OF strst_okD(2) [OF ok i] xs] rmvq_take_clear [of "sqs st ! i" "[]" bp Y st] xs by simp
  moreover have "rmvq_take (upd_q i (clear_qflag QWANTR) st) bp q = rmvq_take st bp q" for q
    by (simp add: rmvq_take_def mb_def rmvq_ptrs_def [abs_def] cong: if_cong)
  ultimately have "upd_q i (getq_take (mb st bp)) st = upd_q i (rmvq_take (upd_q i (clear_qflag QWANTR) st) bp) (upd_q i (clear_qflag QWANTR) st)"
    using i by (simp add: upd_q_def)
  then show ?thesis using xs get by (simp add: getq_def rmvq_def mb_def)
qed

lemma find_split: "\<forall>a\<in>set xs. \<not> P a \<Longrightarrow> P x \<Longrightarrow> find P (xs @ x # ys) = Some x"
  by (induction xs) auto

lemma getq_ok:
  assumes ok: "strst_ok st" and i: "i < length (sqs st)" and r: "getq i st = Some (bp, st')"
  shows "bp = find (\<lambda>m. b_flag (mb st m) AND MSGNOGET = 0) (q_msgs (sqs st ! i)) \<and> strst_ok st' \<and>
    qchains st' = (case bp of None \<Rightarrow> qchains st | Some m \<Rightarrow> (qchains st)[i := remove1 m (q_msgs (sqs st ! i))]) \<and>
    smsgs st' = smsgs st \<and> sfreed st' = sfreed st"
proof (cases "q_msgs (sqs st ! i)")
  case Nil
  let ?st1 = "upd_q i (set_qflag QWANTR) st"
  have k1: "keeps st ?st1" by (rule keeps_flag(1) [OF ok i]) (simp_all add: bit_apart)
  have "keeps ?st1 st'" "bp = None"
    using r Nil back_enable_keeps(1) [OF keepsD(1) [OF k1], of i 0 st'] keeps_refl [OF keepsD(1) [OF k1]] i
    by (auto simp: getq_def Let_def split: if_splits)
  then show ?thesis using keepsD [OF keeps_trans [OF k1]] Nil by simp
next
  case (Cons m Y)
  show ?thesis
  proof (cases "b_flag (mb st m) AND MSGNOGET = 0")
    case True
    have k1: "keeps st (upd_q i (clear_qflag QWANTR) st)" by (rule keeps_flag(2) [OF ok i]) (simp_all add: bit_apart)
    note k = keepsD [OF k1]
    have rm: "rmvq i m (upd_q i (clear_qflag QWANTR) st) = Some st'" and bp: "bp = Some m"
      using r getq_rmvq [OF ok i Cons True] by auto
    have "strst_ok st' \<and> qchains st' = (qchains st)[i := [] @ Y] \<and> smsgs st' = smsgs st \<and> sfreed st' = sfreed st"
      using rmvq_ok [OF k(1) _ _ rm, of "[]" Y] i Cons k by simp
    then show ?thesis using True Cons bp by simp
  next
    case False
    let ?P = "\<lambda>m. b_flag (mb st m) AND MSGNOGET \<noteq> 0"
    show ?thesis
    proof (cases "dropWhile ?P (m # Y)")
      case Nil
      then have "find (\<lambda>m. b_flag (mb st m) AND MSGNOGET = 0) (m # Y) = None"
        by (auto simp: find_None_iff dropWhile_eq_Nil_conv)
      moreover have "getq i st = Some (None, st)"
        using Nil Cons False by (simp add: getq_def del: dropWhile_eq_Nil_conv)
      ultimately show ?thesis using r Cons ok by simp
    next
      case d: (Cons x Z)
      define A where "A = takeWhile ?P (m # Y)"
      have split: "q_msgs (sqs st ! i) = A @ x # Z"
        using takeWhile_dropWhile_id [of ?P "m # Y"] d Cons by (simp only: A_def)
      have A: "\<forall>a\<in>set A. ?P a" unfolding A_def by (auto dest: set_takeWhileD)
      have x: "\<not> ?P x" using d by (meson dropWhile_eq_Cons_conv)
      have rm: "rmvq i x st = Some st'" and bp: "bp = Some x" using r Cons False d by (auto simp: getq_def)
      have "find (\<lambda>m. b_flag (mb st m) AND MSGNOGET = 0) (A @ x # Z) = Some x"
        by (rule find_split) (use A x in auto)
      moreover have "remove1 x (A @ x # Z) = A @ Z" using A x by (auto simp: remove1_append)
      ultimately show ?thesis using rmvq_ok [OF ok i split rm] split bp by simp
    qed
  qed
qed


section \<open>Putting on\<close>

lemma chain_ok_cong:
  assumes "length ms' = length ms" "\<And>m. m \<in> set xs \<Longrightarrow> ms' ! m = ms ! m"
  shows "chain_ok ms' nb xs = chain_ok ms nb xs"
proof -
  have "sorted_wrt (\<lambda>a b. prio (ms' ! b) \<le> prio (ms' ! a)) xs = sorted_wrt (\<lambda>a b. prio (ms ! b) \<le> prio (ms ! a)) xs"
    using assms(2) by (metis (no_types, lifting) sorted_wrt_mono_rel)
  then show ?thesis using assms by (simp add: chain_ok_def)
qed

lemma queue_ok_cong:
  assumes "length ms' = length ms" "\<And>m. m \<in> set (q_msgs q) \<Longrightarrow> ms' ! m = ms ! m"
  shows "queue_ok ms' q = queue_ok ms q"
proof -
  have ib: "in_band ms' p (q_msgs q) = in_band ms p (q_msgs q)" for p
    unfolding in_band_def using assms(2) by (intro filter_cong) simp_all
  have bo: "bytes_of ms' xs = bytes_of ms xs" if "set xs \<subseteq> set (q_msgs q)" for xs
  proof -
    have "map (\<lambda>m. msize (ms' ! m)) xs = map (\<lambda>m. msize (ms ! m)) xs" using assms(2) that by (intro map_cong) auto
    then show ?thesis by (simp only: bytes_of_def)
  qed
  have "set (in_band ms p (q_msgs q)) \<subseteq> set (q_msgs q)" for p by (auto simp: in_band_def)
  then show ?thesis
    using chain_ok_cong [OF assms] bo by (simp add: queue_ok_def bands_ok_def band_ok_def ib)
qed

lemma force_band_mb:
  assumes "bp < length (smsgs st)"
  shows "sqs (force_band bp st) = sqs st" "qrun (force_band bp st) = qrun st" "sfreed (force_band bp st) = sfreed st"
    "length (smsgs (force_band bp st)) = length (smsgs st)" "m \<noteq> bp \<Longrightarrow> mb (force_band bp st) m = mb st m"
    "mblk_ok (mb (force_band bp st) bp)" "db_type (mb (force_band bp st) m) = db_type (mb st m)"
    "b_flag (mb (force_band bp st) m) = b_flag (mb st m)" "msize (mb (force_band bp st) m) = msize (mb st m)"
    "prio (mb (force_band bp st) m) = prio (mb st m)"
  using assms queclass_le(3)
  by (auto simp: force_band_def mb_def mblk_ok_def prio_def msize_def nth_list_update queclass_def)

lemma force_band_ok:
  assumes ok: "strst_ok st" and bp: "bp < length (smsgs st)" "\<not> on_queue st bp"
  shows "strst_ok (force_band bp st)"
proof -
  note f = force_band_mb [OF bp(1)]
  have s: "smsgs (force_band bp st) ! m = smsgs st ! m" if "m \<noteq> bp" for m using f(5) [OF that] by (simp add: mb_def)
  have "queue_ok (smsgs (force_band bp st)) (sqs st ! i)" if "i < length (sqs st)" for i
  proof -
    have "bp \<notin> set (q_msgs (sqs st ! i))" using bp(2) that by (auto simp: on_queue_def)
    then show ?thesis
      using strst_okD(2) [OF ok that] queue_ok_cong [of "smsgs (force_band bp st)" "smsgs st" "sqs st ! i"] f(4) s by metis
  qed
  moreover have "map msize (smsgs (force_band bp st)) = map msize (smsgs st)"
    using f(4,9) by (intro nth_equalityI) (simp_all add: mb_def)
  ultimately show ?thesis
    using ok f by (simp add: strst_ok_def mem_ok_def apart_def run_ok_def links_ok_def)
qed

lemma band_for_ok:
  assumes ok: "strst_ok st" and i: "i < length (sqs st)" and bp: "bp < length (smsgs st)" "\<not> on_queue st bp"
    and r: "band_for i bp st = (b, st')"
  shows "keeps (force_band bp st) st'" "smsgs st' = smsgs (force_band bp st)" "qchains st' = qchains st"
    "b \<Longrightarrow> b_band (mb st' bp) \<le> q_nband (sqs st' ! i)"
    "b_band (mb (force_band bp st) bp) \<le> q_nband (sqs st ! i) \<Longrightarrow> b"
proof -
  let ?st1 = "force_band bp st"
  note f = force_band_mb [OF bp(1)] and ok1 = force_band_ok [OF ok bp]
  have i1: "i < length (sqs ?st1)" using i f(1) by simp
  have "keeps ?st1 st' \<and> (b \<longrightarrow> b_band (mb st' bp) \<le> q_nband (sqs st' ! i)) \<and>
    (b_band (mb ?st1 bp) \<le> q_nband (sqs st ! i) \<longrightarrow> b)"
  proof (cases "b_band (mb ?st1 bp) = 0")
    case True
    then show ?thesis using r keeps_refl [OF ok1] by (auto simp: band_for_def Let_def)
  next
    case False
    then have n: "need_band i (b_band (mb ?st1 bp)) ?st1 = (b, st')" using r by (simp add: band_for_def Let_def)
    note nb = need_band_keeps [OF ok1 i1 n]
    have "mb st' = mb ?st1" using keepsD(3) [OF nb(1)] by (simp add: mb_def fun_eq_iff)
    then show ?thesis using nb(1,2,7) f(1) by auto
  qed
  then show "keeps ?st1 st'" "b \<Longrightarrow> b_band (mb st' bp) \<le> q_nband (sqs st' ! i)"
    "b_band (mb ?st1 bp) \<le> q_nband (sqs st ! i) \<Longrightarrow> b" by blast+
  then show "smsgs st' = smsgs ?st1" "qchains st' = qchains st"
    using keepsD [of ?st1 st'] f(1) by (simp_all add: qchains_def)
qed

text \<open>
  How many bands a queue lacks for a message, a high priority message going to band 0; \<open>allocband\<close>
  asks for each in turn, so the queue gets them exactly when as many requests in a row are granted.
\<close>

definition bands_lacking :: "strst \<Rightarrow> nat \<Rightarrow> queue \<Rightarrow> nat" where
  "bands_lacking st bp q = unat (if queclass (mb st bp) = QPCTL then 0 else b_band (mb st bp)) - unat (q_nband q)"

definition granted :: "nat \<Rightarrow> bool list \<Rightarrow> bool" where
  "granted n ks \<longleftrightarrow> take n ks = replicate n True"

lemma granted_0 [simp]: "granted 0 ks"
  by (simp add: granted_def)

lemma granted_Suc: "granted (Suc n) ks \<longleftrightarrow> (\<exists>ks'. ks = True # ks' \<and> granted n ks')"
  by (cases ks) (auto simp: granted_def)

lemma band_loop_granted:
  assumes "band_loop pri q st = (b, q', st')"
  shows "b \<longleftrightarrow> granted (unat pri - unat (q_nband q)) (kmem st)"
  using assms
proof (induction pri q st arbitrary: b q' st' rule: band_loop.induct)
  case (1 pri q st)
  obtain a st1 where a: "allocband st = (a, st1)" by (cases "allocband st")
  show ?case
  proof (cases "q_nband q < pri")
    case False
    then have "b" using 1(2) by (subst (asm) band_loop.simps) simp
    then show ?thesis using False by (simp add: word_le_nat_alt not_less)
  next
    case less: True
    have u: "unat (q_nband q) < unat pri" using less by (simp add: word_less_nat_alt)
    moreover from this have "unat (q_nband q + 1) = unat (q_nband q) + 1"
      using unat_u8_less [of pri] by (subst unat_add_nowrap) (simp_all del: unat_u8_less)
    ultimately have n: "unat pri - unat (q_nband q) = Suc (unat pri - unat (q_nband (add_band q)))"
      by (simp add: add_band_def)
    have k: "(a \<longrightarrow> (\<exists>ks. kmem st = True # ks \<and> kmem st1 = ks)) \<and> (\<not> a \<longrightarrow> (\<nexists>ks. kmem st = True # ks))"
      using a by (auto simp: allocband_def split: list.splits bool.splits)
    show ?thesis
    proof (cases a)
      case True
      have "band_loop pri (add_band q) st1 = (b, q', st')"
        using 1(2) less a True by (subst (asm) band_loop.simps) simp
      then show ?thesis using 1(1) [OF less a [symmetric]] True k unfolding n granted_Suc by auto
    next
      case False
      then have "\<not> b" using 1(2) less a by (subst (asm) band_loop.simps) simp
      then show ?thesis using k False unfolding n granted_Suc by auto
    qed
  qed
qed

lemma band_for_granted:
  assumes bp: "bp < length (smsgs st)" and r: "band_for i bp st = (b, st')"
  shows "b \<longleftrightarrow> granted (bands_lacking st bp (sqs st ! i)) (kmem st)"
proof -
  let ?st1 = "force_band bp st"
  have band: "b_band (mb ?st1 bp) = (if queclass (mb st bp) = QPCTL then 0 else b_band (mb st bp))"
    and st1: "kmem ?st1 = kmem st" "sqs ?st1 = sqs st"
    using bp by (auto simp: force_band_def mb_def)
  show ?thesis
  proof (cases "b_band (mb ?st1 bp) = 0")
    case True
    then show ?thesis using r band by (simp add: band_for_def Let_def bands_lacking_def)
  next
    case False
    then have "need_band i (b_band (mb ?st1 bp)) ?st1 = (b, st')" using r by (simp add: band_for_def Let_def)
    then obtain q st2 where "band_loop (b_band (mb ?st1 bp)) (sqs ?st1 ! i) ?st1 = (b, q, st2)"
      by (auto simp: need_band_def split: prod.splits)
    from band_loop_granted [OF this] show ?thesis by (simp add: band st1 bands_lacking_def)
  qed
qed

text \<open>The order the queues are meant to have: by priority, and in order of arrival within one.\<close>

definition put_after :: "strst \<Rightarrow> nat \<Rightarrow> nat list \<Rightarrow> nat list" where
  "put_after st bp xs = filter (\<lambda>m. prio (mb st bp) \<le> prio (mb st m)) xs @ bp # filter (\<lambda>m. prio (mb st m) < prio (mb st bp)) xs"

definition put_before :: "strst \<Rightarrow> nat \<Rightarrow> nat list \<Rightarrow> nat list" where
  "put_before st bp xs = filter (\<lambda>m. prio (mb st bp) < prio (mb st m)) xs @ bp # filter (\<lambda>m. prio (mb st m) \<le> prio (mb st bp)) xs"

lemma put_parted:
  assumes "parted (smsgs st) (prio (mb st bp)) A B C"
  shows "put_after st bp (A @ B @ C) = (A @ B) @ bp # C" "put_before st bp (A @ B @ C) = A @ bp # B @ C"
proof -
  let ?p = "prio (mb st bp)"
  have A: "m \<in> set A \<Longrightarrow> ?p < prio (mb st m)" and B: "m \<in> set B \<Longrightarrow> prio (mb st m) = ?p"
    and C: "m \<in> set C \<Longrightarrow> prio (mb st m) < ?p" for m
    using assms by (simp_all add: parted_def mb_def)
  have "filter (\<lambda>m. ?p \<le> prio (mb st m)) A = A" "filter (\<lambda>m. ?p \<le> prio (mb st m)) B = B" "filter (\<lambda>m. ?p \<le> prio (mb st m)) C = []"
    "filter (\<lambda>m. prio (mb st m) < ?p) A = []" "filter (\<lambda>m. prio (mb st m) < ?p) B = []" "filter (\<lambda>m. prio (mb st m) < ?p) C = C"
    "filter (\<lambda>m. ?p < prio (mb st m)) A = A" "filter (\<lambda>m. ?p < prio (mb st m)) B = []" "filter (\<lambda>m. ?p < prio (mb st m)) C = []"
    "filter (\<lambda>m. prio (mb st m) \<le> ?p) A = []" "filter (\<lambda>m. prio (mb st m) \<le> ?p) B = B" "filter (\<lambda>m. prio (mb st m) \<le> ?p) C = C"
    by (simp_all add: filter_id_conv filter_empty_conv A B C not_le not_less less_imp_le)
  then show "put_after st bp (A @ B @ C) = (A @ B) @ bp # C" "put_before st bp (A @ B @ C) = A @ bp # B @ C"
    by (simp_all add: put_after_def put_before_def)
qed

lemma put_enable_keeps: "strst_ok st \<Longrightarrow> i < length (sqs st) \<Longrightarrow> keeps st (put_enable i c st)"
  by (simp add: put_enable_def keeps_refl qenable_keeps)

text \<open>The common end of \<open>putq\<close> and \<open>putbq\<close>: the message is linked in where it belongs.\<close>

lemma linked_ok:
  assumes ok: "strst_ok st" and i: "i < length (sqs st)" and bp: "\<not> on_queue st bp"
    and q: "queue_ok (smsgs st) (link_in (length X) ptrs bp (mb st bp) (sqs st ! i))" and xs: "q_msgs (sqs st ! i) = X @ Y"
    and st': "st' = put_enable i c (upd_q i (link_in (length X) ptrs bp (mb st bp)) st)"
  shows "strst_ok st'" "qchains st' = (qchains st)[i := X @ bp # Y]" "smsgs st' = smsgs st" "sfreed st' = sfreed st"
proof -
  let ?st1 = "upd_q i (link_in (length X) ptrs bp (mb st bp)) st"
  have m: "q_msgs (link_in (length X) ptrs bp (mb st bp) (sqs st ! i)) = X @ bp # Y" using xs by (simp add: insert_at_split)
  have ok1: "strst_ok ?st1"
  proof (rule strst_ok_upd [where f = "link_in (length X) ptrs bp (mb st bp)", OF ok i q])
    show "x \<in> set (q_msgs (link_in (length X) ptrs bp (mb st bp) (sqs st ! i))) \<Longrightarrow> x \<in> set (q_msgs (sqs st ! i)) \<or> \<not> on_queue st x" for x
      using m xs bp by auto
  qed (simp_all add: link_in_flags bit_apart and.commute [of QFULL])
  note k = keepsD [OF put_enable_keeps [OF ok1, of i c]]
  show "strst_ok st'" "qchains st' = (qchains st)[i := X @ bp # Y]" "smsgs st' = smsgs st" "sfreed st' = sfreed st"
    using k i m by (simp_all add: st' qchains_upd)
qed


lemma put_place:
  assumes ok: "strst_ok st" and i: "i < length (sqs st)" and bp: "bp < length (smsgs st)" "\<not> on_queue st bp"
    and r: "band_for i bp st = (True, st1)"
  obtains A B C where "q_msgs (sqs st ! i) = A @ B @ C" "q_msgs (sqs st1 ! i) = A @ B @ C"
    "parted (smsgs st1) (prio (mb st1 bp)) A B C" "strst_ok st1" "i < length (sqs st1)" "\<not> on_queue st1 bp"
    "bp < length (smsgs st1)" "bp \<notin> set (q_msgs (sqs st1 ! i))" "mblk_ok (mb st1 bp)" "b_band (mb st1 bp) \<le> q_nband (sqs st1 ! i)"
    "put_after st bp (A @ B @ C) = (A @ B) @ bp # C" "put_before st bp (A @ B @ C) = A @ bp # B @ C"
proof -
  note b = band_for_ok [OF ok i bp r] and f = force_band_mb [OF bp(1)]
  note k = keepsD [OF b(1)]
  have i1: "i < length (sqs st1)" using i k(5) f(1) by simp
  have mb: "mb st1 = mb (force_band bp st)" using b(2) by (simp add: mb_def fun_eq_iff)
  have prio: "prio (mb st1 m) = prio (mb st m)" for m using f(10) by (simp add: mb)
  have msgs: "q_msgs (sqs st1 ! j) = q_msgs (sqs st ! j)" if "j < length (sqs st)" for j
    using keeps_msgs [OF b(1), of j] f(1) that by simp
  have "chain_ok (smsgs st1) (q_nband (sqs st1 ! i)) (q_msgs (sqs st1 ! i))"
    using strst_okD(2) [OF k(1) i1] by (simp add: queue_ok_def)
  then obtain A B C where abc: "q_msgs (sqs st1 ! i) = A @ B @ C" "parted (smsgs st1) (prio (mb st1 bp)) A B C"
    by (rule chain_split)
  have nq: "\<not> on_queue st1 bp" using bp(2) msgs k(5) f(1) by (simp add: on_queue_def)
  have "put_after st bp xs = put_after st1 bp xs" "put_before st bp xs = put_before st1 bp xs" for xs
    by (simp_all add: put_after_def put_before_def prio)
  then show ?thesis
    using that [OF _ abc k(1) i1 nq] put_parted [OF abc(2)] abc(1) msgs [OF i] bp(1) b(2,4) f(4,6) nq i1
    by (auto simp: mb on_queue_def)
qed

lemma put_fail:
  assumes ok: "strst_ok st" and i: "i < length (sqs st)" and bp: "bp < length (smsgs st)" "\<not> on_queue st bp"
    and r: "band_for i bp st = (False, st')"
  shows "strst_ok st' \<and> qchains st' = qchains st \<and> smsgs st' = smsgs (force_band bp st) \<and> sfreed st' = sfreed st"
  using band_for_ok [OF ok i bp r] keepsD [OF band_for_ok(1) [OF ok i bp r]] force_band_mb [OF bp(1)] by simp

lemma putq_ok:
  assumes ok: "strst_ok st" and i: "i < length (sqs st)" and bp: "bp < length (smsgs st)" "\<not> on_queue st bp"
    and r: "putq i bp st = (b, st')"
  shows "strst_ok st' \<and> qchains st' = (if b then (qchains st)[i := put_after st bp (q_msgs (sqs st ! i))] else qchains st) \<and>
    smsgs st' = smsgs (force_band bp st) \<and> sfreed st' = sfreed st"
proof (cases "fst (band_for i bp st)")
  case False
  then obtain st1 where b: "band_for i bp st = (False, st1)" by (cases "band_for i bp st") simp
  then show ?thesis using put_fail [OF ok i bp b] r by (simp add: putq_def)
next
  case True
  then obtain st1 where b: "band_for i bp st = (True, st1)" by (cases "band_for i bp st") simp
  note bb = band_for_ok [OF ok i bp b] and k = keepsD [OF band_for_ok(1) [OF ok i bp b]] and f = force_band_mb [OF bp(1)]
  show ?thesis
  proof (rule put_place [OF ok i bp b])
    fix A B C
    assume xs: "q_msgs (sqs st ! i) = A @ B @ C" "q_msgs (sqs st1 ! i) = A @ B @ C"
      and p: "parted (smsgs st1) (prio (mb st1 bp)) A B C" and ok1: "strst_ok st1" "i < length (sqs st1)" "\<not> on_queue st1 bp"
        "bp < length (smsgs st1)" "bp \<notin> set (q_msgs (sqs st1 ! i))" "mblk_ok (mb st1 bp)" "b_band (mb st1 bp) \<le> q_nband (sqs st1 ! i)"
      and after: "put_after st bp (A @ B @ C) = (A @ B) @ bp # C"
    have q: "queue_ok (smsgs st1) (sqs st1 ! i)" by (rule strst_okD(2) [OF ok1(1,2)])
    have pos: "putq_pos st1 (sqs st1 ! i) bp = length (A @ B)" using putq_pos_eq [OF q xs(2) p ok1(6,7)] by simp
    have pl: "queue_ok (smsgs st1) (link_in (length (A @ B)) (putq_ptrs bp) bp (mb st1 bp) (sqs st1 ! i))"
      unfolding mb_def
      by (rule putq_place [OF q xs(2) p [unfolded mb_def] strst_okD(1) [OF ok1(1)] ok1(4,5) ok1(6,7) [unfolded mb_def]])
    have "st' = put_enable i (queclass (mb st1 bp)) (upd_q i (link_in (length (A @ B)) (putq_ptrs bp) bp (mb st1 bp)) st1)" "b"
      using r b pos by (auto simp: putq_def Let_def)
    with linked_ok [OF ok1(1-3) pl _ this(1), of C] xs(2)
    show ?thesis using bb(2,3) k(4) f(3) xs(1) after by simp
  qed
qed

lemma putbq_ok:
  assumes ok: "strst_ok st" and i: "i < length (sqs st)" and bp: "bp < length (smsgs st)" "\<not> on_queue st bp"
    and r: "putbq i bp st = (b, st')"
  shows "strst_ok st' \<and> qchains st' = (if b then (qchains st)[i := put_before st bp (q_msgs (sqs st ! i))] else qchains st) \<and>
    smsgs st' = smsgs (force_band bp st) \<and> sfreed st' = sfreed st"
proof (cases "fst (band_for i bp st)")
  case False
  then obtain st1 where b: "band_for i bp st = (False, st1)" by (cases "band_for i bp st") simp
  then show ?thesis using put_fail [OF ok i bp b] r by (simp add: putbq_def)
next
  case True
  then obtain st1 where b: "band_for i bp st = (True, st1)" by (cases "band_for i bp st") simp
  note bb = band_for_ok [OF ok i bp b] and k = keepsD [OF band_for_ok(1) [OF ok i bp b]] and f = force_band_mb [OF bp(1)]
  show ?thesis
  proof (rule put_place [OF ok i bp b])
    fix A B C
    assume xs: "q_msgs (sqs st ! i) = A @ B @ C" "q_msgs (sqs st1 ! i) = A @ B @ C"
      and p: "parted (smsgs st1) (prio (mb st1 bp)) A B C" and ok1: "strst_ok st1" "i < length (sqs st1)" "\<not> on_queue st1 bp"
        "bp < length (smsgs st1)" "bp \<notin> set (q_msgs (sqs st1 ! i))" "mblk_ok (mb st1 bp)" "b_band (mb st1 bp) \<le> q_nband (sqs st1 ! i)"
      and before: "put_before st bp (A @ B @ C) = A @ bp # B @ C"
    have q: "queue_ok (smsgs st1) (sqs st1 ! i)" by (rule strst_okD(2) [OF ok1(1,2)])
    have pos: "putbq_pos st1 (sqs st1 ! i) bp = length A" by (rule putbq_pos_eq [OF q xs(2) p ok1(6,7)])
    have pl: "queue_ok (smsgs st1) (link_in (length A) (putbq_ptrs bp) bp (mb st1 bp) (sqs st1 ! i))"
      unfolding mb_def
      by (rule putbq_place [OF q xs(2) p [unfolded mb_def] strst_okD(1) [OF ok1(1)] ok1(4,5) ok1(6,7) [unfolded mb_def]])
    have "st' = put_enable i (queclass (mb st1 bp)) (upd_q i (link_in (length A) (putbq_ptrs bp) bp (mb st1 bp)) st1)" "b"
      using r b pos by (auto simp: putbq_def Let_def)
    with linked_ok [OF ok1(1-3) pl _ this(1), of "B @ C"] xs(2)
    show ?thesis using bb(2,3) k(4) f(3) xs(1) before by simp
  qed
qed


section \<open>Flushing\<close>

lemma empty_queue_ok:
  assumes "queue_ok ms q"
  shows "queue_ok ms (empty_queue q)" "q_msgs (empty_queue q) = []"
proof -
  have len: "length (q_bandp q) = unat (q_nband q)" using assms by (simp add: queue_ok_def bands_ok_def)
  have "band_ok ms [] (empty_band qb)" for qb
    by (auto simp: band_ok_def empty_band_def full_ok_def and_not_same)
  moreover have "unat p - 1 < length (q_bandp q)" if "0 < p" "p \<le> q_nband q" for p
    using that len by (simp add: word_le_nat_alt word_less_nat_alt)
  ultimately show "queue_ok ms (empty_queue q)"
    using len by (auto simp: queue_ok_def chain_ok_def bands_ok_def empty_queue_def full_ok_def and_not_same)
  show "q_msgs (empty_queue q) = []" by (simp add: empty_queue_def)
qed

lemma empty_queue_simps [simp]:
  "q_nband (empty_queue q) = q_nband q" "q_next (empty_queue q) = q_next q" "qi_srvp (empty_queue q) = qi_srvp q"
  "q_flag (empty_queue q) = q_flag q AND NOT QFULL" "q_msgs (empty_queue q) = []"
  by (simp_all add: empty_queue_def)

lemma emptied_ok:
  assumes ok: "strst_ok st" and i: "i < length (sqs st)"
  defines "st1 \<equiv> upd_q i empty_queue st"
  shows "strst_ok st1" "qchains st1 = (qchains st)[i := []]" "m \<in> set (q_msgs (sqs st ! i)) \<Longrightarrow> \<not> on_queue st1 m"
proof -
  show "strst_ok st1" unfolding st1_def
    by (rule strst_ok_upd [where f = empty_queue, OF ok i empty_queue_ok(1) [OF strst_okD(2) [OF ok i]]])
      (simp_all add: and_and_not bit_apart and.commute [of QFULL])
  show "qchains st1 = (qchains st)[i := []]" by (simp add: st1_def qchains_upd)
  show "m \<in> set (q_msgs (sqs st ! i)) \<Longrightarrow> \<not> on_queue st1 m"
    using strst_okD(3) [OF ok] i by (auto simp: on_queue_def st1_def upd_q_at apart_def split: if_splits)
qed

lemma force_band_same: "mblk_ok (mb st bp) \<Longrightarrow> force_band bp st = st"
  using queclass_le(3) by (auto simp: force_band_def mblk_ok_def queclass_def)

lemma qenable_nband [simp]: "q_nband (sqs (qenable j st) ! i) = q_nband (sqs st ! i)"
  by (cases "i < length (sqs st)"; cases "j < length (sqs st)")
    (auto simp: qenable_def upd_q_def nth_list_update list_update_beyond)

text \<open>Putting a message back that has its band on the queue.\<close>

lemma putq_back:
  assumes ok: "strst_ok st" and i: "i < length (sqs st)" and bp: "bp < length (smsgs st)" "\<not> on_queue st bp"
    and m: "mblk_ok (mb st bp)" "b_band (mb st bp) \<le> q_nband (sqs st ! i)"
  shows "strst_ok (snd (putq i bp st))" "qchains (snd (putq i bp st)) = (qchains st)[i := put_after st bp (q_msgs (sqs st ! i))]"
    "smsgs (snd (putq i bp st)) = smsgs st" "sfreed (snd (putq i bp st)) = sfreed st"
    "q_nband (sqs (snd (putq i bp st)) ! i) = q_nband (sqs st ! i)"
proof -
  note f = force_band_same [OF m(1)]
  have b: "band_for i bp st = (True, st)"
  proof (cases "b_band (mb st bp) = 0")
    case False
    obtain b st' where n: "need_band i (b_band (mb st bp)) st = (b, st')" by (cases "need_band i (b_band (mb st bp)) st")
    then show ?thesis using need_band_keeps(7) [OF ok i n] m(2) False by (simp add: band_for_def f)
  qed (simp add: band_for_def f)
  obtain r st' where p: "putq i bp st = (r, st')" by (cases "putq i bp st")
  have r: "r" and st': "st' = put_enable i (queclass (mb st bp))
      (upd_q i (link_in (putq_pos st (sqs st ! i) bp) (putq_ptrs bp) bp (mb st bp)) st)"
    using p b by (auto simp: putq_def Let_def)
  show "strst_ok (snd (putq i bp st))" "qchains (snd (putq i bp st)) = (qchains st)[i := put_after st bp (q_msgs (sqs st ! i))]"
    "smsgs (snd (putq i bp st)) = smsgs st" "sfreed (snd (putq i bp st)) = sfreed st"
    using putq_ok [OF ok i bp p] r f by (simp_all add: p)
  show "q_nband (sqs (snd (putq i bp st)) ! i) = q_nband (sqs st ! i)"
    using i by (simp add: p st' put_enable_def)
qed

lemma freemsg_simps [simp]:
  "sqs (log_freemsg m st) = sqs st" "smsgs (log_freemsg m st) = smsgs st" "qrun (log_freemsg m st) = qrun st"
  "sfreed (log_freemsg m st) = sfreed st @ [m]" "mb (log_freemsg m st) = mb st" "on_queue (log_freemsg m st) = on_queue st"
  "qchains (log_freemsg m st) = qchains st"
  by (simp_all add: log_freemsg_def mb_def on_queue_def qchains_def fun_eq_iff)

lemma freemsg_ok: "strst_ok st \<Longrightarrow> strst_ok (log_freemsg m st)"
  by (rule strst_ok_core) simp_all

lemma on_queue_iff: "on_queue st m \<longleftrightarrow> (\<exists>i<length (sqs st). m \<in> set (qchains st ! i))"
  by (auto simp: on_queue_def qchains_def)

lemma flush_msgs_ok:
  assumes "strst_ok st" "i < length (sqs st)" "chain_ok (smsgs st) (q_nband (sqs st ! i)) xs"
    "\<forall>m\<in>set xs. \<not> on_queue st m" "\<forall>m\<in>set xs. \<forall>y\<in>set (q_msgs (sqs st ! i)). prio (mb st m) \<le> prio (mb st y)"
  shows "strst_ok (flush_msgs P i xs st) \<and>
    qchains (flush_msgs P i xs st) = (qchains st)[i := q_msgs (sqs st ! i) @ filter (\<lambda>m. \<not> P (mb st m)) xs] \<and>
    smsgs (flush_msgs P i xs st) = smsgs st \<and> sfreed (flush_msgs P i xs st) = sfreed st @ filter (\<lambda>m. P (mb st m)) xs"
  using assms
proof (induction xs arbitrary: st)
  case Nil
  then show ?case by (simp add: qchains_nth [symmetric])
next
  case (Cons m xs)
  have ch: "chain_ok (smsgs st) (q_nband (sqs st ! i)) xs"
    using chain_remove [of "smsgs st" _ "[]" m xs] Cons.prems(3) by simp
  show ?case
  proof (cases "P (mb st m)")
    case True
    have "strst_ok (log_freemsg m st)" by (rule freemsg_ok [OF Cons.prems(1)])
    then show ?thesis using Cons.IH [of "log_freemsg m st"] Cons.prems ch True by simp
  next
    case False
    let ?st1 = "snd (putq i m st)" and ?ys = "q_msgs (sqs st ! i)"
    have m: "m < length (smsgs st)" "\<not> on_queue st m" "mblk_ok (mb st m)" "b_band (mb st m) \<le> q_nband (sqs st ! i)"
      and sorted: "\<forall>x\<in>set xs. prio (mb st x) \<le> prio (mb st m)" "m \<notin> set xs"
      using Cons.prems(3,4) by (simp_all add: chain_ok_def mb_def)
    note p = putq_back [OF Cons.prems(1,2) m]
    have len: "length (sqs ?st1) = length (sqs st)" using arg_cong [OF p(2), of length] by (simp add: qchains_def)
    have mb: "mb ?st1 = mb st" using p(3) by (simp add: mb_def fun_eq_iff)
    have "put_after st m ?ys = ?ys @ [m]"
      using Cons.prems(5) by (auto simp: put_after_def filter_id_conv filter_empty_conv not_less)
    then have qc: "qchains ?st1 = (qchains st)[i := ?ys @ [m]]" using p(2) by simp
    have lc: "length (qchains st) = length (sqs st)" by (simp add: qchains_def)
    have ys: "q_msgs (sqs ?st1 ! i) = ?ys @ [m]"
      using qchains_nth [of i ?st1] qc Cons.prems(2) len lc by simp
    have nq: "\<forall>x\<in>set xs. \<not> on_queue ?st1 x"
    proof
      fix x assume x: "x \<in> set xs"
      then have "\<not> on_queue st x" "x \<noteq> m" using Cons.prems(4) sorted(2) by auto
      then show "\<not> on_queue ?st1 x"
        using qc len lc Cons.prems(2) qchains_nth [OF Cons.prems(2)]
        by (auto simp: on_queue_iff nth_list_update)
    qed
    have pr: "\<forall>x\<in>set xs. \<forall>y\<in>set (q_msgs (sqs ?st1 ! i)). prio (mb ?st1 x) \<le> prio (mb ?st1 y)"
      using Cons.prems(5) sorted(1) by (auto simp: ys mb)
    have "i < length (sqs ?st1)" "chain_ok (smsgs ?st1) (q_nband (sqs ?st1 ! i)) xs"
      using Cons.prems(2) ch len p(3,5) by simp_all
    from Cons.IH [OF p(1) this nq pr] show ?thesis using False qc p(3,4) by (simp add: ys mb)
  qed
qed


lemma clear_wants_ok:
  assumes "queue_ok ms q"
  shows "queue_ok ms (clear_wants q)" "q_msgs (clear_wants q) = q_msgs q" "q_next (clear_wants q) = q_next q"
    "qi_srvp (clear_wants q) = qi_srvp q" "b AND QWANTW = 0 \<Longrightarrow> q_flag (clear_wants q) AND b = q_flag q AND b"
proof -
  let ?f = "\<lambda>qb. if band_flush qb then clear_bflag QB_WANTW qb else qb"
  have b: "band_ok ms bs (?f qb) = band_ok ms bs qb" for bs qb
    using bit_apart(21) by (simp add: band_ok_def and_and_not)
  have len: "length (q_bandp q) = unat (q_nband q)" using assms by (simp add: queue_ok_def bands_ok_def)
  have i: "unat p - 1 < length (q_bandp q)" if "0 < p" "p \<le> q_nband q" for p
    using that len by (simp add: word_le_nat_alt word_less_nat_alt)
  have "queue_ok ms (q\<lparr>q_bandp := map ?f (q_bandp q)\<rparr>)"
    using assms i b by (simp add: queue_ok_def bands_ok_def)
  then show "queue_ok ms (clear_wants q)"
    unfolding clear_wants_def Let_def
    by (auto intro: queue_ok_flags simp: and_and_not bit_apart)
  show "q_msgs (clear_wants q) = q_msgs q" "q_next (clear_wants q) = q_next q" "qi_srvp (clear_wants q) = qi_srvp q"
    by (simp_all add: clear_wants_def Let_def)
  show "b AND QWANTW = 0 \<Longrightarrow> q_flag (clear_wants q) AND b = q_flag q AND b"
    by (simp add: clear_wants_def Let_def and_and_not and.commute [of QWANTW])
qed

lemma set_backs_keeps:
  assumes "strst_ok st" "p < length (sqs st)"
  shows "keeps st (set_backs p j bs st) \<and> qrun (set_backs p j bs st) = qrun st"
  using assms
proof (induction bs arbitrary: j st)
  case Nil
  then show ?case by (simp add: keeps_refl)
next
  case (Cons b bs)
  let ?st1 = "if b then setqback p j st else st"
  have k: "keeps st ?st1" "qrun ?st1 = qrun st"
    using setqback_keeps(1,2) [OF Cons.prems] keeps_refl [OF Cons.prems(1)] by simp_all
  have "keeps ?st1 (set_backs p (j + 1) bs ?st1) \<and> qrun (set_backs p (j + 1) bs ?st1) = qrun ?st1"
    using Cons.IH [of ?st1 "j + 1"] keepsD(1,5) [OF k(1)] Cons.prems(2) by simp
  then show ?case using keeps_trans [OF k(1)] k(2) by simp
qed

text \<open>The first half of \<open>flushq\<close> and \<open>flushband\<close>.\<close>

lemma flush_front:
  assumes ok: "strst_ok st" and i: "i < length (sqs st)"
    and st1: "st1 = flush_msgs P i (q_msgs (sqs st ! i)) (upd_q i empty_queue st)"
  shows "strst_ok st1" "i < length (sqs st1)" "qchains st1 = (qchains st)[i := filter (\<lambda>m. \<not> P (mb st m)) (q_msgs (sqs st ! i))]"
    "smsgs st1 = smsgs st" "sfreed st1 = sfreed st @ filter (\<lambda>m. P (mb st m)) (q_msgs (sqs st ! i))"
proof -
  let ?st0 = "upd_q i empty_queue st" and ?xs = "q_msgs (sqs st ! i)"
  note e = emptied_ok [OF ok i]
  have mb: "mb ?st0 = mb st" by (simp add: mb_def fun_eq_iff)
  have "chain_ok (smsgs ?st0) (q_nband (sqs ?st0 ! i)) ?xs"
    using strst_okD(2) [OF ok i] i by (simp add: queue_ok_def)
  from flush_msgs_ok [OF e(1) _ this, of P] e(3) i
  have f: "strst_ok st1" "qchains st1 = (qchains st)[i := filter (\<lambda>m. \<not> P (mb st m)) ?xs]"
    "smsgs st1 = smsgs st" "sfreed st1 = sfreed st @ filter (\<lambda>m. P (mb st m)) ?xs"
    using e(2) by (simp_all add: st1 mb)
  then show "strst_ok st1" "qchains st1 = (qchains st)[i := filter (\<lambda>m. \<not> P (mb st m)) ?xs]"
    "smsgs st1 = smsgs st" "sfreed st1 = sfreed st @ filter (\<lambda>m. P (mb st m)) ?xs" by simp_all
  show "i < length (sqs st1)" using arg_cong [OF f(2), of length] i by (simp add: qchains_def)
qed

lemma flushq_ok:
  assumes ok: "strst_ok st" and i: "i < length (sqs st)" and r: "flushq i flag st = Some st'"
  defines "P \<equiv> \<lambda>m. flag \<or> datamsg (db_type m)"
  shows "strst_ok st' \<and> qchains st' = (qchains st)[i := filter (\<lambda>m. \<not> P (mb st m)) (q_msgs (sqs st ! i))] \<and>
    smsgs st' = smsgs st \<and> sfreed st' = sfreed st @ filter (\<lambda>m. P (mb st m)) (q_msgs (sqs st ! i))"
proof -
  define st1 where "st1 = flush_msgs P i (q_msgs (sqs st ! i)) (upd_q i empty_queue st)"
  note f = flush_front [OF ok i st1_def]
  let ?st2 = "upd_q i clear_wants st1"
  note c = clear_wants_ok [OF strst_okD(2) [OF f(1,2)]]
  have k2: "keeps st1 ?st2"
  proof -
    have "strst_ok ?st2"
      by (rule strst_ok_upd [where f = clear_wants, OF f(1,2) c(1)])
        (use c bit_apart in \<open>simp_all add: and.commute [of _ QWANTW]\<close>)
    then show ?thesis using c(2) by (simp add: keeps_def qchains_same)
  qed
  have "keeps st1 st'"
  proof -
    let ?q = "sqs st1 ! i"
    let ?qbf = "queue_flush ?q # map band_flush (q_bandp ?q)"
    have e: "flushq i flag st = (if True \<in> set ?qbf then
        (case back_srv ?st2 i of None \<Rightarrow> None | Some None \<Rightarrow> Some ?st2
         | Some (Some p) \<Rightarrow> Some (set_backs p 0 (take (unat (word_of_nat (length (q_bandp ?q) + 1) :: u8)) ?qbf) (qenable p ?st2)))
       else Some ?st2)"
      unfolding flushq_def Let_def st1_def P_def by (rule refl)
    show ?thesis
    proof (cases "back_srv ?st2 i")
      case None
      then show ?thesis using r e k2 by (simp split: if_splits)
    next
      case (Some p')
      show ?thesis
      proof (cases p')
        case None
        then show ?thesis using r e k2 Some by (simp split: if_splits)
      next
        case p': (Some p)
        have p: "p < length (sqs ?st2) \<and> qi_srvp (sqs ?st2 ! p)"
          by (rule back_srv_range [OF Some strst_okD(5) [OF keepsD(1) [OF k2]] _ p']) (use f(2) in simp)
        have q: "keeps ?st2 (qenable p ?st2)" by (rule qenable_keeps(1) [OF keepsD(1) [OF k2]]) (use p in simp)
        have "keeps (qenable p ?st2) (set_backs p 0 bs (qenable p ?st2))" for bs
          using set_backs_keeps [OF keepsD(1) [OF q]] keepsD(5) [OF q] p by simp
        then show ?thesis
          using r e k2 keeps_trans [OF k2 keeps_trans [OF q]] Some p' by (auto split: if_splits)
      qed
    qed
  qed
  note k = keepsD [OF this]
  show ?thesis using k f by simp
qed

text \<open>The walk of \<open>flushband\<close> along its band.\<close>

lemma flush_one_ok:
  assumes ok: "strst_ok st" and i: "i < length (sqs st)" and xs: "q_msgs (sqs st ! i) = X @ m # Y"
    and r: "flush_one i pri flag m st = Some st'"
  defines "P \<equiv> \<lambda>m. b_band m = pri \<and> (flag \<or> datamsg (db_type m))"
  shows "strst_ok st' \<and> qchains st' = (qchains st)[i := X @ filter (\<lambda>m. \<not> P (mb st m)) [m] @ Y] \<and>
    smsgs st' = smsgs st \<and> sfreed st' = sfreed st @ filter (\<lambda>m. P (mb st m)) [m]"
proof (cases "P (mb st m)")
  case True
  then obtain st1 where rm: "rmvq i m st = Some st1" and st': "st' = log_freemsg m st1"
    using r by (auto simp: flush_one_def P_def)
  show ?thesis using rmvq_ok [OF ok i xs rm] True freemsg_ok [of st1 m] by (simp add: st')
next
  case False
  then have "st' = st" using r by (auto simp: flush_one_def P_def)
  then show ?thesis using False ok list_update_id [of "qchains st" i] by (simp add: qchains_nth [OF i] xs)
qed

lemma flush_to_ok:
  assumes "strst_ok st" "i < length (sqs st)" "q_msgs (sqs st ! i) = X @ B @ Y" "B \<noteq> []"
    "flush_to i pri flag (Some (last B)) (B @ Y) st = Some st'"
  defines "P \<equiv> \<lambda>m. b_band m = pri \<and> (flag \<or> datamsg (db_type m))"
  shows "strst_ok st' \<and> qchains st' = (qchains st)[i := X @ filter (\<lambda>m. \<not> P (mb st m)) B @ Y] \<and>
    smsgs st' = smsgs st \<and> sfreed st' = sfreed st @ filter (\<lambda>m. P (mb st m)) B"
  using assms(1-5)
proof (induction B arbitrary: st X)
  case (Cons m B)
  have dist: "distinct (X @ m # B @ Y)" using strst_okD(2) [OF Cons.prems(1,2)] Cons.prems(3) by (simp add: queue_ok_def chain_ok_def)
  show ?case
  proof (cases "B = []")
    case True
    then have "flush_one i pri flag m st = Some st'" using Cons.prems(5) by simp
    from flush_one_ok [OF Cons.prems(1,2) _ this, of X Y] Cons.prems(3) True show ?thesis by (simp add: P_def)
  next
    case False
    have "last B \<in> set B" using False by simp
    then have ne: "last B \<noteq> m" using dist by auto
    obtain st1 where o: "flush_one i pri flag m st = Some st1" and t: "flush_to i pri flag (Some (last B)) (B @ Y) st1 = Some st'"
      using Cons.prems(5) False ne by (auto split: option.splits)
    note f = flush_one_ok [OF Cons.prems(1,2) _ o, of X "B @ Y"]
    let ?X = "X @ filter (\<lambda>m. \<not> P (mb st m)) [m]"
    have f1: "strst_ok st1" "qchains st1 = (qchains st)[i := ?X @ B @ Y]" "smsgs st1 = smsgs st"
      "sfreed st1 = sfreed st @ filter (\<lambda>m. P (mb st m)) [m]"
      using f Cons.prems(3) by (simp_all add: P_def)
    have len: "length (sqs st1) = length (sqs st)" using arg_cong [OF f1(2), of length] by (simp add: qchains_def)
    have xs: "q_msgs (sqs st1 ! i) = ?X @ B @ Y"
    proof -
      have "qchains st1 ! i = ?X @ B @ Y" unfolding f1(2) using Cons.prems(2) by (intro nth_list_update_eq) (simp add: qchains_def)
      then show ?thesis using qchains_nth [of i st1] len Cons.prems(2) by simp
    qed
    have mb: "mb st1 = mb st" using f1(3) by (simp add: mb_def fun_eq_iff)
    show ?thesis
      using Cons.IH [OF f1(1) _ xs False t] len Cons.prems(2) f1 by (simp add: mb)
  qed
qed simp

lemma flushband_band:
  assumes ok: "strst_ok st" and i: "i < length (sqs st)" and pri: "0 < pri" "pri \<le> q_nband (sqs st ! i)"
    and r: "flushband i pri flag st = Some st'"
  defines "P \<equiv> \<lambda>m. b_band m = pri \<and> (flag \<or> datamsg (db_type m))"
  shows "strst_ok st' \<and> qchains st' = (qchains st)[i := filter (\<lambda>m. \<not> P (mb st m)) (q_msgs (sqs st ! i))] \<and>
    smsgs st' = smsgs st \<and> sfreed st' = sfreed st @ filter (\<lambda>m. P (mb st m)) (q_msgs (sqs st ! i))"
proof -
  have q: "queue_ok (smsgs st) (sqs st ! i)" by (rule strst_okD(2) [OF ok i])
  have ch: "chain_ok (smsgs st) (q_nband (sqs st ! i)) (q_msgs (sqs st ! i))" using q by (simp add: queue_ok_def)
  obtain A B C where xs: "q_msgs (sqs st ! i) = A @ B @ C" and p: "parted (smsgs st) (unat pri) A B C"
    by (rule chain_split [OF ch])
  note b = parted_bands [OF ch [unfolded xs] p pri(1)] and bo = band_at [OF q xs p pri]
  let ?qb = "q_bandp (sqs st ! i) ! (unat pri - 1)"
  have out: "\<forall>m\<in>set A. \<not> P (mb st m)" "\<forall>m\<in>set C. \<not> P (mb st m)"
    using b by (auto simp: in_band_def filter_empty_conv P_def mb_def)
  have fl: "filter (\<lambda>m. \<not> P (mb st m)) (A @ B @ C) = A @ filter (\<lambda>m. \<not> P (mb st m)) B @ C"
    "filter (\<lambda>m. P (mb st m)) (A @ B @ C) = filter (\<lambda>m. P (mb st m)) B"
    using out by (simp_all add: filter_id_conv filter_empty_conv)
  have nz: "pri \<noteq> 0" "\<not> q_nband (sqs st ! i) < pri" using pri by (auto simp: word_gt_0)
  show ?thesis
  proof (cases B)
    case Nil
    then have "st' = st" using r nz bo by (simp add: flushband_def band_ok_def)
    then show ?thesis using fl ok Nil list_update_id [of "qchains st" i] by (simp add: qchains_nth [OF i] xs)
  next
    case (Cons m B')
    have dist: "distinct (A @ B @ C)" using ch xs by (simp add: chain_ok_def)
    then have m: "m \<notin> set A" using Cons by auto
    have f: "qb_first ?qb = Some m" "qb_last ?qb = Some (last B)" using bo Cons by (simp_all add: band_ok_def last_of_def)
    have dr: "drop (pos_of m (q_msgs (sqs st ! i))) (q_msgs (sqs st ! i)) = B @ C"
      using pos_of_split [OF m, of "B' @ C"] by (simp add: xs Cons)
    show ?thesis
    proof (cases "B' = []")
      case True
      define lst where "lst = (case C of [] \<Rightarrow> None | n # _ \<Rightarrow> Some n)"
      have t: "flush_to i pri flag lst (m # C) st = Some st'"
        using r nz f dr Cons True by (simp add: flushband_def Let_def lst_def)
      have "lst \<noteq> Some m" using dist Cons by (cases C) (auto simp: lst_def)
      then obtain st1 where o: "flush_one i pri flag m st = Some st1" and t1: "flush_to i pri flag lst C st1 = Some st'"
        using t by (auto split: option.splits)
      note f1 = flush_one_ok [OF ok i _ o, of A C]
      have mb: "mb st1 = mb st" using f1 xs Cons True by (simp add: mb_def fun_eq_iff)
      have "st' = st1"
        using t1 out(2) by (cases C) (auto simp: lst_def flush_one_def P_def mb)
      then show ?thesis using f1 xs Cons True fl by (simp add: P_def)
    next
      case False
      then have "last B \<noteq> m" using dist Cons by auto
      then have "flush_to i pri flag (Some (last B)) (B @ C) st = Some st'"
        using r nz f dr by (simp add: flushband_def Let_def)
      then have "strst_ok st' \<and> qchains st' = (qchains st)[i := A @ filter (\<lambda>m. \<not> P (mb st m)) B @ C] \<and>
          smsgs st' = smsgs st \<and> sfreed st' = sfreed st @ filter (\<lambda>m. P (mb st m)) B"
        unfolding P_def by (intro flush_to_ok [OF ok i xs]) (simp_all add: Cons)
      then show ?thesis unfolding xs fl .
    qed
  qed
qed

lemma flushband_ok:
  assumes ok: "strst_ok st" and i: "i < length (sqs st)" and r: "flushband i pri flag st = Some st'"
  defines "P \<equiv> \<lambda>m. prio m = unat pri \<and> (flag \<or> datamsg (db_type m))"
  shows "strst_ok st' \<and> qchains st' = (qchains st)[i := filter (\<lambda>m. \<not> P (mb st m)) (q_msgs (sqs st ! i))] \<and>
    smsgs st' = smsgs st \<and> sfreed st' = sfreed st @ filter (\<lambda>m. P (mb st m)) (q_msgs (sqs st ! i))"
proof -
  have ch: "chain_ok (smsgs st) (q_nband (sqs st ! i)) (q_msgs (sqs st ! i))"
    using strst_okD(2) [OF ok i] by (simp add: queue_ok_def)
  consider "q_nband (sqs st ! i) < pri" | "pri = 0" | "0 < pri" "pri \<le> q_nband (sqs st ! i)"
    using word_gt_0 not_less by blast
  then show ?thesis
  proof cases
    case 1
    have "\<not> P (mb st m)" if "m \<in> set (q_msgs (sqs st ! i))" for m
    proof -
      have "b_band (mb st m) \<noteq> pri" "mblk_ok (mb st m)" using ch that 1 by (auto simp: chain_ok_def mb_def)
      then show ?thesis using in_band_prio [of "mb st m" pri] le_less_trans [OF word_zero_le 1] by (auto simp: P_def)
    qed
    then have "filter (\<lambda>m. \<not> P (mb st m)) (q_msgs (sqs st ! i)) = q_msgs (sqs st ! i)"
      "filter (\<lambda>m. P (mb st m)) (q_msgs (sqs st ! i)) = []" by (simp_all add: filter_id_conv filter_empty_conv)
    moreover have "st' = st" using r 1 by (simp add: flushband_def)
    ultimately show ?thesis using ok list_update_id [of "qchains st" i] by (simp add: qchains_nth [OF i])
  next
    case 2
    define st1 where "st1 = flush_msgs (\<lambda>m. b_band m = 0 \<and> db_type m < QPCTL \<and> (flag \<or> datamsg (db_type m))) i
      (q_msgs (sqs st ! i)) (upd_q i empty_queue st)"
    note f = flush_front [OF ok i st1_def]
    have P: "(b_band m = 0 \<and> db_type m < QPCTL \<and> (flag \<or> datamsg (db_type m))) = P m" for m
      by (auto simp: P_def 2 prio_def not_le unat_eq_zero split: if_splits)
    have "keeps st1 st'"
      using r 2 keeps_refl [OF f(1)] back_enable_keeps(1) [OF f(1,2), of 0 st']
      by (auto simp: flushband_def Let_def st1_def [symmetric] split: if_splits)
    then show ?thesis using keepsD [of st1 st'] f unfolding P by simp
  next
    case 3
    have "P (mb st m) \<longleftrightarrow> b_band (mb st m) = pri \<and> (flag \<or> datamsg (db_type (mb st m)))" if "m \<in> set (q_msgs (sqs st ! i))" for m
      using in_band_prio [OF chain_okD [OF ch that] 3(1)] by (auto simp: P_def mb_def)
    then have "filter (\<lambda>m. P (mb st m)) (q_msgs (sqs st ! i)) =
        filter (\<lambda>m. b_band (mb st m) = pri \<and> (flag \<or> datamsg (db_type (mb st m)))) (q_msgs (sqs st ! i))"
      "filter (\<lambda>m. \<not> P (mb st m)) (q_msgs (sqs st ! i)) =
        filter (\<lambda>m. \<not> (b_band (mb st m) = pri \<and> (flag \<or> datamsg (db_type (mb st m))))) (q_msgs (sqs st ! i))"
      by (intro filter_cong; simp)+
    then show ?thesis using flushband_band [OF ok i 3 r] by simp
  qed
qed

end
