(* ===== verification/Strq_Set.thy ===== *)
theory Strq_Set imports Strq_Op "HOL-Library.Multiset" begin

text \<open>
  The properties of the STREAMS queues: order, removal, flow control and flushing, and the stable
  priority queue that a queue of a stream is to its module.
\<close>

section \<open>The links of the streams\<close>

definition slinks :: "strst \<Rightarrow> (nat option \<times> bool) list" where
  "slinks st = map (\<lambda>q. (q_next q, qi_srvp q)) (sqs st)"

lemma slinks_nth:
  assumes "slinks st' = slinks st" "j < length (sqs st)"
  shows "length (sqs st') = length (sqs st)" "q_next (sqs st' ! j) = q_next (sqs st ! j)" "qi_srvp (sqs st' ! j) = qi_srvp (sqs st ! j)"
proof -
  show l: "length (sqs st') = length (sqs st)" using arg_cong [OF assms(1), of length] by (simp add: slinks_def)
  show "q_next (sqs st' ! j) = q_next (sqs st ! j)" "qi_srvp (sqs st' ! j) = qi_srvp (sqs st ! j)"
    using arg_cong [OF assms(1), of "\<lambda>xs. xs ! j"] assms(2) l by (simp_all add: slinks_def)
qed

lemma slinks_upd:
  assumes "q_next (f (sqs st ! i)) = q_next (sqs st ! i)" "qi_srvp (f (sqs st ! i)) = qi_srvp (sqs st ! i)"
  shows "slinks (upd_q i f st) = slinks st"
proof (cases "i < length (sqs st)")
  case True
  then show ?thesis using assms list_update_id [of "slinks st" i] by (simp add: slinks_def upd_q_def map_update)
qed (simp add: slinks_def upd_q_def list_update_beyond)

lemma slinks_qenable [simp]: "slinks (qenable i st) = slinks st"
proof -
  have "slinks (upd_q i (set_qflag QENAB) st) = slinks st" by (rule slinks_upd) simp_all
  then show ?thesis by (simp add: qenable_def slinks_def)
qed

lemma slinks_eqI:
  assumes "length (sqs st') = length (sqs st)" "\<And>j. j < length (sqs st) \<Longrightarrow> q_next (sqs st' ! j) = q_next (sqs st ! j)"
    "\<And>j. j < length (sqs st) \<Longrightarrow> qi_srvp (sqs st' ! j) = qi_srvp (sqs st ! j)"
  shows "slinks st' = slinks st"
  using assms by (intro nth_equalityI) (simp_all add: slinks_def)

lemma slinks_setqback:
  assumes "strst_ok st" "i < length (sqs st)"
  shows "slinks (setqback i pri st) = slinks st"
  by (rule slinks_eqI) (use keepsD(5) [OF setqback_keeps(1) [OF assms]] setqback_keeps(3,4) [OF assms] in simp_all)

lemma slinks_set_backs:
  assumes "strst_ok st" "p < length (sqs st)"
  shows "slinks (set_backs p j bs st) = slinks st"
  using assms
proof (induction bs arbitrary: j st)
  case (Cons b bs)
  let ?st1 = "if b then setqback p j st else st"
  note k = keepsD [OF setqback_keeps(1) [OF Cons.prems, of j]]
  have "slinks (set_backs p (j + 1) bs ?st1) = slinks ?st1"
    using Cons.IH [of ?st1] Cons.prems k(1,5) by simp
  then show ?case using slinks_setqback [OF Cons.prems] by simp
qed simp

lemma slinks_clear_want [simp]: "slinks (clear_want i pri st) = slinks st"
  unfolding clear_want_def by (rule slinks_upd) auto

lemma slinks_back_enable:
  assumes ok: "strst_ok st" and i: "i < length (sqs st)" and pri: "pri \<le> q_nband (sqs st ! i)" and r: "back_enable i pri st = Some st'"
  shows "slinks st' = slinks st"
proof -
  let ?st1 = "clear_want i pri st"
  have k: "keeps st ?st1" by (rule clear_want_keeps [OF ok i pri])
  note k1 = keepsD [OF k]
  consider "st' = ?st1" | p where "back_srv ?st1 i = Some (Some p)" "st' = setqback p pri (qenable p ?st1)"
    using r by (auto simp: back_enable_def Let_def split: option.splits)
  then show ?thesis
  proof cases
    case 2
    have p: "p < length (sqs ?st1)"
      using back_srv_range [OF 2(1) strst_okD(5) [OF k1(1)] _ refl] i k1(5) by simp
    note e = keepsD [OF qenable_keeps(1) [OF k1(1) p]]
    show ?thesis using slinks_setqback [OF e(1)] e(5) p by (simp add: 2(2))
  qed simp
qed

lemma slinks_drain_enable:
  assumes "strst_ok st" "i < length (sqs st)" "pri \<le> q_nband (sqs st ! i)" "drain_enable i pri st = Some st'"
  shows "slinks st' = slinks st"
  using assms slinks_back_enable [OF assms(1-3)] by (auto simp: drain_enable_def split: if_splits)

text \<open>The queue behind depends on the links alone.\<close>

lemma backq_links:
  assumes "strst_ok st" "strst_ok st'" "slinks st' = slinks st" "q < length (sqs st)"
  shows "backq st' q = backq st q"
proof -
  have len: "length (sqs st') = length (sqs st)" using slinks_nth(1) [OF assms(3,4)] .
  have o: "otherq st' j = otherq st j" if "j < length (sqs st)" for j
    using strst_okD(5) [OF assms(1)] strst_okD(5) [OF assms(2)] len that by (simp add: links_ok_def otherq_def)
  have oq: "otherq st q < length (sqs st)" by (rule otherq_range [OF strst_okD(5) [OF assms(1)] assms(4)])
  have "n < length (sqs st)" if "q_next (sqs st ! otherq st q) = Some n" for n
    using strst_okD(5) [OF assms(1)] oq that by (auto simp: links_ok_def)
  then show ?thesis
    using slinks_nth(2) [OF assms(3) oq] o [OF assms(4)] o by (auto simp: backq_def split: option.splits)
qed

lemma acyclic_links:
  assumes "strst_ok st" "strst_ok st'" "slinks st' = slinks st" "acyclic_streams st"
  shows "acyclic_streams st'"
proof -
  have "{(p, q). q < length (sqs st') \<and> backq st' q = Some p} = {(p, q). q < length (sqs st) \<and> backq st q = Some p}"
  proof (cases "sqs st")
    case Nil
    then show ?thesis using arg_cong [OF assms(3), of length] by (simp add: slinks_def)
  next
    case (Cons q0 qs)
    then have "length (sqs st') = length (sqs st)" using slinks_nth(1) [OF assms(3), of 0] by simp
    then show ?thesis using backq_links [OF assms(1-3)] by auto
  qed
  then show ?thesis using assms(4) by (simp add: acyclic_streams_def)
qed

lemma back_srv_mono:
  assumes "strst_ok st" "strst_ok st'" "slinks st' = slinks st" "q < length (sqs st)" "back_srv st q = Some r"
  shows "back_srv st' q = Some r"
proof -
  have "strst_ok st \<longrightarrow> slinks st' = slinks st \<longrightarrow> q < length (sqs st) \<longrightarrow> back_srv st' q = Some r"
  proof (rule back_srv.raw_induct [OF _ assms(5)])
    fix srv st q r
    assume IH: "\<And>st q r. srv st q = Some r \<Longrightarrow>
        strst_ok st \<longrightarrow> slinks st' = slinks st \<longrightarrow> q < length (sqs st) \<longrightarrow> back_srv st' q = Some r"
      and r: "(case backq st q of None \<Rightarrow> Some None | Some p \<Rightarrow> if qi_srvp (sqs st ! p) then Some (Some p) else srv st p) = Some r"
    show "strst_ok st \<longrightarrow> slinks st' = slinks st \<longrightarrow> q < length (sqs st) \<longrightarrow> back_srv st' q = Some r"
    proof (intro impI)
      assume st: "strst_ok st" "slinks st' = slinks st" "q < length (sqs st)"
      note b = backq_links [OF st(1) assms(2) st(2,3)]
      show "back_srv st' q = Some r"
      proof (cases "backq st q")
        case None
        then show ?thesis using r b by (subst back_srv.simps) simp
      next
        case (Some p)
        have p: "p < length (sqs st)" by (rule backq_range [OF strst_okD(5) [OF st(1)] st(3) Some])
        then show ?thesis
          using r b Some IH [of st p r] st slinks_nth(3) [OF st(2) p] by (subst back_srv.simps) (auto split: if_splits)
      qed
    qed
  qed
  then show ?thesis using assms by blast
qed

lemma back_srv_same:
  assumes "strst_ok st" "strst_ok st'" "slinks st' = slinks st" "q < length (sqs st)"
  shows "back_srv st' q = back_srv st q"
proof -
  have "q < length (sqs st')" using slinks_nth(1) [OF assms(3,4)] assms(4) by simp
  then have "back_srv st q = Some r \<longleftrightarrow> back_srv st' q = Some r" for r
    using back_srv_mono [OF assms] back_srv_mono [OF assms(2,1) assms(3) [symmetric]] by blast
  then show ?thesis by (metis option.exhaust)
qed


section \<open>Flow control\<close>

lemma flag_band_fields:
  assumes "bands_ok ms xs q" "0 < pri" "pri \<le> q_nband q"
  shows "q_bandp (upd_band pri f q) ! (unat pri - 1) = f (q_bandp q ! (unat pri - 1))"
  using band_index [OF assms] by simp

definition over_hiwat :: "u8 \<Rightarrow> queue \<Rightarrow> bool" where
  "over_hiwat pri q \<longleftrightarrow>
     (if pri = 0 then q_hiwat q \<le> q_count q
      else pri \<le> q_nband q \<and> qb_hiwat (q_bandp q ! (unat pri - 1)) \<le> qb_count (q_bandp q ! (unat pri - 1)))"

text \<open>A queue behind gets a flag or more bands; its counts stay.\<close>

definition same_flow :: "queue \<Rightarrow> queue \<Rightarrow> bool" where
  "same_flow q q' \<longleftrightarrow> q_nband q \<le> q_nband q' \<and> q_count q' = q_count q \<and> q_lowat q' = q_lowat q \<and>
     q_flag q' AND QWANTW = q_flag q AND QWANTW \<and>
     (\<forall>pri. 0 < pri \<longrightarrow> pri \<le> q_nband q \<longrightarrow>
        (let b = q_bandp q ! (unat pri - 1); b' = q_bandp q' ! (unat pri - 1)
         in qb_count b' = qb_count b \<and> qb_lowat b' = qb_lowat b \<and> qb_flag b' AND QB_WANTW = qb_flag b AND QB_WANTW))"

lemma same_flow_refl [simp]: "same_flow q q"
  by (simp add: same_flow_def Let_def)

lemma same_flow_trans: "same_flow q q1 \<Longrightarrow> same_flow q1 q2 \<Longrightarrow> same_flow q q2"
  unfolding same_flow_def Let_def by (auto intro: order_trans)

lemma same_flowD:
  assumes "same_flow q q'" "pri \<le> q_nband q"
  shows "drained pri q' = drained pri q" "wanted_by pri q' = wanted_by pri q"
  using assms by (auto simp: same_flow_def drained_def wanted_by_def Let_def word_gt_0)

lemma same_flow_flag: "b AND QWANTW = 0 \<Longrightarrow> same_flow q (set_qflag b q)"
  by (simp add: same_flow_def Let_def and_or_disjoint)

lemma same_flow_qenable:
  "j < length (sqs st) \<Longrightarrow> same_flow (sqs st ! j) (sqs (qenable i st) ! j)"
  by (cases "i < length (sqs st)") (auto simp: qenable_def upd_q_def nth_list_update list_update_beyond same_flow_flag bit_apart)

lemma same_flow_setqback:
  assumes ok: "strst_ok st" and i: "i < length (sqs st)"
  shows "same_flow (sqs st ! j) (sqs (setqback i pri st) ! j)"
proof (cases "j = i")
  case False
  then show ?thesis using setqback_keeps(5) [OF ok i False] by simp
next
  case True
  show ?thesis
  proof (cases "pri = 0")
    case True
    then show ?thesis using \<open>j = i\<close> i by (simp add: setqback_def same_flow_flag bit_apart)
  next
    case False
    obtain b st1 where r: "need_band i pri st = (b, st1)" by (cases "need_band i pri st")
    note n = need_band_keeps [OF ok i r]
    note k = keepsD [OF n(1)]
    have i1: "i < length (sqs st1)" using i k(5) by simp
    have pos: "0 < pri" using False by (simp add: word_gt_0)
    have bd: "bands_ok (smsgs st) (q_msgs (sqs st ! i)) (sqs st ! i)" "bands_ok (smsgs st1) (q_msgs (sqs st1 ! i)) (sqs st1 ! i)"
      using strst_okD(2) [OF ok i] strst_okD(2) [OF k(1) i1] by (simp_all add: queue_ok_def)
    obtain bs where bs: "q_bandp (sqs st1 ! i) = q_bandp (sqs st ! i) @ bs" using n(11) by blast
    have nb: "q_nband (sqs st ! i) \<le> q_nband (sqs st1 ! i)"
      using bd bs by (simp add: bands_ok_def word_le_nat_alt)
    have lo: "q_lowat (sqs st1 ! i) = q_lowat (sqs st ! i)"
      using r band_loop_ok [OF _ strst_okD(2) [OF ok i]] i by (auto simp: need_band_def upd_q_def split: prod.splits)
    have s1: "same_flow (sqs st ! i) (sqs st1 ! i)"
      using n(6,10) nb lo band_index [OF bd(1)] by (auto simp: same_flow_def Let_def bs nth_append)
    have "same_flow (sqs st1 ! i) (upd_band pri (set_bflag QB_BACK) (sqs st1 ! i))" if b
      using band_index [OF bd(2) pos n(2) [OF that]]
      by (auto simp: same_flow_def Let_def nth_list_update and_or_disjoint q_bits)
    then show ?thesis using s1 r False \<open>j = i\<close> i1 by (auto simp: setqback_def intro: same_flow_trans)
  qed
qed

text \<open>
  After \<open>drain_enable\<close>: if the band has drained and was waited for, the wish is taken back and the
  service procedure behind, if there is one, is going to run; if not, nothing has changed.
\<close>

lemma drain_enable_spec:
  assumes ok: "strst_ok st" and i: "i < length (sqs st)" and pri: "pri \<le> q_nband (sqs st ! i)"
    and r: "drain_enable i pri st = Some st'"
  shows "drained pri (sqs st' ! i) = drained pri (sqs st ! i) \<and> q_nband (sqs st ! i) \<le> q_nband (sqs st' ! i) \<and>
    (if drained pri (sqs st ! i) \<and> wanted_by pri (sqs st ! i)
     then \<not> wanted_by pri (sqs st' ! i) \<and> (\<forall>p. back_srv st i = Some (Some p) \<longrightarrow> p \<in> set (qrun st'))
     else st' = st)"
proof (cases "drained pri (sqs st ! i) \<and> wanted_by pri (sqs st ! i)")
  case False
  then have "st' = st" using r by (auto simp: drain_enable_def)
  then show ?thesis using False by simp
next
  case True
  let ?st1 = "clear_want i pri st"
  have b: "back_enable i pri st = Some st'" using r True by (simp add: drain_enable_def)
  have k: "keeps st ?st1" by (rule clear_want_keeps [OF ok i pri])
  note k1 = keepsD [OF k]
  have i1: "i < length (sqs ?st1)" using i k1(5) by simp
  have bs: "back_srv ?st1 i = back_srv st i" by (rule back_srv_same [OF ok k1(1) slinks_clear_want i])
  have bd: "bands_ok (smsgs st) (q_msgs (sqs st ! i)) (sqs st ! i)" using strst_okD(2) [OF ok i] by (simp add: queue_ok_def)
  have w: "drained pri (sqs ?st1 ! i) = drained pri (sqs st ! i)" "\<not> wanted_by pri (sqs ?st1 ! i)"
    using band_index [OF bd _ pri] i
    by (auto simp: clear_want_def drained_def wanted_by_def and_not_same word_gt_0)
  have nb: "pri \<le> q_nband (sqs ?st1 ! i)" using pri i by (simp add: clear_want_def)
  have "same_flow (sqs ?st1 ! i) (sqs st' ! i)"
  proof -
    consider "st' = ?st1" | p where "back_srv ?st1 i = Some (Some p)" "st' = setqback p pri (qenable p ?st1)"
      using b by (auto simp: back_enable_def Let_def split: option.splits)
    then show ?thesis
    proof cases
      case 2
      have p: "p < length (sqs ?st1)" using back_srv_range [OF 2(1) strst_okD(5) [OF k1(1)] i1 refl] by simp
      note e = keepsD [OF qenable_keeps(1) [OF k1(1) p]]
      have "same_flow (sqs (qenable p ?st1) ! i) (sqs st' ! i)"
        unfolding 2(2) by (rule same_flow_setqback [OF e(1)]) (use e(5) p in simp)
      with same_flow_qenable [OF i1] show ?thesis by (rule same_flow_trans)
    qed simp
  qed
  note f = same_flowD [OF this nb] this
  have "q_nband (sqs st ! i) \<le> q_nband (sqs st' ! i)"
  proof -
    have "q_nband (sqs ?st1 ! i) = q_nband (sqs st ! i)" using i by (auto simp: clear_want_def)
    then show ?thesis using f(3) by (simp add: same_flow_def)
  qed
  moreover have "\<forall>p. back_srv st i = Some (Some p) \<longrightarrow> p \<in> set (qrun st')"
    using back_enable_keeps(2) [OF ok i pri b] bs by simp
  ultimately show ?thesis using True f w by simp
qed

lemma back_enable_returns:
  assumes ok: "strst_ok st" and ac: "acyclic_streams st" and i: "i < length (sqs st)" and pri: "pri \<le> q_nband (sqs st ! i)"
  shows "\<exists>st'. back_enable i pri st = Some st'"
proof -
  let ?st1 = "clear_want i pri st"
  have k: "keeps st ?st1" by (rule clear_want_keeps [OF ok i pri])
  have "\<exists>r. back_srv ?st1 i = Some r"
    using back_srv_returns [OF strst_okD(5) [OF keepsD(1) [OF k]] acyclic_links [OF ok keepsD(1) [OF k] _ ac]] i keepsD(5) [OF k] by simp
  then show ?thesis by (auto simp: back_enable_def Let_def split: option.splits)
qed

lemma drain_enable_returns:
  assumes "strst_ok st" "acyclic_streams st" "i < length (sqs st)" "pri \<le> q_nband (sqs st ! i)"
  shows "\<exists>st'. drain_enable i pri st = Some st'"
  using back_enable_returns [OF assms] by (simp add: drain_enable_def)

text \<open>The same for the removal of a message.\<close>

lemma rmvq_take_flow:
  assumes q: "queue_ok (smsgs st) q" and xs: "q_msgs q = X @ m # Y"
  shows "wanted_by pri (rmvq_take st m q) = wanted_by pri q"
proof -
  have ch: "chain_ok (smsgs st) (q_nband q) (X @ m # Y)" and bd: "bands_ok (smsgs st) (X @ m # Y) q"
    using q xs by (simp_all add: queue_ok_def)
  have mX: "m \<notin> set X" using ch by (auto simp: chain_ok_def)
  note eq = rmvq_take_split [OF xs mX, of st]
  show ?thesis
  proof (cases "b_band (mb st m) = 0")
    case True
    then show ?thesis unfolding eq using count_flags(1) [of QWANTW] by (simp add: credit_def wanted_by_def bit_apart q_bits)
  next
    case False
    let ?p = "b_band (mb st m)"
    have p: "0 < ?p" "?p \<le> q_nband q" using False ch by (simp_all add: word_gt_0 chain_ok_def mb_def)
    have f: "qb_flag (credit_band (mb st m) (rmvq_ptrs st k xs qb)) AND QB_WANTW = qb_flag qb AND QB_WANTW" for k xs qb
      by (simp add: credit_band_def rmvq_ptrs_def Let_def and_and_not bit_apart)
    have "qb_flag (q_bandp (rmvq_take st m q) ! j) AND QB_WANTW = qb_flag (q_bandp q ! j) AND QB_WANTW" for j
      unfolding eq using False band_index [OF bd p] f by (simp add: credit_def nth_list_update)
    moreover have "q_flag (rmvq_take st m q) = q_flag q" unfolding eq using False by (simp add: credit_def)
    ultimately show ?thesis by (simp add: wanted_by_def)
  qed
qed

lemma rmvq_flow:
  assumes ok: "strst_ok st" and i: "i < length (sqs st)" and xs: "q_msgs (sqs st ! i) = X @ m # Y"
    and r: "rmvq i m st = Some st'"
  shows "slinks st' = slinks st \<and> q_nband (sqs st ! i) \<le> q_nband (sqs st' ! i) \<and>
    (if drained (b_band (mb st m)) (sqs st' ! i) \<and> wanted_by (b_band (mb st m)) (sqs st ! i)
     then \<not> wanted_by (b_band (mb st m)) (sqs st' ! i) \<and> (\<forall>p. back_srv st i = Some (Some p) \<longrightarrow> p \<in> set (qrun st'))
     else wanted_by (b_band (mb st m)) (sqs st' ! i) = wanted_by (b_band (mb st m)) (sqs st ! i))"
proof -
  let ?st1 = "upd_q i (rmvq_take st m) st"
  have q: "queue_ok (smsgs st) (sqs st ! i)" by (rule strst_okD(2) [OF ok i])
  have mX: "m \<notin> set X" using q xs by (auto simp: queue_ok_def chain_ok_def)
  note t = rmvq_taken [OF ok i xs] and l = rmvq_take_links [OF xs mX, where st = st]
  have sl: "slinks ?st1 = slinks st" by (rule slinks_upd) (use l in simp_all)
  have i1: "i < length (sqs ?st1)" using i by simp
  have r1: "drain_enable i (b_band (mb st m)) ?st1 = Some st'" using r by (simp add: rmvq_def)
  have w: "wanted_by (b_band (mb st m)) (sqs ?st1 ! i) = wanted_by (b_band (mb st m)) (sqs st ! i)"
    using rmvq_take_flow [OF q xs] i by simp
  have nb: "q_nband (sqs ?st1 ! i) = q_nband (sqs st ! i)" using rmvq_take_ok(3) [OF q xs] i by simp
  have bs: "back_srv ?st1 i = back_srv st i" by (rule back_srv_same [OF ok t(1) sl i])
  show ?thesis
    using drain_enable_spec [OF t(1) i1 t(3) r1] slinks_drain_enable [OF t(1) i1 t(3) r1] sl w bs nb
    by (auto split: if_splits)
qed

lemma rmvq_returns:
  assumes ok: "strst_ok st" and ac: "acyclic_streams st" and i: "i < length (sqs st)" and xs: "q_msgs (sqs st ! i) = X @ m # Y"
  shows "\<exists>st'. rmvq i m st = Some st'"
proof -
  have q: "queue_ok (smsgs st) (sqs st ! i)" by (rule strst_okD(2) [OF ok i])
  have mX: "m \<notin> set X" using q xs by (auto simp: queue_ok_def chain_ok_def)
  note t = rmvq_taken [OF ok i xs] and l = rmvq_take_links [OF xs mX, where st = st]
  have sl: "slinks (upd_q i (rmvq_take st m) st) = slinks st" by (rule slinks_upd) (use l in simp_all)
  show ?thesis
    unfolding rmvq_def by (rule drain_enable_returns [OF t(1) acyclic_links [OF ok t(1) sl ac] _ t(3)]) (use i in simp)
qed

lemma cleared_read:
  assumes ok: "strst_ok st" and i: "i < length (sqs st)"
  defines "st1 \<equiv> upd_q i (clear_qflag QWANTR) st"
  shows "strst_ok st1" "i < length (sqs st1)" "q_msgs (sqs st1 ! i) = q_msgs (sqs st ! i)" "slinks st1 = slinks st"
    "back_srv st1 i = back_srv st i" "wanted_by pri (sqs st1 ! i) = wanted_by pri (sqs st ! i)" "mb st1 = mb st"
    "q_nband (sqs st1 ! i) = q_nband (sqs st ! i)" "qchains st1 = qchains st" "smsgs st1 = smsgs st" "sfreed st1 = sfreed st"
proof -
  have k: "keeps st st1" unfolding st1_def by (rule keeps_flag(2) [OF ok i]) (simp_all add: bit_apart)
  show s: "strst_ok st1" "qchains st1 = qchains st" "smsgs st1 = smsgs st" "sfreed st1 = sfreed st" using keepsD [OF k] by simp_all
  show l: "slinks st1 = slinks st" unfolding st1_def by (rule slinks_upd) simp_all
  show "back_srv st1 i = back_srv st i" by (rule back_srv_same [OF ok s(1) l i])
  show "i < length (sqs st1)" "q_msgs (sqs st1 ! i) = q_msgs (sqs st ! i)" "mb st1 = mb st" "q_nband (sqs st1 ! i) = q_nband (sqs st ! i)"
    "wanted_by pri (sqs st1 ! i) = wanted_by pri (sqs st ! i)"
    using i by (simp_all add: st1_def mb_def wanted_by_def and_and_not bit_apart fun_eq_iff)
qed

lemma getq_head:
  assumes ok: "strst_ok st" and ac: "acyclic_streams st" and i: "i < length (sqs st)" and xs: "q_msgs (sqs st ! i) = m # Y"
    and g: "b_flag (mb st m) AND MSGNOGET = 0"
  obtains st' where "getq i st = Some (Some m, st')" "strst_ok st'" "acyclic_streams st'" "qchains st' = (qchains st)[i := Y]"
    "smsgs st' = smsgs st" "q_nband (sqs st ! i) \<le> q_nband (sqs st' ! i)"
proof -
  let ?st1 = "upd_q i (clear_qflag QWANTR) st"
  note c = cleared_read [OF ok i]
  have x1: "q_msgs (sqs ?st1 ! i) = [] @ m # Y" using c(3) xs by simp
  have ac1: "acyclic_streams ?st1" by (rule acyclic_links [OF ok c(1,4) ac])
  obtain st' where r: "rmvq i m ?st1 = Some st'" using rmvq_returns [OF c(1) ac1 c(2) x1] by blast
  note f = rmvq_flow [OF c(1,2) x1 r] and k = rmvq_ok [OF c(1,2) x1 r]
  show ?thesis
  proof (rule that)
    show "getq i st = Some (Some m, st')" using getq_rmvq [OF ok i xs g] r by simp
    show "strst_ok st'" "smsgs st' = smsgs st" "qchains st' = (qchains st)[i := Y]" using k c(9,10) by simp_all
    then show "acyclic_streams st'" using acyclic_links [OF c(1) _ _ ac1] f by blast
    show "q_nband (sqs st ! i) \<le> q_nband (sqs st' ! i)" using f c(8) by simp
  qed
qed

section \<open>A stable priority queue\<close>

text \<open>
  What a module relies on: messages put on come off by rank, and in the order they were put on
  within a rank.  \<open>ready st S\<close> says that the messages of \<open>S\<close> may be put on.
\<close>

fun take_all :: "('s \<Rightarrow> ('m option \<times> 's) option) \<Rightarrow> nat \<Rightarrow> 's \<Rightarrow> ('m list \<times> 's) option" where
  "take_all get 0 st = Some ([], st)"
| "take_all get (Suc n) st =
     (case get st of
        Some (Some m, st1) \<Rightarrow> map_option (\<lambda>(ms, st2). (m # ms, st2)) (take_all get n st1)
      | _ \<Rightarrow> None)"

locale prio_queue =
  fixes put :: "'m \<Rightarrow> 's \<Rightarrow> 's" and get :: "'s \<Rightarrow> ('m option \<times> 's) option" and items :: "'s \<Rightarrow> 'm list"
    and rank :: "'m \<Rightarrow> nat" and ready :: "'s \<Rightarrow> 'm set \<Rightarrow> bool"
  assumes put_items: "ready st S \<Longrightarrow> m \<in> S \<Longrightarrow>
      items (put m st) = filter (\<lambda>x. rank m \<le> rank x) (items st) @ m # filter (\<lambda>x. rank x < rank m) (items st)"
    and put_ready: "ready st S \<Longrightarrow> m \<in> S \<Longrightarrow> ready (put m st) (S - {m})"
    and get_items: "ready st S \<Longrightarrow> items st = m # ms \<Longrightarrow> \<exists>st'. get st = Some (Some m, st') \<and> items st' = ms \<and> ready st' S"
    and items_sorted: "ready st S \<Longrightarrow> sorted (map (\<lambda>x. - int (rank x)) (items st))"
begin

lemma put_sort:
  assumes "ready st S" "m \<in> S"
  shows "items (put m st) = sort_key (\<lambda>x. - int (rank x)) (items st @ [m])"
proof (rule properties_for_sort_key [symmetric])
  note i = put_items [OF assms]
  show "mset (items (put m st)) = mset (items st @ [m])"
    using multiset_partition [of "mset (items st)" "\<lambda>x. rank m \<le> rank x"] by (simp add: i not_le)
  show "sorted (map (\<lambda>x. - int (rank x)) (items (put m st)))"
    by (rule items_sorted [OF put_ready [OF assms]])
  fix x
  have "filter (\<lambda>y. rank x = rank y) (items (put m st)) = filter (\<lambda>y. rank x = rank y) (items st @ [m])"
  proof (cases "rank m \<le> rank x")
    case True
    then have "filter (\<lambda>y. rank x = rank y) (filter (\<lambda>y. rank m \<le> rank y) (items st)) = filter (\<lambda>y. rank x = rank y) (items st)"
      "filter (\<lambda>y. rank x = rank y) (filter (\<lambda>y. rank y < rank m) (items st)) = []"
      by (auto intro!: filter_cong simp: filter_empty_conv)
    then show ?thesis by (simp add: i)
  next
    case False
    then have "filter (\<lambda>y. rank x = rank y) (filter (\<lambda>y. rank y < rank m) (items st)) = filter (\<lambda>y. rank x = rank y) (items st)"
      "filter (\<lambda>y. rank x = rank y) (filter (\<lambda>y. rank m \<le> rank y) (items st)) = []"
      by (auto intro!: filter_cong simp: filter_empty_conv)
    then show ?thesis using False by (simp add: i)
  qed
  then show "filter (\<lambda>y. - int (rank x) = - int (rank y)) (items (put m st)) =
      filter (\<lambda>y. - int (rank x) = - int (rank y)) (items st @ [m])" by simp
qed

lemma sort_append: "sort_key f (sort_key f xs @ ys) = sort_key f (xs @ ys)"
proof -
  have "filter (\<lambda>x. f k = f x) (sort_key f zs) = filter (\<lambda>x. f k = f x) zs" for k zs
    using sort_key_stable [of f "f k" zs] by (simp add: eq_commute [of "f k"])
  then show ?thesis by (intro properties_for_sort_key) simp_all
qed

lemma put_all:
  assumes "ready st S" "set xs \<subseteq> S" "distinct xs"
  shows "items (fold put xs st) = sort_key (\<lambda>x. - int (rank x)) (items st @ xs)" "ready (fold put xs st) (S - set xs)"
proof -
  have "items (fold put xs st) = sort_key (\<lambda>x. - int (rank x)) (items st @ xs) \<and> ready (fold put xs st) (S - set xs)"
    using assms
  proof (induction xs arbitrary: st S)
    case Nil
    then show ?case using sorted_sort_id items_sorted by (simp add: sort_key_id_if_sorted)
  next
    case (Cons m xs)
    then have m: "m \<in> S" by simp
    have "set xs \<subseteq> S - {m}" using Cons.prems by auto
    then have IH: "items (fold put xs (put m st)) = sort_key (\<lambda>x. - int (rank x)) (items (put m st) @ xs)"
      "ready (fold put xs (put m st)) (S - {m} - set xs)"
      using Cons.IH [OF put_ready [OF Cons.prems(1) m]] Cons.prems(3) by simp_all
    then show ?case
      using sort_append [of "\<lambda>x. - int (rank x)" "items st @ [m]" xs] put_sort [OF Cons.prems(1) m]
      by (simp add: Diff_insert2 [symmetric])
  qed
  then show "items (fold put xs st) = sort_key (\<lambda>x. - int (rank x)) (items st @ xs)" "ready (fold put xs st) (S - set xs)"
    by simp_all
qed

lemma get_all:
  assumes "ready st S"
  shows "\<exists>st'. take_all get (length (items st)) st = Some (items st, st') \<and> items st' = []"
  using assms
proof (induction "items st" arbitrary: st)
  case Nil
  then show ?case by simp
next
  case (Cons m ms)
  obtain st1 where g: "get st = Some (Some m, st1)" and s: "items st1 = ms" "ready st1 S"
    using get_items [OF Cons.prems] Cons.hyps(2) by metis
  from Cons.hyps(1) [of st1] s obtain st' where
    "take_all get (length ms) st1 = Some (ms, st')" "items st' = []" by auto
  then show ?case using g Cons.hyps(2) [symmetric] by simp
qed

end

text \<open>The queue \<open>i\<close> of a stream is one, with \<open>putq\<close> and \<open>getq\<close>.\<close>

definition putq_st :: "nat \<Rightarrow> nat \<Rightarrow> strst \<Rightarrow> strst" where
  "putq_st i m st = snd (putq i m st)"

definition q_items :: "nat \<Rightarrow> strst \<Rightarrow> nat list" where
  "q_items i st = q_msgs (sqs st ! i)"

definition q_ready :: "nat \<Rightarrow> mblk list \<Rightarrow> strst \<Rightarrow> nat set \<Rightarrow> bool" where
  "q_ready i ms st S \<longleftrightarrow> strst_ok st \<and> acyclic_streams st \<and> i < length (sqs st) \<and> smsgs st = ms \<and>
     (\<forall>m\<in>S. m < length ms \<and> \<not> on_queue st m \<and> mblk_ok (ms ! m) \<and> b_band (ms ! m) \<le> q_nband (sqs st ! i) \<and>
        b_flag (ms ! m) AND MSGNOGET = 0) \<and>
     (\<forall>m\<in>set (q_items i st). b_flag (ms ! m) AND MSGNOGET = 0)"

lemma items_update:
  assumes "qchains st' = (qchains st)[i := xs]" "i < length (sqs st)"
  shows "q_items i st' = xs" "length (sqs st') = length (sqs st)"
    "on_queue st' m \<longleftrightarrow> m \<in> set xs \<or> (\<exists>j<length (sqs st). j \<noteq> i \<and> m \<in> set (q_msgs (sqs st ! j)))"
proof -
  have l: "length (qchains st) = length (sqs st)" by (simp add: qchains_def)
  show len: "length (sqs st') = length (sqs st)" using arg_cong [OF assms(1), of length] by (simp add: qchains_def)
  show "q_items i st' = xs" using qchains_nth [of i st'] assms l len by (simp add: q_items_def)
  show "on_queue st' m \<longleftrightarrow> m \<in> set xs \<or> (\<exists>j<length (sqs st). j \<noteq> i \<and> m \<in> set (q_msgs (sqs st ! j)))"
  proof -
    have n: "qchains st' ! j = (if j = i then xs else q_msgs (sqs st ! j))" if "j < length (sqs st)" for j
      using assms l qchains_nth [OF that] by (simp add: nth_list_update)
    have "on_queue st' m \<longleftrightarrow> (\<exists>j<length (sqs st). m \<in> set (if j = i then xs else q_msgs (sqs st ! j)))"
      unfolding on_queue_iff len by (rule ex_cong1) (use n in auto)
    then show ?thesis using assms(2) by (auto split: if_splits)
  qed
qed

lemma putq_ready:
  assumes r: "q_ready i ms st S" and m: "m \<in> S"
  shows "q_items i (putq_st i m st) = filter (\<lambda>x. prio (ms ! m) \<le> prio (ms ! x)) (q_items i st) @ m #
      filter (\<lambda>x. prio (ms ! x) < prio (ms ! m)) (q_items i st)" (is ?A)
    "q_ready i ms (putq_st i m st) (S - {m})" (is ?B)
proof -
  have ok: "strst_ok st" "i < length (sqs st)" "m < length (smsgs st)" "\<not> on_queue st m" "mblk_ok (mb st m)"
    "b_band (mb st m) \<le> q_nband (sqs st ! i)" and ms: "smsgs st = ms"
    using r m by (auto simp: q_ready_def mb_def)
  note p = putq_back [OF ok]
  note u = items_update [OF p(2) ok(2)]
  have sl: "slinks (putq_st i m st) = slinks st"
  proof -
    have f: "force_band m st = st" by (rule force_band_same [OF ok(5)])
    have "band_for i m st = (True, st)"
    proof (cases "b_band (mb st m) = 0")
      case False
      obtain b st' where n: "need_band i (b_band (mb st m)) st = (b, st')" by (cases "need_band i (b_band (mb st m)) st")
      then show ?thesis using need_band_keeps(7) [OF ok(1,2) n] ok(6) False by (simp add: band_for_def f)
    qed (simp add: band_for_def f)
    then have "putq_st i m st = put_enable i (queclass (mb st m))
        (upd_q i (link_in (putq_pos st (sqs st ! i) m) (putq_ptrs m) m (mb st m)) st)"
      by (simp add: putq_st_def putq_def Let_def)
    moreover have "slinks (upd_q i (link_in k (putq_ptrs m) m (mb st m)) st) = slinks st" for k
      by (rule slinks_upd) simp_all
    ultimately show ?thesis by (simp add: put_enable_def)
  qed
  show ?A using u(1) by (simp add: putq_st_def put_after_def q_items_def [of i st] mb_def ms)
  then have items: "set (q_items i (putq_st i m st)) = insert m (set (q_items i st))" by auto
  have oq: "on_queue (putq_st i m st) x \<longleftrightarrow> x = m \<or> on_queue st x" for x
    using u(3) [of x] u(1) items by (auto simp: putq_st_def on_queue_def q_items_def [of i st] ok(2))
  show ?B
    unfolding q_ready_def
  proof (intro conjI)
    show "acyclic_streams (putq_st i m st)"
      by (rule acyclic_links [OF ok(1) _ sl]) (use p(1) r in \<open>simp_all add: putq_st_def q_ready_def\<close>)
  qed (use p(1,3,5) u(2) ok(2) r m oq items in \<open>auto simp: q_ready_def putq_st_def\<close>)
qed

lemma getq_ready:
  assumes r: "q_ready i ms st S" and xs: "q_items i st = m # Y"
  shows "\<exists>st'. getq i st = Some (Some m, st') \<and> q_items i st' = Y \<and> q_ready i ms st' S"
proof -
  have ok: "strst_ok st" "acyclic_streams st" "i < length (sqs st)" "q_msgs (sqs st ! i) = m # Y" "b_flag (mb st m) AND MSGNOGET = 0"
    using r xs by (auto simp: q_ready_def q_items_def mb_def)
  obtain st' where g: "getq i st = Some (Some m, st')" "strst_ok st'" "acyclic_streams st'" "qchains st' = (qchains st)[i := Y]"
    "smsgs st' = smsgs st" "q_nband (sqs st ! i) \<le> q_nband (sqs st' ! i)"
    by (rule getq_head [OF ok])
  note u = items_update [OF g(4) ok(3)]
  have "\<not> on_queue st x \<Longrightarrow> \<not> on_queue st' x" for x
    using u(3) [of x] ok(3,4) by (auto simp: on_queue_def)
  then have "q_ready i ms st' S"
    using r g u xs unfolding q_ready_def by (auto intro: order_trans)
  then show ?thesis using g(1) u(1) by blast
qed

interpretation sq: prio_queue "putq_st i" "getq i" "q_items i" "\<lambda>m. prio (ms ! m)" "q_ready i ms" for i ms
proof
  fix st S
  assume "q_ready i ms st S"
  then have "chain_ok (smsgs st) (q_nband (sqs st ! i)) (q_items i st)" "smsgs st = ms"
    using strst_okD(2) [of st i] by (auto simp: q_ready_def queue_ok_def q_items_def)
  then show "sorted (map (\<lambda>x. - int (prio (ms ! x))) (q_items i st))"
    by (simp add: chain_ok_def sorted_map)
qed (fact putq_ready(1), fact putq_ready(2), fact getq_ready)

section \<open>Returning, and the put side of flow control\<close>

lemma getq_returns:
  assumes ok: "strst_ok st" and ac: "acyclic_streams st" and i: "i < length (sqs st)"
  shows "\<exists>bp st'. getq i st = Some (bp, st')"
proof (cases "q_msgs (sqs st ! i)")
  case Nil
  let ?st1 = "upd_q i (set_qflag QWANTR) st"
  have k1: "keeps st ?st1" by (rule keeps_flag(1) [OF ok i]) (simp_all add: bit_apart)
  have "slinks ?st1 = slinks st" by (rule slinks_upd) simp_all
  then have ac1: "acyclic_streams ?st1" using acyclic_links [OF ok keepsD(1) [OF k1] _ ac] by blast
  have "\<exists>st'. back_enable i 0 ?st1 = Some st'" if "wanted_by 0 (sqs ?st1 ! i)"
    using back_enable_returns [OF keepsD(1) [OF k1] ac1, of i 0] i by simp
  then show ?thesis using Nil by (auto simp: getq_def Let_def)
next
  case (Cons m Y)
  show ?thesis
  proof (cases "b_flag (mb st m) AND MSGNOGET = 0")
    case True
    then show ?thesis using getq_head [OF ok ac i Cons] by metis
  next
    case False
    show ?thesis
    proof (cases "dropWhile (\<lambda>m. b_flag (mb st m) AND MSGNOGET \<noteq> 0) (m # Y)")
      case Nil
      then show ?thesis using Cons False by (simp add: getq_def del: dropWhile_eq_Nil_conv)
    next
      case d: (Cons x Z)
      have "m # Y = takeWhile (\<lambda>m. b_flag (mb st m) AND MSGNOGET \<noteq> 0) (m # Y) @ x # Z"
        using takeWhile_dropWhile_id [of "\<lambda>m. b_flag (mb st m) AND MSGNOGET \<noteq> 0" "m # Y"] d by metis
      then obtain st' where "rmvq i x st = Some st'"
        using rmvq_returns [OF ok ac i] Cons by metis
      then have "getq i st = Some (Some x, st')" using Cons False d by (simp add: getq_def)
      then show ?thesis by blast
    qed
  qed
qed

lemma fwd_srv_range:
  assumes "fwd_srv st q = Some r" "links_ok st" "q < length (sqs st)"
  shows "r < length (sqs st) \<and> (qi_srvp (sqs st ! r) \<or> q_next (sqs st ! r) = None)"
proof -
  have "links_ok st \<longrightarrow> q < length (sqs st) \<longrightarrow> r < length (sqs st) \<and> (qi_srvp (sqs st ! r) \<or> q_next (sqs st ! r) = None)"
  proof (rule fwd_srv.raw_induct [OF _ assms(1)])
    fix srv st q r
    assume IH: "\<And>st q r. srv st q = Some r \<Longrightarrow>
        links_ok st \<longrightarrow> q < length (sqs st) \<longrightarrow> r < length (sqs st) \<and> (qi_srvp (sqs st ! r) \<or> q_next (sqs st ! r) = None)"
      and r: "(case q_next (sqs st ! q) of None \<Rightarrow> Some q | Some n \<Rightarrow> if qi_srvp (sqs st ! q) then Some q else srv st n) = Some r"
    show "links_ok st \<longrightarrow> q < length (sqs st) \<longrightarrow> r < length (sqs st) \<and> (qi_srvp (sqs st ! r) \<or> q_next (sqs st ! r) = None)"
    proof (intro impI)
      assume st: "links_ok st" "q < length (sqs st)"
      show "r < length (sqs st) \<and> (qi_srvp (sqs st ! r) \<or> q_next (sqs st ! r) = None)"
      proof (cases "q_next (sqs st ! q)")
        case None
        then show ?thesis using r st by simp
      next
        case (Some n)
        then have "n < length (sqs st)" using st by (auto simp: links_ok_def)
        then show ?thesis using r Some IH [of st n r] st by (auto split: if_splits)
      qed
    qed
  qed
  then show ?thesis using assms(2,3) by simp
qed

lemma full_iff:
  assumes "queue_ok ms q"
  shows "0 < q_hiwat q \<Longrightarrow> q_flag q AND QFULL \<noteq> 0 \<longleftrightarrow> q_hiwat q \<le> q_count q"
    "0 < pri \<Longrightarrow> pri \<le> q_nband q \<Longrightarrow> 0 < qb_hiwat (q_bandp q ! (unat pri - 1)) \<Longrightarrow>
      qb_flag (q_bandp q ! (unat pri - 1)) AND QB_FULL \<noteq> 0 \<longleftrightarrow>
      qb_hiwat (q_bandp q ! (unat pri - 1)) \<le> qb_count (q_bandp q ! (unat pri - 1))"
proof -
  have bd: "bands_ok ms (q_msgs q) q" using assms by (simp add: queue_ok_def)
  then show "0 < q_hiwat q \<Longrightarrow> q_flag q AND QFULL \<noteq> 0 \<longleftrightarrow> q_hiwat q \<le> q_count q"
    by (simp add: bands_ok_def full_ok_def)
  show "qb_flag (q_bandp q ! (unat pri - 1)) AND QB_FULL \<noteq> 0 \<longleftrightarrow>
      qb_hiwat (q_bandp q ! (unat pri - 1)) \<le> qb_count (q_bandp q ! (unat pri - 1))"
    if "0 < pri" "pri \<le> q_nband q" "0 < qb_hiwat (q_bandp q ! (unat pri - 1))"
    using band_okD [OF bd that(1,2)] that(3) by (simp add: band_ok_def full_ok_def)
qed

lemma bcanput_spec:
  assumes ok: "strst_ok st" and q: "fwd_srv st q0 = Some q" "q0 < length (sqs st)"
    and hi: "if pri = 0 then 0 < q_hiwat (sqs st ! q) else pri \<le> q_nband (sqs st ! q) \<longrightarrow> 0 < qb_hiwat (q_bandp (sqs st ! q) ! (unat pri - 1))"
  shows "\<exists>st'. bcanput (Some q0) pri st = Some (\<not> over_hiwat pri (sqs st ! q), st') \<and> keeps st st' \<and>
    (over_hiwat pri (sqs st ! q) \<longrightarrow> wanted_by pri (sqs st' ! q)) \<and> (\<not> over_hiwat pri (sqs st ! q) \<longrightarrow> st' = st)"
proof -
  have ql: "q < length (sqs st)" using fwd_srv_range [OF q(1) strst_okD(5) [OF ok] q(2)] by simp
  note f = full_iff [OF strst_okD(2) [OF ok ql]]
  consider "pri = 0" | "q_nband (sqs st ! q) < pri" "pri \<noteq> 0" | "0 < pri" "pri \<le> q_nband (sqs st ! q)" "pri \<noteq> 0"
    using word_gt_0 not_less by blast
  then show ?thesis
  proof cases
    case 1
    have "keeps st (upd_q q (set_qflag QWANTW) st)" by (rule keeps_flag(1) [OF ok ql]) (simp_all add: bit_apart)
    moreover have "QWANTW \<noteq> 0" by (simp add: q_bits)
    ultimately show ?thesis
      using 1 q f(1) hi ql keeps_refl [OF ok]
      by (auto simp: bcanput_def over_hiwat_def wanted_by_def and_or_same)
  next
    case 2
    then show ?thesis using q keeps_refl [OF ok] by (auto simp: bcanput_def over_hiwat_def)
  next
    case 3
    have "bands_ok (smsgs st) (q_msgs (sqs st ! q)) (sqs st ! q)" using strst_okD(2) [OF ok ql] by (simp add: queue_ok_def)
    note i = band_index [OF this 3(1,2)]
    have "keeps st (upd_q q (upd_band pri (set_bflag QB_WANTW)) st)"
      by (rule upd_band_keeps(1) [OF ok ql 3(1,2)]) (simp add: bit_apart)
    moreover have "QB_WANTW \<noteq> 0" by (simp add: q_bits)
    ultimately show ?thesis
      using 3 q f(2) hi ql i keeps_refl [OF ok]
      by (auto simp: bcanput_def over_hiwat_def wanted_by_def and_or_same)
  qed
qed

lemma canput_bcanput: "canput q st = bcanput q 0 st"
  by (simp add: canput_def bcanput_def split: option.split)

section \<open>Properties\<close>

text \<open>
  The data of the witnesses: the queues of a module (0 to read, 1 to write) over those of a driver
  (2 and 3), one message of five bytes on queue 0, which is full and waited for, and messages of band
  1, of band 0 and of high priority that are on no queue.
\<close>

definition idle_queue :: "u32 \<Rightarrow> bool \<Rightarrow> nat option \<Rightarrow> queue" where
  "idle_queue flag srv nxt = \<lparr>qi_srvp = srv, q_msgs = [], q_next = nxt, q_count = 0, q_flag = flag, q_minpsz = 0,
     q_maxpsz = 512, q_hiwat = 4, q_lowat = 2, q_bandp = [], q_nband = 0\<rparr>"

definition str0 :: strst where
  "str0 = \<lparr>sqs =
       [(idle_queue (QREADR OR QFULL OR QWANTW) True None)\<lparr>q_msgs := [1], q_count := 5,
          q_bandp := [new_band (idle_queue 0 True None)], q_nband := 1\<rparr>,
        idle_queue 0 False (Some 3), idle_queue QREADR True (Some 0), idle_queue 0 True None],
     smsgs = [\<lparr>b_band = 1, b_flag = 0, db_type = M_DATA, b_sizes = [10]\<rparr>,
        \<lparr>b_band = 0, b_flag = 0, db_type = M_DATA, b_sizes = [3, 2]\<rparr>,
        \<lparr>b_band = 0, b_flag = 0, db_type = M_PCPROTO, b_sizes = [3]\<rparr>,
        \<lparr>b_band = 1, b_flag = 0, db_type = M_PROTO, b_sizes = [4]\<rparr>],
     qrun = [], qrunflag = False, sfreed = [], kmem = [True], qband_cnt = 1, strcount = 40\<rparr>"

lemma idle_ok: "f AND QFULL = 0 \<Longrightarrow> queue_ok ms (idle_queue f s n)"
  by (auto simp: idle_queue_def queue_ok_def chain_ok_def bands_ok_def full_ok_def)

lemma str0_0: "queue_ok (smsgs str0) (sqs str0 ! 0)"
proof -
  let ?q = "sqs str0 ! 0"
  have v: "q_msgs ?q = [1]" "q_nband ?q = 1" "length (q_bandp ?q) = 1" "q_hiwat ?q = 4" "q_count ?q = 5" "q_flag ?q AND QFULL = QFULL"
    "length (smsgs str0) = 4" "mblk_ok (smsgs str0 ! Suc 0)" "b_band (smsgs str0 ! Suc 0) = 0" "msize (smsgs str0 ! Suc 0) = 5"
    "QFULL \<noteq> 0"
    by code_simp+
  have b: "band_ok (smsgs str0) [] (q_bandp ?q ! 0)" by code_simp
  have one: "pri = 1" if "0 < pri" "pri \<le> 1" for pri :: u8
    using that by (metis dual_order.antisym word_less_1 word_zero_le not_le)
  have "chain_ok (smsgs str0) 1 [Suc 0]" by (simp add: chain_ok_def v)
  moreover have "bands_ok (smsgs str0) [Suc 0] ?q"
    unfolding bands_ok_def
  proof (intro conjI allI impI)
    fix pri :: u8 assume "0 < pri" "pri \<le> q_nband ?q"
    then have "pri = 1" using one by (simp add: v)
    then show "band_ok (smsgs str0) (in_band (smsgs str0) pri [Suc 0]) (q_bandp ?q ! (unat pri - 1))" using b by (simp add: v)
  qed (simp_all add: v full_ok_def)
  ultimately show ?thesis by (simp add: queue_ok_def v)
qed

lemma str0_ok: "strst_ok str0" "length (sqs str0) = 4" "length (smsgs str0) = 4"
proof -
  show len: "length (sqs str0) = 4" "length (smsgs str0) = 4" by (simp_all add: str0_def)
  have q: "sqs str0 ! 1 = idle_queue 0 False (Some 3)" "sqs str0 ! 2 = idle_queue QREADR True (Some 0)"
    "sqs str0 ! 3 = idle_queue 0 True None" by (simp_all add: str0_def)
  have "queue_ok (smsgs str0) (sqs str0 ! i)" if "i < 4" for i
  proof -
    from that consider "i = 0" | "i = 1" | "i = 2" | "i = 3" by linarith
    then show ?thesis by cases (simp_all only: str0_0 q idle_ok bit_apart and_zero_eq zero_and_eq)
  qed
  moreover have "mem_ok (smsgs str0)" by (simp add: mem_ok_def str0_def msize_def)
  moreover have "apart str0" "run_ok str0" by code_simp+
  moreover have "links_ok str0"
  proof -
    have q0: "q_flag (sqs str0 ! 0) AND QREADR \<noteq> 0" "q_next (sqs str0 ! 0) = None" by code_simp+
    have "(q_flag (sqs str0 ! i) AND QREADR \<noteq> 0 \<longleftrightarrow> even i) \<and> pred_option (\<lambda>n. n < 4) (q_next (sqs str0 ! i))" if "i < 4" for i
    proof -
      from that consider "i = 0" | "i = 1" | "i = 2" | "i = 3" by linarith
      then show ?thesis by cases (use q0 q in \<open>simp_all add: idle_queue_def QREADR_def\<close>)
    qed
    then show ?thesis by (simp add: links_ok_def len)
  qed
  ultimately show "strst_ok str0" using len by (simp add: strst_ok_def)
qed

lemma on_queue_member: "on_queue st m \<longleftrightarrow> (\<exists>xs\<in>set (qchains st). m \<in> set xs)"
  by (simp add: on_queue_def qchains_def) (metis in_set_conv_nth)

lemma str0_off: "m \<noteq> 1 \<Longrightarrow> \<not> on_queue str0 m"
proof -
  have "qchains str0 = [[1], [], [], []]" by code_simp
  then show "m \<noteq> 1 \<Longrightarrow> \<not> on_queue str0 m"
    by (auto simp: on_queue_member)
qed

lemma str0_acyclic: "acyclic_streams str0"
proof -
  have "{(p, q). q < length (sqs str0) \<and> backq str0 q = Some p} \<subseteq> measure (\<lambda>q. if q = 0 \<or> q = 3 then 1 else 0)"
    by (auto simp: str0_def backq_def otherq_def idle_queue_def less_Suc_eq q_bits)
  then show ?thesis unfolding acyclic_streams_def by (rule acyclic_subset [OF wf_acyclic [OF wf_measure]])
qed

text \<open>
  C5: \<open>putq\<close> links a message in after all of its priority and \<open>putbq\<close> before them, high priority
  first and then by band, however they find the place; the queues stay in order with the pointers,
  counts and full marks of their bands exact. Both put the message exactly when memory is granted for
  every band the queue still lacks (none for a message in band 0 or in a band it has), and leave the
  messages where they are when it is not.
\<close>

theorem putq_by_priority:
  assumes "strst_ok st" and "i < length (sqs st)" and "bp < length (smsgs st)" and "\<not> on_queue st bp"
  shows "(case putq i bp st of (b, st') \<Rightarrow> strst_ok st' \<and>
      (b \<longleftrightarrow> granted (bands_lacking st bp (sqs st ! i)) (kmem st)) \<and>
      qchains st' = (if b then (qchains st)[i := put_after st bp (q_msgs (sqs st ! i))] else qchains st)) \<and>
    (case putbq i bp st of (b, st') \<Rightarrow> strst_ok st' \<and>
      (b \<longleftrightarrow> granted (bands_lacking st bp (sqs st ! i)) (kmem st)) \<and>
      qchains st' = (if b then (qchains st)[i := put_before st bp (q_msgs (sqs st ! i))] else qchains st))"
proof -
  obtain b st' where p: "putq i bp st = (b, st')" by (cases "putq i bp st")
  obtain b2 st2 where p2: "putbq i bp st = (b2, st2)" by (cases "putbq i bp st")
  obtain b0 st0 where b0: "band_for i bp st = (b0, st0)" by (cases "band_for i bp st")
  have "b = b0" "b2 = b0" using p p2 b0 by (auto simp: putq_def putbq_def Let_def split: if_splits)
  then show ?thesis
    using putq_ok [OF assms p] putbq_ok [OF assms p2] band_for_granted [OF assms(3) b0] p p2 by simp
qed

theorem putq_by_priority_witness:
  "strst_ok (snd (putq 0 3 str0)) \<and> fst (putq 0 3 str0) \<and> qchains (snd (putq 0 3 str0)) = [[3, 1], [], [], []] \<and>
   qchains (snd (putbq 0 2 str0)) = [[2, 1], [], [], []]"
proof -
  have "put_after str0 3 (q_msgs (sqs str0 ! 0)) = [3, 1]" "put_before str0 2 (q_msgs (sqs str0 ! 0)) = [2, 1]"
    "qchains str0 = [[1], [], [], []]" "fst (putq 0 3 str0)" "fst (putbq 0 2 str0)" by code_simp+
  then show ?thesis
    using putq_by_priority [OF str0_ok(1), of 0 3] putq_by_priority [OF str0_ok(1), of 0 2] str0_ok(2,3) str0_off
    by (auto split: prod.splits)
qed

text \<open>
  \<open>getq\<close> could be built on top of \<open>rmvq\<close>, as its comment has it: where the head may be taken it
  does what \<open>rmvq\<close> of the head does once the wish to read is cleared, band pointers, counts, flags
  and the enabling of the queue behind included.
\<close>

theorem getq_is_rmvq:
  assumes "strst_ok st" and "i < length (sqs st)" and "q_msgs (sqs st ! i) = bp # xs" and "b_flag (mb st bp) AND MSGNOGET = 0"
  shows "getq i st = map_option (Pair (Some bp)) (rmvq i bp (upd_q i (clear_qflag QWANTR) st))"
  by (rule getq_rmvq [OF assms])

theorem getq_is_rmvq_witness:
  "getq 0 str0 = map_option (Pair (Some 1)) (rmvq 0 1 (upd_q 0 (clear_qflag QWANTR) str0)) \<and>
   map_option fst (getq 0 str0) = Some (Some 1)"
proof -
  have "map_option fst (getq 0 str0) = Some (Some 1)" by code_simp
  then show ?thesis
    using getq_is_rmvq [OF str0_ok(1), of 0 1 "[]"] str0_ok(2) by (simp add: str0_def idle_queue_def mb_def)
qed

text \<open>
  C33: in a stream that is not circular \<open>getq\<close> returns, with the first message that may be taken
  or with none when there is no such message; it takes exactly that one off its queue and leaves
  every message, every other queue and the invariant as they are.
\<close>

theorem getq_correct:
  assumes "strst_ok st" and "acyclic_streams st" and "i < length (sqs st)"
  shows "\<exists>bp st'. getq i st = Some (bp, st') \<and> bp = find (\<lambda>m. b_flag (mb st m) AND MSGNOGET = 0) (q_msgs (sqs st ! i)) \<and>
    strst_ok st' \<and> smsgs st' = smsgs st \<and> sfreed st' = sfreed st \<and>
    qchains st' = (case bp of None \<Rightarrow> qchains st | Some m \<Rightarrow> (qchains st)[i := remove1 m (q_msgs (sqs st ! i))])"
  using getq_returns [OF assms] getq_ok [OF assms(1,3)] by blast

theorem getq_correct_witness:
  "\<exists>st'. getq 0 str0 = Some (Some 1, st') \<and> strst_ok st' \<and> qchains st' = [[], [], [], []]"
proof -
  have "find (\<lambda>m. b_flag (mb str0 m) AND MSGNOGET = 0) (q_msgs (sqs str0 ! 0)) = Some 1"
    "(qchains str0)[0 := remove1 1 (q_msgs (sqs str0 ! 0))] = [[], [], [], []]" by code_simp+
  then show ?thesis using getq_correct [OF str0_ok(1) str0_acyclic, of 0] str0_ok(2) by auto
qed

text \<open>
  C32: no writer is forgotten: when \<open>getq\<close> takes a message off a band that somebody waits to write
  to, then either the band has not drained to its low water mark and the wish stays, or it has, the
  wish is taken back and the nearest queue behind with a service procedure is on the run list.
\<close>

theorem getq_serves_writers:
  assumes "strst_ok st" and "i < length (sqs st)" and "q_msgs (sqs st ! i) = m # xs" and "b_flag (mb st m) AND MSGNOGET = 0"
    and "getq i st = Some (Some m, st')" and "wanted_by (b_band (mb st m)) (sqs st ! i)"
  shows "if drained (b_band (mb st m)) (sqs st' ! i)
    then \<not> wanted_by (b_band (mb st m)) (sqs st' ! i) \<and> (\<forall>p. back_srv st i = Some (Some p) \<longrightarrow> p \<in> set (qrun st'))
    else wanted_by (b_band (mb st m)) (sqs st' ! i)"
proof -
  note c = cleared_read [OF assms(1,2)]
  have r: "rmvq i m (upd_q i (clear_qflag QWANTR) st) = Some st'"
    using getq_rmvq [OF assms(1-4)] assms(5) by (cases "rmvq i m (upd_q i (clear_qflag QWANTR) st)") simp_all
  show ?thesis
    using rmvq_flow [OF c(1,2) _ r, of "[]" xs] assms(3,6) c(3,5,6,7) by (simp split: if_splits)
qed

theorem getq_serves_writers_witness:
  "\<exists>st'. getq 0 str0 = Some (Some 1, st') \<and> \<not> wanted_by 0 (sqs st' ! 0) \<and> 2 \<in> set (qrun st')"
proof -
  have s: "map_option (\<lambda>r. (fst r, drained 0 (sqs (snd r) ! 0))) (getq 0 str0) = Some (Some 1, True)"
    "back_srv str0 0 = Some (Some 2)" "wanted_by 0 (sqs str0 ! 0)" "b_band (mb str0 1) = 0" "b_flag (mb str0 1) AND MSGNOGET = 0"
    "q_msgs (sqs str0 ! 0) = [1]" by code_simp+
  then obtain st' where "getq 0 str0 = Some (Some 1, st')" "drained 0 (sqs st' ! 0)" by auto
  then show ?thesis
    using getq_serves_writers [OF str0_ok(1), of 0 1 "[]" st'] s str0_ok(2) by simp
qed

text \<open>
  C39: \<open>bcanput\<close> (and \<open>canput\<close>, which is \<open>bcanput\<close> of band 0) says no exactly when the count of the
  band, on the queue where the walk ends, has reached its high water mark; then the wish to write is
  registered there, and otherwise nothing changes.
\<close>

theorem bcanput_correct:
  assumes "strst_ok st" and "fwd_srv st q0 = Some q" and "q0 < length (sqs st)"
    and "if pri = 0 then 0 < q_hiwat (sqs st ! q)
      else pri \<le> q_nband (sqs st ! q) \<longrightarrow> 0 < qb_hiwat (q_bandp (sqs st ! q) ! (unat pri - 1))"
  shows "canput (Some q0) st = bcanput (Some q0) 0 st \<and>
    (\<exists>st'. bcanput (Some q0) pri st = Some (\<not> over_hiwat pri (sqs st ! q), st') \<and> strst_ok st' \<and> qchains st' = qchains st \<and>
      (over_hiwat pri (sqs st ! q) \<longrightarrow> wanted_by pri (sqs st' ! q)) \<and> (\<not> over_hiwat pri (sqs st ! q) \<longrightarrow> st' = st))"
  using bcanput_spec [OF assms] canput_bcanput keepsD(1,2) by blast

theorem bcanput_correct_witness:
  "\<exists>st'. bcanput (Some 0) 0 str0 = Some (False, st') \<and> wanted_by 0 (sqs st' ! 0)"
proof -
  have "fwd_srv str0 0 = Some 0" "over_hiwat 0 (sqs str0 ! 0)" "0 < q_hiwat (sqs str0 ! 0)" by code_simp+
  then show ?thesis using bcanput_correct [OF str0_ok(1), of 0 0 0] str0_ok(2) by auto
qed

text \<open>
  C34: \<open>flushq\<close> frees exactly the data messages, or all with the flag, and \<open>flushband\<close> exactly those
  of one priority class among them; the messages that stay keep their order, and the pointers,
  counts and marks are again exact.
\<close>

theorem flush_correct:
  assumes "strst_ok st" and "i < length (sqs st)" and "if all then flushq i flag st = Some st' else flushband i pri flag st = Some st'"
    and "P = (\<lambda>m. (all \<or> prio (mb st m) = unat pri) \<and> (flag \<or> datamsg (db_type (mb st m))))"
  shows "strst_ok st' \<and> qchains st' = (qchains st)[i := filter (\<lambda>m. \<not> P m) (q_msgs (sqs st ! i))] \<and>
    smsgs st' = smsgs st \<and> sfreed st' = sfreed st @ filter P (q_msgs (sqs st ! i))"
  using flushq_ok [OF assms(1,2), of flag st'] flushband_ok [OF assms(1,2), of pri flag st'] assms(3,4)
  by (cases all) simp_all

theorem flush_correct_witness:
  "\<exists>st'. flushband 0 1 False (snd (putq 0 3 (snd (putq 0 0 str0)))) = Some st' \<and> qchains st' = [[1], [], [], []] \<and> sfreed st' = [0, 3]"
proof -
  have "bp < 4 \<Longrightarrow> bp \<noteq> 1 \<Longrightarrow> strst_ok (snd (putq 0 bp str0))" for bp
    using putq_ok [OF str0_ok(1), of 0 bp "fst (putq 0 bp str0)" "snd (putq 0 bp str0)"] str0_ok str0_off by simp
  then have ok0: "strst_ok (snd (putq 0 0 str0))" by simp
  let ?s = "snd (putq 0 0 str0)" and ?t = "snd (putq 0 3 (snd (putq 0 0 str0)))"
  have v: "qchains ?s = [[0, 1], [], [], []]" "length (smsgs ?s) = 4" "length (sqs ?s) = 4" by code_simp+
  have "\<not> on_queue ?s 3" by (simp add: on_queue_member v)
  then have ok: "strst_ok ?t" using putq_ok [OF ok0, of 0 3 "fst (putq 0 3 ?s)" ?t] v by simp
  have r: "map_option sfreed (flushband 0 1 False ?t) = Some [0, 3]" by code_simp
  then obtain st' where f: "flushband 0 1 False ?t = Some st'" by auto
  have c: "filter (\<lambda>m. \<not> (prio (mb ?t m) = 1 \<and> (False \<or> datamsg (db_type (mb ?t m))))) (q_msgs (sqs ?t ! 0)) = [1]"
    "filter (\<lambda>m. prio (mb ?t m) = 1 \<and> (False \<or> datamsg (db_type (mb ?t m)))) (q_msgs (sqs ?t ! 0)) = [0, 3]"
    "qchains ?t = [[0, 3, 1], [], [], []]" "length (sqs ?t) = 4" "sfreed ?t = []" by code_simp+
  show ?thesis
    using flush_correct [OF ok, of 0 False False st' 1, OF _ _ refl] f c by simp
qed

text \<open>
  C17: a queue is a stable priority queue: what \<open>getq\<close> takes off after messages were put on with
  \<open>putq\<close>, one after the other, is all of it, by priority, in the order of \<open>putq\<close> within one
  priority.
\<close>

theorem putq_getq_order:
  assumes "q_ready i (smsgs st) st (set xs)" and "distinct xs"
  shows "\<exists>st'. take_all (getq i) (length (q_items i (fold (putq_st i) xs st))) (fold (putq_st i) xs st) =
      Some (sort_key (\<lambda>m. - int (prio (mb st m))) (q_items i st @ xs), st') \<and> q_items i st' = []"
  using sq.put_all [OF assms(1) subset_refl assms(2)] sq.get_all [of i "smsgs st" "fold (putq_st i) xs st" "set xs - set xs"]
  by (simp add: mb_def)

theorem putq_getq_order_witness:
  "map_option fst (take_all (getq 0) 4 (fold (putq_st 0) [0, 2, 3] str0)) = Some [2, 0, 3, 1]"
proof -
  have "q_ready 0 (smsgs str0) str0 (set [0, 2, 3])"
  proof -
    have "q_items 0 str0 = [1]" "b_flag (smsgs str0 ! 1) AND MSGNOGET = 0"
      "list_all (\<lambda>m. m < length (smsgs str0) \<and> m \<noteq> 1 \<and> mblk_ok (smsgs str0 ! m) \<and> b_band (smsgs str0 ! m) \<le> q_nband (sqs str0 ! 0) \<and>
         b_flag (smsgs str0 ! m) AND MSGNOGET = 0) [0, 2, 3]" by code_simp+
    then show ?thesis using str0_ok(1,2) str0_acyclic str0_off unfolding q_ready_def list_all_iff by auto
  qed
  from putq_getq_order [OF this] obtain st' where
    "take_all (getq 0) (length (q_items 0 (fold (putq_st 0) [0, 2, 3] str0))) (fold (putq_st 0) [0, 2, 3] str0) =
      Some (sort_key (\<lambda>m. - int (prio (mb str0 m))) (q_items 0 str0 @ [0, 2, 3]), st')" by auto
  moreover have "length (q_items 0 (fold (putq_st 0) [0, 2, 3] str0)) = 4"
    "sort_key (\<lambda>m. - int (prio (mb str0 m))) (q_items 0 str0 @ [0, 2, 3]) = [2, 0, 3, 1]" by code_simp+
  ultimately show ?thesis by simp
qed


section \<open>Two slips\<close>

text \<open>
  \<open>insq\<close> at the end of a queue leaves \<open>qb_last\<close> of a band that already has messages where it was:
  only a next message of another band moves it.  \<open>flushband\<close> then stops early and the message stays.
\<close>

lemma insq_stale_last:
  "let st0 = (upd_q 0 empty_queue str0)\<lparr>smsgs := smsgs str0 @ [smsgs str0 ! 3]\<rparr>;
       st1 = snd (putq 0 3 (snd (putq 0 0 st0))); st2 = snd (insq 0 None 4 st1)
   in q_msgs (sqs st2 ! 0) = [0, 3, 4] \<and> qb_last (q_bandp (sqs st2 ! 0) ! 0) = Some 3 \<and>
      map_option (\<lambda>s. q_msgs (sqs s ! 0)) (flushband 0 1 True st2) = Some [4]"
  by code_simp

text \<open>
  \<open>flushq\<close> counts the bands in an \<open>unsigned char\<close> that starts at 1: with all 255 bands it is 0 at
  the end, and no queue behind is marked.
\<close>

lemma flushq_band_wrap: "length (q_bandp q) = 255 \<Longrightarrow> unat (word_of_nat (length (q_bandp q) + 1) :: u8) = 0"
  by simp

end
