(* ===== verification/Strmb.thy ===== *)
theory Strmb imports Strq begin

text \<open>
  The message blocks of STREAMS, the first half of \<open>io/stream.c\<close>, with \<open>xmsgalloc\<close>, \<open>xmdballoc\<close> and
  \<open>xmsgsize\<close> of \<open>os/strsubr.c\<close>.  A triplet (\<open>struct mdbblock\<close>) holds a message header, a data block
  and a small buffer; the header \<open>Trip i\<close> is that of triplet \<open>i\<close>, \<open>Sep j\<close> is a header allocated alone,
  and a data block is the index of its triplet.  A pointer into a buffer is the buffer and an
  offset: the buffer of a triplet, one from \<open>kmem_alloc\<close> or one the caller of \<open>esballoc\<close> supplied.
  \<open>mkmem\<close> holds the outcomes of the coming calls of \<open>kmem_alloc\<close> and \<open>kmem_zalloc\<close>, which fail when
  the list is at its end; \<open>kfreed\<close> logs the buffers given to \<open>kmem_free\<close> with their sizes, \<open>fcalls\<close>
  the calls of the free routines.  The fields have the names of the macros of the source that
  reach into a triplet.
\<close>

section \<open>State\<close>

datatype mbp = Trip nat | Sep nat

datatype buf = Fast nat | Kmem nat | Ext nat

type_synonym ptr = "buf \<times> int"

datatype iswhat = MDBBLK | NOT_M | NOT_D | XCONN

record frtn =
  free_func :: "nat option"
  free_arg :: int

record msgb =
  m_bcont :: "mbp option"
  m_brptr :: ptr
  m_bwptr :: ptr
  m_bdatap :: nat
  m_bband :: u8
  m_bflag :: u16

record datab =
  d_dbfrtnp :: "frtn option"
  d_dbbase :: ptr
  d_dblim :: ptr
  d_dbref :: u8
  d_dbtype :: u8
  d_dbiswhat :: iswhat
  d_dbsize :: int
  d_dbmsgaddr :: nat

record alcdat =
  al_use :: int
  al_total :: int
  al_max :: int
  al_fail :: int

record mbst =
  hdr :: "mbp \<Rightarrow> msgb"
  dat :: "nat \<Rightarrow> datab"
  nsep :: nat
  ntrip :: nat
  msgfreelist :: "mbp list"
  mdbfreelist :: "nat list"
  smem :: "ptr \<Rightarrow> u8"
  xaddr :: "nat \<Rightarrow> int"
  nkmem :: nat
  mkmem :: "bool list"
  kfreed :: "(ptr \<times> int) list"
  fcalls :: "(nat \<times> int) list"
  msgblock :: alcdat
  mdbblock :: alcdat
  mstrcount :: int

text \<open>\<open>FASTBUF\<close> is 128 less the 36 bytes of a \<open>struct mbinfo\<close> and the 28 of a \<open>struct dbinfo\<close>.\<close>

definition FASTBUF :: int where "FASTBUF = 64"

definition upd_hdr :: "mbp \<Rightarrow> (msgb \<Rightarrow> msgb) \<Rightarrow> mbst \<Rightarrow> mbst" where
  "upd_hdr p f st = st\<lparr>hdr := (hdr st)(p := f (hdr st p))\<rparr>"

definition upd_dat :: "nat \<Rightarrow> (datab \<Rightarrow> datab) \<Rightarrow> mbst \<Rightarrow> mbst" where
  "upd_dat d f st = st\<lparr>dat := (dat st)(d := f (dat st d))\<rparr>"

definition bumpup :: "alcdat \<Rightarrow> alcdat" where
  "bumpup a = (let use = al_use a + 1
     in a\<lparr>al_use := use, al_total := al_total a + 1, al_max := (if use > al_max a then use else al_max a)\<rparr>)"

definition use_down :: "alcdat \<Rightarrow> alcdat" where
  "use_down a = a\<lparr>al_use := al_use a - 1\<rparr>"

definition al_failed :: "alcdat \<Rightarrow> alcdat" where
  "al_failed a = a\<lparr>al_fail := al_fail a + 1\<rparr>"

text \<open>
  Addresses modulo the word size: triplets and \<open>kmem_alloc\<close>'s buffers are aligned to words, a
  buffer given to \<open>esballoc\<close> is where its owner has it.  \<open>bcopy\<close> copies \<open>n\<close> bytes.
\<close>

definition baddr :: "mbst \<Rightarrow> buf \<Rightarrow> int" where
  "baddr st b = (case b of Ext k \<Rightarrow> xaddr st k | _ \<Rightarrow> 0)"

definition str_aligned :: "mbst \<Rightarrow> ptr \<Rightarrow> bool" where
  "str_aligned st p \<longleftrightarrow> (baddr st (fst p) + snd p) mod 4 = 0"

definition straln :: "mbst \<Rightarrow> ptr \<Rightarrow> ptr" where
  "straln st p = (fst p, snd p - (baddr st (fst p) + snd p) mod 4)"

definition padd :: "ptr \<Rightarrow> int \<Rightarrow> ptr" where
  "padd p n = (fst p, snd p + n)"

definition bcopy :: "ptr \<Rightarrow> ptr \<Rightarrow> int \<Rightarrow> (ptr \<Rightarrow> u8) \<Rightarrow> ptr \<Rightarrow> u8" where
  "bcopy s d n mem = (\<lambda>q. if fst q = fst d \<and> snd d \<le> snd q \<and> snd q < snd d + n
     then mem (padd s (snd q - snd d)) else mem q)"

definition blen :: "msgb \<Rightarrow> int" where
  "blen b = snd (m_bwptr b) - snd (m_brptr b)"

section \<open>Allocation\<close>

text \<open>
  \<open>ALLOCMSGBLOCK\<close> and \<open>ALLOCMDBBLOCK\<close> take from the free lists; when these are empty \<open>xmsgalloc\<close> and
  \<open>xmdballoc\<close> get a new header or triplet.  \<open>FREEMSGBLOCK\<close> and \<open>FREEMDBBLOCK\<close> put them back.
\<close>

definition FREEMSGBLOCK :: "mbp \<Rightarrow> mbst \<Rightarrow> mbst" where
  "FREEMSGBLOCK p st = st\<lparr>msgfreelist := p # msgfreelist st, msgblock := use_down (msgblock st)\<rparr>"

definition FREEMDBBLOCK :: "nat \<Rightarrow> mbst \<Rightarrow> mbst" where
  "FREEMDBBLOCK i st = st\<lparr>mdbfreelist := i # mdbfreelist st, mdbblock := use_down (mdbblock st)\<rparr>"

definition ALLOCMSGBLOCK :: "mbst \<Rightarrow> mbp \<times> mbst" where
  "ALLOCMSGBLOCK st = (hd (msgfreelist st), st\<lparr>msgfreelist := tl (msgfreelist st), msgblock := bumpup (msgblock st)\<rparr>)"

definition ALLOCMDBBLOCK :: "mbst \<Rightarrow> nat \<times> mbst" where
  "ALLOCMDBBLOCK st = (hd (mdbfreelist st), st\<lparr>mdbfreelist := tl (mdbfreelist st), mdbblock := bumpup (mdbblock st)\<rparr>)"

definition kmem_alloc :: "mbst \<Rightarrow> bool \<times> mbst" where
  "kmem_alloc st = (case mkmem st of True # ks \<Rightarrow> (True, st\<lparr>mkmem := ks\<rparr>) | ks \<Rightarrow> (False, st\<lparr>mkmem := tl ks\<rparr>))"

definition xmsgalloc :: "mbst \<Rightarrow> mbp option \<times> mbst" where
  "xmsgalloc st =
     (case kmem_alloc st of
        (True, st1) \<Rightarrow> (Some (Sep (nsep st1)),
          st1\<lparr>nsep := nsep st1 + 1, msgblock := bumpup (msgblock st1), mstrcount := mstrcount st1 + 36\<rparr>)
      | (False, st1) \<Rightarrow> (None, st1\<lparr>msgblock := al_failed (msgblock st1)\<rparr>))"

definition xmdballoc :: "mbst \<Rightarrow> nat option \<times> mbst" where
  "xmdballoc st =
     (case kmem_alloc st of
        (True, st1) \<Rightarrow> (Some (ntrip st1),
          st1\<lparr>ntrip := ntrip st1 + 1, mdbblock := bumpup (mdbblock st1), mstrcount := mstrcount st1 + 128\<rparr>)
      | (False, st1) \<Rightarrow> (None, st1\<lparr>mdbblock := al_failed (mdbblock st1)\<rparr>))"

definition new_mdb :: "mbst \<Rightarrow> nat option \<times> mbst" where
  "new_mdb st = (if mdbfreelist st \<noteq> [] then (case ALLOCMDBBLOCK st of (i, st1) \<Rightarrow> (Some i, st1)) else xmdballoc st)"

definition new_msg :: "mbst \<Rightarrow> mbp option \<times> mbst" where
  "new_msg st = (if msgfreelist st \<noteq> [] then (case ALLOCMSGBLOCK st of (p, st1) \<Rightarrow> (Some p, st1)) else xmsgalloc st)"

text \<open>
  What \<open>allocb\<close> writes into triplet \<open>i\<close>: the fields of both headers, then the buffer, which runs
  from \<open>base\<close> to \<open>lim\<close>.
\<close>

definition init_mdb :: "nat \<Rightarrow> mbst \<Rightarrow> mbst" where
  "init_mdb i st =
     upd_dat i (\<lambda>d. d\<lparr>d_dbfrtnp := None, d_dbtype := M_DATA, d_dbref := 1, d_dbmsgaddr := i, d_dbiswhat := MDBBLK\<rparr>)
      (upd_hdr (Trip i) (\<lambda>b. b\<lparr>m_bdatap := i, m_bcont := None, m_bband := 0, m_bflag := 0\<rparr>) st)"

definition set_buf :: "nat \<Rightarrow> ptr \<Rightarrow> ptr \<Rightarrow> int \<Rightarrow> mbst \<Rightarrow> mbst" where
  "set_buf i base lim sz st =
     upd_dat i (\<lambda>d. d\<lparr>d_dbbase := base, d_dblim := lim, d_dbsize := sz\<rparr>)
      (upd_hdr (Trip i) (\<lambda>b. b\<lparr>m_brptr := base, m_bwptr := base\<rparr>) st)"

definition allocb :: "int \<Rightarrow> mbst \<Rightarrow> nat option \<times> mbst" where
  "allocb sz st =
     (case new_mdb st of
        (None, st1) \<Rightarrow> (None, st1)
      | (Some i, st1) \<Rightarrow>
          let st2 = init_mdb i st1
          in if sz > FASTBUF then
            (case kmem_alloc st2 of
               (False, st3) \<Rightarrow> (None, FREEMDBBLOCK i st3)
             | (True, st3) \<Rightarrow> (Some i, set_buf i (Kmem (nkmem st3), 0) (Kmem (nkmem st3), sz) sz
                 (st3\<lparr>nkmem := nkmem st3 + 1, mstrcount := mstrcount st3 + sz\<rparr>)))
          else (Some i, set_buf i (Fast i, 0) (Fast i, FASTBUF) (if sz = 0 then 4 else sz) st2))"

text \<open>\<open>base\<close> and \<open>fr_rtn\<close> are \<open>None\<close> for \<open>NULL\<close>; the buffer supplied is \<open>Ext k\<close>.\<close>

definition esballoc :: "nat option \<Rightarrow> int \<Rightarrow> frtn option \<Rightarrow> mbst \<Rightarrow> nat option \<times> mbst" where
  "esballoc base sz fr_rtn st =
     (case base of
        None \<Rightarrow> (None, st)
      | Some k \<Rightarrow>
          if fr_rtn = None then (None, st)
          else (case allocb (-1) st of
                  (None, st1) \<Rightarrow> (None, st1)
                | (Some i, st1) \<Rightarrow> (Some i,
                    upd_hdr (Trip i) (\<lambda>b. b\<lparr>m_brptr := (Ext k, 0), m_bwptr := (Ext k, 0)\<rparr>)
                     (upd_dat (m_bdatap (hdr st1 (Trip i)))
                        (\<lambda>d. d\<lparr>d_dbfrtnp := fr_rtn, d_dbbase := (Ext k, 0), d_dblim := (Ext k, sz), d_dbsize := sz\<rparr>) st1))))"

section \<open>Freeing\<close>

text \<open>
  \<open>freeb\<close>, which is also what the macro \<open>_FREEB\<close> of \<open>freemsg\<close> does: the header is freed or marked
  unused in its triplet, the count of the data block goes down, and at 0 the buffer and the data
  block go.
\<close>

definition drop_hdr :: "mbp \<Rightarrow> mbst \<Rightarrow> mbst" where
  "drop_hdr p st =
     (let i = d_dbmsgaddr (dat st (m_bdatap (hdr st p)))
      in if Trip i \<noteq> p then FREEMSGBLOCK p st
         else if d_dbiswhat (dat st i) = NOT_D then FREEMDBBLOCK i st
         else upd_dat i (\<lambda>d. d\<lparr>d_dbiswhat := NOT_M\<rparr>) st)"

definition free_buf :: "nat \<Rightarrow> mbst \<Rightarrow> mbst" where
  "free_buf d st =
     (let db = dat st d; n = snd (d_dblim db) - snd (d_dbbase db)
      in if d_dbbase db = (Fast d, 0) then st
         else case d_dbfrtnp db of
           None \<Rightarrow> st\<lparr>kfreed := kfreed st @ [(d_dbbase db, n)], mstrcount := mstrcount st - n\<rparr>
         | Some fr \<Rightarrow>
             (case free_func fr of None \<Rightarrow> st | Some f \<Rightarrow> st\<lparr>fcalls := fcalls st @ [(f, free_arg fr)]\<rparr>))"

definition free_dat :: "nat \<Rightarrow> mbst \<Rightarrow> mbst" where
  "free_dat d st =
     (let st1 = free_buf d st
      in if d_dbiswhat (dat st1 d) = NOT_M then FREEMDBBLOCK d st1
         else upd_dat d (\<lambda>db. db\<lparr>d_dbiswhat := NOT_D\<rparr>) st1)"

definition freeb :: "mbp \<Rightarrow> mbst \<Rightarrow> mbst" where
  "freeb p st =
     (let d = m_bdatap (hdr st p);
          st1 = upd_dat d (\<lambda>db. db\<lparr>d_dbref := d_dbref db - 1\<rparr>) (drop_hdr p st)
      in if d_dbref (dat st1 d) > 0 then st1 else free_dat d st1)"

partial_function (option) freemsg :: "mbp option \<Rightarrow> mbst \<Rightarrow> mbst option" where
  [code]: "freemsg bp st =
     (case bp of
        None \<Rightarrow> Some st
      | Some p \<Rightarrow> freemsg (m_bcont (hdr st p)) (freeb p st))"

section \<open>Duplicating and copying\<close>

definition set_cont :: "mbp \<Rightarrow> mbp option \<Rightarrow> mbst \<Rightarrow> mbst" where
  "set_cont p c = upd_hdr p (\<lambda>b. b\<lparr>m_bcont := c\<rparr>)"

definition dup_into :: "mbp \<Rightarrow> mbp \<Rightarrow> mbst \<Rightarrow> mbst" where
  "dup_into n p st =
     upd_dat (m_bdatap (hdr st p)) (\<lambda>d. d\<lparr>d_dbref := d_dbref d + 1\<rparr>)
      (upd_hdr n (\<lambda>_. (hdr st p)\<lparr>m_bcont := None\<rparr>) st)"

definition dupb :: "mbp \<Rightarrow> mbst \<Rightarrow> mbp option \<times> mbst" where
  "dupb p st =
     (if d_dbref (dat st (m_bdatap (hdr st p))) = 255 then (None, st)
      else case new_msg st of
             (None, st1) \<Rightarrow> (None, st1)
           | (Some n, st1) \<Rightarrow> (Some n, dup_into n p st1))"

text \<open>The macro \<open>_DUPB\<close>, which leaves out the test of the count when the free list has a header.\<close>

definition DUPB :: "mbp \<Rightarrow> mbst \<Rightarrow> mbp option \<times> mbst" where
  "DUPB p st =
     (if msgfreelist st = [] then dupb p st
      else case ALLOCMSGBLOCK st of (n, st1) \<Rightarrow> (Some n, dup_into n p st1))"

text \<open>
  \<open>dupmsg\<close> and \<open>copymsg\<close> walk along a message in the same way, with \<open>DUPB\<close> or \<open>copyb\<close>: \<open>head\<close> is the
  first block of the new message and \<open>nbp\<close> the last one, the duplicate of \<open>bp\<close>.
\<close>

partial_function (option) dup_rest ::
    "mbp \<Rightarrow> mbp \<Rightarrow> mbp \<Rightarrow> mbst \<Rightarrow> (mbp option \<times> mbst) option" where
  [code]: "dup_rest head nbp bp st =
     (case m_bcont (hdr st bp) of
        None \<Rightarrow> Some (Some head, st)
      | Some c \<Rightarrow>
          (case DUPB c st of
             (None, st1) \<Rightarrow> map_option (Pair None) (freemsg (Some head) (set_cont nbp None st1))
           | (Some n, st1) \<Rightarrow> dup_rest head n c (set_cont nbp (Some n) st1)))"

definition dupmsg :: "mbp option \<Rightarrow> mbst \<Rightarrow> (mbp option \<times> mbst) option" where
  "dupmsg bp st =
     (case bp of
        None \<Rightarrow> Some (None, st)
      | Some p \<Rightarrow> (case DUPB p st of
                      (None, st1) \<Rightarrow> Some (None, st1)
                    | (Some n, st1) \<Rightarrow> dup_rest n n p st1))"

definition copyb :: "mbp \<Rightarrow> mbst \<Rightarrow> mbp option \<times> mbst" where
  "copyb p st =
     (let bp = hdr st p; dp = dat st (m_bdatap bp)
      in case allocb (snd (d_dblim dp) - snd (d_dbbase dp)) st of
           (None, st1) \<Rightarrow> (None, st1)
         | (Some i, st1) \<Rightarrow>
             let nb = d_dbbase (dat st1 i);
                 nr = padd nb (snd (m_brptr bp) - snd (d_dbbase dp));
                 nw = padd nb (snd (m_bwptr bp) - snd (d_dbbase dp));
                 base = straln st1 nr;
                 st2 = upd_dat i (\<lambda>d. d\<lparr>d_dbtype := d_dbtype dp\<rparr>)
                        (upd_hdr (Trip i) (\<lambda>b. b\<lparr>m_bflag := m_bflag bp, m_bband := m_bband bp, m_brptr := nr, m_bwptr := nw\<rparr>) st1)
             in (Some (Trip i), st2\<lparr>smem := bcopy (straln st1 (m_brptr bp)) base
                   (snd (straln st1 (padd nw 3)) - snd base) (smem st2)\<rparr>))"

partial_function (option) copy_rest ::
    "mbp \<Rightarrow> mbp \<Rightarrow> mbp \<Rightarrow> mbst \<Rightarrow> (mbp option \<times> mbst) option" where
  [code]: "copy_rest head nbp bp st =
     (case m_bcont (hdr st bp) of
        None \<Rightarrow> Some (Some head, st)
      | Some c \<Rightarrow>
          (case copyb c st of
             (None, st1) \<Rightarrow> map_option (Pair None) (freemsg (Some head) (set_cont nbp None st1))
           | (Some n, st1) \<Rightarrow> copy_rest head n c (set_cont nbp (Some n) st1)))"

definition copymsg :: "mbp option \<Rightarrow> mbst \<Rightarrow> (mbp option \<times> mbst) option" where
  "copymsg bp st =
     (case bp of
        None \<Rightarrow> Some (None, st)
      | Some p \<Rightarrow> (case copyb p st of
                      (None, st1) \<Rightarrow> Some (None, st1)
                    | (Some n, st1) \<Rightarrow> copy_rest n n p st1))"

section \<open>Chains of blocks\<close>

text \<open>
  The loops that walk along \<open>b_cont\<close> from \<open>bp\<close>; \<open>walk_to e\<close> stops at the block whose \<open>b_cont\<close> is
  \<open>e\<close>, and has no value when there is none.
\<close>

partial_function (option) walk_to :: "mbp option \<Rightarrow> mbst \<Rightarrow> mbp \<Rightarrow> mbp option" where
  [code]: "walk_to e st bp =
     (if m_bcont (hdr st bp) = e then Some bp
      else case m_bcont (hdr st bp) of None \<Rightarrow> None | Some c \<Rightarrow> walk_to e st c)"

definition linkb :: "mbp \<Rightarrow> mbp \<Rightarrow> mbst \<Rightarrow> mbst option" where
  "linkb mp bp st = map_option (\<lambda>l. set_cont l (Some bp) st) (walk_to None st mp)"

definition unlinkb :: "mbp \<Rightarrow> mbst \<Rightarrow> mbp option \<times> mbst" where
  "unlinkb bp st = (m_bcont (hdr st bp), set_cont bp None st)"

text \<open>The result of \<open>rmvb\<close>: \<open>None\<close> stands for the pointer -1, \<open>Some None\<close> for \<open>NULL\<close>.\<close>

partial_function (option) rmvb_loop ::
    "mbp \<Rightarrow> mbp \<Rightarrow> mbp option \<Rightarrow> mbp option \<Rightarrow> mbst \<Rightarrow> (mbp option option \<times> mbst) option" where
  [code]: "rmvb_loop mp bp lastp tmp st =
     (case tmp of
        None \<Rightarrow> Some (None, st)
      | Some t \<Rightarrow>
          if t = bp then
            (case lastp of
               Some l \<Rightarrow> Some (Some (Some mp), set_cont t None (set_cont l (m_bcont (hdr st t)) st))
             | None \<Rightarrow> Some (Some (m_bcont (hdr st t)), set_cont t None st))
          else rmvb_loop mp bp (Some t) (m_bcont (hdr st t)) st)"

definition rmvb :: "mbp \<Rightarrow> mbp \<Rightarrow> mbst \<Rightarrow> (mbp option option \<times> mbst) option" where
  "rmvb mp bp st = rmvb_loop mp bp None (Some mp) st"

definition btype :: "mbst \<Rightarrow> mbp \<Rightarrow> u8" where
  "btype st p = d_dbtype (dat st (m_bdatap (hdr st p)))"

text \<open>\<open>xmsgsize\<close>: the bytes of the blocks of one type, from the head or from the tail.\<close>

partial_function (option) xsize_head :: "mbst \<Rightarrow> u8 \<Rightarrow> mbp option \<Rightarrow> int \<Rightarrow> int option" where
  [code]: "xsize_head st type bp count =
     (case bp of
        None \<Rightarrow> Some count
      | Some p \<Rightarrow>
          if type \<noteq> btype st p then Some count
          else xsize_head st type (m_bcont (hdr st p)) (count + blen (hdr st p)))"

partial_function (option) xsize_tail :: "mbst \<Rightarrow> u8 \<Rightarrow> mbp \<Rightarrow> mbp \<Rightarrow> int \<Rightarrow> int option" where
  [code]: "xsize_tail st type mp endbp count =
     (if endbp = mp then Some count
      else case walk_to (Some endbp) st mp of
             None \<Rightarrow> None
           | Some p \<Rightarrow>
               if type \<noteq> btype st p then Some count
               else xsize_tail st type mp p (count + blen (hdr st p)))"

definition xmsgsize :: "mbst \<Rightarrow> mbp \<Rightarrow> bool \<Rightarrow> int option" where
  "xmsgsize st mp fromhead =
     (if fromhead then xsize_head st (btype st mp) (Some mp) 0
      else case walk_to None st mp of
             None \<Rightarrow> None
           | Some l \<Rightarrow> xsize_tail st (btype st l) mp l (blen (hdr st l)))"

text \<open>\<open>adjmsg\<close>: a walk off the end of the message would be a fault, so it has no value.\<close>

partial_function (option) adj_head :: "int \<Rightarrow> mbp option \<Rightarrow> mbst \<Rightarrow> mbst option" where
  [code]: "adj_head len bp st =
     (if len = 0 then Some st
      else case bp of
             None \<Rightarrow> None
           | Some p \<Rightarrow>
               let n = min (blen (hdr st p)) len
               in adj_head (len - n) (m_bcont (hdr st p)) (upd_hdr p (\<lambda>b. b\<lparr>m_brptr := padd (m_brptr b) n\<rparr>) st))"

partial_function (option) adj_tail :: "int \<Rightarrow> mbp \<Rightarrow> mbp option \<Rightarrow> mbst \<Rightarrow> mbst option" where
  [code]: "adj_tail len mp endbp st =
     (if len = 0 then Some st
      else case walk_to endbp st mp of
             None \<Rightarrow> None
           | Some p \<Rightarrow>
               let n = min (blen (hdr st p)) len
               in adj_tail (len - n) mp (Some p) (upd_hdr p (\<lambda>b. b\<lparr>m_bwptr := padd (m_bwptr b) (- n)\<rparr>) st))"

definition adjmsg :: "mbp \<Rightarrow> int \<Rightarrow> mbst \<Rightarrow> (int \<times> mbst) option" where
  "adjmsg mp len st =
     (let fromhead = \<not> len < 0; n = \<bar>len\<bar>
      in case xmsgsize st mp fromhead of
           None \<Rightarrow> None
         | Some sz \<Rightarrow>
             if sz < n then Some (0, st)
             else map_option (Pair 1) (if fromhead then adj_head n (Some mp) st else adj_tail n mp None st))"

partial_function (option) dsize_loop :: "mbst \<Rightarrow> mbp option \<Rightarrow> int \<Rightarrow> int option" where
  [code]: "dsize_loop st bp count =
     (case bp of
        None \<Rightarrow> Some count
      | Some p \<Rightarrow>
          dsize_loop st (m_bcont (hdr st p)) (if btype st p = M_DATA then count + blen (hdr st p) else count))"

definition msgdsize :: "mbst \<Rightarrow> mbp option \<Rightarrow> int option" where
  "msgdsize st bp = dsize_loop st bp 0"

section \<open>Pulling up\<close>

text \<open>
  The loop of \<open>pullupmsg\<close> that copies the first \<open>len\<close> bytes of the message to \<open>dst\<close>: the blocks it
  empties are freed, but for the first; it gives the rest of the message and the end of the copy.
\<close>

partial_function (option) pull_copy ::
    "mbp \<Rightarrow> int \<Rightarrow> mbp option \<Rightarrow> ptr \<Rightarrow> mbst \<Rightarrow> (mbp option \<times> ptr \<times> mbst) option" where
  [code]: "pull_copy mp len bp dst st =
     (case bp of
        None \<Rightarrow> Some (None, dst, st)
      | Some p \<Rightarrow>
          if len = 0 then Some (Some p, dst, st)
          else
            let b = hdr st p; n = min (blen b) len;
                st1 = upd_hdr p (\<lambda>b. b\<lparr>m_brptr := padd (m_brptr b) n\<rparr>) (st\<lparr>smem := bcopy (m_brptr b) dst n (smem st)\<rparr>)
            in if m_bwptr (hdr st1 p) \<noteq> m_brptr (hdr st1 p) then Some (Some p, padd dst n, st1)
               else pull_copy mp (len - n) (m_bcont b) (padd dst n) (if p \<noteq> mp then freeb p st1 else st1))"

text \<open>
  The data block \<open>d\<close> is shared: a new one takes its place in the header \<open>mp\<close>.  \<open>take_over\<close> is the end of
  that branch, after the copy: the header \<open>mp\<close> goes over to the data block of triplet \<open>i\<close>.
\<close>

definition take_over :: "mbp \<Rightarrow> nat \<Rightarrow> nat \<Rightarrow> ptr \<Rightarrow> mbp option \<Rightarrow> mbst \<Rightarrow> mbst" where
  "take_over mp i d wp rest st =
     (let m = hdr st mp;
          st1 = upd_hdr (Trip i) (\<lambda>b. b\<lparr>m_bwptr := wp, m_bband := m_bband m, m_bflag := m_bflag m\<rparr>) st;
          owner = d_dbmsgaddr (dat st1 d);
          st2 = (if Trip owner = mp then
                   let s = upd_dat i (\<lambda>db. db\<lparr>d_dbmsgaddr := owner\<rparr>) st1
                   in if d_dbiswhat (dat s owner) \<noteq> NOT_D then upd_dat owner (\<lambda>db. db\<lparr>d_dbiswhat := XCONN\<rparr>) s else s
                 else st1);
          st3 = upd_dat i (\<lambda>db. db\<lparr>d_dbiswhat := NOT_M\<rparr>) st2;
          new = hdr st3 (Trip i)
      in upd_hdr mp (\<lambda>b. b\<lparr>m_bdatap := m_bdatap new, m_brptr := m_brptr new,
           m_bwptr := m_bwptr new, m_bcont := rest\<rparr>) st3)"

definition pull_shared :: "mbp \<Rightarrow> int \<Rightarrow> mbst \<Rightarrow> (int \<times> mbst) option" where
  "pull_shared mp len st =
     (let d = m_bdatap (hdr st mp)
      in case allocb len st of
           (None, st1) \<Rightarrow> Some (0, st1)
         | (Some i, st1) \<Rightarrow>
             let st2 = upd_dat d (\<lambda>db. db\<lparr>d_dbref := d_dbref db - 1\<rparr>)
                   (upd_dat i (\<lambda>db. db\<lparr>d_dbtype := d_dbtype (dat st1 d)\<rparr>) st1)
             in case pull_copy mp len (Some mp) (m_bwptr (hdr st2 (Trip i))) st2 of
                  None \<Rightarrow> None
                | Some (rest, wp, st3) \<Rightarrow> Some (1, take_over mp i d wp rest st3))"

text \<open>The data block is the message's own: only its buffer is replaced.\<close>

definition old_buf :: "nat \<Rightarrow> mbst \<Rightarrow> mbst" where
  "old_buf d st =
     (let db = dat st d; n = snd (d_dblim db) - snd (d_dbbase db)
      in if d_dbbase db = (Fast d, 0) then st
         else case d_dbfrtnp db of
           None \<Rightarrow> st\<lparr>kfreed := kfreed st @ [(d_dbbase db, n)], mstrcount := mstrcount st - n\<rparr>
         | Some fr \<Rightarrow>
             upd_dat d (\<lambda>db. db\<lparr>d_dbfrtnp := None\<rparr>)
              (case free_func fr of None \<Rightarrow> st | Some f \<Rightarrow> st\<lparr>fcalls := fcalls st @ [(f, free_arg fr)]\<rparr>))"

definition pull_own :: "mbp \<Rightarrow> int \<Rightarrow> mbst \<Rightarrow> (int \<times> mbst) option" where
  "pull_own mp len st =
     (let d = m_bdatap (hdr st mp)
      in case kmem_alloc st of
           (False, st1) \<Rightarrow> Some (0, st1)
         | (True, st1) \<Rightarrow>
             let new = (Kmem (nkmem st1), 0);
                 st2 = upd_dat d (\<lambda>db. db\<lparr>d_dbsize := len\<rparr>)
                   (st1\<lparr>nkmem := nkmem st1 + 1, mstrcount := mstrcount st1 + len\<rparr>)
             in case pull_copy mp len (Some mp) new st2 of
                  None \<Rightarrow> None
                | Some (rest, wp, st3) \<Rightarrow>
                    let st4 = old_buf d (set_cont mp rest st3)
                    in Some (1, upd_dat d (\<lambda>db. db\<lparr>d_dbbase := new, d_dblim := padd new (d_dbsize db)\<rparr>)
                          (upd_hdr mp (\<lambda>b. b\<lparr>m_brptr := new, m_bwptr := wp\<rparr>) st4)))"

definition pullupmsg :: "mbp \<Rightarrow> int \<Rightarrow> mbst \<Rightarrow> (int \<times> mbst) option" where
  "pullupmsg mp len st =
     (let b = hdr st mp;
          pull = (\<lambda>n. if d_dbref (dat st (m_bdatap b)) > 1 then pull_shared mp n st else pull_own mp n st)
      in if len = -1 then
           (if m_bcont b = None then (if str_aligned st (m_brptr b) then Some (1, st) else pull (blen b))
            else case xmsgsize st mp True of None \<Rightarrow> None | Some n \<Rightarrow> pull n)
         else if blen b \<ge> len then
           (if str_aligned st (m_brptr b) then Some (1, st) else pull (blen b))
         else case xmsgsize st mp True of
                None \<Rightarrow> None
              | Some sz \<Rightarrow> if sz < len then Some (0, st) else pull len)"

end
