(* ===== verification/Strmb_Inv.thy ===== *)
theory Strmb_Inv imports Strmb begin

text \<open>
  The invariant of message blocks: which headers and data blocks are in use, that the count of a
  data block is the number of its headers, and that no buffer is freed while it is used; with what
  allocation, freeing and duplication do to them.
\<close>

section \<open>The invariant\<close>

text \<open>
  The halves of a triplet are freed apart: \<open>NOT_M\<close> marks an unused header, \<open>NOT_D\<close> an unused data
  block, and the triplet goes to the free list when both are unused.  \<open>X\<close> is a set of headers that
  are in use but on their way to another data block, as in the middle of \<open>pullupmsg\<close>.
\<close>

definition live :: "mbst \<Rightarrow> mbp \<Rightarrow> bool" where
  "live st p \<longleftrightarrow>
     (case p of
        Trip i \<Rightarrow> i < ntrip st \<and> i \<notin> set (mdbfreelist st) \<and> d_dbiswhat (dat st i) \<noteq> NOT_M
      | Sep j \<Rightarrow> j < nsep st \<and> Sep j \<notin> set (msgfreelist st))"

definition used :: "mbst \<Rightarrow> nat \<Rightarrow> bool" where
  "used st d \<longleftrightarrow> d < ntrip st \<and> d \<notin> set (mdbfreelist st) \<and> d_dbiswhat (dat st d) \<noteq> NOT_D"

definition refs :: "mbp set \<Rightarrow> mbst \<Rightarrow> nat \<Rightarrow> mbp set" where
  "refs X st d = {p. live st p \<and> p \<notin> X \<and> m_bdatap (hdr st p) = d}"

definition free_ok :: "mbst \<Rightarrow> bool" where
  "free_ok st \<longleftrightarrow> distinct (mdbfreelist st) \<and> set (mdbfreelist st) \<subseteq> {..<ntrip st} \<and>
     distinct (msgfreelist st) \<and> set (msgfreelist st) \<subseteq> Sep ` {..<nsep st} \<and>
     al_use (mdbblock st) = int (ntrip st) - int (length (mdbfreelist st)) \<and>
     al_use (msgblock st) = int (nsep st) - int (length (msgfreelist st))"

definition span_ok :: "msgb \<Rightarrow> datab \<Rightarrow> bool" where
  "span_ok b db \<longleftrightarrow> fst (m_brptr b) = fst (d_dbbase db) \<and> fst (m_bwptr b) = fst (d_dbbase db) \<and>
     snd (d_dbbase db) \<le> snd (m_brptr b) \<and> snd (m_brptr b) \<le> snd (m_bwptr b) \<and> snd (m_bwptr b) \<le> snd (d_dblim db)"

definition hdr_ok :: "mbst \<Rightarrow> mbp \<Rightarrow> bool" where
  "hdr_ok st p \<longleftrightarrow> used st (m_bdatap (hdr st p)) \<and>
     (\<forall>i. p = Trip i \<longrightarrow> d_dbmsgaddr (dat st (m_bdatap (hdr st p))) = i) \<and>
     span_ok (hdr st p) (dat st (m_bdatap (hdr st p)))"

definition buf_ok :: "mbst \<Rightarrow> nat \<Rightarrow> datab \<Rightarrow> bool" where
  "buf_ok st d db \<longleftrightarrow> snd (d_dbbase db) = 0 \<and> fst (d_dblim db) = fst (d_dbbase db) \<and>
     (case fst (d_dbbase db) of
        Fast e \<Rightarrow> e = d \<and> d_dblim db = (Fast d, FASTBUF) \<and> d_dbfrtnp db = None
      | Kmem k \<Rightarrow> k < nkmem st \<and> (Kmem k, 0) \<notin> fst ` set (kfreed st) \<and> d_dbfrtnp db = None
      | Ext k \<Rightarrow> d_dbfrtnp db \<noteq> None)"

definition dat_ok :: "mbp set \<Rightarrow> mbst \<Rightarrow> nat \<Rightarrow> bool" where
  "dat_ok X st d \<longleftrightarrow> refs X st d \<noteq> {} \<and> unat (d_dbref (dat st d)) = card (refs X st d) \<and> buf_ok st d (dat st d)"

definition bufs_apart :: "mbst \<Rightarrow> bool" where
  "bufs_apart st \<longleftrightarrow> (\<forall>d e k. used st d \<and> used st e \<and> fst (d_dbbase (dat st d)) = Kmem k \<and>
     fst (d_dbbase (dat st e)) = Kmem k \<longrightarrow> d = e)"

definition mb_inv :: "mbp set \<Rightarrow> mbst \<Rightarrow> bool" where
  "mb_inv X st \<longleftrightarrow> free_ok st \<and> (\<forall>p. live st p \<and> p \<notin> X \<longrightarrow> hdr_ok st p) \<and>
     (\<forall>d. used st d \<longrightarrow> dat_ok X st d) \<and> bufs_apart st \<and>
     (\<forall>b n. (b, n) \<in> set (kfreed st) \<longrightarrow> (\<exists>k<nkmem st. b = (Kmem k, 0))) \<and> distinct (map fst (kfreed st))"

abbreviation mbst_ok :: "mbst \<Rightarrow> bool" where
  "mbst_ok \<equiv> mb_inv {}"

section \<open>Frames\<close>

lemma live_simps [simp]:
  "live st (Trip i) \<longleftrightarrow> i < ntrip st \<and> i \<notin> set (mdbfreelist st) \<and> d_dbiswhat (dat st i) \<noteq> NOT_M"
  "live st (Sep j) \<longleftrightarrow> j < nsep st \<and> Sep j \<notin> set (msgfreelist st)"
  by (simp_all add: live_def)

lemma upd_simps [simp]:
  "hdr (upd_dat d g st) = hdr st" "dat (upd_hdr p f st) = dat st"
  "hdr (upd_hdr p f st) = (hdr st)(p := f (hdr st p))" "dat (upd_dat d g st) = (dat st)(d := g (dat st d))"
  "nsep (upd_hdr p f st) = nsep st" "ntrip (upd_hdr p f st) = ntrip st"
  "msgfreelist (upd_hdr p f st) = msgfreelist st" "mdbfreelist (upd_hdr p f st) = mdbfreelist st"
  "smem (upd_hdr p f st) = smem st" "nkmem (upd_hdr p f st) = nkmem st" "kfreed (upd_hdr p f st) = kfreed st"
  "fcalls (upd_hdr p f st) = fcalls st" "msgblock (upd_hdr p f st) = msgblock st" "mdbblock (upd_hdr p f st) = mdbblock st"
  "xaddr (upd_hdr p f st) = xaddr st" "mkmem (upd_hdr p f st) = mkmem st"
  "nsep (upd_dat d g st) = nsep st" "ntrip (upd_dat d g st) = ntrip st"
  "msgfreelist (upd_dat d g st) = msgfreelist st" "mdbfreelist (upd_dat d g st) = mdbfreelist st"
  "smem (upd_dat d g st) = smem st" "nkmem (upd_dat d g st) = nkmem st" "kfreed (upd_dat d g st) = kfreed st"
  "fcalls (upd_dat d g st) = fcalls st" "msgblock (upd_dat d g st) = msgblock st" "mdbblock (upd_dat d g st) = mdbblock st"
  "xaddr (upd_dat d g st) = xaddr st" "mkmem (upd_dat d g st) = mkmem st"
  by (simp_all add: upd_hdr_def upd_dat_def)

lemma free_simps [simp]:
  "hdr (FREEMSGBLOCK p st) = hdr st" "dat (FREEMSGBLOCK p st) = dat st" "nsep (FREEMSGBLOCK p st) = nsep st"
  "ntrip (FREEMSGBLOCK p st) = ntrip st" "msgfreelist (FREEMSGBLOCK p st) = p # msgfreelist st"
  "mdbfreelist (FREEMSGBLOCK p st) = mdbfreelist st" "smem (FREEMSGBLOCK p st) = smem st"
  "nkmem (FREEMSGBLOCK p st) = nkmem st" "kfreed (FREEMSGBLOCK p st) = kfreed st" "fcalls (FREEMSGBLOCK p st) = fcalls st"
  "xaddr (FREEMSGBLOCK p st) = xaddr st" "mkmem (FREEMSGBLOCK p st) = mkmem st"
  "hdr (FREEMDBBLOCK i st) = hdr st" "dat (FREEMDBBLOCK i st) = dat st" "nsep (FREEMDBBLOCK i st) = nsep st"
  "ntrip (FREEMDBBLOCK i st) = ntrip st" "mdbfreelist (FREEMDBBLOCK i st) = i # mdbfreelist st"
  "msgfreelist (FREEMDBBLOCK i st) = msgfreelist st" "smem (FREEMDBBLOCK i st) = smem st"
  "nkmem (FREEMDBBLOCK i st) = nkmem st" "kfreed (FREEMDBBLOCK i st) = kfreed st" "fcalls (FREEMDBBLOCK i st) = fcalls st"
  "xaddr (FREEMDBBLOCK i st) = xaddr st" "mkmem (FREEMDBBLOCK i st) = mkmem st"
  by (simp_all add: FREEMSGBLOCK_def FREEMDBBLOCK_def)

lemma mb_invD:
  assumes "mb_inv X st"
  shows "free_ok st" "live st p \<Longrightarrow> p \<notin> X \<Longrightarrow> hdr_ok st p" "used st d \<Longrightarrow> dat_ok X st d" "bufs_apart st"
    "(b, n) \<in> set (kfreed st) \<Longrightarrow> \<exists>k<nkmem st. b = (Kmem k, 0)" "distinct (map fst (kfreed st))"
  using assms unfolding mb_inv_def by blast+

lemma finite_live: "finite {p. live st p}"
proof (rule finite_subset)
  show "{p. live st p} \<subseteq> Trip ` {..<ntrip st} \<union> Sep ` {..<nsep st}"
  proof
    fix p assume "p \<in> {p. live st p}"
    then show "p \<in> Trip ` {..<ntrip st} \<union> Sep ` {..<nsep st}" by (cases p) auto
  qed
qed simp

lemma finite_refs [simp]: "finite (refs X st d)"
  by (rule finite_subset [OF _ finite_live [of st]]) (auto simp: refs_def)

text \<open>What freeing a header leaves of a data block, and when two states have the same contents.\<close>

definition dcore :: "datab \<Rightarrow> frtn option \<times> ptr \<times> ptr \<times> u8 \<times> nat \<times> int" where
  "dcore db = (d_dbfrtnp db, d_dbbase db, d_dblim db, d_dbtype db, d_dbmsgaddr db, d_dbsize db)"

lemma dcore_eq:
  "dcore a = dcore b \<longleftrightarrow> d_dbfrtnp a = d_dbfrtnp b \<and> d_dbbase a = d_dbbase b \<and> d_dblim a = d_dblim b \<and>
     d_dbtype a = d_dbtype b \<and> d_dbmsgaddr a = d_dbmsgaddr b \<and> d_dbsize a = d_dbsize b"
  by (simp add: dcore_def)

lemma dcore_upd [simp]:
  "dcore (db\<lparr>d_dbref := r\<rparr>) = dcore db" "dcore (db\<lparr>d_dbiswhat := w\<rparr>) = dcore db"
  by (simp_all add: dcore_def)

lemma core_cong:
  assumes "dcore a = dcore b"
  shows "span_ok h a = span_ok h b"
    "nkmem st' = nkmem st \<Longrightarrow> kfreed st' = kfreed st \<Longrightarrow> buf_ok st' d a = buf_ok st d b"
  using assms by (auto simp: dcore_eq span_ok_def buf_ok_def split: buf.splits)

section \<open>Freeing a block\<close>

lemma drop_hdr_facts:
  assumes ok: "mb_inv X st" and p: "live st p" "p \<notin> X"
  shows "hdr (drop_hdr p st) = hdr st" "smem (drop_hdr p st) = smem st" "nkmem (drop_hdr p st) = nkmem st"
    "xaddr (drop_hdr p st) = xaddr st" "kfreed (drop_hdr p st) = kfreed st" "mkmem (drop_hdr p st) = mkmem st"
    "fcalls (drop_hdr p st) = fcalls st" "ntrip (drop_hdr p st) = ntrip st"
    "dcore (dat (drop_hdr p st) e) = dcore (dat st e)" "d_dbref (dat (drop_hdr p st) e) = d_dbref (dat st e)"
    "live (drop_hdr p st) q \<longleftrightarrow> live st q \<and> q \<noteq> p" "used (drop_hdr p st) e \<longleftrightarrow> used st e" "free_ok (drop_hdr p st)"
proof -
  have fr: "free_ok st" and h: "hdr_ok st p" using mb_invD [OF ok] p by blast+
  have facts: "hdr (drop_hdr p st) = hdr st \<and> smem (drop_hdr p st) = smem st \<and> nkmem (drop_hdr p st) = nkmem st \<and>
    xaddr (drop_hdr p st) = xaddr st \<and> kfreed (drop_hdr p st) = kfreed st \<and> mkmem (drop_hdr p st) = mkmem st \<and>
    fcalls (drop_hdr p st) = fcalls st \<and> ntrip (drop_hdr p st) = ntrip st \<and> (\<forall>e. dcore (dat (drop_hdr p st) e) = dcore (dat st e) \<and>
    d_dbref (dat (drop_hdr p st) e) = d_dbref (dat st e)) \<and> (\<forall>q. live (drop_hdr p st) q \<longleftrightarrow> live st q \<and> q \<noteq> p) \<and>
    (\<forall>e. used (drop_hdr p st) e \<longleftrightarrow> used st e) \<and> free_ok (drop_hdr p st)"
  proof (cases p)
    case (Trip i)
    then have a: "d_dbmsgaddr (dat st (m_bdatap (hdr st p))) = i" using h by (simp add: hdr_ok_def)
    show ?thesis
    proof (cases "d_dbiswhat (dat st i) = NOT_D")
      case True
      then have "drop_hdr p st = FREEMDBBLOCK i st" using a Trip by (simp add: drop_hdr_def Let_def)
      moreover have "live (FREEMDBBLOCK i st) q \<longleftrightarrow> live st q \<and> q \<noteq> p" for q
        by (cases q) (auto simp: Trip)
      ultimately show ?thesis using fr p(1) True by (auto simp: Trip used_def free_ok_def FREEMDBBLOCK_def use_down_def)
    next
      case False
      then have "drop_hdr p st = upd_dat i (\<lambda>d. d\<lparr>d_dbiswhat := NOT_M\<rparr>) st" using a Trip by (simp add: drop_hdr_def Let_def)
      moreover have "live (upd_dat i (\<lambda>d. d\<lparr>d_dbiswhat := NOT_M\<rparr>) st) q \<longleftrightarrow> live st q \<and> q \<noteq> p" for q
        by (cases q) (auto simp: Trip)
      ultimately show ?thesis using fr p(1) False by (auto simp: Trip used_def free_ok_def)
    qed
  next
    case (Sep j)
    then have "drop_hdr p st = FREEMSGBLOCK p st" by (simp add: drop_hdr_def Let_def)
    moreover have "live (FREEMSGBLOCK p st) q \<longleftrightarrow> live st q \<and> q \<noteq> p" for q
      by (cases q) (auto simp: Sep)
    ultimately show ?thesis using fr p(1) by (auto simp: Sep used_def free_ok_def FREEMSGBLOCK_def use_down_def)
  qed
  then show "hdr (drop_hdr p st) = hdr st" "smem (drop_hdr p st) = smem st" "nkmem (drop_hdr p st) = nkmem st"
    "xaddr (drop_hdr p st) = xaddr st" "kfreed (drop_hdr p st) = kfreed st" "mkmem (drop_hdr p st) = mkmem st"
    "fcalls (drop_hdr p st) = fcalls st" "ntrip (drop_hdr p st) = ntrip st"
    "dcore (dat (drop_hdr p st) e) = dcore (dat st e)" "d_dbref (dat (drop_hdr p st) e) = d_dbref (dat st e)"
    "live (drop_hdr p st) q \<longleftrightarrow> live st q \<and> q \<noteq> p" "used (drop_hdr p st) e \<longleftrightarrow> used st e" "free_ok (drop_hdr p st)"
    by blast+
qed

definition buf_log :: "datab \<Rightarrow> (ptr \<times> int) list" where
  "buf_log db = (if d_dbfrtnp db = None \<and> (\<exists>k. fst (d_dbbase db) = Kmem k)
     then [(d_dbbase db, snd (d_dblim db) - snd (d_dbbase db))] else [])"

definition call_log :: "datab \<Rightarrow> (nat \<times> int) list" where
  "call_log db = (case d_dbfrtnp db of
     None \<Rightarrow> []
   | Some fr \<Rightarrow> (case free_func fr of None \<Rightarrow> [] | Some f \<Rightarrow> [(f, free_arg fr)]))"

lemma buf_log_cong: "dcore a = dcore b \<Longrightarrow> buf_log a = buf_log b" "dcore a = dcore b \<Longrightarrow> call_log a = call_log b"
  by (simp_all add: buf_log_def call_log_def dcore_eq)

lemma free_dat_calls:
  assumes "buf_ok st d (dat st d)"
  shows "fcalls (free_dat d st) = fcalls st @ call_log (dat st d)"
proof -
  have "fcalls (free_dat d st) = fcalls (free_buf d st)" by (simp add: free_dat_def Let_def)
  then show ?thesis using assms by (auto simp: free_buf_def Let_def call_log_def buf_ok_def split: option.splits)
qed

lemma free_dat_facts:
  assumes fr: "free_ok st" and d: "used st d" and b: "buf_ok st d (dat st d)"
  shows "hdr (free_dat d st) = hdr st" "smem (free_dat d st) = smem st" "nkmem (free_dat d st) = nkmem st"
    "xaddr (free_dat d st) = xaddr st" "mkmem (free_dat d st) = mkmem st" "ntrip (free_dat d st) = ntrip st"
    "kfreed (free_dat d st) = kfreed st @ buf_log (dat st d)"
    "dcore (dat (free_dat d st) e) = dcore (dat st e)" "d_dbref (dat (free_dat d st) e) = d_dbref (dat st e)"
    "live (free_dat d st) q \<longleftrightarrow> live st q" "used (free_dat d st) e \<longleftrightarrow> used st e \<and> e \<noteq> d" "free_ok (free_dat d st)"
proof -
  define s where "s = free_buf d st"
  have keep: "hdr s = hdr st \<and> smem s = smem st \<and> nkmem s = nkmem st \<and> xaddr s = xaddr st \<and> mkmem s = mkmem st \<and>
      ntrip s = ntrip st \<and> nsep s = nsep st \<and> dat s = dat st \<and> mdbfreelist s = mdbfreelist st \<and>
      msgfreelist s = msgfreelist st \<and> msgblock s = msgblock st \<and> mdbblock s = mdbblock st"
    by (simp add: s_def free_buf_def Let_def split: option.splits)
  have log: "kfreed s = kfreed st @ buf_log (dat st d)"
    using b by (auto simp: s_def free_buf_def buf_log_def buf_ok_def Let_def prod_eq_iff split: option.splits buf.splits)
  have ls: "live s q = live st q" "used s e = used st e" "free_ok s" for q e
    using keep fr by (cases q; simp add: used_def free_ok_def)+
  have "hdr (free_dat d st) = hdr s \<and> smem (free_dat d st) = smem s \<and> nkmem (free_dat d st) = nkmem s \<and>
      xaddr (free_dat d st) = xaddr s \<and> mkmem (free_dat d st) = mkmem s \<and> ntrip (free_dat d st) = ntrip s \<and>
      kfreed (free_dat d st) = kfreed s \<and> (\<forall>e. dcore (dat (free_dat d st) e) = dcore (dat s e) \<and>
      d_dbref (dat (free_dat d st) e) = d_dbref (dat s e)) \<and> (\<forall>q. live (free_dat d st) q \<longleftrightarrow> live s q) \<and>
      (\<forall>e. used (free_dat d st) e \<longleftrightarrow> used s e \<and> e \<noteq> d) \<and> free_ok (free_dat d st)"
  proof (cases "d_dbiswhat (dat s d) = NOT_M")
    case True
    then have "free_dat d st = FREEMDBBLOCK d s" by (simp add: free_dat_def s_def Let_def)
    moreover have "live (FREEMDBBLOCK d s) q \<longleftrightarrow> live s q" for q
      using True by (cases q) auto
    ultimately show ?thesis using ls(3) d True keep
      by (auto simp: used_def free_ok_def FREEMDBBLOCK_def use_down_def)
  next
    case False
    then have "free_dat d st = upd_dat d (\<lambda>db. db\<lparr>d_dbiswhat := NOT_D\<rparr>) s" by (simp add: free_dat_def s_def Let_def)
    moreover have "live (upd_dat d (\<lambda>db. db\<lparr>d_dbiswhat := NOT_D\<rparr>) s) q \<longleftrightarrow> live s q" for q
      using False by (cases q) auto
    ultimately show ?thesis using ls(3) by (auto simp: used_def free_ok_def)
  qed
  then show "hdr (free_dat d st) = hdr st" "smem (free_dat d st) = smem st" "nkmem (free_dat d st) = nkmem st"
    "xaddr (free_dat d st) = xaddr st" "mkmem (free_dat d st) = mkmem st" "ntrip (free_dat d st) = ntrip st"
    "kfreed (free_dat d st) = kfreed st @ buf_log (dat st d)"
    "dcore (dat (free_dat d st) e) = dcore (dat st e)" "d_dbref (dat (free_dat d st) e) = d_dbref (dat st e)"
    "live (free_dat d st) q \<longleftrightarrow> live st q" "used (free_dat d st) e \<longleftrightarrow> used st e \<and> e \<noteq> d" "free_ok (free_dat d st)"
    using keep log ls by simp_all
qed

lemma refs_drop:
  assumes "\<And>q. live st' q \<longleftrightarrow> live st q \<and> q \<noteq> p" "hdr st' = hdr st"
  shows "refs X st' e = refs X st e - {p}"
  using assms by (auto simp: refs_def)

lemma freeb_facts:
  assumes ok: "mb_inv X st" and p: "live st p" "p \<notin> X"
  shows "hdr (freeb p st) = hdr st" "smem (freeb p st) = smem st" "nkmem (freeb p st) = nkmem st"
    "xaddr (freeb p st) = xaddr st" "mkmem (freeb p st) = mkmem st"
    "kfreed (freeb p st) = kfreed st @
       (if refs X st (m_bdatap (hdr st p)) = {p} then buf_log (dat st (m_bdatap (hdr st p))) else [])"
    "dcore (dat (freeb p st) e) = dcore (dat st e)"
    "live (freeb p st) q \<longleftrightarrow> live st q \<and> q \<noteq> p" "used (freeb p st) e \<longleftrightarrow> used st e \<and> refs X st e \<noteq> {p}"
    "free_ok (freeb p st)" "used (freeb p st) e \<Longrightarrow> unat (d_dbref (dat (freeb p st) e)) = card (refs X st e - {p})"
    "fcalls (freeb p st) = fcalls st @
       (if refs X st (m_bdatap (hdr st p)) = {p} then call_log (dat st (m_bdatap (hdr st p))) else [])"
proof -
  define d where "d = m_bdatap (hdr st p)"
  define st1 where "st1 = upd_dat d (\<lambda>db. db\<lparr>d_dbref := d_dbref db - 1\<rparr>) (drop_hdr p st)"
  note dr = drop_hdr_facts [OF ok p]
  have hp: "hdr_ok st p" using mb_invD(2) [OF ok] p by blast
  have ud: "used st d" using hp by (simp add: hdr_ok_def d_def)
  have dok: "unat (d_dbref (dat st d)) = card (refs X st d)" and bok: "buf_ok st d (dat st d)"
    using mb_invD(3) [OF ok ud] by (simp_all add: dat_ok_def)
  have pin: "p \<in> refs X st d" using p by (simp add: refs_def d_def)
  have only: "refs X st e = {p} \<Longrightarrow> e = d" for e
  proof -
    assume "refs X st e = {p}"
    then have "p \<in> refs X st e" by simp
    then show "e = d" by (simp add: refs_def d_def)
  qed
  have oth: "e \<noteq> d \<Longrightarrow> refs X st e - {p} = refs X st e" for e
    by (auto simp: refs_def d_def)
  have card: "card (refs X st d - {p}) = card (refs X st d) - 1" "0 < card (refs X st d)"
    using pin by (auto simp: card_gt_0_iff)
  have ref1: "unat (d_dbref (dat st d) - 1) = card (refs X st d - {p})"
    using dok card by (subst unat_sub_le) (simp_all add: word_le_nat_alt)
  have s1: "hdr st1 = hdr st" "smem st1 = smem st" "nkmem st1 = nkmem st" "xaddr st1 = xaddr st" "mkmem st1 = mkmem st"
    "kfreed st1 = kfreed st" "dcore (dat st1 e) = dcore (dat st e)" "live st1 q \<longleftrightarrow> live st q \<and> q \<noteq> p"
    "used st1 e \<longleftrightarrow> used st e" "free_ok st1" "d_dbref (dat st1 e) = (if e = d then d_dbref (dat st e) - 1 else d_dbref (dat st e))"
    for e q
    using dr(1-10) dr(11) [of q] dr(12) [of e] dr(13)
    by (simp_all add: st1_def, cases q, auto simp: used_def free_ok_def)
  have zero: "d_dbref (dat st1 d) > 0 \<longleftrightarrow> refs X st d \<noteq> {p}"
  proof -
    have "refs X st d - {p} = {} \<longleftrightarrow> refs X st d = {p}" using pin by blast
    moreover have "d_dbref (dat st d) - 1 > 0 \<longleftrightarrow> 0 < card (refs X st d - {p})"
      using ref1 by (simp add: word_less_nat_alt)
    ultimately show ?thesis by (simp add: s1(11) card_gt_0_iff)
  qed
  have b1: "buf_ok st1 d (dat st1 d)" using bok core_cong(2) [OF s1(7) s1(3) s1(6)] by simp
  have fb: "freeb p st = (if refs X st d = {p} then free_dat d st1 else st1)"
    using zero by (simp add: freeb_def Let_def st1_def d_def)
  note fd = free_dat_facts [OF s1(10) _ b1]
  have u1: "used st1 d" using ud s1(9) by simp
  show "hdr (freeb p st) = hdr st" "smem (freeb p st) = smem st" "nkmem (freeb p st) = nkmem st"
    "xaddr (freeb p st) = xaddr st" "mkmem (freeb p st) = mkmem st" "free_ok (freeb p st)"
    using fd(1-5,12) [OF u1] s1(1-5,10) by (simp_all add: fb)
  show "kfreed (freeb p st) = kfreed st @
       (if refs X st (m_bdatap (hdr st p)) = {p} then buf_log (dat st (m_bdatap (hdr st p))) else [])"
    using fd(7) [OF u1] s1(6) buf_log_cong(1) [OF s1(7)] by (simp add: fb d_def)
  show "fcalls (freeb p st) = fcalls st @
       (if refs X st (m_bdatap (hdr st p)) = {p} then call_log (dat st (m_bdatap (hdr st p))) else [])"
    using free_dat_calls [OF b1] dr(7) buf_log_cong(2) [OF s1(7)] by (simp add: fb d_def) (simp add: st1_def)
  show "dcore (dat (freeb p st) e) = dcore (dat st e)" using fd(8) [OF u1] s1(7) by (simp add: fb)
  show "live (freeb p st) q \<longleftrightarrow> live st q \<and> q \<noteq> p" using fd(10) [OF u1] s1(8) by (simp add: fb)
  show "used (freeb p st) e \<longleftrightarrow> used st e \<and> refs X st e \<noteq> {p}"
  proof (cases "refs X st d = {p}")
    case True
    then have "refs X st e = {p} \<longleftrightarrow> e = d" using only by blast
    then show ?thesis using True fd(11) [OF u1, of e] s1(9) [of e] by (simp add: fb)
  next
    case False
    then have "refs X st e \<noteq> {p}" using only by blast
    then show ?thesis using False s1(9) [of e] by (simp add: fb)
  qed
  assume ue: "used (freeb p st) e"
  have eq: "d_dbref (dat (freeb p st) e) = d_dbref (dat st1 e)" using fd(9) [OF u1] by (simp add: fb)
  have "used st e" using ue fd(11) [OF u1] s1(9) by (auto simp: fb split: if_splits)
  then show "unat (d_dbref (dat (freeb p st) e)) = card (refs X st e - {p})"
  proof (cases "e = d")
    case False
    then show ?thesis using \<open>used st e\<close> eq oth mb_invD(3) [OF ok] by (simp add: s1(11) dat_ok_def)
  next
    case True
    then show ?thesis using eq ref1 s1(11) [of d] by simp
  qed
qed

lemma freeb_ok:
  assumes ok: "mb_inv X st" and p: "live st p" "p \<notin> X"
  shows "mb_inv X (freeb p st)"
proof -
  note f = freeb_facts [OF ok p]
  let ?s = "freeb p st" and ?d = "m_bdatap (hdr st p)"
  have rf: "refs X ?s e = refs X st e - {p}" for e by (rule refs_drop [OF f(8) f(1)])
  have apart: "bufs_apart st" by (rule mb_invD(4) [OF ok])
  have ud: "used st ?d" using mb_invD(2) [OF ok p] by (simp add: hdr_ok_def)
  have dd: "buf_ok st ?d (dat st ?d)" using mb_invD(3) [OF ok ud] by (simp add: dat_ok_def)
  have log: "(b, n) \<in> set (buf_log (dat st ?d)) \<Longrightarrow> b = d_dbbase (dat st ?d) \<and>
      (\<exists>k<nkmem st. b = (Kmem k, 0) \<and> (Kmem k, 0) \<notin> fst ` set (kfreed st))" for b n
    using dd by (cases "d_dbbase (dat st ?d)") (auto simp: buf_log_def buf_ok_def split: if_splits)
  have h: "hdr_ok ?s q" if "live ?s q" "q \<notin> X" for q
  proof -
    have q: "live st q" "q \<noteq> p" using that f(8) by blast+
    have "hdr_ok st q" using mb_invD(2) [OF ok] q that by blast
    moreover have "refs X st (m_bdatap (hdr st q)) \<noteq> {p}"
    proof
      assume "refs X st (m_bdatap (hdr st q)) = {p}"
      moreover have "q \<in> refs X st (m_bdatap (hdr st q))" using q that by (simp add: refs_def)
      ultimately show False using q by simp
    qed
    ultimately show ?thesis using f(7) [of "m_bdatap (hdr st q)"]
      by (auto simp: hdr_ok_def f(1,9) dcore_eq span_ok_def)
  qed
  have d: "dat_ok X ?s e" if u: "used ?s e" for e
  proof -
    have ue: "used st e" and ne: "refs X st e \<noteq> {p}" using u f(9) by blast+
    have old: "refs X st e \<noteq> {}" "buf_ok st e (dat st e)" using mb_invD(3) [OF ok ue] by (simp_all add: dat_ok_def)
    have "buf_ok ?s e (dat ?s e)"
    proof (cases "refs X st ?d = {p}")
      case False
      then show ?thesis using old(2) core_cong(2) [OF f(7) f(3), of e] f(6) by simp
    next
      case True
      then have ned: "e \<noteq> ?d" using ne by blast
      have "buf_ok st e (dat ?s e)" using old(2) core_cong(2) [OF f(7), of st st e e] by simp
      moreover have "fst (d_dbbase (dat st e)) = Kmem k \<Longrightarrow> (Kmem k, 0) \<notin> fst ` set (buf_log (dat st ?d))" for k
        using log apart ned ue ud unfolding bufs_apart_def by (metis (no_types, lifting) fst_conv imageE surj_pair)
      ultimately show ?thesis using f(7) [of e] True
        by (auto simp: buf_ok_def f(3,6) dcore_eq split: buf.splits)
    qed
    then show ?thesis using old(1) ne f(11) [OF u] by (auto simp: dat_ok_def rf)
  qed
  have "bufs_apart ?s" using apart f(7,9) by (auto simp: bufs_apart_def dcore_eq)
  moreover have "\<exists>k<nkmem ?s. b = (Kmem k, 0)" if "(b, n) \<in> set (kfreed ?s)" for b n
  proof -
    have "(b, n) \<in> set (kfreed st) \<or> (b, n) \<in> set (buf_log (dat st ?d))" using that by (auto simp: f(6) split: if_splits)
    then show ?thesis using log [of b n] mb_invD(5) [OF ok, of b n] unfolding f(3) by blast
  qed
  moreover have "distinct (map fst (kfreed ?s))"
  proof -
    have "distinct (map fst (buf_log (dat st ?d)))" by (simp add: buf_log_def)
    moreover
    have "fst x \<noteq> fst y" if "x \<in> set (kfreed st)" "y \<in> set (buf_log (dat st ?d))" for x y
      using log [of "fst y" "snd y"] that by (metis image_eqI prod.collapse)
    then have "fst ` set (kfreed st) \<inter> fst ` set (buf_log (dat st ?d)) = {}" by blast
    ultimately show ?thesis using mb_invD(6) [OF ok] by (simp add: f(6))
  qed
  ultimately show ?thesis using f(10) h d unfolding mb_inv_def by blast
qed

section \<open>Messages\<close>

text \<open>The blocks \<open>ps\<close> of the message that \<open>x\<close> points to, linked through \<open>b_cont\<close>.\<close>

primrec bchain :: "(mbp \<Rightarrow> msgb) \<Rightarrow> mbp option \<Rightarrow> mbp list \<Rightarrow> bool" where
  "bchain h x [] \<longleftrightarrow> x = None"
| "bchain h x (p # ps) \<longleftrightarrow> x = Some p \<and> bchain h (m_bcont (h p)) ps"

lemma bchain_None [simp]: "bchain h None ps \<longleftrightarrow> ps = []"
  by (cases ps) auto

lemma bchain_Some: "bchain h (Some p) ps \<longleftrightarrow> (\<exists>qs. ps = p # qs \<and> bchain h (m_bcont (h p)) qs)"
  by (cases ps) auto

lemma bchain_unique: "bchain h x ps \<Longrightarrow> bchain h x qs \<Longrightarrow> ps = qs"
  by (induction ps arbitrary: x qs) (auto simp: bchain_Some)

lemma bchain_split: "bchain h x (ps @ p # qs) \<Longrightarrow> bchain h (m_bcont (h p)) qs"
  by (induction ps arbitrary: x) auto

lemma bchain_distinct: "bchain h x ps \<Longrightarrow> distinct ps"
proof (induction ps arbitrary: x)
  case (Cons p ps)
  have "p \<notin> set ps"
  proof
    assume "p \<in> set ps"
    then obtain as bs where ps: "ps = as @ p # bs" by (meson split_list)
    have "bchain h (m_bcont (h p)) bs" using Cons.prems bchain_split [of h "m_bcont (h p)" as p bs] ps by simp
    then have "ps = bs" using Cons.prems bchain_unique by fastforce
    then show False using ps by simp
  qed
  moreover have "distinct ps" using Cons.IH [of "m_bcont (h p)"] Cons.prems by simp
  ultimately show ?case by simp
qed simp

lemma bchain_cong:
  "bchain h x ps \<Longrightarrow> (\<And>p. p \<in> set ps \<Longrightarrow> m_bcont (h' p) = m_bcont (h p)) \<Longrightarrow> bchain h' x ps"
  by (induction ps arbitrary: x) auto

definition msg_ok :: "mbp set \<Rightarrow> mbst \<Rightarrow> mbp option \<Rightarrow> mbp list \<Rightarrow> bool" where
  "msg_ok X st x ps \<longleftrightarrow> bchain (hdr st) x ps \<and> (\<forall>p\<in>set ps. live st p \<and> p \<notin> X)"

definition btext :: "mbst \<Rightarrow> mbp \<Rightarrow> u8 list" where
  "btext st p = map (\<lambda>k. smem st (fst (m_brptr (hdr st p)), k)) [snd (m_brptr (hdr st p))..snd (m_bwptr (hdr st p)) - 1]"

definition mtext :: "mbst \<Rightarrow> mbp list \<Rightarrow> u8 list" where
  "mtext st ps = concat (map (btext st) ps)"

text \<open>What a message tells its reader of a block: its band, flags, type and data.\<close>

definition bview :: "mbst \<Rightarrow> mbp \<Rightarrow> u8 \<times> u16 \<times> u8 \<times> u8 list" where
  "bview st p = (m_bband (hdr st p), m_bflag (hdr st p), btype st p, btext st p)"

text \<open>
  Freeing a message: its headers go, and exactly the data blocks that have no other header, each
  buffer once.
\<close>

lemma freemsg_spec:
  assumes "mb_inv X st" "msg_ok X st bp ps"
  shows "\<exists>st' es. freemsg bp st = Some st' \<and> mb_inv X st' \<and> hdr st' = hdr st \<and> smem st' = smem st \<and>
    xaddr st' = xaddr st \<and> nkmem st' = nkmem st \<and> (\<forall>q. live st' q \<longleftrightarrow> live st q \<and> q \<notin> set ps) \<and>
    (\<forall>e. used st' e \<longleftrightarrow> used st e \<and> \<not> refs X st e \<subseteq> set ps) \<and> (\<forall>e. dcore (dat st' e) = dcore (dat st e)) \<and>
    distinct es \<and> set es = {e. used st e \<and> refs X st e \<subseteq> set ps} \<and>
    kfreed st' = kfreed st @ concat (map (\<lambda>e. buf_log (dat st e)) es) \<and>
    fcalls st' = fcalls st @ concat (map (\<lambda>e. call_log (dat st e)) es)"
  using assms
proof (induction ps arbitrary: st bp)
  case Nil
  then have "refs X st e \<noteq> {}" if "used st e" for e using mb_invD(3) [OF Nil.prems(1) that] by (simp add: dat_ok_def)
  then have "{} = {e. used st e \<and> refs X st e \<subseteq> {}}" "\<forall>e. used st e \<longrightarrow> \<not> refs X st e \<subseteq> {}" by auto
  then show ?case using Nil
    by (intro exI [of _ st] exI [of _ "[]"]) (subst freemsg.simps, auto simp: msg_ok_def)
next
  case (Cons p ps)
  have bp: "bp = Some p" and ch: "bchain (hdr st) (m_bcont (hdr st p)) ps" and p: "live st p" "p \<notin> X"
    using Cons.prems(2) by (auto simp: msg_ok_def)
  have np: "p \<notin> set ps" using bchain_distinct [of "hdr st" bp "p # ps"] Cons.prems(2) by (simp add: msg_ok_def)
  note f = freeb_facts [OF Cons.prems(1) p]
  let ?s = "freeb p st" and ?d = "m_bdatap (hdr st p)"
  have rf: "refs X ?s e = refs X st e - {p}" for e by (rule refs_drop [OF f(8) f(1)])
  have "msg_ok X ?s (m_bcont (hdr st p)) ps" using Cons.prems(2) ch np by (auto simp: msg_ok_def f(1,8))
  from Cons.IH [OF freeb_ok [OF Cons.prems(1) p] this] obtain st' es where
    r: "freemsg (m_bcont (hdr st p)) ?s = Some st'" "mb_inv X st'" "hdr st' = hdr st" "smem st' = smem st"
      "xaddr st' = xaddr st" "nkmem st' = nkmem st" "\<forall>q. live st' q \<longleftrightarrow> live ?s q \<and> q \<notin> set ps"
      "\<forall>e. used st' e \<longleftrightarrow> used ?s e \<and> \<not> refs X ?s e \<subseteq> set ps" "\<forall>e. dcore (dat st' e) = dcore (dat ?s e)"
      "distinct es" "set es = {e. used ?s e \<and> refs X ?s e \<subseteq> set ps}"
      "kfreed st' = kfreed ?s @ concat (map (\<lambda>e. buf_log (dat ?s e)) es)"
      "fcalls st' = fcalls ?s @ concat (map (\<lambda>e. call_log (dat ?s e)) es)"
    using f(1-4) by auto
  have pin: "p \<in> refs X st e \<longleftrightarrow> e = ?d" for e using p by (auto simp: refs_def)
  have ud: "used st ?d" using mb_invD(2) [OF Cons.prems(1) p] by (simp add: hdr_ok_def)
  have sub: "refs X st e \<noteq> {p} \<and> refs X st e - {p} \<subseteq> set ps \<longleftrightarrow> refs X st e \<noteq> {p} \<and> refs X st e \<subseteq> set (p # ps)" for e
    by auto
  let ?es = "if refs X st ?d = {p} then ?d # es else es"
  have us: "used ?s e \<longleftrightarrow> used st e \<and> refs X st e \<noteq> {p}" for e by (rule f(9))
  have es: "set es = {e. used st e \<and> refs X st e \<noteq> {p} \<and> refs X st e \<subseteq> set (p # ps)}"
  proof -
    have "used ?s e \<and> refs X ?s e \<subseteq> set ps \<longleftrightarrow> used st e \<and> refs X st e \<noteq> {p} \<and> refs X st e \<subseteq> set (p # ps)" for e
      unfolding us rf using sub [of e] by blast
    then show ?thesis using r(11) by simp
  qed
  have "?d \<notin> set es \<or> refs X st ?d \<noteq> {p}" using es by blast
  then have "distinct ?es" using r(10) by auto
  moreover have "set ?es = {e. used st e \<and> refs X st e \<subseteq> set (p # ps)}"
  proof -
    have only: "refs X st e = {p} \<Longrightarrow> e = ?d" for e using pin by blast
    show ?thesis
    proof (cases "refs X st ?d = {p}")
      case True
      have "refs X st e = {p} \<longleftrightarrow> e = ?d" for e using only [of e] True by blast
      then have "set ?es = insert ?d {e. used st e \<and> e \<noteq> ?d \<and> refs X st e \<subseteq> set (p # ps)}" using es True by simp
      moreover have "refs X st ?d \<subseteq> set (p # ps)" using True by simp
      moreover have "insert ?d {e. used st e \<and> e \<noteq> ?d \<and> refs X st e \<subseteq> set (p # ps)} = {e. used st e \<and> refs X st e \<subseteq> set (p # ps)}"
        using ud calculation(2) by blast
      ultimately show ?thesis by (simp only:)
    next
      case False
      then have "refs X st e \<noteq> {p}" for e using only [of e] by blast
      then show ?thesis using es False by simp
    qed
  qed
  moreover have "kfreed st' = kfreed st @ concat (map (\<lambda>e. buf_log (dat st e)) ?es)"
    using r(12) f(6) buf_log_cong(1) [OF f(7)] by simp
  moreover have "fcalls st' = fcalls st @ concat (map (\<lambda>e. call_log (dat st e)) ?es)"
    using r(13) f(12) buf_log_cong(2) [OF f(7)] by simp
  moreover have "used st' e \<longleftrightarrow> used st e \<and> \<not> refs X st e \<subseteq> set (p # ps)" for e
    using r(8) us rf by auto
  ultimately show ?case using r(1-9) f(7,8)
    by (intro exI [of _ st'] exI [of _ ?es]) (subst freemsg.simps, simp add: bp)
qed

section \<open>Allocating and duplicating\<close>

definition same_core :: "mbst \<Rightarrow> mbst \<Rightarrow> bool" where
  "same_core st st' \<longleftrightarrow> hdr st' = hdr st \<and> dat st' = dat st \<and> smem st' = smem st \<and> xaddr st' = xaddr st \<and>
     nkmem st' = nkmem st \<and> kfreed st' = kfreed st \<and> fcalls st' = fcalls st"

lemma kmem_alloc_facts:
  "kmem_alloc st = (b, st') \<Longrightarrow> same_core st st' \<and> free_ok st' = free_ok st \<and> live st' = live st \<and> used st' = used st \<and>
     ntrip st' = ntrip st \<and> nsep st' = nsep st \<and> mdbfreelist st' = mdbfreelist st \<and> msgfreelist st' = msgfreelist st \<and>
     mdbblock st' = mdbblock st \<and> msgblock st' = msgblock st"
  by (auto simp: kmem_alloc_def same_core_def free_ok_def live_def used_def fun_eq_iff split: list.splits bool.splits mbp.splits)

lemma new_msg_facts:
  assumes fr: "free_ok st" and n: "new_msg st = (r, st')"
  shows "same_core st st' \<and> free_ok st' \<and> used st' = used st \<and>
    (case r of None \<Rightarrow> live st' = live st
     | Some p \<Rightarrow> (\<exists>j. p = Sep j) \<and> \<not> live st p \<and> (\<forall>q. live st' q \<longleftrightarrow> live st q \<or> q = p))"
proof (cases "msgfreelist st")
  case (Cons p ps)
  then obtain j where p: "p = Sep j" "j < nsep st" using fr by (auto simp: free_ok_def)
  have st': "r = Some p" "st' = st\<lparr>msgfreelist := ps, msgblock := bumpup (msgblock st)\<rparr>"
    using n Cons by (simp_all add: new_msg_def ALLOCMSGBLOCK_def)
  have "live st' q \<longleftrightarrow> live st q \<or> q = p" for q
    using p Cons fr by (cases q) (auto simp: st' free_ok_def)
  then show ?thesis using fr p Cons by (auto simp: st' same_core_def free_ok_def used_def bumpup_def Let_def)
next
  case Nil
  obtain b s where k: "kmem_alloc st = (b, s)" by fastforce
  note kf = kmem_alloc_facts [OF k]
  have st': "r = (if b then Some (Sep (nsep st)) else None)"
    "st' = (if b then s\<lparr>nsep := nsep s + 1, msgblock := bumpup (msgblock s), mstrcount := mstrcount s + 36\<rparr>
       else s\<lparr>msgblock := al_failed (msgblock s)\<rparr>)"
    using n Nil k kf by (auto simp: new_msg_def xmsgalloc_def split: if_splits)
  have "live st' q \<longleftrightarrow> live st q \<or> b \<and> q = Sep (nsep st)" for q
    using kf Nil by (cases q) (auto simp: st' live_def fun_eq_iff same_core_def)
  moreover have "\<not> live st (Sep (nsep st))" by simp
  moreover have "free_ok st'" using kf fr Nil by (auto simp: st' free_ok_def bumpup_def al_failed_def Let_def)
  moreover have "used st' = used st" using kf by (auto simp: st' used_def fun_eq_iff same_core_def)
  moreover have "same_core st st'" using kf by (simp add: st' same_core_def)
  moreover from calculation(1) have "\<not> b \<Longrightarrow> live st' = live st" by (auto simp: fun_eq_iff)
  ultimately show ?thesis by (cases b) (simp_all add: st'(1))
qed

lemma new_mdb_facts:
  assumes fr: "free_ok st" and n: "new_mdb st = (r, st')"
  shows "same_core st st' \<and> free_ok st' \<and>
    (case r of None \<Rightarrow> live st' = live st \<and> used st' = used st
     | Some i \<Rightarrow> i < ntrip st' \<and> i \<notin> set (mdbfreelist st') \<and> \<not> live st (Trip i) \<and> \<not> used st i \<and>
         (\<forall>q. q \<noteq> Trip i \<longrightarrow> live st' q = live st q) \<and> (\<forall>e. e \<noteq> i \<longrightarrow> used st' e = used st e))"
proof (cases "mdbfreelist st")
  case (Cons i fs)
  have st': "r = Some i" "st' = st\<lparr>mdbfreelist := fs, mdbblock := bumpup (mdbblock st)\<rparr>"
    using n Cons by (simp_all add: new_mdb_def ALLOCMDBBLOCK_def)
  have "q \<noteq> Trip i \<longrightarrow> live st' q = live st q" for q
    using Cons by (cases q) (auto simp: st')
  then show ?thesis using fr Cons by (auto simp: st' same_core_def free_ok_def used_def bumpup_def Let_def)
next
  case Nil
  obtain b s where k: "kmem_alloc st = (b, s)" by fastforce
  note kf = kmem_alloc_facts [OF k]
  have st': "r = (if b then Some (ntrip st) else None)"
    "st' = (if b then s\<lparr>ntrip := ntrip s + 1, mdbblock := bumpup (mdbblock s), mstrcount := mstrcount s + 128\<rparr>
       else s\<lparr>mdbblock := al_failed (mdbblock s)\<rparr>)"
    using n Nil k kf by (auto simp: new_mdb_def xmdballoc_def split: if_splits)
  have "q \<noteq> Trip (ntrip st) \<longrightarrow> live st' q = live st q" "\<not> b \<longrightarrow> live st' q = live st q" for q
    using kf Nil by (cases q; auto simp: st' live_def fun_eq_iff same_core_def)+
  moreover have "e \<noteq> ntrip st \<longrightarrow> used st' e = used st e" "\<not> b \<longrightarrow> used st' e = used st e" for e
    using kf by (auto simp: st' used_def same_core_def)
  moreover have "free_ok st'" using kf fr Nil by (auto simp: st' free_ok_def bumpup_def al_failed_def Let_def)
  moreover have "\<not> live st (Trip (ntrip st)) \<and> \<not> used st (ntrip st)" by (simp add: used_def)
  moreover have "same_core st st'" "b \<Longrightarrow> ntrip st < ntrip st' \<and> ntrip st \<notin> set (mdbfreelist st')" using kf Nil by (simp_all add: st' same_core_def)
  moreover from calculation(2) have "\<not> b \<Longrightarrow> live st' = live st" by (auto simp: fun_eq_iff)
  moreover from calculation(4) have "\<not> b \<Longrightarrow> used st' = used st" by (auto simp: fun_eq_iff)
  ultimately show ?thesis by (cases b) (simp_all add: st'(1))
qed

lemma mb_inv_core:
  assumes ok: "mb_inv X st" and c: "same_core st st'" and l: "live st' = live st" and u: "used st' = used st" and f: "free_ok st'"
  shows "mb_inv X st'"
proof -
  have e: "hdr_ok st' = hdr_ok st" "refs X st' = refs X st" "bufs_apart st' = bufs_apart st"
    using c l u by (auto simp: same_core_def hdr_ok_def refs_def bufs_apart_def fun_eq_iff)
  have "buf_ok st' = buf_ok st" using c by (intro ext) (auto simp: same_core_def buf_ok_def split: buf.splits)
  then have "dat_ok X st' = dat_ok X st" using e c by (simp add: dat_ok_def same_core_def fun_eq_iff)
  then show ?thesis using ok c l u f e by (simp add: mb_inv_def same_core_def)
qed

text \<open>\<open>grown N D st st'\<close>: only the headers \<open>N\<close> and data blocks \<open>D\<close> are new; those there were are as before.\<close>

definition grown :: "mbp set \<Rightarrow> nat set \<Rightarrow> mbst \<Rightarrow> mbst \<Rightarrow> bool" where
  "grown N D st st' \<longleftrightarrow>
     (\<forall>q. live st' q \<longleftrightarrow> live st q \<or> q \<in> N) \<and> (\<forall>q\<in>N. \<not> live st q) \<and> (\<forall>q. live st q \<longrightarrow> hdr st' q = hdr st q) \<and>
     (\<forall>e. used st' e \<longleftrightarrow> used st e \<or> e \<in> D) \<and> (\<forall>e\<in>D. \<not> used st e) \<and>
     (\<forall>e. used st e \<longrightarrow> dcore (dat st' e) = dcore (dat st e)) \<and> xaddr st' = xaddr st \<and> nkmem st \<le> nkmem st' \<and>
     (\<forall>e q. used st e \<and> fst q = fst (d_dbbase (dat st e)) \<longrightarrow> smem st' q = smem st q)"

lemma grown_core:
  "same_core st st' \<Longrightarrow> live st' = live st \<Longrightarrow> used st' = used st \<Longrightarrow> grown {} {} st st'"
  by (simp add: grown_def same_core_def)

lemma grown_refl: "grown {} {} st st"
  by (simp add: grown_def)

lemma grown_trans:
  assumes a: "grown N D st st1" and b: "grown M E st1 st2"
  shows "grown (N \<union> M) (D \<union> E) st st2"
  unfolding grown_def
proof (intro conjI allI impI ballI)
  fix q assume "live st q"
  then show "hdr st2 q = hdr st q" using a b unfolding grown_def by metis
next
  fix e assume u: "used st e"
  then show "dcore (dat st2 e) = dcore (dat st e)" using a b unfolding grown_def by metis
next
  fix e and q :: ptr assume u: "used st e \<and> fst q = fst (d_dbbase (dat st e))"
  then have "used st1 e" "fst q = fst (d_dbbase (dat st1 e))" using a unfolding grown_def dcore_eq by metis+
  then show "smem st2 q = smem st q" using a b u unfolding grown_def by metis
qed (use a b in \<open>auto simp: grown_def\<close>)

lemma mb_inv_cong:
  assumes ok: "mb_inv X st" and l: "\<And>q. live st' q = live st q" and u: "\<And>e. used st' e = used st e" and f: "free_ok st'"
    and h: "\<And>q. live st q \<Longrightarrow> hdr st' q = hdr st q"
    and d: "\<And>e. used st e \<Longrightarrow> dcore (dat st' e) = dcore (dat st e) \<and> d_dbref (dat st' e) = d_dbref (dat st e)"
    and k: "nkmem st' = nkmem st" "kfreed st' = kfreed st"
  shows "mb_inv X st'"
proof -
  have r: "refs X st' = refs X st" using l h by (auto simp: refs_def fun_eq_iff)
  have "hdr_ok st' q" if "live st q" "q \<notin> X" for q
    using mb_invD(2) [OF ok that] u h [OF that(1)] d [of "m_bdatap (hdr st q)"] core_cong(1)
    by (auto simp: hdr_ok_def dcore_eq span_ok_def)
  moreover have "dat_ok X st' e" if "used st e" for e
    using mb_invD(3) [OF ok that] d [OF that] r k core_cong(2) [OF _ k] by (auto simp: dat_ok_def)
  moreover have "bufs_apart st'" using mb_invD(4) [OF ok] u d unfolding bufs_apart_def dcore_eq by metis
  ultimately show ?thesis using ok l u f k by (simp add: mb_inv_def)
qed

lemma mb_inv_new:
  assumes ok: "mbst_ok st" and new: "\<not> live st (Trip i)" "\<not> used st i"
    and h: "hdr st' = (hdr st)(Trip i := b)" and d: "dat st' = (dat st)(i := db)"
    and l: "\<And>q. live st' q \<longleftrightarrow> live st q \<or> q = Trip i" and u: "\<And>e. used st' e \<longleftrightarrow> used st e \<or> e = i"
    and f: "free_ok st'" and k: "nkmem st \<le> nkmem st'" and kf: "kfreed st' = kfreed st"
    and b: "m_bdatap b = i" "span_ok b db" "d_dbmsgaddr db = i" "d_dbref db = 1" "buf_ok st' i db"
    and fresh: "\<And>k. fst (d_dbbase db) = Kmem k \<Longrightarrow> nkmem st \<le> k"
  shows "mbst_ok st'" "refs {} st' i = {Trip i}"
proof -
  have old: "used st (m_bdatap (hdr st q))" if "live st q" for q
    using mb_invD(2) [OF ok that] by (simp add: hdr_ok_def)
  have r: "refs {} st' e = (if e = i then {Trip i} else refs {} st e)" for e
  proof (cases "e = i")
    case True
    have "q = Trip i" if "live st q" "m_bdatap (hdr st q) = i" for q using old that new(2) by blast
    then show ?thesis using True b(1) new(1) by (auto simp: refs_def l h)
  next
    case False
    then show ?thesis using b(1) new(1) by (auto simp: refs_def l h)
  qed
  then show "refs {} st' i = {Trip i}" by simp
  have hd: "hdr_ok st' q" if "live st' q" for q
  proof (cases "q = Trip i")
    case True
    then show ?thesis using b u by (simp add: hdr_ok_def h d)
  next
    case False
    then have "live st q" using that l by blast
    moreover have "m_bdatap (hdr st q) \<noteq> i" using old [OF calculation] new(2) by blast
    ultimately show ?thesis using mb_invD(2) [OF ok, of q] False u by (auto simp: hdr_ok_def h d)
  qed
  have low: "fst (d_dbbase (dat st e)) = Kmem k \<Longrightarrow> k < nkmem st" if "used st e" for e k
    using mb_invD(3) [OF ok that] by (simp add: dat_ok_def buf_ok_def)
  have da: "dat_ok {} st' e" if "used st' e" for e
  proof (cases "e = i")
    case True
    then show ?thesis using b r by (simp add: dat_ok_def d)
  next
    case False
    then have ue: "used st e" using that u by blast
    then have "buf_ok st e (dat st e)" using mb_invD(3) [OF ok] by (simp add: dat_ok_def)
    then have "buf_ok st' e (dat st e)" using k kf by (auto simp: buf_ok_def split: buf.splits)
    then show ?thesis using mb_invD(3) [OF ok ue] False r by (simp add: dat_ok_def d)
  qed
  have "bufs_apart st'"
    using mb_invD(4) [OF ok] low fresh new(2) unfolding bufs_apart_def u d by (metis fun_upd_apply not_le)
  moreover have "\<exists>k<nkmem st'. p = (Kmem k, 0)" if "(p, n) \<in> set (kfreed st')" for p n
    using mb_invD(5) [OF ok, of p n] that k by (auto simp: kf)
  ultimately show "mbst_ok st'" using f hd da mb_invD(6) [OF ok] unfolding mb_inv_def kf by blast
qed

lemma set_mdb_simps:
  assumes "st' = set_buf i base lim n (init_mdb i st)"
  shows "hdr st' = (hdr st)(Trip i := \<lparr>m_bcont = None, m_brptr = base, m_bwptr = base, m_bdatap = i, m_bband = 0, m_bflag = 0\<rparr>)"
    "dat st' = (dat st)(i := \<lparr>d_dbfrtnp = None, d_dbbase = base, d_dblim = lim, d_dbref = 1, d_dbtype = M_DATA,
       d_dbiswhat = MDBBLK, d_dbsize = n, d_dbmsgaddr = i\<rparr>)"
    "smem st' = smem st" "xaddr st' = xaddr st" "nkmem st' = nkmem st" "kfreed st' = kfreed st"
  using assms by (auto simp: set_buf_def init_mdb_def intro!: msgb.equality datab.equality)

lemma set_buf_use:
  "live (set_buf i base lim n s) q = live s q" "used (set_buf i base lim n s) e = used s e"
  "free_ok (set_buf i base lim n s) = free_ok s"
  by (cases q) (simp_all add: set_buf_def used_def free_ok_def)

lemma init_mdb_use:
  assumes "i < ntrip st" "i \<notin> set (mdbfreelist st)"
  shows "live (init_mdb i st) q \<longleftrightarrow> live st q \<or> q = Trip i" "used (init_mdb i st) e \<longleftrightarrow> used st e \<or> e = i"
    "free_ok (init_mdb i st) = free_ok st"
  using assms by (cases q; auto simp: init_mdb_def used_def free_ok_def)+

lemma FREEMDBBLOCK_use:
  "live (FREEMDBBLOCK i s) q \<longleftrightarrow> live s q \<and> q \<noteq> Trip i" "used (FREEMDBBLOCK i s) e \<longleftrightarrow> used s e \<and> e \<noteq> i"
  by (cases q) (auto simp: used_def)

definition new_block :: "mbst \<Rightarrow> nat \<Rightarrow> int \<Rightarrow> mbst \<Rightarrow> bool" where
  "new_block st i sz st' \<longleftrightarrow> mbst_ok st' \<and> grown {Trip i} {i} st st' \<and> refs {} st' i = {Trip i} \<and>
     hdr st' (Trip i) = \<lparr>m_bcont = None, m_brptr = d_dbbase (dat st' i), m_bwptr = d_dbbase (dat st' i),
       m_bdatap = i, m_bband = 0, m_bflag = 0\<rparr> \<and> d_dbtype (dat st' i) = M_DATA \<and> d_dbfrtnp (dat st' i) = None \<and>
     d_dbmsgaddr (dat st' i) = i \<and> d_dbref (dat st' i) = 1 \<and>
     snd (d_dbbase (dat st' i)) = 0 \<and> sz \<le> snd (d_dblim (dat st' i)) \<and> (\<forall>k. fst (d_dbbase (dat st' i)) \<noteq> Ext k) \<and>
     (\<forall>e. used st e \<longrightarrow> fst (d_dbbase (dat st e)) \<noteq> fst (d_dbbase (dat st' i))) \<and>
     smem st' = smem st \<and> kfreed st' = kfreed st"

lemma allocb_facts:
  assumes ok: "mbst_ok st" and a: "allocb sz st = (r, st')"
  shows "case r of None \<Rightarrow> mbst_ok st' \<and> grown {} {} st st' \<and> smem st' = smem st \<and> kfreed st' = kfreed st
    | Some i \<Rightarrow> new_block st i sz st'"
proof -
  have fr: "free_ok st" by (rule mb_invD(1) [OF ok])
  obtain r1 st1 where n: "new_mdb st = (r1, st1)" by fastforce
  note nf = new_mdb_facts [OF fr n]
  have c: "same_core st st1" and f1: "free_ok st1" using nf by blast+
  show ?thesis
  proof (cases r1)
    case None
    then have "r = None" "st' = st1" using a n by (simp_all add: allocb_def)
    moreover have "live st1 = live st" "used st1 = used st" using nf None by simp_all
    ultimately show ?thesis using mb_inv_core [OF ok c] f1 grown_core [OF c] c by (simp add: same_core_def)
  next
    case (Some i)
    have i: "i < ntrip st1" "i \<notin> set (mdbfreelist st1)" "\<not> live st (Trip i)" "\<not> used st i"
      "\<And>q. q \<noteq> Trip i \<Longrightarrow> live st1 q = live st q" "\<And>e. e \<noteq> i \<Longrightarrow> used st1 e = used st e"
      using nf Some by auto
    let ?s = "init_mdb i st1"
    have use: "live ?s q \<longleftrightarrow> live st q \<or> q = Trip i" "used ?s e \<longleftrightarrow> used st e \<or> e = i" "free_ok ?s" for q e
      using init_mdb_use [OF i(1,2)] i(5,6) f1 by (metis, metis, simp)
    have low: "e \<noteq> i \<and> fst (d_dbbase (dat st e)) \<noteq> Fast i \<and> (\<forall>k\<ge>nkmem st. fst (d_dbbase (dat st e)) \<noteq> Kmem k)"
      if "used st e" for e
      using mb_invD(3) [OF ok that] i(4) that by (auto simp: dat_ok_def buf_ok_def)
    have new: "new_block st i sz (set_buf i base lim m s)"
      if s: "same_core st (s\<lparr>hdr := hdr st, dat := dat st, nkmem := nkmem st\<rparr>)" "hdr s = hdr ?s" "dat s = dat ?s"
          "live s = live ?s" "used s = used ?s" "free_ok s" "nkmem st \<le> nkmem s"
        and b: "snd base = 0" "snd lim \<ge> sz" "snd lim \<ge> 0" "buf_ok s i \<lparr>d_dbfrtnp = None, d_dbbase = base, d_dblim = lim, d_dbref = 1,
            d_dbtype = M_DATA, d_dbiswhat = MDBBLK, d_dbsize = m, d_dbmsgaddr = i\<rparr>"
          "base = (Fast i, 0) \<or> base = (Kmem (nkmem st), 0)"
      for s base lim m
    proof -
      let ?t = "set_buf i base lim m s"
      have t: "hdr ?t = (hdr st)(Trip i := \<lparr>m_bcont = None, m_brptr = base, m_bwptr = base, m_bdatap = i, m_bband = 0, m_bflag = 0\<rparr>)"
        "dat ?t = (dat st)(i := \<lparr>d_dbfrtnp = None, d_dbbase = base, d_dblim = lim, d_dbref = 1, d_dbtype = M_DATA,
           d_dbiswhat = MDBBLK, d_dbsize = m, d_dbmsgaddr = i\<rparr>)"
        "smem ?t = smem st" "xaddr ?t = xaddr st" "nkmem ?t = nkmem s" "kfreed ?t = kfreed st"
        using s(1-3) c by (auto simp: set_buf_def init_mdb_def same_core_def intro!: msgb.equality datab.equality)
      have bok: "buf_ok ?t i (dat ?t i)" using b(4) core_cong(2) [OF refl, of ?t s] t(2,5,6) s(1) by (simp add: same_core_def)
      have lv: "live ?t q \<longleftrightarrow> live st q \<or> q = Trip i" "used ?t e \<longleftrightarrow> used st e \<or> e = i" for q e
        using use(1) [of q] use(2) [of e] s(4,5) by (simp_all add: set_buf_use)
      have "mbst_ok ?t \<and> refs {} ?t i = {Trip i}"
        by (rule conjI; rule mb_inv_new [OF ok i(3,4) t(1,2) lv]; use b bok s(6,7) t in \<open>auto simp: span_ok_def set_buf_use buf_ok_def\<close>)
      moreover have "grown {Trip i} {i} st ?t"
        using lv i(3,4) s(7) t low by (auto simp: grown_def)
      ultimately show ?thesis using b low t unfolding new_block_def by auto
    qed
    show ?thesis
    proof (cases "sz > FASTBUF")
      case False
      then have "r = Some i" "st' = set_buf i (Fast i, 0) (Fast i, FASTBUF) (if sz = 0 then 4 else sz) ?s"
        using a n Some by (auto simp: allocb_def Let_def)
      moreover have "same_core st (?s\<lparr>hdr := hdr st, dat := dat st, nkmem := nkmem st\<rparr>)" "nkmem ?s = nkmem st"
        using c by (simp_all add: same_core_def init_mdb_def)
      ultimately show ?thesis using new [of ?s "(Fast i, 0)" "(Fast i, FASTBUF)"] use(3) False
        by (simp add: FASTBUF_def buf_ok_def)
    next
      case True
      obtain bb s0 where k: "kmem_alloc ?s = (bb, s0)" by fastforce
      note kf = kmem_alloc_facts [OF k]
      show ?thesis
      proof (cases bb)
        case False
        then have r: "r = None" "st' = FREEMDBBLOCK i s0" using a n Some True k by (auto simp: allocb_def Let_def)
        have t: "hdr st' = hdr ?s" "dat st' = dat ?s" "smem st' = smem st" "xaddr st' = xaddr st" "nkmem st' = nkmem st" "kfreed st' = kfreed st"
          using kf c by (simp_all add: r same_core_def init_mdb_def)
        have h: "hdr st' q = hdr st q" if "live st q" for q using that i(3) c by (auto simp: t init_mdb_def same_core_def)
        have d: "dat st' e = dat st e" if "used st e" for e using that i(4) c by (auto simp: t init_mdb_def same_core_def)
        have "live st' q = live st q" for q
          using use(1) [of q] i(3) kf by (auto simp: r FREEMDBBLOCK_use simp del: live_simps)
        moreover have "used st' e = used st e" for e
          using use(2) [of e] i(4) kf by (auto simp: r FREEMDBBLOCK_use)
        moreover have "free_ok st'" using use(3) i kf
          by (auto simp: r free_ok_def FREEMDBBLOCK_def use_down_def init_mdb_def)
        ultimately show ?thesis using mb_inv_cong [OF ok] h d t by (simp add: r(1) grown_def)
      next
        case True
        then have r: "r = Some i" "st' = set_buf i (Kmem (nkmem s0), 0) (Kmem (nkmem s0), sz) sz
            (s0\<lparr>nkmem := nkmem s0 + 1, mstrcount := mstrcount s0 + sz\<rparr>)"
          using a n Some \<open>sz > FASTBUF\<close> k by (auto simp: allocb_def Let_def)
        have n0: "nkmem s0 = nkmem st" and kf0: "kfreed s0 = kfreed st" using kf c by (simp_all add: same_core_def init_mdb_def)
        let ?s1 = "s0\<lparr>nkmem := nkmem s0 + 1, mstrcount := mstrcount s0 + sz\<rparr>"
        have x: "live ?s1 = live s0" "used ?s1 = used s0" "free_ok ?s1 = free_ok s0"
          by (auto simp: live_def used_def free_ok_def fun_eq_iff split: mbp.splits)
        have "same_core st (?s1\<lparr>hdr := hdr st, dat := dat st, nkmem := nkmem st\<rparr>)" "hdr ?s1 = hdr ?s" "dat ?s1 = dat ?s"
          using kf c by (simp_all add: same_core_def init_mdb_def)
        moreover have "(Kmem (nkmem st), 0) \<notin> fst ` set (kfreed s0)"
          using mb_invD(5) [OF ok, of "(Kmem (nkmem st), 0)"] kf0 by auto
        ultimately show ?thesis using new [of ?s1 "(Kmem (nkmem st), 0)" "(Kmem (nkmem st), sz)" sz] use(3) \<open>sz > FASTBUF\<close> kf x n0
          by (simp add: FASTBUF_def buf_ok_def r)
      qed
    qed
  qed
qed

text \<open>Another buffer for a data block that one header has.\<close>

lemma buf_log_mem:
  assumes "mb_inv X st" "used st d" "(b, n) \<in> set (buf_log (dat st d))"
  shows "b = d_dbbase (dat st d)" "\<exists>k<nkmem st. b = (Kmem k, 0)" "b \<notin> fst ` set (kfreed st)"
proof -
  have "buf_ok st d (dat st d)" using mb_invD(3) [OF assms(1,2)] by (simp add: dat_ok_def)
  moreover obtain k where k: "b = d_dbbase (dat st d)" "fst (d_dbbase (dat st d)) = Kmem k" using assms(3) by (auto simp: buf_log_def split: if_splits)
  ultimately have "b = (Kmem k, 0)" "k < nkmem st" "(Kmem k, 0) \<notin> fst ` set (kfreed st)"
    by (cases "d_dbbase (dat st d)"; simp add: buf_ok_def)+
  then show "b = d_dbbase (dat st d)" "\<exists>k<nkmem st. b = (Kmem k, 0)" "b \<notin> fst ` set (kfreed st)"
    using k(1) by auto
qed

lemma mb_inv_rebuf:
  assumes ok: "mb_inv X st" and p: "live st p" "p \<notin> X" and d: "m_bdatap (hdr st p) = d" and r: "refs X st d = {p}"
    and h: "\<And>q. q \<noteq> p \<Longrightarrow> hdr st' q = hdr st q" "m_bdatap (hdr st' p) = d"
    and dd: "\<And>e. e \<noteq> d \<Longrightarrow> dcore (dat st' e) = dcore (dat st e)" "\<And>e. d_dbref (dat st' e) = d_dbref (dat st e)"
      "d_dbmsgaddr (dat st' d) = d_dbmsgaddr (dat st d)"
    and l: "\<And>q. live st' q = live st q" and u: "\<And>e. used st' e = used st e" and f: "free_ok st'"
    and k: "nkmem st \<le> nkmem st'" "kfreed st' = kfreed st @ L" "L = [] \<or> L = buf_log (dat st d)"
    and b: "span_ok (hdr st' p) (dat st' d)" "buf_ok st' d (dat st' d)"
    and fresh: "\<And>e j. used st e \<Longrightarrow> e \<noteq> d \<Longrightarrow> fst (d_dbbase (dat st' d)) = Kmem j \<Longrightarrow> fst (d_dbbase (dat st e)) \<noteq> Kmem j"
  shows "mb_inv X st'"
proof -
  have rf: "refs X st' = refs X st" using l h d by (auto simp: refs_def fun_eq_iff split: if_splits) (metis h)+
  have ud: "used st d" using mb_invD(2) [OF ok p] d by (simp add: hdr_ok_def)
  have L: "c = d_dbbase (dat st d) \<and> (\<exists>k<nkmem st. c = (Kmem k, 0)) \<and> c \<notin> fst ` set (kfreed st)" if "(c, n) \<in> set L" for c n
    using k(3) that buf_log_mem [OF ok ud, of c n] by auto
  have hd: "hdr_ok st' q" if "live st q" "q \<notin> X" for q
  proof (cases "q = p")
    case True
    then show ?thesis using mb_invD(2) [OF ok p] b(1) h(2) u dd(3) d by (auto simp: hdr_ok_def)
  next
    case False
    have "m_bdatap (hdr st q) \<noteq> d" using r that False by (auto simp: refs_def)
    then show ?thesis using mb_invD(2) [OF ok that] u h(1) [OF False] dd(1) [of "m_bdatap (hdr st q)"]
      by (auto simp: hdr_ok_def dcore_eq span_ok_def)
  qed
  have da: "dat_ok X st' e" if "used st e" for e
  proof (cases "e = d")
    case True
    then show ?thesis using mb_invD(3) [OF ok ud] b(2) dd(2) by (simp add: dat_ok_def rf)
  next
    case False
    have old: "buf_ok st e (dat st e)" using mb_invD(3) [OF ok that] by (simp add: dat_ok_def)
    have new: "(Kmem j, 0) \<notin> fst ` set L" if j: "fst (d_dbbase (dat st e)) = Kmem j" for j
    proof
      assume "(Kmem j, 0) \<in> fst ` set L"
      then obtain n where "((Kmem j, 0), n) \<in> set L" by auto
      then have "fst (d_dbbase (dat st d)) = Kmem j" using L by (metis fst_conv)
      then show False using mb_invD(4) [OF ok] \<open>used st e\<close> ud j False unfolding bufs_apart_def by blast
    qed
    have "buf_ok st' e (dat st' e)"
      using old new k(1,2) dd(1) [OF False] by (auto simp: buf_ok_def dcore_eq split: buf.splits)
    then show ?thesis using mb_invD(3) [OF ok that] dd(2) by (simp add: dat_ok_def rf)
  qed
  have "bufs_apart st'"
    using mb_invD(4) [OF ok] fresh dd(1) unfolding bufs_apart_def u dcore_eq by metis
  moreover have "\<exists>j<nkmem st'. c = (Kmem j, 0)" if "(c, n) \<in> set (kfreed st')" for c n
  proof -
    have "(c, n) \<in> set (kfreed st) \<or> (c, n) \<in> set L" using that k(2) by auto
    then have "\<exists>j<nkmem st. c = (Kmem j, 0)" using L [of c n] mb_invD(5) [OF ok, of c n] by blast
    then show ?thesis using k(1) by auto
  qed
  moreover have "distinct (map fst (kfreed st'))"
  proof -
    have "distinct (map fst L)" using k(3) by (auto simp: buf_log_def)
    moreover have "fst ` set (kfreed st) \<inter> fst ` set L = {}" using L by fastforce
    ultimately show ?thesis using mb_invD(6) [OF ok] k(2) by simp
  qed
  ultimately show ?thesis using f hd da unfolding mb_inv_def l u by blast
qed

lemma esballoc_facts:
  assumes ok: "mbst_ok st" and sz: "0 \<le> sz" and a: "esballoc base sz fr st = (r, st')"
  shows "case r of None \<Rightarrow> mbst_ok st' \<and> grown {} {} st st'
    | Some i \<Rightarrow> mbst_ok st' \<and> grown {Trip i} {i} st st' \<and> d_dbbase (dat st' i) = (Ext (the base), 0) \<and>
        d_dblim (dat st' i) = (Ext (the base), sz) \<and> d_dbfrtnp (dat st' i) = fr"
proof (cases "base = None \<or> fr = None")
  case True
  then show ?thesis using a ok grown_refl by (auto simp: esballoc_def split: option.splits)
next
  case False
  then obtain x where x: "base = Some x" "fr \<noteq> None" by auto
  obtain r1 s where al: "allocb (-1) st = (r1, s)" by fastforce
  note af = allocb_facts [OF ok al]
  show ?thesis
  proof (cases r1)
    case None
    then show ?thesis using a al x af by (simp add: esballoc_def)
  next
    case (Some i)
    then have nb: "new_block st i (-1) s" using af by simp
    then have hs: "m_bdatap (hdr s (Trip i)) = i" and g: "grown {Trip i} {i} st s" and sok: "mbst_ok s" and rs: "refs {} s i = {Trip i}"
      by (simp_all add: new_block_def)
    have st': "r = Some i" "st' = upd_hdr (Trip i) (\<lambda>b. b\<lparr>m_brptr := (Ext x, 0), m_bwptr := (Ext x, 0)\<rparr>)
        (upd_dat i (\<lambda>d. d\<lparr>d_dbfrtnp := fr, d_dbbase := (Ext x, 0), d_dblim := (Ext x, sz), d_dbsize := sz\<rparr>) s)"
      using a al x Some hs by (simp_all add: esballoc_def)
    have lv: "live st' q = live s q" for q by (cases q) (simp_all add: st')
    have us: "used st' e = used s e" for e by (simp add: st' used_def)
    have lp: "live s (Trip i)" using g unfolding grown_def by blast
    have "mbst_ok st'"
      by (rule mb_inv_rebuf [OF sok lp _ hs rs, where L = "[]"])
        (use sz x hs mb_invD(1) [OF sok] in \<open>auto simp: st' lv [unfolded st'] us [unfolded st'] span_ok_def buf_ok_def free_ok_def\<close>)
    moreover have "grown {Trip i} {i} st st'" using g lv us by (auto simp: grown_def st')
    ultimately show ?thesis by (simp add: st' x)
  qed
qed

lemma DUPB_eq:
  "d_dbref (dat st (m_bdatap (hdr st p))) \<noteq> 255 \<Longrightarrow>
   DUPB p st = (case new_msg st of (None, s) \<Rightarrow> (None, s) | (Some n, s) \<Rightarrow> (Some n, dup_into n p s))"
  by (auto simp: DUPB_def dupb_def new_msg_def ALLOCMSGBLOCK_def)

lemma DUPB_facts:
  assumes ok: "mbst_ok st" and p: "live st p" and lim: "unat (d_dbref (dat st (m_bdatap (hdr st p)))) < 255"
    and a: "DUPB p st = (r, st')"
  shows "smem st' = smem st \<and> kfreed st' = kfreed st \<and> mbst_ok st' \<and>
    (case r of None \<Rightarrow> grown {} {} st st'
     | Some n \<Rightarrow> grown {n} {} st st' \<and> hdr st' n = (hdr st p)\<lparr>m_bcont := None\<rparr> \<and>
         (\<forall>e. unat (d_dbref (dat st' e)) \<le> unat (d_dbref (dat st e)) + 1))"
proof -
  let ?d = "m_bdatap (hdr st p)"
  have ne: "d_dbref (dat st ?d) \<noteq> 255" using lim by auto
  obtain r1 s where n: "new_msg st = (r1, s)" by fastforce
  note nf = new_msg_facts [OF mb_invD(1) [OF ok] n]
  have c: "same_core st s" and f: "free_ok s" and u: "used s = used st" using nf by blast+
  show ?thesis
  proof (cases r1)
    case None
    then have "r = None" "st' = s" using a n by (simp_all add: DUPB_eq [OF ne])
    then show ?thesis using mb_inv_core [OF ok c _ u f] grown_core [OF c _ u] nf None c by (simp add: same_core_def)
  next
    case (Some m)
    then obtain j where m: "m = Sep j" "\<not> live st m" "\<And>q. live s q \<longleftrightarrow> live st q \<or> q = m" using nf by auto
    have r: "r = Some m" "st' = dup_into m p s" using a n Some by (simp_all add: DUPB_eq [OF ne])
    have t: "hdr st' = (hdr st)(m := (hdr st p)\<lparr>m_bcont := None\<rparr>)"
      "dat st' = (dat st)(?d := (dat st ?d)\<lparr>d_dbref := d_dbref (dat st ?d) + 1\<rparr>)"
      "smem st' = smem st" "xaddr st' = xaddr st" "nkmem st' = nkmem st" "kfreed st' = kfreed st"
      using c m(1) p m(2) by (auto simp: r dup_into_def same_core_def)
    have l: "live st' q \<longleftrightarrow> live st q \<or> q = m" for q
    proof -
      have "live st' q = live s q" by (cases q) (simp_all add: r dup_into_def)
      then show ?thesis using m(3) by simp
    qed
    have us: "used st' e = used st e" for e using u by (auto simp: r dup_into_def used_def fun_eq_iff)
    have fr: "free_ok st'" using f by (simp add: r dup_into_def free_ok_def)
    have ud: "used st ?d" using mb_invD(2) [OF ok p] by (simp add: hdr_ok_def)
    have inc: "unat (d_dbref (dat st ?d) + 1) = unat (d_dbref (dat st ?d)) + 1" using lim by (simp add: unat_add_nowrap)
    have rf: "refs {} st' e = (if e = ?d then insert m (refs {} st e) else refs {} st e)" for e
      using m(2) by (auto simp: refs_def l t)
    have cc: "dcore (dat st' e) = dcore (dat st e)" for e by (simp add: t)
    have "hdr_ok st' q" if "live st' q" for q
    proof (cases "q = m")
      case True
      then show ?thesis using mb_invD(2) [OF ok p] us m(1) cc [of ?d] by (auto simp: hdr_ok_def t span_ok_def)
    next
      case False
      then have "live st q" using that l by blast
      then show ?thesis using mb_invD(2) [OF ok, of q] False us by (auto simp: hdr_ok_def t span_ok_def)
    qed
    moreover have "dat_ok {} st' e" if "used st' e" for e
    proof -
      have "m \<notin> refs {} st e" using m(2) by (simp add: refs_def)
      then show ?thesis using mb_invD(3) [OF ok, of e] that us inc core_cong(2) [OF cc t(5,6), of e]
        by (auto simp: dat_ok_def rf t(2) split: if_splits)
    qed
    moreover have "bufs_apart st'" using mb_invD(4) [OF ok] us cc unfolding bufs_apart_def dcore_eq by metis
    ultimately have "mbst_ok st'" using ok fr t unfolding mb_inv_def by simp
    moreover have "grown {m} {} st st'" using l us m(2) t cc by (auto simp: grown_def)
    ultimately show ?thesis using t inc by (simp add: r(1))
  qed
qed

section \<open>Enough memory\<close>

text \<open>\<open>mem_left\<close> is how many calls of \<open>kmem_alloc\<close> are sure to succeed from now on.\<close>

definition mem_left :: "mbst \<Rightarrow> nat" where
  "mem_left st = length (takeWhile id (mkmem st))"

lemma kmem_alloc_left: "kmem_alloc st = (b, st') \<Longrightarrow> 0 < mem_left st \<Longrightarrow> b \<and> mem_left st = mem_left st' + 1"
  by (auto simp: kmem_alloc_def mem_left_def split: list.splits bool.splits)

lemma new_msg_left:
  assumes "new_msg st = (r, st')" "0 < length (msgfreelist st) + mem_left st"
  shows "r \<noteq> None \<and> length (msgfreelist st) + mem_left st = length (msgfreelist st') + mem_left st' + 1"
proof (cases "msgfreelist st")
  case Nil
  obtain b s where k: "kmem_alloc st = (b, s)" by fastforce
  then show ?thesis using assms Nil kmem_alloc_left [OF k] kmem_alloc_facts [OF k]
    by (auto simp: new_msg_def xmsgalloc_def mem_left_def)
qed (use assms in \<open>auto simp: new_msg_def ALLOCMSGBLOCK_def mem_left_def\<close>)

lemma dup_into_left [simp]: "mem_left (dup_into n p st) = mem_left st" "msgfreelist (dup_into n p st) = msgfreelist st"
  by (simp_all add: dup_into_def mem_left_def)

lemma allocb_left:
  assumes a: "allocb sz st = (r, st')" and m: "2 \<le> mem_left st"
  shows "r \<noteq> None \<and> mem_left st \<le> mem_left st' + 2"
proof -
  obtain r1 s where n: "new_mdb st = (r1, s)" by fastforce
  have r1: "r1 \<noteq> None \<and> mem_left st \<le> mem_left s + 1"
  proof (cases "mdbfreelist st")
    case Nil
    obtain b t where k: "kmem_alloc st = (b, t)" by fastforce
    moreover have "b \<and> mem_left st = mem_left t + 1" using kmem_alloc_left [OF k] m by simp
    ultimately show ?thesis using n Nil by (auto simp: new_mdb_def xmdballoc_def mem_left_def)
  qed (use n in \<open>auto simp: new_mdb_def ALLOCMDBBLOCK_def mem_left_def\<close>)
  then obtain i where i: "r1 = Some i" by blast
  have l: "mem_left (init_mdb i s) = mem_left s" "mem_left (set_buf i x y z t) = mem_left t" for x y z t
    by (simp_all add: init_mdb_def set_buf_def mem_left_def)
  obtain b t where k: "kmem_alloc (init_mdb i s) = (b, t)" by fastforce
  have "b \<and> mem_left s = mem_left t + 1" using kmem_alloc_left [OF k] l r1 m by simp
  moreover have "mem_left (t\<lparr>nkmem := x, mstrcount := y\<rparr>) = mem_left t" for x y by (simp add: mem_left_def)
  ultimately show ?thesis using a n i k r1 l by (auto simp: allocb_def Let_def split: if_splits)
qed

end
