(* ===== verification/Strmb_Copy.thy ===== *)
theory Strmb_Copy imports Strmb_Inv begin

text \<open>
  Duplicating and copying messages of \<open>io/stream.c\<close>: what \<open>dupmsg\<close> and \<open>copymsg\<close> share is stated
  once, as the locale \<open>block_dup\<close>, and interpreted on the macro \<open>_DUPB\<close> and on \<open>copyb\<close>.
\<close>

section \<open>What a larger state keeps\<close>

lemma live_used: "mbst_ok st \<Longrightarrow> live st p \<Longrightarrow> used st (m_bdatap (hdr st p))"
  using mb_invD(2) [of "{}" st p] by (simp add: hdr_ok_def)

lemma live_span: "mbst_ok st \<Longrightarrow> live st p \<Longrightarrow> span_ok (hdr st p) (dat st (m_bdatap (hdr st p)))"
  using mb_invD(2) [of "{}" st p] by (simp add: hdr_ok_def)

lemma grown_bview:
  assumes ok: "mbst_ok st" and g: "grown N D st st'" and p: "live st p"
  shows "bview st' p = bview st p"
proof -
  let ?d = "m_bdatap (hdr st p)"
  have h: "hdr st' p = hdr st p" and u: "used st ?d" using g p live_used [OF ok p] by (auto simp: grown_def)
  have c: "dcore (dat st' ?d) = dcore (dat st ?d)" using g u by (auto simp: grown_def)
  have "fst (m_brptr (hdr st p)) = fst (d_dbbase (dat st ?d))" using live_span [OF ok p] by (simp add: span_ok_def)
  then have "smem st' (fst (m_brptr (hdr st p)), k) = smem st (fst (m_brptr (hdr st p)), k)" for k
    using g u unfolding grown_def by (metis fst_conv)
  then show ?thesis using h c by (simp add: bview_def btext_def btype_def dcore_eq)
qed

lemma grown_msg:
  assumes "grown N D st st'" "msg_ok {} st x ps"
  shows "msg_ok {} st' x ps"
proof -
  have "bchain (hdr st') x ps"
    by (rule bchain_cong [of "hdr st"]) (use assms in \<open>auto simp: msg_ok_def grown_def\<close>)
  then show ?thesis using assms by (auto simp: msg_ok_def grown_def)
qed

lemma mtext_bview: "map (bview st') qs = map (bview st) ps \<Longrightarrow> mtext st' qs = mtext st ps"
proof -
  assume "map (bview st') qs = map (bview st) ps"
  then have "map (snd \<circ> snd \<circ> snd) (map (bview st') qs) = map (snd \<circ> snd \<circ> snd) (map (bview st) ps)" by (simp only:)
  moreover have "(snd \<circ> snd \<circ> snd) \<circ> bview s = btext s" for s by (simp add: bview_def fun_eq_iff)
  ultimately show ?thesis by (simp add: mtext_def)
qed

text \<open>Header fields other than the data block: the invariant asks only for the span.\<close>

lemma mb_inv_hdrs:
  assumes ok: "mb_inv X st" and s: "same_core (st\<lparr>hdr := hdr st'\<rparr>) st'" "free_ok st'"
    and l: "\<And>q. live st' q = live st q" and u: "\<And>e. used st' e = used st e"
    and h: "\<And>q. m_bdatap (hdr st' q) = m_bdatap (hdr st q)"
    and sp: "\<And>q. live st q \<Longrightarrow> q \<notin> X \<Longrightarrow> span_ok (hdr st' q) (dat st (m_bdatap (hdr st q)))"
  shows "mb_inv X st'"
proof -
  have c: "dat st' = dat st" "nkmem st' = nkmem st" "kfreed st' = kfreed st" using s by (simp_all add: same_core_def)
  have r: "refs X st' = refs X st" using l h by (auto simp: refs_def fun_eq_iff)
  have "hdr_ok st' q" if "live st q" "q \<notin> X" for q
    using mb_invD(2) [OF ok that] u h sp [OF that] by (simp add: hdr_ok_def c)
  moreover have "dat_ok X st' e" if "used st e" for e
    using mb_invD(3) [OF ok that] core_cong(2) [OF refl c(2,3)] by (simp add: dat_ok_def r c)
  ultimately show ?thesis using ok s l u c by (auto simp: mb_inv_def bufs_apart_def)
qed

lemma upd_hdr_use:
  "live (upd_hdr p f st) q = live st q" "used (upd_hdr p f st) e = used st e" "free_ok (upd_hdr p f st) = free_ok st"
  by (cases q) (simp_all add: used_def free_ok_def)

lemma upd_hdr_ok:
  assumes "mb_inv X st" "\<And>b. m_bdatap (f b) = m_bdatap b"
    and "live st p \<Longrightarrow> p \<notin> X \<Longrightarrow> span_ok (f (hdr st p)) (dat st (m_bdatap (hdr st p)))"
  shows "mb_inv X (upd_hdr p f st)"
proof (rule mb_inv_hdrs [OF assms(1)])
  fix q assume "live st q" "q \<notin> X"
  then show "span_ok (hdr (upd_hdr p f st) q) (dat st (m_bdatap (hdr st q)))"
    using mb_invD(2) [OF assms(1), of q] assms(3) by (auto simp: hdr_ok_def)
qed (use assms mb_invD(1) [OF assms(1)] in \<open>simp_all add: upd_hdr_use same_core_def del: live_simps\<close>)

lemma set_cont_ok: "mb_inv X st \<Longrightarrow> mb_inv X (set_cont p c st)"
  unfolding set_cont_def
  by (rule upd_hdr_ok) (use mb_invD(2) [of X st p] in \<open>auto simp: hdr_ok_def span_ok_def\<close>)

lemma set_cont_grown: "grown N D st st' \<Longrightarrow> n \<in> N \<Longrightarrow> grown N D st (set_cont n c st')"
  by (auto simp: grown_def set_cont_def upd_hdr_use simp del: live_simps)

lemma set_cont_bview [simp]: "bview (set_cont n c st) = bview st"
  by (auto simp: bview_def btext_def btype_def set_cont_def fun_eq_iff)

lemma bchain_last: "bchain h x ns \<Longrightarrow> ns \<noteq> [] \<Longrightarrow> m_bcont (h (last ns)) = None"
  by (induction ns arbitrary: x) auto

lemma bchain_extend:
  assumes "bchain h x ns" "ns \<noteq> []" "\<And>p. p \<in> set ns \<Longrightarrow> p \<noteq> last ns \<Longrightarrow> m_bcont (h' p) = m_bcont (h p)"
    and "m_bcont (h' (last ns)) = y" "bchain h' y ys"
  shows "bchain h' x (ns @ ys)"
  using assms
proof (induction ns arbitrary: x)
  case (Cons n ns)
  show ?case
  proof (cases "ns = []")
    case False
    have "distinct (n # ns)" by (rule bchain_distinct [OF Cons.prems(1)])
    then have "n \<noteq> last ns" using False by (metis distinct.simps(2) last_in_set)
    then show ?thesis using Cons False by auto
  qed (use Cons.prems in auto)
qed simp

section \<open>Copying a message block by block\<close>

text \<open>
  The loops of \<open>dupmsg\<close> and \<open>copymsg\<close> differ in what makes a block from a block.  The contract of
  \<open>step\<close>: it fails without a trace, or gives a new header with the same contents, on the same data
  block (\<open>share\<close>) or on a new one; \<open>can st cs\<close> is what it needs to do so for the blocks \<open>cs\<close>, and with
  \<open>enough st cs\<close> there is the memory for them.
\<close>

locale block_dup =
  fixes step :: "mbp \<Rightarrow> mbst \<Rightarrow> mbp option \<times> mbst"
    and rest :: "mbp \<Rightarrow> mbp \<Rightarrow> mbp \<Rightarrow> mbst \<Rightarrow> (mbp option \<times> mbst) option"
    and can :: "mbst \<Rightarrow> mbp list \<Rightarrow> bool" and enough :: "mbst \<Rightarrow> mbp list \<Rightarrow> bool" and share :: bool
  assumes rest_eq: "rest head nbp bp st =
     (case m_bcont (hdr st bp) of
        None \<Rightarrow> Some (Some head, st)
      | Some c \<Rightarrow>
          (case step c st of
             (None, st1) \<Rightarrow> map_option (Pair None) (freemsg (Some head) (set_cont nbp None st1))
           | (Some n, st1) \<Rightarrow> rest head n c (set_cont nbp (Some n) st1)))"
    and step_none: "mbst_ok st \<Longrightarrow> live st c \<Longrightarrow> can st (c # cs) \<Longrightarrow> step c st = (None, st1) \<Longrightarrow>
      mbst_ok st1 \<and> grown {} {} st st1 \<and> \<not> enough st (c # cs)"
    and step_some: "mbst_ok st \<Longrightarrow> live st c \<Longrightarrow> can st (c # cs) \<Longrightarrow> step c st = (Some n, st1) \<Longrightarrow>
      mbst_ok st1 \<and> (\<exists>D. grown {n} D st st1) \<and> m_bcont (hdr st1 n) = None \<and> bview st1 n = bview st c \<and> can st1 cs \<and>
      (enough st (c # cs) \<longrightarrow> enough st1 cs) \<and>
      (if share then m_bdatap (hdr st1 n) = m_bdatap (hdr st c) else \<not> used st (m_bdatap (hdr st1 n)))"
    and can_cont: "can st cs \<Longrightarrow> can (set_cont n x st) cs"
    and enough_cont: "enough st cs \<Longrightarrow> enough (set_cont n x st) cs"
begin

text \<open>The new blocks \<open>ns\<close> of the blocks \<open>ps\<close> of a state \<open>st\<close>.\<close>

definition dup_of :: "mbst \<Rightarrow> mbp list \<Rightarrow> mbst \<Rightarrow> mbp list \<Rightarrow> bool" where
  "dup_of st ps st' ns \<longleftrightarrow> map (bview st') ns = map (bview st) ps \<and>
     (if share then map (\<lambda>n. m_bdatap (hdr st' n)) ns = map (\<lambda>p. m_bdatap (hdr st p)) ps
      else \<forall>n\<in>set ns. \<not> used st (m_bdatap (hdr st' n)))"

lemma undo_grown:
  assumes ok0: "mbst_ok st0" and ok: "mbst_ok st" and g: "grown (set ns) D st0 st" and m: "msg_ok {} st (Some h) ns"
  shows "\<exists>st'. freemsg (Some h) st = Some st' \<and> mbst_ok st' \<and> grown {} {} st0 st'"
proof -
  obtain st' es where f: "freemsg (Some h) st = Some st'" "mbst_ok st'" "hdr st' = hdr st" "smem st' = smem st"
    "xaddr st' = xaddr st" "nkmem st' = nkmem st" "\<forall>q. live st' q \<longleftrightarrow> live st q \<and> q \<notin> set ns"
    "\<forall>e. used st' e \<longleftrightarrow> used st e \<and> \<not> refs {} st e \<subseteq> set ns" "\<forall>e. dcore (dat st' e) = dcore (dat st e)"
    using freemsg_spec [OF ok m] by auto
  have l: "live st' q = live st0 q" for q using f(7) g by (auto simp: grown_def)
  have u: "used st' e = used st0 e" for e
  proof
    assume e: "used st0 e"
    then obtain q where q: "live st0 q" "m_bdatap (hdr st0 q) = e"
      using mb_invD(3) [OF ok0 e] by (auto simp: dat_ok_def refs_def)
    then have "q \<in> refs {} st e" "q \<notin> set ns" using g by (auto simp: refs_def grown_def)
    then show "used st' e" using f(8) e g by (auto simp: grown_def)
  next
    assume "used st' e"
    then obtain q where q: "live st q" "q \<notin> set ns" "m_bdatap (hdr st q) = e" using f(8) by (auto simp: refs_def)
    then have "live st0 q" "m_bdatap (hdr st0 q) = e" using g by (auto simp: grown_def)
    then show "used st0 e" using live_used [OF ok0] by blast
  qed
  have "grown {} {} st0 st'" using g f(3-6,9) l u by (auto simp: grown_def simp del: live_simps)
  then show ?thesis using f(1,2) by blast
qed

lemma rest_spec:
  assumes "mbst_ok st0" "mbst_ok st" "grown (set ns) D st0 st" "msg_ok {} st0 (m_bcont (hdr st0 bp)) ps" "live st0 bp"
    "msg_ok {} st (Some head) ns" "ns \<noteq> []" "last ns = nbp" "can st ps" "dup_of st0 qs st ns"
  shows "\<exists>r st'. rest head nbp bp st = Some (r, st') \<and> mbst_ok st' \<and>
    (case r of None \<Rightarrow> grown {} {} st0 st'
     | Some h \<Rightarrow> h = head \<and> (\<exists>ms E. grown (set ms) E st0 st' \<and> msg_ok {} st' (Some head) ms \<and> dup_of st0 (qs @ ps) st' ms)) \<and>
    (enough st ps \<longrightarrow> r \<noteq> None)"
  using assms(2-)
proof (induction ps arbitrary: st ns D bp nbp qs)
  case Nil
  have "hdr st bp = hdr st0 bp" using Nil.prems(2,4) by (simp add: grown_def)
  then have "rest head nbp bp st = Some (Some head, st)"
    using Nil.prems(3) by (subst rest_eq) (simp add: msg_ok_def)
  then show ?case using Nil.prems by auto
next
  case (Cons c ps)
  have hb: "hdr st bp = hdr st0 bp" using Cons.prems(2,4) by (simp add: grown_def)
  have c: "m_bcont (hdr st0 bp) = Some c" "live st0 c" "msg_ok {} st0 (m_bcont (hdr st0 c)) ps"
    using Cons.prems(3) by (auto simp: msg_ok_def)
  have cs: "live st c" using c Cons.prems(2) by (simp add: grown_def)
  have nin: "nbp \<in> set ns" using Cons.prems(6,7) by auto
  obtain r1 st1 where s: "step c st = (r1, st1)" by fastforce
  show ?case
  proof (cases r1)
    case None
    then have f: "mbst_ok st1" "grown {} {} st st1" "\<not> enough st (c # ps)"
      using step_none [OF Cons.prems(1) cs Cons.prems(8)] s by auto
    let ?s = "set_cont nbp None st1"
    have g: "grown (set ns) D st0 ?s"
      using grown_trans [OF Cons.prems(2) f(2)] set_cont_grown nin by simp
    have m1: "msg_ok {} st1 (Some head) ns" by (rule grown_msg [OF f(2) Cons.prems(5)])
    then have nc: "m_bcont (hdr st1 nbp) = None" using bchain_last [of "hdr st1"] Cons.prems(6,7) by (auto simp: msg_ok_def)
    have "bchain (hdr ?s) (Some head) ns"
      by (rule bchain_cong [of "hdr st1"]) (use m1 nc in \<open>auto simp: msg_ok_def set_cont_def\<close>)
    then have "msg_ok {} ?s (Some head) ns" using m1 by (simp add: msg_ok_def set_cont_def upd_hdr_use)
    from undo_grown [OF assms(1) set_cont_ok [OF f(1)] g this]
    obtain st' where "freemsg (Some head) ?s = Some st'" "mbst_ok st'" "grown {} {} st0 st'" by blast
    then show ?thesis using c(1) s None hb f(3) by (subst rest_eq) simp
  next
    case (Some n)
    then obtain E where f: "mbst_ok st1" "grown {n} E st st1" "m_bcont (hdr st1 n) = None" "bview st1 n = bview st c" "can st1 ps"
      "if share then m_bdatap (hdr st1 n) = m_bdatap (hdr st c) else \<not> used st (m_bdatap (hdr st1 n))"
      "enough st (c # ps) \<Longrightarrow> enough st1 ps"
      using step_some [OF Cons.prems(1) cs Cons.prems(8)] s by auto
    let ?s = "set_cont nbp (Some n) st1"
    have g: "grown (set (ns @ [n])) (D \<union> E) st0 ?s"
      using grown_trans [OF Cons.prems(2) f(2)] set_cont_grown nin by (simp add: insert_commute)
    have m1: "msg_ok {} st1 (Some head) ns" by (rule grown_msg [OF f(2) Cons.prems(5)])
    have nn: "n \<notin> set ns" "live st1 n" using f(2) Cons.prems(5) by (auto simp: grown_def msg_ok_def)
    have "bchain (hdr ?s) (Some head) (ns @ [n])"
      by (rule bchain_extend [of "hdr st1"]) (use m1 Cons.prems(6,7) f(3) nn in \<open>auto simp: msg_ok_def set_cont_def\<close>)
    then have "msg_ok {} ?s (Some head) (ns @ [n])" using m1 nn by (auto simp: msg_ok_def set_cont_def upd_hdr_use)
    moreover have "dup_of st0 (qs @ [c]) ?s (ns @ [n])"
    proof -
      have lv: "live st m" if "m \<in> set ns" for m using Cons.prems(5) that by (simp add: msg_ok_def)
      have v: "map (bview st1) ns = map (bview st) ns" using grown_bview [OF Cons.prems(1) f(2) lv] by simp
      have hh: "m_bdatap (hdr ?s m) = m_bdatap (hdr st m)" if "m \<in> set ns" for m
        using f(2) lv [OF that] by (auto simp: grown_def set_cont_def simp del: live_simps)
      then have hm: "map (\<lambda>m. m_bdatap (hdr ?s m)) ns = map (\<lambda>m. m_bdatap (hdr st m)) ns" by simp
      have "bview st c = bview st0 c" by (rule grown_bview [OF assms(1) Cons.prems(2) c(2)])
      moreover have "hdr st c = hdr st0 c" "\<And>e. used st0 e \<Longrightarrow> used st e" using Cons.prems(2) c(2) by (auto simp: grown_def)
      moreover have "m_bdatap (hdr ?s n) = m_bdatap (hdr st1 n)" by (simp add: set_cont_def)
      ultimately show ?thesis using Cons.prems(9) v hh hm f(4,6) unfolding dup_of_def
        by (cases share) auto
    qed
    moreover have en: "enough st (c # ps) \<Longrightarrow> enough ?s ps" using f(7) enough_cont by blast
    ultimately show ?thesis using Cons.IH [of ?s "ns @ [n]" "D \<union> E" c n "qs @ [c]", unfolded append_assoc append_Cons append_Nil] set_cont_ok [OF f(1)] g c can_cont [OF f(5)] en
      by (subst rest_eq) (fastforce simp: hb s Some)
  qed
qed

lemma whole_spec:
  assumes ok: "mbst_ok st" and m: "msg_ok {} st (Some p) ps" and c: "can st ps"
  shows "\<exists>r st'. (case step p st of (None, s) \<Rightarrow> Some (None, s) | (Some n, s) \<Rightarrow> rest n n p s) = Some (r, st') \<and>
    mbst_ok st' \<and>
    (case r of None \<Rightarrow> grown {} {} st st'
     | Some h \<Rightarrow> \<exists>ms E. grown (set ms) E st st' \<and> msg_ok {} st' (Some h) ms \<and> dup_of st ps st' ms) \<and>
    (enough st ps \<longrightarrow> r \<noteq> None)"
proof -
  obtain qs where ps: "ps = p # qs" "live st p" "msg_ok {} st (m_bcont (hdr st p)) qs"
    using m by (auto simp: msg_ok_def bchain_Some)
  obtain r1 s where s: "step p st = (r1, s)" by fastforce
  show ?thesis
  proof (cases r1)
    case None
    then show ?thesis using step_none [OF ok ps(2)] c ps(1) s by auto
  next
    case (Some n)
    then obtain E where f: "mbst_ok s" "grown {n} E st s" "m_bcont (hdr s n) = None" "bview s n = bview st p" "can s qs"
      "if share then m_bdatap (hdr s n) = m_bdatap (hdr st p) else \<not> used st (m_bdatap (hdr s n))"
      "enough st (p # qs) \<Longrightarrow> enough s qs"
      using step_some [OF ok ps(2)] c ps(1) s by blast
    have "live s n" using f(2) unfolding grown_def by blast
    then have "msg_ok {} s (Some n) [n]" using f(3) by (simp add: msg_ok_def)
    moreover have "dup_of st [p] s [n]" using f(4,6) by (simp add: dup_of_def)
    ultimately show ?thesis using rest_spec [OF ok f(1), of "[n]" E p qs n n "[p]"] f(2,5,7) ps s Some
      by (fastforce split: option.splits)
  qed
qed

end

subsection \<open>Sharing data blocks\<close>

definition dup_can :: "mbst \<Rightarrow> mbp list \<Rightarrow> bool" where
  "dup_can st cs \<longleftrightarrow> (\<forall>e. used st e \<longrightarrow> unat (d_dbref (dat st e)) + length cs \<le> 255)"

definition dup_enough :: "mbst \<Rightarrow> mbp list \<Rightarrow> bool" where
  "dup_enough st cs \<longleftrightarrow> length cs \<le> length (msgfreelist st) + mem_left st"

lemma DUPB_left:
  assumes "unat (d_dbref (dat st (m_bdatap (hdr st c)))) < 255" "DUPB c st = (r, st1)" "dup_enough st (c # cs)"
  shows "r \<noteq> None \<and> dup_enough st1 cs"
proof -
  have ne: "d_dbref (dat st (m_bdatap (hdr st c))) \<noteq> 255" using assms(1) by auto
  obtain r1 s where n: "new_msg st = (r1, s)" by fastforce
  have "0 < length (msgfreelist st) + mem_left st" using assms(3) unfolding dup_enough_def list.size by linarith
  from new_msg_left [OF n this] show ?thesis using assms(2,3) n by (auto simp: DUPB_eq [OF ne] dup_enough_def)
qed

interpretation dup: block_dup DUPB dup_rest dup_can dup_enough True
proof
  show "dup_rest head nbp bp st =
     (case m_bcont (hdr st bp) of
        None \<Rightarrow> Some (Some head, st)
      | Some c \<Rightarrow>
          (case DUPB c st of
             (None, st1) \<Rightarrow> map_option (Pair None) (freemsg (Some head) (set_cont nbp None st1))
           | (Some n, st1) \<Rightarrow> dup_rest head n c (set_cont nbp (Some n) st1)))" for head nbp bp st
    by (rule dup_rest.simps)
next
  fix st c cs st1
  assume a: "mbst_ok st" "live st c" "dup_can st (c # cs)" "DUPB c st = (None, st1)"
  then have "unat (d_dbref (dat st (m_bdatap (hdr st c)))) < 255" using live_used [OF a(1,2)] by (auto simp: dup_can_def)
  then show "mbst_ok st1 \<and> grown {} {} st st1 \<and> \<not> dup_enough st (c # cs)"
    using DUPB_facts [OF a(1,2) _ a(4)] DUPB_left [OF _ a(4)] by auto
next
  fix st c cs n st1
  assume a: "mbst_ok st" "live st c" "dup_can st (c # cs)" "DUPB c st = (Some n, st1)"
  then have "unat (d_dbref (dat st (m_bdatap (hdr st c)))) < 255" using live_used [OF a(1,2)] by (auto simp: dup_can_def)
  then have e: "dup_enough st (c # cs) \<Longrightarrow> dup_enough st1 cs" using DUPB_left [OF _ a(4)] by blast
  have "unat (d_dbref (dat st (m_bdatap (hdr st c)))) < 255" using a(3) live_used [OF a(1,2)] by (auto simp: dup_can_def)
  then have f: "smem st1 = smem st" "mbst_ok st1" "grown {n} {} st st1" "hdr st1 n = (hdr st c)\<lparr>m_bcont := None\<rparr>"
    "\<And>e. unat (d_dbref (dat st1 e)) \<le> unat (d_dbref (dat st e)) + 1"
    using DUPB_facts [OF a(1,2) _ a(4)] by auto
  have "dcore (dat st1 (m_bdatap (hdr st c))) = dcore (dat st (m_bdatap (hdr st c)))"
    using f(3) live_used [OF a(1,2)] by (simp add: grown_def)
  then have "bview st1 n = bview st c" using f(1,4) by (simp add: bview_def btext_def btype_def dcore_eq)
  moreover have "dup_can st1 cs"
  proof -
    have "unat (d_dbref (dat st1 e)) + length cs \<le> 255" if "used st e" for e
      using a(3) that f(5) [of e] by (fastforce simp: dup_can_def)
    then show ?thesis using f(3) by (simp add: dup_can_def grown_def)
  qed
  ultimately show "mbst_ok st1 \<and> (\<exists>D. grown {n} D st st1) \<and> m_bcont (hdr st1 n) = None \<and> bview st1 n = bview st c \<and>
    dup_can st1 cs \<and> (dup_enough st (c # cs) \<longrightarrow> dup_enough st1 cs) \<and>
    (if True then m_bdatap (hdr st1 n) = m_bdatap (hdr st c) else \<not> used st (m_bdatap (hdr st1 n)))"
    using f e by auto
next
  show "dup_can st cs \<Longrightarrow> dup_can (set_cont n x st) cs" for st cs n x
    by (simp add: dup_can_def set_cont_def upd_hdr_use)
  show "dup_enough st cs \<Longrightarrow> dup_enough (set_cont n x st) cs" for st cs n x
    by (simp add: dup_enough_def set_cont_def mem_left_def)
qed

subsection \<open>New data blocks\<close>

text \<open>
  \<open>copyb\<close> copies whole words, from the word the read pointer lies in: that finds the data only where
  the source buffer is aligned like the new one.
\<close>

definition copy_can :: "mbst \<Rightarrow> mbp list \<Rightarrow> bool" where
  "copy_can st cs \<longleftrightarrow> (\<forall>e. used st e \<longrightarrow> baddr st (fst (d_dbbase (dat st e))) mod 4 = 0)"

lemma baddr_upd [simp]: "baddr (upd_hdr p f st) = baddr st" "baddr (upd_dat d g st) = baddr st"
  by (simp_all add: baddr_def fun_eq_iff split: buf.splits)

lemma straln_mod: "baddr st (fst p) mod 4 = 0 \<Longrightarrow> straln st p = (fst p, snd p - snd p mod 4)"
  by (simp add: straln_def mod_add_left_eq [symmetric])

lemma bcopy_words:
  assumes k: "r \<le> k" "k < w" and ab: "a \<noteq> b"
  shows "bcopy (a, r - r mod 4) (b, r - r mod 4) ((w + 3) - (w + 3) mod 4 - (r - r mod 4)) mem (b, k) = mem (a, k)"
proof -
  have "0 \<le> r mod 4" "(w + 3) mod 4 \<le> 3" by simp_all
  then have "r - r mod 4 \<le> k" "k < (w + 3) - (w + 3) mod 4" using k by linarith+
  then show ?thesis by (simp add: bcopy_def padd_def)
qed

lemma copyb_facts:
  assumes ok: "mbst_ok st" and p: "live st p" and can: "copy_can st cs" and a: "copyb p st = (r, st')"
  shows "mbst_ok st' \<and>
    (case r of None \<Rightarrow> grown {} {} st st'
     | Some n \<Rightarrow> (\<exists>D. grown {n} D st st') \<and> m_bcont (hdr st' n) = None \<and> bview st' n = bview st p \<and> copy_can st' cs \<and>
         \<not> used st (m_bdatap (hdr st' n)))"
proof -
  let ?b = "hdr st p" and ?d = "m_bdatap (hdr st p)"
  let ?db = "dat st ?d"
  have ud: "used st ?d" by (rule live_used [OF ok p])
  have sp: "span_ok ?b ?db" by (rule live_span [OF ok p])
  have b0: "snd (d_dbbase ?db) = 0" using mb_invD(3) [OF ok ud] by (simp add: dat_ok_def buf_ok_def)
  obtain r1 s where al: "allocb (snd (d_dblim ?db) - snd (d_dbbase ?db)) st = (r1, s)" by fastforce
  note af = allocb_facts [OF ok al]
  show ?thesis
  proof (cases r1)
    case None
    then show ?thesis using a al af by (simp add: copyb_def Let_def)
  next
    case (Some i)
    then have nb: "new_block st i (snd (d_dblim ?db)) s" using af b0 by simp
    then have s: "mbst_ok s" "grown {Trip i} {i} st s" "refs {} s i = {Trip i}" "m_bdatap (hdr s (Trip i)) = i"
      "m_bcont (hdr s (Trip i)) = None" "snd (d_dbbase (dat s i)) = 0" "snd (d_dblim ?db) \<le> snd (d_dblim (dat s i))"
      "smem s = smem st" "\<And>e. used st e \<Longrightarrow> fst (d_dbbase (dat st e)) \<noteq> fst (d_dbbase (dat s i))"
      "\<And>k. fst (d_dbbase (dat s i)) \<noteq> Ext k" "d_dbmsgaddr (dat s i) = i"
      by (auto simp: new_block_def)
    let ?B = "fst (d_dbbase ?db)" and ?N = "fst (d_dbbase (dat s i))"
    let ?rp = "snd (m_brptr ?b)" and ?wp = "snd (m_bwptr ?b)"
    have xa: "xaddr s = xaddr st" using s(2) by (simp add: grown_def)
    have alB: "baddr s ?B mod 4 = 0" using can ud xa by (simp add: copy_can_def baddr_def split: buf.splits)
    have alN: "baddr s ?N mod 4 = 0" using s(10) by (simp add: baddr_def split: buf.splits)
    define t where "t = upd_dat i (\<lambda>d. d\<lparr>d_dbtype := d_dbtype ?db\<rparr>)
      (upd_hdr (Trip i) (\<lambda>b. b\<lparr>m_bflag := m_bflag ?b, m_bband := m_bband ?b, m_brptr := (?N, ?rp), m_bwptr := (?N, ?wp)\<rparr>) s)"
    define mem where "mem = bcopy (?B, ?rp - ?rp mod 4) (?N, ?rp - ?rp mod 4) ((?wp + 3) - (?wp + 3) mod 4 - (?rp - ?rp mod 4)) (smem st)"
    have st': "r = Some (Trip i)" "st' = t\<lparr>smem := mem\<rparr>"
      using a al Some sp alB alN straln_mod [of s "m_brptr ?b"] straln_mod [of s "(?N, ?rp)"] straln_mod [of s "(?N, ?wp + 3)"]
      by (simp_all add: copyb_def Let_def b0 s(6) mem_def t_def span_ok_def s(8) padd_def)
    have lp: "live s (Trip i)" using s(2) unfolding grown_def by blast
    have lv: "live st' q = live s q" "used st' e = used s e" for q e
      by (cases q; simp add: st' t_def) (simp add: st' t_def used_def)
    have pi: "p \<noteq> Trip i" "?d \<noteq> i" using s(2) p ud unfolding grown_def by blast+
    have "mbst_ok st'"
    proof (rule mb_inv_rebuf [OF s(1) lp _ s(4) s(3), where L = "[]"])
      have ui: "used s i" using s(2) unfolding grown_def by blast
      then have bi: "buf_ok s i (dat s i)" using mb_invD(3) [OF s(1)] by (simp add: dat_ok_def)
      then show "buf_ok st' i (dat st' i)"
        using core_cong(2) [of "dat s i" "dat s i" st' s i] by (simp add: st' t_def buf_ok_def split: buf.splits)
      show "span_ok (hdr st' (Trip i)) (dat st' i)" using sp s(6,7) b0 by (simp add: st' t_def span_ok_def)
      show "\<And>e j. used s e \<Longrightarrow> e \<noteq> i \<Longrightarrow> fst (d_dbbase (dat st' i)) = Kmem j \<Longrightarrow> fst (d_dbbase (dat s e)) \<noteq> Kmem j"
        using mb_invD(4) [OF s(1)] ui unfolding bufs_apart_def by (auto simp: st' t_def)
    qed (use s(4) mb_invD(1) [OF s(1)] lv in \<open>simp_all add: st' t_def free_ok_def del: live_simps\<close>)
    moreover have "grown {Trip i} {i} st st'"
    proof -
      have "mem q = smem st q" if "fst q \<noteq> ?N" for q using that by (simp add: mem_def bcopy_def)
      then show ?thesis using s(2,8,9) lv pi unfolding grown_def by (auto simp: st' t_def simp del: live_simps)
    qed
    moreover have "bview st' (Trip i) = bview st p"
    proof -
      have "mem (?N, k) = smem st (?B, k)" if "?rp \<le> k" "k < ?wp" for k
        unfolding mem_def by (rule bcopy_words [OF that]) (use s(9) [OF ud] in simp)
      then have "btext st' (Trip i) = btext st p" using sp by (simp add: btext_def st' t_def span_ok_def)
      then show ?thesis using s(4) by (simp add: bview_def btype_def st' t_def)
    qed
    moreover have "copy_can st' cs"
    proof -
      have ba: "baddr st' = baddr st" "baddr s = baddr st" using xa by (simp_all add: baddr_def st' t_def fun_eq_iff split: buf.splits)
      have bs: "d_dbbase (dat st' e) = d_dbbase (dat s e)" for e by (simp add: st'(2) t_def)
      have "baddr st' (fst (d_dbbase (dat st' e))) mod 4 = 0" if u: "used st' e" for e
      proof (cases "e = i")
        case True
        then show ?thesis using alN ba bs by simp
      next
        case False
        then have "used st e" using u lv(2) s(2) unfolding grown_def by blast
        then have "baddr st (fst (d_dbbase (dat st e))) mod 4 = 0" "d_dbbase (dat s e) = d_dbbase (dat st e)"
          using can s(2) by (simp_all add: copy_can_def grown_def dcore_eq)
        then show ?thesis using ba bs by simp
      qed
      then show ?thesis by (simp add: copy_can_def)
    qed
    moreover have "\<not> used st i" using s(2) unfolding grown_def by blast
    ultimately show ?thesis using s(4,5) by (auto simp: st' t_def)
  qed
qed

definition copy_enough :: "mbst \<Rightarrow> mbp list \<Rightarrow> bool" where
  "copy_enough st cs \<longleftrightarrow> 2 * length cs \<le> mem_left st"

lemma copyb_left:
  assumes "copyb c st = (r, st1)" "copy_enough st (c # cs)"
  shows "r \<noteq> None \<and> copy_enough st1 cs"
proof -
  obtain r1 s where a: "allocb (snd (d_dblim (dat st (m_bdatap (hdr st c)))) - snd (d_dbbase (dat st (m_bdatap (hdr st c))))) st = (r1, s)"
    by fastforce
  show ?thesis using allocb_left [OF a] assms a by (auto simp: copyb_def Let_def copy_enough_def mem_left_def)
qed

interpretation copy: block_dup copyb copy_rest copy_can copy_enough False
proof
  show "copy_rest head nbp bp st =
     (case m_bcont (hdr st bp) of
        None \<Rightarrow> Some (Some head, st)
      | Some c \<Rightarrow>
          (case copyb c st of
             (None, st1) \<Rightarrow> map_option (Pair None) (freemsg (Some head) (set_cont nbp None st1))
           | (Some n, st1) \<Rightarrow> copy_rest head n c (set_cont nbp (Some n) st1)))" for head nbp bp st
    by (rule copy_rest.simps)
next
  show "copy_can st cs \<Longrightarrow> copy_can (set_cont n x st) cs" for st cs n x
    by (simp add: copy_can_def set_cont_def upd_hdr_use)
next
  show "mbst_ok st \<Longrightarrow> live st c \<Longrightarrow> copy_can st (c # cs) \<Longrightarrow> copyb c st = (None, st1) \<Longrightarrow>
    mbst_ok st1 \<and> grown {} {} st st1 \<and> \<not> copy_enough st (c # cs)" for st c cs st1
    using copyb_facts [of st c "c # cs" None st1] copyb_left [of c st None st1 cs] by auto
next
  show "mbst_ok st \<Longrightarrow> live st c \<Longrightarrow> copy_can st (c # cs) \<Longrightarrow> copyb c st = (Some n, st1) \<Longrightarrow>
    mbst_ok st1 \<and> (\<exists>D. grown {n} D st st1) \<and> m_bcont (hdr st1 n) = None \<and> bview st1 n = bview st c \<and> copy_can st1 cs \<and>
    (copy_enough st (c # cs) \<longrightarrow> copy_enough st1 cs) \<and> (if False then m_bdatap (hdr st1 n) = m_bdatap (hdr st c) else \<not> used st (m_bdatap (hdr st1 n)))" for st c cs n st1
    using copyb_facts [of st c "c # cs" "Some n" st1] copyb_left [of c st "Some n" st1 cs] by (simp add: copy_can_def)
next
  show "copy_enough st cs \<Longrightarrow> copy_enough (set_cont n x st) cs" for st cs n x
    by (simp add: copy_enough_def set_cont_def mem_left_def)
qed

end
