(* ===== verification/Strmb_Pull.thy ===== *)
theory Strmb_Pull imports Strmb_Copy begin

text \<open>
  Walks along a message, \<open>adjmsg\<close> and the copying loop of \<open>pullupmsg\<close> of \<open>io/stream.c\<close>: what they
  do to the text of the message.
\<close>

section \<open>Walks along a message\<close>

definition opt_hd :: "'a list \<Rightarrow> 'a option" where
  "opt_hd xs = (case xs of [] \<Rightarrow> None | x # _ \<Rightarrow> Some x)"

lemma bchain_hd: "bchain h x ps \<Longrightarrow> x = opt_hd ps"
  by (cases ps) (auto simp: opt_hd_def)

lemma walk_to_spec:
  assumes "bchain (hdr st) (Some p) (as @ q # bs)"
  shows "walk_to (opt_hd bs) st p = Some q"
  using assms
proof (induction as arbitrary: p)
  case Nil
  then have "p = q" "m_bcont (hdr st q) = opt_hd bs" using bchain_hd by fastforce+
  then show ?case by (subst walk_to.simps) simp
next
  case (Cons a as)
  then have pa: "p = a" and ch: "bchain (hdr st) (m_bcont (hdr st a)) (as @ q # bs)" by auto
  obtain c where c: "m_bcont (hdr st a) = Some c" "c \<in> set (as @ [q])" using ch by (cases as) auto
  have "distinct (as @ q # bs)" by (rule bchain_distinct [OF ch])
  then have "Some c \<noteq> opt_hd bs" using c(2) by (cases bs) (auto simp: opt_hd_def)
  then show ?case using Cons.IH [of c] ch c(1) by (subst walk_to.simps) (simp add: pa)
qed

lemma walk_to_last: "bchain (hdr st) (Some p) ps \<Longrightarrow> walk_to None st p = Some (last ps)"
  using walk_to_spec [of st p "butlast ps" "last ps" "[]"] by (cases "ps = []") (simp_all add: opt_hd_def)

definition tlen :: "mbst \<Rightarrow> mbp list \<Rightarrow> int" where
  "tlen st ps = (\<Sum>p\<leftarrow>ps. blen (hdr st p))"

lemma tlen_simps [simp]:
  "tlen st [] = 0" "tlen st (p # ps) = blen (hdr st p) + tlen st ps" "tlen st (ps @ qs) = tlen st ps + tlen st qs"
  by (simp_all add: tlen_def)

lemma tlen_nonneg: "(\<And>p. p \<in> set ps \<Longrightarrow> 0 \<le> blen (hdr st p)) \<Longrightarrow> 0 \<le> tlen st ps"
  by (induction ps) (auto intro: add_nonneg_nonneg)

text \<open>The blocks at the front of \<open>ps\<close> that have the type of the first.\<close>

definition run :: "mbst \<Rightarrow> mbp list \<Rightarrow> mbp list" where
  "run st ps = takeWhile (\<lambda>p. btype st p = btype st (hd ps)) ps"

lemma xsize_head_spec:
  "bchain (hdr st) x ps \<Longrightarrow> xsize_head st ty x c = Some (c + tlen st (takeWhile (\<lambda>p. btype st p = ty) ps))"
  by (induction ps arbitrary: x c) (subst xsize_head.simps, auto simp: algebra_simps)+

lemma xsize_tail_spec:
  assumes "bchain (hdr st) (Some mp) (as @ b # bs)"
  shows "xsize_tail st ty mp b c = Some (c + tlen st (takeWhile (\<lambda>p. btype st p = ty) (rev as)))"
  using assms
proof (induction as arbitrary: b bs c rule: rev_induct)
  case Nil
  then show ?case by (subst xsize_tail.simps) simp
next
  case (snoc a as)
  then have ch: "bchain (hdr st) (Some mp) (as @ a # b # bs)" by simp
  have "walk_to (Some b) st mp = Some a" using walk_to_spec [OF ch] by (simp add: opt_hd_def)
  moreover have "mp \<in> set (as @ [a])" using ch by (cases as) auto
  then have "b \<noteq> mp" using bchain_distinct [OF ch] by auto
  ultimately show ?case using snoc.IH [OF ch, of "c + blen (hdr st a)"]
    by (subst xsize_tail.simps) (auto simp: algebra_simps)
qed

lemma xmsgsize_spec:
  assumes "bchain (hdr st) (Some mp) ps"
  shows "xmsgsize st mp fromhead = Some (tlen st (run st (if fromhead then ps else rev ps)))"
proof (cases fromhead)
  case True
  then show ?thesis using assms xsize_head_spec [OF assms] by (auto simp: xmsgsize_def run_def bchain_Some)
next
  case False
  have ne: "ps \<noteq> []" using assms by auto
  define as l where "as = butlast ps" and "l = last ps"
  have ps: "ps = as @ [l]" using ne by (simp add: as_def l_def)
  have "xsize_tail st (btype st l) mp l (blen (hdr st l)) =
      Some (blen (hdr st l) + tlen st (takeWhile (\<lambda>p. btype st p = btype st l) (rev as)))"
    using xsize_tail_spec [of st mp as l "[]"] assms ps by simp
  then show ?thesis using False walk_to_last [OF assms] ps by (simp add: xmsgsize_def run_def)
qed

section \<open>Trimming\<close>

lemma drop_upto: "0 \<le> n \<Longrightarrow> drop (nat n) [a..b] = [a + n..b]"
proof (induction "nat n" arbitrary: n a)
  case (Suc k)
  then have n: "0 \<le> n - 1" "k = nat (n - 1)" "nat n = Suc k" by linarith+
  show ?case
  proof (cases "a \<le> b")
    case True
    then have "drop (nat n) [a..b] = drop (nat (n - 1)) [a + 1..b]" using n by (simp add: upto_rec1 [of a b])
    then show ?thesis using Suc.hyps(1) [OF n(2,1), of "a + 1"] by simp
  next
    case False
    then show ?thesis using Suc.prems by simp
  qed
qed simp

lemma take_upto: "0 \<le> n \<Longrightarrow> n \<le> b - a + 1 \<Longrightarrow> take (nat (b - a + 1 - n)) [a..b] = [a..b - n]"
proof -
  assume n: "0 \<le> n" "n \<le> b - a + 1"
  have "[a..b] = [a..b - n] @ [b - n + 1..b]"
  proof (cases "a \<le> b - n")
    case True
    then show ?thesis using n upto_split2 [of a "b - n" b] by simp
  next
    case False
    then have "a = b - n + 1" using n by simp
    then show ?thesis by simp
  qed
  moreover have "length [a..b - n] = nat (b - a + 1 - n)" by simp
  ultimately show ?thesis by (metis append_eq_conv_conj)
qed

lemma length_btext [simp]: "length (btext st p) = nat (blen (hdr st p))"
  by (simp add: btext_def blen_def)

lemma length_mtext: "(\<And>p. p \<in> set ps \<Longrightarrow> 0 \<le> blen (hdr st p)) \<Longrightarrow> length (mtext st ps) = nat (tlen st ps)"
proof (induction ps)
  case (Cons p ps)
  then have "0 \<le> blen (hdr st p)" "0 \<le> tlen st ps" using tlen_nonneg [of ps st] by simp_all
  then show ?case using Cons by (simp add: mtext_def nat_add_distrib)
qed (simp add: mtext_def)

lemma mtext_simps [simp]: "mtext st [] = []" "mtext st (p # ps) = btext st p @ mtext st ps"
  "mtext st (ps @ qs) = mtext st ps @ mtext st qs"
  by (simp_all add: mtext_def)

text \<open>
  \<open>trimmed qs st st'\<close>: only the read and write pointers of the blocks \<open>qs\<close> moved, and inward.
\<close>

definition narrowed :: "msgb \<Rightarrow> msgb \<Rightarrow> bool" where
  "narrowed b b' \<longleftrightarrow> m_bcont b' = m_bcont b \<and> m_bdatap b' = m_bdatap b \<and> m_bband b' = m_bband b \<and> m_bflag b' = m_bflag b \<and>
     fst (m_brptr b') = fst (m_brptr b) \<and> fst (m_bwptr b') = fst (m_bwptr b) \<and>
     (0 \<le> blen b \<longrightarrow> snd (m_brptr b) \<le> snd (m_brptr b') \<and> 0 \<le> blen b' \<and> snd (m_bwptr b') \<le> snd (m_bwptr b))"

lemma narrowed_refl [simp]: "narrowed b b"
  by (simp add: narrowed_def)

lemma narrowed_trans: "narrowed a b \<Longrightarrow> narrowed b c \<Longrightarrow> narrowed a c"
  unfolding narrowed_def by auto

lemma narrowed_span: "span_ok b db \<Longrightarrow> narrowed b b' \<Longrightarrow> span_ok b' db"
  by (simp add: span_ok_def narrowed_def blen_def)

definition trimmed :: "mbp list \<Rightarrow> mbst \<Rightarrow> mbst \<Rightarrow> bool" where
  "trimmed qs st st' \<longleftrightarrow> same_core (st\<lparr>hdr := hdr st'\<rparr>) st' \<and> live st' = live st \<and> used st' = used st \<and>
     free_ok st' = free_ok st \<and> (\<forall>q. q \<notin> set qs \<longrightarrow> hdr st' q = hdr st q) \<and> (\<forall>q. narrowed (hdr st q) (hdr st' q))"

lemma trimmed_refl: "trimmed qs st st"
  by (simp add: trimmed_def same_core_def)

lemma trimmed_trans:
  assumes t: "trimmed qs st st1" "trimmed rs st1 st2" and s: "set qs \<subseteq> set ps" "set rs \<subseteq> set ps"
  shows "trimmed ps st st2"
  unfolding trimmed_def
proof (intro conjI allI impI)
  show "narrowed (hdr st q) (hdr st2 q)" for q using t narrowed_trans unfolding trimmed_def by blast
  show "hdr st2 q = hdr st q" if "q \<notin> set ps" for q
  proof -
    have "q \<notin> set qs" "q \<notin> set rs" using s that by blast+
    then show ?thesis using t by (simp add: trimmed_def)
  qed
qed (use t in \<open>simp_all add: trimmed_def same_core_def\<close>)

lemma trimmed_rptr:
  assumes "0 \<le> n" "n \<le> blen (hdr st p)"
  shows "trimmed [p] st (upd_hdr p (\<lambda>b. b\<lparr>m_brptr := padd (m_brptr b) n\<rparr>) st)"
  using assms by (simp add: trimmed_def same_core_def upd_hdr_use fun_eq_iff narrowed_def padd_def blen_def del: live_simps)

lemma trimmed_wptr:
  assumes "0 \<le> n" "n \<le> blen (hdr st p)"
  shows "trimmed [p] st (upd_hdr p (\<lambda>b. b\<lparr>m_bwptr := padd (m_bwptr b) (- n)\<rparr>) st)"
  using assms by (simp add: trimmed_def same_core_def upd_hdr_use fun_eq_iff narrowed_def padd_def blen_def del: live_simps)

lemma trimmed_ok:
  assumes ok: "mb_inv X st" and t: "trimmed qs st st'"
  shows "mb_inv X st'"
proof (rule mb_inv_hdrs [OF ok])
  fix q assume "live st q" "q \<notin> X"
  then have "span_ok (hdr st q) (dat st (m_bdatap (hdr st q)))" using mb_invD(2) [OF ok] by (simp add: hdr_ok_def)
  then show "span_ok (hdr st' q) (dat st (m_bdatap (hdr st q)))"
    using t narrowed_span unfolding trimmed_def by blast
qed (use t mb_invD(1) [OF ok] in \<open>simp_all add: trimmed_def narrowed_def\<close>)

lemma trimmed_chain: "trimmed qs st st' \<Longrightarrow> bchain (hdr st) x ps \<Longrightarrow> bchain (hdr st') x ps"
  by (erule bchain_cong) (simp add: trimmed_def narrowed_def)

lemma trimmed_btype: "trimmed qs st st' \<Longrightarrow> btype st' p = btype st p"
  by (simp add: trimmed_def narrowed_def btype_def same_core_def)

lemma trimmed_btext: "trimmed qs st st' \<Longrightarrow> p \<notin> set qs \<Longrightarrow> btext st' p = btext st p"
  by (simp add: trimmed_def btext_def same_core_def)

lemma btext_rptr:
  assumes "0 \<le> n"
  shows "btext (upd_hdr p (\<lambda>b. b\<lparr>m_brptr := padd (m_brptr b) n\<rparr>) st) p = drop (nat n) (btext st p)"
  using assms by (simp add: btext_def padd_def drop_map drop_upto)

lemma btext_wptr:
  assumes "0 \<le> n" "n \<le> blen (hdr st p)"
  shows "btext (upd_hdr p (\<lambda>b. b\<lparr>m_bwptr := padd (m_bwptr b) (- n)\<rparr>) st) p = take (nat (blen (hdr st p) - n)) (btext st p)"
  using assms take_upto [of n "snd (m_bwptr (hdr st p)) - 1" "snd (m_brptr (hdr st p))"]
  by (simp add: btext_def padd_def take_map blen_def algebra_simps)
lemma adj_head_spec:
  assumes "bchain (hdr st) x ps" "\<And>p. p \<in> set ps \<Longrightarrow> 0 \<le> blen (hdr st p)" "0 \<le> len" "len \<le> tlen st ps"
  shows "\<exists>st'. adj_head len x st = Some st' \<and> trimmed ps st st' \<and> mtext st' ps = drop (nat len) (mtext st ps)"
  using assms
proof (induction ps arbitrary: st x len)
  case Nil
  then show ?case by (intro exI [of _ st]) (subst adj_head.simps, simp add: trimmed_refl)
next
  case (Cons p ps)
  show ?case
  proof (cases "len = 0")
    case True
    then show ?thesis by (intro exI [of _ st]) (subst adj_head.simps, simp add: trimmed_refl)
  next
    case False
    define n where "n = min (blen (hdr st p)) len"
    define st1 where "st1 = upd_hdr p (\<lambda>b. b\<lparr>m_brptr := padd (m_brptr b) n\<rparr>) st"
    have n: "0 \<le> n" "n \<le> blen (hdr st p)" "n \<le> len" using Cons.prems(2) [of p] Cons.prems(3) by (auto simp: n_def)
    have x: "x = Some p" and ch: "bchain (hdr st) (m_bcont (hdr st p)) ps" using Cons.prems(1) by auto
    have np: "p \<notin> set ps" using bchain_distinct [OF Cons.prems(1)] by simp
    have t1: "trimmed [p] st st1" unfolding st1_def by (rule trimmed_rptr [OF n(1,2)])
    have h: "hdr st1 q = hdr st q" "btext st1 q = btext st q" if "q \<in> set ps" for q
    proof -
      have "q \<noteq> p" using that np by blast
      then show "hdr st1 q = hdr st q" "btext st1 q = btext st q"
        using t1 trimmed_btext [OF t1, of q] by (simp_all add: trimmed_def)
    qed
    have tl: "tlen st1 ps = tlen st ps" "mtext st1 ps = mtext st ps"
      using h by (auto simp: tlen_def mtext_def intro!: arg_cong [of _ _ sum_list] arg_cong [of _ _ concat])
    have "len - n \<le> tlen st ps" using Cons.prems(2,4) tlen_nonneg [of ps st] by (auto simp: n_def min_def)
    then obtain st' where s: "adj_head (len - n) (m_bcont (hdr st p)) st1 = Some st'" "trimmed ps st1 st'"
      "mtext st' ps = drop (nat (len - n)) (mtext st ps)"
      using Cons.IH [OF trimmed_chain [OF t1 ch], of "len - n"] Cons.prems(2) h(1) n tl by auto
    have "adj_head len x st = Some st'" using s(1) False x
      by (subst adj_head.simps) (simp add: Let_def n_def st1_def)
    moreover have "trimmed (p # ps) st st'" by (rule trimmed_trans [OF t1 s(2)]) auto
    moreover have "btext st' p = drop (nat n) (btext st p)"
      using trimmed_btext [OF s(2) np] btext_rptr [OF n(1), of p st] by (simp add: st1_def)
    moreover have "nat (len - n) = nat len - length (btext st p)" "nat n = min (length (btext st p)) (nat len)"
      using n Cons.prems(2) [of p] Cons.prems(3) by (auto simp: n_def min_def)
    ultimately show ?thesis using s(3) by (auto simp: min_def)
  qed
qed

lemma adj_tail_spec:
  assumes "bchain (hdr st) (Some mp) (as @ bs)" "\<And>p. p \<in> set as \<Longrightarrow> 0 \<le> blen (hdr st p)" "0 \<le> len" "len \<le> tlen st as"
  shows "\<exists>st'. adj_tail len mp (opt_hd bs) st = Some st' \<and> trimmed as st st' \<and>
    mtext st' as = take (nat (tlen st as - len)) (mtext st as)"
  using assms
proof (induction as arbitrary: st bs len rule: rev_induct)
  case Nil
  then show ?case by (intro exI [of _ st]) (subst adj_tail.simps, simp add: trimmed_refl)
next
  case (snoc p as)
  have lt: "length (mtext st (as @ [p])) = nat (tlen st (as @ [p]))" by (rule length_mtext) (rule snoc.prems(2))
  show ?case
  proof (cases "len = 0")
    case True
    then show ?thesis using lt by (intro exI [of _ st]) (subst adj_tail.simps, simp add: trimmed_refl)
  next
    case False
    define n where "n = min (blen (hdr st p)) len"
    define st1 where "st1 = upd_hdr p (\<lambda>b. b\<lparr>m_bwptr := padd (m_bwptr b) (- n)\<rparr>) st"
    have n: "0 \<le> n" "n \<le> blen (hdr st p)" "n \<le> len" using snoc.prems(2) [of p] snoc.prems(3) by (auto simp: n_def)
    have ch: "bchain (hdr st) (Some mp) (as @ p # bs)" using snoc.prems(1) by simp
    have np: "p \<notin> set as" using bchain_distinct [OF ch] by auto
    have t1: "trimmed [p] st st1" unfolding st1_def by (rule trimmed_wptr [OF n(1,2)])
    have h: "hdr st1 q = hdr st q" "btext st1 q = btext st q" if "q \<in> set as" for q
    proof -
      have "q \<noteq> p" using that np by blast
      then show "hdr st1 q = hdr st q" "btext st1 q = btext st q"
        using t1 trimmed_btext [OF t1, of q] by (simp_all add: trimmed_def)
    qed
    have tl: "tlen st1 as = tlen st as" "mtext st1 as = mtext st as"
      using h by (auto simp: tlen_def mtext_def intro!: arg_cong [of _ _ sum_list] arg_cong [of _ _ concat])
    have nn: "0 \<le> tlen st as" using tlen_nonneg [of as st] snoc.prems(2) by simp
    then have le: "len - n \<le> tlen st as" using snoc.prems(4) by (auto simp: n_def min_def)
    obtain st' where s: "adj_tail (len - n) mp (Some p) st1 = Some st'" "trimmed as st1 st'"
      "mtext st' as = take (nat (tlen st as - (len - n))) (mtext st as)"
      using snoc.IH [of st1 "p # bs" "len - n"] trimmed_chain [OF t1 ch] snoc.prems(2) h(1) n tl le by (auto simp: opt_hd_def)
    have "adj_tail len mp (opt_hd bs) st = Some st'" using s(1) False walk_to_spec [OF ch]
      by (subst adj_tail.simps) (simp add: Let_def n_def st1_def)
    moreover have "trimmed (as @ [p]) st st'" by (rule trimmed_trans [OF t1 s(2)]) auto
    moreover have "btext st' p = take (nat (blen (hdr st p) - n)) (btext st p)"
      using trimmed_btext [OF s(2) np] btext_wptr [OF n(1,2)] by (simp add: st1_def)
    moreover have "length (mtext st as) = nat (tlen st as)" by (rule length_mtext) (use snoc.prems(2) in simp)
    ultimately show ?thesis using s(3) n nn le snoc.prems(2) [of p] False
      by (cases "blen (hdr st p) \<le> len") (auto simp: n_def min_def nat_diff_distrib' nat_add_distrib algebra_simps)
  qed
qed

lemma live_blen: "mbst_ok st \<Longrightarrow> live st p \<Longrightarrow> 0 \<le> blen (hdr st p)"
  using live_span [of st p] by (simp add: span_ok_def blen_def)

lemma adjmsg_spec:
  assumes ok: "mbst_ok st" and m: "msg_ok {} st (Some mp) ps"
  shows "\<exists>r st'. adjmsg mp len st = Some (r, st') \<and>
    (if \<bar>len\<bar> \<le> tlen st (run st (if len < 0 then rev ps else ps))
     then r = 1 \<and> trimmed ps st st' \<and>
       mtext st' ps = (if len < 0 then take (nat (tlen st ps + len)) (mtext st ps) else drop (nat len) (mtext st ps))
     else r = 0 \<and> st' = st)"
proof -
  have ch: "bchain (hdr st) (Some mp) ps" using m by (simp add: msg_ok_def)
  have pos: "p \<in> set ps \<Longrightarrow> 0 \<le> blen (hdr st p)" for p using live_blen [OF ok] m by (auto simp: msg_ok_def)
  have le: "tlen st (run st qs) \<le> tlen st ps" if "qs = ps \<or> qs = rev ps" for qs
  proof -
    have "tlen st (run st qs) + tlen st (dropWhile (\<lambda>p. btype st p = btype st (hd qs)) qs) = tlen st qs"
      unfolding run_def by (metis takeWhile_dropWhile_id tlen_simps(3))
    moreover have "0 \<le> tlen st (dropWhile (\<lambda>p. btype st p = btype st (hd qs)) qs)"
      by (rule tlen_nonneg) (use that pos set_dropWhileD in fastforce)
    moreover have "tlen st qs = tlen st ps" using that by (auto simp: tlen_def rev_map [symmetric])
    ultimately show ?thesis by linarith
  qed
  note xs = xmsgsize_spec [OF ch]
  show ?thesis
  proof (cases "len < 0")
    case True
    show ?thesis
    proof (cases "- len \<le> tlen st (run st (rev ps))")
      case le1: True
      then obtain st' where "adj_tail (- len) mp None st = Some st'" "trimmed ps st st'"
        "mtext st' ps = take (nat (tlen st ps - (- len))) (mtext st ps)"
        using adj_tail_spec [of st mp ps "[]" "- len"] ch pos le [of "rev ps"] True by (auto simp: opt_hd_def)
      then show ?thesis using True le1 xs [of False] by (simp add: adjmsg_def Let_def)
    qed (use True xs [of False] in \<open>simp add: adjmsg_def Let_def\<close>)
  next
    case False
    show ?thesis
    proof (cases "len \<le> tlen st (run st ps)")
      case le1: True
      then obtain st' where "adj_head len (Some mp) st = Some st'" "trimmed ps st st'" "mtext st' ps = drop (nat len) (mtext st ps)"
        using adj_head_spec [of st "Some mp" ps len] ch pos le [of ps] False by auto
      then show ?thesis using False le1 xs [of True] by (simp add: adjmsg_def Let_def)
    qed (use False xs [of True] in \<open>simp add: adjmsg_def Let_def\<close>)
  qed
qed

section \<open>Pulling up\<close>

definition mem_at :: "mbst \<Rightarrow> ptr \<Rightarrow> int \<Rightarrow> u8 list" where
  "mem_at st p n = map (\<lambda>k. smem st (fst p, k)) [snd p..snd p + n - 1]"

lemma length_mem_at [simp]: "length (mem_at st p n) = nat n"
  by (simp add: mem_at_def)

lemma mem_at_split:
  assumes "0 \<le> m" "m \<le> n"
  shows "mem_at st p n = mem_at st p m @ mem_at st (padd p m) (n - m)"
proof -
  have "[snd p..snd p + n - 1] = [snd p..snd p + m - 1] @ [snd p + m..snd p + n - 1]"
  proof (cases "m = n")
    case False
    then show ?thesis using assms upto_split1 [of "snd p" "snd p + m" "snd p + n - 1"] by simp
  qed simp
  then show ?thesis by (simp add: mem_at_def padd_def algebra_simps)
qed

lemma mem_at_bcopy:
  assumes "fst s \<noteq> fst d"
  shows "mem_at (st\<lparr>smem := bcopy s d n (smem st)\<rparr>) d n = mem_at st s n"
proof -
  have "[snd s..snd s + n - 1] = map (\<lambda>k. k - snd d + snd s) [snd d..snd d + n - 1]"
    by (rule nth_equalityI) simp_all
  then show ?thesis by (simp add: mem_at_def bcopy_def padd_def algebra_simps)
qed

lemma btext_mem_at: "btext st p = mem_at st (m_brptr (hdr st p)) (blen (hdr st p))"
  by (simp add: btext_def mem_at_def blen_def)

text \<open>
  What the loop has done after it took the blocks \<open>as\<close> from the front and left \<open>bs\<close>: \<open>mp\<close> is the
  head of the message, which is not freed.
\<close>

definition pulled :: "mbp set \<Rightarrow> mbp \<Rightarrow> mbp list \<Rightarrow> ptr \<Rightarrow> mbst \<Rightarrow> mbst \<Rightarrow> bool" where
  "pulled X mp as dst st st' \<longleftrightarrow>
     (\<forall>q. live st' q \<longleftrightarrow> live st q \<and> (q \<in> set as \<longrightarrow> q = mp)) \<and>
     (\<forall>e. used st' e \<longleftrightarrow> used st e \<and> \<not> refs X st e \<subseteq> set as - {mp}) \<and>
     (\<forall>q. fst q \<noteq> fst dst \<or> snd q < snd dst \<longrightarrow> smem st' q = smem st q) \<and>
     (\<forall>q. narrowed (hdr st q) (hdr st' q)) \<and> (\<forall>e. dcore (dat st' e) = dcore (dat st e)) \<and>
     xaddr st' = xaddr st \<and> nkmem st' = nkmem st \<and> (\<exists>L. kfreed st' = kfreed st @ L \<and> (\<forall>(b, n)\<in>set L. \<exists>e. used st e \<and> b = d_dbbase (dat st e)))"

lemma pulled_hdr:
  assumes "pulled X mp as dst st st'"
  shows "m_bdatap (hdr st' q) = m_bdatap (hdr st q)"
  using assms by (simp add: pulled_def narrowed_def)

text \<open>One round of the loop: the data of block \<open>p\<close> is copied, and the block freed if it is used up.\<close>

definition pull_step :: "int \<Rightarrow> mbp \<Rightarrow> ptr \<Rightarrow> mbst \<Rightarrow> mbst" where
  "pull_step n p dst st = upd_hdr p (\<lambda>b. b\<lparr>m_brptr := padd (m_brptr b) n\<rparr>) (st\<lparr>smem := bcopy (m_brptr (hdr st p)) dst n (smem st)\<rparr>)"

lemma pull_step_facts:
  assumes ok: "mb_inv X st" and n: "0 \<le> n" "n \<le> blen (hdr st p)" and ne: "fst (m_brptr (hdr st p)) \<noteq> fst dst"
  shows "mb_inv X (pull_step n p dst st)" "live (pull_step n p dst st) q = live st q" "used (pull_step n p dst st) e = used st e"
    "refs X (pull_step n p dst st) e = refs X st e" "pulled X mp [] dst st (pull_step n p dst st)"
    "q \<noteq> p \<Longrightarrow> hdr (pull_step n p dst st) q = hdr st q" "dat (pull_step n p dst st) = dat st"
    "mem_at (pull_step n p dst st) dst n = take (nat n) (btext st p)"
    "btext (pull_step n p dst st) p = drop (nat n) (btext st p)"
    "fst (m_brptr (hdr st q)) \<noteq> fst dst \<Longrightarrow> q \<noteq> p \<Longrightarrow> btext (pull_step n p dst st) q = btext st q"
proof -
  let ?m = "st\<lparr>smem := bcopy (m_brptr (hdr st p)) dst n (smem st)\<rparr>" and ?s = "pull_step n p dst st"
  have lm: "live ?m = live st" "used ?m = used st" "free_ok ?m = free_ok st"
    by (auto simp: live_def used_def free_ok_def fun_eq_iff split: mbp.splits)
  have "mb_inv X ?m"
    by (rule mb_inv_cong [OF ok]) (use mb_invD(1) [OF ok] lm in simp_all)
  moreover have t: "trimmed [p] ?m ?s" unfolding pull_step_def by (rule trimmed_rptr) (use n in simp_all)
  ultimately show "mb_inv X ?s" by (rule trimmed_ok)
  show l: "live ?s q = live st q" "used ?s e = used st e" for q e using t lm by (simp_all add: trimmed_def)
  show "q \<noteq> p \<Longrightarrow> hdr ?s q = hdr st q" for q using t by (simp add: trimmed_def)
  show "dat ?s = dat st" by (simp add: pull_step_def)
  have nr: "narrowed (hdr st q) (hdr ?s q)" for q using t by (simp add: trimmed_def)
  show r: "refs X ?s e = refs X st e" for e using l nr by (auto simp: refs_def narrowed_def)
  have "refs X st e \<noteq> {}" if "used st e" for e using mb_invD(3) [OF ok that] by (simp add: dat_ok_def)
  moreover have "bcopy (m_brptr (hdr st p)) dst n (smem st) q = smem st q" if "fst q \<noteq> fst dst \<or> snd q < snd dst" for q
    using that by (auto simp: bcopy_def)
  ultimately show "pulled X mp [] dst st ?s" using l nr by (auto simp: pulled_def pull_step_def)
  have s: "mem_at ?s a m = mem_at ?m a m" for a m by (simp add: mem_at_def pull_step_def)
  have "mem_at ?s dst n = mem_at st (m_brptr (hdr st p)) n" unfolding s by (rule mem_at_bcopy [OF ne])
  also have "\<dots> = take (nat n) (btext st p)"
    unfolding btext_mem_at mem_at_split [OF n] by simp
  finally show "mem_at ?s dst n = take (nat n) (btext st p)" .
  have keep: "fst a \<noteq> fst dst \<Longrightarrow> mem_at ?s a m = mem_at st a m" for a m
    by (simp add: mem_at_def pull_step_def bcopy_def)
  show "fst (m_brptr (hdr st q)) \<noteq> fst dst \<Longrightarrow> q \<noteq> p \<Longrightarrow> btext ?s q = btext st q" for q
    unfolding btext_mem_at using keep by (simp add: pull_step_def)
  have "hdr ?s p = (hdr st p)\<lparr>m_brptr := padd (m_brptr (hdr st p)) n\<rparr>" by (simp add: pull_step_def)
  moreover have "btext st p = mem_at st (m_brptr (hdr st p)) n @ mem_at st (padd (m_brptr (hdr st p)) n) (blen (hdr st p) - n)"
    unfolding btext_mem_at by (rule mem_at_split [OF n])
  ultimately show "btext ?s p = drop (nat n) (btext st p)"
    unfolding btext_mem_at [of ?s] using keep ne by (simp add: padd_def blen_def algebra_simps)
qed

lemma pulled_refs:
  assumes "pulled X mp as dst st st'"
  shows "refs X st' e = refs X st e - (set as - {mp})"
  using assms pulled_hdr [OF assms] by (auto simp: refs_def pulled_def simp del: live_simps)

lemma pulled_trans:
  assumes a: "pulled X mp as d st st1" and b: "pulled X mp bs (padd d n) st1 st2" and n: "0 \<le> n"
  shows "pulled X mp (as @ bs) d st st2"
proof -
  have r: "refs X st1 e = refs X st e - (set as - {mp})" for e by (rule pulled_refs [OF a])
  have "used st2 e \<longleftrightarrow> used st e \<and> \<not> refs X st e \<subseteq> set (as @ bs) - {mp}" for e
  proof -
    have "used st2 e \<longleftrightarrow> used st e \<and> \<not> refs X st e \<subseteq> set as - {mp} \<and> \<not> refs X st e - (set as - {mp}) \<subseteq> set bs - {mp}"
      using a b r by (simp add: pulled_def)
    then show ?thesis by auto
  qed
  moreover have "narrowed (hdr st q) (hdr st2 q)" for q using a b narrowed_trans unfolding pulled_def by blast
  moreover have "live st2 q \<longleftrightarrow> live st q \<and> (q \<in> set (as @ bs) \<longrightarrow> q = mp)" for q
    using a b unfolding pulled_def by auto
  moreover have "smem st2 q = smem st q" if "fst q \<noteq> fst d \<or> snd q < snd d" for q
    using a b n that unfolding pulled_def padd_def by (smt (verit) fst_conv snd_conv)
  moreover have "\<exists>L. kfreed st2 = kfreed st @ L \<and> (\<forall>(b, n)\<in>set L. \<exists>e. used st e \<and> b = d_dbbase (dat st e))"
  proof -
    obtain L M where L: "kfreed st1 = kfreed st @ L" "\<forall>(b, n)\<in>set L. \<exists>e. used st e \<and> b = d_dbbase (dat st e)"
      and M: "kfreed st2 = kfreed st1 @ M" "\<forall>(b, n)\<in>set M. \<exists>e. used st1 e \<and> b = d_dbbase (dat st1 e)"
      using a b unfolding pulled_def by blast
    have "\<exists>e. used st e \<and> b = d_dbbase (dat st e)" if "(b, n) \<in> set M" for b n
      using M(2) a that unfolding pulled_def dcore_eq by fastforce
    then show ?thesis using L M(1) by (intro exI [of _ "L @ M"]) auto
  qed
  ultimately show ?thesis using a b by (simp add: pulled_def)
qed

lemma pulled_free:
  assumes ok: "mb_inv X st" and p: "live st p" "p \<notin> X" "p \<noteq> mp"
  shows "pulled X mp [p] dst st (freeb p st)"
proof -
  note f = freeb_facts [OF ok p(1,2)]
  have "refs X st e = {p} \<longleftrightarrow> refs X st e \<subseteq> {p} - {mp}" if "used st e" for e
    using mb_invD(3) [OF ok that] p(3) by (auto simp: dat_ok_def)
  moreover have "\<forall>(b, n)\<in>set (buf_log (dat st (m_bdatap (hdr st p)))). \<exists>e. used st e \<and> b = d_dbbase (dat st e)"
    using mb_invD(2) [OF ok p(1,2)] by (auto simp: buf_log_def hdr_ok_def)
  ultimately show ?thesis using f p(3) by (auto simp: pulled_def simp del: live_simps)
qed

lemma pulled_same: "pulled X mp [] dst st st' \<Longrightarrow> pulled X mp [mp] dst st st'"
  by (auto simp: pulled_def)

lemma pulled_refl:
  assumes "mb_inv X st"
  shows "pulled X mp [] dst st st"
  using mb_invD(3) [OF assms] by (auto simp: pulled_def dat_ok_def)

text \<open>Blocks whose data lie outside the buffer the copy goes to.\<close>

definition pull_src :: "mbp set \<Rightarrow> mbp \<Rightarrow> ptr \<Rightarrow> mbst \<Rightarrow> mbp \<Rightarrow> bool" where
  "pull_src X mp dst st q \<longleftrightarrow> live st q \<and> (q \<in> X \<longrightarrow> q = mp) \<and> 0 \<le> blen (hdr st q) \<and>
     fst (m_bwptr (hdr st q)) = fst (m_brptr (hdr st q)) \<and> fst (m_brptr (hdr st q)) \<noteq> fst dst"

lemma pull_copy_spec:
  assumes "mb_inv X st" "bchain (hdr st) x qs" "\<And>q. q \<in> set qs \<Longrightarrow> pull_src X mp dst st q" "0 \<le> len" "len \<le> tlen st qs"
  shows "\<exists>as bs st'. qs = as @ bs \<and> pull_copy mp len x dst st = Some (opt_hd bs, padd dst len, st') \<and> mb_inv X st' \<and>
    pulled X mp as dst st st' \<and> mtext st' bs = drop (nat len) (mtext st qs) \<and> mem_at st' dst len = take (nat len) (mtext st qs) \<and>
    (\<forall>q. q \<notin> set qs \<longrightarrow> hdr st' q = hdr st q) \<and> (0 < len \<longrightarrow> qs \<noteq> [] \<longrightarrow> blen (hdr st (hd qs)) \<le> len \<longrightarrow> as \<noteq> [])"
  using assms
proof (induction qs arbitrary: st x len dst)
  case Nil
  then have "pull_copy mp len x dst st = Some (None, padd dst len, st)" by (subst pull_copy.simps) (simp add: padd_def)
  then show ?case using Nil pulled_refl by (intro exI [of _ "[]"] exI [of _ st]) (auto simp: opt_hd_def mem_at_def)
next
  case (Cons p ps)
  have x: "x = Some p" and ch: "bchain (hdr st) (m_bcont (hdr st p)) ps" using Cons.prems(2) by auto
  show ?case
  proof (cases "len = 0")
    case True
    then have "pull_copy mp len x dst st = Some (Some p, padd dst len, st)" using x by (subst pull_copy.simps) (simp add: padd_def)
    then show ?thesis using Cons.prems(1) pulled_refl True
      by (intro exI [of _ "[]"] exI [of _ "p # ps"] exI [of _ st]) (auto simp: opt_hd_def mem_at_def)
  next
    case False
    define n where "n = min (blen (hdr st p)) len"
    have src: "pull_src X mp dst st p" using Cons.prems(3) by simp
    have n: "0 \<le> n" "n \<le> blen (hdr st p)" "n \<le> len" using src Cons.prems(4) by (auto simp: n_def pull_src_def)
    define s1 where "s1 = pull_step n p dst st"
    have loop: "pull_copy mp len x dst st =
        (if m_bwptr (hdr s1 p) \<noteq> m_brptr (hdr s1 p) then Some (Some p, padd dst n, s1)
         else pull_copy mp (len - n) (m_bcont (hdr st p)) (padd dst n) (if p \<noteq> mp then freeb p s1 else s1))"
      using x False by (subst pull_copy.simps) (simp add: Let_def n_def s1_def pull_step_def)
    note f = pull_step_facts [OF Cons.prems(1) n(1,2), of dst, folded s1_def]
    have ne: "fst (m_brptr (hdr st p)) \<noteq> fst dst" using src by (simp add: pull_src_def)
    have np: "p \<notin> set ps" using bchain_distinct [OF Cons.prems(2)] by simp
    have bt: "btext s1 q = btext st q" "hdr s1 q = hdr st q" if "q \<in> set ps" for q
    proof -
      have "q \<noteq> p" using that np by blast
      then show "btext s1 q = btext st q" "hdr s1 q = hdr st q"
        using f(6,10) [OF ne, of q] Cons.prems(3) [of q] that by (simp_all add: pull_src_def)
    qed
    have tp: "mtext s1 ps = mtext st ps" using bt by (simp add: mtext_def cong: map_cong)
    have eqn: "m_bwptr (hdr s1 p) = m_brptr (hdr s1 p) \<longleftrightarrow> blen (hdr st p) \<le> len"
      using src by (auto simp: s1_def pull_step_def pull_src_def prod_eq_iff padd_def blen_def n_def)
    have lp: "length (btext st p) = nat (blen (hdr st p))" by simp
    show ?thesis
    proof (cases "blen (hdr st p) \<le> len")
      case False
      then have "n = len" by (simp add: n_def)
      then have "pull_copy mp len x dst st = Some (Some p, padd dst len, s1)"
        using eqn False loop by simp
      moreover have "mtext s1 (p # ps) = drop (nat len) (mtext st (p # ps))" "mem_at s1 dst len = take (nat len) (mtext st (p # ps))"
        using f(8,9) [OF ne] tp \<open>n = len\<close> n by (simp_all add: tp)
      ultimately show ?thesis using f(1,5) [OF ne] f(6) [OF ne] False
        by (intro exI [of _ "[]"] exI [of _ "p # ps"] exI [of _ s1]) (auto simp: opt_hd_def)
    next
      case True
      then have nb: "n = blen (hdr st p)" by (simp add: n_def)
      define s2 where "s2 = (if p \<noteq> mp then freeb p s1 else s1)"
      have s1p: "live s1 p" "p \<noteq> mp \<Longrightarrow> p \<notin> X" using f(2) [OF ne, of p] src by (auto simp: pull_src_def simp del: live_simps)
      have s2: "mb_inv X s2" "hdr s2 = hdr s1" "smem s2 = smem s1" "\<And>q. q \<noteq> p \<Longrightarrow> live s2 q = live st q"
        using f(1,2) [OF ne] freeb_ok [OF f(1) [OF ne] s1p(1)] freeb_facts(1,2,8) [OF f(1) [OF ne] s1p(1)] s1p(2)
        by (simp_all add: s2_def del: live_simps)
      have step: "pulled X mp [p] dst st s2"
      proof (cases "p = mp")
        case True
        then show ?thesis using pulled_same [OF f(5) [OF ne]] by (simp add: s2_def)
      next
        case False
        then have "pulled X mp [p] (padd dst 0) s1 s2" using pulled_free [OF f(1) [OF ne] s1p(1)] s1p(2) by (simp add: s2_def)
        then show ?thesis using pulled_trans [OF f(5) [OF ne], of mp "[p]" 0] by simp
      qed
      have c1: "bchain (hdr s2) (m_bcont (hdr st p)) ps"
        by (rule bchain_cong [OF ch]) (use bt s2(2) in simp)
      have c2: "pull_src X mp (padd dst n) s2 q" if "q \<in> set ps" for q
      proof -
        have "q \<noteq> p" using that np by blast
        then show ?thesis using Cons.prems(3) [of q] that bt [OF that] s2(2,4) by (simp add: pull_src_def padd_def del: live_simps)
      qed
      have c3: "tlen s2 ps = tlen st ps" "mtext s2 ps = mtext st ps"
        using bt s2(2,3) tp by (simp_all add: tlen_def mtext_def btext_def cong: map_cong)
      have c4: "0 \<le> len - n" "len - n \<le> tlen s2 ps" using n nb Cons.prems(5) c3(1) by simp_all
      obtain as bs st' where r: "ps = as @ bs"
        "pull_copy mp (len - n) (m_bcont (hdr st p)) (padd dst n) s2 = Some (opt_hd bs, padd (padd dst n) (len - n), st')"
        "mb_inv X st'" "pulled X mp as (padd dst n) s2 st'" "mtext st' bs = drop (nat (len - n)) (mtext st ps)"
        "mem_at st' (padd dst n) (len - n) = take (nat (len - n)) (mtext st ps)" "\<forall>q. q \<notin> set ps \<longrightarrow> hdr st' q = hdr s2 q"
        using Cons.IH [OF s2(1) c1 c2 c4] unfolding c3(2) by blast
      have "pull_copy mp len x dst st = Some (opt_hd bs, padd dst len, st')"
      proof -
        have "padd (padd dst n) (len - n) = padd dst len" by (simp add: padd_def)
        then show ?thesis using r(2) eqn True loop by (simp add: s2_def)
      qed
      moreover have "pulled X mp (p # as) dst st st'" using pulled_trans [OF step r(4) n(1)] by simp
      moreover have "mem_at st' dst n = btext st p"
      proof -
        have "mem_at st' dst n = mem_at s1 dst n"
          using r(4) s2(3) by (auto simp: mem_at_def pulled_def padd_def)
        then show ?thesis using f(8) [OF ne] nb by simp
      qed
      then have "mem_at st' dst len = take (nat len) (mtext st (p # ps))"
        using mem_at_split [OF n(1,3), of st' dst] r(6) n nb by (simp add: nat_diff_distrib)
      moreover have "mtext st' bs = drop (nat len) (mtext st (p # ps))" using r(5) n nb by (simp add: nat_diff_distrib)
      moreover have "\<forall>q. q \<notin> set (p # ps) \<longrightarrow> hdr st' q = hdr st q" using r(7) s2(2) f(6) [OF ne] by simp
      ultimately show ?thesis using r(1,3) by (intro exI [of _ "p # as"] exI [of _ bs] exI [of _ st']) simp
    qed
  qed
qed

end
