(* ===== verification/Strmb_Up.thy ===== *)
theory Strmb_Up imports Strmb_Pull begin

text \<open>
  \<open>pullupmsg\<close>: what it promises, the new buffer it gives the message's own data block and the new
  data block it gives a header that shares its own with others.
\<close>

section \<open>A new buffer for the message's own data block\<close>

text \<open>What \<open>pullupmsg\<close> promises when it succeeds with \<open>len\<close> bytes in the first block.\<close>

definition pull_done :: "mbst \<Rightarrow> mbp \<Rightarrow> mbp list \<Rightarrow> int \<Rightarrow> mbst \<Rightarrow> bool" where
  "pull_done st mp ps len st' \<longleftrightarrow> mbst_ok st' \<and>
     (\<exists>as bs. ps = as @ bs \<and> msg_ok {} st' (Some mp) (mp # bs) \<and> mtext st' (mp # bs) = mtext st ps \<and>
        (\<forall>q. live st' q \<longleftrightarrow> live st q \<and> (q \<in> set as \<longrightarrow> q = mp))) \<and>
     len \<le> blen (hdr st' mp) \<and> str_aligned st' (m_brptr (hdr st' mp)) \<and>
     m_bband (hdr st' mp) = m_bband (hdr st mp) \<and> m_bflag (hdr st' mp) = m_bflag (hdr st mp) \<and> btype st' mp = btype st mp \<and>
     (\<forall>q. live st q \<and> q \<notin> set ps \<longrightarrow> bview st' q = bview st q)"

lemma old_buf_facts:
  assumes ok: "mb_inv X st" and u: "used st d"
  shows "hdr (old_buf d st) = hdr st" "live (old_buf d st) = live st" "used (old_buf d st) = used st"
    "free_ok (old_buf d st) = free_ok st" "smem (old_buf d st) = smem st" "xaddr (old_buf d st) = xaddr st"
    "nkmem (old_buf d st) = nkmem st" "dat (old_buf d st) = (dat st)(d := (dat st d)\<lparr>d_dbfrtnp := None\<rparr>)"
    "kfreed (old_buf d st) = kfreed st @ buf_log (dat st d)"
proof -
  have b: "buf_ok st d (dat st d)" using mb_invD(3) [OF ok u] by (simp add: dat_ok_def)
  show "hdr (old_buf d st) = hdr st" "smem (old_buf d st) = smem st" "xaddr (old_buf d st) = xaddr st" "nkmem (old_buf d st) = nkmem st"
    by (auto simp: old_buf_def Let_def split: option.splits)
  show "live (old_buf d st) = live st" "used (old_buf d st) = used st" "free_ok (old_buf d st) = free_ok st"
    by (auto simp: old_buf_def Let_def live_def used_def free_ok_def fun_eq_iff split: option.splits mbp.splits)
  have n: "d_dbbase (dat st d) = (Fast d, 0) \<Longrightarrow> d_dbfrtnp (dat st d) = None" using b by (simp add: buf_ok_def)
  show "dat (old_buf d st) = (dat st)(d := (dat st d)\<lparr>d_dbfrtnp := None\<rparr>)"
    using n by (auto simp: old_buf_def Let_def fun_eq_iff split: option.splits intro!: datab.equality)
  show "kfreed (old_buf d st) = kfreed st @ buf_log (dat st d)"
    using b by (cases "d_dbbase (dat st d)")
      (auto simp: old_buf_def Let_def buf_log_def buf_ok_def split: option.splits buf.splits)
qed

lemma pulled_bview:
  assumes p: "pulled X mp as dst st st'" and q: "live st q" "used st (m_bdatap (hdr st q))"
    and h: "hdr st' q = hdr st q" and b: "fst (m_brptr (hdr st q)) \<noteq> fst dst"
  shows "bview st' q = bview st q"
proof -
  have "smem st' (fst (m_brptr (hdr st q)), k) = smem st (fst (m_brptr (hdr st q)), k)" for k using p b by (simp add: pulled_def)
  moreover have "dcore (dat st' e) = dcore (dat st e)" for e using p by (simp add: pulled_def)
  ultimately show ?thesis using h by (simp add: bview_def btext_def btype_def dcore_eq)
qed

lemma msg_src:
  assumes ok: "mbst_ok st" and m: "msg_ok {} st x ps" and q: "q \<in> set ps"
    and fresh: "\<And>e. used st e \<Longrightarrow> fst (d_dbbase (dat st e)) \<noteq> fst dst"
    and s: "hdr s = hdr st" "live s q" "q \<in> X \<longrightarrow> q = mp"
  shows "pull_src X mp dst s q"
proof -
  have l: "live st q" using m q by (simp add: msg_ok_def)
  then show ?thesis using live_span [OF ok l] live_used [OF ok l] fresh s
    by (simp add: pull_src_def span_ok_def blen_def)
qed

lemma bchain_suffix: "bchain h x (as @ bs) \<Longrightarrow> bchain h (opt_hd bs) bs"
proof (induction as arbitrary: x)
  case Nil
  then show ?case using bchain_hd [of h x bs] by simp
qed auto

lemma pull_done_intro:
  assumes m: "msg_ok {} st (Some mp) ps" and ps: "ps = as @ bs" "as \<noteq> []" and n: "0 \<le> n"
    and st2: "\<And>q. live st q \<Longrightarrow> hdr st2 q = hdr st q \<and> bview st2 q = bview st q \<and> fst (m_brptr (hdr st q)) \<noteq> fst dst"
    and p: "pulled X mp as dst st2 st3" "\<And>q. q \<notin> set ps \<Longrightarrow> hdr st3 q = hdr st2 q"
      "mtext st3 bs = drop (nat n) (mtext st ps)" "mem_at st3 dst n = take (nat n) (mtext st ps)"
    and f: "mbst_ok st'" "smem st' = smem st3" "\<And>q. live st q \<Longrightarrow> q \<noteq> mp \<Longrightarrow> hdr st' q = hdr st3 q"
      "hdr st' mp = (hdr st3 mp)\<lparr>m_bdatap := e, m_brptr := dst, m_bwptr := padd dst n, m_bcont := opt_hd bs\<rparr>"
      "\<And>q. live st q \<Longrightarrow> btype st' q = btype st3 q" "\<And>q. live st' q \<longleftrightarrow> live st q \<and> (q \<in> set as \<longrightarrow> q = mp)"
      "str_aligned st' dst"
  shows "pull_done st mp ps n st'"
proof -
  have ch: "bchain (hdr st) (Some mp) ps" and lv: "q \<in> set ps \<Longrightarrow> live st q" for q using m by (auto simp: msg_ok_def)
  have dist: "distinct (as @ bs)" using bchain_distinct [OF ch] ps by simp
  have hd: "hd as = mp" using ch ps by (cases as) auto
  then have mp: "mp \<in> set as" "mp \<notin> set bs" "live st mp" using ps dist lv by (auto simp: ps(1)) (metis hd_in_set IntI empty_iff)
  have nar: "narrowed (hdr st2 q) (hdr st3 q)" "dcore (dat st3 d) = dcore (dat st2 d)" for q d using p(1) by (simp_all add: pulled_def)
  have cont: "m_bcont (hdr st' q) = m_bcont (hdr st q)" "hdr st' q = hdr st3 q" "live st' q" if "q \<in> set bs" for q
  proof -
    have q: "live st q" "q \<noteq> mp" "q \<notin> set as" using that lv mp dist by (auto simp: ps(1))
    then show "m_bcont (hdr st' q) = m_bcont (hdr st q)" "hdr st' q = hdr st3 q" "live st' q"
      using f(3) [OF q(1,2)] st2 [OF q(1)] nar(1) [of q] f(6) by (simp_all add: narrowed_def del: live_simps)
  qed
  have "bchain (hdr st) (opt_hd bs) bs" using bchain_suffix [of "hdr st" "Some mp" as bs] ch ps by simp
  then have "bchain (hdr st') (opt_hd bs) bs" using cont(1) by (rule bchain_cong) auto
  then have "msg_ok {} st' (Some mp) (mp # bs)" using f(4,6) cont(3) mp by (auto simp: msg_ok_def simp del: live_simps)
  moreover have "mtext st' (mp # bs) = mtext st ps"
  proof -
    have "btext st' q = btext st3 q" if "q \<in> set bs" for q using cont(2) [OF that] f(2) by (simp add: btext_def)
    then have "mtext st' bs = mtext st3 bs" by (simp add: mtext_def cong: map_cong)
    moreover have "btext st' mp = mem_at st3 dst n" using f(2,4) by (simp add: btext_mem_at mem_at_def blen_def padd_def)
    ultimately show ?thesis using p(3,4) by simp
  qed
  moreover have "bview st' q = bview st q" if q: "live st q" "q \<notin> set ps" for q
  proof -
    have "q \<noteq> mp" using q(2) mp ps(1) by auto
    then have "hdr st' q = hdr st3 q" "hdr st3 q = hdr st2 q" using f(3) p(2) q by auto
    moreover have "btext st3 q = btext st2 q" using p(1) calculation(2) st2 [OF q(1)] by (simp add: btext_def pulled_def)
    moreover have "btype st3 q = btype st2 q" using nar(2) calculation(2) by (simp add: btype_def dcore_eq)
    moreover have "btext st' q = btext st3 q" using f(2) calculation(1) by (simp add: btext_def)
    ultimately show ?thesis using st2 [OF q(1)] f(5) [OF q(1)] by (simp add: bview_def)
  qed
  moreover have "btype st3 mp = btype st2 mp" using nar by (simp add: btype_def dcore_eq narrowed_def)
  ultimately show ?thesis unfolding pull_done_def
    using f ps mp st2 [OF mp(3)] nar(1) [of mp] by (auto simp: bview_def narrowed_def blen_def padd_def simp del: live_simps)
qed

lemma pull_own_spec:
  assumes ok: "mbst_ok st" and m: "msg_ok {} st (Some mp) ps" and d: "m_bdatap (hdr st mp) = d" and ref: "refs {} st d = {mp}"
    and n: "0 < n" "blen (hdr st mp) \<le> n" "n \<le> tlen st ps"
  shows "\<exists>r st'. pull_own mp n st = Some (r, st') \<and>
    (r = 0 \<and> mbst_ok st' \<and> grown {} {} st st' \<and> mem_left st < 2 \<or> r = 1 \<and> pull_done st mp ps n st')"
proof -
  obtain b st1 where k: "kmem_alloc st = (b, st1)" by fastforce
  note kf = kmem_alloc_facts [OF k]
  have c: "same_core st st1" using kf by blast
  show ?thesis
  proof (cases b)
    case False
    then have "pull_own mp n st = Some (0, st1)" using k by (simp add: pull_own_def)
    moreover have "mbst_ok st1" by (rule mb_inv_core [OF ok c]) (use kf mb_invD(1) [OF ok] in simp_all)
    moreover have "grown {} {} st st1" by (rule grown_core [OF c]) (use kf in simp_all)
    moreover have "mem_left st < 2" using kmem_alloc_left [OF k] False by fastforce
    ultimately show ?thesis by blast
  next
    case True
    have lm: "live st mp" and pm: "mp \<in> set ps" "hd ps = mp" using m by (auto simp: msg_ok_def bchain_Some)
    have ud: "used st d" using live_used [OF ok lm] d by simp
    let ?new = "(Kmem (nkmem st), 0) :: ptr"
    define st2 where "st2 = upd_dat d (\<lambda>db. db\<lparr>d_dbsize := n\<rparr>) (st1\<lparr>nkmem := nkmem st1 + 1, mstrcount := mstrcount st1 + n\<rparr>)"
    have s2: "hdr st2 = hdr st" "dat st2 = (dat st)(d := (dat st d)\<lparr>d_dbsize := n\<rparr>)" "smem st2 = smem st" "xaddr st2 = xaddr st"
      "nkmem st2 = nkmem st + 1" "kfreed st2 = kfreed st" using c by (simp_all add: st2_def same_core_def)
    have lu: "live st2 q = live st q" "used st2 e = used st e" "free_ok st2" for q e
      using kf mb_invD(1) [OF ok] by (cases q; auto simp: st2_def same_core_def used_def free_ok_def)+
    have bd: "buf_ok st d (dat st d)" using mb_invD(3) [OF ok ud] by (simp add: dat_ok_def)
    have fresh: "fst (d_dbbase (dat st e)) \<noteq> fst ?new" if "used st e" for e
      using mb_invD(3) [OF ok that] by (auto simp: dat_ok_def buf_ok_def)
    have ok2: "mbst_ok st2"
    proof (rule mb_inv_rebuf [OF ok lm _ d ref, where L = "[]"])
      show "buf_ok st2 d (dat st2 d)" using bd by (auto simp: buf_ok_def s2 split: buf.splits)
      show "\<And>e j. used st e \<Longrightarrow> e \<noteq> d \<Longrightarrow> fst (d_dbbase (dat st2 d)) = Kmem j \<Longrightarrow> fst (d_dbbase (dat st e)) \<noteq> Kmem j"
        using mb_invD(4) [OF ok] ud unfolding bufs_apart_def by (auto simp: s2)
    qed (use d live_span [OF ok lm] lu in \<open>simp_all add: s2 span_ok_def del: live_simps\<close>)
    have r2: "refs {} st2 e = refs {} st e" for e using lu(1) by (simp add: refs_def s2)
    have bt2: "btext st2 = btext st" by (simp add: btext_def s2 fun_eq_iff)
    have "pull_src {} mp ?new st2 q" if "q \<in> set ps" for q
      using msg_src [OF ok m that fresh s2(1)] lu(1) m that by (auto simp: msg_ok_def simp del: live_simps)
    moreover have "bchain (hdr st2) (Some mp) ps" "tlen st2 ps = tlen st ps" "mtext st2 ps = mtext st ps"
      using m bt2 by (simp_all add: s2 msg_ok_def tlen_def mtext_def)
    ultimately obtain as bs st3 where r: "ps = as @ bs" "pull_copy mp n (Some mp) ?new st2 = Some (opt_hd bs, padd ?new n, st3)"
      "mbst_ok st3" "pulled {} mp as ?new st2 st3" "mtext st3 bs = drop (nat n) (mtext st ps)" "mem_at st3 ?new n = take (nat n) (mtext st ps)"
      "\<forall>q. q \<notin> set ps \<longrightarrow> hdr st3 q = hdr st2 q" "as \<noteq> []"
      using pull_copy_spec [OF ok2, of "Some mp" ps mp ?new n] n pm by (auto simp: s2)
    define st4 where "st4 = set_cont mp (opt_hd bs) st3"
    define st5 where "st5 = upd_dat d (\<lambda>db. db\<lparr>d_dbbase := ?new, d_dblim := padd ?new (d_dbsize db)\<rparr>)
      (upd_hdr mp (\<lambda>b. b\<lparr>m_brptr := ?new, m_bwptr := padd ?new n\<rparr>) (old_buf d st4))"
    have nk: "nkmem st1 = nkmem st" using c by (simp add: same_core_def)
    have own: "pull_own mp n st = Some (1, st5)"
      using k True r(2) nk d unfolding st2_def by (simp add: pull_own_def Let_def st4_def st5_def)
    have ok4: "mbst_ok st4" unfolding st4_def by (rule set_cont_ok [OF r(3)])
    have mpa: "mp \<in> set as" "mp \<notin> set bs"
    proof -
      have "distinct ps" using m bchain_distinct by (auto simp: msg_ok_def)
      moreover have "hd as = mp" using r(1,8) pm by (cases as) auto
      ultimately show "mp \<in> set as" "mp \<notin> set bs" using r(1,8) hd_in_set [OF r(8)] by auto
    qed
    have h3: "m_bdatap (hdr st3 q) = m_bdatap (hdr st q)" for q using pulled_hdr [OF r(4)] by (simp add: s2)
    have l3: "live st3 q \<longleftrightarrow> live st q \<and> (q \<in> set as \<longrightarrow> q = mp)" for q using r(4) lu(1) by (simp add: pulled_def)
    have d3: "dcore (dat st3 e) = dcore (dat st2 e)" for e using r(4) by (simp add: pulled_def)
    have lu4: "live st4 q = live st3 q" "used st4 e = used st3 e" for q e by (simp_all add: st4_def set_cont_def upd_hdr_use)
    have h4: "hdr st4 = (hdr st3)(mp := (hdr st3 mp)\<lparr>m_bcont := opt_hd bs\<rparr>)" "dat st4 = dat st3" "smem st4 = smem st3"
      "nkmem st4 = nkmem st3" "kfreed st4 = kfreed st3" "xaddr st4 = xaddr st3" by (simp_all add: st4_def set_cont_def)
    have lm4: "live st4 mp" using lu4 l3 lm by simp
    have d4: "m_bdatap (hdr st4 mp) = d" using h3 d by (simp add: h4)
    have ref4: "refs {} st4 d = {mp}"
    proof -
      have "refs {} st4 e = refs {} st3 e" for e using lu4 by (auto simp: refs_def h4)
      then show ?thesis using pulled_refs [OF r(4), of d] ref r2 by auto
    qed
    have u4: "used st4 d" using live_used [OF ok4 lm4] d4 by simp
    note ob = old_buf_facts [OF ok4 u4]
    have t5: "hdr st5 = (hdr st4)(mp := (hdr st4 mp)\<lparr>m_brptr := ?new, m_bwptr := padd ?new n\<rparr>)"
      "smem st5 = smem st3" "xaddr st5 = xaddr st" "nkmem st5 = nkmem st + 1" "kfreed st5 = kfreed st4 @ buf_log (dat st4 d)"
      using ob h4 s2(4,5) r(4) by (simp_all add: st5_def pulled_def)
    have "d_dbsize (dat st3 d) = n" using d3 [of d] by (simp add: s2(2) dcore_eq)
    then have t5d: "dat st5 = (dat st3)(d := (dat st3 d)\<lparr>d_dbfrtnp := None, d_dbbase := ?new, d_dblim := padd ?new n\<rparr>)"
      using ob(8) h4(2) by (simp add: st5_def)
    have l5: "live st5 q = live st4 q" "used st5 e = used st4 e" "free_ok st5" for q e
    proof -
      have "live st5 q = live (old_buf d st4) q" "used st5 e = used (old_buf d st4) e" "free_ok st5 = free_ok (old_buf d st4)"
        by (cases q) (simp_all add: st5_def used_def free_ok_def)
      then show "live st5 q = live st4 q" "used st5 e = used st4 e" "free_ok st5"
        using ob(2-4) mb_invD(1) [OF ok4] by simp_all
    qed
    have k5: "(Kmem (nkmem st), 0) \<notin> fst ` set (kfreed st5)"
    proof -
      obtain L where L: "kfreed st4 = kfreed st @ L" "\<forall>(b, n)\<in>set L. \<exists>e. used st2 e \<and> b = d_dbbase (dat st2 e)"
        using r(4) by (auto simp: pulled_def h4 s2)
      have "b \<noteq> ?new" if "(b, k) \<in> set L" for b k
        using L(2) that fresh lu(2) by (fastforce simp: s2 split: if_splits)
      moreover have "b \<noteq> ?new" if "(b, k) \<in> set (buf_log (dat st4 d))" for b k
        using buf_log_mem(1) [OF ok4 u4 that] d3 [of d] fresh [OF ud] by (auto simp: h4 s2 dcore_eq)
      moreover have "b \<noteq> ?new" if "(b, k) \<in> set (kfreed st)" for b k using mb_invD(5) [OF ok that] by auto
      ultimately have "b \<noteq> ?new" if "(b, k) \<in> set (kfreed st5)" for b k
        using that unfolding t5(5) L(1) by (metis Un_iff set_append)
      then show ?thesis by (metis imageE prod.collapse)
    qed
    have ok5: "mbst_ok st5"
    proof (rule mb_inv_rebuf [OF ok4 lm4 _ d4 ref4, where L = "buf_log (dat st4 d)"])
      show "buf_ok st5 d (dat st5 d)" using k5 by (simp add: buf_ok_def t5d t5(4) padd_def)
      show "\<And>e j. used st4 e \<Longrightarrow> e \<noteq> d \<Longrightarrow> fst (d_dbbase (dat st5 d)) = Kmem j \<Longrightarrow> fst (d_dbbase (dat st4 e)) \<noteq> Kmem j"
      proof -
        fix e j assume e: "used st4 e" "e \<noteq> d" "fst (d_dbbase (dat st5 d)) = Kmem j"
        then have "used st e" using lu4 lu(2) r(4) by (simp add: pulled_def)
        then show "fst (d_dbbase (dat st4 e)) \<noteq> Kmem j" using fresh d3 [of e] e by (auto simp: t5d h4 s2 dcore_eq)
      qed
    qed (use d4 n l5 t5 t5d r(4) in \<open>simp_all add: h4 s2 span_ok_def padd_def pulled_def del: live_simps\<close>)
    have "pull_done st mp ps n st5"
    proof (rule pull_done_intro [where dst = ?new and as = as and bs = bs and ?st2.0 = st2 and ?st3.0 = st3 and X = "{}" and e = d])
      fix q assume q: "live st q"
      have "btype st2 q = btype st q" by (simp add: btype_def s2)
      then show "hdr st2 q = hdr st q \<and> bview st2 q = bview st q \<and> fst (m_brptr (hdr st q)) \<noteq> fst ?new"
        using bt2 live_span [OF ok q] fresh [OF live_used [OF ok q]] by (simp add: bview_def s2 span_ok_def)
      show "q \<noteq> mp \<Longrightarrow> hdr st5 q = hdr st3 q" by (simp add: t5 h4)
      show "btype st5 q = btype st3 q" by (simp add: btype_def t5 t5d h4)
    next
      show "live st5 q \<longleftrightarrow> live st q \<and> (q \<in> set as \<longrightarrow> q = mp)" for q using l5(1) lu4(1) l3 by simp
      show "str_aligned st5 ?new" by (simp add: str_aligned_def baddr_def)
      show "hdr st5 mp = (hdr st3 mp)\<lparr>m_bdatap := d, m_brptr := ?new, m_bwptr := padd ?new n, m_bcont := opt_hd bs\<rparr>"
        using h3 [of mp] d by (simp add: t5 h4)
    qed (use m r n ok5 t5 in auto)
    then show ?thesis using own by blast
  qed
qed

section \<open>A new data block for a shared one\<close>

text \<open>The header \<open>mp\<close> lets go of its data block \<open>d\<close>, which others have too.\<close>

lemma detach_ok:
  assumes ok: "mbst_ok st" and mp: "live st mp" "m_bdatap (hdr st mp) = d" "refs {} st d \<noteq> {mp}"
    and s: "hdr st' = hdr st" "\<And>q. live st' q = live st q" "\<And>e. used st' e = used st e" "free_ok st'"
      "nkmem st' = nkmem st" "kfreed st' = kfreed st"
    and dd: "\<And>e. d_dbfrtnp (dat st' e) = d_dbfrtnp (dat st e) \<and> d_dbbase (dat st' e) = d_dbbase (dat st e) \<and>
        d_dblim (dat st' e) = d_dblim (dat st e) \<and> d_dbmsgaddr (dat st' e) = d_dbmsgaddr (dat st e)"
      "\<And>e. d_dbref (dat st' e) = (if e = d then d_dbref (dat st e) - 1 else d_dbref (dat st e))"
  shows "mb_inv {mp} st'"
proof -
  have r: "refs {mp} st' e = refs {} st e - {mp}" for e using s(1,2) by (auto simp: refs_def)
  have ud: "used st d" using live_used [OF ok mp(1)] mp(2) by simp
  have pin: "mp \<in> refs {} st e \<longleftrightarrow> e = d" for e using mp by (auto simp: refs_def)
  have "hdr_ok st' q" if "live st q" "q \<noteq> mp" for q
    using mb_invD(2) [OF ok that(1)] s dd(1) by (simp add: hdr_ok_def span_ok_def)
  moreover have "dat_ok {mp} st' e" if u: "used st e" for e
  proof -
    have o: "refs {} st e \<noteq> {}" "unat (d_dbref (dat st e)) = card (refs {} st e)" "buf_ok st e (dat st e)"
      using mb_invD(3) [OF ok u] by (simp_all add: dat_ok_def)
    have "buf_ok st' e (dat st' e)" using o(3) dd(1) [of e] s(5,6) by (auto simp: buf_ok_def split: buf.splits)
    moreover have "refs {} st e - {mp} \<noteq> {}" using o(1) mp(3) pin [of e] by (cases "e = d") auto
    moreover have "unat (d_dbref (dat st' e)) = card (refs {} st e - {mp})"
    proof (cases "e = d")
      case True
      then have "0 < card (refs {} st d)" using o(1) by (simp add: card_gt_0_iff)
      then show ?thesis using True pin [of d] o(2) by (simp add: dd(2) unat_sub_le word_le_nat_alt card_Diff_singleton)
    next
      case False
      then show ?thesis using pin [of e] o(2) by (simp add: dd(2))
    qed
    ultimately show ?thesis by (simp add: dat_ok_def r)
  qed
  moreover have "bufs_apart st'" using mb_invD(4) [OF ok] s(3) dd(1) by (simp add: bufs_apart_def)
  ultimately show ?thesis using ok s by (simp add: mb_inv_def)
qed

text \<open>It takes the data block \<open>i\<close> over from the header of the new triplet.\<close>

lemma attach_ok:
  assumes ok: "mb_inv {mp} st" and mp: "live st mp" and i: "live st (Trip i)" "mp \<noteq> Trip i" "refs {mp} st i = {Trip i}"
    and s: "\<And>q. q \<noteq> mp \<Longrightarrow> q \<noteq> Trip i \<Longrightarrow> hdr st' q = hdr st q" "m_bdatap (hdr st' mp) = i"
      "\<And>q. live st' q \<longleftrightarrow> live st q \<and> q \<noteq> Trip i" "\<And>e. used st' e = used st e" "free_ok st'"
      "nkmem st' = nkmem st" "kfreed st' = kfreed st"
    and dd: "\<And>e. d_dbfrtnp (dat st' e) = d_dbfrtnp (dat st e) \<and> d_dbbase (dat st' e) = d_dbbase (dat st e) \<and>
        d_dblim (dat st' e) = d_dblim (dat st e) \<and> d_dbref (dat st' e) = d_dbref (dat st e)"
      "\<And>e. e \<noteq> i \<Longrightarrow> d_dbmsgaddr (dat st' e) = d_dbmsgaddr (dat st e)"
    and m: "\<And>k. mp = Trip k \<Longrightarrow> d_dbmsgaddr (dat st' i) = k" "span_ok (hdr st' mp) (dat st' i)"
  shows "mbst_ok st'"
proof -
  have i2: "m_bdatap (hdr st (Trip i)) = i"
  proof -
    have "Trip i \<in> refs {mp} st i" using i(3) by simp
    then show ?thesis by (simp add: refs_def)
  qed
  have ui: "used st i" using mb_invD(2) [OF ok i(1)] i(2) i2 by (auto simp: hdr_ok_def)
  have other: "m_bdatap (hdr st q) \<noteq> i" if "live st q" "q \<noteq> mp" "q \<noteq> Trip i" for q
    using i(3) that by (auto simp: refs_def)
  have r: "refs {} st' e = (if e = i then {mp} else refs {mp} st e)" for e
  proof -
    have "q \<in> refs {} st' e \<longleftrightarrow> (if e = i then q = mp else q \<in> refs {mp} st e)" for q
    proof -
      consider "q = mp" | "q = Trip i" | "q \<noteq> mp" "q \<noteq> Trip i" by blast
      then show ?thesis
      proof cases
        case 1
        then show ?thesis using mp i(2) s(2,3) by (simp add: refs_def del: live_simps)
      next
        case 2
        then show ?thesis using i(2) i2 s(3) by (auto simp: refs_def simp del: live_simps)
      next
        case 3
        then show ?thesis using other [of q] s(1) [OF 3] s(3) by (auto simp: refs_def simp del: live_simps)
      qed
    qed
    then show ?thesis by (intro set_eqI) (simp del: live_simps)
  qed
  have "hdr_ok st' q" if "live st' q" for q
  proof (cases "q = mp")
    case True
    then show ?thesis using m s(2,4) ui by (auto simp: hdr_ok_def)
  next
    case False
    then have q: "live st q" "q \<noteq> Trip i" using that s(3) by auto
    then show ?thesis using mb_invD(2) [OF ok q(1)] False s(1) [OF False q(2)] s(4) dd other [OF q(1) False q(2)]
      by (auto simp: hdr_ok_def span_ok_def)
  qed
  moreover have "dat_ok {} st' e" if u: "used st e" for e
  proof -
    have o: "refs {mp} st e \<noteq> {}" "unat (d_dbref (dat st e)) = card (refs {mp} st e)" "buf_ok st e (dat st e)"
      using mb_invD(3) [OF ok u] by (simp_all add: dat_ok_def)
    have "buf_ok st' e (dat st' e)" using o(3) dd(1) [of e] s(6,7) by (auto simp: buf_ok_def split: buf.splits)
    then show ?thesis using o i(3) dd(1) [of e] by (simp add: dat_ok_def r)
  qed
  moreover have "bufs_apart st'" using mb_invD(4) [OF ok] s(4) dd(1) by (simp add: bufs_apart_def)
  ultimately show ?thesis using ok s by (simp add: mb_inv_def)
qed

lemma take_over_fields:
  assumes "mp \<noteq> Trip i"
  shows "hdr (take_over mp i d wp rest st) q =
      (if q = mp then (hdr st mp)\<lparr>m_bdatap := m_bdatap (hdr st (Trip i)), m_brptr := m_brptr (hdr st (Trip i)), m_bwptr := wp, m_bcont := rest\<rparr>
       else if q = Trip i then (hdr st (Trip i))\<lparr>m_bwptr := wp, m_bband := m_bband (hdr st mp), m_bflag := m_bflag (hdr st mp)\<rparr>
       else hdr st q)"
    "d_dbfrtnp (dat (take_over mp i d wp rest st) e) = d_dbfrtnp (dat st e)" "d_dbbase (dat (take_over mp i d wp rest st) e) = d_dbbase (dat st e)"
    "d_dblim (dat (take_over mp i d wp rest st) e) = d_dblim (dat st e)" "d_dbref (dat (take_over mp i d wp rest st) e) = d_dbref (dat st e)"
    "d_dbtype (dat (take_over mp i d wp rest st) e) = d_dbtype (dat st e)"
    "d_dbmsgaddr (dat (take_over mp i d wp rest st) e) =
      (if e = i \<and> Trip (d_dbmsgaddr (dat st d)) = mp then d_dbmsgaddr (dat st d) else d_dbmsgaddr (dat st e))"
    "d_dbiswhat (dat (take_over mp i d wp rest st) e) =
      (if e = i then NOT_M else if Trip e = mp \<and> d_dbmsgaddr (dat st d) = e \<and> d_dbiswhat (dat st e) \<noteq> NOT_D then XCONN else d_dbiswhat (dat st e))"
    "smem (take_over mp i d wp rest st) = smem st" "xaddr (take_over mp i d wp rest st) = xaddr st"
    "nkmem (take_over mp i d wp rest st) = nkmem st" "kfreed (take_over mp i d wp rest st) = kfreed st"
    "nsep (take_over mp i d wp rest st) = nsep st" "ntrip (take_over mp i d wp rest st) = ntrip st"
    "msgfreelist (take_over mp i d wp rest st) = msgfreelist st" "mdbfreelist (take_over mp i d wp rest st) = mdbfreelist st"
    "msgblock (take_over mp i d wp rest st) = msgblock st" "mdbblock (take_over mp i d wp rest st) = mdbblock st"
  using assms by (simp_all add: take_over_def Let_def)

lemma take_over_use:
  assumes "mp \<noteq> Trip i" "live st mp" "used st i"
  shows "live (take_over mp i d wp rest st) q \<longleftrightarrow> live st q \<and> q \<noteq> Trip i" "used (take_over mp i d wp rest st) e = used st e"
    "free_ok (take_over mp i d wp rest st) = free_ok st"
proof -
  note f = take_over_fields [OF assms(1), of d wp rest st]
  show "live (take_over mp i d wp rest st) q \<longleftrightarrow> live st q \<and> q \<noteq> Trip i"
    using assms(2) by (cases q) (auto simp: f(8,13-16))
  show "used (take_over mp i d wp rest st) e = used st e" using assms(3) by (auto simp: used_def f(8,14,16))
  show "free_ok (take_over mp i d wp rest st) = free_ok st" by (simp add: free_ok_def f(13-18))
qed

lemma take_over_ok:
  assumes ok: "mb_inv {mp} st" and mp: "live st mp" and i: "live st (Trip i)" "mp \<noteq> Trip i" "refs {mp} st i = {Trip i}"
    and own: "\<And>k. mp = Trip k \<Longrightarrow> d_dbmsgaddr (dat st d) = k"
    and b: "m_brptr (hdr st (Trip i)) = d_dbbase (dat st i)" "wp = padd (d_dbbase (dat st i)) n" "0 \<le> n"
      "snd (d_dbbase (dat st i)) + n \<le> snd (d_dblim (dat st i))"
  shows "mbst_ok (take_over mp i d wp rest st)"
proof -
  have i2: "m_bdatap (hdr st (Trip i)) = i"
  proof -
    have "Trip i \<in> refs {mp} st i" using i(3) by simp
    then show ?thesis by (simp add: refs_def)
  qed
  have ui: "used st i" using mb_invD(2) [OF ok i(1)] i(2) i2 by (auto simp: hdr_ok_def)
  have wp: "fst wp = fst (d_dbbase (dat st i))" "snd wp = snd (d_dbbase (dat st i)) + n" using b(2) by (simp_all add: padd_def)
  note f = take_over_fields [OF i(2), of d wp rest st]
  note u = take_over_use [OF i(2) mp ui]
  show ?thesis
  proof (rule attach_ok [OF ok mp i])
    show "span_ok (hdr (take_over mp i d wp rest st) mp) (dat (take_over mp i d wp rest st) i)"
      using b(1,3,4) wp by (simp add: span_ok_def f(1,3,4))
    show "d_dbmsgaddr (dat (take_over mp i d wp rest st) i) = k" if "mp = Trip k" for k
      using own [OF that] that f(7) [of i] by simp
    show "free_ok (take_over mp i d wp rest st)" using u(3) mb_invD(1) [OF ok] by simp
  qed (use own i2 in \<open>simp_all add: f u del: live_simps\<close>)
qed

lemma pull_shared_spec:
  assumes ok: "mbst_ok st" and m: "msg_ok {} st (Some mp) ps" and d: "m_bdatap (hdr st mp) = d" and ref: "refs {} st d \<noteq> {mp}"
    and n: "0 < n" "blen (hdr st mp) \<le> n" "n \<le> tlen st ps"
  shows "\<exists>r st'. pull_shared mp n st = Some (r, st') \<and>
    (r = 0 \<and> mbst_ok st' \<and> grown {} {} st st' \<and> mem_left st < 2 \<or> r = 1 \<and> pull_done st mp ps n st')"
proof -
  obtain r1 st1 where al: "allocb n st = (r1, st1)" by fastforce
  note af = allocb_facts [OF ok al]
  show ?thesis
  proof (cases r1)
    case None
    then have "pull_shared mp n st = Some (0, st1)" using al by (simp add: pull_shared_def Let_def)
    then show ?thesis using af None allocb_left [OF al] by (auto simp: not_le [symmetric])
  next
    case (Some i)
    then have nb: "new_block st i n st1" using af by simp
    then have a: "mbst_ok st1" "grown {Trip i} {i} st st1" "refs {} st1 i = {Trip i}" "m_brptr (hdr st1 (Trip i)) = d_dbbase (dat st1 i)"
      "m_bwptr (hdr st1 (Trip i)) = d_dbbase (dat st1 i)" "m_bdatap (hdr st1 (Trip i)) = i"
      "snd (d_dbbase (dat st1 i)) = 0" "n \<le> snd (d_dblim (dat st1 i))" "\<And>k. fst (d_dbbase (dat st1 i)) \<noteq> Ext k"
      "\<And>e. used st e \<Longrightarrow> fst (d_dbbase (dat st e)) \<noteq> fst (d_dbbase (dat st1 i))"
      by (auto simp: new_block_def)
    have lm: "live st mp" and pm: "mp \<in> set ps" "hd ps = mp" using m by (auto simp: msg_ok_def bchain_Some)
    have ud: "used st d" using live_used [OF ok lm] d by simp
    have g1: "\<And>q. live st1 q \<longleftrightarrow> live st q \<or> q = Trip i" "\<And>e. used st1 e \<longleftrightarrow> used st e \<or> e = i" "\<not> live st (Trip i)" "\<not> used st i"
      "\<And>q. live st q \<Longrightarrow> hdr st1 q = hdr st q" "\<And>e. used st e \<Longrightarrow> dcore (dat st1 e) = dcore (dat st e)"
      using a(2) unfolding grown_def by auto
    have di: "d \<noteq> i" "mp \<noteq> Trip i" using ud lm g1(3,4) by blast+
    let ?new = "d_dbbase (dat st1 i)"
    define st2 where "st2 = upd_dat d (\<lambda>db. db\<lparr>d_dbref := d_dbref db - 1\<rparr>) (upd_dat i (\<lambda>db. db\<lparr>d_dbtype := d_dbtype (dat st1 d)\<rparr>) st1)"
    have s2: "hdr st2 = hdr st1" "smem st2 = smem st1" "xaddr st2 = xaddr st1" "nkmem st2 = nkmem st1" "kfreed st2 = kfreed st1"
      "btype st2 q = (if m_bdatap (hdr st1 q) = i then d_dbtype (dat st1 d) else btype st1 q)"
      "d_dbbase (dat st2 e) = d_dbbase (dat st1 e)" "d_dblim (dat st2 e) = d_dblim (dat st1 e)" "d_dbmsgaddr (dat st2 e) = d_dbmsgaddr (dat st1 e)" for q e
      using di by (auto simp: st2_def btype_def)
    have lu2: "live st2 q = live st1 q" "used st2 e = used st1 e" "free_ok st2" for q e
      using mb_invD(1) [OF a(1)] by (cases q; simp add: st2_def used_def free_ok_def)+
    have lm1: "live st1 mp" and d1: "m_bdatap (hdr st1 mp) = d" using g1 lm d by (auto simp del: live_simps)
    have ref1: "refs {} st1 d \<noteq> {mp}"
    proof -
      obtain q where "q \<in> refs {} st d" "q \<noteq> mp" using ref lm d by (auto simp: refs_def)
      then have "q \<in> refs {} st1 d" using g1 by (auto simp: refs_def simp del: live_simps)
      then show ?thesis using \<open>q \<noteq> mp\<close> by blast
    qed
    have ok2: "mb_inv {mp} st2"
      by (rule detach_ok [OF a(1) lm1 d1 ref1]) (use lu2 s2 di in \<open>auto simp: st2_def simp del: live_simps\<close>)
    have bt2: "bview st2 q = bview st q" "hdr st2 q = hdr st q" if "live st q" for q
    proof -
      have "m_bdatap (hdr st1 q) \<noteq> i" using live_used [OF ok that] g1(4,5) that by auto
      then show "bview st2 q = bview st q" "hdr st2 q = hdr st q"
        using grown_bview [OF ok a(2) that] g1(5) that s2 by (auto simp: bview_def btext_def)
    qed
    have psl: "live st q" if "q \<in> set ps" for q using m that by (simp add: msg_ok_def)
    have out: "fst (m_brptr (hdr st q)) \<noteq> fst ?new" if "live st q" for q
      using live_span [OF ok that] a(10) [OF live_used [OF ok that]] by (simp add: span_ok_def)
    have "pull_src {mp} mp ?new st2 q" if q: "q \<in> set ps" for q
    proof -
      have l: "live st q" by (rule psl [OF q])
      then have "live st2 q" using lu2(1) g1(1) by blast
      then show ?thesis using live_span [OF ok l] out [OF l] bt2(2) [OF l]
        by (simp add: pull_src_def span_ok_def blen_def del: live_simps)
    qed
    moreover have "bchain (hdr st2) (Some mp) ps"
      by (rule bchain_cong [of "hdr st"]) (use m bt2(2) psl in \<open>auto simp: msg_ok_def\<close>)
    moreover have tl: "tlen st2 ps = tlen st ps" "mtext st2 ps = mtext st ps"
    proof -
      have "btext st2 q = btext st q" if "q \<in> set ps" for q using bt2(1) [OF psl [OF that]] by (simp add: bview_def)
      then show "mtext st2 ps = mtext st ps" by (simp add: mtext_def cong: map_cong)
      show "tlen st2 ps = tlen st ps" using bt2(2) psl by (simp add: tlen_def cong: map_cong)
    qed
    ultimately obtain as bs st3 where r: "ps = as @ bs" "pull_copy mp n (Some mp) ?new st2 = Some (opt_hd bs, padd ?new n, st3)"
      "mb_inv {mp} st3" "pulled {mp} mp as ?new st2 st3" "mtext st3 bs = drop (nat n) (mtext st ps)" "mem_at st3 ?new n = take (nat n) (mtext st ps)"
      "\<forall>q. q \<notin> set ps \<longrightarrow> hdr st3 q = hdr st2 q" "as \<noteq> []"
      using pull_copy_spec [OF ok2, of "Some mp" ps mp ?new n] n pm bt2(2) [OF lm] by auto
    define st' where "st' = take_over mp i d (padd ?new n) (opt_hd bs) st3"
    have own: "pull_shared mp n st = Some (1, st')"
      using al Some d r(2) a(5) by (simp add: pull_shared_def Let_def st2_def st'_def)
    have l3: "live st3 q \<longleftrightarrow> (live st q \<or> q = Trip i) \<and> (q \<in> set as \<longrightarrow> q = mp)" for q
      using r(4) lu2(1) g1(1) by (simp add: pulled_def del: live_simps)
    have ia: "Trip i \<notin> set ps" using psl g1(3) by blast
    have p3: "live st3 mp" "live st3 (Trip i)" using l3 [of mp] l3 [of "Trip i"] lm ia r(1) di(2) by (simp_all del: live_simps)
    have r3: "refs {mp} st3 i = {Trip i}"
    proof -
      have "refs {mp} st2 i = refs {} st1 i - {mp}" using lu2(1) by (auto simp: refs_def s2)
      then show ?thesis using pulled_refs [OF r(4), of i] a(3) di(2) ia r(1) by auto
    qed
    have h3: "hdr st3 (Trip i) = hdr st1 (Trip i)" using r(7) ia s2(1) by simp
    have d3: "dcore (dat st3 e) = dcore (dat st2 e)" for e using r(4) by (simp add: pulled_def)
    then have d3': "d_dbbase (dat st3 e) = d_dbbase (dat st1 e)" "d_dblim (dat st3 e) = d_dblim (dat st1 e)"
      "d_dbmsgaddr (dat st3 e) = d_dbmsgaddr (dat st1 e)" for e using s2(7-9) by (simp_all add: dcore_eq)
    have ow: "d_dbmsgaddr (dat st3 d) = k" if "mp = Trip k" for k
      using mb_invD(2) [OF a(1) lm1] that d1 d3'(3) by (auto simp: hdr_ok_def)
    have ok': "mbst_ok st'" unfolding st'_def
      by (rule take_over_ok [OF r(3) p3(1,2) di(2) r3 ow]) (use a n h3 d3' in simp_all)
    have ui: "used st3 i" using mb_invD(2) [OF r(3) p3(2)] di(2) h3 a(6) by (auto simp: hdr_ok_def)
    note f = take_over_fields [OF di(2), of d "padd ?new n" "opt_hd bs" st3, folded st'_def]
    note u = take_over_use [OF di(2) p3(1) ui, of d "padd ?new n" "opt_hd bs", folded st'_def]
    have tm: "m_bdatap (hdr st3 mp) = d" "d_dbtype (dat st3 i) = d_dbtype (dat st3 d)"
      using pulled_hdr [OF r(4)] d1 d3 di(1) by (simp_all add: s2(1) dcore_eq) (simp add: st2_def)
    have "pull_done st mp ps n st'"
    proof (rule pull_done_intro [where dst = ?new and as = as and bs = bs and ?st2.0 = st2 and ?st3.0 = st3 and X = "{mp}" and e = i])
      fix q assume q: "live st q"
      show "hdr st2 q = hdr st q \<and> bview st2 q = bview st q \<and> fst (m_brptr (hdr st q)) \<noteq> fst ?new"
        using bt2 [OF q] out [OF q] by simp
      have "q \<noteq> Trip i" using q g1(3) by blast
      then show "q \<noteq> mp \<Longrightarrow> hdr st' q = hdr st3 q" using f(1) by simp
      show "btype st' q = btype st3 q" using f(1) [of q] f(6) h3 a(6) tm \<open>q \<noteq> Trip i\<close> by (cases "q = mp") (simp_all add: btype_def)
    next
      show "live st' q \<longleftrightarrow> live st q \<and> (q \<in> set as \<longrightarrow> q = mp)" for q using u(1) l3 [of q] g1(3) di(2) by blast
      show "hdr st' mp = (hdr st3 mp)\<lparr>m_bdatap := i, m_brptr := ?new, m_bwptr := padd ?new n, m_bcont := opt_hd bs\<rparr>"
        using f(1) [of mp] h3 a(4,6) by simp
      show "str_aligned st' ?new"
        using a(7,9) by (simp add: str_aligned_def baddr_def split: buf.splits)
    qed (use m r n ok' f tl in simp_all)
    then show ?thesis using own by blast
  qed
qed

section \<open>The whole of pullupmsg\<close>

lemma pull_done_same:
  assumes ok: "mbst_ok st" and m: "msg_ok {} st (Some mp) ps" and n: "n \<le> blen (hdr st mp)" and a: "str_aligned st (m_brptr (hdr st mp))"
  shows "pull_done st mp ps n st"
proof -
  obtain bs where "ps = mp # bs" using m by (auto simp: msg_ok_def bchain_Some)
  moreover have "\<forall>q. live st q \<longleftrightarrow> live st q \<and> (q \<in> set [mp] \<longrightarrow> q = mp)" by (simp del: live_simps)
  ultimately have "\<exists>as bs. ps = as @ bs \<and> msg_ok {} st (Some mp) (mp # bs) \<and> mtext st (mp # bs) = mtext st ps \<and>
        (\<forall>q. live st q \<longleftrightarrow> live st q \<and> (q \<in> set as \<longrightarrow> q = mp))"
    using m by (intro exI [of _ "[mp]"] exI [of _ bs]) (simp del: live_simps)
  then show ?thesis using ok n a by (simp add: pull_done_def)
qed

lemma pull_done_less: "pull_done st mp ps n st' \<Longrightarrow> k \<le> n \<Longrightarrow> pull_done st mp ps k st'"
  unfolding pull_done_def by (elim conjE, intro conjI) (assumption | linarith)+

lemma pull_spec:
  assumes ok: "mbst_ok st" and m: "msg_ok {} st (Some mp) ps" and n: "0 < n" "blen (hdr st mp) \<le> n" "n \<le> tlen st ps"
  shows "\<exists>r st'. (if d_dbref (dat st (m_bdatap (hdr st mp))) > 1 then pull_shared mp n st else pull_own mp n st) = Some (r, st') \<and>
    (r = 0 \<and> mbst_ok st' \<and> grown {} {} st st' \<and> mem_left st < 2 \<or> r = 1 \<and> pull_done st mp ps n st')"
proof -
  let ?d = "m_bdatap (hdr st mp)"
  have lm: "live st mp" using m by (auto simp: msg_ok_def bchain_Some)
  then have mem: "mp \<in> refs {} st ?d" by (simp add: refs_def)
  have c: "unat (d_dbref (dat st ?d)) = card (refs {} st ?d)"
    using mb_invD(3) [OF ok live_used [OF ok lm]] by (simp add: dat_ok_def)
  have "d_dbref (dat st ?d) > 1 \<longleftrightarrow> 1 < card (refs {} st ?d)" using c by (simp add: word_less_nat_alt)
  also have "\<dots> \<longleftrightarrow> refs {} st ?d \<noteq> {mp}"
  proof
    assume "refs {} st ?d \<noteq> {mp}"
    then obtain q where "q \<in> refs {} st ?d" "q \<noteq> mp" using mem by blast
    then have "card {mp, q} \<le> card (refs {} st ?d)" using mem by (intro card_mono finite_refs) auto
    then show "1 < card (refs {} st ?d)" using \<open>q \<noteq> mp\<close> by simp
  qed auto
  finally show ?thesis using pull_own_spec [OF ok m refl _ n] pull_shared_spec [OF ok m refl _ n] by (cases "refs {} st ?d = {mp}") simp_all
qed

text \<open>
  The bytes to pull up, and what they may be: with -1 all those of the first type.  When they are
  none the loop does not run and the message is tied to itself, so that case is left out.
\<close>

definition pull_len :: "mbst \<Rightarrow> mbp list \<Rightarrow> int \<Rightarrow> int" where
  "pull_len st ps len = (if len = -1 then tlen st (run st ps) else len)"

lemma run_tlen:
  assumes ok: "mbst_ok st" and m: "msg_ok {} st (Some mp) ps"
  shows "blen (hdr st mp) \<le> tlen st (run st ps)" "tlen st (run st ps) \<le> tlen st ps"
proof -
  obtain bs where ps: "ps = mp # bs" using m by (auto simp: msg_ok_def bchain_Some)
  have pos: "p \<in> set ps \<Longrightarrow> 0 \<le> blen (hdr st p)" for p using live_blen [OF ok] m by (auto simp: msg_ok_def)
  let ?t = "takeWhile (\<lambda>p. btype st p = btype st mp) bs"
  have "0 \<le> tlen st ?t" by (rule tlen_nonneg) (use pos ps set_takeWhileD in fastforce)
  then show "blen (hdr st mp) \<le> tlen st (run st ps)" by (simp add: ps run_def)
  have "0 \<le> tlen st (dropWhile (\<lambda>p. btype st p = btype st mp) bs)"
    by (rule tlen_nonneg) (use pos ps set_dropWhileD in fastforce)
  moreover have "tlen st bs = tlen st ?t + tlen st (dropWhile (\<lambda>p. btype st p = btype st mp) bs)"
    by (metis takeWhile_dropWhile_id tlen_simps(3))
  ultimately show "tlen st (run st ps) \<le> tlen st ps" by (simp add: ps run_def)
qed

lemma pullupmsg_spec:
  assumes ok: "mbst_ok st" and m: "msg_ok {} st (Some mp) ps" and len: "len = -1 \<or> 0 < len" "0 < pull_len st ps len"
  shows "\<exists>r st'. pullupmsg mp len st = Some (r, st') \<and>
    (r = 0 \<and> mbst_ok st' \<and> grown {} {} st st' \<and> (mem_left st < 2 \<or> tlen st (run st ps) < len) \<or> r = 1 \<and> pull_done st mp ps (pull_len st ps len) st') \<and>
    (tlen st (run st ps) < len \<longrightarrow> r = 0 \<and> st' = st)"
proof -
  define pull where "pull = (\<lambda>n. if d_dbref (dat st (m_bdatap (hdr st mp))) > 1 then pull_shared mp n st else pull_own mp n st)"
  have pull: "\<exists>r st'. pull n = Some (r, st') \<and> (r = 0 \<and> mbst_ok st' \<and> grown {} {} st st' \<and> mem_left st < 2 \<or> r = 1 \<and> pull_done st mp ps n st')"
    if "0 < n" "blen (hdr st mp) \<le> n" "n \<le> tlen st ps" for n
    unfolding pull_def by (rule pull_spec [OF ok m that])
  note run = run_tlen [OF ok m]
  obtain bs where ps: "ps = mp # bs" "bchain (hdr st) (Some mp) ps" using m by (auto simp: msg_ok_def bchain_Some)
  have sz: "xmsgsize st mp True = Some (tlen st (run st ps))" using xmsgsize_spec [OF ps(2), of True] by simp
  have code: "pullupmsg mp len st =
      (if len = -1 then
         (if m_bcont (hdr st mp) = None then (if str_aligned st (m_brptr (hdr st mp)) then Some (1, st) else pull (blen (hdr st mp)))
          else pull (tlen st (run st ps)))
       else if blen (hdr st mp) \<ge> len then
         (if str_aligned st (m_brptr (hdr st mp)) then Some (1, st) else pull (blen (hdr st mp)))
       else if tlen st (run st ps) < len then Some (0, st) else pull len)"
    by (simp add: pullupmsg_def Let_def sz pull_def)
  have first: "\<exists>r st'. (if str_aligned st (m_brptr (hdr st mp)) then Some (1, st) else pull (blen (hdr st mp))) = Some (r, st') \<and>
      (r = 0 \<and> mbst_ok st' \<and> grown {} {} st st' \<and> mem_left st < 2 \<or> r = 1 \<and> pull_done st mp ps k st')"
    if k: "k \<le> blen (hdr st mp)" "0 < blen (hdr st mp)" for k
  proof (cases "str_aligned st (m_brptr (hdr st mp))")
    case True
    then show ?thesis using pull_done_same [OF ok m k(1)] by simp
  next
    case False
    then show ?thesis using pull [OF k(2)] run pull_done_less [OF _ k(1)] by fastforce
  qed
  show ?thesis
  proof (cases "len = -1")
    case True
    have le: "\<not> tlen st (run st ps) < -1" using len(2) True by (simp add: pull_len_def)
    show ?thesis
    proof (cases "m_bcont (hdr st mp)")
      case None
      then have "bs = []" using ps by (cases bs) auto
      then have "tlen st (run st ps) = blen (hdr st mp)" using ps(1) by (simp add: run_def)
      then have pl: "pull_len st ps len = blen (hdr st mp)" "\<not> tlen st (run st ps) < len" using True le by (simp_all add: pull_len_def)
      have "pullupmsg mp len st = (if str_aligned st (m_brptr (hdr st mp)) then Some (1, st) else pull (blen (hdr st mp)))"
        using code True None by simp
      then show ?thesis using first [of "blen (hdr st mp)"] len(2) pl(2) unfolding pl(1) by simp
    next
      case (Some c)
      have pl: "pull_len st ps len = tlen st (run st ps)" "\<not> tlen st (run st ps) < len" using True le by (simp_all add: pull_len_def)
      have "pullupmsg mp len st = pull (tlen st (run st ps))" using code True Some by simp
      then show ?thesis using pull [OF _ run] len(2) pl(2) unfolding pl(1) by simp
    qed
  next
    case False
    then have l: "pull_len st ps len = len" "0 < len" using len by (auto simp: pull_len_def)
    show ?thesis
    proof (cases "len \<le> blen (hdr st mp)")
      case True
      then show ?thesis using first [OF True] l False run(1) by (simp add: code)
    next
      case f: False
      show ?thesis
      proof (cases "tlen st (run st ps) < len")
        case True
        then show ?thesis using f False ok grown_refl by (simp add: code)
      next
        case g: False
        then show ?thesis using pull [of len] f False l run(2) by (simp add: code)
      qed
    qed
  qed
qed

end
