(* ===== verification/Strmb_Set.thy ===== *)
theory Strmb_Set imports Strmb_Up begin

text \<open>
  Joining and splitting messages (\<open>linkb\<close>, \<open>rmvb\<close>, \<open>msgdsize\<close> of \<open>io/stream.c\<close>), all that can happen to
  the pool of message blocks as a step relation, an example pool, the properties of message blocks
  and three slips of the code.
\<close>

section \<open>Joining and splitting messages\<close>

lemma set_cont_msg:
  assumes "bchain (hdr (set_cont p c st)) x ps" "\<And>q. q \<in> set ps \<Longrightarrow> live st q"
  shows "msg_ok {} (set_cont p c st) x ps"
  using assms by (simp add: msg_ok_def set_cont_def upd_hdr_use del: live_simps upd_simps)

lemma linkb_spec:
  assumes m: "msg_ok {} st (Some mp) ps" and b: "msg_ok {} st (Some bp) qs" and d: "set ps \<inter> set qs = {}"
  shows "linkb mp bp st = Some (set_cont (last ps) (Some bp) st)" "msg_ok {} (set_cont (last ps) (Some bp) st) (Some mp) (ps @ qs)"
proof -
  have ch: "bchain (hdr st) (Some mp) ps" "bchain (hdr st) (Some bp) qs" using m b by (simp_all add: msg_ok_def)
  show "linkb mp bp st = Some (set_cont (last ps) (Some bp) st)" by (simp add: linkb_def walk_to_last [OF ch(1)])
  have ne: "ps \<noteq> []" using ch(1) by auto
  have "bchain (hdr (set_cont (last ps) (Some bp) st)) (Some mp) (ps @ qs)"
  proof (rule bchain_extend [OF ch(1) ne])
    show "bchain (hdr (set_cont (last ps) (Some bp) st)) (Some bp) qs"
      by (rule bchain_cong [OF ch(2)]) (use d last_in_set [OF ne] in \<open>auto simp: set_cont_def\<close>)
  qed (simp_all add: set_cont_def)
  then show "msg_ok {} (set_cont (last ps) (Some bp) st) (Some mp) (ps @ qs)"
    by (rule set_cont_msg) (use m b in \<open>auto simp: msg_ok_def\<close>)
qed

lemma rmvb_loop_found:
  "bchain (hdr st) tmp (as @ bp # bs) \<Longrightarrow> rmvb_loop mp bp lastp tmp st = Some
     (case if as = [] then lastp else Some (last as) of
        Some l \<Rightarrow> (Some (Some mp), set_cont bp None (set_cont l (m_bcont (hdr st bp)) st))
      | None \<Rightarrow> (Some (m_bcont (hdr st bp)), set_cont bp None st))"
proof (induction as arbitrary: tmp lastp)
  case Nil
  then show ?case by (subst rmvb_loop.simps) (auto split: option.splits)
next
  case (Cons a as)
  have "a \<noteq> bp" using bchain_distinct [OF Cons.prems] by auto
  then show ?case using Cons by (subst rmvb_loop.simps) auto
qed

lemma rmvb_loop_absent:
  "bchain (hdr st) tmp ps \<Longrightarrow> bp \<notin> set ps \<Longrightarrow> rmvb_loop mp bp lastp tmp st = Some (None, st)"
  by (induction ps arbitrary: tmp lastp) (subst rmvb_loop.simps, auto)+

lemma rmvb_spec:
  assumes ok: "mbst_ok st" and m: "msg_ok {} st (Some mp) ps"
  shows "if bp \<in> set ps
    then \<exists>as bs st'. ps = as @ bp # bs \<and> rmvb mp bp st = Some (Some (opt_hd (as @ bs)), st') \<and> mbst_ok st' \<and>
      msg_ok {} st' (opt_hd (as @ bs)) (as @ bs) \<and> msg_ok {} st' (Some bp) [bp] \<and> bview st' = bview st \<and>
      (\<forall>q. q \<notin> set ps \<longrightarrow> hdr st' q = hdr st q) \<and> live st' = live st \<and> used st' = used st
    else rmvb mp bp st = Some (None, st)"
proof (cases "bp \<in> set ps")
  case False
  then show ?thesis using rmvb_loop_absent [of st "Some mp" ps bp] m by (simp add: rmvb_def msg_ok_def)
next
  case True
  then obtain as bs where ps: "ps = as @ bp # bs" by (meson split_list)
  have ch: "bchain (hdr st) (Some mp) (as @ bp # bs)" using m ps by (simp add: msg_ok_def)
  have lv: "live st q" if "q \<in> set ps" for q using m that by (simp add: msg_ok_def)
  have dist: "distinct (as @ bp # bs)" by (rule bchain_distinct [OF ch])
  have next_bs: "bchain (hdr st) (m_bcont (hdr st bp)) bs" by (rule bchain_split [OF ch])
  then have cont: "m_bcont (hdr st bp) = opt_hd bs" by (rule bchain_hd)
  define st1 where "st1 = (if as = [] then st else set_cont (last as) (opt_hd bs) st)"
  define st' where "st' = set_cont bp None st1"
  have "rmvb mp bp st = Some (Some (opt_hd (as @ bs)), st')"
    using rmvb_loop_found [OF ch, of mp None] ch cont by (cases as) (auto simp: rmvb_def st'_def st1_def opt_hd_def)
  moreover have "mbst_ok st'" using set_cont_ok [OF ok] by (simp add: st'_def st1_def set_cont_ok ok)
  moreover have c: "m_bcont (hdr st' q) = (if q = bp then None else if as \<noteq> [] \<and> q = last as then opt_hd bs else m_bcont (hdr st q))" for q
    by (simp add: st'_def st1_def set_cont_def)
  have lu: "live st' = live st" "used st' = used st"
    by (simp_all add: fun_eq_iff st'_def st1_def set_cont_def upd_hdr_use del: live_simps)
  have la: "as \<noteq> [] \<Longrightarrow> last as \<notin> set bs" using dist by (metis IntI UnCI distinct_append emptyE last_in_set set_append set_subset_Cons subsetD)
  have "bchain (hdr st') (opt_hd bs) bs"
    by (rule bchain_cong [OF next_bs [unfolded cont]]) (use c dist la in auto)
  then have "bchain (hdr st') (opt_hd (as @ bs)) (as @ bs)"
  proof (cases "as = []")
    case False
    have pre: "bchain (\<lambda>q. if q = last as then (hdr st q)\<lparr>m_bcont := None\<rparr> else hdr st q) (Some mp) as"
      using ch dist False
    proof (induction as arbitrary: mp)
      case (Cons a as)
      then show ?case by (cases as) auto
    qed simp
    have "bchain (hdr st') (Some mp) (as @ bs)"
      by (rule bchain_extend [OF pre False]) (use c dist False \<open>bchain (hdr st') (opt_hd bs) bs\<close> in auto)
    then show ?thesis using False ch by (cases as) (auto simp: opt_hd_def)
  qed simp
  then have "msg_ok {} st' (opt_hd (as @ bs)) (as @ bs)" using lv ps by (simp add: msg_ok_def lu del: live_simps)
  moreover have "msg_ok {} st' (Some bp) [bp]" using lv ps c [of bp] by (simp add: msg_ok_def lu del: live_simps)
  moreover have "bview st' = bview st" by (simp add: st'_def st1_def)
  moreover have "hdr st' q = hdr st q" if "q \<notin> set ps" for q
    using that ps last_in_set [of as] by (auto simp: st'_def st1_def set_cont_def)
  ultimately show ?thesis unfolding if_P [OF True] using ps lu by (intro exI [of _ as] exI [of _ bs] exI [of _ st']) simp
qed

lemma set_cont_back: "m_bcont (hdr st p) = c \<Longrightarrow> set_cont p c (set_cont p x st) = st"
  by (simp add: set_cont_def upd_hdr_def fun_upd_idem)

lemma msgdsize_spec:
  assumes "bchain (hdr st) x ps" "\<And>p. p \<in> set ps \<Longrightarrow> 0 \<le> blen (hdr st p)"
  shows "msgdsize st x = Some (int (length (mtext st (filter (\<lambda>p. btype st p = M_DATA) ps))))"
proof -
  have "dsize_loop st x c = Some (c + int (length (mtext st (filter (\<lambda>p. btype st p = M_DATA) ps))))" for c
    using assms
  proof (induction ps arbitrary: x c)
    case (Cons p ps)
    then show ?case by (subst dsize_loop.simps) (auto simp: algebra_simps)
  qed (subst dsize_loop.simps, simp)
  then show ?thesis by (simp add: msgdsize_def)
qed

section \<open>What can happen to the blocks\<close>

text \<open>
  The steps of the kernel on the pool of message blocks: the operations on blocks and messages in
  use (with no data block near 255 references for \<open>dupmsg\<close>, aligned buffers for the copies and some bytes
  for \<open>pullupmsg\<close>), a user of a block who writes data or sets the fields of its header with the pointers inside
  the buffer, and a change of the memory that is to be had.
\<close>

inductive mb_step :: "mbst \<Rightarrow> mbst \<Rightarrow> bool" where
  allocb: "mb_step st (snd (allocb sz st))"
| esballoc: "0 \<le> sz \<Longrightarrow> mb_step st (snd (esballoc base sz fr st))"
| freeb: "live st p \<Longrightarrow> mb_step st (freeb p st)"
| freemsg: "msg_ok {} st x ps \<Longrightarrow> freemsg x st = Some st' \<Longrightarrow> mb_step st st'"
| dupb: "live st p \<Longrightarrow> mb_step st (snd (dupb p st))"
| dupmsg: "msg_ok {} st (Some p) ps \<Longrightarrow> dup_can st ps \<Longrightarrow> dupmsg (Some p) st = Some (r, st') \<Longrightarrow> mb_step st st'"
| copyb: "live st p \<Longrightarrow> copy_can st [p] \<Longrightarrow> mb_step st (snd (copyb p st))"
| copymsg: "msg_ok {} st (Some p) ps \<Longrightarrow> copy_can st ps \<Longrightarrow> copymsg (Some p) st = Some (r, st') \<Longrightarrow> mb_step st st'"
| rmvb: "msg_ok {} st (Some mp) ps \<Longrightarrow> rmvb mp bp st = Some (r, st') \<Longrightarrow> mb_step st st'"
| adjmsg: "msg_ok {} st (Some mp) ps \<Longrightarrow> adjmsg mp len st = Some (r, st') \<Longrightarrow> mb_step st st'"
| pullupmsg: "msg_ok {} st (Some mp) ps \<Longrightarrow> len = -1 \<or> 0 < len \<Longrightarrow> 0 < pull_len st ps len \<Longrightarrow>
    pullupmsg mp len st = Some (r, st') \<Longrightarrow> mb_step st st'"
| user: "live st p \<Longrightarrow> m_bdatap b = m_bdatap (hdr st p) \<Longrightarrow> span_ok b (dat st (m_bdatap b)) \<Longrightarrow>
    mb_step st ((upd_hdr p (\<lambda>_. b) st)\<lparr>smem := mem\<rparr>)"
| memory: "mb_step st (st\<lparr>mkmem := ks\<rparr>)"

lemma mb_inv_smem [simp]: "mb_inv X (st\<lparr>smem := mem\<rparr>) = mb_inv X st"
proof -
  have "live (st\<lparr>smem := mem\<rparr>) = live st" "used (st\<lparr>smem := mem\<rparr>) = used st"
    by (auto simp: fun_eq_iff used_def live_def split: mbp.splits)
  then show ?thesis
    by (simp add: mb_inv_def free_ok_def hdr_ok_def dat_ok_def refs_def buf_ok_def bufs_apart_def cong: buf.case_cong)
qed

lemma dupb_facts:
  assumes ok: "mbst_ok st" and p: "live st p"
  shows "mbst_ok (snd (dupb p st))"
proof (cases "d_dbref (dat st (m_bdatap (hdr st p))) = 255")
  case False
  obtain r st' where d: "DUPB p st = (r, st')" by fastforce
  moreover have "unat (d_dbref (dat st (m_bdatap (hdr st p)))) < 255"
    using False unat_u8_less [of "d_dbref (dat st (m_bdatap (hdr st p)))"] by (auto simp: word_unat_eq_iff simp del: unat_u8_less)
  ultimately show ?thesis using DUPB_facts [OF ok p _ d] DUPB_eq [OF False] d by (auto simp: dupb_def split: option.splits prod.splits)
qed (use ok in \<open>simp add: dupb_def\<close>)

lemma allocb_live:
  assumes "mbst_ok st" "live st q"
  shows "live (snd (allocb sz st)) q"
proof -
  obtain r st' where a: "allocb sz st = (r, st')" by fastforce
  show ?thesis using allocb_facts [OF assms(1) a] assms(2) a
    by (cases r) (simp_all add: new_block_def grown_def del: live_simps)
qed

lemma mb_step_ok: "mb_step st st' \<Longrightarrow> mbst_ok st \<Longrightarrow> mbst_ok st'"
proof (induction rule: mb_step.induct)
  case (allocb st sz)
  then show ?case using allocb_facts [OF allocb, of sz] by (cases "allocb sz st") (auto simp: new_block_def split: option.splits)
next
  case (esballoc sz st base fr)
  then show ?case using esballoc_facts [OF esballoc(2,1), of base fr] by (cases "esballoc base sz fr st") (auto split: option.splits)
next
  case (freeb st p)
  then show ?case using freeb_ok by blast
next
  case (freemsg st x ps st')
  then show ?case using freemsg_spec [OF freemsg(3,1)] by auto
next
  case (dupb st p)
  then show ?case using dupb_facts by blast
next
  case (dupmsg st p ps r st')
  then show ?case using dup.whole_spec [OF dupmsg(4,1,2)] by (auto simp: dupmsg_def)
next
  case (copyb st p)
  then show ?case using copyb_facts [OF copyb(3,1,2)] by (cases "copyb p st") auto
next
  case (copymsg st p ps r st')
  then show ?case using copy.whole_spec [OF copymsg(4,1,2)] by (auto simp: copymsg_def)
next
  case (rmvb st mp ps bp r st')
  then show ?case using rmvb_spec [OF rmvb(3,1), of bp] by (auto split: if_splits)
next
  case (adjmsg st mp ps len r st')
  then show ?case using adjmsg_spec [OF adjmsg(3,1), of len] trimmed_ok [OF adjmsg(3)] by (auto split: if_splits)
next
  case (pullupmsg st mp ps len r st')
  then show ?case using pullupmsg_spec [OF pullupmsg(5,1-3)] by (auto simp: pull_done_def)
next
  case (user st p b mem)
  have "mbst_ok (upd_hdr p (\<lambda>_. b) st)"
  proof (rule mb_inv_hdrs [OF user(4)])
    fix q assume "live st q" "q \<notin> {}"
    then show "span_ok (hdr (upd_hdr p (\<lambda>_. b) st) q) (dat st (m_bdatap (hdr st q)))"
      using user(2,3) live_span [OF user(4), of q] by simp
  qed (use user mb_invD(1) [OF user(4)] in \<open>simp_all add: same_core_def upd_hdr_use del: live_simps\<close>)
  then show ?case by simp
next
  case (memory st ks)
  show ?case
    by (rule mb_inv_core [OF memory]) (use mb_invD(1) [OF memory] in
      \<open>auto simp: same_core_def live_def used_def free_ok_def fun_eq_iff split: mbp.splits\<close>)
qed

lemma mb_steps_ok: "mb_step\<^sup>*\<^sup>* st st' \<Longrightarrow> mbst_ok st \<Longrightarrow> mbst_ok st'"
  by (induction rule: rtranclp_induct) (auto intro: mb_step_ok)

section \<open>Example states\<close>

text \<open>
  Two triplets and a header alone: the message of \<open>Trip 0\<close> (1, 2, 3) and \<open>Trip 1\<close> (4, 5), the latter in
  a buffer from \<open>kmem_alloc\<close>, and \<open>Sep 0\<close>, a duplicate of the first block.
\<close>

definition hdr_of :: "mbp option \<Rightarrow> buf \<Rightarrow> int \<Rightarrow> nat \<Rightarrow> msgb" where
  "hdr_of c b n d = \<lparr>m_bcont = c, m_brptr = (b, 0), m_bwptr = (b, n), m_bdatap = d, m_bband = 0, m_bflag = 0\<rparr>"

definition dat_of :: "buf \<Rightarrow> int \<Rightarrow> u8 \<Rightarrow> nat \<Rightarrow> datab" where
  "dat_of b n ref i = \<lparr>d_dbfrtnp = None, d_dbbase = (b, 0), d_dblim = (b, n), d_dbref = ref, d_dbtype = M_DATA,
     d_dbiswhat = MDBBLK, d_dbsize = n, d_dbmsgaddr = i\<rparr>"

definition used_up :: "int \<Rightarrow> alcdat" where
  "used_up n = \<lparr>al_use = n, al_total = n, al_max = n, al_fail = 0\<rparr>"

definition mbst1 :: mbst where
  "mbst1 = \<lparr>hdr = (\<lambda>_. hdr_of None (Fast 0) 3 0)(Trip 0 := hdr_of (Some (Trip 1)) (Fast 0) 3 0, Trip 1 := hdr_of None (Kmem 0) 2 1),
     dat = (\<lambda>_. dat_of (Fast 0) 64 2 0)(1 := dat_of (Kmem 0) 100 1 1),
     nsep = 1, ntrip = 2, msgfreelist = [], mdbfreelist = [],
     smem = \<lambda>(b, k). (if b = Fast 0 then word_of_int (k + 1) else word_of_int (k + 4)), xaddr = \<lambda>_. 0, nkmem = 1,
     mkmem = replicate 9 True, kfreed = [], fcalls = [], msgblock = used_up 1, mdbblock = used_up 2, mstrcount = 392\<rparr>"

lemma mbst1_live: "live mbst1 p \<longleftrightarrow> p \<in> {Trip 0, Trip 1, Sep 0}" "used mbst1 d \<longleftrightarrow> d \<in> {0, 1}"
  by (cases p) (auto simp: mbst1_def used_def hdr_of_def dat_of_def)

lemma mbst1_refs: "refs {} mbst1 0 = {Trip 0, Sep 0}" "refs {} mbst1 1 = {Trip 1}"
  by (auto simp: refs_def mbst1_live simp del: live_simps) (simp_all add: mbst1_def hdr_of_def)

lemma mbst1_ok: "mbst_ok mbst1"
proof -
  have "hdr_ok mbst1 p" if "live mbst1 p" for p
    using that by (auto simp: hdr_ok_def mbst1_live simp del: live_simps) (simp_all add: mbst1_def hdr_of_def dat_of_def span_ok_def)
  moreover have "dat_ok {} mbst1 d" if "used mbst1 d" for d
  proof -
    have "d = 0 \<or> d = 1" using that by (simp add: mbst1_live)
    moreover have "d_dbref (dat mbst1 0) = 2" "d_dbref (dat mbst1 1) = 1" "buf_ok mbst1 0 (dat mbst1 0)" "buf_ok mbst1 1 (dat mbst1 1)"
      by (simp_all add: mbst1_def dat_of_def buf_ok_def FASTBUF_def)
    ultimately show ?thesis by (elim disjE) (simp_all add: dat_ok_def mbst1_refs [unfolded One_nat_def])
  qed
  moreover have "free_ok mbst1" by (simp add: free_ok_def mbst1_def used_up_def)
  moreover have "bufs_apart mbst1" by (auto simp: bufs_apart_def mbst1_live) (simp_all add: mbst1_def dat_of_def)
  ultimately show ?thesis by (simp add: mb_inv_def) (simp add: mbst1_def)
qed

lemma mbst1_msg: "msg_ok {} mbst1 (Some (Trip 0)) [Trip 0, Trip 1]" "msg_ok {} mbst1 (Some (Sep 0)) [Sep 0]"
  by (simp_all add: msg_ok_def mbst1_live del: live_simps) (simp_all add: mbst1_def hdr_of_def)

lemma mbst1_text: "btext mbst1 (Trip 0) = [1, 2, 3]" "btext mbst1 (Trip 1) = [4, 5]" "mtext mbst1 [Trip 0, Trip 1] = [1, 2, 3, 4, 5]"
proof -
  have u: "[0..2::int] = [0, 1, 2]" "[0..1::int] = [0, 1]" by (simp_all add: upto_rec1)
  show t: "btext mbst1 (Trip 0) = [1, 2, 3]" "btext mbst1 (Trip 1) = [4, 5]"
    by (simp_all add: btext_def mbst1_def hdr_of_def u)
  then show "mtext mbst1 [Trip 0, Trip 1] = [1, 2, 3, 4, 5]" by simp
qed

lemma mbst1_run: "run mbst1 [Trip 0, Trip 1] = [Trip 0, Trip 1]" "run mbst1 [Trip 1, Trip 0] = [Trip 1, Trip 0]"
    "tlen mbst1 [Trip 0, Trip 1] = 5" "tlen mbst1 [Trip 1, Trip 0] = 5"
  by (simp_all add: tlen_def run_def btype_def blen_def mbst1_def hdr_of_def dat_of_def)

section \<open>The properties\<close>

text \<open>
  C2: in any sequence of the operations on message blocks and of what their users do (write data, move the
  pointers of a header inside its buffer), the pool stays well formed: the header of every block in use
  has a data block in use, its pointers stay inside the buffer, the count of a data block is the number
  of its headers, and a buffer from \<open>kmem_alloc\<close> is not given back while it is in use nor twice.  The
  operations are given blocks and messages in use; \<open>dupmsg\<close> none that could bring a data block past 255
  references, which it does not test (\<open>dup_can\<close>; \<open>DUPB_count_wraps\<close> below shows what happens then); \<open>copyb\<close> and
  \<open>copymsg\<close> buffers that are aligned to words (\<open>copy_can\<close>); and \<open>pullupmsg\<close> some bytes to pull up.
\<close>

theorem mblk_pool_ok:
  assumes "mb_step\<^sup>*\<^sup>* st st'" "mbst_ok st"
  shows "mbst_ok st' \<and> distinct (map fst (kfreed st')) \<and>
    (\<forall>d. used st' d \<longrightarrow> unat (d_dbref (dat st' d)) = card {p. live st' p \<and> m_bdatap (hdr st' p) = d}) \<and>
    (\<forall>p. live st' p \<longrightarrow> (let d = m_bdatap (hdr st' p) in used st' d \<and> span_ok (hdr st' p) (dat st' d) \<and>
       (\<forall>k. fst (d_dbbase (dat st' d)) = Kmem k \<longrightarrow> (Kmem k, 0) \<notin> fst ` set (kfreed st'))))"
proof -
  have ok: "mbst_ok st'" by (rule mb_steps_ok [OF assms])
  have "(Kmem k, 0) \<notin> fst ` set (kfreed st')" if "used st' d" "fst (d_dbbase (dat st' d)) = Kmem k" for d k
    using mb_invD(3) [OF ok that(1)] that(2) by (simp add: dat_ok_def buf_ok_def)
  moreover have "unat (d_dbref (dat st' d)) = card {p. live st' p \<and> m_bdatap (hdr st' p) = d}" if "used st' d" for d
    using mb_invD(3) [OF ok that] by (simp add: dat_ok_def refs_def)
  ultimately show ?thesis using ok mb_invD(6) [OF ok] live_used [OF ok] live_span [OF ok] unfolding Let_def by blast
qed

theorem mblk_pool_ok_witness:
  "mbst_ok (freeb (Sep 0) (snd (allocb 100 mbst1)))"
proof -
  have "live (snd (allocb 100 mbst1)) (Sep 0)"
    by (rule allocb_live [OF mbst1_ok]) (simp add: mbst1_live del: live_simps)
  then have "mb_step (snd (allocb 100 mbst1)) (freeb (Sep 0) (snd (allocb 100 mbst1)))" by (rule mb_step.freeb)
  moreover have "mb_step mbst1 (snd (allocb 100 mbst1))" by (rule mb_step.allocb)
  ultimately have "mb_step\<^sup>*\<^sup>* mbst1 (freeb (Sep 0) (snd (allocb 100 mbst1)))"
    using r_into_rtranclp rtranclp.rtrancl_into_rtrancl by metis
  from mblk_pool_ok [OF this mbst1_ok] show ?thesis by blast
qed

text \<open>
  C6: \<open>freemsg\<close> ends, takes exactly the headers of the message out of use and exactly those data
  blocks that no other header has, gives back each of their buffers once (to \<open>kmem_free\<close>, or through
  the free routine of its owner), and leaves all other blocks as they read.
\<close>

theorem freemsg_correct:
  assumes "mbst_ok st" "msg_ok {} st bp ps"
  shows "\<exists>st' es. freemsg bp st = Some st' \<and> mbst_ok st' \<and> (\<forall>q. live st' q \<longleftrightarrow> live st q \<and> q \<notin> set ps) \<and>
    distinct es \<and> set es = {d. used st d \<and> refs {} st d \<subseteq> set ps} \<and> (\<forall>d. used st' d \<longleftrightarrow> used st d \<and> d \<notin> set es) \<and>
    kfreed st' = kfreed st @ concat (map (\<lambda>d. buf_log (dat st d)) es) \<and>
    fcalls st' = fcalls st @ concat (map (\<lambda>d. call_log (dat st d)) es) \<and> bview st' = bview st"
proof -
  obtain st' es where f: "freemsg bp st = Some st'" "mbst_ok st'" "hdr st' = hdr st" "smem st' = smem st"
    "\<forall>q. live st' q \<longleftrightarrow> live st q \<and> q \<notin> set ps" "\<forall>e. used st' e \<longleftrightarrow> used st e \<and> \<not> refs {} st e \<subseteq> set ps"
    "\<forall>e. dcore (dat st' e) = dcore (dat st e)" "distinct es" "set es = {e. used st e \<and> refs {} st e \<subseteq> set ps}"
    "kfreed st' = kfreed st @ concat (map (\<lambda>e. buf_log (dat st e)) es)"
    "fcalls st' = fcalls st @ concat (map (\<lambda>e. call_log (dat st e)) es)"
    using freemsg_spec [OF assms] by auto
  have "bview st' = bview st" using f(3,4,7) by (auto simp: bview_def btext_def btype_def dcore_eq fun_eq_iff)
  then show ?thesis using f by (intro exI [of _ st'] exI [of _ es]) auto
qed

theorem freemsg_correct_witness:
  "\<exists>st'. freemsg (Some (Trip 0)) mbst1 = Some st' \<and> used st' 0 \<and> \<not> used st' 1 \<and> kfreed st' = [((Kmem 0, 0), 100)]"
proof -
  obtain st' es where f: "freemsg (Some (Trip 0)) mbst1 = Some st'" "distinct es" "set es = {d. used mbst1 d \<and> refs {} mbst1 d \<subseteq> {Trip 0, Trip 1}}"
    "\<forall>d. used st' d \<longleftrightarrow> used mbst1 d \<and> d \<notin> set es" "kfreed st' = kfreed mbst1 @ concat (map (\<lambda>d. buf_log (dat mbst1 d)) es)"
    using freemsg_correct [OF mbst1_ok mbst1_msg(1)] by auto
  have s: "set es = {1}" unfolding f(3) using mbst1_refs by (auto simp: mbst1_live)
  then have "es = [1]" using f(2) by (cases es; cases "tl es") auto
  moreover have "buf_log (dat mbst1 1) = [((Kmem 0, 0), 100)]" "kfreed mbst1 = []" by (simp_all add: mbst1_def dat_of_def buf_log_def)
  ultimately show ?thesis using f(1,4,5) s mbst1_live(2) by simp
qed

text \<open>
  C8: \<open>dupmsg\<close> returns, and gives a new message on the data blocks of the old one that reads the
  same block by block, or nothing and leaves no trace; with a header to be had for every block it
  succeeds.  It assumes that no count of a data block can pass 255.
\<close>

theorem dupmsg_correct:
  assumes "mbst_ok st" "msg_ok {} st (Some p) ps" "dup_can st ps"
  shows "\<exists>r st'. dupmsg (Some p) st = Some (r, st') \<and> mbst_ok st' \<and> (dup_enough st ps \<longrightarrow> r \<noteq> None) \<and>
    (case r of None \<Rightarrow> grown {} {} st st'
     | Some h \<Rightarrow> \<exists>ms E. grown (set ms) E st st' \<and> msg_ok {} st' (Some h) ms \<and> map (bview st') ms = map (bview st) ps \<and>
         map (\<lambda>n. m_bdatap (hdr st' n)) ms = map (\<lambda>q. m_bdatap (hdr st q)) ps)"
  using dup.whole_spec [OF assms] by (fastforce simp: dupmsg_def dup.dup_of_def split: option.splits)

theorem dupmsg_correct_witness:
  "\<exists>h ms st'. dupmsg (Some (Trip 0)) mbst1 = Some (Some h, st') \<and> msg_ok {} st' (Some h) ms \<and>
    map (\<lambda>n. m_bdatap (hdr st' n)) ms = [0, 1]"
proof -
  have "dup_can mbst1 [Trip 0, Trip 1]" "dup_enough mbst1 [Trip 0, Trip 1]"
    by (simp_all add: dup_can_def mbst1_live dup_enough_def) (simp_all add: mbst1_def dat_of_def mem_left_def)
  then obtain h ms st' where "dupmsg (Some (Trip 0)) mbst1 = Some (Some h, st')" "msg_ok {} st' (Some h) ms"
    "map (\<lambda>n. m_bdatap (hdr st' n)) ms = map (\<lambda>q. m_bdatap (hdr mbst1 q)) [Trip 0, Trip 1]"
    using dupmsg_correct [OF mbst1_ok mbst1_msg(1)] by (auto split: option.splits)
  moreover have "map (\<lambda>q. m_bdatap (hdr mbst1 q)) [Trip 0, Trip 1] = [0, 1]" by (simp add: mbst1_def hdr_of_def)
  ultimately show ?thesis by metis
qed

text \<open>
  C22: \<open>copymsg\<close> returns, and gives a new message on new data blocks that reads the same block by
  block, or nothing and leaves no trace; with the memory for two pieces a block it succeeds.  It
  assumes that the buffers are aligned to words.
\<close>

theorem copymsg_correct:
  assumes "mbst_ok st" "msg_ok {} st (Some p) ps" "copy_can st ps"
  shows "\<exists>r st'. copymsg (Some p) st = Some (r, st') \<and> mbst_ok st' \<and> (copy_enough st ps \<longrightarrow> r \<noteq> None) \<and>
    (case r of None \<Rightarrow> grown {} {} st st'
     | Some h \<Rightarrow> \<exists>ms E. grown (set ms) E st st' \<and> msg_ok {} st' (Some h) ms \<and> map (bview st') ms = map (bview st) ps \<and>
         (\<forall>n\<in>set ms. \<not> used st (m_bdatap (hdr st' n))))"
  using copy.whole_spec [OF assms] by (fastforce simp: copymsg_def copy.dup_of_def split: option.splits)

theorem copymsg_correct_witness:
  "\<exists>h ms st'. copymsg (Some (Trip 0)) mbst1 = Some (Some h, st') \<and> msg_ok {} st' (Some h) ms \<and> mtext st' ms = [1, 2, 3, 4, 5]"
proof -
  have "copy_can mbst1 [Trip 0, Trip 1]" "copy_enough mbst1 [Trip 0, Trip 1]"
    by (simp_all add: copy_can_def mbst1_live copy_enough_def) (simp_all add: mbst1_def dat_of_def mem_left_def baddr_def)
  then obtain h ms st' where c: "copymsg (Some (Trip 0)) mbst1 = Some (Some h, st')" "msg_ok {} st' (Some h) ms"
    "map (bview st') ms = map (bview mbst1) [Trip 0, Trip 1]"
    using copymsg_correct [OF mbst1_ok mbst1_msg(1)] by (auto split: option.splits)
  have "mtext st' ms = mtext mbst1 [Trip 0, Trip 1]" by (rule mtext_bview [OF c(3)])
  then show ?thesis using c(1,2) mbst1_text by auto
qed

text \<open>
  C23: \<open>adjmsg\<close> returns 1 exactly when the blocks of one type at that end hold enough bytes, and then the
  text of the message has lost just those bytes, at the head or at the tail, while its blocks and
  all other messages are as they were; else nothing changes.
\<close>

theorem adjmsg_correct:
  assumes "mbst_ok st" "msg_ok {} st (Some mp) ps"
  shows "\<exists>r st'. adjmsg mp len st = Some (r, st') \<and> mbst_ok st' \<and>
    (if \<bar>len\<bar> \<le> tlen st (run st (if len < 0 then rev ps else ps))
     then r = 1 \<and> msg_ok {} st' (Some mp) ps \<and> live st' = live st \<and> (\<forall>q. q \<notin> set ps \<longrightarrow> bview st' q = bview st q) \<and>
       mtext st' ps = (if len < 0 then take (nat (tlen st ps + len)) (mtext st ps) else drop (nat len) (mtext st ps))
     else r = 0 \<and> st' = st)"
proof -
  obtain r st' where a: "adjmsg mp len st = Some (r, st')"
    "if \<bar>len\<bar> \<le> tlen st (run st (if len < 0 then rev ps else ps))
     then r = 1 \<and> trimmed ps st st' \<and>
       mtext st' ps = (if len < 0 then take (nat (tlen st ps + len)) (mtext st ps) else drop (nat len) (mtext st ps))
     else r = 0 \<and> st' = st" using adjmsg_spec [OF assms] by blast
  have t: "mbst_ok st' \<and> msg_ok {} st' (Some mp) ps \<and> live st' = live st \<and> (\<forall>q. q \<notin> set ps \<longrightarrow> bview st' q = bview st q)"
    if "trimmed ps st st'"
    using trimmed_ok [OF assms(1) that] trimmed_chain [OF that] trimmed_btype [OF that] trimmed_btext [OF that] assms(2) that
    by (auto simp: msg_ok_def bview_def trimmed_def simp del: live_simps)
  show ?thesis using a t assms(1) by (intro exI [of _ r] exI [of _ st']) (auto split: if_splits)
qed

theorem adjmsg_correct_witness:
  "\<exists>st'. adjmsg (Trip 0) (- 3) mbst1 = Some (1, st') \<and> mtext st' [Trip 0, Trip 1] = [1, 2]"
proof -
  have "\<bar>- 3\<bar> \<le> tlen mbst1 (run mbst1 (rev [Trip 0, Trip 1]))" using mbst1_run by simp
  then obtain st' where "adjmsg (Trip 0) (- 3) mbst1 = Some (1, st')"
    "mtext st' [Trip 0, Trip 1] = take (nat (tlen mbst1 [Trip 0, Trip 1] + - 3)) (mtext mbst1 [Trip 0, Trip 1])"
    using adjmsg_correct [OF mbst1_ok mbst1_msg(1), of "- 3"] by (auto simp del: mtext_simps)
  then show ?thesis unfolding mbst1_text(3) mbst1_run(3) by simp
qed

text \<open>
  C7: \<open>pullupmsg\<close> returns: with the memory and the bytes for it, 1, and then the first bytes of the
  message lie together in its first block, aligned, and the message reads as before, block by block
  behind it, with just the emptied blocks freed and all other messages as they were; or 0, and
  nothing is lost.  Asking for -1 pulls up all the bytes of the first type, which must not be none.
\<close>

theorem pullupmsg_correct:
  assumes "mbst_ok st" "msg_ok {} st (Some mp) ps" "len = -1 \<or> 0 < len" "0 < pull_len st ps len"
  shows "\<exists>r st'. pullupmsg mp len st = Some (r, st') \<and>
    (r = 0 \<and> mbst_ok st' \<and> grown {} {} st st' \<and> (mem_left st < 2 \<or> tlen st (run st ps) < len) \<or>
     r = 1 \<and> pull_done st mp ps (pull_len st ps len) st') \<and>
    (tlen st (run st ps) < len \<longrightarrow> r = 0 \<and> st' = st)"
  by (rule pullupmsg_spec [OF assms])

theorem pullupmsg_correct_witness:
  "\<exists>st' bs. pullupmsg (Trip 0) (-1) mbst1 = Some (1, st') \<and> 5 \<le> blen (hdr st' (Trip 0)) \<and>
    msg_ok {} st' (Some (Trip 0)) (Trip 0 # bs) \<and> mtext st' (Trip 0 # bs) = [1, 2, 3, 4, 5]"
proof -
  have p: "pull_len mbst1 [Trip 0, Trip 1] (-1) = 5" "mem_left mbst1 = 9" using mbst1_run by (simp_all add: pull_len_def) (simp add: mbst1_def mem_left_def)
  then have "0 < pull_len mbst1 [Trip 0, Trip 1] (-1)" by simp
  from pullupmsg_correct [OF mbst1_ok mbst1_msg(1) _ this] obtain st' where
    "pullupmsg (Trip 0) (-1) mbst1 = Some (1, st')" "pull_done mbst1 (Trip 0) [Trip 0, Trip 1] 5 st'"
    using p mbst1_run by auto
  then show ?thesis using mbst1_text(3) unfolding pull_done_def by metis
qed

text \<open>
  \<open>rmvb\<close> takes a block of a message out and nothing else, so that the message goes on without it
  and the block stands alone, all with the contents they had; of a block that is not of the message
  it returns -1 and changes nothing.
\<close>

theorem rmvb_correct:
  assumes "mbst_ok st" "msg_ok {} st (Some mp) ps"
  shows "if bp \<in> set ps
    then \<exists>as bs st'. ps = as @ bp # bs \<and> rmvb mp bp st = Some (Some (opt_hd (as @ bs)), st') \<and> mbst_ok st' \<and>
      msg_ok {} st' (opt_hd (as @ bs)) (as @ bs) \<and> msg_ok {} st' (Some bp) [bp] \<and> bview st' = bview st \<and>
      (\<forall>q. q \<notin> set ps \<longrightarrow> hdr st' q = hdr st q) \<and> live st' = live st \<and> used st' = used st
    else rmvb mp bp st = Some (None, st)"
  by (rule rmvb_spec [OF assms])

theorem rmvb_correct_witness:
  "\<exists>st'. rmvb (Trip 0) (Trip 0) mbst1 = Some (Some (Some (Trip 1)), st') \<and> msg_ok {} st' (Some (Trip 0)) [Trip 0]"
proof -
  obtain as bs st' where "[Trip 0, Trip 1] = as @ Trip 0 # bs" "rmvb (Trip 0) (Trip 0) mbst1 = Some (Some (opt_hd (as @ bs)), st')"
    "msg_ok {} st' (Some (Trip 0)) [Trip 0]"
    using rmvb_correct [OF mbst1_ok mbst1_msg(1), of "Trip 0"] by auto
  then show ?thesis by (auto simp: Cons_eq_append_conv append_eq_Cons_conv opt_hd_def)
qed

text \<open>
  C24: \<open>rmvb\<close> undoes \<open>linkb\<close>: a block linked to the tail of a message and removed again leaves the very
  state that was; in between the message has the block at its end.
\<close>

theorem linkb_rmvb_roundtrip:
  assumes "msg_ok {} st (Some mp) ps" "msg_ok {} st (Some bp) [bp]" "bp \<notin> set ps"
  shows "\<exists>st'. linkb mp bp st = Some st' \<and> msg_ok {} st' (Some mp) (ps @ [bp]) \<and> rmvb mp bp st' = Some (Some (Some mp), st)"
proof -
  have "ps \<noteq> []" using assms(1) by (auto simp: msg_ok_def)
  then have ne: "ps \<noteq> []" "m_bcont (hdr st bp) = None" "m_bcont (hdr st (last ps)) = None"
    using assms(1,2) bchain_last [of "hdr st" "Some mp" ps] by (auto simp: msg_ok_def)
  have lb: "last ps \<noteq> bp" using assms(3) ne(1) by auto
  define st' where "st' = set_cont (last ps) (Some bp) st"
  have l: "linkb mp bp st = Some st'" "msg_ok {} st' (Some mp) (ps @ [bp])"
    using linkb_spec [OF assms(1,2)] assms(3) by (simp_all add: st'_def)
  have c: "m_bcont (hdr st' bp) = None" using ne(2) lb by (simp add: st'_def set_cont_def)
  have "rmvb mp bp st' = Some (Some (Some mp), set_cont bp None (set_cont (last ps) None st'))"
    using rmvb_loop_found [of st' "Some mp" ps bp "[]" mp None] l(2) ne(1) c by (simp add: rmvb_def msg_ok_def)
  moreover have "set_cont (last ps) None st' = st" unfolding st'_def by (rule set_cont_back [OF ne(3)])
  moreover have "set_cont bp None st = st" using ne(2) by (simp add: set_cont_def upd_hdr_def fun_upd_idem)
  ultimately show ?thesis using l by auto
qed

theorem linkb_rmvb_roundtrip_witness:
  "\<exists>st'. linkb (Trip 0) (Sep 0) mbst1 = Some st' \<and> rmvb (Trip 0) (Sep 0) st' = Some (Some (Some (Trip 0)), mbst1)"
  using linkb_rmvb_roundtrip [OF mbst1_msg] by auto

section \<open>Three slips\<close>

text \<open>
  The macro \<open>_DUPB\<close> of \<open>dupmsg\<close> leaves out the test of the count that \<open>dupb\<close> makes: at 255 references
  \<open>dupb\<close> gives nothing, \<open>dupmsg\<close> wraps the count to 0 when a header is on the free list.
\<close>

lemma DUPB_count_wraps:
  assumes "msgfreelist st \<noteq> []" "d_dbref (dat st (m_bdatap (hdr st p))) = 255" "m_bcont (hdr st p) = None" "hd (msgfreelist st) \<noteq> p"
  shows "dupb p st = (None, st)"
    "\<exists>n st'. dupmsg (Some p) st = Some (Some n, st') \<and> d_dbref (dat st' (m_bdatap (hdr st p))) = 0"
proof -
  let ?n = "hd (msgfreelist st)"
  show "dupb p st = (None, st)" using assms(2) by (simp add: dupb_def)
  define s where "s = dup_into ?n p (snd (ALLOCMSGBLOCK st))"
  have d: "DUPB p st = (Some ?n, s)" using assms(1) by (simp add: DUPB_def ALLOCMSGBLOCK_def s_def)
  have h: "hdr s p = hdr st p" "d_dbref (dat s (m_bdatap (hdr st p))) = 0"
    using assms(2,4) by (simp_all add: s_def dup_into_def ALLOCMSGBLOCK_def)
  have "dup_rest ?n ?n p s = Some (Some ?n, s)" using assms(3) h(1) by (subst dup_rest.simps) simp
  then show "\<exists>n st'. dupmsg (Some p) st = Some (Some n, st') \<and> d_dbref (dat st' (m_bdatap (hdr st p))) = 0"
    using d h(2) by (simp add: dupmsg_def)
qed

text \<open>
  \<open>copyb\<close> copies from the word the data of the source begin in to the word the copy begins in: with a
  buffer of \<open>esballoc\<close> that is one byte off, each byte of the copy is the one before.
\<close>

lemma copyb_displaced:
  assumes "hdr st p = \<lparr>m_bcont = None, m_brptr = (Ext k, 0), m_bwptr = (Ext k, 4), m_bdatap = d, m_bband = 0, m_bflag = 0\<rparr>"
    and "d_dbbase (dat st d) = (Ext k, 0)" "d_dblim (dat st d) = (Ext k, 4)" "xaddr st k mod 4 = 1"
    and "allocb 4 st = (Some i, s)" "d_dbbase (dat s i) = (Fast i, 0)" "xaddr s = xaddr st" "0 \<le> j" "j < 4"
  shows "smem (snd (copyb p st)) (Fast i, j) = smem s (Ext k, j - 1)"
proof -
  have m: "(xaddr st k + 0) mod 4 = 1" using assms(4) by simp
  show ?thesis using assms m by (simp add: copyb_def Let_def straln_def padd_def bcopy_def baddr_def)
qed

text \<open>
  With no bytes to pull up the loop of \<open>pullupmsg\<close> does not run and \<open>b_cont\<close> is set to where it
  started: an empty unaligned block is linked to itself.
\<close>

lemma pullupmsg_cycle:
  assumes "m_bcont (hdr st mp) = None" "m_brptr (hdr st mp) = m_bwptr (hdr st mp)" "\<not> str_aligned st (m_brptr (hdr st mp))"
    and "d_dbref (dat st (m_bdatap (hdr st mp))) > 1" "allocb 0 st = (Some i, s)"
  shows "\<exists>st'. pullupmsg mp (-1) st = Some (1, st') \<and> m_bcont (hdr st' mp) = Some mp"
proof -
  have "pull_copy mp 0 (Some mp) dst t = Some (Some mp, dst, t)" for dst t by (subst pull_copy.simps) simp
  then show ?thesis using assms by (simp add: pullupmsg_def pull_shared_def Let_def blen_def) (simp add: take_over_def Let_def)
qed

end
