(* ===== verification/Strmb_Ctl.thy ===== *)
theory Strmb_Ctl imports Strmb_Copy begin

text \<open>
  \<open>putctl\<close>, \<open>putctl1\<close> and \<open>testb\<close> of \<open>io/stream.c\<close>: control messages made on the spot.  The put procedure
  of the queue is the argument \<open>putp\<close>, of the message it is given; a type is a byte.
\<close>

section \<open>The operations\<close>

definition testb :: "int \<Rightarrow> u32 \<Rightarrow> bool" where
  "testb sz avail \<longleftrightarrow> sz \<le> sint avail"

definition putctl :: "(mbp \<Rightarrow> mbst \<Rightarrow> mbst) \<Rightarrow> u8 \<Rightarrow> mbst \<Rightarrow> bool \<times> mbst" where
  "putctl putp ty st =
     (if datamsg ty \<and> ty \<noteq> M_DELAY then (False, st)
      else (case allocb 0 st of
              (None, st1) \<Rightarrow> (False, st1)
            | (Some i, st1) \<Rightarrow> (True, putp (Trip i) (upd_dat (m_bdatap (hdr st1 (Trip i))) (\<lambda>d. d\<lparr>d_dbtype := ty\<rparr>) st1))))"

definition putctl1 :: "(mbp \<Rightarrow> mbst \<Rightarrow> mbst) \<Rightarrow> u8 \<Rightarrow> u8 \<Rightarrow> mbst \<Rightarrow> bool \<times> mbst" where
  "putctl1 putp ty param st =
     (if datamsg ty \<and> ty \<noteq> M_DELAY then (False, st)
      else (case allocb 1 st of
              (None, st1) \<Rightarrow> (False, st1)
            | (Some i, st1) \<Rightarrow>
                let wp = m_bwptr (hdr st1 (Trip i));
                    st2 = upd_dat (m_bdatap (hdr st1 (Trip i))) (\<lambda>d. d\<lparr>d_dbtype := ty\<rparr>) st1;
                    st3 = upd_hdr (Trip i) (\<lambda>b. b\<lparr>m_bwptr := padd wp 1\<rparr>) (st2\<lparr>smem := (smem st2)(wp := param)\<rparr>)
                in (True, putp (Trip i) st3)))"

section \<open>What they do\<close>

text \<open>The fresh block as the put procedure gets it: alone, of the type asked for, with the text \<open>bs\<close>.\<close>

definition ctl_block :: "mbst \<Rightarrow> nat \<Rightarrow> u8 \<Rightarrow> u8 list \<Rightarrow> mbst \<Rightarrow> bool" where
  "ctl_block st i ty bs st' \<longleftrightarrow> mbst_ok st' \<and> grown {Trip i} {i} st st' \<and> msg_ok {} st' (Some (Trip i)) [Trip i] \<and>
     bview st' (Trip i) = (0, 0, ty, bs)"

lemma ctl_block_new:
  assumes nb: "new_block st i (int k) s" and mem: "\<And>q. fst q \<noteq> fst (d_dbbase (dat s i)) \<Longrightarrow> mem q = smem s q"
    and bs: "map (\<lambda>j. mem (fst (d_dbbase (dat s i)), j)) [0..int k - 1] = bs"
    and st': "st' = (upd_hdr (Trip i) (\<lambda>b. b\<lparr>m_bwptr := padd (d_dbbase (dat s i)) (int k)\<rparr>)
       (upd_dat i (\<lambda>d. d\<lparr>d_dbtype := ty\<rparr>) s))\<lparr>smem := mem\<rparr>"
  shows "ctl_block st i ty bs st'"
proof -
  let ?N = "fst (d_dbbase (dat s i))"
  have s: "mbst_ok s" "grown {Trip i} {i} st s" "refs {} s i = {Trip i}" "m_bdatap (hdr s (Trip i)) = i"
    "m_bcont (hdr s (Trip i)) = None" "snd (d_dbbase (dat s i)) = 0" "int k \<le> snd (d_dblim (dat s i))"
    "m_brptr (hdr s (Trip i)) = d_dbbase (dat s i)" "m_bband (hdr s (Trip i)) = 0" "m_bflag (hdr s (Trip i)) = 0"
    "smem s = smem st" "\<And>e. used st e \<Longrightarrow> fst (d_dbbase (dat st e)) \<noteq> ?N"
    using nb by (auto simp: new_block_def)
  have lp: "live s (Trip i)" and ui: "used s i" using s(2) unfolding grown_def by blast+
  have bi: "buf_ok s i (dat s i)" using mb_invD(3) [OF s(1) ui] by (simp add: dat_ok_def)
  have lv: "live st' q = live s q" "used st' e = used s e" for q e
    by (cases q; simp add: st') (simp add: st' used_def)
  have "mbst_ok st'"
  proof (rule mb_inv_rebuf [OF s(1) lp _ s(4) s(3), where L = "[]"])
    show "buf_ok st' i (dat st' i)" using bi by (simp add: st' buf_ok_def split: buf.splits)
    show "span_ok (hdr st' (Trip i)) (dat st' i)" using s(6-8) by (simp add: st' span_ok_def padd_def)
    show "\<And>e j. used s e \<Longrightarrow> e \<noteq> i \<Longrightarrow> fst (d_dbbase (dat st' i)) = Kmem j \<Longrightarrow> fst (d_dbbase (dat s e)) \<noteq> Kmem j"
      using mb_invD(4) [OF s(1)] ui unfolding bufs_apart_def by (auto simp: st')
  qed (use s(4) mb_invD(1) [OF s(1)] lv in \<open>simp_all add: st' free_ok_def del: live_simps\<close>)
  moreover have "grown {Trip i} {i} st st'"
    using s(2,11,12) lv mem unfolding grown_def by (auto simp: st' simp del: live_simps)
  moreover have "msg_ok {} st' (Some (Trip i)) [Trip i]" using lp lv(1) s(5) by (simp add: msg_ok_def st' del: live_simps)
  moreover have "bview st' (Trip i) = (0, 0, ty, bs)"
    using s(4,6,8-10) bs by (simp add: bview_def btype_def btext_def st' padd_def)
  ultimately show ?thesis by (simp add: ctl_block_def)
qed

lemma putctl_spec:
  assumes ok: "mbst_ok st"
  shows "if datamsg ty \<and> ty \<noteq> M_DELAY then putctl putp ty st = (False, st)
    else (\<exists>st1. fst (allocb 0 st) = None \<and> putctl putp ty st = (False, st1) \<and> mbst_ok st1 \<and> grown {} {} st st1) \<or>
      (\<exists>i st1. putctl putp ty st = (True, putp (Trip i) st1) \<and> ctl_block st i ty [] st1)"
proof (cases "datamsg ty \<and> ty \<noteq> M_DELAY")
  case False
  obtain r s where al: "allocb 0 st = (r, s)" by fastforce
  note af = allocb_facts [OF ok al]
  show ?thesis
  proof (cases r)
    case None
    then show ?thesis using af al False by (auto simp: putctl_def)
  next
    case (Some i)
    then have nb: "new_block st i (int 0) s" using af by simp
    define t where "t = (upd_hdr (Trip i) (\<lambda>b. b\<lparr>m_bwptr := padd (d_dbbase (dat s i)) (int 0)\<rparr>)
       (upd_dat i (\<lambda>d. d\<lparr>d_dbtype := ty\<rparr>) s))\<lparr>smem := smem s\<rparr>"
    have "ctl_block st i ty [] t" by (rule ctl_block_new [OF nb _ _ t_def]) simp_all
    moreover have "t = upd_dat (m_bdatap (hdr s (Trip i))) (\<lambda>d. d\<lparr>d_dbtype := ty\<rparr>) s"
    proof -
      have "(hdr s (Trip i))\<lparr>m_bwptr := d_dbbase (dat s i)\<rparr> = hdr s (Trip i)" "m_bdatap (hdr s (Trip i)) = i"
        using nb by (simp_all add: new_block_def)
      then show ?thesis by (simp add: t_def upd_hdr_def upd_dat_def padd_def fun_upd_idem)
    qed
    ultimately have "putctl putp ty st = (True, putp (Trip i) t) \<and> ctl_block st i ty [] t"
      using al Some False by (simp add: putctl_def)
    then show ?thesis using False by auto
  qed
qed (simp add: putctl_def)

lemma putctl1_spec:
  assumes ok: "mbst_ok st"
  shows "if datamsg ty \<and> ty \<noteq> M_DELAY then putctl1 putp ty param st = (False, st)
    else (\<exists>st1. fst (allocb 1 st) = None \<and> putctl1 putp ty param st = (False, st1) \<and> mbst_ok st1 \<and> grown {} {} st st1) \<or>
      (\<exists>i st1. putctl1 putp ty param st = (True, putp (Trip i) st1) \<and> ctl_block st i ty [param] st1)"
proof (cases "datamsg ty \<and> ty \<noteq> M_DELAY")
  case False
  obtain r s where al: "allocb 1 st = (r, s)" by fastforce
  note af = allocb_facts [OF ok al]
  show ?thesis
  proof (cases r)
    case None
    then show ?thesis using af al False by (auto simp: putctl1_def)
  next
    case (Some i)
    then have nb: "new_block st i (int 1) s" using af by simp
    define t where "t = (upd_hdr (Trip i) (\<lambda>b. b\<lparr>m_bwptr := padd (d_dbbase (dat s i)) (int 1)\<rparr>)
       (upd_dat i (\<lambda>d. d\<lparr>d_dbtype := ty\<rparr>) s))\<lparr>smem := (smem s)(d_dbbase (dat s i) := param)\<rparr>"
    have z: "d_dbbase (dat s i) = (fst (d_dbbase (dat s i)), 0)" using nb by (simp add: new_block_def prod_eq_iff)
    have "ctl_block st i ty [param] t" by (rule ctl_block_new [OF nb _ _ t_def]) (use z in auto)
    moreover have "t = upd_hdr (Trip i) (\<lambda>b. b\<lparr>m_bwptr := padd (m_bwptr (hdr s (Trip i))) 1\<rparr>)
      ((upd_dat (m_bdatap (hdr s (Trip i))) (\<lambda>d. d\<lparr>d_dbtype := ty\<rparr>) s)\<lparr>smem := (smem s)(m_bwptr (hdr s (Trip i)) := param)\<rparr>)"
      using nb by (simp add: t_def new_block_def upd_hdr_def upd_dat_def)
    moreover have "smem (upd_dat d f s) = smem s" for d f by (simp add: upd_dat_def)
    ultimately have "putctl1 putp ty param st = (True, putp (Trip i) t) \<and> ctl_block st i ty [param] t"
      using al Some False by (simp add: putctl1_def Let_def)
    then show ?thesis using False by auto
  qed
qed (simp add: putctl1_def)

text \<open>What is on hold elsewhere reads as before.\<close>

lemma ctl_block_others: "ctl_block st i ty bs st' \<Longrightarrow> mbst_ok st \<Longrightarrow> live st p \<Longrightarrow> bview st' p = bview st p"
  unfolding ctl_block_def using grown_bview by blast

text \<open>A message type that is neither data nor a delay always goes out, memory permitting; \<open>M_DELAY\<close> does too.\<close>

lemma putctl_types: "putctl putp ty st = (True, st') \<Longrightarrow> ty \<notin> {M_DATA, M_PROTO, M_PCPROTO}"
  by (auto simp: putctl_def datamsg_def M_DATA_def M_PROTO_def M_PCPROTO_def M_DELAY_def split: if_splits)

end
