(* ===== verification/Mux.thy ===== *)
theory Mux imports Strmb begin

text \<open>
  The links of multiplexing drivers, from \<open>os/strsubr.c\<close> and \<open>sys/strsubr.h\<close>: the table of links
  (\<open>alloclink\<close>, \<open>lbfree\<close>, \<open>findlinks\<close>) and the directed graph of the major devices (\<open>mux_addedge\<close>,
  \<open>mux_rmvedge\<close>) that \<open>linkcycle\<close> searches before a link is made.  A pointer to a node is its index
  in \<open>mux_nodes\<close>, a pointer to an edge is the list of edges from there on; \<open>mn_startp\<close>, where the search
  left off, is such a list of its own, since the code leaves it behind when edges go.
\<close>

section \<open>State\<close>

record mux_edge =
  me_nodep :: nat
  me_muxid :: u32

record mux_node =
  mn_imaj :: nat
  mn_originp :: "nat option"
  mn_startp :: "mux_edge list"
  mn_outp :: "mux_edge list"
  mn_flags :: u32

record linkblk =
  l_qtop :: "nat option"
  l_qbot :: nat
  l_index :: u32

record linkinfo =
  li_lblk :: linkblk
  li_fpdown :: nat

record linkst =
  links :: "linkinfo list"
  lnk_id :: u32
  linkblk_use :: alcdat
  lb_cnt :: int
  lstrcount :: int

definition VISITED :: u32 where "VISITED = 1"

definition MUX_VISIT :: "mux_node \<Rightarrow> mux_node" where
  "MUX_VISIT np = np\<lparr>mn_flags := mn_flags np OR VISITED\<rparr>"

definition MUX_CLEAR :: "mux_node \<Rightarrow> mux_node" where
  "MUX_CLEAR np = np\<lparr>mn_flags := mn_flags np AND NOT VISITED, mn_originp := None\<rparr>"

definition MUX_DIDVISIT :: "mux_node \<Rightarrow> bool" where
  "MUX_DIDVISIT np \<longleftrightarrow> mn_flags np AND VISITED \<noteq> 0"

section \<open>The search for a cycle\<close>

text \<open>The loop of \<open>linkcycle\<close>, which may go on for ever; the result 1 is \<open>True\<close>.\<close>

partial_function (option) cycle_loop :: "nat \<Rightarrow> nat \<Rightarrow> mux_node list \<Rightarrow> (bool \<times> mux_node list) option" where
  [code]: "cycle_loop upmaj np ns =
     (let n = ns ! np
      in if \<not> MUX_DIDVISIT n then
           (if mn_imaj n = upmaj then Some (True, ns)
            else if mn_outp n = [] then
              (case mn_originp n of
                 None \<Rightarrow> Some (False, ns[np := MUX_VISIT n])
               | Some q \<Rightarrow> cycle_loop upmaj q (ns[np := MUX_VISIT n]))
            else cycle_loop upmaj np (ns[np := (MUX_VISIT n)\<lparr>mn_startp := mn_outp n\<rparr>]))
         else
           (case mn_startp n of
              [] \<Rightarrow> (case mn_originp n of None \<Rightarrow> Some (False, ns) | Some q \<Rightarrow> cycle_loop upmaj q ns)
            | ep # es \<Rightarrow>
                let ns1 = ns[np := n\<lparr>mn_startp := es\<rparr>];
                    c = me_nodep ep
                in cycle_loop upmaj c (ns1[c := (ns1 ! c)\<lparr>mn_originp := Some np\<rparr>])))"

text \<open>\<open>fifo\<close>: the lower stream is a pipe or FIFO; the streams are given by their major devices.\<close>

definition linkcycle :: "bool \<Rightarrow> nat \<Rightarrow> nat \<Rightarrow> mux_node list \<Rightarrow> (bool \<times> mux_node list) option" where
  "linkcycle fifo upmaj lomaj ns =
     (if fifo then Some (False, ns) else cycle_loop upmaj lomaj (map MUX_CLEAR ns))"

section \<open>Edges\<close>

text \<open>\<open>mem\<close> is the outcome of \<open>kmem_alloc\<close>.\<close>

definition mux_addedge :: "bool \<Rightarrow> nat \<Rightarrow> nat \<Rightarrow> u32 \<Rightarrow> mux_node list \<Rightarrow> errno option \<times> mux_node list" where
  "mux_addedge mem upmaj lomaj muxid ns =
     (if \<not> mem then (Some EAGAIN, ns)
      else (None, ns[upmaj := (ns ! upmaj)\<lparr>mn_outp := mn_outp (ns ! upmaj) @ [\<lparr>me_nodep = lomaj, me_muxid = muxid\<rparr>]\<rparr>]))"

fun rmv_edge :: "u32 \<Rightarrow> mux_edge list \<Rightarrow> mux_edge list" where
  "rmv_edge muxid [] = []"
| "rmv_edge muxid (ep # es) = (if me_muxid ep = muxid then es else ep # rmv_edge muxid es)"

definition mux_rmvedge :: "nat \<Rightarrow> u32 \<Rightarrow> mux_node list \<Rightarrow> mux_node list" where
  "mux_rmvedge upmaj muxid ns = ns[upmaj := (ns ! upmaj)\<lparr>mn_outp := rmv_edge muxid (mn_outp (ns ! upmaj))\<rparr>]"

section \<open>The table of links\<close>

text \<open>The loop that looks for an identifier no link has; 0 is left out.\<close>

definition next_id :: "u32 \<Rightarrow> u32" where
  "next_id w = (if w + 1 = 0 then 1 else w + 1)"

partial_function (option) pick_id :: "linkinfo list \<Rightarrow> u32 \<Rightarrow> u32 option" where
  [code]: "pick_id lps w =
     (let i = next_id w
      in if \<exists>lp\<in>set lps. l_index (li_lblk lp) = i then pick_id lps i else Some i)"

definition alloclink :: "bool \<Rightarrow> nat option \<Rightarrow> nat \<Rightarrow> nat \<Rightarrow> linkst \<Rightarrow> (linkinfo option \<times> linkst) option" where
  "alloclink mem qup qdown fpdown st =
     (if \<not> mem then Some (None, st\<lparr>linkblk_use := al_failed (linkblk_use st)\<rparr>)
      else map_option (\<lambda>i.
        let linkp = \<lparr>li_lblk = \<lparr>l_qtop = qup, l_qbot = qdown, l_index = i\<rparr>, li_fpdown = fpdown\<rparr>
        in (Some linkp, st\<lparr>links := linkp # links st, lnk_id := i, linkblk_use := bumpup (linkblk_use st),
              lb_cnt := lb_cnt st + 1, lstrcount := lstrcount st + 44\<rparr>)) (pick_id (links st) (lnk_id st)))"

text \<open>The link freed is given by its identifier, which no other link has.\<close>

definition lbfree :: "u32 \<Rightarrow> linkst \<Rightarrow> linkst" where
  "lbfree i st = st\<lparr>links := filter (\<lambda>lp. l_index (li_lblk lp) \<noteq> i) (links st), lb_cnt := lb_cnt st - 1,
     lstrcount := lstrcount st - 44, linkblk_use := use_down (linkblk_use st)\<rparr>"

text \<open>\<open>qup\<close> is the last write queue of the stream, its \<open>getendq\<close>.\<close>

definition findlinks :: "bool \<Rightarrow> nat \<Rightarrow> nat \<Rightarrow> u32 \<Rightarrow> mux_node list \<Rightarrow> linkst \<Rightarrow> linkinfo option" where
  "findlinks persist qup maj index ns st =
     (if \<not> persist then
        find (\<lambda>lp. l_qtop (li_lblk lp) = Some qup \<and> (index = 0 \<or> index = l_index (li_lblk lp))) (links st)
      else (case find (\<lambda>mep. index = 0 \<or> index = me_muxid mep) (mn_outp (ns ! maj)) of
              None \<Rightarrow> None
            | Some mep \<Rightarrow> find (\<lambda>lp. l_qtop (li_lblk lp) = None \<and> me_muxid mep = l_index (li_lblk lp)) (links st)))"

end
