(* ===== verification/Mux_Set.thy ===== *)
theory Mux_Set imports Mux begin

text \<open>
  What holds of the multiplexor links: the search of \<open>linkcycle\<close> ends on a graph without cycles and
  tells reachability, so the graph stays without cycles while links are made as they should be; link
  identifiers are fresh; and two slips, a stale pointer and a race, after which neither is so.
\<close>

section \<open>The graph\<close>

definition edges :: "mux_node list \<Rightarrow> (nat \<times> nat) set" where
  "edges ns = {(v, w). v < length ns \<and> (\<exists>e\<in>set (mn_outp (ns ! v)). me_nodep e = w)}"

definition vis :: "mux_node list \<Rightarrow> nat \<Rightarrow> bool" where
  "vis ns v = MUX_DIDVISIT (ns ! v)"

text \<open>
  What the search relies on: the nodes know their numbers, edges lead to nodes, and a node without
  edges has none left to search from before.
\<close>

definition graph_ok :: "mux_node list \<Rightarrow> bool" where
  "graph_ok ns \<longleftrightarrow> (\<forall>v<length ns. mn_imaj (ns ! v) = v \<and> (\<forall>e\<in>set (mn_outp (ns ! v)). me_nodep e < length ns))"

definition no_stale :: "mux_node list \<Rightarrow> bool" where
  "no_stale ns \<longleftrightarrow> (\<forall>v<length ns. mn_outp (ns ! v) = [] \<longrightarrow> mn_startp (ns ! v) = [])"

text \<open>What the search leaves alone.\<close>

definition same_graph :: "mux_node list \<Rightarrow> mux_node list \<Rightarrow> bool" where
  "same_graph ns ns' \<longleftrightarrow> map mn_imaj ns' = map mn_imaj ns \<and> map mn_outp ns' = map mn_outp ns"

lemma same_graph_nth:
  "same_graph ns ns' \<longleftrightarrow> length ns' = length ns \<and>
     (\<forall>v<length ns. mn_imaj (ns' ! v) = mn_imaj (ns ! v) \<and> mn_outp (ns' ! v) = mn_outp (ns ! v))"
  by (auto simp: same_graph_def list_eq_iff_nth_eq)

lemma same_graphD:
  assumes "same_graph ns ns'"
  shows "length ns' = length ns" "edges ns' = edges ns" "graph_ok ns' = graph_ok ns"
  using assms by (auto simp: same_graph_nth edges_def graph_ok_def)

lemma same_graph_refl [simp]: "same_graph ns ns"
  by (simp add: same_graph_def)

lemma same_graph_trans: "same_graph a b \<Longrightarrow> same_graph b c \<Longrightarrow> same_graph a c"
  by (simp add: same_graph_def)

lemma same_graph_update:
  "mn_imaj f = mn_imaj (ns ! v) \<Longrightarrow> mn_outp f = mn_outp (ns ! v) \<Longrightarrow> same_graph ns (ns[v := f])"
  by (cases "v < length ns") (auto simp: same_graph_nth nth_list_update)

lemma visit_simps [simp]:
  "MUX_DIDVISIT (MUX_VISIT n)" "\<not> MUX_DIDVISIT (MUX_CLEAR n)"
  "mn_imaj (MUX_VISIT n) = mn_imaj n" "mn_originp (MUX_VISIT n) = mn_originp n" "mn_startp (MUX_VISIT n) = mn_startp n"
  "mn_outp (MUX_VISIT n) = mn_outp n" "mn_imaj (MUX_CLEAR n) = mn_imaj n" "mn_originp (MUX_CLEAR n) = None"
  "mn_startp (MUX_CLEAR n) = mn_startp n" "mn_outp (MUX_CLEAR n) = mn_outp n"
  "MUX_DIDVISIT (n\<lparr>mn_startp := es\<rparr>) = MUX_DIDVISIT n" "MUX_DIDVISIT (n\<lparr>mn_originp := q\<rparr>) = MUX_DIDVISIT n"
proof -
  have "(w OR 1) AND 1 = (1 :: u32)" for w by (rule bit_word_eqI) (auto simp: bit_and_iff bit_or_iff bit_1_iff)
  then show "MUX_DIDVISIT (MUX_VISIT n)" by (simp add: MUX_DIDVISIT_def MUX_VISIT_def VISITED_def)
  have "(w AND NOT 1) AND 1 = (0 :: u32)" for w by (rule bit_word_eqI) (auto simp: bit_and_iff bit_not_iff bit_1_iff)
  then show "\<not> MUX_DIDVISIT (MUX_CLEAR n)" by (simp add: MUX_DIDVISIT_def MUX_CLEAR_def VISITED_def)
qed (simp_all add: MUX_VISIT_def MUX_CLEAR_def MUX_DIDVISIT_def)

section \<open>The search\<close>

text \<open>\<open>searched G ns up v\<close>: all that can be reached from \<open>v\<close> has been searched, and \<open>up\<close> is not among it.\<close>

definition searched :: "(nat \<times> nat) set \<Rightarrow> mux_node list \<Rightarrow> nat \<Rightarrow> nat \<Rightarrow> bool" where
  "searched G ns up v \<longleftrightarrow> (\<forall>w. (v, w) \<in> G\<^sup>* \<longrightarrow> vis ns w \<and> mn_startp (ns ! w) = [] \<and> w \<noteq> up)"

text \<open>Before a node is gone into, all that can be reached from it is searched or not yet visited.\<close>

definition open_below :: "(nat \<times> nat) set \<Rightarrow> mux_node list \<Rightarrow> nat \<Rightarrow> nat \<Rightarrow> bool" where
  "open_below G ns up v \<longleftrightarrow> (\<forall>w. (v, w) \<in> G\<^sup>* \<longrightarrow> \<not> vis ns w \<or> searched G ns up w)"

lemma searched_below: "searched G ns up v \<Longrightarrow> (v, w) \<in> G\<^sup>* \<Longrightarrow> searched G ns up w"
  unfolding searched_def using rtrancl_trans [of v w G] by blast

lemma searched_cong:
  assumes "searched G ns up v"
    "\<And>w. (v, w) \<in> G\<^sup>* \<Longrightarrow> vis ns' w = vis ns w \<and> mn_startp (ns' ! w) = mn_startp (ns ! w) \<or> searched G ns' up w"
  shows "searched G ns' up v"
proof -
  have "vis ns' w \<and> mn_startp (ns' ! w) = [] \<and> w \<noteq> up" if "(v, w) \<in> G\<^sup>*" for w
    using assms(2) [OF that]
  proof
    assume "searched G ns' up w"
    then show ?thesis by (simp add: searched_def)
  qed (use assms(1) that in \<open>simp add: searched_def\<close>)
  then show ?thesis by (simp add: searched_def)
qed

text \<open>
  What the search from \<open>v\<close> does: it finds \<open>up\<close>, or comes back to \<open>v\<close> with all below it searched, having
  touched nothing else.
\<close>

definition explored :: "(nat \<times> nat) set \<Rightarrow> nat \<Rightarrow> nat \<Rightarrow> mux_node list \<Rightarrow> bool" where
  "explored G up v ns \<longleftrightarrow> (\<exists>ns'. same_graph ns ns' \<and>
     (cycle_loop up v ns = Some (True, ns') \<and> (v, up) \<in> G\<^sup>* \<or>
      cycle_loop up v ns = cycle_loop up v ns' \<and> searched G ns' up v \<and> mn_originp (ns' ! v) = mn_originp (ns ! v) \<and>
      (\<forall>w. (v, w) \<notin> G\<^sup>* \<longrightarrow> ns' ! w = ns ! w)))"

lemma cycle_children:
  assumes "graph_ok ns" "G = edges ns" "acyclic G" "v < length ns" "v \<noteq> up"
    and IH: "\<And>c ms. (v, c) \<in> G \<Longrightarrow> same_graph ns ms \<Longrightarrow> no_stale ms \<Longrightarrow> open_below G ms up c \<Longrightarrow> explored G up c ms"
    and "same_graph ns ms" "no_stale ms" "vis ms v" "mn_startp (ms ! v) = es" "set es \<subseteq> set (mn_outp (ns ! v))" "mn_outp (ns ! v) \<noteq> []"
    and "\<And>w. (v, w) \<in> G\<^sup>+ \<Longrightarrow> \<not> vis ms w \<or> searched G ms up w"
    and "\<And>e. e \<in> set (mn_outp (ns ! v)) \<Longrightarrow> e \<in> set es \<or> searched G ms up (me_nodep e)"
  shows "explored G up v ms"
  using assms(7-)
proof (induction es arbitrary: ms)
  case Nil
  have s: "searched G ms up v"
  proof -
    have "vis ms w \<and> mn_startp (ms ! w) = [] \<and> w \<noteq> up" if "(v, w) \<in> G\<^sup>*" for w
      using that
    proof (cases rule: converse_rtranclE)
      case base
      then show ?thesis using Nil.prems(3,4) assms(5) by simp
    next
      case (step c)
      then obtain e where "e \<in> set (mn_outp (ns ! v))" "me_nodep e = c" using assms(2) by (auto simp: edges_def)
      then have "searched G ms up c" using Nil.prems(8) by auto
      then show ?thesis using step(2) by (simp add: searched_def)
    qed
    then show ?thesis by (simp add: searched_def)
  qed
  then show ?case unfolding explored_def by (intro exI [of _ ms]) simp
next
  case (Cons ep es)
  let ?c = "me_nodep ep"
  have vc: "(v, ?c) \<in> G" using Cons.prems(5) assms(2,4) by (auto simp: edges_def)
  have lc: "?c < length ns" using Cons.prems(5) assms(1,4) by (auto simp: graph_ok_def)
  have ne: "?c \<noteq> v" "(?c, v) \<notin> G\<^sup>*" using assms(3) vc unfolding acyclic_def
    by (auto dest: rtrancl_into_trancl2)
  have len: "length ms = length ns" using same_graphD(1) [OF Cons.prems(1)] .
  define m1 where "m1 = ms[v := (ms ! v)\<lparr>mn_startp := es\<rparr>]"
  define m2 where "m2 = m1[?c := (m1 ! ?c)\<lparr>mn_originp := Some v\<rparr>]"
  have loop: "cycle_loop up v ms = cycle_loop up ?c m2"
    using Cons.prems(3,4) by (subst cycle_loop.simps) (simp add: Let_def vis_def m1_def m2_def)
  have at: "m2 ! w = (if w = ?c then (ms ! ?c)\<lparr>mn_originp := Some v\<rparr> else if w = v then (ms ! v)\<lparr>mn_startp := es\<rparr> else ms ! w)" for w
    using ne(1) lc assms(4) len by (auto simp: m2_def m1_def nth_list_update)
  have g2: "same_graph ns m2"
    using Cons.prems(1) len by (auto simp: same_graph_nth at) (auto simp: m2_def m1_def)
  have st2: "no_stale m2" using Cons.prems(2,6) len assms(4) Cons.prems(1) by (auto simp: no_stale_def at same_graph_nth) (auto simp: m2_def m1_def)
  have v2: "vis m2 w = vis ms w" for w by (simp add: vis_def at)
  have s2: "mn_startp (m2 ! w) = mn_startp (ms ! w)" if "w \<noteq> v" for w using that by (simp add: at)
  have keep: "searched G m2 up w" if "searched G ms up w" "(v, w) \<in> G\<^sup>+" for w
  proof (rule searched_cong [OF that(1)])
    fix x assume "(w, x) \<in> G\<^sup>*"
    then have "x \<noteq> v" using that(2) assms(3) unfolding acyclic_def by (meson trancl_rtrancl_trancl)
    then show "vis m2 x = vis ms x \<and> mn_startp (m2 ! x) = mn_startp (ms ! x) \<or> searched G m2 up x" using v2 s2 by simp
  qed
  have "open_below G m2 up ?c"
  proof -
    have "\<not> vis m2 w \<or> searched G m2 up w" if "(?c, w) \<in> G\<^sup>*" for w
    proof -
      have "(v, w) \<in> G\<^sup>+" using vc that by (rule rtrancl_into_trancl2)
      then show ?thesis using Cons.prems(7) keep v2 by blast
    qed
    then show ?thesis by (simp add: open_below_def)
  qed
  from IH [OF vc g2 st2 this] obtain m3 where g3: "same_graph m2 m3" and
    m3: "cycle_loop up ?c m2 = Some (True, m3) \<and> (?c, up) \<in> G\<^sup>* \<or>
      cycle_loop up ?c m2 = cycle_loop up ?c m3 \<and> searched G m3 up ?c \<and> mn_originp (m3 ! ?c) = mn_originp (m2 ! ?c) \<and>
      (\<forall>w. (?c, w) \<notin> G\<^sup>* \<longrightarrow> m3 ! w = m2 ! w)" unfolding explored_def by blast
  have gm: "same_graph ms m3"
    using g2 g3 Cons.prems(1) by (simp add: same_graph_def)
  show ?case using m3
  proof (elim disjE conjE)
    assume "cycle_loop up ?c m2 = Some (True, m3)" "(?c, up) \<in> G\<^sup>*"
    then show ?thesis using loop vc gm unfolding explored_def by (auto intro: converse_rtrancl_into_rtrancl)
  next
    assume l3: "cycle_loop up ?c m2 = cycle_loop up ?c m3" and d3: "searched G m3 up ?c"
      and o3: "mn_originp (m3 ! ?c) = mn_originp (m2 ! ?c)" and k3: "\<forall>w. (?c, w) \<notin> G\<^sup>* \<longrightarrow> m3 ! w = m2 ! w"
    have c3: "vis m3 ?c" "mn_startp (m3 ! ?c) = []" using d3 by (auto simp: searched_def)
    have "cycle_loop up ?c m3 = cycle_loop up v m3"
      using c3 o3 by (subst cycle_loop.simps) (simp add: Let_def vis_def at)
    then have lv: "cycle_loop up v ms = cycle_loop up v m3" using loop l3 by simp
    have v3: "m3 ! v = (ms ! v)\<lparr>mn_startp := es\<rparr>" using k3 ne by (simp add: at)
    have g3': "same_graph ns m3" using same_graph_trans [OF g2 g3] .
    have keep3: "searched G m3 up w" if "searched G ms up w" "(v, w) \<in> G\<^sup>+" for w
    proof (rule searched_cong [OF keep [OF that]])
      fix x assume "(w, x) \<in> G\<^sup>*"
      show "vis m3 x = vis m2 x \<and> mn_startp (m3 ! x) = mn_startp (m2 ! x) \<or> searched G m3 up x"
        using k3 searched_below [OF d3] by (cases "(?c, x) \<in> G\<^sup>*") (simp_all add: vis_def)
    qed
    have below3: "\<not> vis m3 w \<or> searched G m3 up w" if "(v, w) \<in> G\<^sup>+" for w
    proof (cases "(?c, w) \<in> G\<^sup>*")
      case True
      then show ?thesis using searched_below [OF d3] by blast
    next
      case False
      then have "vis m3 w = vis ms w" using k3 v2 by (simp add: vis_def)
      then show ?thesis using Cons.prems(7) [OF that] keep3 that by blast
    qed
    have st3: "no_stale m3"
    proof -
      have "mn_startp (m3 ! w) = []" if w: "w < length m3" "mn_outp (m3 ! w) = []" for w
      proof (cases "(?c, w) \<in> G\<^sup>*")
        case True
        then show ?thesis using d3 by (simp add: searched_def)
      next
        case False
        then show ?thesis using k3 st2 w same_graphD(1) [OF g3] by (simp add: no_stale_def)
      qed
      then show ?thesis by (simp add: no_stale_def)
    qed
    have ch: "e \<in> set es \<or> searched G m3 up (me_nodep e)" if "e \<in> set (mn_outp (ns ! v))" for e
    proof -
      have "(v, me_nodep e) \<in> G\<^sup>+" using that assms(2,4) by (auto simp: edges_def)
      then show ?thesis using Cons.prems(8) [OF that] keep3 d3 by auto
    qed
    have v3': "vis m3 v" "mn_startp (m3 ! v) = es" "set es \<subseteq> set (mn_outp (ns ! v))"
      using v3 Cons.prems(3,5) by (auto simp: vis_def)
    have "explored G up v m3"
      by (rule Cons.IH [OF g3' st3 v3' Cons.prems(6) below3 ch])
    then obtain m4 where m4: "same_graph m3 m4" "cycle_loop up v m3 = Some (True, m4) \<and> (v, up) \<in> G\<^sup>* \<or>
      cycle_loop up v m3 = cycle_loop up v m4 \<and> searched G m4 up v \<and> mn_originp (m4 ! v) = mn_originp (m3 ! v) \<and>
      (\<forall>w. (v, w) \<notin> G\<^sup>* \<longrightarrow> m4 ! w = m3 ! w)" unfolding explored_def by blast
    have "m3 ! w = ms ! w" if "(v, w) \<notin> G\<^sup>*" for w
    proof -
      have "w \<noteq> v" "(?c, w) \<notin> G\<^sup>*" "w \<noteq> ?c" using that vc by (auto intro: converse_rtrancl_into_rtrancl)
      then show ?thesis using k3 by (simp add: at)
    qed
    then show ?thesis unfolding explored_def
      using m4 lv same_graph_trans [OF gm m4(1)] v3 by (intro exI [of _ m4]) auto
  qed
qed
lemma finite_edges: "finite (edges ns)"
proof -
  have "edges ns \<subseteq> {..<length ns} \<times> (\<Union>v<length ns. me_nodep ` set (mn_outp (ns ! v)))" by (auto simp: edges_def)
  then show ?thesis by (rule finite_subset) auto
qed

lemma explore:
  assumes "graph_ok ns" "acyclic (edges ns)"
  shows "v < length ns \<Longrightarrow> same_graph ns ms \<Longrightarrow> no_stale ms \<Longrightarrow> open_below (edges ns) ms up v \<Longrightarrow> explored (edges ns) up v ms"
proof (induction v arbitrary: ms rule: wf_induct_rule [OF finite_acyclic_wf_converse [OF finite_edges assms(2)]])
  case (1 v)
  let ?G = "edges ns"
  have len: "length ms = length ns" by (rule same_graphD(1) [OF 1(3)])
  have IH: "explored ?G up c ss" if "(v, c) \<in> ?G" "same_graph ns ss" "no_stale ss" "open_below ?G ss up c" for c ss
  proof (rule 1(1))
    show "c < length ns" using that(1) assms(1) by (auto simp: edges_def graph_ok_def)
  qed (use that in auto)
  have nd: "mn_imaj (ms ! v) = v" "mn_outp (ms ! v) = mn_outp (ns ! v)"
    using assms(1) 1(2,3) by (auto simp: graph_ok_def same_graph_nth)
  have irr: "(v, w) \<in> ?G\<^sup>+ \<Longrightarrow> w \<noteq> v" for w using assms(2) by (auto simp: acyclic_def)
  consider "searched ?G ms up v" | "\<not> vis ms v" "v = up" | "\<not> vis ms v" "v \<noteq> up"
    using 1(5) by (auto simp: open_below_def)
  then show ?case
  proof cases
    case 1
    then show ?thesis unfolding explored_def by (intro exI [of _ ms]) simp
  next
    case 2
    then have "cycle_loop up v ms = Some (True, ms)" using nd by (subst cycle_loop.simps) (simp add: Let_def vis_def)
    then show ?thesis using 2 unfolding explored_def by (intro exI [of _ ms]) simp
  next
    case 3
    show ?thesis
    proof (cases "mn_outp (ns ! v) = []")
      case True
      define m1 where "m1 = ms[v := MUX_VISIT (ms ! v)]"
      have m1v: "m1 ! v = MUX_VISIT (ms ! v)" using "1.prems"(1) len by (simp add: m1_def)
      have st: "mn_startp (ms ! v) = []" using "1.prems"(1,3) len nd(2) True by (simp add: no_stale_def)
      have "cycle_loop up v ms = (case mn_originp (ms ! v) of None \<Rightarrow> Some (False, m1) | Some q \<Rightarrow> cycle_loop up q m1)"
        using 3 nd True by (subst cycle_loop.simps) (simp add: Let_def vis_def m1_def cong: option.case_cong)
      also have "\<dots> = cycle_loop up v m1"
        using st m1v by (subst cycle_loop.simps) (simp add: Let_def)
      finally have "cycle_loop up v ms = cycle_loop up v m1" .
      moreover have "(v, w) \<in> ?G\<^sup>* \<longleftrightarrow> w = v" for w
        using True by (auto simp: edges_def elim: converse_rtranclE)
      moreover have "searched ?G m1 up v" using calculation(2) m1v st 3(2) by (simp add: searched_def vis_def)
      moreover have "same_graph ms m1" unfolding m1_def by (rule same_graph_update) simp_all
      ultimately show ?thesis unfolding explored_def using m1v by (intro exI [of _ m1]) (auto simp: m1_def)
    next
      case False
      define m1 where "m1 = ms[v := (MUX_VISIT (ms ! v))\<lparr>mn_startp := mn_outp (ms ! v)\<rparr>]"
      have at: "m1 ! w = (if w = v then (MUX_VISIT (ms ! v))\<lparr>mn_startp := mn_outp (ms ! v)\<rparr> else ms ! w)" for w
        using "1.prems"(1) len by (simp add: m1_def)
      have loop: "cycle_loop up v ms = cycle_loop up v m1"
        using 3 nd False by (subst cycle_loop.simps) (simp add: Let_def vis_def m1_def)
      have g: "same_graph ms m1" unfolding m1_def by (rule same_graph_update) simp_all
      have g1: "same_graph ns m1" by (rule same_graph_trans [OF "1.prems"(2) g])
      have st1: "no_stale m1" using "1.prems"(3) False nd by (simp add: no_stale_def at) (simp add: m1_def)
      have below: "\<not> vis m1 w \<or> searched ?G m1 up w" if w: "(v, w) \<in> ?G\<^sup>+" for w
      proof -
        have "searched ?G m1 up w" if "searched ?G ms up w"
        proof (rule searched_cong [OF that])
          fix x assume "(w, x) \<in> ?G\<^sup>*"
          then have "x \<noteq> v" using w irr trancl_rtrancl_trancl by metis
          then show "vis m1 x = vis ms x \<and> mn_startp (m1 ! x) = mn_startp (ms ! x) \<or> searched ?G m1 up x" by (simp add: vis_def at)
        qed
        moreover have "vis m1 w = vis ms w" using irr [OF w] by (simp add: vis_def at)
        ultimately show ?thesis using "1.prems"(4) w by (auto simp: open_below_def dest: trancl_into_rtrancl)
      qed
      have v1: "vis m1 v" "mn_startp (m1 ! v) = mn_outp (ns ! v)" using nd by (simp_all add: vis_def at)
      have "explored ?G up v m1"
        by (rule cycle_children [OF assms(1) refl assms(2) "1.prems"(1) 3(2) IH g1 st1 v1(1,2) subset_refl False below]) simp_all
      then obtain m2 where m2: "same_graph m1 m2" "cycle_loop up v m1 = Some (True, m2) \<and> (v, up) \<in> ?G\<^sup>* \<or>
          cycle_loop up v m1 = cycle_loop up v m2 \<and> searched ?G m2 up v \<and> mn_originp (m2 ! v) = mn_originp (m1 ! v) \<and>
          (\<forall>w. (v, w) \<notin> ?G\<^sup>* \<longrightarrow> m2 ! w = m1 ! w)" unfolding explored_def by blast
      moreover have "m1 ! w = ms ! w" if "(v, w) \<notin> ?G\<^sup>*" for w using that by (auto simp: at)
      moreover have "mn_originp (m1 ! v) = mn_originp (ms ! v)" by (simp add: at)
      ultimately show ?thesis unfolding explored_def using loop same_graph_trans [OF g m2(1)] by (intro exI [of _ m2]) auto
    qed
  qed
qed

lemma clear_same: "same_graph ns (map MUX_CLEAR ns)"
  by (simp add: same_graph_nth)

lemma linkcycle_spec:
  assumes "graph_ok ns" "no_stale ns" "acyclic (edges ns)" "lomaj < length ns"
  shows "\<exists>r ns'. linkcycle False upmaj lomaj ns = Some (r, ns') \<and> same_graph ns ns' \<and> (r \<longleftrightarrow> (lomaj, upmaj) \<in> (edges ns)\<^sup>*)"
proof -
  let ?m = "map MUX_CLEAR ns"
  have "no_stale ?m" using assms(2) by (simp add: no_stale_def)
  moreover have "\<not> vis ?m w" if "(lomaj, w) \<in> (edges ns)\<^sup>*" for w
  proof -
    have "w < length ns" using that assms(1,4) by (induction rule: rtrancl_induct) (auto simp: edges_def graph_ok_def)
    then show ?thesis by (simp add: vis_def)
  qed
  then have "open_below (edges ns) ?m upmaj lomaj" by (simp add: open_below_def)
  ultimately have "explored (edges ns) upmaj lomaj ?m" by (rule explore [OF assms(1,3,4) clear_same])
  then obtain ns' where e: "same_graph ?m ns'"
    "cycle_loop upmaj lomaj ?m = Some (True, ns') \<and> (lomaj, upmaj) \<in> (edges ns)\<^sup>* \<or>
     cycle_loop upmaj lomaj ?m = cycle_loop upmaj lomaj ns' \<and> searched (edges ns) ns' upmaj lomaj \<and>
     mn_originp (ns' ! lomaj) = mn_originp (?m ! lomaj)" unfolding explored_def by blast
  have g: "same_graph ns ns'" by (rule same_graph_trans [OF clear_same e(1)])
  show ?thesis using e(2)
  proof (elim disjE conjE)
    assume "cycle_loop upmaj lomaj ?m = cycle_loop upmaj lomaj ns'" and s: "searched (edges ns) ns' upmaj lomaj"
      and "mn_originp (ns' ! lomaj) = mn_originp (?m ! lomaj)"
    moreover have "vis ns' lomaj" "mn_startp (ns' ! lomaj) = []" "(lomaj, upmaj) \<notin> (edges ns)\<^sup>*" using s by (auto simp: searched_def)
    moreover have "cycle_loop upmaj lomaj ns' = Some (False, ns')"
      using calculation(3-5) assms(4) by (subst cycle_loop.simps) (simp add: Let_def vis_def)
    ultimately show ?thesis using g by (intro exI [of _ False] exI [of _ ns']) (simp add: linkcycle_def)
  qed (use g in \<open>auto simp: linkcycle_def\<close>)
qed
section \<open>Edges come and go\<close>

lemma edges_add:
  assumes "up < length ns"
  shows "edges (snd (mux_addedge True up lo i ns)) = insert (up, lo) (edges ns)"
    "lo < length ns \<Longrightarrow> graph_ok ns \<Longrightarrow> graph_ok (snd (mux_addedge True up lo i ns))"
  using assms by (auto simp: mux_addedge_def edges_def graph_ok_def nth_list_update split: if_splits)

lemma rmv_edge_subset: "set (rmv_edge i es) \<subseteq> set es"
  by (induction es) auto

lemma edges_rmv:
  "edges (mux_rmvedge up i ns) \<subseteq> edges ns" "graph_ok ns \<Longrightarrow> graph_ok (mux_rmvedge up i ns)"
  using rmv_edge_subset by (cases "up < length ns"; fastforce simp: mux_rmvedge_def edges_def graph_ok_def nth_list_update split: if_splits)+

lemma rmv_edge_last: "i \<notin> me_muxid ` set es \<Longrightarrow> rmv_edge i (es @ [e]) = (if me_muxid e = i then es else es @ [e])"
  by (induction es) auto

section \<open>Fresh identifiers\<close>

lemma next_id_nonzero: "next_id w \<noteq> 0"
  by (simp add: next_id_def)

lemma next_id_unat: "unat w < 2 ^ 32 - 1 \<Longrightarrow> unat (next_id w) = unat w + 1"
proof -
  assume "unat w < 2 ^ 32 - 1"
  then have "unat (w + 1) = unat w + 1" by (subst unat_add_nowrap) simp_all
  then show ?thesis by (auto simp: next_id_def word_unat_eq_iff)
qed

lemma next_id_steps: "unat w + k \<le> 2 ^ 32 - 1 \<Longrightarrow> unat ((next_id ^^ k) w) = unat w + k"
proof (induction k)
  case (Suc k)
  then have "unat ((next_id ^^ k) w) = unat w + k" by simp
  then show ?case using Suc.prems next_id_unat [of "(next_id ^^ k) w"] by simp
qed simp

lemma next_id_reaches: "t \<noteq> 0 \<Longrightarrow> \<exists>k>0. (next_id ^^ k) w = t"
proof -
  assume t: "t \<noteq> 0"
  have bound: "unat x \<le> 2 ^ 32 - 1" for x :: u32 using unat_u32_less [of x] by (simp del: unat_u32_less)
  define k where "k = 2 ^ 32 - 1 - unat w"
  have "unat ((next_id ^^ k) w) = 2 ^ 32 - 1" using next_id_steps [of w k] bound [of w] by (simp add: k_def)
  then have "(next_id ^^ k) w = - 1" by (simp add: word_unat_eq_iff unsigned_minus_1_eq_mask mask_eq_exp_minus_1)
  then have one: "(next_id ^^ Suc k) w = 1" by (simp add: next_id_def)
  have "0 < unat t" using t by (simp add: unat_gt_0)
  then have "unat ((next_id ^^ (unat t - 1)) 1) = unat t" using next_id_steps [of 1 "unat t - 1"] bound [of t] by simp
  then have "(next_id ^^ (unat t - 1)) 1 = t" by (simp add: word_unat_eq_iff)
  moreover have "(next_id ^^ (unat t - 1 + Suc k)) w = (next_id ^^ (unat t - 1)) ((next_id ^^ Suc k) w)"
    by (simp only: funpow_add o_apply)
  ultimately have "(next_id ^^ (unat t - 1 + Suc k)) w = t" unfolding one by simp
  then show ?thesis by (intro exI [of _ "unat t - 1 + Suc k"]) simp
qed

definition ids :: "linkst \<Rightarrow> u32 list" where
  "ids st = map (\<lambda>lp. l_index (li_lblk lp)) (links st)"

lemma pick_id_spec:
  assumes "(next_id ^^ k) w \<notin> set (map (\<lambda>lp. l_index (li_lblk lp)) lps)" "0 < k"
  shows "\<exists>i. pick_id lps w = Some i \<and> i \<noteq> 0 \<and> i \<notin> set (map (\<lambda>lp. l_index (li_lblk lp)) lps)"
  using assms
proof (induction k arbitrary: w)
  case (Suc k)
  show ?case
  proof (cases "next_id w \<in> set (map (\<lambda>lp. l_index (li_lblk lp)) lps)")
    case True
    then have "k \<noteq> 0" using Suc.prems by (cases k) auto
    moreover have "(next_id ^^ k) (next_id w) \<notin> set (map (\<lambda>lp. l_index (li_lblk lp)) lps)"
      using Suc.prems(1) unfolding funpow_Suc_right o_apply .
    ultimately have "\<exists>i. pick_id lps (next_id w) = Some i \<and> i \<noteq> 0 \<and> i \<notin> set (map (\<lambda>lp. l_index (li_lblk lp)) lps)" using Suc.IH by blast
    moreover have "\<exists>lp\<in>set lps. l_index (li_lblk lp) = next_id w" using True by force
    then have "pick_id lps w = pick_id lps (next_id w)" by (subst pick_id.simps) (simp add: Let_def)
    ultimately show ?thesis by simp
  next
    case False
    then have "\<not> (\<exists>lp\<in>set lps. l_index (li_lblk lp) = next_id w)" by force
    then have "pick_id lps w = Some (next_id w)" by (subst pick_id.simps) (simp add: Let_def)
    then show ?thesis using False next_id_nonzero by simp
  qed
qed simp

lemma alloclink_spec:
  assumes "length (links st) < 2 ^ 32 - 1"
  shows "\<exists>lp st'. alloclink True qup qdown fp st = Some (Some lp, st') \<and> links st' = lp # links st \<and>
    l_index (li_lblk lp) \<noteq> 0 \<and> l_index (li_lblk lp) \<notin> set (ids st)"
proof -
  have "\<exists>t::u32. t \<noteq> 0 \<and> t \<notin> set (ids st)"
  proof (rule ccontr)
    assume "\<not> ?thesis"
    then have "UNIV \<subseteq> insert 0 (set (ids st))" by auto
    then have "card (UNIV :: u32 set) \<le> card (insert (0 :: u32) (set (ids st)))" by (intro card_mono) auto
    also have "\<dots> \<le> length (links st) + 1"
      using card_insert_le_m1 card_length [of "ids st"] by (auto simp: ids_def card_insert_if intro: le_trans)
    finally show False using assms by (simp add: card_word)
  qed
  then obtain t :: u32 where t: "t \<noteq> 0" "t \<notin> set (ids st)" by blast
  obtain k where "0 < k" "(next_id ^^ k) (lnk_id st) = t" using next_id_reaches [OF t(1)] by blast
  then obtain i where "pick_id (links st) (lnk_id st) = Some i" "i \<noteq> 0" "i \<notin> set (ids st)"
    using pick_id_spec [of k "lnk_id st" "links st"] t(2) unfolding ids_def by blast
  then show ?thesis by (simp add: alloclink_def Let_def)
qed

section \<open>Links under way\<close>

text \<open>
  \<open>I_LINK\<close> searches for a cycle and enters the link, then sleeps in \<open>strdoioctl\<close> while the driver is asked,
  and only then adds the edge, which may fail for want of memory, or gives the link up.  The state holds
  the link that is under way, as its upper and lower device and its identifier: there is one at most, for
  two may close a cycle together (below).  While it is under way other requests may be refused or fail and
  links may be undone by \<open>munlink\<close>.  That no pointer is stale is a premise of every search, for the code
  does not see to it (below).
\<close>

type_synonym linking = "mux_node list \<times> linkst \<times> (nat \<times> nat \<times> u32) option"

inductive link_step :: "linking \<Rightarrow> linking \<Rightarrow> bool" where
  searched: "up < length ns \<Longrightarrow> lo < length ns \<Longrightarrow> no_stale ns \<Longrightarrow> linkcycle False up lo ns = Some (False, ns1) \<Longrightarrow>
    alloclink True qup qdown fp st = Some (Some lp, st1) \<Longrightarrow>
    link_step (ns, st, None) (ns1, st1, Some (up, lo, l_index (li_lblk lp)))"
| added: "link_step (ns, st, Some (up, lo, i)) (snd (mux_addedge mem up lo i ns), st, None)"
| given_up: "link_step (ns, st, Some (up, lo, i)) (ns, lbfree i st, None)"
| refused: "lo < length ns \<Longrightarrow> no_stale ns \<Longrightarrow> linkcycle False up lo ns = Some (True, ns1) \<Longrightarrow> link_step (ns, st, w) (ns1, st, w)"
| failed: "lo < length ns \<Longrightarrow> no_stale ns \<Longrightarrow> linkcycle False up lo ns = Some (False, ns1) \<Longrightarrow>
    alloclink False qup qdown fp st = Some (None, st1) \<Longrightarrow> link_step (ns, st, w) (ns1, st1, w)"
| unlinked: "link_step (ns, st, w) (mux_rmvedge up i ns, lbfree i st, w)"

text \<open>The edges there are and the one that is to come.\<close>

definition edges_to_be :: "linking \<Rightarrow> (nat \<times> nat) set" where
  "edges_to_be s = edges (fst s) \<union> (case snd (snd s) of None \<Rightarrow> {} | Some (up, lo, i) \<Rightarrow> {(up, lo)})"

definition links_ok :: "linking \<Rightarrow> bool" where
  "links_ok s \<longleftrightarrow> graph_ok (fst s) \<and> acyclic (edges_to_be s) \<and> distinct (ids (fst (snd s))) \<and> 0 \<notin> set (ids (fst (snd s))) \<and>
     (case snd (snd s) of None \<Rightarrow> True | Some (up, lo, i) \<Rightarrow> up < length (fst s) \<and> lo < length (fst s))"

lemma links_ok_acyclic: "links_ok s \<Longrightarrow> acyclic (edges (fst s))"
  unfolding links_ok_def edges_to_be_def by (blast intro: acyclic_subset)

lemma pick_id_fresh: "pick_id lps w = Some i \<Longrightarrow> i \<noteq> 0 \<and> i \<notin> set (map (\<lambda>lp. l_index (li_lblk lp)) lps)"
proof (rule pick_id.raw_induct [where P = "\<lambda>lps w i. i \<noteq> 0 \<and> i \<notin> set (map (\<lambda>lp. l_index (li_lblk lp)) lps)"])
  fix f :: "linkinfo list \<Rightarrow> u32 \<Rightarrow> u32 option" and lps w i
  assume "\<And>lps w i. f lps w = Some i \<Longrightarrow> i \<noteq> 0 \<and> i \<notin> set (map (\<lambda>lp. l_index (li_lblk lp)) lps)"
    "(let i = next_id w in if \<exists>lp\<in>set lps. l_index (li_lblk lp) = i then f lps i else Some i) = Some i"
  then show "i \<noteq> 0 \<and> i \<notin> set (map (\<lambda>lp. l_index (li_lblk lp)) lps)"
    using next_id_nonzero [of w] by (cases "\<exists>lp\<in>set lps. l_index (li_lblk lp) = next_id w") (auto simp: Let_def)
qed

lemma links_ok_same:
  assumes "links_ok (ns, st, w)" "same_graph ns ns1" "ids st1 = ids st"
  shows "links_ok (ns1, st1, w)"
  using assms same_graphD [OF assms(2)] by (simp add: links_ok_def edges_to_be_def split: option.splits prod.splits)

lemma ids_lbfree: "set (ids (lbfree i st)) \<subseteq> set (ids st)" "distinct (ids st) \<Longrightarrow> distinct (ids (lbfree i st))"
  by (auto simp: ids_def lbfree_def distinct_map_filter)

lemma link_step_ok: "link_step s s' \<Longrightarrow> links_ok s \<Longrightarrow> links_ok s'"
proof (induction rule: link_step.induct)
  case (searched up ns lo ns1 qup qdown fp st lp st1)
  have g: "graph_ok ns" "acyclic (edges ns)" using searched(6) links_ok_acyclic [OF searched(6)] by (simp_all add: links_ok_def)
  from linkcycle_spec [OF g(1) searched(3) g(2) searched(2), of up] searched(4)
  have s: "same_graph ns ns1" "(lo, up) \<notin> (edges ns)\<^sup>*" by auto
  have "acyclic (insert (up, lo) (edges ns))" using g(2) s(2) by (simp add: acyclic_insert)
  moreover obtain i where i: "pick_id (links st) (lnk_id st) = Some i" "l_index (li_lblk lp) = i" "links st1 = lp # links st"
    using searched(5) by (auto simp: alloclink_def Let_def)
  moreover have "i \<noteq> 0 \<and> i \<notin> set (ids st)" using pick_id_fresh [OF i(1)] by (simp add: ids_def)
  ultimately show ?case
    using searched(1,2,6) g same_graphD [OF s(1)] by (auto simp: links_ok_def ids_def edges_to_be_def)
next
  case (added ns st up lo i mem)
  then have "up < length ns" "lo < length ns" "graph_ok ns" "acyclic (insert (up, lo) (edges ns))"
    by (simp_all add: links_ok_def edges_to_be_def)
  moreover have "snd (mux_addedge False up lo i ns) = ns" by (simp add: mux_addedge_def)
  ultimately show ?case
    using added edges_add [of up ns lo i] links_ok_acyclic [OF added] by (cases mem) (auto simp: links_ok_def edges_to_be_def)
next
  case (given_up ns st up lo i)
  then show ?case using links_ok_acyclic [OF given_up] ids_lbfree [where i = i and st = st] by (auto simp: links_ok_def edges_to_be_def)
next
  case (refused lo ns up ns1 st w)
  have g: "graph_ok ns" "acyclic (edges ns)" using refused(4) links_ok_acyclic [OF refused(4)] by (simp_all add: links_ok_def)
  then have "same_graph ns ns1" using linkcycle_spec [OF g(1) refused(2) g(2) refused(1), of up] refused(3) by auto
  then show ?case using links_ok_same [OF refused(4)] by simp
next
  case (failed lo ns up ns1 qup qdown fp st st1 w)
  have g: "graph_ok ns" "acyclic (edges ns)" using failed(5) links_ok_acyclic [OF failed(5)] by (simp_all add: links_ok_def)
  then have "same_graph ns ns1" using linkcycle_spec [OF g(1) failed(2) g(2) failed(1), of up] failed(3) by auto
  moreover have "ids st1 = ids st" using failed(4) by (auto simp: alloclink_def ids_def)
  ultimately show ?case by (rule links_ok_same [OF failed(5)])
next
  case (unlinked ns st w up i)
  have "edges_to_be (mux_rmvedge up i ns, lbfree i st, w) \<subseteq> edges_to_be (ns, st, w)"
    using edges_rmv(1) [of up i ns] by (auto simp: edges_to_be_def)
  moreover have "length (mux_rmvedge up i ns) = length ns" by (simp add: mux_rmvedge_def)
  ultimately show ?case using unlinked ids_lbfree [where i = i and st = st] edges_rmv(2) [of ns up i]
    by (auto simp: links_ok_def intro: acyclic_subset split: option.splits)
qed

lemma link_steps_ok: "link_step\<^sup>*\<^sup>* s s' \<Longrightarrow> links_ok s \<Longrightarrow> links_ok s'"
  by (induction rule: rtranclp_induct) (auto intro: link_step_ok)
section \<open>Example graphs\<close>

definition node_of :: "nat \<Rightarrow> (nat \<times> u32) list \<Rightarrow> mux_node" where
  "node_of i es = \<lparr>mn_imaj = i, mn_originp = None, mn_startp = [], mn_outp = map (\<lambda>(w, m). \<lparr>me_nodep = w, me_muxid = m\<rparr>) es, mn_flags = 0\<rparr>"

definition link_of :: "u32 \<Rightarrow> linkinfo" where
  "link_of i = \<lparr>li_lblk = \<lparr>l_qtop = None, l_qbot = 0, l_index = i\<rparr>, li_fpdown = 0\<rparr>"

definition linkst0 :: "u32 list \<Rightarrow> linkst" where
  "linkst0 is = \<lparr>links = map link_of is, lnk_id = 6, linkblk_use = \<lparr>al_use = 6, al_total = 6, al_max = 6, al_fail = 0\<rparr>,
     lb_cnt = 6, lstrcount = 264\<rparr>"

definition mux0 :: "mux_node list" where
  "mux0 = [node_of 0 [(1, 1), (2, 2)], node_of 1 [(3, 3)], node_of 2 [(3, 4)], node_of 3 [(4, 5), (5, 6)], node_of 4 [], node_of 5 []]"

lemma mux0_edges: "edges mux0 = {(0, 1), (0, 2), (1, 3), (2, 3), (3, 4), (3, 5)}"
  by (auto simp: edges_def mux0_def node_of_def less_Suc_eq numeral_eq_Suc)

lemma mux0_ok: "graph_ok mux0" "no_stale mux0" "acyclic (edges mux0)" "length mux0 = 6"
proof -
  show "graph_ok mux0" "no_stale mux0" "length mux0 = 6"
    by (auto simp: graph_ok_def no_stale_def mux0_def node_of_def less_Suc_eq numeral_eq_Suc)
  have "edges mux0 \<subseteq> {(a, b). a < b}" by (auto simp: mux0_edges)
  moreover have "acyclic {(a, b :: nat). a < b}" using wf_acyclic [OF wf_less] by (simp add: less_than_def [symmetric] acyclic_converse) 
  ultimately show "acyclic (edges mux0)" using acyclic_subset by blast
qed

lemma mux0_links: "links_ok (mux0, linkst0 [1, 2, 3, 4, 5, 6], None)"
  using mux0_ok by (simp add: links_ok_def edges_to_be_def ids_def linkst0_def link_of_def)

section \<open>The properties\<close>

text \<open>
  C13: on a graph without cycles, where no node that has lost its edges is left with the pointer of an
  earlier search (\<open>no_stale\<close>, which the code does not see to: \<open>linkcycle_stale\<close> below), the search of
  \<open>linkcycle\<close> ends, leaves the graph alone, and says yes exactly when the upper device can be reached from
  the lower one, so that the link would close a cycle.
\<close>

theorem linkcycle_correct:
  assumes "graph_ok ns" "no_stale ns" "acyclic (edges ns)" "lomaj < length ns"
  shows "\<exists>r ns'. linkcycle False upmaj lomaj ns = Some (r, ns') \<and> same_graph ns ns' \<and> (r \<longleftrightarrow> (lomaj, upmaj) \<in> (edges ns)\<^sup>*)"
  by (rule linkcycle_spec [OF assms])

theorem linkcycle_correct_witness: "\<exists>ns'. linkcycle False 5 0 mux0 = Some (True, ns')"
proof -
  have "(0, 3) \<in> (edges mux0)\<^sup>*" "(3, 5) \<in> (edges mux0)\<^sup>*" by (auto simp: mux0_edges intro: rtrancl_into_rtrancl)
  then have "(0, 5) \<in> (edges mux0)\<^sup>*" by (rule rtrancl_trans)
  then show ?thesis using linkcycle_correct [OF mux0_ok(1-3), of 0 5] mux0_ok(4) by auto
qed

text \<open>
  C20: as long as one link only is under way at a time, from its search to its edge, and no search meets a
  stale pointer, the devices are never linked in a cycle, not by the link under way either, and no two
  links have the same identifier, nor has any the identifier 0; requests that are refused, fail or are
  given up and links that are undone may come in between.  (The code sees to neither condition:
  \<open>linkcycle_race\<close> and \<open>linkcycle_stale\<close> below.)
\<close>

theorem links_stay_acyclic:
  assumes "link_step\<^sup>*\<^sup>* (ns, st, None) (ns', st', w)" "graph_ok ns" "acyclic (edges ns)" "distinct (ids st)" "0 \<notin> set (ids st)"
  shows "graph_ok ns' \<and> acyclic (edges_to_be (ns', st', w)) \<and> acyclic (edges ns') \<and> distinct (ids st') \<and> 0 \<notin> set (ids st')"
proof -
  have "links_ok (ns', st', w)" using link_steps_ok [OF assms(1)] assms(2-) by (simp add: links_ok_def edges_to_be_def)
  then show ?thesis using links_ok_acyclic by (fastforce simp: links_ok_def)
qed

text \<open>A link is searched for, another one goes meanwhile, and then its edge is added.\<close>

theorem links_stay_acyclic_witness:
  "\<exists>ns st. link_step\<^sup>*\<^sup>* (mux0, linkst0 [1, 2, 3, 4, 5, 6], None) (ns, st, None) \<and> (0, 5) \<in> edges ns \<and> acyclic (edges ns) \<and> distinct (ids st)"
proof -
  let ?st = "linkst0 [1, 2, 3, 4, 5, 6]"
  have "map_option fst (linkcycle False 0 5 mux0) = Some False" by code_simp
  then obtain ns1 where l: "linkcycle False 0 5 mux0 = Some (False, ns1)" by auto
  then have g: "same_graph mux0 ns1" using linkcycle_spec [OF mux0_ok(1-3), of 5 0] mux0_ok(4) by simp
  have "length (links ?st) < 2 ^ 32 - 1" by (simp add: linkst0_def)
  then obtain lp st1 where a: "alloclink True (Some 7) 8 9 ?st = (Some (Some lp, st1))" using alloclink_spec [of ?st "Some 7" 8 9] by blast
  let ?i = "l_index (li_lblk lp)"
  let ?ns2 = "mux_rmvedge 1 3 ns1"
  let ?ns = "snd (mux_addedge True 0 5 ?i ?ns2)"
  have s1: "link_step (mux0, ?st, None) (ns1, st1, Some (0, 5, ?i))" by (rule link_step.searched [OF _ _ mux0_ok(2) l a]) (simp_all add: mux0_ok(4))
  have s2: "link_step (ns1, st1, Some (0, 5, ?i)) (?ns2, lbfree 3 st1, Some (0, 5, ?i))" by (rule link_step.unlinked)
  have s3: "link_step (?ns2, lbfree 3 st1, Some (0, 5, ?i)) (?ns, lbfree 3 st1, None)" by (rule link_step.added)
  have r: "link_step\<^sup>*\<^sup>* (mux0, ?st, None) (?ns, lbfree 3 st1, None)"
    using s1 s2 s3 by (meson rtranclp.rtrancl_refl rtranclp.rtrancl_into_rtrancl)
  have "length ?ns2 = 6" using same_graphD(1) [OF g] mux0_ok(4) by (simp add: mux_rmvedge_def)
  then have "(0, 5) \<in> edges ?ns" using edges_add(1) [of 0 ?ns2 5 ?i] by simp
  moreover have "acyclic (edges mux0)" "distinct (ids ?st)" "0 \<notin> set (ids ?st)"
    using mux0_ok(3) by (simp_all add: ids_def linkst0_def link_of_def)
  ultimately show ?thesis using links_stay_acyclic [OF r mux0_ok(1)] r by blast
qed

text \<open>
  C31: \<open>alloclink\<close> ends, also after the counter has wrapped, with an identifier that is not 0 and that
  no other link has.
\<close>

theorem alloclink_fresh:
  assumes "length (links st) < 2 ^ 32 - 1"
  shows "\<exists>lp st'. alloclink True qup qdown fp st = Some (Some lp, st') \<and> links st' = lp # links st \<and>
    l_index (li_lblk lp) \<noteq> 0 \<and> l_index (li_lblk lp) \<notin> set (ids st)"
  by (rule alloclink_spec [OF assms])

theorem alloclink_fresh_witness:
  "\<exists>lp st'. alloclink True None 0 0 ((linkst0 [1, 2, 3])\<lparr>lnk_id := - 1\<rparr>) = Some (Some lp, st') \<and> l_index (li_lblk lp) \<notin> {0, 1, 2, 3}"
proof -
  have "length (links ((linkst0 [1, 2, 3])\<lparr>lnk_id := - 1\<rparr>)) < 2 ^ 32 - 1" by (simp add: linkst0_def)
  from alloclink_fresh [OF this, of None 0 0] show ?thesis by (auto simp: ids_def linkst0_def link_of_def)
qed

text \<open>
  \<open>mux_rmvedge\<close> undoes \<open>mux_addedge\<close>: the edge of a link with a new identifier goes again with the
  link, and all other edges stay.
\<close>

theorem mux_edge_roundtrip:
  assumes "i \<notin> me_muxid ` set (mn_outp (ns ! up))" "up < length ns"
  shows "mux_rmvedge up i (snd (mux_addedge True up lo i ns)) = ns"
  using assms by (simp add: mux_rmvedge_def mux_addedge_def rmv_edge_last)

theorem mux_edge_roundtrip_witness: "mux_rmvedge 0 9 (snd (mux_addedge True 0 3 9 mux0)) = mux0"
  by (rule mux_edge_roundtrip) (simp_all add: mux0_def node_of_def)

section \<open>Two slips\<close>

text \<open>
  \<open>MUX_CLEAR\<close> leaves \<open>mn_startp\<close>, and a node without edges is visited without setting it.  A search
  that found a cycle may stop in the middle of the edges of a node; when these are freed, a later
  search that comes to the node twice follows the pointer to a freed edge.  Here it finds a cycle
  where there is none.
\<close>

lemma linkcycle_stale:
  "let ns1 = snd (the (linkcycle False 4 3 mux0)); ns2 = mux_rmvedge 3 5 (mux_rmvedge 3 6 ns1)
   in mn_outp (ns2 ! 3) = [] \<and> mn_startp (ns2 ! 3) = [\<lparr>me_nodep = 5, me_muxid = 6\<rparr>] \<and>
      map_option fst (linkcycle False 5 0 ns2) = Some True"
  by code_simp

text \<open>
  \<open>I_LINK\<close> sleeps in \<open>strdoioctl\<close> between the search and the new edge.  Two processes that link two
  devices under each other are both told that there is no cycle, and both edges are made; the next
  search among the two never ends.
\<close>

definition two_nodes :: "mux_node list" where
  "two_nodes = [node_of 0 [], node_of 1 [], node_of 2 []]"

definition circle :: "mux_node list" where
  "circle = snd (mux_addedge True 1 0 2 (snd (mux_addedge True 0 1 1 two_nodes)))"

definition going_round :: "nat \<Rightarrow> mux_node list \<Rightarrow> bool" where
  "going_round np ns \<longleftrightarrow> (np = 0 \<or> np = 1) \<and> (\<forall>v\<in>{0, 1}. vis ns v \<and> mn_startp (ns ! v) = [] \<and> mn_originp (ns ! v) = Some (1 - v))"

lemma going_round_ends: "cycle_loop up np ns = Some r \<Longrightarrow> \<not> going_round np ns"
proof (rule cycle_loop.raw_induct [where P = "\<lambda>up np ns r. \<not> going_round np ns"])
  fix f :: "nat \<Rightarrow> nat \<Rightarrow> mux_node list \<Rightarrow> (bool \<times> mux_node list) option" and up np ns r
  assume IH: "\<And>up np ns r. f up np ns = Some r \<Longrightarrow> \<not> going_round np ns"
    and e: "(let n = ns ! np
      in if \<not> MUX_DIDVISIT n then
           (if mn_imaj n = up then Some (True, ns)
            else if mn_outp n = [] then
              (case mn_originp n of
                 None \<Rightarrow> Some (False, ns[np := MUX_VISIT n])
               | Some q \<Rightarrow> f up q (ns[np := MUX_VISIT n]))
            else f up np (ns[np := (MUX_VISIT n)\<lparr>mn_startp := mn_outp n\<rparr>]))
         else
           (case mn_startp n of
              [] \<Rightarrow> (case mn_originp n of None \<Rightarrow> Some (False, ns) | Some q \<Rightarrow> f up q ns)
            | ep # es \<Rightarrow>
                let ns1 = ns[np := n\<lparr>mn_startp := es\<rparr>];
                    c = me_nodep ep
                in f up c (ns1[c := (ns1 ! c)\<lparr>mn_originp := Some np\<rparr>]))) = Some r"
  show "\<not> going_round np ns"
  proof
    assume g: "going_round np ns"
    then have "np \<in> {0, 1}" "MUX_DIDVISIT (ns ! np)" "mn_startp (ns ! np) = []" "mn_originp (ns ! np) = Some (1 - np)"
      by (auto simp: going_round_def vis_def)
    then have "f up (1 - np) ns = Some r" using e by (simp add: Let_def)
    then have "\<not> going_round (1 - np) ns" by (rule IH)
    then show False using g by (auto simp: going_round_def)
  qed
qed

lemma linkcycle_race:
  "map_option fst (linkcycle False 0 1 two_nodes) = Some False" "map_option fst (linkcycle False 1 0 two_nodes) = Some False"
  "linkcycle False 2 0 circle = None"
proof -
  show "map_option fst (linkcycle False 0 1 two_nodes) = Some False" "map_option fst (linkcycle False 1 0 two_nodes) = Some False"
    by code_simp+
  define e where "e = (\<lambda>w m. \<lparr>me_nodep = w, me_muxid = m\<rparr>)"
  have c: "map MUX_CLEAR circle = [\<lparr>mn_imaj = 0, mn_originp = None, mn_startp = [], mn_outp = [e 1 1], mn_flags = 0\<rparr>,
      \<lparr>mn_imaj = 1, mn_originp = None, mn_startp = [], mn_outp = [e 0 2], mn_flags = 0\<rparr>, node_of 2 []]"
    unfolding e_def by code_simp
  have v: "MUX_DIDVISIT n \<longleftrightarrow> mn_flags n AND 1 \<noteq> 0" for n by (simp add: MUX_DIDVISIT_def VISITED_def)
  define ended where "ended = [\<lparr>mn_imaj = 0, mn_originp = Some 1, mn_startp = [], mn_outp = [e 1 1], mn_flags = 1\<rparr>,
      \<lparr>mn_imaj = 1, mn_originp = Some 0, mn_startp = [], mn_outp = [e 0 2], mn_flags = 1\<rparr>, node_of 2 []]"
  have "linkcycle False 2 0 circle = cycle_loop 2 0 ended"
    unfolding linkcycle_def c if_False
    by (subst cycle_loop.simps, simp add: v MUX_VISIT_def VISITED_def Let_def, subst cycle_loop.simps, simp add: v e_def Let_def,
        subst cycle_loop.simps, simp add: v MUX_VISIT_def VISITED_def Let_def, subst cycle_loop.simps, simp add: v Let_def ended_def e_def)
  moreover have "going_round 0 ended" by (simp add: going_round_def ended_def vis_def v)
  ultimately show "linkcycle False 2 0 circle = None" using going_round_ends by (cases "cycle_loop 2 0 ended") auto
qed

end
