(* ===== verification/Strev.thy ===== *)
theory Strev imports Strmb begin

text \<open>
  Stream events and the requests to be called when memory comes back: \<open>sealloc\<close>, \<open>sefree\<close>,
  \<open>strunbcall\<close> and the part of \<open>queuerun\<close> that serves the requests of \<open>os/strsubr.c\<close>, with \<open>esbbcall\<close>,
  \<open>bufcall\<close> and \<open>unbufcall\<close> of \<open>io/stream.c\<close>.  An event is a number: those below \<open>SECACHE\<close> are the
  emergency cache, the others come from \<open>kmem_zalloc\<close>, whose outcomes \<open>semem\<close> holds.  The doubly linked
  list of events in use is a list, the requests are linked through \<open>se_next\<close> as in the code.
\<close>

section \<open>State\<close>

record seinfo =
  se_next :: "nat option"
  se_func :: nat
  se_arg :: int
  se_size :: int

record sest =
  sevs :: "nat \<Rightarrow> seinfo"
  sefreelist :: "nat list"
  secachep :: "nat list"
  se_inuse :: "nat list"
  nse :: nat
  semem :: "bool list"
  strevent_use :: alcdat
  se_cnt :: int
  sestrcount :: int
  bc_head :: "nat option"
  bc_tail :: "nat option"
  strbcwait :: bool
  strbcflag :: bool
  slog :: "(nat \<times> int) list"

definition SECACHE :: nat where "SECACHE = 10"

definition upd_se :: "nat \<Rightarrow> (seinfo \<Rightarrow> seinfo) \<Rightarrow> sest \<Rightarrow> sest" where
  "upd_se i f st = st\<lparr>sevs := (sevs st)(i := f (sevs st i))\<rparr>"

section \<open>Events\<close>

definition se_kmem :: "sest \<Rightarrow> bool \<times> sest" where
  "se_kmem st = (case semem st of True # ks \<Rightarrow> (True, st\<lparr>semem := ks\<rparr>) | ks \<Rightarrow> (False, st\<lparr>semem := tl ks\<rparr>))"

definition se_start :: "nat \<Rightarrow> sest \<Rightarrow> nat option \<times> sest" where
  "se_start i st = (Some i, st\<lparr>strevent_use := bumpup (strevent_use st), se_inuse := i # se_inuse st\<rparr>)"

text \<open>\<open>se_procp\<close> and \<open>se_events\<close>, which \<open>sealloc\<close> clears, share their memory with \<open>se_func\<close> and \<open>se_arg\<close>.\<close>

definition se_clear :: "nat \<Rightarrow> sest \<Rightarrow> sest" where
  "se_clear i = upd_se i (\<lambda>e. e\<lparr>se_func := 0, se_arg := 0, se_next := None\<rparr>)"

definition sealloc :: "bool \<Rightarrow> sest \<Rightarrow> nat option \<times> sest" where
  "sealloc nosleep st =
     (case sefreelist st of
        i # is \<Rightarrow> se_start i (se_clear i (st\<lparr>sefreelist := is\<rparr>))
      | [] \<Rightarrow>
          (case se_kmem st of
             (True, st1) \<Rightarrow>
               se_start (SECACHE + nse st1)
                (upd_se (SECACHE + nse st1) (\<lambda>_. \<lparr>se_next = None, se_func = 0, se_arg = 0, se_size = 0\<rparr>)
                  (st1\<lparr>nse := nse st1 + 1, se_cnt := se_cnt st1 + 1, sestrcount := sestrcount st1 + 48\<rparr>))
           | (False, st1) \<Rightarrow>
               if nosleep \<and> secachep st1 \<noteq> [] then
                 se_start (hd (secachep st1)) (se_clear (hd (secachep st1)) (st1\<lparr>secachep := tl (secachep st1)\<rparr>))
               else (None, st1\<lparr>strevent_use := al_failed (strevent_use st1)\<rparr>)))"

definition sefree :: "nat \<Rightarrow> sest \<Rightarrow> sest" where
  "sefree i st =
     (let st1 = st\<lparr>se_inuse := remove1 i (se_inuse st)\<rparr>;
          st2 = (if i < SECACHE then st1\<lparr>secachep := i # secachep st1\<rparr> else st1\<lparr>sefreelist := i # sefreelist st1\<rparr>)
      in st2\<lparr>strevent_use := use_down (strevent_use st2)\<rparr>)"

section \<open>Requests\<close>

text \<open>The new event goes to the tail; the result is the event, or \<open>None\<close> for 0.  A size is a \<open>uint\<close>, which
  \<open>se_size\<close> holds as an \<open>int\<close>.\<close>

definition bc_append :: "nat \<Rightarrow> sest \<Rightarrow> sest" where
  "bc_append i st =
     (if bc_head st = None then st\<lparr>bc_head := Some i, bc_tail := Some i\<rparr>
      else (upd_se (the (bc_tail st)) (\<lambda>e. e\<lparr>se_next := Some i\<rparr>) st)\<lparr>bc_tail := Some i\<rparr>)"

definition bufcall :: "u32 \<Rightarrow> nat \<Rightarrow> int \<Rightarrow> sest \<Rightarrow> nat option \<times> sest" where
  "bufcall sz func arg st =
     (case sealloc True st of
        (None, st1) \<Rightarrow> (None, st1)
      | (Some i, st1) \<Rightarrow>
          (Some i, (bc_append i (upd_se i (\<lambda>e. e\<lparr>se_next := None, se_func := func, se_arg := arg, se_size := sint sz\<rparr>) st1))
             \<lparr>strbcwait := True\<rparr>))"

definition esbbcall :: "nat \<Rightarrow> int \<Rightarrow> sest \<Rightarrow> nat option \<times> sest" where
  "esbbcall func arg st =
     (case sealloc True st of
        (None, st1) \<Rightarrow> (None, st1)
      | (Some i, st1) \<Rightarrow>
          (Some i, (bc_append i (upd_se i (\<lambda>e. e\<lparr>se_next := None, se_func := func, se_arg := arg, se_size := -1\<rparr>) st1))
             \<lparr>strbcwait := True\<rparr>))"

text \<open>The walks of \<open>unbufcall\<close> and \<open>strunbcall\<close>: the first event that \<open>P\<close> holds of, with the one before it.\<close>

partial_function (option) bc_find ::
    "(nat \<Rightarrow> seinfo \<Rightarrow> bool) \<Rightarrow> nat option \<Rightarrow> nat option \<Rightarrow> sest \<Rightarrow> (nat option \<times> nat option) option" where
  [code]: "bc_find P psep sep st =
     (case sep of
        None \<Rightarrow> Some (psep, None)
      | Some i \<Rightarrow> if P i (sevs st i) then Some (psep, Some i) else bc_find P (Some i) (se_next (sevs st i)) st)"

definition bc_unlink :: "nat option \<Rightarrow> nat \<Rightarrow> sest \<Rightarrow> sest" where
  "bc_unlink psep i st =
     (let n = se_next (sevs st i);
          st1 = (case psep of Some p \<Rightarrow> upd_se p (\<lambda>e. e\<lparr>se_next := n\<rparr>) st | None \<Rightarrow> st\<lparr>bc_head := n\<rparr>)
      in if Some i = bc_tail st1 then st1\<lparr>bc_tail := psep\<rparr> else st1)"

definition unbufcall :: "nat \<Rightarrow> sest \<Rightarrow> sest option" where
  "unbufcall req st =
     map_option (\<lambda>(psep, sep). case sep of Some i \<Rightarrow> sefree i (bc_unlink psep i st) | None \<Rightarrow> st)
       (bc_find (\<lambda>i e. i = req) None (bc_head st) st)"

definition strunbcall :: "nat \<Rightarrow> int \<Rightarrow> int \<Rightarrow> sest \<Rightarrow> sest option" where
  "strunbcall setrun sz p st =
     map_option (\<lambda>(psep, sep). case sep of Some i \<Rightarrow> sefree i (bc_unlink psep i st) | None \<Rightarrow> st)
       (bc_find (\<lambda>i e. se_arg e = p \<and> se_func e = setrun \<and> se_size e = sz) None (bc_head st) st)"

section \<open>Serving the requests\<close>

partial_function (option) bc_count :: "nat option \<Rightarrow> nat \<Rightarrow> sest \<Rightarrow> nat option" where
  [code]: "bc_count sep nevent st =
     (case sep of None \<Rightarrow> Some nevent | Some i \<Rightarrow> bc_count (se_next (sevs st i)) (nevent + 1) st)"

text \<open>
  The loop of \<open>queuerun\<close>: \<open>cb\<close> is what a function of a request does, \<open>cnt\<close> the memory \<open>kmem_avail\<close> tells.  A
  request that asks for more goes back to the tail; the counter is \<open>nevent\<close>.
\<close>

fun run_loop :: "(nat \<Rightarrow> int \<Rightarrow> sest \<Rightarrow> sest) \<Rightarrow> int \<Rightarrow> nat \<Rightarrow> sest \<Rightarrow> sest" where
  "run_loop cb cnt 0 st = st"
| "run_loop cb cnt (Suc nevent) st =
     (case bc_head st of
        None \<Rightarrow> st
      | Some sep \<Rightarrow>
          let e = sevs st sep
          in if se_size e \<le> cnt then
               run_loop cb cnt nevent (sefree sep (cb (se_func e) (se_arg e) (st\<lparr>bc_head := se_next e\<rparr>)))
             else
               run_loop cb cnt nevent
                ((upd_se (the (bc_tail st)) (\<lambda>e. e\<lparr>se_next := Some sep\<rparr>)
                   (upd_se sep (\<lambda>e. e\<lparr>se_next := None\<rparr>) (st\<lparr>bc_head := se_next e\<rparr>)))\<lparr>bc_tail := Some sep\<rparr>))"

definition run_bufcalls :: "(nat \<Rightarrow> int \<Rightarrow> sest \<Rightarrow> sest) \<Rightarrow> int \<Rightarrow> sest \<Rightarrow> sest option" where
  "run_bufcalls cb cnt st =
     (if strbcflag st then
        let st1 = st\<lparr>strbcwait := False, strbcflag := False\<rparr>
        in map_option (\<lambda>nevent.
             let st2 = run_loop cb cnt nevent st1
             in if bc_head st2 \<noteq> None then st2\<lparr>strbcwait := True\<rparr> else st2\<lparr>bc_tail := None\<rparr>)
           (bc_count (bc_head st1) 0 st1)
      else Some st)"

end
