(* ===== verification/Strev_Set.thy ===== *)
theory Strev_Set imports Strev "HOL-Library.Multiset" begin

text \<open>
  What holds of stream events and the requests for memory: the queue linked through \<open>se_next\<close> is read
  as a list, every call is described by what it does to that list, the calls keep it well formed in any
  order, and serving it calls the right functions in order; and two slips, of which one loses a request.
\<close>

section \<open>The queue of requests\<close>

text \<open>The requests \<open>xs\<close> from the head, linked through \<open>se_next\<close>.\<close>

primrec se_path :: "(nat \<Rightarrow> seinfo) \<Rightarrow> nat option \<Rightarrow> nat list \<Rightarrow> bool" where
  "se_path h x [] \<longleftrightarrow> x = None"
| "se_path h x (i # is) \<longleftrightarrow> x = Some i \<and> se_path h (se_next (h i)) is"

definition bc_ok :: "sest \<Rightarrow> nat list \<Rightarrow> bool" where
  "bc_ok st xs \<longleftrightarrow> se_path (sevs st) (bc_head st) xs \<and> distinct xs \<and> (xs \<noteq> [] \<longrightarrow> bc_tail st = Some (last xs)) \<and> set xs \<subseteq> set (se_inuse st)"

text \<open>Every event there is, of the cache array or allocated, is on exactly one of the three lists.\<close>

definition pool_ok :: "sest \<Rightarrow> bool" where
  "pool_ok st \<longleftrightarrow> mset (sefreelist st @ secachep st @ se_inuse st) = mset [0..<SECACHE + nse st] \<and>
     al_use (strevent_use st) = int (length (se_inuse st))"

lemma pool_ok_lists:
  assumes "pool_ok st"
  shows "distinct (sefreelist st @ secachep st @ se_inuse st)"
    "set (sefreelist st @ secachep st @ se_inuse st) = {..<SECACHE + nse st}"
proof -
  have m: "mset (sefreelist st @ secachep st @ se_inuse st) = mset [0..<SECACHE + nse st]" using assms by (simp add: pool_ok_def)
  show "distinct (sefreelist st @ secachep st @ se_inuse st)" using mset_eq_imp_distinct_iff [OF m] by simp
  show "set (sefreelist st @ secachep st @ se_inuse st) = {..<SECACHE + nse st}" using mset_eq_setD [OF m] by (simp add: lessThan_atLeast0)
qed

lemma upd_se_simps [simp]:
  "sevs (upd_se i f st) = (sevs st)(i := f (sevs st i))" "sefreelist (upd_se i f st) = sefreelist st" "secachep (upd_se i f st) = secachep st"
  "se_inuse (upd_se i f st) = se_inuse st" "nse (upd_se i f st) = nse st" "strevent_use (upd_se i f st) = strevent_use st"
  "bc_head (upd_se i f st) = bc_head st" "bc_tail (upd_se i f st) = bc_tail st" "strbcwait (upd_se i f st) = strbcwait st"
  "strbcflag (upd_se i f st) = strbcflag st" "slog (upd_se i f st) = slog st"
  by (simp_all add: upd_se_def)

lemma se_path_None [simp]: "se_path h None xs \<longleftrightarrow> xs = []"
  by (cases xs) auto

lemma se_path_cong: "se_path h x xs \<Longrightarrow> (\<And>i. i \<in> set xs \<Longrightarrow> se_next (h' i) = se_next (h i)) \<Longrightarrow> se_path h' x xs"
  by (induction xs arbitrary: x) auto

lemma se_path_unlink:
  assumes "se_path h x (as @ i # bs)" "distinct (as @ i # bs)" "as \<noteq> []"
  shows "se_path (h(last as := (h (last as))\<lparr>se_next := se_next (h i)\<rparr>)) x (as @ bs)"
  using assms
proof (induction as arbitrary: x)
  case (Cons a as)
  show ?case
  proof (cases "as = []")
    case True
    then have "se_path h (se_next (h i)) bs" "a \<notin> set bs" using Cons.prems by auto
    then show ?thesis using True Cons.prems by (auto intro: se_path_cong)
  next
    case False
    then have "a \<noteq> last as" using Cons.prems by auto
    then show ?thesis using Cons False by auto
  qed
qed simp

lemma se_path_mid: "se_path h x (as @ i # bs) \<Longrightarrow> se_path h (se_next (h i)) bs"
  by (induction as arbitrary: x) auto

lemma se_path_snoc:
  assumes "se_path h x xs" "distinct xs" "xs \<noteq> []" "i \<notin> set xs" "se_next (h i) = None"
  shows "se_path (h(last xs := (h (last xs))\<lparr>se_next := Some i\<rparr>)) x (xs @ [i])"
  using assms
proof (induction xs arbitrary: x)
  case (Cons a as)
  show ?case
  proof (cases "as = []")
    case False
    then have "a \<noteq> last as" using Cons.prems(2) by auto
    then show ?thesis using Cons False by simp
  qed (use Cons.prems in simp)
qed simp

lemma bc_ok_hd: "bc_ok st (x # xs) \<Longrightarrow> bc_head st = Some x"
  by (simp add: bc_ok_def)

lemma bc_append_ok:
  assumes "bc_ok st xs" "i \<notin> set xs" "i \<in> set (se_inuse st)" "se_next (sevs st i) = None"
  shows "bc_ok (bc_append i st) (xs @ [i])"
proof (cases "xs = []")
  case True
  then show ?thesis using assms by (simp add: bc_ok_def bc_append_def)
next
  case False
  then have "bc_head st \<noteq> None" using assms(1) by (cases xs) (auto simp: bc_ok_def)
  then show ?thesis using assms False se_path_snoc [of "sevs st" "bc_head st" xs i] by (auto simp: bc_ok_def bc_append_def)
qed

lemma bc_append_simps [simp]:
  "se_inuse (bc_append i st) = se_inuse st" "sefreelist (bc_append i st) = sefreelist st" "secachep (bc_append i st) = secachep st"
  "nse (bc_append i st) = nse st" "strevent_use (bc_append i st) = strevent_use st" "slog (bc_append i st) = slog st"
  by (simp_all add: bc_append_def)

section \<open>Events from the pool\<close>

lemma sealloc_spec:
  assumes p: "pool_ok st" and a: "sealloc b st = (r, st')"
  shows "pool_ok st' \<and> bc_head st' = bc_head st \<and> bc_tail st' = bc_tail st \<and> slog st' = slog st \<and> strbcwait st' = strbcwait st \<and>
    (case r of None \<Rightarrow> se_inuse st' = se_inuse st \<and> sevs st' = sevs st
     | Some i \<Rightarrow> i \<notin> set (se_inuse st) \<and> se_inuse st' = i # se_inuse st \<and> (\<forall>j. j \<noteq> i \<longrightarrow> sevs st' j = sevs st j))"
proof (cases "sefreelist st")
  case (Cons i js)
  have "i \<notin> set (se_inuse st)" using pool_ok_lists(1) [OF p] Cons by simp
  then show ?thesis using assms Cons
    by (auto simp: sealloc_def se_start_def se_clear_def pool_ok_def bumpup_def Let_def)
next
  case Nil
  obtain b1 st1 where k: "se_kmem st = (b1, st1)" by fastforce
  have s1: "sevs st1 = sevs st" "sefreelist st1 = []" "secachep st1 = secachep st" "se_inuse st1 = se_inuse st" "nse st1 = nse st"
    "strevent_use st1 = strevent_use st" "bc_head st1 = bc_head st" "bc_tail st1 = bc_tail st" "slog st1 = slog st" "strbcwait st1 = strbcwait st"
    using k Nil by (auto simp: se_kmem_def split: list.splits bool.splits)
  show ?thesis
  proof (cases b1)
    case True
    have "SECACHE + nse st \<notin> set (sefreelist st @ secachep st @ se_inuse st)" unfolding pool_ok_lists(2) [OF p] by simp
    moreover have "mset [0..<SECACHE + Suc (nse st)] = add_mset (SECACHE + nse st) (mset [0..<SECACHE + nse st])" by simp
    ultimately show ?thesis using p a k Nil True s1
      by (auto simp: sealloc_def se_start_def pool_ok_def bumpup_def Let_def simp del: mset_upt)
  next
    case False
    have "secachep st = i # is \<Longrightarrow> i \<notin> set (se_inuse st)" for i "is" using pool_ok_lists(1) [OF p] by simp
    then show ?thesis using p a k Nil False s1
      by (cases "secachep st") (auto simp: sealloc_def se_start_def se_clear_def pool_ok_def bumpup_def al_failed_def Let_def split: if_splits)
  qed
qed

lemma sefree_spec:
  assumes "pool_ok st" "i \<in> set (se_inuse st)"
  shows "pool_ok (sefree i st)" "set (se_inuse (sefree i st)) = set (se_inuse st) - {i}"
    "sevs (sefree i st) = sevs st" "bc_head (sefree i st) = bc_head st" "bc_tail (sefree i st) = bc_tail st" "slog (sefree i st) = slog st"
    "strbcflag (sefree i st) = strbcflag st" "strbcwait (sefree i st) = strbcwait st"
proof -
  have u: "se_inuse (sefree i st) = remove1 i (se_inuse st)" "nse (sefree i st) = nse st"
    "strevent_use (sefree i st) = use_down (strevent_use st)"
    by (simp_all add: sefree_def Let_def)
  have n: "int (length (remove1 i (se_inuse st))) = int (length (se_inuse st)) - 1"
  proof -
    have "length (remove1 i (se_inuse st)) = length (se_inuse st) - 1" using assms(2) by (simp add: length_remove1)
    moreover have "0 < length (se_inuse st)" using length_pos_if_in_set [OF assms(2)] .
    ultimately show ?thesis by linarith
  qed
  have d: "distinct (se_inuse st)" using pool_ok_lists(1) [OF assms(1)] by simp
  then have e: "set (remove1 i (se_inuse st)) = set (se_inuse st) - {i}" by simp
  then show "set (se_inuse (sefree i st)) = set (se_inuse st) - {i}" by (simp add: u)
  show "sevs (sefree i st) = sevs st" "bc_head (sefree i st) = bc_head st" "bc_tail (sefree i st) = bc_tail st" "slog (sefree i st) = slog st"
    "strbcflag (sefree i st) = strbcflag st" "strbcwait (sefree i st) = strbcwait st"
    by (simp_all add: sefree_def Let_def)
  have "al_use (strevent_use (sefree i st)) = int (length (se_inuse (sefree i st)))"
    using assms(1) by (simp add: u n pool_ok_def use_down_def)
  moreover have "sefreelist (sefree i st) = (if i < SECACHE then sefreelist st else i # sefreelist st)"
    "secachep (sefree i st) = (if i < SECACHE then i # secachep st else secachep st)"
    by (simp_all add: sefree_def Let_def)
  moreover define M where "M = mset (remove1 i (se_inuse st))"
  moreover have "mset (se_inuse st) = add_mset i M" using assms(2) by (simp add: M_def)
  ultimately show "pool_ok (sefree i st)" using assms(1) unfolding pool_ok_def u(1,2) by (simp del: mset_remove1 flip: M_def)
qed

section \<open>Making and taking back requests\<close>

definition is_request :: "seinfo \<Rightarrow> int \<Rightarrow> nat \<Rightarrow> int \<Rightarrow> bool" where
  "is_request e sz func arg \<longleftrightarrow> se_size e = sz \<and> se_func e = func \<and> se_arg e = arg"

text \<open>The events \<open>J\<close> hold the same requests as before.\<close>

definition same_requests :: "nat set \<Rightarrow> sest \<Rightarrow> sest \<Rightarrow> bool" where
  "same_requests J st st' \<longleftrightarrow> (\<forall>j\<in>J. is_request (sevs st' j) (se_size (sevs st j)) (se_func (sevs st j)) (se_arg (sevs st j)))"

lemma same_requests_refl [simp]: "same_requests J st st"
  by (simp add: same_requests_def is_request_def)

lemma same_requests_trans: "same_requests J st st1 \<Longrightarrow> same_requests J' st1 st2 \<Longrightarrow> I \<subseteq> J \<Longrightarrow> I \<subseteq> J' \<Longrightarrow> same_requests I st st2"
  unfolding same_requests_def is_request_def by (metis subsetD)

text \<open>What a caller who makes the requests \<open>ys\<close>, and nothing else, leaves behind.\<close>

definition asked_for :: "nat list \<Rightarrow> nat list \<Rightarrow> sest \<Rightarrow> sest \<Rightarrow> bool" where
  "asked_for xs ys st st' \<longleftrightarrow> pool_ok st' \<and> bc_ok st' (xs @ ys) \<and> set (se_inuse st') = set (se_inuse st) \<union> set ys \<and>
     set ys \<inter> set (se_inuse st) = {} \<and> same_requests (set (se_inuse st)) st st' \<and> (strbcwait st' \<longleftrightarrow> strbcwait st \<or> ys \<noteq> [])"

lemma bufcall_spec:
  assumes p: "pool_ok st" and q: "bc_ok st xs" and b: "bufcall sz func arg st = (r, st')"
  shows "asked_for xs (case r of None \<Rightarrow> [] | Some i \<Rightarrow> [i]) st st' \<and> slog st' = slog st \<and>
    (case r of None \<Rightarrow> True | Some i \<Rightarrow> is_request (sevs st' i) (sint sz) func arg)"
proof -
  obtain r1 st1 where a: "sealloc True st = (r1, st1)" by fastforce
  note f = sealloc_spec [OF p a]
  show ?thesis
  proof (cases r1)
    case None
    then have "r = None" "st' = st1" using b a by (simp_all add: bufcall_def)
    then show ?thesis using f None q by (auto simp: bc_ok_def asked_for_def same_requests_def is_request_def)
  next
    case (Some i)
    then have i: "i \<notin> set (se_inuse st)" "se_inuse st1 = i # se_inuse st" "\<forall>j. j \<noteq> i \<longrightarrow> sevs st1 j = sevs st j"
      "bc_head st1 = bc_head st" "bc_tail st1 = bc_tail st" "pool_ok st1" "slog st1 = slog st" using f by auto
    define st2 where "st2 = upd_se i (\<lambda>e. e\<lparr>se_next := None, se_func := func, se_arg := arg, se_size := sint sz\<rparr>) st1"
    have st': "r = Some i" "st' = (bc_append i st2)\<lparr>strbcwait := True\<rparr>" using b a Some by (simp_all add: bufcall_def st2_def)
    have ix: "i \<notin> set xs" using i(1) q by (auto simp: bc_ok_def)
    have "se_path (sevs st2) (bc_head st) xs"
      by (rule se_path_cong [of "sevs st"]) (use q i(3) ix in \<open>auto simp: bc_ok_def st2_def\<close>)
    then have "bc_ok st2 xs" using q i by (auto simp: bc_ok_def st2_def)
    from bc_append_ok [OF this ix] have ok: "bc_ok (bc_append i st2) (xs @ [i])" using i(2) by (simp add: st2_def)
    have tl: "xs \<noteq> [] \<Longrightarrow> bc_tail st2 = Some (last xs)" using q i(5) by (simp add: bc_ok_def st2_def)
    have hd: "bc_head st2 = None \<longleftrightarrow> xs = []" using q i(4) by (cases xs) (auto simp: bc_ok_def st2_def)
    have ev: "sevs (bc_append i st2) j = (if xs \<noteq> [] \<and> j = last xs then (sevs st2 j)\<lparr>se_next := Some i\<rparr> else sevs st2 j)" for j
      using tl hd by (auto simp: bc_append_def)
    have li: "xs \<noteq> [] \<Longrightarrow> last xs \<noteq> i" using ix by auto
    have "pool_ok st'" using i(6) by (simp add: st' pool_ok_def st2_def)
    moreover have "bc_ok st' (xs @ [i])" using ok by (simp add: st' bc_ok_def)
    moreover have "is_request (sevs st' i) (sint sz) func arg" using ev [of i] li by (auto simp: st' is_request_def st2_def)
    moreover have "is_request (sevs st' j) (se_size (sevs st j)) (se_func (sevs st j)) (se_arg (sevs st j))" if "j \<noteq> i" for j
      using ev [of j] that i(3) by (auto simp: st' is_request_def st2_def)
    moreover have "se_inuse st' = i # se_inuse st" "slog st' = slog st" "strbcwait st'" using i(2,7) by (simp_all add: st' st2_def)
    moreover have "\<forall>j\<in>set (se_inuse st). j \<noteq> i" using i(1) by auto
    ultimately show ?thesis using i(1) st'(1) unfolding asked_for_def same_requests_def by simp
  qed
qed

lemma bc_find_first:
  "se_path (sevs st) x (as @ i # bs) \<Longrightarrow> (\<forall>j\<in>set as. \<not> P j (sevs st j)) \<Longrightarrow> P i (sevs st i) \<Longrightarrow>
   bc_find P prev x st = Some (if as = [] then prev else Some (last as), Some i)"
proof (induction as arbitrary: x prev)
  case (Cons a as)
  then show ?case by (subst bc_find.simps) auto
qed (subst bc_find.simps, auto)

lemma bc_find_none:
  "se_path (sevs st) x xs \<Longrightarrow> (\<forall>j\<in>set xs. \<not> P j (sevs st j)) \<Longrightarrow> \<exists>prev'. bc_find P prev x st = Some (prev', None)"
proof (induction xs arbitrary: x prev)
  case (Cons a as)
  then show ?case by (subst bc_find.simps) auto
qed (subst bc_find.simps, auto)

lemma unlinked_ok:
  assumes p: "pool_ok st" and q: "bc_ok st (as @ i # bs)"
  shows "pool_ok (sefree i (bc_unlink (if as = [] then None else Some (last as)) i st))"
    "bc_ok (sefree i (bc_unlink (if as = [] then None else Some (last as)) i st)) (as @ bs)"
    "\<forall>j. se_size (sevs (bc_unlink (if as = [] then None else Some (last as)) i st) j) = se_size (sevs st j) \<and>
       se_func (sevs (bc_unlink (if as = [] then None else Some (last as)) i st) j) = se_func (sevs st j) \<and>
       se_arg (sevs (bc_unlink (if as = [] then None else Some (last as)) i st) j) = se_arg (sevs st j)"
proof -
  define u where "u = bc_unlink (if as = [] then None else Some (last as)) i st"
  have ch: "se_path (sevs st) (bc_head st) (as @ i # bs)" "distinct (as @ i # bs)" "bc_tail st = Some (last (i # bs))"
    and iu: "i \<in> set (se_inuse st)" "set (as @ bs) \<subseteq> set (se_inuse st)" using q by (auto simp: bc_ok_def)
  have us: "se_inuse u = se_inuse st" "sefreelist u = sefreelist st" "secachep u = secachep st" "nse u = nse st" "strevent_use u = strevent_use st"
    by (simp_all add: u_def bc_unlink_def Let_def)
  have pu: "pool_ok u" using p by (simp add: pool_ok_def us)
  have iu': "i \<in> set (se_inuse u)" using iu us by simp
  note sf = sefree_spec [OF pu iu']
  have path: "se_path (sevs u) (bc_head u) (as @ bs)"
  proof (cases "as = []")
    case True
    then show ?thesis using ch(1) by (simp add: u_def bc_unlink_def Let_def)
  next
    case False
    then show ?thesis using se_path_unlink [OF ch(1,2) False] by (simp add: u_def bc_unlink_def Let_def)
  qed
  have tl: "as @ bs \<noteq> [] \<Longrightarrow> bc_tail u = Some (last (as @ bs))"
    using ch(2,3) last_in_set [of bs] by (cases "bs = []") (auto simp: u_def bc_unlink_def Let_def)
  show "pool_ok (sefree i (bc_unlink (if as = [] then None else Some (last as)) i st))" using sf(1) by (simp add: u_def)
  show "bc_ok (sefree i (bc_unlink (if as = [] then None else Some (last as)) i st)) (as @ bs)"
    using path tl ch(2) iu(2) sf us(1) unfolding u_def [symmetric] by (auto simp: bc_ok_def)
  show "\<forall>j. se_size (sevs (bc_unlink (if as = [] then None else Some (last as)) i st) j) = se_size (sevs st j) \<and>
       se_func (sevs (bc_unlink (if as = [] then None else Some (last as)) i st) j) = se_func (sevs st j) \<and>
       se_arg (sevs (bc_unlink (if as = [] then None else Some (last as)) i st) j) = se_arg (sevs st j)"
    by (simp add: bc_unlink_def Let_def)
qed

lemma unbufcall_spec:
  assumes p: "pool_ok st" and q: "bc_ok st xs"
  shows "\<exists>st'. unbufcall req st = Some st' \<and> pool_ok st' \<and> bc_ok st' (filter (\<lambda>i. i \<noteq> req) xs) \<and> (req \<notin> set xs \<longrightarrow> st' = st)"
proof (cases "req \<in> set xs")
  case True
  then obtain as bs where xs: "xs = as @ req # bs" by (meson split_list)
  have d: "req \<notin> set as" "req \<notin> set bs" using q xs by (auto simp: bc_ok_def)
  have "bc_find (\<lambda>i e. i = req) None (bc_head st) st = Some (if as = [] then None else Some (last as), Some req)"
    by (rule bc_find_first [of st "bc_head st" as req bs]) (use q xs d in \<open>auto simp: bc_ok_def\<close>)
  moreover have "filter (\<lambda>i. i \<noteq> req) xs = as @ bs" 
  proof -
    have "filter (\<lambda>i. i \<noteq> req) as = as" "filter (\<lambda>i. i \<noteq> req) bs = bs" using d by (simp_all add: filter_id_conv) blast+
    then show ?thesis by (simp add: xs)
  qed
  ultimately show ?thesis using unlinked_ok [OF p, of as req bs] q xs True by (simp add: unbufcall_def)
next
  case False
  then obtain pr where "bc_find (\<lambda>i e. i = req) None (bc_head st) st = Some (pr, None)"
    using bc_find_none [of st "bc_head st" xs "\<lambda>i e. i = req" None] q by (auto simp: bc_ok_def)
  moreover have "filter (\<lambda>i. i \<noteq> req) xs = xs" using False by (auto intro!: filter_True)
  ultimately show ?thesis using p q by (simp add: unbufcall_def)
qed

section \<open>Serving the requests\<close>

text \<open>The requests are served in order, as far as each fits; \<open>kept_queue\<close> is what is left then.\<close>

definition fits :: "int \<Rightarrow> sest \<Rightarrow> nat \<Rightarrow> bool" where
  "fits cnt st i \<longleftrightarrow> se_size (sevs st i) \<le> cnt"

text \<open>
  What the function of a request may do when \<open>queuerun\<close> calls it: it may ask again, for itself or for
  others, with \<open>bufcall\<close>; it takes no request back and leaves the events of others alone.  \<open>slog\<close> notes
  the calls.
\<close>

definition may_ask :: "(nat \<Rightarrow> int \<Rightarrow> sest \<Rightarrow> sest) \<Rightarrow> bool" where
  "may_ask cb \<longleftrightarrow> (\<forall>f a st xs. pool_ok st \<longrightarrow> bc_ok st xs \<longrightarrow>
     slog (cb f a st) = slog st @ [(f, a)] \<and> (\<exists>ys. asked_for xs ys st (cb f a st)))"

text \<open>Functions that do nothing more, and functions that ask again for the bytes \<open>again\<close> tells.\<close>

definition note_call :: "nat \<Rightarrow> int \<Rightarrow> sest \<Rightarrow> sest" where
  "note_call f a st = st\<lparr>slog := slog st @ [(f, a)]\<rparr>"

definition ask_again :: "(nat \<Rightarrow> int \<Rightarrow> u32 option) \<Rightarrow> nat \<Rightarrow> int \<Rightarrow> sest \<Rightarrow> sest" where
  "ask_again again f a st =
     (case again f a of None \<Rightarrow> note_call f a st | Some sz \<Rightarrow> snd (bufcall sz f a (note_call f a st)))"

text \<open>A request that is too big and alone in the queue is lost: the tail it is hung to is itself.\<close>

definition kept_queue :: "(nat \<Rightarrow> bool) \<Rightarrow> nat list \<Rightarrow> nat list" where
  "kept_queue P xs = (let big = filter (\<lambda>i. \<not> P i) xs in if xs \<noteq> [] \<and> big = [last xs] then [] else big)"

text \<open>The queue after the requests \<open>xs\<close>, when \<open>bs\<close> went back behind them before.\<close>

fun served_queue :: "(nat \<Rightarrow> bool) \<Rightarrow> nat list \<Rightarrow> nat list \<Rightarrow> nat list" where
  "served_queue P [] bs = bs"
| "served_queue P (x # xs) bs =
     (if P x then served_queue P xs bs else if xs = [] \<and> bs = [] then [] else served_queue P xs (bs @ [x]))"

lemma served_queue_busy: "bs \<noteq> [] \<Longrightarrow> served_queue P xs bs = bs @ filter (\<lambda>i. \<not> P i) xs"
  by (induction xs arbitrary: bs) auto

lemma served_kept: "distinct xs \<Longrightarrow> served_queue P xs [] = kept_queue P xs"
proof (induction xs)
  case (Cons x xs)
  show ?case
  proof (cases "P x")
    case True
    have "filter (\<lambda>i. \<not> P i) xs = [x] \<Longrightarrow> False" using Cons.prems by (metis distinct.simps(2) filter_is_subset list.set_intros(1) subsetD)
    then show ?thesis using Cons True by (auto simp: kept_queue_def Let_def)
  next
    case False
    then show ?thesis using Cons.prems by (cases "xs = []") (auto simp: kept_queue_def Let_def served_queue_busy)
  qed
qed (simp add: kept_queue_def)

lemma bc_count_path: "se_path (sevs st) x xs \<Longrightarrow> bc_count x n st = Some (n + length xs)"
proof (induction xs arbitrary: x n)
  case (Cons a xs)
  then show ?case by (subst bc_count.simps) simp
qed (subst bc_count.simps, simp)

lemma requeue_ok:
  assumes q: "bc_ok st (x # xs)" and ne: "xs \<noteq> []"
    and st': "st' = (upd_se (the (bc_tail st)) (\<lambda>e. e\<lparr>se_next := Some x\<rparr>)
       (upd_se x (\<lambda>e. e\<lparr>se_next := None\<rparr>) (st\<lparr>bc_head := se_next (sevs st x)\<rparr>)))\<lparr>bc_tail := Some x\<rparr>"
  shows "bc_ok st' (xs @ [x])" "same_requests J st st'"
proof -
  define m where "m = upd_se x (\<lambda>e. e\<lparr>se_next := None\<rparr>) (st\<lparr>bc_head := se_next (sevs st x)\<rparr>)"
  have t: "bc_tail st = Some (last xs)" and x: "x \<notin> set xs" and d: "distinct xs" using q ne by (auto simp: bc_ok_def)
  have p: "se_path (sevs m) (se_next (sevs st x)) xs"
    by (rule se_path_cong [of "sevs st"]) (use q x in \<open>auto simp: bc_ok_def m_def\<close>)
  have s: "st' = (upd_se (last xs) (\<lambda>e. e\<lparr>se_next := Some x\<rparr>) m)\<lparr>bc_tail := Some x\<rparr>" by (simp add: st' m_def t)
  have "se_path (sevs st') (se_next (sevs st x)) (xs @ [x])"
    using se_path_snoc [OF p d ne x] by (simp add: s) (simp add: m_def)
  then show "bc_ok st' (xs @ [x])" using q x by (auto simp: bc_ok_def s m_def)
  show "same_requests J st st'" by (simp add: same_requests_def is_request_def s m_def)
qed

lemma pool_ok_cong:
  assumes "pool_ok st" "sefreelist st' = sefreelist st" "secachep st' = secachep st" "se_inuse st' = se_inuse st"
    "nse st' = nse st" "strevent_use st' = strevent_use st"
  shows "pool_ok st'"
  using assms by (simp add: pool_ok_def)

lemma note_call_ok: "pool_ok st \<Longrightarrow> pool_ok (note_call f a st)" "bc_ok st xs \<Longrightarrow> bc_ok (note_call f a st) xs"
  "slog (note_call f a st) = slog st @ [(f, a)]"
  by (simp_all add: note_call_def pool_ok_def bc_ok_def)

lemma may_ask_again: "may_ask (ask_again again)"
  unfolding may_ask_def
proof (intro allI impI)
  fix f a st xs
  assume st: "pool_ok st" "bc_ok st xs"
  define m where "m = note_call f a st"
  have m: "pool_ok m" "bc_ok m xs" "slog m = slog st @ [(f, a)]" using st note_call_ok by (simp_all add: m_def)
  have eq: "asked_for xs ys m s = asked_for xs ys st s" for ys s
    by (simp add: asked_for_def same_requests_def m_def note_call_def)
  show "slog (ask_again again f a st) = slog st @ [(f, a)] \<and> (\<exists>ys. asked_for xs ys st (ask_again again f a st))"
  proof (cases "again f a")
    case None
    then have "ask_again again f a st = m" by (simp add: ask_again_def m_def)
    moreover have "asked_for xs [] m m" using m by (simp add: asked_for_def)
    ultimately show ?thesis using m(3) eq by auto
  next
    case (Some sz)
    obtain r st' where b: "bufcall sz f a m = (r, st')" by fastforce
    have "ask_again again f a st = st'" using Some b by (simp add: ask_again_def m_def)
    then show ?thesis using bufcall_spec [OF m(1,2) b] m(3) eq by auto
  qed
qed

lemma served_ok:
  assumes cb: "may_ask cb" and p: "pool_ok st" and q: "bc_ok st (x # xs)"
    and st': "st' = sefree x (cb f a (st\<lparr>bc_head := se_next (sevs st x)\<rparr>))"
  obtains ys where "pool_ok st'" "bc_ok st' (xs @ ys)" "set ys \<inter> set (se_inuse st) = {}"
    "set (se_inuse st') = set (se_inuse st) - {x} \<union> set ys" "same_requests (set (se_inuse st)) st st'"
    "slog st' = slog st @ [(f, a)]" "strbcwait st' \<longleftrightarrow> strbcwait st \<or> ys \<noteq> []"
proof -
  define s0 where "s0 = st\<lparr>bc_head := se_next (sevs st x)\<rparr>"
  define m where "m = cb f a s0"
  have p0: "pool_ok s0" by (rule pool_ok_cong [OF p]) (simp_all add: s0_def)
  have q0: "bc_ok s0 xs" using q by (auto simp: bc_ok_def s0_def)
  have s0: "se_inuse s0 = se_inuse st" "sevs s0 = sevs st" "slog s0 = slog st" "strbcwait s0 = strbcwait st" by (simp_all add: s0_def)
  obtain ys where a: "asked_for xs ys s0 m" and lg: "slog m = slog s0 @ [(f, a)]"
    using cb p0 q0 unfolding may_ask_def m_def by blast
  have x: "x \<in> set (se_inuse st)" "x \<notin> set xs" using q by (auto simp: bc_ok_def)
  have d: "set ys \<inter> set (se_inuse st) = {}" and u: "set (se_inuse m) = set (se_inuse st) \<union> set ys"
    using a by (auto simp: asked_for_def s0)
  have pm: "pool_ok m" and xm: "x \<in> set (se_inuse m)" using a x(1) by (simp_all add: asked_for_def s0)
  note fr = sefree_spec [OF pm xm]
  have s: "st' = sefree x m" by (simp add: st' m_def s0_def)
  have "x \<notin> set (xs @ ys)" using x d by auto
  then have "bc_ok st' (xs @ ys)" using a fr(2-5) by (auto simp: asked_for_def bc_ok_def s)
  moreover have "set (se_inuse st') = set (se_inuse st) - {x} \<union> set ys" using fr(2) u d x(1) by (auto simp: s)
  moreover have "same_requests (set (se_inuse st)) st st'" using a fr(3) by (simp add: asked_for_def same_requests_def s s0)
  ultimately show thesis using that fr lg a d by (auto simp: s s0 asked_for_def)
qed

lemma served_queue_cong: "(\<And>x. x \<in> set xs \<Longrightarrow> P x = P' x) \<Longrightarrow> served_queue P xs bs = served_queue P' xs bs"
  by (induction xs arbitrary: bs) auto

text \<open>
  What is left in the queue: the requests \<open>kept\<close>, or if new ones were made, the big ones \<open>K\<close> in order
  with the new ones among them.
\<close>

definition left_over :: "nat list \<Rightarrow> nat list \<Rightarrow> nat list \<Rightarrow> bool" where
  "left_over K kept ks \<longleftrightarrow> (if set ks \<subseteq> set K then ks = kept else filter (\<lambda>i. i \<in> set K) ks = K)"

lemma left_over_more:
  assumes "left_over (bs @ ys @ big) (bs @ ys @ big) ks" "ys \<noteq> []" "set ys \<inter> set (bs @ big) = {}"
  shows "left_over (bs @ big) kept ks" "set (bs @ ys @ big) \<subseteq> set ks"
proof -
  have f: "filter (\<lambda>i. i \<in> set (bs @ ys @ big)) ks = bs @ ys @ big"
    using assms(1) by (auto simp: left_over_def filter_id_conv split: if_splits)
  then show sub: "set (bs @ ys @ big) \<subseteq> set ks" by (metis filter_is_subset)
  then have "\<not> set ks \<subseteq> set (bs @ big)" using assms(2,3) by (cases ys) auto
  moreover have "filter (\<lambda>i. i \<in> set (bs @ big)) ks = bs @ big"
  proof -
    have "filter (\<lambda>i. i \<in> set (bs @ big)) ks = filter (\<lambda>i. i \<in> set (bs @ big)) (filter (\<lambda>i. i \<in> set (bs @ ys @ big)) ks)"
      unfolding filter_filter by (rule filter_cong) auto
    also have "\<dots> = filter (\<lambda>i. i \<in> set (bs @ big)) bs @ filter (\<lambda>i. i \<in> set (bs @ big)) ys @ filter (\<lambda>i. i \<in> set (bs @ big)) big"
      unfolding f by simp
    also have "\<dots> = bs @ big" using assms(3) by (subst filter_True, simp, subst filter_False, blast, subst filter_True, simp_all)
    finally show ?thesis .
  qed
  ultimately show "left_over (bs @ big) kept ks" by (simp add: left_over_def)
qed

lemma run_loop_spec:
  assumes "may_ask cb" "pool_ok st" "bc_ok st (xs @ bs)" "st' = run_loop cb cnt (length xs) st"
  shows "\<exists>ks. pool_ok st' \<and> bc_ok st' ks \<and> left_over (bs @ filter (\<lambda>i. \<not> fits cnt st i) xs) (served_queue (fits cnt st) xs bs) ks \<and>
    same_requests (set (bs @ filter (\<lambda>i. \<not> fits cnt st i) xs)) st st' \<and>
    slog st' = slog st @ map (\<lambda>i. (se_func (sevs st i), se_arg (sevs st i))) (filter (fits cnt st) xs) \<and>
    set (se_inuse st') = set (se_inuse st) - set (filter (fits cnt st) xs) \<union> set ks \<and> (strbcwait st' \<longrightarrow> strbcwait st \<or> ks \<noteq> [])"
  using assms(2-4)
proof (induction xs arbitrary: st bs)
  case Nil
  then show ?case by (intro exI [of _ bs]) (auto simp: left_over_def bc_ok_def)
next
  case (Cons x xs)
  let ?big = "filter (\<lambda>i. \<not> fits cnt st i) xs"
  have hd: "bc_head st = Some x" using Cons.prems(2) by (simp add: bc_ok_def)
  have q: "bc_ok st (x # (xs @ bs))" using Cons.prems(2) by simp
  have iu: "set (x # xs @ bs) \<subseteq> set (se_inuse st)" "distinct (x # xs @ bs)" using q by (auto simp: bc_ok_def)
  have same: "filter (fits cnt s) xs = filter (fits cnt st) xs" "filter (\<lambda>i. \<not> fits cnt s i) xs = ?big"
    "served_queue (fits cnt s) xs cs = served_queue (fits cnt st) xs cs"
    "map (\<lambda>i. (se_func (sevs s i), se_arg (sevs s i))) (filter (fits cnt st) xs) =
     map (\<lambda>i. (se_func (sevs st i), se_arg (sevs st i))) (filter (fits cnt st) xs)"
    if "same_requests (set (se_inuse st)) st s" for s cs
  proof -
    have "se_size (sevs s i) = se_size (sevs st i) \<and> se_func (sevs s i) = se_func (sevs st i) \<and> se_arg (sevs s i) = se_arg (sevs st i)"
      if "i \<in> set xs" for i
      using \<open>same_requests (set (se_inuse st)) st s\<close> iu(1) that by (auto simp: same_requests_def is_request_def)
    then show "filter (fits cnt s) xs = filter (fits cnt st) xs" "filter (\<lambda>i. \<not> fits cnt s i) xs = ?big"
      "served_queue (fits cnt s) xs cs = served_queue (fits cnt st) xs cs"
      "map (\<lambda>i. (se_func (sevs s i), se_arg (sevs s i))) (filter (fits cnt st) xs) =
       map (\<lambda>i. (se_func (sevs st i), se_arg (sevs st i))) (filter (fits cnt st) xs)"
      by (auto simp: fits_def intro!: filter_cong served_queue_cong)
  qed
  show ?case
  proof (cases "fits cnt st x")
    case True
    define m where "m = sefree x (cb (se_func (sevs st x)) (se_arg (sevs st x)) (st\<lparr>bc_head := se_next (sevs st x)\<rparr>))"
    have run: "st' = run_loop cb cnt (length xs) m" using Cons.prems(3) hd True by (simp add: m_def fits_def Let_def)
    obtain ys where m: "pool_ok m" "bc_ok m (xs @ bs @ ys)" "set ys \<inter> set (se_inuse st) = {}"
      "set (se_inuse m) = set (se_inuse st) - {x} \<union> set ys" "same_requests (set (se_inuse st)) st m"
      "slog m = slog st @ [(se_func (sevs st x), se_arg (sevs st x))]" "strbcwait m \<longleftrightarrow> strbcwait st \<or> ys \<noteq> []"
      using served_ok [OF assms(1) Cons.prems(1) q m_def] by auto
    obtain ks where k: "pool_ok st'" "bc_ok st' ks" "left_over (bs @ ys @ ?big) (served_queue (fits cnt st) xs (bs @ ys)) ks"
      "same_requests (set (bs @ ys @ ?big)) m st'"
      "slog st' = slog m @ map (\<lambda>i. (se_func (sevs st i), se_arg (sevs st i))) (filter (fits cnt st) xs)"
      "set (se_inuse st') = set (se_inuse m) - set (filter (fits cnt st) xs) \<union> set ks" "strbcwait st' \<longrightarrow> strbcwait m \<or> ks \<noteq> []"
      using Cons.IH [OF m(1,2) run] unfolding same [OF m(5)] by auto
    have dj: "set ys \<inter> set (bs @ ?big) = {}" using m(3) iu(1) by auto
    have more: "ys \<noteq> [] \<Longrightarrow> left_over (bs @ ys @ ?big) (bs @ ys @ ?big) ks" using k(3) by (simp add: served_queue_busy)
    have lo: "left_over (bs @ ?big) (served_queue (fits cnt st) xs bs) ks"
      using k(3) left_over_more(1) [OF more _ dj] by (cases "ys = []") auto
    have sub: "set ys \<subseteq> set ks" using left_over_more(2) [OF more _ dj] by (cases "ys = []") auto
    have sm: "same_requests (set (bs @ ?big)) st st'" by (rule same_requests_trans [OF m(5) k(4)]) (use iu in auto)
    have "set (se_inuse st') = set (se_inuse st) - set (filter (fits cnt st) (x # xs)) \<union> set ks"
      using k(6) m(4) sub True by auto
    moreover have "strbcwait st' \<longrightarrow> strbcwait st \<or> ks \<noteq> []" using k(7) m(7) sub by (cases ys) auto
    ultimately show ?thesis using k(1,2,5) lo sm True m(6) by (intro exI [of _ ks]) simp
  next
    case False
    define m where "m = (upd_se (the (bc_tail st)) (\<lambda>e. e\<lparr>se_next := Some x\<rparr>)
       (upd_se x (\<lambda>e. e\<lparr>se_next := None\<rparr>) (st\<lparr>bc_head := se_next (sevs st x)\<rparr>)))\<lparr>bc_tail := Some x\<rparr>"
    have run: "st' = run_loop cb cnt (length xs) m" using Cons.prems(3) hd False by (simp add: m_def fits_def Let_def)
    have pm: "pool_ok m" by (rule pool_ok_cong [OF Cons.prems(1)]) (simp_all add: m_def)
    have lm: "slog m = slog st" "strbcwait m = strbcwait st" "se_inuse m = se_inuse st" by (simp_all add: m_def)
    show ?thesis
    proof (cases "xs @ bs = []")
      case True
      then have "se_next (sevs st x) = None" using Cons.prems(2) by (simp add: bc_ok_def)
      then have "bc_ok m []" by (simp add: bc_ok_def m_def)
      moreover have "same_requests J st m" for J by (simp add: same_requests_def is_request_def m_def)
      ultimately show ?thesis using run True False pm lm by (intro exI [of _ "[]"]) (simp add: left_over_def)
    next
      case ne: False
      note rq = requeue_ok [OF q ne m_def]
      have q': "bc_ok m (xs @ (bs @ [x]))" using rq(1) by simp
      have sq: "served_queue (fits cnt st) (x # xs) bs = served_queue (fits cnt st) xs (bs @ [x])" using False ne by auto
      from Cons.IH [OF pm q' run] obtain ks where k: "pool_ok st'" "bc_ok st' ks"
        "left_over (bs @ x # ?big) (served_queue (fits cnt st) (x # xs) bs) ks" "same_requests (set (bs @ x # ?big)) m st'"
        "slog st' = slog st @ map (\<lambda>i. (se_func (sevs st i), se_arg (sevs st i))) (filter (fits cnt st) xs)"
        "set (se_inuse st') = set (se_inuse st) - set (filter (fits cnt st) xs) \<union> set ks" "strbcwait st' \<longrightarrow> strbcwait st \<or> ks \<noteq> []"
        unfolding same [OF rq(2)] lm sq by auto
      have "same_requests (set (bs @ x # ?big)) st st'"
        by (rule same_requests_trans [OF rq(2) [where J = "set (bs @ x # ?big)"] k(4)]) simp_all
      then show ?thesis using k False by (intro exI [of _ ks]) auto
    qed
  qed
qed

lemma run_bufcalls_spec:
  fixes cnt :: int
  assumes cb: "may_ask cb" and p: "pool_ok st" and q: "bc_ok st xs" and f: "strbcflag st"
  shows "\<exists>st' ks. run_bufcalls cb cnt st = Some st' \<and> pool_ok st' \<and> bc_ok st' ks \<and>
    left_over (filter (\<lambda>i. \<not> fits cnt st i) xs) (kept_queue (fits cnt st) xs) ks \<and>
    same_requests (set (filter (\<lambda>i. \<not> fits cnt st i) xs)) st st' \<and>
    slog st' = slog st @ map (\<lambda>i. (se_func (sevs st i), se_arg (sevs st i))) (filter (fits cnt st) xs) \<and>
    set (se_inuse st') = set (se_inuse st) - set (filter (fits cnt st) xs) \<union> set ks \<and> (strbcwait st' \<longleftrightarrow> ks \<noteq> [])"
proof -
  define m where "m = st\<lparr>strbcwait := False, strbcflag := False\<rparr>"
  define r where "r = run_loop cb cnt (length xs) m"
  have pm: "pool_ok m" by (rule pool_ok_cong [OF p]) (simp_all add: m_def)
  have qm: "bc_ok m (xs @ [])" using q by (simp add: bc_ok_def m_def)
  have fm: "fits cnt m = fits cnt st" "sevs m = sevs st" "slog m = slog st" "se_inuse m = se_inuse st" "strbcwait m = False"
    by (auto simp: fits_def m_def fun_eq_iff)
  have d: "distinct xs" using q by (simp add: bc_ok_def)
  obtain ks where r: "pool_ok r" "bc_ok r ks" "left_over (filter (\<lambda>i. \<not> fits cnt st i) xs) (kept_queue (fits cnt st) xs) ks"
    "same_requests (set (filter (\<lambda>i. \<not> fits cnt st i) xs)) m r"
    "slog r = slog st @ map (\<lambda>i. (se_func (sevs st i), se_arg (sevs st i))) (filter (fits cnt st) xs)"
    "set (se_inuse r) = set (se_inuse st) - set (filter (fits cnt st) xs) \<union> set ks" "strbcwait r \<longrightarrow> ks \<noteq> []"
    using run_loop_spec [OF cb pm qm r_def] unfolding fm served_kept [OF d] by auto
  have hd: "bc_head r = None \<longleftrightarrow> ks = []" using r(2) by (cases ks) (auto simp: bc_ok_def)
  have n: "bc_count (bc_head m) 0 m = Some (length xs)" using bc_count_path [of m "bc_head m" xs 0] qm by (simp add: bc_ok_def)
  define st' where "st' = (if bc_head r \<noteq> None then r\<lparr>strbcwait := True\<rparr> else r\<lparr>bc_tail := None\<rparr>)"
  have run: "run_bufcalls cb cnt st = Some st'"
    using f n by (simp add: run_bufcalls_def Let_def m_def [symmetric] r_def [symmetric] st'_def)
  have "pool_ok st'" by (rule pool_ok_cong [OF r(1)]) (simp_all add: st'_def)
  moreover have "bc_ok st' ks" using r(2) hd by (auto simp: bc_ok_def st'_def)
  moreover have "same_requests (set (filter (\<lambda>i. \<not> fits cnt st i) xs)) st st'" using r(4) fm(2) by (simp add: same_requests_def st'_def)
  moreover have "slog st' = slog r" "se_inuse st' = se_inuse r" "strbcwait st' \<longleftrightarrow> ks \<noteq> []"
    using r(7) hd by (auto simp: st'_def)
  ultimately show ?thesis using run r(3,5,6) by (intro exI [of _ st'] exI [of _ ks]) simp
qed

lemma strunbcall_spec:
  assumes p: "pool_ok st" and q: "bc_ok st xs"
  shows "\<exists>st' ys. strunbcall setrun sz p st = Some st' \<and> pool_ok st' \<and> bc_ok st' ys \<and>
    (if \<exists>i\<in>set xs. is_request (sevs st i) sz setrun p
     then \<exists>as i bs. xs = as @ i # bs \<and> ys = as @ bs \<and> is_request (sevs st i) sz setrun p \<and> (\<forall>j\<in>set as. \<not> is_request (sevs st j) sz setrun p)
     else st' = st \<and> ys = xs)"
proof -
  let ?P = "\<lambda>(i :: nat) e. se_arg e = p \<and> se_func e = setrun \<and> se_size e = sz"
  have P: "?P i e \<longleftrightarrow> is_request e sz setrun p" for i e by (auto simp: is_request_def)
  show ?thesis
  proof (cases "\<exists>i\<in>set xs. is_request (sevs st i) sz setrun p")
    case True
    then obtain as i bs where xs: "xs = as @ i # bs" "is_request (sevs st i) sz setrun p" "\<forall>j\<in>set as. \<not> is_request (sevs st j) sz setrun p"
      using split_list_first_prop [of xs "\<lambda>i. is_request (sevs st i) sz setrun p"] by blast
    have "bc_find ?P None (bc_head st) st = Some (if as = [] then None else Some (last as), Some i)"
      by (rule bc_find_first [of st "bc_head st" as i bs]) (use q xs P in \<open>auto simp: bc_ok_def\<close>)
    then have run: "strunbcall setrun sz p st = Some (sefree i (bc_unlink (if as = [] then None else Some (last as)) i st))"
      by (simp add: strunbcall_def)
    have q': "bc_ok st (as @ i # bs)" using q xs(1) by simp
    have "if \<exists>i\<in>set xs. is_request (sevs st i) sz setrun p
     then \<exists>as' i' bs'. xs = as' @ i' # bs' \<and> as @ bs = as' @ bs' \<and> is_request (sevs st i') sz setrun p \<and> (\<forall>j\<in>set as'. \<not> is_request (sevs st j) sz setrun p)
     else False \<and> as @ bs = xs"
      unfolding if_P [OF True] using xs by blast
    then show ?thesis using run unlinked_ok(1) [OF p q'] unlinked_ok(2) [OF p q'] True by (metis (no_types, lifting))
    next
    case False
    then obtain pr where "bc_find ?P None (bc_head st) st = Some (pr, None)"
      using bc_find_none [of st "bc_head st" xs ?P None] q P by (auto simp: bc_ok_def)
    then show ?thesis using False p q by (simp add: strunbcall_def)
  qed
qed

text \<open>\<open>esbbcall\<close> is a \<open>bufcall\<close> for -1 bytes, which always fits.\<close>

lemma esbbcall_bufcall: "esbbcall func arg st = bufcall (- 1) func arg st"
proof -
  have "sint (- 1 :: u32) = - 1" by (rule signed_minus_1)
  then show ?thesis by (simp only: esbbcall_def bufcall_def)
qed

section \<open>Any sequence of calls\<close>

text \<open>
  The calls that make, take back and serve requests, with functions that may ask again; other parts that
  allocate and free events of their own; and memory that comes back while requests wait (\<open>kmem_free\<close> sets \<open>strbcflag\<close>).
\<close>

inductive se_step :: "sest \<Rightarrow> sest \<Rightarrow> bool" where
  asked: "bufcall sz func arg st = (r, st') \<Longrightarrow> se_step st st'"
| taken_back: "unbufcall req st = Some st' \<Longrightarrow> se_step st st'"
| woken: "strunbcall setrun sz p st = Some st' \<Longrightarrow> se_step st st'"
| came_back: "strbcwait st \<Longrightarrow> se_step st (st\<lparr>strbcflag := True, semem := ks\<rparr>)"
| ran: "may_ask cb \<Longrightarrow> run_bufcalls cb cnt st = Some st' \<Longrightarrow> se_step st st'"
| other: "sealloc b st = (r, st') \<Longrightarrow> se_step st st'"
| freed: "i \<in> set (se_inuse st) \<Longrightarrow> bc_ok st xs \<Longrightarrow> i \<notin> set xs \<Longrightarrow> se_step st (sefree i st)"

definition bufcalls_ok :: "sest \<Rightarrow> bool" where
  "bufcalls_ok st \<longleftrightarrow> pool_ok st \<and> (\<exists>xs. bc_ok st xs)"

lemma bufcall_keeps: "bufcalls_ok st \<Longrightarrow> bufcalls_ok (snd (bufcall sz func arg st))"
  using bufcall_spec [of st _ sz func arg "fst (bufcall sz func arg st)" "snd (bufcall sz func arg st)"]
  by (auto simp: bufcalls_ok_def asked_for_def)

lemma sealloc_ok:
  assumes "pool_ok st" "bc_ok st xs" "sealloc b st = (r, st')"
  shows "bc_ok st' xs"
proof (cases r)
  case None
  then show ?thesis using sealloc_spec [OF assms(1,3)] assms(2) by (simp add: bc_ok_def)
next
  case (Some i)
  then have f: "i \<notin> set (se_inuse st)" "se_inuse st' = i # se_inuse st" "\<forall>j. j \<noteq> i \<longrightarrow> sevs st' j = sevs st j"
    "bc_head st' = bc_head st" "bc_tail st' = bc_tail st" using sealloc_spec [OF assms(1,3)] by auto
  have "se_path (sevs st') (bc_head st) xs"
    by (rule se_path_cong [of "sevs st"]) (use assms(2) f(1,3) in \<open>auto simp: bc_ok_def\<close>)
  then show ?thesis using assms(2) f by (auto simp: bc_ok_def)
qed

lemma se_step_ok: "se_step st st' \<Longrightarrow> bufcalls_ok st \<Longrightarrow> bufcalls_ok st'"
proof (induction rule: se_step.induct)
  case (asked sz func arg st r st')
  then show ?case using bufcall_keeps [of st sz func arg] by simp
next
  case (taken_back req st st')
  then obtain xs where "pool_ok st" "bc_ok st xs" by (auto simp: bufcalls_ok_def)
  from unbufcall_spec [OF this, of req] taken_back(1) show ?case by (auto simp: bufcalls_ok_def)
next
  case (woken setrun sz p st st')
  then obtain xs where "pool_ok st" "bc_ok st xs" by (auto simp: bufcalls_ok_def)
  from strunbcall_spec [OF this, of setrun sz p] woken(1) show ?case by (auto simp: bufcalls_ok_def)
next
  case (came_back st ks)
  then show ?case by (auto simp: bufcalls_ok_def pool_ok_def bc_ok_def)
next
  case (ran cb cnt st st')
  show ?case
  proof (cases "strbcflag st")
    case True
    obtain xs where "pool_ok st" "bc_ok st xs" using ran by (auto simp: bufcalls_ok_def)
    from run_bufcalls_spec [OF ran(1) this True, of cnt] ran(2) show ?thesis by (auto simp: bufcalls_ok_def)
  next
    case False
    then show ?thesis using ran by (simp add: run_bufcalls_def)
  qed
next
  case (other b st r st')
  then obtain xs where "pool_ok st" "bc_ok st xs" by (auto simp: bufcalls_ok_def)
  then show ?case using sealloc_ok [OF _ _ other(1)] sealloc_spec [OF _ other(1)] by (auto simp: bufcalls_ok_def)
next
  case (freed i st xs)
  then have p: "pool_ok st" by (simp add: bufcalls_ok_def)
  note f = sefree_spec [OF p freed(1)]
  have "bc_ok (sefree i st) xs" using freed(2,3) f(2-5) by (auto simp: bc_ok_def)
  then show ?case using f(1) by (auto simp: bufcalls_ok_def)
qed

lemma se_steps_ok: "se_step\<^sup>*\<^sup>* st st' \<Longrightarrow> bufcalls_ok st \<Longrightarrow> bufcalls_ok st'"
  by (induction rule: rtranclp_induct) (auto intro: se_step_ok)

section \<open>Example requests\<close>

text \<open>Three requests, of 64, 4096 and 128 bytes, the last event from the cache.\<close>

definition sest0 :: "bool list \<Rightarrow> sest" where
  "sest0 ks = \<lparr>sevs = (\<lambda>i. \<lparr>se_next = None, se_func = 0, se_arg = 0, se_size = 0\<rparr>), sefreelist = [], secachep = [0..<10], se_inuse = [],
     nse = 0, semem = ks, strevent_use = \<lparr>al_use = 0, al_total = 0, al_max = 0, al_fail = 0\<rparr>, se_cnt = 0, sestrcount = 0,
     bc_head = None, bc_tail = None, strbcwait = False, strbcflag = False, slog = []\<rparr>"

definition sest3 :: "sest" where
  "sest3 = (snd (bufcall 128 7 3 (snd (bufcall 4096 6 2 (snd (bufcall 64 5 1 (sest0 [True, True, False])))))))\<lparr>strbcflag := True\<rparr>"

lemma sest0_ok: "pool_ok (sest0 ks)" "bc_ok (sest0 ks) []"
  by (simp_all add: pool_ok_def bc_ok_def sest0_def SECACHE_def)

lemma sest3_ok: "pool_ok sest3" "bc_ok sest3 [10, 11, 0]" "strbcflag sest3"
  "map (\<lambda>i. (se_size (sevs sest3 i), se_func (sevs sest3 i), se_arg (sevs sest3 i))) [10, 11, 0] = [(64, 5, 1), (4096, 6, 2), (128, 7, 3)]"
proof -
  show "bc_ok sest3 [10, 11, 0]" "strbcflag sest3"
    "map (\<lambda>i. (se_size (sevs sest3 i), se_func (sevs sest3 i), se_arg (sevs sest3 i))) [10, 11, 0] = [(64, 5, 1), (4096, 6, 2), (128, 7, 3)]"
    by code_simp+
  have "bufcalls_ok (sest0 [True, True, False])" using sest0_ok by (auto simp: bufcalls_ok_def)
  then have "bufcalls_ok (snd (bufcall 128 7 3 (snd (bufcall 4096 6 2 (snd (bufcall 64 5 1 (sest0 [True, True, False])))))))"
    by (intro bufcall_keeps)
  then show "pool_ok sest3" by (simp add: bufcalls_ok_def pool_ok_def sest3_def)
qed

section \<open>The properties\<close>

text \<open>
  C14: when memory has come back, \<open>queuerun\<close> calls the functions of the requests that fit, each once and in
  order, though the functions may ask again; it frees the events of those requests, and no other, and keeps
  the other requests as they were and in order, the new ones among them, asking to be woken again while there
  are any.  Only a request that is too big and comes last, with none that was too big or made before it, is
  lost (\<open>kept_queue\<close>).
\<close>

theorem run_bufcalls_correct:
  assumes "may_ask cb" "pool_ok st" "bc_ok st xs" "strbcflag st"
  shows "\<exists>st' ks. run_bufcalls cb cnt st = Some st' \<and> pool_ok st' \<and> bc_ok st' ks \<and>
    left_over (filter (\<lambda>i. \<not> fits cnt st i) xs) (kept_queue (fits cnt st) xs) ks \<and>
    same_requests (set (filter (\<lambda>i. \<not> fits cnt st i) xs)) st st' \<and>
    slog st' = slog st @ map (\<lambda>i. (se_func (sevs st i), se_arg (sevs st i))) (filter (fits cnt st) xs) \<and>
    set (se_inuse st') = set (se_inuse st) - set (filter (fits cnt st) xs) \<union> set ks \<and> (strbcwait st' \<longleftrightarrow> ks \<noteq> [])"
  by (rule run_bufcalls_spec [OF assms])

text \<open>The function of the first request asks again, for 32 bytes.\<close>

theorem run_bufcalls_correct_witness:
  "\<exists>st' ks. run_bufcalls (ask_again (\<lambda>f a. if f = 5 then Some 32 else None)) 1000 sest3 = Some st' \<and>
     slog st' = [(5, 1), (7, 3)] \<and> bc_ok st' ks \<and> 11 \<in> set ks \<and> strbcwait st' \<and> set (se_inuse st') = {11} \<union> set ks"
proof -
  have "fits 1000 sest3 10" "\<not> fits 1000 sest3 11" "fits 1000 sest3 0" "slog sest3 = []"
    "map (\<lambda>i. (se_func (sevs sest3 i), se_arg (sevs sest3 i))) [10, 0] = [(5, 1), (7, 3)]" "se_inuse sest3 = [0, 11, 10]" by code_simp+
  then obtain st' ks where st': "run_bufcalls (ask_again (\<lambda>f a. if f = 5 then Some 32 else None)) 1000 sest3 = Some st'"
    "bc_ok st' ks" "left_over [11] [11] ks" "slog st' = [(5, 1), (7, 3)]" "set (se_inuse st') = {11} \<union> set ks" "strbcwait st' \<longleftrightarrow> ks \<noteq> []"
    using run_bufcalls_correct [OF may_ask_again sest3_ok(1-3), of "\<lambda>f a. if f = 5 then Some 32 else None" 1000]
    by (auto simp: kept_queue_def Let_def insert_Diff_if)
  have "11 \<in> set ks" using st'(3) by (auto simp: left_over_def filter_eq_Cons_iff split: if_splits)
  then show ?thesis using st' by (intro exI [of _ st'] exI [of _ ks]) auto
qed

text \<open>
  \<open>unbufcall\<close> ends, takes exactly the request with the given number out of the queue and frees its
  event, and does nothing when there is none; so it undoes the \<open>bufcall\<close> that gave the number.
\<close>

theorem unbufcall_correct:
  assumes "pool_ok st" "bc_ok st xs" "bufcall sz func arg st = (Some i, st1)"
  shows "(\<exists>st2. unbufcall i st1 = Some st2 \<and> pool_ok st2 \<and> bc_ok st2 xs) \<and>
    (\<exists>st3. unbufcall req st1 = Some st3 \<and> pool_ok st3 \<and> bc_ok st3 (filter (\<lambda>j. j \<noteq> req) (xs @ [i])) \<and> (req \<notin> set (xs @ [i]) \<longrightarrow> st3 = st1))"
proof -
  note b = bufcall_spec [OF assms]
  have i: "i \<notin> set xs" using b assms(2) by (auto simp: bc_ok_def asked_for_def)
  then have f: "filter (\<lambda>j. j \<noteq> i) (xs @ [i]) = xs" by (simp add: filter_id_conv) blast
  have s: "pool_ok st1" "bc_ok st1 (xs @ [i])" using b by (simp_all add: asked_for_def)
  show ?thesis using unbufcall_spec [OF s, of i] unbufcall_spec [OF s, of req] unfolding f by blast
qed

theorem unbufcall_correct_witness:
  "\<exists>i st1 st2. bufcall 512 8 4 sest3 = (Some i, st1) \<and> unbufcall i st1 = Some st2 \<and> bc_ok st2 [10, 11, 0]"
proof -
  have "fst (bufcall 512 8 4 sest3) = Some 1" by code_simp
  then obtain st1 where b: "bufcall 512 8 4 sest3 = (Some 1, st1)" by (cases "bufcall 512 8 4 sest3") auto
  from unbufcall_correct [OF sest3_ok(1,2) b, of 1] show ?thesis using b by blast
qed

text \<open>
  C30: in any order of the calls the queue stays a chain of distinct events in use, with its tail at its
  end, every event, of the cache array or allocated since, is on exactly one of the lists of free ones,
  of the cache and of those in use, and the count of those in use is right.
\<close>

theorem bufcalls_stay_ok:
  assumes "se_step\<^sup>*\<^sup>* (sest0 ks) st"
  shows "pool_ok st \<and> (\<exists>xs. bc_ok st xs)"
  using se_steps_ok [OF assms] sest0_ok by (auto simp: bufcalls_ok_def)

theorem bufcalls_stay_ok_witness: "\<exists>st. bufcall 64 5 1 (sest0 [True]) = (Some 10, st) \<and> pool_ok st \<and> (\<exists>xs. bc_ok st xs)"
proof -
  have "fst (bufcall 64 5 1 (sest0 [True])) = Some 10" by code_simp
  then obtain st where b: "bufcall 64 5 1 (sest0 [True]) = (Some 10, st)" by (cases "bufcall 64 5 1 (sest0 [True])") auto
  have "se_step\<^sup>*\<^sup>* (sest0 [True]) st" by (rule r_into_rtranclp) (rule se_step.asked [OF b])
  from bufcalls_stay_ok [OF this] show ?thesis using b by blast
qed

section \<open>Two slips\<close>

text \<open>
  A request that is too big and alone: \<open>bc_tail\<close> is the event itself, so that \<open>bc_tail->se_next = sep\<close>
  closes a ring, and \<open>bc_head\<close> is left \<open>NULL\<close>.  The request is never served, its event stays in use, and
  \<open>strbcwait\<close> is off, so that memory that comes back wakes nobody.
\<close>

lemma request_lost:
  assumes "pool_ok st" "bc_ok st [i]" "strbcflag st" "cnt < se_size (sevs st i)"
  shows "\<exists>st'. run_bufcalls cb cnt st = Some st' \<and> bc_head st' = None \<and> \<not> strbcwait st' \<and> slog st' = slog st"
proof -
  define m where "m = st\<lparr>strbcwait := False, strbcflag := False\<rparr>"
  have "se_path (sevs m) (bc_head m) [i]" using assms(2) by (simp add: bc_ok_def m_def)
  then have "bc_count (bc_head m) 0 m = Some (Suc 0)" using bc_count_path [of m "bc_head m" "[i]" 0] by simp
  then show ?thesis using assms by (simp add: run_bufcalls_def Let_def m_def [symmetric]) (simp add: m_def bc_ok_def Let_def)
qed

lemma request_lost_example:
  "map_option (\<lambda>st. (bc_head st, se_inuse st, strbcwait st, se_next (sevs st 10)))
     (run_bufcalls note_call 1000 ((snd (bufcall 4096 6 2 (sest0 [True])))\<lparr>strbcflag := True\<rparr>)) =
   Some (None, [10], False, Some 10)"
  by code_simp

text \<open>The size is a \<open>uint\<close> but kept as an \<open>int\<close>: a request for 2 GB or more fits at once.\<close>

lemma huge_request_fits:
  "map_option (\<lambda>st. slog st)
     (run_bufcalls note_call 0 ((snd (bufcall 0x80000000 6 2 (sest0 [True])))\<lparr>strbcflag := True\<rparr>)) = Some [(6, 2)]"
  by code_simp

end
