(* ===== verification/Callo.thy ===== *)
theory Callo imports Prelude "HOL-Library.Multiset" begin

text \<open>
  The callout table of \<open>os/clock.c\<close> and \<open>sys/callo.h\<close>: \<open>timeout\<close>, \<open>ttimeout\<close>, \<open>untimeout\<close>, \<open>timein\<close>, with
  \<open>heap_up\<close> and \<open>heap_down\<close>, and the part of \<open>clock\<close> that asks for \<open>timein\<close> and advances \<open>lbolt\<close>.  The table is
  an array that is kept as a heap by the absolute times of its entries; \<open>calllimit\<close> is the index of
  the last entry in use.  Times and identifiers are signed and wrap around.  What the function of an
  entry does is an argument.
\<close>

section \<open>State\<close>

record callo =
  c_time :: int
  c_id :: int
  c_arg :: u32
  c_func :: nat

record callst =
  callout :: "callo list"
  calllimit :: int
  v_call :: int
  timeid :: int
  lbolt :: int
  dotimein :: int
  clog :: "callo list"

section \<open>The heap\<close>

text \<open>Both move a hole through the table to where an entry of time \<open>t\<close> may stand, and return its index.\<close>

fun heap_up :: "int \<Rightarrow> nat \<Rightarrow> callo list \<Rightarrow> nat \<times> callo list" where
  "heap_up t 0 a = (0, a)"
| "heap_up t (Suc j) a =
     (let k = j div 2
      in if c_time (a ! k) > t then heap_up t k (a[Suc j := a ! k]) else (Suc j, a))"

function heap_down :: "int \<Rightarrow> int \<Rightarrow> nat \<Rightarrow> callo list \<Rightarrow> nat \<times> callo list" where
  "heap_down lim t j a =
     (let k = 1 + 2 * j
      in if int k > lim then (j, a)
         else
           let k = (if int k < lim \<and> c_time (a ! (k + 1)) < c_time (a ! k) then k + 1 else k)
           in if c_time (a ! k) \<ge> t then (j, a) else heap_down lim t k (a[j := a ! k]))"
  by pat_completeness auto

termination
  by (relation "measure (\<lambda>(lim, t, j, a). nat (lim - int j))") auto

section \<open>Operations\<close>

text \<open>\<open>None\<close> is the panic of a table that is full.\<close>

definition timeout :: "nat \<Rightarrow> u32 \<Rightarrow> int \<Rightarrow> callst \<Rightarrow> (int \<times> callst) option" where
  "timeout func arg tim st =
     (let t = s32 (lbolt st + tim);
          j = calllimit st + 1
      in if j = v_call st then None
         else
           let (i, a) = heap_up t (nat j) (callout st);
               ident = s32 (timeid st + 1)
           in Some (ident, st\<lparr>calllimit := j, timeid := ident,
                callout := a[i := \<lparr>c_time = t, c_id = ident, c_arg = arg, c_func = func\<rparr>]\<rparr>))"

definition ttimeout :: "nat \<Rightarrow> u32 \<Rightarrow> int \<Rightarrow> callst \<Rightarrow> (int \<times> callst) option" where
  "ttimeout func arg tim st =
     (if calllimit st + 1 = v_call st then Some (-1, st) else timeout func arg tim st)"

text \<open>The search through the entries in use.\<close>

fun find_id :: "int \<Rightarrow> callo list \<Rightarrow> nat \<Rightarrow> nat option" where
  "find_id ident [] f = None"
| "find_id ident (p # ps) f = (if c_id p = ident then Some f else find_id ident ps (Suc f))"

definition untimeout :: "int \<Rightarrow> callst \<Rightarrow> int \<times> callst" where
  "untimeout ident st =
     (case find_id ident (take (nat (calllimit st + 1)) (callout st)) 0 of
        None \<Rightarrow> (-1, st)
      | Some f \<Rightarrow>
          let pend = nat (calllimit st);
              st1 = st\<lparr>calllimit := calllimit st - 1\<rparr>
          in if int f = calllimit st then (int f, st1)
             else if calllimit st1 \<ge> 0 then
               let t = c_time (callout st1 ! pend);
                   j = (f - 1) div 2;
                   (i, a) = (if f > 0 \<and> c_time (callout st1 ! j) > t then heap_up t f (callout st1)
                             else heap_down (calllimit st1) t f (callout st1))
               in (int f, st1\<lparr>callout := a[i := a ! pend]\<rparr>)
             else (int f, st1))"

text \<open>The first entry goes; the last moves up.\<close>

definition drop_first :: "callst \<Rightarrow> callst" where
  "drop_first st =
     (let plast = nat (calllimit st);
          st1 = st\<lparr>calllimit := calllimit st - 1\<rparr>
      in if calllimit st1 \<ge> 0 then
           let (i, a) = heap_down (calllimit st1) (c_time (callout st1 ! plast)) 0 (callout st1)
           in st1\<lparr>callout := a[i := a ! plast]\<rparr>
         else st1)"

partial_function (option) timein :: "(callo \<Rightarrow> callst \<Rightarrow> callst) \<Rightarrow> callst \<Rightarrow> callst option" where
  [code]: "timein call st =
     (if c_time (callout st ! 0) \<le> lbolt st \<and> calllimit st \<ge> 0 then timein call (call (callout st ! 0) (drop_first st))
      else Some st)"

text \<open>What a tick of the clock does to the table.\<close>

definition clock_tick :: "callst \<Rightarrow> callst" where
  "clock_tick st =
     (let st1 = (if calllimit st \<ge> 0 \<and> c_time (callout st ! 0) \<le> lbolt st then st\<lparr>dotimein := dotimein st + 1\<rparr> else st)
      in st1\<lparr>lbolt := s32 (lbolt st1 + 1)\<rparr>)"

end
