(* ===== verification/Callo_Set.thy ===== *)
theory Callo_Set imports Callo begin

text \<open>
  What holds of the callout table: it is a heap with room for a hole that moves, read as the multiset
  of its entries; requests are made, cancelled and served on that multiset, the due ones in the order of
  their times; the contract \<open>request_table\<close> and its interpretation; and three slips of numbers that wrap.
\<close>

declare heap_down.simps [simp del]

section \<open>The table as a heap\<close>

definition up :: "nat \<Rightarrow> nat" where
  "up k = (k - 1) div 2"

lemma up_Suc [simp]: "up (Suc j) = j div 2"
  by (simp add: up_def)

abbreviation time_at :: "callo list \<Rightarrow> nat \<Rightarrow> int" where
  "time_at a k \<equiv> c_time (a ! k)"

definition is_heap :: "nat \<Rightarrow> callo list \<Rightarrow> bool" where
  "is_heap n a \<longleftrightarrow> (\<forall>k<n. 0 < k \<longrightarrow> time_at a (up k) \<le> time_at a k)"

text \<open>A heap with a hole at \<open>j\<close>, whose entry does not count.\<close>

definition has_hole :: "nat \<Rightarrow> nat \<Rightarrow> callo list \<Rightarrow> bool" where
  "has_hole n j a \<longleftrightarrow> (\<forall>k<n. 0 < k \<and> k \<noteq> j \<longrightarrow>
     (if up k = j then 0 < j \<longrightarrow> time_at a (up j) \<le> time_at a k else time_at a (up k) \<le> time_at a k))"

definition below_ge :: "nat \<Rightarrow> nat \<Rightarrow> int \<Rightarrow> callo list \<Rightarrow> bool" where
  "below_ge n j t a \<longleftrightarrow> (\<forall>k<n. 0 < k \<and> up k = j \<longrightarrow> t \<le> time_at a k)"

lemma up_less: "0 < k \<Longrightarrow> up k < k" "0 < k \<Longrightarrow> up k \<noteq> k" for k :: nat
  by (auto simp: up_def)

lemma up_child: "0 < k \<Longrightarrow> up k = j \<longleftrightarrow> k = 1 + 2 * j \<or> k = 2 + 2 * j" for k :: nat
  by (auto simp: up_def)

lemma heap_hole: "is_heap n a \<Longrightarrow> has_hole n j a"
  unfolding is_heap_def has_hole_def
proof (intro allI impI)
  fix k assume h: "\<forall>k<n. 0 < k \<longrightarrow> time_at a (up k) \<le> time_at a k" and k: "k < n" "0 < k \<and> k \<noteq> j"
  show "if up k = j then 0 < j \<longrightarrow> time_at a (up j) \<le> time_at a k else time_at a (up k) \<le> time_at a k"
  proof (cases "up k = j")
    case True
    have "time_at a (up j) \<le> time_at a j" if "0 < j" using h that k True up_less(1) [of k] by (meson order_less_trans)
    moreover have "time_at a j \<le> time_at a k" using h k True by metis
    ultimately show ?thesis using True by (auto intro: order_trans)
  qed (use h k in simp)
qed

text \<open>The hole may be filled where the time fits.\<close>

lemma fill_hole:
  assumes "has_hole n j a" "j < n" "n \<le> length a" "below_ge n j t a" "0 < j \<Longrightarrow> time_at a (up j) \<le> t" "c_time x = t"
  shows "is_heap n (a[j := x])"
  unfolding is_heap_def
proof (intro allI impI)
  fix k assume k: "k < n" "0 < k"
  have u: "up k \<noteq> k" "up k < n" using up_less [OF k(2)] k(1) by auto
  show "time_at (a[j := x]) (up k) \<le> time_at (a[j := x]) k"
  proof (cases "k = j")
    case True
    then show ?thesis using assms k u by simp
  next
    case False
    then show ?thesis using assms k u by (cases "up k = j") (auto simp: has_hole_def below_ge_def)
  qed
qed

text \<open>Moving the hole exchanges two entries.\<close>

lemma move_hole_mset:
  assumes "j < n" "k < n" "n \<le> length a"
  shows "mset (take n (a[j := a ! k, k := x])) = mset (take n (a[j := x]))"
proof -
  let ?b = "(take n a)[j := x]"
  have len: "j < length ?b" "k < length ?b" using assms by simp_all
  show ?thesis
  proof (cases "j = k")
    case False
    have "(take n a)[j := a ! k, k := x] = ?b[j := ?b ! k, k := ?b ! j]" using assms False by (simp add: list_update_swap)
    then show ?thesis using mset_swap [OF len(2,1)] by (simp add: take_update_swap)
  qed (simp add: assms take_update_swap)
qed

text \<open>What the movers deliver: a place \<open>i\<close> for \<open>x\<close>, the entries being those with \<open>x\<close> in the hole.\<close>

definition placed :: "nat \<Rightarrow> nat \<Rightarrow> callo \<Rightarrow> callo list \<Rightarrow> nat \<Rightarrow> callo list \<Rightarrow> bool" where
  "placed n j x a i a' \<longleftrightarrow> i < n \<and> length a' = length a \<and> is_heap n (a'[i := x]) \<and>
     mset (take n (a'[i := x])) = mset (take n (a[j := x])) \<and> drop n a' = drop n a"

lemma placed_step: "placed n k x (a[j := a ! k]) i a' \<Longrightarrow> j < n \<Longrightarrow> k < n \<Longrightarrow> n \<le> length a \<Longrightarrow> placed n j x a i a'"
  using move_hole_mset [of j n k a x] by (simp add: placed_def)

lemma up_step:
  assumes h: "has_hole n j a" "below_ge n j t a" and j: "0 < j" "j < n" "n \<le> length a" and gt: "time_at a (up j) > t"
  shows "has_hole n (up j) (a[j := a ! up j])" "below_ge n (up j) t (a[j := a ! up j])"
proof -
  let ?k = "up j" and ?a = "a[j := a ! up j]"
  have kj: "?k < j" "?k < n" using up_less [OF j(1)] j(2) by auto
  have at: "?a ! m = (if m = j then a ! ?k else a ! m)" for m using j by (simp add: nth_list_update)
  have ge: "time_at a ?k \<le> time_at a m" if "m < n" "0 < m" "up m = ?k" "m \<noteq> j" for m
    using h(1) that up_less(2) [OF that(2)] up_less(2) [OF j(1)] unfolding has_hole_def by (metis)
  show "below_ge n ?k t ?a" unfolding below_ge_def
  proof (intro allI impI)
    fix m assume m: "m < n" "0 < m \<and> up m = ?k"
    show "t \<le> time_at ?a m" using gt ge [OF m(1)] m(2) by (cases "m = j") (auto simp: at)
  qed
  show "has_hole n ?k ?a" unfolding has_hole_def
  proof (intro allI impI)
    fix m assume m: "m < n" "0 < m \<and> m \<noteq> ?k"
    have hm: "if up m = j then 0 < j \<longrightarrow> time_at a (up j) \<le> time_at a m else time_at a (up m) \<le> time_at a m" if "m \<noteq> j"
      using h(1) m that unfolding has_hole_def by blast
    show "if up m = ?k then 0 < ?k \<longrightarrow> time_at ?a (up ?k) \<le> time_at ?a m else time_at ?a (up m) \<le> time_at ?a m"
    proof (cases "up m = ?k")
      case True
      have "time_at a (up ?k) \<le> time_at a ?k" if "0 < ?k"
      proof -
        have "up ?k \<noteq> j" using up_less(1) [OF that] kj by linarith
        then show ?thesis using h(1) that kj unfolding has_hole_def by (metis order_less_irrefl)
      qed
      moreover have "up ?k \<noteq> j" if "0 < ?k" using up_less(1) [OF that] kj by linarith
      ultimately show ?thesis using True ge [OF m(1)] m(2) by (cases "m = j") (auto simp: at intro: order_trans)
    next
      case False
      then have mj: "m \<noteq> j" by auto
      show ?thesis using False hm [OF mj] mj j(1) by (cases "up m = j") (auto simp: at)
    qed
  qed
qed

lemma heap_up_spec:
  assumes "has_hole n j a" "below_ge n j t a" "j < n" "n \<le> length a" "c_time x = t" "heap_up t j a = (i, a')"
  shows "placed n j x a i a'"
  using assms
proof (induction t j a rule: heap_up.induct)
  case (1 t a)
  then show ?case using fill_hole [of n 0 a t x] by (simp add: placed_def)
next
  case (2 t j a)
  show ?case
  proof (cases "time_at a (j div 2) > t")
    case True
    have s: "has_hole n (j div 2) (a[Suc j := a ! (j div 2)])" "below_ge n (j div 2) t (a[Suc j := a ! (j div 2)])"
      using up_step [OF 2(2,3) _ 2(4,5)] True by simp_all
    have "placed n (j div 2) x (a[Suc j := a ! (j div 2)]) i a'"
      by (rule 2(1) [OF refl True s]) (use 2 True in \<open>simp_all add: Let_def\<close>)
    then show ?thesis by (rule placed_step) (use 2 in simp_all)
  next
    case False
    then have "i = Suc j" "a' = a" using 2(7) by (simp_all add: Let_def)
    then show ?thesis using fill_hole [OF 2(2,4,5,3) _ 2(6)] False 2(4) by (simp add: placed_def)
  qed
qed

lemma down_step:
  assumes h: "has_hole n j a" and k: "k < n" "0 < k" "up k = j" and n: "n \<le> length a" and lt: "time_at a k < t"
    and least: "below_ge n j (time_at a k) a"
  shows "has_hole n k (a[j := a ! k])" "time_at (a[j := a ! k]) (up k) \<le> t"
proof -
  let ?a = "a[j := a ! k]"
  have jk: "j < k" "j < n" using up_less(1) [OF k(2)] k by simp_all
  have at: "?a ! m = (if m = j then a ! k else a ! m)" for m using jk n by (simp add: nth_list_update)
  show "time_at ?a (up k) \<le> t" using lt k(3) jk by (simp add: at)
  show "has_hole n k ?a" unfolding has_hole_def
  proof (intro allI impI)
    fix m assume m: "m < n" "0 < m \<and> m \<noteq> k"
    have hm: "if up m = j then 0 < j \<longrightarrow> time_at a (up j) \<le> time_at a m else time_at a (up m) \<le> time_at a m" if "m \<noteq> j"
      using h m that unfolding has_hole_def by blast
    have hk: "0 < j \<Longrightarrow> time_at a (up j) \<le> time_at a k" using h k jk unfolding has_hole_def by auto
    show "if up m = k then 0 < k \<longrightarrow> time_at ?a (up k) \<le> time_at ?a m else time_at ?a (up m) \<le> time_at ?a m"
    proof (cases "m = j")
      case True
      then have "up m \<noteq> k" "up m \<noteq> j" using m(2) jk up_less(1) [of m] by auto
      then show ?thesis using True hk m(2) by (simp add: at)
    next
      case False
      show ?thesis
      proof (cases "up m = j")
        case True
        then show ?thesis using False jk m(1,2) least by (simp add: at below_ge_def)
      next
        case F: False
        then have "time_at a (up m) \<le> time_at a m" using hm [OF False] by simp
        then show ?thesis using False F k(3) jk by (auto simp: at)
      qed
    qed
  qed
qed

text \<open>The child \<open>heap_down\<close> looks at is the lesser.\<close>

lemma lesser_child:
  assumes "k = (if 1 + 2 * j < n - 1 \<and> time_at a (2 + 2 * j) < time_at a (1 + 2 * j) then 2 + 2 * j else 1 + 2 * j)" "1 + 2 * j < n"
  shows "k < n" "0 < k" "up k = j" "below_ge n j (time_at a k) a"
proof -
  show "k < n" "0 < k" "up k = j" using assms by (auto simp: up_child split: if_splits)
  show "below_ge n j (time_at a k) a" unfolding below_ge_def
  proof (intro allI impI)
    fix m assume "m < n" "0 < m \<and> up m = j"
    then have "m = 1 + 2 * j \<or> m = 2 + 2 * j" "m < n" using up_child [of m j] by auto
    then show "time_at a k \<le> time_at a m" using assms(1) by (auto split: if_splits)
  qed
qed

lemma heap_down_spec:
  assumes "has_hole n j a" "0 < j \<Longrightarrow> time_at a (up j) \<le> t" "j < n" "n \<le> length a" "c_time x = t" "heap_down (int n - 1) t j a = (i, a')"
  shows "placed n j x a i a'"
  using assms
proof (induction "int n - 1" t j a rule: heap_down.induct)
  case (1 t j a)
  show ?case
  proof (cases "1 + 2 * j < n")
    case False
    then have "i = j" "a' = a" using 1(7) by (auto simp: heap_down.simps [of _ t j] Let_def)
    moreover have "below_ge n j t a" unfolding below_ge_def
    proof (intro allI impI)
      fix m assume "m < n" "0 < m \<and> up m = j"
      then have "m = 1 + 2 * j \<or> m = 2 + 2 * j" "m < n" using up_child [of m j] by auto
      then show "t \<le> time_at a m" using False by auto
    qed
    ultimately show ?thesis using fill_hole [OF 1(2,4,5) _ 1(3,6)] 1(4) by (simp add: placed_def)
  next
    case True
    define k where "k = (if 1 + 2 * j < n - 1 \<and> time_at a (2 + 2 * j) < time_at a (1 + 2 * j) then 2 + 2 * j else 1 + 2 * j)"
    note l = lesser_child [OF k_def True]
    have kk: "(if int (1 + 2 * j) < int n - 1 \<and> time_at a (1 + 2 * j + 1) < time_at a (1 + 2 * j) then 1 + 2 * j + 1 else 1 + 2 * j) = k"
      using True by (auto simp: k_def)
    have e: "heap_down (int n - 1) t j a = (if time_at a k \<ge> t then (j, a) else heap_down (int n - 1) t k (a[j := a ! k]))"
    proof -
      have "\<not> int (1 + 2 * j) > int n - 1" using True by simp
      then show ?thesis by (subst heap_down.simps) (simp only: Let_def kk if_False)
    qed
    show ?thesis
    proof (cases "time_at a k \<ge> t")
      case le: True
      then have "i = j" "a' = a" using 1(7) e by simp_all
      moreover have "below_ge n j t a" using l(4) le by (auto simp: below_ge_def)
      ultimately show ?thesis using fill_hole [OF 1(2,4,5) _ 1(3,6)] 1(4) by (simp add: placed_def)
    next
      case lt: False
      then have s: "has_hole n k (a[j := a ! k])" "time_at (a[j := a ! k]) (up k) \<le> t"
        using down_step [OF 1(2) l(1-3) 1(5) _ l(4), of t] by auto
      have "placed n k x (a[j := a ! k]) i a'"
        by (rule 1(1) [of "1 + 2 * j" k]) (use 1(5-7) e lt s l True kk in \<open>simp_all\<close>)
      then show ?thesis by (rule placed_step) (use 1 l in simp_all)
    qed
  qed
qed

section \<open>The table as a multiset of requests\<close>

definition ncall :: "callst \<Rightarrow> nat" where
  "ncall st = nat (calllimit st + 1)"

definition entries :: "callst \<Rightarrow> callo multiset" where
  "entries st = mset (take (ncall st) (callout st))"

definition calls_ok :: "callst \<Rightarrow> bool" where
  "calls_ok st \<longleftrightarrow> int (length (callout st)) = v_call st \<and> -1 \<le> calllimit st \<and> calllimit st < v_call st \<and>
     is_heap (ncall st) (callout st)"

lemma calls_okD:
  assumes "calls_ok st"
  shows "calllimit st = int (ncall st) - 1" "ncall st \<le> length (callout st)" "is_heap (ncall st) (callout st)"
  using assms by (auto simp: calls_ok_def ncall_def)

lemma size_entries: "calls_ok st \<Longrightarrow> size (entries st) = ncall st"
  using calls_okD(2) [of st] by (simp add: entries_def)

text \<open>The first entry is due first.\<close>

lemma heap_least: "is_heap n a \<Longrightarrow> k < n \<Longrightarrow> time_at a 0 \<le> time_at a k"
proof (induction k rule: less_induct)
  case (less k)
  show ?case
  proof (cases "k = 0")
    case False
    then have "up k < k" using up_less(1) by simp
    then have "time_at a 0 \<le> time_at a (up k)" using less by simp
    also have "\<dots> \<le> time_at a k" using less.prems False by (simp add: is_heap_def)
    finally show ?thesis .
  qed simp
qed

lemma entries_least: "calls_ok st \<Longrightarrow> c \<in># entries st \<Longrightarrow> time_at (callout st) 0 \<le> c_time c"
  using heap_least [OF calls_okD(3)] calls_okD(2) by (auto simp: entries_def in_set_conv_nth)

lemma first_entry: "calls_ok st \<Longrightarrow> 0 < ncall st \<Longrightarrow> callout st ! 0 \<in># entries st"
  using calls_okD(2) [of st] by (auto simp: entries_def in_set_conv_nth intro!: exI [of _ 0])

lemma mset_take_update: "j < n \<Longrightarrow> n \<le> length a \<Longrightarrow> mset (take n (a[j := x])) = mset (take n a) - {#a ! j#} + {#x#}"
  by (simp add: take_update_swap mset_update)

lemma mset_take_Suc: "n < length a \<Longrightarrow> mset (take (Suc n) a) = mset (take n a) + {#a ! n#}"
  by (simp add: take_Suc_conv_app_nth)

text \<open>Taking the entry at \<open>f\<close> out: the last one, moved to where it fits, replaces it.\<close>

lemma removed:
  assumes ok: "calls_ok st" and f: "f < n" "ncall st = Suc n" and pl: "placed n f (callout st ! n) (callout st) i a"
  shows "calls_ok (st\<lparr>calllimit := calllimit st - 1, callout := a[i := a ! n]\<rparr>)"
    "entries (st\<lparr>calllimit := calllimit st - 1, callout := a[i := a ! n]\<rparr>) = entries st - {#callout st ! f#}"
proof -
  let ?c = "callout st" and ?st = "st\<lparr>calllimit := calllimit st - 1, callout := a[i := a ! n]\<rparr>"
  have n: "calllimit st = int n" "n < length ?c" using calls_okD(1,2) [OF ok] f(2) by simp_all
  have len: "length a = length ?c" and "drop n a = drop n ?c" using pl by (simp_all add: placed_def)
  then have an: "a ! n = ?c ! n" using n(2) by (metis Cons_nth_drop_Suc list.inject)
  have nc: "ncall ?st = n" by (simp add: ncall_def n(1))
  show "calls_ok ?st" using ok pl n(1) nc len an by (simp add: calls_ok_def placed_def)
  have "entries ?st = mset (take n (?c[f := ?c ! n]))" using pl nc an by (simp add: entries_def placed_def)
  also have "\<dots> = mset (take n ?c) - {#?c ! f#} + {#?c ! n#}" using f n(2) by (simp add: mset_take_update)
  also have "\<dots> = mset (take n ?c) + {#?c ! n#} - {#?c ! f#}"
  proof -
    have "?c ! f \<in># mset (take n ?c)" using f(1) n(2) by (auto simp: in_set_conv_nth)
    then obtain M where "mset (take n ?c) = add_mset (?c ! f) M" by (blast dest: multi_member_split)
    then show ?thesis by simp
  qed
  also have "\<dots> = entries st - {#?c ! f#}" using n(2) by (simp add: entries_def f(2) mset_take_Suc)
  finally show "entries ?st = entries st - {#?c ! f#}" .
qed

lemma drop_last:
  assumes ok: "calls_ok st" and n: "ncall st = Suc n"
  shows "calls_ok (st\<lparr>calllimit := calllimit st - 1\<rparr>)" "entries (st\<lparr>calllimit := calllimit st - 1\<rparr>) = entries st - {#callout st ! n#}"
proof -
  have c: "calllimit st = int n" "n < length (callout st)" using calls_okD(1,2) [OF ok] n by simp_all
  have nc: "ncall (st\<lparr>calllimit := calllimit st - 1\<rparr>) = n" by (simp add: ncall_def c)
  have "is_heap n (callout st)" using calls_okD(3) [OF ok] n by (simp add: is_heap_def)
  then show "calls_ok (st\<lparr>calllimit := calllimit st - 1\<rparr>)" using ok nc c by (simp add: calls_ok_def)
  show "entries (st\<lparr>calllimit := calllimit st - 1\<rparr>) = entries st - {#callout st ! n#}"
    using c(2) nc by (simp add: entries_def n mset_take_Suc)
qed

section \<open>Making a request\<close>

definition request :: "nat \<Rightarrow> u32 \<Rightarrow> int \<Rightarrow> callst \<Rightarrow> callo" where
  "request func arg tim st = \<lparr>c_time = s32 (lbolt st + tim), c_id = s32 (timeid st + 1), c_arg = arg, c_func = func\<rparr>"

lemma timeout_spec:
  assumes ok: "calls_ok st" and room: "int (size (entries st)) < v_call st"
  shows "\<exists>st'. timeout func arg tim st = Some (s32 (timeid st + 1), st') \<and> calls_ok st' \<and>
    entries st' = add_mset (request func arg tim st) (entries st) \<and> lbolt st' = lbolt st \<and> v_call st' = v_call st"
proof -
  let ?n = "ncall st" and ?c = "callout st" and ?r = "request func arg tim st"
  have n: "calllimit st = int ?n - 1" "?n < length ?c" using calls_okD(1) [OF ok] room size_entries [OF ok] ok
    by (simp_all add: calls_ok_def)
  obtain i a where h: "heap_up (c_time ?r) ?n ?c = (i, a)" by fastforce
  have "has_hole (Suc ?n) ?n ?c" "below_ge (Suc ?n) ?n (c_time ?r) ?c"
  proof -
    have "up k \<noteq> ?n" if "k < Suc ?n" "0 < k" for k using up_less(1) [OF that(2)] that by linarith
    then show "has_hole (Suc ?n) ?n ?c" "below_ge (Suc ?n) ?n (c_time ?r) ?c"
      using calls_okD(3) [OF ok] by (auto simp: has_hole_def is_heap_def below_ge_def less_Suc_eq)
  qed
  from heap_up_spec [OF this _ _ refl h] n(2) have pl: "placed (Suc ?n) ?n ?r ?c i a" by simp
  let ?st = "st\<lparr>calllimit := calllimit st + 1, timeid := s32 (timeid st + 1), callout := a[i := ?r]\<rparr>"
  have run: "timeout func arg tim st = Some (s32 (timeid st + 1), ?st)"
  proof -
    have "calllimit st + 1 = int ?n" "int ?n \<noteq> v_call st" using n(1) room size_entries [OF ok] by simp_all
    moreover have "heap_up (s32 (lbolt st + tim)) ?n ?c = (i, a)" using h by (simp add: request_def)
    ultimately show ?thesis unfolding timeout_def Let_def by (simp add: request_def)
  qed
  have "-1 \<le> calllimit st" using ok by (simp add: calls_ok_def)
  then have nc: "ncall ?st = Suc ?n" by (simp add: ncall_def)
  have "calls_ok ?st" using ok pl nc n(1) room size_entries [OF ok] by (simp add: calls_ok_def placed_def)
  moreover have "entries ?st = mset (take (Suc ?n) (?c[?n := ?r]))" using pl nc by (simp add: entries_def placed_def)
  then have "entries ?st = add_mset ?r (entries st)"
    using n(2) by (simp add: entries_def mset_take_update mset_take_Suc)
  ultimately show ?thesis using run by simp
qed

section \<open>Taking a request back\<close>

lemma find_id_spec:
  "find_id ident ps f = (if ident \<in> c_id ` set ps then Some (f + length (takeWhile (\<lambda>p. c_id p \<noteq> ident) ps)) else None)"
  by (induction ps arbitrary: f) auto

lemma takeWhile_less: "length (takeWhile P xs) < length xs \<longleftrightarrow> (\<exists>x\<in>set xs. \<not> P x)"
  by (induction xs) auto

lemma untimeout_spec:
  assumes ok: "calls_ok st"
  shows "if ident \<in> c_id ` set_mset (entries st)
    then \<exists>f st' c. untimeout ident st = (int f, st') \<and> calls_ok st' \<and> c \<in># entries st \<and> c_id c = ident \<and> entries st' = entries st - {#c#} \<and>
      lbolt st' = lbolt st \<and> timeid st' = timeid st \<and> v_call st' = v_call st
    else untimeout ident st = (-1, st)"
proof (cases "ident \<in> c_id ` set_mset (entries st)")
  case False
  then show ?thesis by (simp add: untimeout_def find_id_spec entries_def ncall_def)
next
  case True
  let ?c = "callout st"
  define ps where "ps = take (ncall st) ?c"
  define f where "f = length (takeWhile (\<lambda>p. c_id p \<noteq> ident) ps)"
  have lp: "length ps = ncall st" using calls_okD(2) [OF ok] by (simp add: ps_def)
  have "\<exists>p\<in>set ps. c_id p = ident" using True by (auto simp: entries_def ps_def)
  then have f: "f < ncall st" "c_id (ps ! f) = ident"
    unfolding f_def lp [symmetric] using nth_length_takeWhile [of "\<lambda>p. c_id p \<noteq> ident" ps]
    by (auto simp: takeWhile_less)
  have pf: "ps ! f = ?c ! f" using f(1) by (simp add: ps_def)
  have fi: "find_id ident (take (nat (calllimit st + 1)) ?c) 0 = Some f"
    using True by (simp add: find_id_spec f_def ps_def ncall_def entries_def)
  have cf: "?c ! f \<in># entries st" using f(1) lp pf by (metis entries_def nth_mem ps_def set_mset_mset)
  obtain n where n: "ncall st = Suc n" using f(1) by (cases "ncall st") auto
  have lim: "calllimit st = int n" "n < length ?c" using calls_okD(1,2) [OF ok] n by simp_all
  show ?thesis
  proof (cases "f = n")
    case last: True
    have "untimeout ident st = (int f, st\<lparr>calllimit := calllimit st - 1\<rparr>)" using fi lim last by (simp add: untimeout_def Let_def)
    then show ?thesis using True drop_last [OF ok n] cf f pf last by auto
  next
    case False
    then have fn: "f < n" using f(1) n by simp
    have hole: "has_hole n f ?c" using calls_okD(3) [OF ok] n heap_hole [of "Suc n" ?c f] by (simp add: has_hole_def)
    define t where "t = time_at ?c n"
    define g where "g = (if f > 0 \<and> time_at ?c ((f - 1) div 2) > t then heap_up t f ?c else heap_down (int n - 1) t f ?c)"
    obtain i a where ia: "g = (i, a)" by fastforce
    have "placed n f (?c ! n) ?c i a"
    proof (cases "f > 0 \<and> time_at ?c (up f) > t")
      case u: True
      have b: "below_ge n f t ?c" unfolding below_ge_def
      proof (intro allI impI)
        fix k assume k: "k < n" "0 < k \<and> up k = f"
        have "time_at ?c (up f) \<le> time_at ?c k" using hole k u up_less(2) [of k] unfolding has_hole_def by (metis)
        then show "t \<le> time_at ?c k" using u by simp
      qed
      have "heap_up t f ?c = (i, a)" using ia u by (simp add: g_def up_def)
      then show ?thesis using heap_up_spec [OF hole b fn] lim(2) by (simp add: t_def)
    next
      case d: False
      then have "\<not> (f > 0 \<and> time_at ?c ((f - 1) div 2) > t)" by (simp add: up_def)
      then have "g = heap_down (int n - 1) t f ?c" unfolding g_def by (rule if_not_P)
      then have "heap_down (int n - 1) t f ?c = (i, a)" using ia by simp
      moreover have "0 < f \<Longrightarrow> time_at ?c (up f) \<le> t" using d by linarith
      ultimately show ?thesis using heap_down_spec [OF hole _ fn _ refl, of "?c ! n"] lim(2) unfolding t_def by auto
    qed
    note rm = removed [OF ok fn n this]
    have "untimeout ident st = (int f, st\<lparr>calllimit := calllimit st - 1, callout := a[i := a ! n]\<rparr>)"
      using fi lim False fn ia by (auto simp: untimeout_def Let_def g_def t_def split: if_splits)
    then show ?thesis using True rm cf f(2) pf by auto
  qed
qed

section \<open>Serving what is due\<close>

lemma drop_first_spec:
  assumes ok: "calls_ok st" and n: "ncall st = Suc n"
  shows "calls_ok (drop_first st)" "entries (drop_first st) = entries st - {#callout st ! 0#}" "ncall (drop_first st) = n"
    "lbolt (drop_first st) = lbolt st" "clog (drop_first st) = clog st"
proof -
  let ?c = "callout st"
  have lim: "calllimit st = int n" "n < length ?c" using calls_okD(1,2) [OF ok] n by simp_all
  have "calls_ok (drop_first st) \<and> entries (drop_first st) = entries st - {#?c ! 0#} \<and> calllimit (drop_first st) = int n - 1 \<and>
    lbolt (drop_first st) = lbolt st \<and> clog (drop_first st) = clog st"
  proof (cases "n = 0")
    case True
    then have "drop_first st = st\<lparr>calllimit := calllimit st - 1\<rparr>" using lim by (simp add: drop_first_def Let_def)
    then show ?thesis using drop_last [OF ok n] True lim by simp
  next
    case False
    have hole: "has_hole n 0 ?c" using calls_okD(3) [OF ok] n heap_hole [of "Suc n" ?c 0] by (simp add: has_hole_def)
    obtain i a where ia: "heap_down (int n - 1) (time_at ?c n) 0 ?c = (i, a)" by fastforce
    have "placed n 0 (?c ! n) ?c i a" using heap_down_spec [OF hole _ _ _ refl ia] False lim(2) by simp
    note rm = removed [OF ok _ n this]
    have "drop_first st = st\<lparr>calllimit := calllimit st - 1, callout := a[i := a ! n]\<rparr>"
      using ia False lim(1) by (simp add: drop_first_def Let_def)
    then show ?thesis using rm False lim(1) by simp
  qed
  then show "calls_ok (drop_first st)" "entries (drop_first st) = entries st - {#callout st ! 0#}"
    "lbolt (drop_first st) = lbolt st" "clog (drop_first st) = clog st" "ncall (drop_first st) = n" by (auto simp: ncall_def)
qed

definition due :: "callst \<Rightarrow> callo \<Rightarrow> bool" where
  "due st c \<longleftrightarrow> c_time c \<le> lbolt st"

text \<open>There is something due exactly when the first entry is.\<close>

lemma due_first:
  assumes ok: "calls_ok st"
  shows "(calllimit st \<ge> 0 \<and> c_time (callout st ! 0) \<le> lbolt st) \<longleftrightarrow> (\<exists>c\<in>#entries st. due st c)"
proof
  assume h: "calllimit st \<ge> 0 \<and> c_time (callout st ! 0) \<le> lbolt st"
  then have "0 < ncall st" by (simp add: ncall_def)
  then show "\<exists>c\<in>#entries st. due st c" using first_entry [OF ok] h by (auto simp: due_def)
next
  assume "\<exists>c\<in>#entries st. due st c"
  then obtain c where c: "c \<in># entries st" "c_time c \<le> lbolt st" by (auto simp: due_def)
  then have "ncall st \<noteq> 0" by (metis empty_iff entries_def list.set(1) set_mset_mset take0)
  then have "0 \<le> calllimit st" by (simp add: ncall_def)
  moreover have "time_at (callout st) 0 \<le> lbolt st" using entries_least [OF ok c(1)] c(2) by simp
  ultimately show "calllimit st \<ge> 0 \<and> c_time (callout st ! 0) \<le> lbolt st" by simp
qed

text \<open>An entry has been taken out of the table, and nothing else has changed.\<close>

definition call_taken :: "callo \<Rightarrow> callst \<Rightarrow> callst \<Rightarrow> bool" where
  "call_taken c st st1 \<longleftrightarrow> calls_ok st1 \<and> c \<in># entries st \<and> entries st1 = entries st - {#c#} \<and>
     (v_call st1, timeid st1, lbolt st1, dotimein st1, clog st1) = (v_call st, timeid st, lbolt st, dotimein st, clog st)"

text \<open>
  What \<open>timein\<close> is to do, with functions that may change the table: while anything is due, a due request
  of the least time is taken out, and then its function runs on the table without it.
\<close>

inductive fires :: "(callo \<Rightarrow> callst \<Rightarrow> callst) \<Rightarrow> callst \<Rightarrow> callo list \<Rightarrow> callst \<Rightarrow> bool" for call where
  nothing_due: "\<forall>c\<in>#entries st. \<not> due st c \<Longrightarrow> fires call st [] st"
| fired: "call_taken c st st1 \<Longrightarrow> due st c \<Longrightarrow> \<forall>d\<in>#entries st. c_time c \<le> c_time d \<Longrightarrow> fires call (call c st1) cs st' \<Longrightarrow>
    fires call st (c # cs) st'"

lemma first_taken:
  assumes ok: "calls_ok st" and h: "c_time (callout st ! 0) \<le> lbolt st \<and> calllimit st \<ge> 0"
  shows "call_taken (callout st ! 0) st (drop_first st)" "due st (callout st ! 0)" "\<forall>d\<in>#entries st. c_time (callout st ! 0) \<le> c_time d"
proof -
  obtain n where n: "ncall st = Suc n" using h by (cases "ncall st") (auto simp: ncall_def)
  have "(v_call (drop_first st), timeid (drop_first st), dotimein (drop_first st)) = (v_call st, timeid st, dotimein st)"
    by (simp add: drop_first_def Let_def split: prod.split)
  then show "call_taken (callout st ! 0) st (drop_first st)"
    using drop_first_spec [OF ok n] first_entry [OF ok] n by (simp add: call_taken_def)
  show "due st (callout st ! 0)" using h by (simp add: due_def)
  show "\<forall>d\<in>#entries st. c_time (callout st ! 0) \<le> c_time d" using entries_least [OF ok] by blast
qed

text \<open>What the functions may do: they keep the table in order; they make nothing due; they only add what is due later.\<close>

definition keeps_calls :: "(callo \<Rightarrow> callst \<Rightarrow> callst) \<Rightarrow> bool" where
  "keeps_calls call \<longleftrightarrow> (\<forall>c s. calls_ok s \<longrightarrow> calls_ok (call c s))"

definition makes_none_due :: "int \<Rightarrow> (callo \<Rightarrow> callst \<Rightarrow> callst) \<Rightarrow> bool" where
  "makes_none_due now call \<longleftrightarrow> (\<forall>c s. calls_ok s \<longrightarrow> lbolt s = now \<longrightarrow> lbolt (call c s) = now \<and>
     filter_mset (due s) (entries (call c s)) \<subseteq># filter_mset (due s) (entries s))"

definition adds_later :: "int \<Rightarrow> (callo \<Rightarrow> callst \<Rightarrow> callst) \<Rightarrow> bool" where
  "adds_later now call \<longleftrightarrow> (\<forall>c s. calls_ok s \<longrightarrow> lbolt s = now \<longrightarrow> lbolt (call c s) = now \<and>
     (\<exists>N. entries (call c s) = entries s + N \<and> (\<forall>d\<in>#N. \<not> due s d)))"

lemma filter_none: "\<forall>x\<in>#M. \<not> P x \<Longrightarrow> filter_mset P M = {#}"
  by (induction M) auto

lemma adds_makes_none: "adds_later now call \<Longrightarrow> makes_none_due now call"
  unfolding adds_later_def makes_none_due_def
proof (intro allI impI)
  fix c s
  assume h: "\<forall>c s. calls_ok s \<longrightarrow> lbolt s = now \<longrightarrow> lbolt (call c s) = now \<and>
     (\<exists>N. entries (call c s) = entries s + N \<and> (\<forall>d\<in>#N. \<not> due s d))" and s: "calls_ok s" "lbolt s = now"
  then obtain N where N: "lbolt (call c s) = now" "entries (call c s) = entries s + N" "\<forall>d\<in>#N. \<not> due s d" by blast
  moreover have "filter_mset (due s) N = {#}" using N(3) by (rule filter_none)
  ultimately show "lbolt (call c s) = now \<and> filter_mset (due s) (entries (call c s)) \<subseteq># filter_mset (due s) (entries s)" by simp
qed

text \<open>\<open>timein\<close> ends when nothing new is due.\<close>

lemma timein_ends:
  assumes "calls_ok st" "keeps_calls call" "makes_none_due (lbolt st) call"
  shows "\<exists>st'. timein call st = Some st'"
  using assms
proof (induction "size (filter_mset (due st) (entries st))" arbitrary: st rule: less_induct)
  case less
  show ?case
  proof (cases "c_time (callout st ! 0) \<le> lbolt st \<and> calllimit st \<ge> 0")
    case False
    then show ?thesis by (subst timein.simps) auto
  next
    case True
    note t = first_taken [OF less(2) True]
    let ?c = "callout st ! 0" and ?m = "call (callout st ! 0) (drop_first st)"
    have d: "calls_ok (drop_first st)" "lbolt (drop_first st) = lbolt st" "entries (drop_first st) = entries st - {#?c#}" "?c \<in># entries st"
      using t(1) by (simp_all add: call_taken_def)
    have m: "calls_ok ?m" "lbolt ?m = lbolt st"
      "filter_mset (due (drop_first st)) (entries ?m) \<subseteq># filter_mset (due (drop_first st)) (entries (drop_first st))"
      using less(3,4) d(1,2) by (simp_all add: keeps_calls_def makes_none_due_def)
    have du: "due (drop_first st) = due st" "due ?m = due st" by (simp_all add: due_def fun_eq_iff d(2) m(2))
    obtain M where M: "entries st = add_mset ?c M" using d(4) by (blast dest: multi_member_split)
    have "size (filter_mset (due ?m) (entries ?m)) \<le> size (filter_mset (due st) M)"
      using size_mset_mono [OF m(3)] by (simp add: du d(3) M)
    then have "size (filter_mset (due ?m) (entries ?m)) < size (filter_mset (due st) (entries st))" using t(2) by (simp add: M)
    then have "\<exists>st'. timein call ?m = Some st'" using less(1) [of ?m] m(1,2) less(3,4) by simp
    then show ?thesis using True by (subst timein.simps) simp
  qed
qed

text \<open>Functions that only add what is due later: exactly what was due is called, in the order of the times.\<close>

lemma fires_due:
  assumes "fires call st cs st'" "keeps_calls call" "adds_later (lbolt st) call" "calls_ok st"
  shows "sorted (map c_time cs) \<and> mset cs = filter_mset (due st) (entries st) \<and>
    (\<exists>N. entries st' = filter_mset (\<lambda>c. \<not> due st c) (entries st) + N)"
  using assms
proof (induction rule: fires.induct)
  case (nothing_due st)
  then have "filter_mset (due st) (entries st) = {#}" "filter_mset (\<lambda>c. \<not> due st c) (entries st) = entries st"
    by (auto simp: multiset_eq_iff not_in_iff)
  then show ?case by auto
next
  case (fired c st st1 cs st')
  have t: "calls_ok st1" "lbolt st1 = lbolt st" "entries st1 = entries st - {#c#}" "c \<in># entries st"
    using fired(1) by (simp_all add: call_taken_def)
  obtain M where M: "entries st = add_mset c M" using t(4) by (blast dest: multi_member_split)
  obtain N where N: "calls_ok (call c st1)" "lbolt (call c st1) = lbolt st" "entries (call c st1) = M + N" "\<forall>d\<in>#N. \<not> due st1 d"
    using fired(6,7) t(1-3) M unfolding keeps_calls_def adds_later_def by fastforce
  have du: "due st1 = due st" "due (call c st1) = due st" by (simp_all add: due_def fun_eq_iff t(2) N(2))
  have nd: "filter_mset (due st) N = {#}" using N(4) by (intro filter_none) (simp add: du)
  have ih: "sorted (map c_time cs)" "mset cs = filter_mset (due st) (M + N)"
    "\<exists>N'. entries st' = filter_mset (\<lambda>c. \<not> due st c) (M + N) + N'"
    using fired.IH [OF fired.prems(1)] fired.prems(2) N(1-3) du by simp_all
  have "set cs \<subseteq> set_mset (entries st)"
    using ih(2) nd by (metis M filter_mset_add_mset filter_union_mset mset_subset_eqD multiset_filter_subset set_mset_mset subsetI add.right_neutral set_mset_add_mset_insert insertCI)
  then have "sorted (map c_time (c # cs))" using ih(1) fired(3) by auto
  moreover have "mset (c # cs) = filter_mset (due st) (entries st)" using ih(2) nd fired(2) by (simp add: M)
  moreover have "\<exists>N. entries st' = filter_mset (\<lambda>c. \<not> due st c) (entries st) + N"
    using ih(3) fired(2) by (auto simp: M add.assoc)
  ultimately show ?case by blast
qed

text \<open>
  Whatever the functions do to the table, as long as they keep it in order: when \<open>timein\<close> returns it
  has fired as it should, the table is in order and nothing in it is due.
\<close>

lemma timein_any:
  assumes "timein call st = Some st'" "calls_ok st" "keeps_calls call"
  shows "calls_ok st' \<and> (\<forall>c\<in>#entries st'. \<not> due st' c) \<and> (\<exists>cs. fires call st cs st')"
proof -
  let ?Q = "\<lambda>call st st'. calls_ok st' \<and> (\<forall>c\<in>#entries st'. \<not> due st' c) \<and> (\<exists>cs. fires call st cs st')"
  have "keeps_calls call \<longrightarrow> calls_ok st \<longrightarrow> ?Q call st st'"
  proof (rule timein.raw_induct [where P = "\<lambda>call st st'. keeps_calls call \<longrightarrow> calls_ok st \<longrightarrow> ?Q call st st'", OF _ assms(1)], intro impI)
    fix f :: "(callo \<Rightarrow> callst \<Rightarrow> callst) \<Rightarrow> callst \<Rightarrow> callst option" and call st st'
    assume IH: "\<And>call st st'. f call st = Some st' \<Longrightarrow> keeps_calls call \<longrightarrow> calls_ok st \<longrightarrow> ?Q call st st'"
      and e: "(if c_time (callout st ! 0) \<le> lbolt st \<and> calllimit st \<ge> 0 then f call (call (callout st ! 0) (drop_first st)) else Some st) = Some st'"
      and k: "keeps_calls call" and ok: "calls_ok st"
    show "?Q call st st'"
    proof (cases "c_time (callout st ! 0) \<le> lbolt st \<and> calllimit st \<ge> 0")
      case True
      note t = first_taken [OF ok True]
      have "calls_ok (call (callout st ! 0) (drop_first st))" using k t(1) by (simp add: keeps_calls_def call_taken_def)
      then have "?Q call (call (callout st ! 0) (drop_first st)) st'" using IH e True k by simp
      then show ?thesis using fires.fired [OF t] by blast
    next
      case False
      then have "st' = st" "\<forall>c\<in>#entries st. \<not> due st c" using e due_first [OF ok] by auto
      then show ?thesis using ok fires.nothing_due by blast
    qed
  qed
  then show ?thesis using assms(2,3) by blast
qed

text \<open>A function that is noted, and one that asks to be called again after \<open>tim\<close> ticks, if there is room.\<close>

definition note_fired :: "callo \<Rightarrow> callst \<Rightarrow> callst" where
  "note_fired c st = st\<lparr>clog := clog st @ [c]\<rparr>"

definition fire_again :: "int \<Rightarrow> callo \<Rightarrow> callst \<Rightarrow> callst" where
  "fire_again tim c st = (case ttimeout (c_func c) (c_arg c) tim (note_fired c st) of Some (i, st1) \<Rightarrow> st1 | None \<Rightarrow> st)"

lemma note_fired_simps [simp]:
  "calls_ok (note_fired c st) = calls_ok st" "entries (note_fired c st) = entries st" "lbolt (note_fired c st) = lbolt st"
  "v_call (note_fired c st) = v_call st" "calllimit (note_fired c st) = calllimit st"
  by (simp_all add: note_fired_def calls_ok_def entries_def ncall_def)

lemma fire_again_spec:
  assumes "calls_ok st"
  shows "calls_ok (fire_again tim c st) \<and> lbolt (fire_again tim c st) = lbolt st \<and>
    (entries (fire_again tim c st) = entries st \<or>
     entries (fire_again tim c st) = add_mset (request (c_func c) (c_arg c) tim (note_fired c st)) (entries st))"
proof (cases "calllimit st + 1 = v_call st")
  case True
  then show ?thesis using assms by (simp add: fire_again_def ttimeout_def)
next
  case False
  have "calls_ok (note_fired c st)" using assms by simp
  moreover have "int (size (entries (note_fired c st))) < v_call (note_fired c st)"
    using False assms size_entries [OF assms] calls_okD(1) [OF assms] by (simp add: calls_ok_def)
  ultimately show ?thesis
    using timeout_spec [of "note_fired c st" "c_func c" "c_arg c" tim] False by (auto simp: fire_again_def ttimeout_def)
qed

lemma fire_again_later:
  assumes "0 < tim" "- (2 ^ 31) \<le> now" "now + tim < 2 ^ 31"
  shows "keeps_calls (fire_again tim)" "adds_later now (fire_again tim)"
proof -
  show "keeps_calls (fire_again tim)" using fire_again_spec by (simp add: keeps_calls_def)
  have l: "s32 (now + tim) = now + tim" using assms by (intro s32_id) simp_all
  have "\<exists>N. entries (fire_again tim c s) = entries s + N \<and> (\<forall>d\<in>#N. \<not> due s d)" if "calls_ok s" "lbolt s = now" for c s
  proof -
    have "\<not> due s (request (c_func c) (c_arg c) tim (note_fired c s))" using that(2) l assms(1) by (simp add: due_def request_def)
    then show ?thesis
      using fire_again_spec [OF that(1), of tim c]
      by (auto intro: exI [of _ "{#}"] exI [of _ "{#request (c_func c) (c_arg c) tim (note_fired c s)#}"])
  qed
  then show "adds_later now (fire_again tim)" using fire_again_spec by (simp add: adds_later_def)
qed

section \<open>Steps\<close>

text \<open>The calls and the ticks; the functions of requests may make and cancel requests.\<close>

inductive call_step :: "callst \<Rightarrow> callst \<Rightarrow> bool" where
  made: "timeout func arg tim st = Some (i, st') \<Longrightarrow> call_step st st'"
| tried: "ttimeout func arg tim st = Some (i, st') \<Longrightarrow> call_step st st'"
| cancelled: "untimeout i st = (r, st') \<Longrightarrow> call_step st st'"
| served: "timein call st = Some st' \<Longrightarrow> keeps_calls call \<Longrightarrow> call_step st st'"
| tick: "call_step st (clock_tick st)"

lemma timeout_ok:
  assumes "calls_ok st" "timeout func arg tim st = Some (i, st')"
  shows "calls_ok st'"
proof -
  have "calllimit st + 1 \<noteq> v_call st" using assms(2) by (auto simp: timeout_def Let_def)
  moreover have "calllimit st + 1 = int (size (entries st))" "calllimit st < v_call st"
    using assms(1) size_entries [OF assms(1)] calls_okD(1) [OF assms(1)] by (simp_all add: calls_ok_def)
  ultimately have "int (size (entries st)) < v_call st" by linarith
  from timeout_spec [OF assms(1) this, of func arg tim] assms(2) show ?thesis by auto
qed

lemma call_step_ok: "call_step st st' \<Longrightarrow> calls_ok st \<Longrightarrow> calls_ok st'"
proof (induction rule: call_step.induct)
  case (cancelled i st r st')
  then show ?case using untimeout_spec [OF cancelled(2), of i] by (auto split: if_splits)
next
  case (served call st st')
  then show ?case using timein_any [OF served(1,3)] by blast
next
  case (tick st)
  then show ?case by (simp add: clock_tick_def calls_ok_def ncall_def Let_def)
qed (auto simp: ttimeout_def intro: timeout_ok split: if_splits)

lemma call_steps_ok: "call_step\<^sup>*\<^sup>* st st' \<Longrightarrow> calls_ok st \<Longrightarrow> calls_ok st'"
  by (induction rule: rtranclp_induct) (auto intro: call_step_ok)

section \<open>The contract of a table of requests\<close>

locale request_table =
  fixes ok :: "'s \<Rightarrow> bool" and pending :: "'s \<Rightarrow> callo multiset" and room :: "'s \<Rightarrow> bool"
    and make :: "nat \<Rightarrow> u32 \<Rightarrow> int \<Rightarrow> 's \<Rightarrow> (int \<times> 's) option" and made :: "nat \<Rightarrow> u32 \<Rightarrow> int \<Rightarrow> 's \<Rightarrow> callo"
    and cancel :: "int \<Rightarrow> 's \<Rightarrow> int \<times> 's"
  assumes make: "ok s \<Longrightarrow> room s \<Longrightarrow> \<exists>s'. make f a t s = Some (c_id (made f a t s), s') \<and> ok s' \<and> pending s' = add_mset (made f a t s) (pending s)"
    and cancel: "ok s \<Longrightarrow> i \<in> c_id ` set_mset (pending s) \<Longrightarrow>
      \<exists>k s' c. cancel i s = (int k, s') \<and> ok s' \<and> c \<in># pending s \<and> c_id c = i \<and> pending s' = pending s - {#c#}"
    and cancel_none: "ok s \<Longrightarrow> i \<notin> c_id ` set_mset (pending s) \<Longrightarrow> cancel i s = (-1, s)"
begin

text \<open>A request with a new identifier is cancelled by it, and no other.\<close>

lemma cancel_made:
  assumes "ok s" "room s" "c_id (made f a t s) \<notin> c_id ` set_mset (pending s)"
  shows "\<exists>i s' k s''. make f a t s = Some (i, s') \<and> i = c_id (made f a t s) \<and> cancel i s' = (int k, s'') \<and> ok s'' \<and> pending s'' = pending s"
proof -
  let ?m = "made f a t s"
  obtain s' where s': "make f a t s = Some (c_id ?m, s')" "ok s'" "pending s' = add_mset ?m (pending s)" using make [OF assms(1,2)] by blast
  then have "c_id ?m \<in> c_id ` set_mset (pending s')" by simp
  then obtain k s'' c where c: "cancel (c_id ?m) s' = (int k, s'')" "ok s''" "c \<in># pending s'" "c_id c = c_id ?m" "pending s'' = pending s' - {#c#}"
    using cancel [OF s'(2)] by blast
  have "c \<notin># pending s" using assms(3) c(4) by (metis imageI)
  then have "c = ?m" using c(3) s'(3) by simp
  then show ?thesis using s' c by auto
qed

text \<open>While identifiers are distinct a second cancel finds nothing.\<close>

lemma cancel_twice:
  assumes "ok s" "cancel i s = (r, s')" "\<And>c d. c \<in># pending s \<Longrightarrow> d \<in># pending s - {#c#} \<Longrightarrow> c_id c \<noteq> c_id d"
  shows "cancel i s' = (-1, s')"
proof (cases "i \<in> c_id ` set_mset (pending s)")
  case True
  then obtain c where "ok s'" "c \<in># pending s" "c_id c = i" "pending s' = pending s - {#c#}" using cancel [OF assms(1) True] assms(2) by auto
  then show ?thesis using cancel_none [of s' i] assms(3) [of c] by auto
next
  case False
  then have "s' = s" using cancel_none [OF assms(1)] assms(2) by simp
  then show ?thesis using cancel_none [OF assms(1) False] by simp
qed

end

interpretation callouts: request_table calls_ok entries "\<lambda>st. int (size (entries st)) < v_call st" timeout request untimeout
proof (unfold_locales, goal_cases)
  case (1 s f a t)
  then show ?case using timeout_spec [OF 1] by (simp add: request_def) blast
next
  case (2 s i)
  then show ?case using untimeout_spec [OF 2(1), of i] by auto
next
  case (3 s i)
  then show ?case using untimeout_spec [OF 3(1), of i] by simp
qed

section \<open>Example tables\<close>

definition callst0 :: "nat \<Rightarrow> callst" where
  "callst0 n = \<lparr>callout = replicate n \<lparr>c_time = 0, c_id = 0, c_arg = 0, c_func = 0\<rparr>, calllimit = -1, v_call = int n, timeid = 0, lbolt = 100,
     dotimein = 0, clog = []\<rparr>"

text \<open>Four requests, due at 130, 110, 120 and 105.\<close>

definition callst4 :: "callst" where
  "callst4 = snd (the (timeout 4 0 5 (snd (the (timeout 3 0 20 (snd (the (timeout 2 0 10 (snd (the (timeout 1 0 30 (callst0 6))))))))))))"

lemma callst0_ok: "calls_ok (callst0 n)"
  by (simp add: calls_ok_def callst0_def is_heap_def ncall_def)

lemma callst4_ok: "calls_ok callst4" "v_call callst4 = 6" "timeid callst4 = 4" "clog callst4 = []"
  "map (\<lambda>c. (c_time c, c_id c, c_func c)) (take (ncall callst4) (callout callst4)) = [(105, 4, 4), (110, 2, 2), (120, 3, 3), (130, 1, 1)]"
proof -
  have s: "ncall callst4 = 4" "length (callout callst4) = 6" "calllimit callst4 = 3" "v_call callst4 = 6"
    "map c_time (take 4 (callout callst4)) = [105, 110, 120, 130]" by code_simp+
  have "time_at (callout callst4) k = [105, 110, 120, 130] ! k" if "k < 4" for k
  proof -
    have "map c_time (take 4 (callout callst4)) ! k = time_at (callout callst4) k" using that s(2) by simp
    then show ?thesis using s(5) by simp
  qed
  then have "is_heap 4 (callout callst4)" by (auto simp: is_heap_def less_Suc_eq numeral_eq_Suc up_def)
  then show "calls_ok callst4" using s by (simp add: calls_ok_def)
  show "v_call callst4 = 6" "timeid callst4 = 4" "clog callst4 = []"
    "map (\<lambda>c. (c_time c, c_id c, c_func c)) (take (ncall callst4) (callout callst4)) = [(105, 4, 4), (110, 2, 2), (120, 3, 3), (130, 1, 1)]"
    by code_simp+
qed

section \<open>The properties\<close>

text \<open>
  C15: \<open>clock\<close> asks for \<open>timein\<close> exactly when some request is due.  Whatever the functions do to the table,
  as long as they keep it in order, \<open>timein\<close> takes out a due request of the least time, then calls its
  function on the table without it, and so on until nothing is due (\<open>fires\<close>).  It ends when the functions
  make nothing due at once; and when they only add later requests, exactly the requests that were due are
  called, each once and in the order of their times, and the others stay.
\<close>

theorem timein_correct:
  assumes "calls_ok st" and "keeps_calls call"
  shows "dotimein (clock_tick st) = dotimein st + (if \<exists>c\<in>#entries st. due st c then 1 else 0) \<and>
    (timein call st = Some st' \<longrightarrow> calls_ok st' \<and> (\<forall>c\<in>#entries st'. \<not> due st' c) \<and> (\<exists>cs. fires call st cs st')) \<and>
    (makes_none_due (lbolt st) call \<longrightarrow> (\<exists>st'. timein call st = Some st')) \<and>
    (adds_later (lbolt st) call \<longrightarrow> (\<exists>st' cs N. timein call st = Some st' \<and> fires call st cs st' \<and> sorted (map c_time cs) \<and>
       mset cs = filter_mset (due st) (entries st) \<and> entries st' = filter_mset (\<lambda>c. \<not> due st c) (entries st) + N))"
proof (intro conjI impI)
  show "dotimein (clock_tick st) = dotimein st + (if \<exists>c\<in>#entries st. due st c then 1 else 0)"
    using due_first [OF assms(1)] by (simp add: clock_tick_def Let_def)
next
  assume a: "adds_later (lbolt st) call"
  obtain st' where r: "timein call st = Some st'" using timein_ends [OF assms adds_makes_none [OF a]] by blast
  obtain cs where f: "fires call st cs st'" using timein_any [OF r assms] by blast
  from fires_due [OF f assms(2) a assms(1)] r f
  show "\<exists>st' cs N. timein call st = Some st' \<and> fires call st cs st' \<and> sorted (map c_time cs) \<and>
    mset cs = filter_mset (due st) (entries st) \<and> entries st' = filter_mset (\<lambda>c. \<not> due st c) (entries st) + N" by blast
qed (use timein_any [OF _ assms] timein_ends [OF assms] in blast)+

text \<open>Two of four requests are due, and ask to be called again.\<close>

theorem timein_correct_witness:
  "\<exists>st' cs. timein (fire_again 20) (callst4\<lparr>lbolt := 115\<rparr>) = Some st' \<and> fires (fire_again 20) (callst4\<lparr>lbolt := 115\<rparr>) cs st' \<and>
     map c_func cs = [4, 2] \<and> map (\<lambda>c. (c_time c, c_func c)) (clog st') = [(105, 4), (110, 2)] \<and> calls_ok st'"
proof -
  let ?s = "callst4\<lparr>lbolt := 115\<rparr>"
  have ok: "calls_ok ?s" using callst4_ok(1) by (simp add: calls_ok_def ncall_def)
  have l: "keeps_calls (fire_again 20)" "adds_later (lbolt ?s) (fire_again 20)" using fire_again_later [of 20 "lbolt ?s"] by simp_all
  obtain st' cs where r: "timein (fire_again 20) ?s = Some st'" "fires (fire_again 20) ?s cs st'" "sorted (map c_time cs)"
    "mset cs = filter_mset (due ?s) (entries ?s)" "calls_ok st'"
    using timein_correct [OF ok l(1)] l(2) by blast
  have "entries ?s = mset (take (ncall callst4) (callout callst4))" by (simp add: entries_def ncall_def)
  moreover have "take (ncall callst4) (callout callst4) = map (\<lambda>(t, i, f). \<lparr>c_time = t, c_id = i, c_arg = 0, c_func = f\<rparr>)
    [(105, 4, 4), (110, 2, 2), (120, 3, 3), (130, 1, 1)]" by code_simp
  ultimately have m: "mset cs = {#\<lparr>c_time = 105, c_id = 4, c_arg = 0, c_func = 4\<rparr>, \<lparr>c_time = 110, c_id = 2, c_arg = 0, c_func = 2\<rparr>#}"
    using r(4) by (simp add: due_def)
  have "size (mset cs) = 2" unfolding m by simp
  then obtain a b where ab: "cs = [a, b]" by (auto simp: length_Suc_conv numeral_2_eq_2)
  have f: "map c_func cs = [4, 2]" using r(3) m unfolding ab by (auto simp: add_eq_conv_ex)
  have "map_option (\<lambda>s. map (\<lambda>c. (c_time c, c_func c)) (clog s)) (timein (fire_again 20) ?s) = Some [(105, 4), (110, 2)]" by code_simp
  then show ?thesis using r f by auto
qed

text \<open>
  C18: a request made by \<open>timeout\<close> is cancelled by its identifier, while no pending request has the same:
  \<open>untimeout\<close> leaves exactly the requests there were before, and a second \<open>untimeout\<close> finds none.
\<close>

theorem untimeout_undoes_timeout:
  assumes "calls_ok st" "int (size (entries st)) < v_call st" "s32 (timeid st + 1) \<notin> c_id ` set_mset (entries st)"
  shows "\<exists>i st1 k st2. timeout func arg tim st = Some (i, st1) \<and> request func arg tim st \<in># entries st1 \<and>
    untimeout i st1 = (int k, st2) \<and> calls_ok st2 \<and> entries st2 = entries st \<and> untimeout i st2 = (-1, st2)"
proof -
  have "c_id (request func arg tim st) = s32 (timeid st + 1)" by (simp add: request_def)
  then obtain i st1 k st2 where r: "timeout func arg tim st = Some (i, st1)" "i = s32 (timeid st + 1)" "untimeout i st1 = (int k, st2)"
    "calls_ok st2" "entries st2 = entries st"
    using callouts.cancel_made [OF assms(1,2), of func arg tim] assms(3) by auto
  moreover have "request func arg tim st \<in># entries st1" using timeout_spec [OF assms(1,2), of func arg tim] r(1) by auto
  moreover have "untimeout i st2 = (-1, st2)" using callouts.cancel_none [OF r(4)] r(2,5) assms(3) by simp
  ultimately show ?thesis by blast
qed

theorem untimeout_undoes_timeout_witness:
  "\<exists>st1 st2. timeout 9 0 1 callst4 = Some (5, st1) \<and> untimeout 5 st1 = (0, st2) \<and> entries st2 = entries callst4"
proof -
  have e: "map c_id (take (ncall callst4) (callout callst4)) = [4, 2, 3, 1]" "ncall callst4 = 4" by code_simp+
  then have "c_id ` set_mset (entries callst4) = {4, 2, 3, 1}" by (metis entries_def list.set_map set_mset_mset list.simps(15) list.set(1))
  moreover have "s32 (timeid callst4 + 1) = 5" by (simp add: callst4_ok(3) s32_id)
  moreover have "size (entries callst4) = 4" using size_entries [OF callst4_ok(1)] e(2) by simp
  ultimately obtain i st1 k st2 where r: "timeout 9 0 1 callst4 = Some (i, st1)" "untimeout i st1 = (int k, st2)" "entries st2 = entries callst4"
    using untimeout_undoes_timeout [OF callst4_ok(1), of 9 0 1] callst4_ok(2) by auto
  have "map_option fst (timeout 9 0 1 callst4) = Some 5" "map_option (\<lambda>(i, s). fst (untimeout i s)) (timeout 9 0 1 callst4) = Some 0"
    by code_simp+
  then show ?thesis using r by auto
qed

text \<open>
  C19: in any order of calls and ticks, whatever requests the functions make and cancel, the table stays
  a heap within its bounds.
\<close>

theorem callouts_stay_ok:
  assumes "call_step\<^sup>*\<^sup>* (callst0 n) st"
  shows "calls_ok st"
  using call_steps_ok [OF assms callst0_ok] .

theorem callouts_stay_ok_witness: "\<exists>st. timeout 1 0 30 (callst0 6) = Some (1, st) \<and> calls_ok (clock_tick st)"
proof -
  have "map_option fst (timeout 1 0 30 (callst0 6)) = Some 1" by code_simp
  then obtain st where st: "timeout 1 0 30 (callst0 6) = Some (1, st)" by auto
  have "call_step\<^sup>*\<^sup>* (callst0 6) (clock_tick st)"
    by (rule rtranclp.rtrancl_into_rtrancl [OF r_into_rtranclp [where r = call_step, OF call_step.made [OF st]] call_step.tick])
  from callouts_stay_ok [OF this] st show ?thesis by blast
qed

section \<open>Three slips\<close>

text \<open>
  Times are compared as signed numbers, which wrap around after 248 days of ticks: a request made
  shortly before for a time after it is due at once.
\<close>

lemma timeout_wraps:
  "map_option (\<lambda>(i, st). (c_time (callout st ! 0), dotimein (clock_tick st))) (timeout 1 0 1000 ((callst0 6)\<lparr>lbolt := 2147483000\<rparr>)) =
   Some (-2147483296, 1)"
  by code_simp

text \<open>The identifier of a request may be -1, which is also what \<open>ttimeout\<close> says when there is no room.\<close>

lemma ttimeout_minus_one: "map_option fst (ttimeout 1 0 10 ((callst0 6)\<lparr>timeid := -2\<rparr>)) = Some (-1)"
  by code_simp

text \<open>An identifier that comes again after the counter wrapped cancels the wrong request.\<close>

lemma untimeout_wrong_one:
  "let st = (callst0 6)\<lparr>timeid := 6\<rparr>; st1 = snd (the (timeout 1 0 10 st)); st2 = snd (the (timeout 2 0 20 (st1\<lparr>timeid := 6\<rparr>)))
   in fst (the (timeout 2 0 20 (st1\<lparr>timeid := 6\<rparr>))) = 7 \<and> map c_func (take 1 (callout (snd (untimeout 7 st2)))) = [2]"
  by code_simp

end
