(* ===== verification/Clist.thy ===== *)
theory Clist imports Prelude begin

text \<open>
  Queues of characters, \<open>io/clist.c\<close> and \<open>sys/tty.h\<close>: lists of blocks of \<open>CLSIZE\<close> characters over a free
  list that all queues share.  A block is a number, a queue is a number too; \<open>cwakeups\<close> counts the calls
  of \<open>wakeup\<close> for those who wait for a free block.
\<close>

section \<open>State\<close>

record cblock =
  c_next :: "nat option"
  c_first :: nat
  c_last :: nat
  c_data :: "u8 list"

record clist =
  c_cc :: int
  c_cf :: "nat option"
  c_cl :: "nat option"

record clst =
  cblk :: "nat \<Rightarrow> cblock"
  clists :: "nat \<Rightarrow> clist"
  cfreelist :: "nat option"
  c_size :: nat
  c_flag :: bool
  cfreecnt :: int
  cwakeups :: nat

definition CLSIZE :: nat where "CLSIZE = 64"

definition upd_cblk :: "nat \<Rightarrow> (cblock \<Rightarrow> cblock) \<Rightarrow> clst \<Rightarrow> clst" where
  "upd_cblk b f st = st\<lparr>cblk := (cblk st)(b := f (cblk st b))\<rparr>"

definition upd_clist :: "nat \<Rightarrow> (clist \<Rightarrow> clist) \<Rightarrow> clst \<Rightarrow> clst" where
  "upd_clist p f st = st\<lparr>clists := (clists st)(p := f (clists st p))\<rparr>"

section \<open>The free list\<close>

definition put_free :: "nat \<Rightarrow> clst \<Rightarrow> clst" where
  "put_free b st = (upd_cblk b (\<lambda>x. x\<lparr>c_next := cfreelist st\<rparr>) st)\<lparr>cfreelist := Some b\<rparr>"

definition wake_free :: "clst \<Rightarrow> clst" where
  "wake_free st = (if c_flag st then st\<lparr>c_flag := False, cwakeups := cwakeups st + 1\<rparr> else st)"

definition getcf :: "clst \<Rightarrow> nat option \<times> clst" where
  "getcf st =
     (case cfreelist st of
        None \<Rightarrow> (None, st)
      | Some b \<Rightarrow> (Some b, upd_cblk b (\<lambda>x. x\<lparr>c_next := None, c_first := 0, c_last := c_size st\<rparr>) (st\<lparr>cfreelist := c_next (cblk st b)\<rparr>)))"

definition putcf :: "nat \<Rightarrow> clst \<Rightarrow> clst" where
  "putcf b st = wake_free (put_free b st)"

section \<open>Single characters\<close>

text \<open>The first block of a queue goes.\<close>

definition drop_head :: "nat \<Rightarrow> nat \<Rightarrow> clst \<Rightarrow> clst" where
  "drop_head p b st =
     (let n = c_next (cblk st b)
      in upd_clist p (\<lambda>q. if n = None then q\<lparr>c_cf := n, c_cl := None\<rparr> else q\<lparr>c_cf := n\<rparr>) st)"

definition getc :: "nat \<Rightarrow> clst \<Rightarrow> int \<times> clst" where
  "getc p st =
     (if c_cc (clists st p) > 0 then
        let b = the (c_cf (clists st p));
            c = c_data (cblk st b) ! c_first (cblk st b);
            st1 = upd_cblk b (\<lambda>x. x\<lparr>c_first := c_first x + 1\<rparr>) (upd_clist p (\<lambda>q. q\<lparr>c_cc := c_cc q - 1\<rparr>) st)
        in (uint c, if c_first (cblk st1 b) = c_last (cblk st1 b) then wake_free (put_free b (drop_head p b st1)) else st1)
      else (-1, st))"

text \<open>A block from the free list becomes the last of a queue.\<close>

definition new_tail :: "nat \<Rightarrow> clst \<Rightarrow> (nat \<times> clst) option" where
  "new_tail p st =
     (case cfreelist st of
        None \<Rightarrow> None
      | Some b \<Rightarrow>
          let obp = c_cl (clists st p);
              st1 = upd_cblk b (\<lambda>x. x\<lparr>c_next := None, c_first := 0, c_last := 0\<rparr>) (st\<lparr>cfreelist := c_next (cblk st b)\<rparr>);
              st2 = (case obp of None \<Rightarrow> upd_clist p (\<lambda>q. q\<lparr>c_cf := Some b\<rparr>) st1
                     | Some ob \<Rightarrow> upd_cblk ob (\<lambda>x. x\<lparr>c_next := Some b\<rparr>) st1)
          in Some (b, upd_clist p (\<lambda>q. q\<lparr>c_cl := Some b\<rparr>) st2))"

text \<open>The block to write to: the last one, or a new one when it is full or there is none.\<close>

definition open_tail :: "nat \<Rightarrow> clst \<Rightarrow> (nat \<times> clst) option" where
  "open_tail p st =
     (case c_cl (clists st p) of
        None \<Rightarrow> new_tail p st
      | Some b \<Rightarrow> if c_last (cblk st b) = c_size st then new_tail p st else Some (b, st))"

text \<open>Characters into a block, from its \<open>c_last\<close> on.\<close>

definition store :: "u8 list \<Rightarrow> cblock \<Rightarrow> cblock" where
  "store cs x = x\<lparr>c_data := take (c_last x) (c_data x) @ cs @ drop (c_last x + length cs) (c_data x), c_last := c_last x + length cs\<rparr>"

definition putc :: "u8 \<Rightarrow> nat \<Rightarrow> clst \<Rightarrow> int \<times> clst" where
  "putc c p st =
     (case open_tail p st of
        None \<Rightarrow> (-1, st)
      | Some (b, st1) \<Rightarrow> (0, upd_clist p (\<lambda>q. q\<lparr>c_cc := c_cc q + 1\<rparr>) (upd_cblk b (store [c]) st1)))"

section \<open>Blocks\<close>

definition getcb :: "nat \<Rightarrow> clst \<Rightarrow> nat option \<times> clst" where
  "getcb p st =
     (case c_cf (clists st p) of
        None \<Rightarrow> (None, st)
      | Some b \<Rightarrow> (Some b, drop_head p b (upd_clist p (\<lambda>q. q\<lparr>c_cc := c_cc q - (int (c_last (cblk st b)) - int (c_first (cblk st b)))\<rparr>) st)))"

definition putcb :: "nat \<Rightarrow> nat \<Rightarrow> clst \<Rightarrow> clst" where
  "putcb b p st =
     (let st1 = (case c_cl (clists st p) of
                   None \<Rightarrow> upd_clist p (\<lambda>q. q\<lparr>c_cf := Some b\<rparr>) st
                 | Some ob \<Rightarrow> upd_cblk ob (\<lambda>x. x\<lparr>c_next := Some b\<rparr>) st);
          st2 = upd_cblk b (\<lambda>x. x\<lparr>c_next := None\<rparr>) (upd_clist p (\<lambda>q. q\<lparr>c_cl := Some b\<rparr>) st1)
      in upd_clist p (\<lambda>q. q\<lparr>c_cc := c_cc q + (int (c_last (cblk st2 b)) - int (c_first (cblk st2 b)))\<rparr>) st2)"

section \<open>Many characters\<close>

text \<open>The number asked for is not negative; the characters copied are the result.\<close>

definition chars_at :: "cblock \<Rightarrow> nat \<Rightarrow> u8 list" where
  "chars_at x n = take n (drop (c_first x) (c_data x))"

partial_function (option) getcbp_loop :: "nat \<Rightarrow> nat \<Rightarrow> u8 list \<Rightarrow> clst \<Rightarrow> (u8 list \<times> clst) option" where
  [code]: "getcbp_loop p n cp st =
     (if n = 0 then Some (cp, st)
      else case c_cf (clists st p) of
        None \<Rightarrow> Some (cp, st)
      | Some b \<Rightarrow>
          let on = c_last (cblk st b) - c_first (cblk st b)
          in if n \<ge> on then getcbp_loop p (n - on) (cp @ chars_at (cblk st b) on) (put_free b (drop_head p b st))
             else Some (cp @ chars_at (cblk st b) n, upd_cblk b (\<lambda>x. x\<lparr>c_first := c_first x + n\<rparr>) st))"

definition getcbp :: "nat \<Rightarrow> nat \<Rightarrow> clst \<Rightarrow> (u8 list \<times> clst) option" where
  "getcbp p n st =
     map_option (\<lambda>(cp, st1). (cp, upd_clist p (\<lambda>q. q\<lparr>c_cc := c_cc q - int (length cp)\<rparr>) st1)) (getcbp_loop p n [] st)"

text \<open>The number of characters copied is counted in \<open>k\<close>.\<close>

partial_function (option) putcbp_loop :: "nat \<Rightarrow> u8 list \<Rightarrow> nat \<Rightarrow> clst \<Rightarrow> (nat \<times> clst) option" where
  [code]: "putcbp_loop p cs k st =
     (if cs = [] then Some (k, st)
      else case open_tail p st of
        None \<Rightarrow> Some (k, st)
      | Some bs \<Rightarrow>
          let b = fst bs; st1 = snd bs; on = c_size st1 - c_last (cblk st1 b)
          in if length cs \<ge> on then putcbp_loop p (drop on cs) (k + on) (upd_cblk b (store (take on cs)) st1)
             else Some (k + length cs, upd_cblk b (store cs) st1))"

definition putcbp :: "nat \<Rightarrow> u8 list \<Rightarrow> clst \<Rightarrow> (nat \<times> clst) option" where
  "putcbp p cs st =
     map_option (\<lambda>(k, st1). (k, upd_clist p (\<lambda>q. q\<lparr>c_cc := c_cc q + int k\<rparr>) st1)) (putcbp_loop p cs 0 st)"

section \<open>Initialisation\<close>

text \<open>
  The \<open>v_clist\<close> blocks go to the free list, but for those that lie across a boundary of 64 Kbytes;
  \<open>addr\<close> is the physical address of the characters of a block.
\<close>

definition nextbound :: "int \<Rightarrow> int" where
  "nextbound x = x div 0x10000 * 0x10000 + 0x10000"

fun cinit_loop :: "(nat \<Rightarrow> int) \<Rightarrow> nat list \<Rightarrow> clst \<Rightarrow> clst" where
  "cinit_loop addr [] st = st"
| "cinit_loop addr (n # ns) st =
     cinit_loop addr ns
      (if addr n + int CLSIZE \<le> nextbound (addr n) then (put_free n st)\<lparr>cfreecnt := cfreecnt st + 1\<rparr> else st)"

definition cinit :: "(nat \<Rightarrow> int) \<Rightarrow> nat \<Rightarrow> clst \<Rightarrow> clst" where
  "cinit addr v_clist st = (cinit_loop addr [0..<v_clist] st)\<lparr>c_size := CLSIZE\<rparr>"

end
