(* ===== verification/Clist_Set.thy ===== *)
theory Clist_Set imports Clist begin

text \<open>
  What holds of the queues of characters: a queue is the text of a chain of blocks, the operations on
  one queue are described by what they do to its chain and the free list, and lifted to all queues,
  which share the free list and nothing else; and a wakeup that is missing.
\<close>

section \<open>Chains of blocks\<close>

primrec cl_path :: "(nat \<Rightarrow> cblock) \<Rightarrow> nat option \<Rightarrow> nat list \<Rightarrow> bool" where
  "cl_path h x [] \<longleftrightarrow> x = None"
| "cl_path h x (b # bs) \<longleftrightarrow> x = Some b \<and> cl_path h (c_next (h b)) bs"

lemma cl_path_None [simp]: "cl_path h None bs \<longleftrightarrow> bs = []"
  by (cases bs) auto

lemma cl_path_cong: "cl_path h x bs \<Longrightarrow> (\<And>b. b \<in> set bs \<Longrightarrow> c_next (h' b) = c_next (h b)) \<Longrightarrow> cl_path h' x bs"
  by (induction bs arbitrary: x) auto

lemma cl_path_snoc:
  assumes "cl_path h x bs" "distinct bs" "bs \<noteq> []" "b \<notin> set bs"
    "\<And>a. a \<in> set bs \<Longrightarrow> c_next (h' a) = (if a = last bs then Some b else c_next (h a))" "c_next (h' b) = None"
  shows "cl_path h' x (bs @ [b])"
  using assms
proof (induction bs arbitrary: x)
  case (Cons a bs)
  show ?case
  proof (cases "bs = []")
    case False
    then have "a \<noteq> last bs" using Cons.prems(2) by auto
    then show ?thesis using Cons False by auto
  qed (use Cons.prems in simp)
qed simp

text \<open>The characters of a block and of a list of blocks.\<close>

definition btxt :: "cblock \<Rightarrow> u8 list" where
  "btxt x = take (c_last x - c_first x) (drop (c_first x) (c_data x))"

definition ctext :: "clst \<Rightarrow> nat list \<Rightarrow> u8 list" where
  "ctext st bs = concat (map (\<lambda>b. btxt (cblk st b)) bs)"

lemma ctext_simps [simp]: "ctext st [] = []" "ctext st (b # bs) = btxt (cblk st b) @ ctext st bs" "ctext st (as @ bs) = ctext st as @ ctext st bs"
  by (simp_all add: ctext_def)

lemma ctext_cong: "(\<And>b. b \<in> set bs \<Longrightarrow> cblk st' b = cblk st b) \<Longrightarrow> ctext st' bs = ctext st bs"
  unfolding ctext_def by (metis (no_types, lifting) map_eq_conv)

definition good_block :: "nat \<Rightarrow> cblock \<Rightarrow> bool" where
  "good_block sz x \<longleftrightarrow> c_first x < c_last x \<and> c_last x \<le> sz \<and> length (c_data x) = sz"

text \<open>Queue \<open>p\<close> is the chain \<open>bs\<close> of blocks that are not empty, the free list is \<open>fs\<close>.\<close>

definition chain_ok :: "clst \<Rightarrow> nat \<Rightarrow> nat list \<Rightarrow> nat list \<Rightarrow> bool" where
  "chain_ok st p bs fs \<longleftrightarrow> 0 < c_size st \<and> cl_path (cblk st) (c_cf (clists st p)) bs \<and>
     c_cl (clists st p) = (if bs = [] then None else Some (last bs)) \<and> (\<forall>b\<in>set bs. good_block (c_size st) (cblk st b)) \<and>
     cl_path (cblk st) (cfreelist st) fs \<and> (\<forall>b\<in>set fs. length (c_data (cblk st b)) = c_size st) \<and> distinct (bs @ fs)"

text \<open>What an operation on \<open>p\<close> that only touches the blocks \<open>B\<close> leaves alone.\<close>

definition only_blocks :: "nat \<Rightarrow> nat set \<Rightarrow> clst \<Rightarrow> clst \<Rightarrow> bool" where
  "only_blocks p B st st' \<longleftrightarrow> c_size st' = c_size st \<and> (\<forall>b. b \<notin> B \<longrightarrow> cblk st' b = cblk st b) \<and>
     (\<forall>q. q \<noteq> p \<longrightarrow> clists st' q = clists st q) \<and> c_cc (clists st' p) = c_cc (clists st p)"

lemma only_blocks_refl [simp]: "only_blocks p B st st"
  by (simp add: only_blocks_def)

lemma only_blocks_trans: "only_blocks p B st st' \<Longrightarrow> only_blocks p B' st' st'' \<Longrightarrow> B' \<subseteq> B \<Longrightarrow> only_blocks p B st st''"
  unfolding only_blocks_def by (metis subsetD)

lemma cl_upd_simps [simp]:
  "cblk (upd_cblk b f st) = (cblk st)(b := f (cblk st b))" "clists (upd_cblk b f st) = clists st" "cfreelist (upd_cblk b f st) = cfreelist st"
  "c_size (upd_cblk b f st) = c_size st" "cblk (upd_clist p g st) = cblk st" "clists (upd_clist p g st) = (clists st)(p := g (clists st p))"
  "cfreelist (upd_clist p g st) = cfreelist st" "c_size (upd_clist p g st) = c_size st"
  "cblk (wake_free st) = cblk st" "clists (wake_free st) = clists st" "cfreelist (wake_free st) = cfreelist st" "c_size (wake_free st) = c_size st"
  by (simp_all add: upd_cblk_def upd_clist_def wake_free_def)

section \<open>Taking characters\<close>

lemma chain_head:
  assumes "chain_ok st p (b # bs) fs"
  shows "c_cf (clists st p) = Some b" "good_block (c_size st) (cblk st b)" "btxt (cblk st b) \<noteq> []"
    "length (btxt (cblk st b)) = c_last (cblk st b) - c_first (cblk st b)"
  using assms by (auto simp: chain_ok_def good_block_def btxt_def)

lemma chain_wake [simp]: "chain_ok (wake_free st) p bs fs = chain_ok st p bs fs" "ctext (wake_free st) bs = ctext st bs"
  by (simp_all add: chain_ok_def ctext_def)

text \<open>The first block goes to the free list.\<close>

lemma drop_free_spec:
  assumes ok: "chain_ok st p (b # bs) fs" and st': "st' = put_free b (drop_head p b (upd_cblk b (\<lambda>x. x\<lparr>c_first := f\<rparr>) st))"
  shows "chain_ok st' p bs (b # fs)" "ctext st' bs = ctext st bs" "only_blocks p {b} st st'"
proof -
  have d: "b \<notin> set bs" "b \<notin> set fs" using ok by (auto simp: chain_ok_def)
  have blk: "cblk st' a = (if a = b then (cblk st b)\<lparr>c_first := f, c_next := cfreelist st\<rparr> else cblk st a)" for a
    by (simp add: st' put_free_def drop_head_def Let_def)
  have cl: "clists st' p = (let n = c_next (cblk st b) in if n = None then (clists st p)\<lparr>c_cf := n, c_cl := None\<rparr> else (clists st p)\<lparr>c_cf := n\<rparr>)"
    "cfreelist st' = Some b" "c_size st' = c_size st" "\<And>q. q \<noteq> p \<Longrightarrow> clists st' q = clists st q"
    by (simp_all add: st' put_free_def drop_head_def Let_def)
  have "cl_path (cblk st') (c_next (cblk st b)) bs"
    by (rule cl_path_cong [of "cblk st"]) (use ok d blk in \<open>auto simp: chain_ok_def\<close>)
  moreover have "cl_path (cblk st') (cfreelist st) fs"
    by (rule cl_path_cong [of "cblk st"]) (use ok d blk in \<open>auto simp: chain_ok_def\<close>)
  moreover have "c_next (cblk st b) = None \<longleftrightarrow> bs = []" using ok by (cases bs) (auto simp: chain_ok_def)
  moreover have "length (c_data (cblk st b)) = c_size st" using chain_head(2) [OF ok] by (simp add: good_block_def)
  ultimately show "chain_ok st' p bs (b # fs)" using ok d by (auto simp: chain_ok_def blk cl Let_def)
  show "ctext st' bs = ctext st bs" by (rule ctext_cong) (use d blk in auto)
  show "only_blocks p {b} st st'" by (simp add: only_blocks_def blk cl Let_def)
qed

text \<open>Fewer characters than the first block has.\<close>

lemma advance_spec:
  assumes ok: "chain_ok st p (b # bs) fs" and n: "n < length (btxt (cblk st b))"
    and st': "st' = upd_cblk b (\<lambda>x. x\<lparr>c_first := c_first x + n\<rparr>) st"
  shows "chain_ok st' p (b # bs) fs" "ctext st' (b # bs) = drop n (ctext st (b # bs))" "only_blocks p {b} st st'"
proof -
  have d: "b \<notin> set bs" "b \<notin> set fs" using ok by (auto simp: chain_ok_def)
  have path: "cl_path (cblk st') x xs = cl_path (cblk st) x xs" for x xs
    by (induction xs arbitrary: x) (auto simp: st')
  show "chain_ok st' p (b # bs) fs" using ok n chain_head(4) [OF ok] unfolding chain_ok_def path
    by (auto simp: st' good_block_def)
  have "btxt (cblk st' b) = drop n (btxt (cblk st b))" by (simp add: st' btxt_def drop_take add.commute)
  moreover have "ctext st' bs = ctext st bs" by (rule ctext_cong) (use d in \<open>auto simp: st'\<close>)
  ultimately show "ctext st' (b # bs) = drop n (ctext st (b # bs))" using n by simp
  show "only_blocks p {b} st st'" by (simp add: only_blocks_def st')
qed

lemma chars_btxt: "n \<le> c_last x - c_first x \<Longrightarrow> chars_at x n = take n (btxt x)"
  by (simp add: chars_at_def btxt_def)

lemma getcbp_loop_spec:
  assumes "chain_ok st p bs fs"
  shows "\<exists>st' bs' fs'. getcbp_loop p n cp st = Some (cp @ take n (ctext st bs), st') \<and> chain_ok st' p bs' fs' \<and>
    ctext st' bs' = drop n (ctext st bs) \<and> only_blocks p (set bs \<union> set fs) st st' \<and> set bs' \<union> set fs' = set bs \<union> set fs"
  using assms
proof (induction bs arbitrary: st fs n cp)
  case Nil
  have "c_cf (clists st p) = None" using Nil by (simp add: chain_ok_def)
  then have "getcbp_loop p n cp st = Some (cp, st)" by (subst getcbp_loop.simps) simp
  then show ?case using Nil by (intro exI [of _ st] exI [of _ "[]"] exI [of _ fs]) simp
next
  case (Cons b bs)
  note ok = Cons.prems
  note hd = chain_head [OF ok]
  show ?case
  proof (cases "n = 0")
    case True
    then have "getcbp_loop p n cp st = Some (cp, st)" by (subst getcbp_loop.simps) simp
    then show ?thesis using ok True by (intro exI [of _ st] exI [of _ "b # bs"] exI [of _ fs]) simp
  next
    case n0: False
    define on where "on = c_last (cblk st b) - c_first (cblk st b)"
    have on: "length (btxt (cblk st b)) = on" using hd(4) by (simp add: on_def)
    show ?thesis
    proof (cases "n \<ge> on")
      case True
      define m where "m = put_free b (drop_head p b st)"
      have "m = put_free b (drop_head p b (upd_cblk b (\<lambda>x. x\<lparr>c_first := c_first (cblk st b)\<rparr>) st))"
        by (simp add: m_def upd_cblk_def fun_upd_idem)
      note dr = drop_free_spec [OF ok this]
      have run: "getcbp_loop p n cp st = getcbp_loop p (n - on) (cp @ btxt (cblk st b)) m"
        using n0 hd(1) True on by (subst getcbp_loop.simps) (simp add: Let_def on_def m_def chars_btxt)
      from Cons.IH [OF dr(1), of "n - on" "cp @ btxt (cblk st b)"] obtain st' bs' fs' where
        r: "getcbp_loop p (n - on) (cp @ btxt (cblk st b)) m = Some ((cp @ btxt (cblk st b)) @ take (n - on) (ctext m bs), st')"
        "chain_ok st' p bs' fs'" "ctext st' bs' = drop (n - on) (ctext m bs)" "only_blocks p (set bs \<union> set (b # fs)) m st'"
        "set bs' \<union> set fs' = set bs \<union> set (b # fs)" by blast
      have "only_blocks p (set (b # bs) \<union> set fs) st st'"
        by (rule only_blocks_trans [OF _ r(4)]) (use dr(3) in \<open>auto simp: only_blocks_def\<close>)
      then show ?thesis using run r dr(2) on True by (intro exI [of _ st'] exI [of _ bs'] exI [of _ fs']) (auto simp: take_add)
    next
      case False
      define m where "m = upd_cblk b (\<lambda>x. x\<lparr>c_first := c_first x + n\<rparr>) st"
      have "n < length (btxt (cblk st b))" using False on by simp
      note ad = advance_spec [OF ok this m_def]
      have "getcbp_loop p n cp st = Some (cp @ take n (btxt (cblk st b)), m)"
        using n0 hd(1) False by (subst getcbp_loop.simps) (simp add: Let_def on_def m_def chars_btxt)
      moreover have "only_blocks p (set (b # bs) \<union> set fs) st m" using ad(3) by (auto simp: only_blocks_def)
      ultimately show ?thesis using ad(1,2) False on by (intro exI [of _ m] exI [of _ "b # bs"] exI [of _ fs]) simp
    qed
  qed
qed

section \<open>Adding characters\<close>

text \<open>The room there is for queue \<open>p\<close>: what is left of its last block, and the free blocks.\<close>

definition croom :: "clst \<Rightarrow> nat list \<Rightarrow> nat list \<Rightarrow> nat" where
  "croom st bs fs = (if bs = [] then 0 else c_size st - c_last (cblk st (last bs))) + c_size st * length fs"

lemma btxt_store:
  assumes "c_first x \<le> c_last x" "c_last x + length cs \<le> length (c_data x)"
  shows "btxt (store cs x) = btxt x @ cs"
proof -
  have "drop (c_first x) (take (c_last x) (c_data x)) = btxt x" using assms(1) by (simp add: btxt_def drop_take)
  then show ?thesis using assms by (simp add: btxt_def store_def)
qed

lemma store_simps [simp]:
  "c_first (store cs x) = c_first x" "c_last (store cs x) = c_last x + length cs" "c_next (store cs x) = c_next x"
  "c_last x + length cs \<le> length (c_data x) \<Longrightarrow> length (c_data (store cs x)) = length (c_data x)"
  by (simp_all add: store_def)

lemma open_tail_none:
  assumes "chain_ok st p bs fs"
  shows "open_tail p st = None \<longleftrightarrow> croom st bs fs = 0"
proof (cases "bs = []")
  case True
  then show ?thesis using assms by (cases fs) (auto simp: chain_ok_def open_tail_def new_tail_def croom_def Let_def)
next
  case False
  have "c_cl (clists st p) = Some (last bs)" "cfreelist st = None \<longleftrightarrow> fs = []" "0 < c_size st"
    using assms False by (auto simp: chain_ok_def)
  moreover have "c_last (cblk st (last bs)) \<le> c_size st" using assms False by (simp add: chain_ok_def good_block_def)
  ultimately show ?thesis using False
    by (cases "c_last (cblk st (last bs)) = c_size st") (auto simp: open_tail_def new_tail_def croom_def Let_def split: option.splits)
qed

text \<open>Characters that fit into the block that is open, one at least.\<close>

lemma append_spec:
  assumes ok: "chain_ok st p bs fs" and op: "open_tail p st = Some (b, st1)" and cs: "cs \<noteq> []" "length cs \<le> c_size st1 - c_last (cblk st1 b)"
    and st': "st' = upd_cblk b (store cs) st1"
  shows "\<exists>bs' fs'. chain_ok st' p bs' fs' \<and> ctext st' bs' = ctext st bs @ cs \<and> only_blocks p (set bs \<union> set fs) st st' \<and>
    set bs' \<union> set fs' = set bs \<union> set fs \<and> croom st' bs' fs' + length cs = croom st bs fs"
proof (cases "open_tail p st = new_tail p st")
  case True
  then obtain fs1 where fs: "fs = b # fs1" and st1: "(let obp = c_cl (clists st p);
       s1 = upd_cblk b (\<lambda>x. x\<lparr>c_next := None, c_first := 0, c_last := 0\<rparr>) (st\<lparr>cfreelist := c_next (cblk st b)\<rparr>);
       s2 = (case obp of None \<Rightarrow> upd_clist p (\<lambda>q. q\<lparr>c_cf := Some b\<rparr>) s1 | Some ob \<Rightarrow> upd_cblk ob (\<lambda>x. x\<lparr>c_next := Some b\<rparr>) s1)
     in upd_clist p (\<lambda>q. q\<lparr>c_cl := Some b\<rparr>) s2) = st1"
    using op ok by (cases fs) (auto simp: new_tail_def chain_ok_def Let_def)
  have d: "b \<notin> set bs" "b \<notin> set fs1" "set bs \<inter> set fs1 = {}" using ok fs by (auto simp: chain_ok_def)
  have cl: "c_cl (clists st p) = (if bs = [] then None else Some (last bs))" using ok by (simp add: chain_ok_def)
  have lb: "bs \<noteq> [] \<Longrightarrow> last bs \<noteq> b" "bs \<noteq> [] \<Longrightarrow> last bs \<notin> set fs1" using d(1,3) last_in_set [of bs] by blast+
  have blk1: "cblk st1 a = (if a = b then (cblk st b)\<lparr>c_next := None, c_first := 0, c_last := 0\<rparr>
      else if bs \<noteq> [] \<and> a = last bs then (cblk st a)\<lparr>c_next := Some b\<rparr> else cblk st a)" for a
    using lb by (auto simp: st1 [symmetric] cl Let_def)
  have s1: "c_size st1 = c_size st" "cfreelist st1 = c_next (cblk st b)" "c_cc (clists st1 p) = c_cc (clists st p)"
    "c_cf (clists st1 p) = (if bs = [] then Some b else c_cf (clists st p))" "c_cl (clists st1 p) = Some b"
    "\<And>q. q \<noteq> p \<Longrightarrow> clists st1 q = clists st q"
    using cl by (auto simp: st1 [symmetric] Let_def split: if_splits)
  have lenb: "length (c_data (cblk st b)) = c_size st" using ok fs by (simp add: chain_ok_def)
  have blk: "cblk st' a = (if a = b then store cs ((cblk st b)\<lparr>c_next := None, c_first := 0, c_last := 0\<rparr>)
      else if bs \<noteq> [] \<and> a = last bs then (cblk st a)\<lparr>c_next := Some b\<rparr> else cblk st a)" for a
    by (simp add: st' blk1)
  have s': "c_size st' = c_size st" "cfreelist st' = c_next (cblk st b)" "clists st' = clists st1" by (simp_all add: st' s1)
  have lc: "length cs \<le> c_size st" using cs(2) by (simp add: blk1 s1)
  have "cl_path (cblk st') (c_cf (clists st' p)) (bs @ [b])"
  proof (cases "bs = []")
    case False
    have "cl_path (cblk st) (c_cf (clists st p)) bs" "distinct bs" using ok by (simp_all add: chain_ok_def)
    moreover have "c_next (cblk st' a) = (if a = last bs then Some b else c_next (cblk st a))" if "a \<in> set bs" for a
      using that d(1) False by (auto simp: blk)
    moreover have "c_next (cblk st' b) = None" by (simp add: blk)
    ultimately have "cl_path (cblk st') (c_cf (clists st p)) (bs @ [b])" using False d(1) by (intro cl_path_snoc)
    then show ?thesis using False by (simp add: s' s1)
  qed (simp add: s' s1 blk)
  moreover have "cl_path (cblk st') (cfreelist st') fs1" unfolding s'
    by (rule cl_path_cong [of "cblk st"]) (use ok fs d lb in \<open>auto simp: chain_ok_def blk\<close>)
  moreover have "good_block (c_size st') (cblk st' b)" using lc cs(1) lenb by (simp add: good_block_def blk s')
  moreover have "good_block (c_size st') (cblk st' a)" if "a \<in> set bs" for a
    using ok that d(1) by (auto simp: chain_ok_def good_block_def blk s')
  moreover have "length (c_data (cblk st' a)) = c_size st'" if "a \<in> set fs1" for a
    using ok that d fs by (auto simp: chain_ok_def blk s')
  moreover have "distinct ((bs @ [b]) @ fs1)" using ok fs by (auto simp: chain_ok_def)
  ultimately have "chain_ok st' p (bs @ [b]) fs1" using ok unfolding chain_ok_def by (auto simp: s' s1)
  moreover have "ctext st' (bs @ [b]) = ctext st bs @ cs"
  proof -
    have "btxt (cblk st' b) = cs" using btxt_store [of "(cblk st b)\<lparr>c_next := None, c_first := 0, c_last := 0\<rparr>" cs] lenb lc
      by (simp add: blk btxt_def)
    moreover have "btxt (cblk st' a) = btxt (cblk st a)" if "a \<in> set bs" for a using that d(1) by (auto simp: blk btxt_def)
    then have "ctext st' bs = ctext st bs" unfolding ctext_def by (metis (no_types, lifting) map_eq_conv)
    ultimately show ?thesis by simp
  qed
  moreover have "only_blocks p (set bs \<union> set fs) st st'" by (auto simp: only_blocks_def blk s' s1 fs)
  moreover have "croom st' (bs @ [b]) fs1 + length cs = croom st bs fs"
  proof -
    have "c_last (cblk st (last bs)) = c_size st" if "bs \<noteq> []"
    proof (rule ccontr)
      assume "c_last (cblk st (last bs)) \<noteq> c_size st"
      then have "open_tail p st = Some (last bs, st)" using cl that by (simp add: open_tail_def)
      then show False using op lb(1) that by simp
    qed
    then show ?thesis using lc by (simp add: croom_def s' blk fs)
  qed
  ultimately show ?thesis by (intro exI [of _ "bs @ [b]"] exI [of _ fs1]) (auto simp: fs)
next
  case False
  then have ne: "bs \<noteq> []" and b: "b = last bs" "st1 = st"
    using op ok by (auto simp: open_tail_def chain_ok_def split: if_splits option.splits)
  have bb: "b \<in> set bs" using ne b by simp
  then have g: "good_block (c_size st) (cblk st b)" and bf: "b \<notin> set fs" using ok by (auto simp: chain_ok_def)
  have path: "cl_path (cblk st') x xs = cl_path (cblk st) x xs" for x xs
    by (induction xs arbitrary: x) (auto simp: st' b)
  have fit: "c_last (cblk st b) + length cs \<le> c_size st" using g cs(2) unfolding good_block_def b(2) by linarith
  then have "good_block (c_size st) (cblk st' b)" using g by (simp add: good_block_def st' b(2))
  then have "chain_ok st' p bs fs" using ok bf unfolding chain_ok_def path by (auto simp: st' b(2))
  moreover have "ctext st' bs = ctext st bs @ cs"
  proof -
    obtain as where as: "bs = as @ [b]" using ne b by (metis append_butlast_last_id)
    then have "b \<notin> set as" using ok by (auto simp: chain_ok_def)
    then have "ctext st' as = ctext st as" by (intro ctext_cong) (auto simp: st' b(2))
    moreover have "btxt (cblk st' b) = btxt (cblk st b) @ cs" using btxt_store [of "cblk st b" cs] g fit by (simp add: good_block_def st' b(2))
    ultimately show ?thesis by (simp add: as)
  qed
  moreover have "only_blocks p (set bs \<union> set fs) st st'" using bb by (auto simp: only_blocks_def st' b(2))
  moreover have "croom st' bs fs + length cs = croom st bs fs" using fit ne b by (simp add: croom_def st')
  ultimately show ?thesis by blast
qed

lemma putcbp_loop_spec:
  assumes "chain_ok st p bs fs"
  shows "\<exists>st' bs' fs'. putcbp_loop p cs k st = Some (k + min (length cs) (croom st bs fs), st') \<and> chain_ok st' p bs' fs' \<and>
    ctext st' bs' = ctext st bs @ take (croom st bs fs) cs \<and> only_blocks p (set bs \<union> set fs) st st' \<and> set bs' \<union> set fs' = set bs \<union> set fs \<and>
    croom st' bs' fs' = croom st bs fs - length cs"
  using assms
proof (induction "length cs" arbitrary: cs k st bs fs rule: less_induct)
  case less
  note ok = less.prems
  show ?case
  proof (cases "cs = [] \<or> open_tail p st = None")
    case True
    then have "putcbp_loop p cs k st = Some (k, st)" by (subst putcbp_loop.simps) auto
    moreover have "cs = [] \<or> croom st bs fs = 0" using True open_tail_none [OF ok] by simp
    ultimately show ?thesis using ok by (intro exI [of _ st] exI [of _ bs] exI [of _ fs]) auto
  next
    case False
    then obtain b st1 where op: "open_tail p st = Some (b, st1)" and ne: "cs \<noteq> []" by auto
    define on where "on = c_size st1 - c_last (cblk st1 b)"
    have step: "putcbp_loop p cs k st = (if length cs \<ge> on then putcbp_loop p (drop on cs) (k + on) (upd_cblk b (store (take on cs)) st1)
        else Some (k + length cs, upd_cblk b (store cs) st1))"
      using op ne by (subst putcbp_loop.simps) (simp add: on_def Let_def)
    have on0: "0 < on"
    proof -
      have "croom st bs fs \<noteq> 0" using open_tail_none [OF ok] op by simp
      show ?thesis
      proof (cases "open_tail p st = new_tail p st")
        case True
        then have "c_last (cblk st1 b) = 0 \<and> c_size st1 = c_size st"
          using op ok by (auto simp: new_tail_def chain_ok_def Let_def split: option.splits)
        then show ?thesis using ok by (simp add: on_def chain_ok_def)
      next
        case False
        then have "st1 = st" "c_last (cblk st b) \<noteq> c_size st" "b \<in> set bs"
          using op ok by (auto simp: open_tail_def chain_ok_def split: if_splits option.splits)
        then show ?thesis using ok by (auto simp: on_def chain_ok_def good_block_def)
      qed
    qed
    show ?thesis
    proof (cases "length cs \<ge> on")
      case True
      define m where "m = upd_cblk b (store (take on cs)) st1"
      have "take on cs \<noteq> []" "length (take on cs) \<le> c_size st1 - c_last (cblk st1 b)" using ne on0 by (auto simp: on_def)
      from append_spec [OF ok op this m_def] obtain bs1 fs1 where a: "chain_ok m p bs1 fs1" "ctext m bs1 = ctext st bs @ take on cs"
        "only_blocks p (set bs \<union> set fs) st m" "set bs1 \<union> set fs1 = set bs \<union> set fs" "croom m bs1 fs1 + on = croom st bs fs" using True by auto
      have "length (drop on cs) < length cs" using on0 ne by simp
      from less.hyps [OF this a(1), of "k + on"] obtain st' bs' fs' where r:
        "putcbp_loop p (drop on cs) (k + on) m = Some (k + on + min (length (drop on cs)) (croom m bs1 fs1), st')" "chain_ok st' p bs' fs'"
        "ctext st' bs' = ctext m bs1 @ take (croom m bs1 fs1) (drop on cs)" "only_blocks p (set bs1 \<union> set fs1) m st'"
        "set bs' \<union> set fs' = set bs1 \<union> set fs1" "croom st' bs' fs' = croom m bs1 fs1 - length (drop on cs)" by blast
      have c: "croom st bs fs = on + croom m bs1 fs1" using a(5) by simp
      have "only_blocks p (set bs \<union> set fs) st st'" by (rule only_blocks_trans [OF a(3) r(4)]) (use a(4) in simp)
      moreover have "k + on + min (length (drop on cs)) (croom m bs1 fs1) = k + min (length cs) (croom st bs fs)" using True c by simp
      moreover have "ctext st' bs' = ctext st bs @ take (croom st bs fs) cs" using r(3) a(2) c by (simp add: take_add)
      ultimately show ?thesis using step True r(1,2,5,6) a(4) c m_def by (intro exI [of _ st'] exI [of _ bs'] exI [of _ fs']) auto
    next
      case False
      define m where "m = upd_cblk b (store cs) st1"
      have "length cs \<le> c_size st1 - c_last (cblk st1 b)" using False by (simp add: on_def)
      from append_spec [OF ok op ne this m_def] obtain bs1 fs1 where a: "chain_ok m p bs1 fs1" "ctext m bs1 = ctext st bs @ cs"
        "only_blocks p (set bs \<union> set fs) st m" "set bs1 \<union> set fs1 = set bs \<union> set fs" "croom m bs1 fs1 + length cs = croom st bs fs" by blast
      then have "length cs \<le> croom st bs fs" by linarith
      then show ?thesis using step False a m_def by (intro exI [of _ m] exI [of _ bs1] exI [of _ fs1]) auto
    qed
  qed
qed

section \<open>All queues together\<close>

text \<open>\<open>Q p\<close> are the blocks of queue \<open>p\<close>; no two queues share one, and all share the free list.\<close>

definition cl_ok :: "clst \<Rightarrow> (nat \<Rightarrow> nat list) \<Rightarrow> nat list \<Rightarrow> bool" where
  "cl_ok st Q fs \<longleftrightarrow> (\<forall>p. chain_ok st p (Q p) fs \<and> c_cc (clists st p) = int (length (ctext st (Q p)))) \<and>
     (\<forall>p q. p \<noteq> q \<longrightarrow> set (Q p) \<inter> set (Q q) = {})"

text \<open>
  What the queues say: their characters \<open>V\<close>, the room \<open>R\<close> each has (the end of its last block and every
  free block, those being shared), and the blocks \<open>B\<close> that are in a queue or free.
\<close>

definition cl_view :: "clst \<Rightarrow> nat set \<Rightarrow> (nat \<Rightarrow> u8 list) \<Rightarrow> (nat \<Rightarrow> nat) \<Rightarrow> bool" where
  "cl_view st B V R \<longleftrightarrow> (\<exists>Q fs. cl_ok st Q fs \<and> V = (\<lambda>p. ctext st (Q p)) \<and> R = (\<lambda>p. croom st (Q p) fs) \<and>
     B = set fs \<union> (\<Union>p. set (Q p)))"

text \<open>The same blocks, the text of queue \<open>p\<close> replaced, and \<open>r\<close> the room it has now.\<close>

definition cl_next :: "clst \<Rightarrow> nat set \<Rightarrow> (nat \<Rightarrow> u8 list) \<Rightarrow> nat \<Rightarrow> nat \<Rightarrow> bool" where
  "cl_next st B V p r \<longleftrightarrow> (\<exists>R. cl_view st B V R \<and> R p = r)"

lemma cl_ok_update:
  assumes ok: "cl_ok st Q fs" and new: "chain_ok st' p bs fs'" "c_cc (clists st' p) = int (length (ctext st' bs))"
    and fr: "c_size st' = c_size st" "\<And>b. b \<notin> B \<Longrightarrow> cblk st' b = cblk st b" "\<And>q. q \<noteq> p \<Longrightarrow> clists st' q = clists st q"
    and B: "set bs \<union> set fs' \<subseteq> B" "\<And>q. q \<noteq> p \<Longrightarrow> B \<inter> set (Q q) = {}"
  shows "cl_ok st' (Q(p := bs)) fs'" "(\<lambda>q. ctext st' ((Q(p := bs)) q)) = (\<lambda>q. ctext st (Q q))(p := ctext st' bs)"
proof -
  have same: "cblk st' b = cblk st b" if "q \<noteq> p" "b \<in> set (Q q)" for q b using fr(2) B(2) [OF that(1)] that(2) by blast
  have tx: "ctext st' (Q q) = ctext st (Q q)" if "q \<noteq> p" for q by (rule ctext_cong) (use same that in blast)
  have ch: "chain_ok st' q (Q q) fs'" if q: "q \<noteq> p" for q
  proof -
    have o: "chain_ok st q (Q q) fs" using ok by (simp add: cl_ok_def)
    have "cl_path (cblk st') (c_cf (clists st q)) (Q q)"
      by (rule cl_path_cong [of "cblk st"]) (use o same [OF q] in \<open>auto simp: chain_ok_def\<close>)
    moreover have "set (Q q) \<inter> set fs' = {}" using B(1) B(2) [OF q] by blast
    ultimately show ?thesis using o new(1) same [OF q] fr(1) fr(3) [OF q] by (simp add: chain_ok_def)
  qed
  have "set bs \<inter> set (Q q) = {}" if "q \<noteq> p" for q using B(1) B(2) [OF that] by blast
  then show "cl_ok st' (Q(p := bs)) fs'" using ok new ch tx fr(3) by (auto simp: cl_ok_def)
  show "(\<lambda>q. ctext st' ((Q(p := bs)) q)) = (\<lambda>q. ctext st (Q q))(p := ctext st' bs)" using tx by (auto simp: fun_eq_iff)
qed

text \<open>An operation on \<open>p\<close> in terms of its chain, with the count set right afterwards.\<close>

lemma cl_view_step:
  assumes ok: "cl_ok st Q fs" and new: "chain_ok st1 p bs fs'" "only_blocks p (set (Q p) \<union> set fs) st st1"
    "set bs \<union> set fs' = set (Q p) \<union> set fs"
    and st': "cblk st' = cblk st1" "cfreelist st' = cfreelist st1" "c_size st' = c_size st1"
      "clists st' = (clists st1)(p := (clists st1 p)\<lparr>c_cc := int (length (ctext st1 bs))\<rparr>)"
  shows "cl_ok st' (Q(p := bs)) fs'"
    "cl_next st' (set fs \<union> (\<Union>p. set (Q p))) ((\<lambda>q. ctext st (Q q))(p := ctext st1 bs)) p (croom st1 bs fs')"
proof -
  have tx: "ctext st' bs = ctext st1 bs" by (simp add: ctext_def st')
  have ch: "chain_ok st' p bs fs'" using new(1) by (simp add: chain_ok_def st')
  have B: "(set (Q p) \<union> set fs) \<inter> set (Q q) = {}" if "q \<noteq> p" for q
  proof -
    have "chain_ok st q (Q q) fs" "set (Q p) \<inter> set (Q q) = {}" using ok that unfolding cl_ok_def by metis+
    then show ?thesis by (auto simp: chain_ok_def)
  qed
  have "c_size st' = c_size st" "\<And>b. b \<notin> set (Q p) \<union> set fs \<Longrightarrow> cblk st' b = cblk st b" "\<And>q. q \<noteq> p \<Longrightarrow> clists st' q = clists st q"
    using new(2) by (simp_all add: only_blocks_def st')
  note u = cl_ok_update [OF ok ch _ this equalityD1 [OF new(3)] B]
  show "cl_ok st' (Q(p := bs)) fs'" by (rule u(1)) (simp_all add: st' tx)
  moreover have "(\<lambda>q. ctext st' ((Q(p := bs)) q)) = (\<lambda>q. ctext st (Q q))(p := ctext st' bs)" by (rule u(2)) (simp_all add: st' tx)
  moreover have "set fs \<union> (\<Union>p. set (Q p)) = set fs' \<union> (\<Union>q. set ((Q(p := bs)) q))"
    using new(3) by (auto split: if_splits) (metis UnCI UnE)+
  moreover have "croom st1 bs fs' = croom st' ((Q(p := bs)) p) fs'" by (simp add: croom_def st')
  ultimately show "cl_next st' (set fs \<union> (\<Union>p. set (Q p))) ((\<lambda>q. ctext st (Q q))(p := ctext st1 bs)) p (croom st1 bs fs')"
    unfolding cl_next_def cl_view_def tx by metis
qed

section \<open>The operations on what the queues say\<close>

lemma getc_view:
  assumes v: "cl_view st B V R" and r: "getc p st = (r, st')"
  shows "case V p of [] \<Rightarrow> r = -1 \<and> st' = st | c # cs \<Rightarrow> r = uint c \<and> (\<exists>m. cl_next st' B (V(p := cs)) p m)"
proof -
  obtain Q fs where ok: "cl_ok st Q fs" and V: "V = (\<lambda>p. ctext st (Q p))" and B: "B = set fs \<union> (\<Union>p. set (Q p))"
    using v by (auto simp: cl_view_def)
  have ch: "chain_ok st p (Q p) fs" and cc: "c_cc (clists st p) = int (length (ctext st (Q p)))" using ok by (simp_all add: cl_ok_def)
  show ?thesis
  proof (cases "Q p")
    case Nil
    then show ?thesis using r cc by (simp add: V getc_def)
  next
    case (Cons b bs)
    note c1 = ch [unfolded Cons]
    note hd = chain_head [OF c1]
    let ?x = "cblk st b"
    obtain c cs where bt: "btxt ?x = c # cs" using hd(3) by (cases "btxt ?x") auto
    have f: "c_first ?x < c_last ?x" "c_last ?x \<le> length (c_data ?x)" using hd(2) by (auto simp: good_block_def)
    have c: "c = c_data ?x ! c_first ?x"
    proof -
      have "btxt ?x ! 0 = c_data ?x ! c_first ?x" using f by (simp add: btxt_def)
      then show ?thesis by (simp add: bt)
    qed
    have lc: "length cs + 1 = c_last ?x - c_first ?x" using hd(4) bt by simp
    have V1: "V p = c # (cs @ ctext st bs)" by (simp add: V Cons bt)
    define u where "u = upd_cblk b (\<lambda>x. x\<lparr>c_first := c_first x + 1\<rparr>) (upd_clist p (\<lambda>q. q\<lparr>c_cc := c_cc q - 1\<rparr>) st)"
    have pos: "c_cc (clists st p) > 0" using cc by (simp add: Cons bt)
    have r': "r = uint c" "st' = (if c_first ?x + 1 = c_last ?x then wake_free (put_free b (drop_head p b u)) else u)"
      using r pos hd(1) by (auto simp: getc_def Let_def u_def c split: if_splits)
    have "\<exists>st1 bs' fs'. chain_ok st1 p bs' fs' \<and> only_blocks p (set (Q p) \<union> set fs) st st1 \<and> set bs' \<union> set fs' = set (Q p) \<union> set fs \<and>
      ctext st1 bs' = cs @ ctext st bs \<and> cblk st' = cblk st1 \<and> cfreelist st' = cfreelist st1 \<and> c_size st' = c_size st1 \<and>
      clists st' = (clists st1)(p := (clists st1 p)\<lparr>c_cc := c_cc (clists st p) - 1\<rparr>)"
    proof (cases "c_first ?x + 1 = c_last ?x")
      case True
      define st1 where "st1 = put_free b (drop_head p b (upd_cblk b (\<lambda>x. x\<lparr>c_first := c_first ?x + 1\<rparr>) st))"
      note d = drop_free_spec [OF c1 st1_def]
      have "length cs = 0" using lc True by linarith
      then have "cs = []" by simp
      moreover have "only_blocks p (set (Q p) \<union> set fs) st st1" using d(3) Cons by (auto simp: only_blocks_def)
      moreover have "cblk st' = cblk st1 \<and> cfreelist st' = cfreelist st1 \<and> c_size st' = c_size st1 \<and>
          clists st' = (clists st1)(p := (clists st1 p)\<lparr>c_cc := c_cc (clists st p) - 1\<rparr>)"
        using True by (auto simp: r' st1_def u_def put_free_def drop_head_def Let_def fun_eq_iff)
      ultimately show ?thesis using d(1,2) Cons by (intro exI [of _ st1] exI [of _ bs] exI [of _ "b # fs"]) auto
    next
      case False
      define st1 where "st1 = upd_cblk b (\<lambda>x. x\<lparr>c_first := c_first x + 1\<rparr>) st"
      have "1 < length (btxt ?x)" using False f hd(4) by simp
      note d = advance_spec [OF c1 this st1_def]
      have "only_blocks p (set (Q p) \<union> set fs) st st1" using d(3) Cons by (auto simp: only_blocks_def)
      moreover have "cblk st' = cblk st1 \<and> cfreelist st' = cfreelist st1 \<and> c_size st' = c_size st1 \<and>
          clists st' = (clists st1)(p := (clists st1 p)\<lparr>c_cc := c_cc (clists st p) - 1\<rparr>)"
        using False by (simp add: r' st1_def u_def)
      ultimately show ?thesis using d(1,2) Cons bt by (intro exI [of _ st1] exI [of _ "b # bs"] exI [of _ fs]) auto
    qed
    then obtain st1 bs' fs' where n: "chain_ok st1 p bs' fs'" "only_blocks p (set (Q p) \<union> set fs) st st1"
      "set bs' \<union> set fs' = set (Q p) \<union> set fs" "ctext st1 bs' = cs @ ctext st bs" "cblk st' = cblk st1" "cfreelist st' = cfreelist st1"
      "c_size st' = c_size st1" "clists st' = (clists st1)(p := (clists st1 p)\<lparr>c_cc := c_cc (clists st p) - 1\<rparr>)" by blast
    have "c_cc (clists st p) - 1 = int (length (ctext st1 bs'))" using cc n(4) by (simp add: Cons bt)
    from cl_view_step(2) [OF ok n(1-3,5-7)] n(8) this have "cl_next st' B (V(p := cs @ ctext st bs)) p (croom st1 bs' fs')"
      by (simp add: V B n(4))
    then show ?thesis by (auto simp: V1 r')
  qed
qed

lemma getcbp_view:
  assumes v: "cl_view st B V R"
  shows "\<exists>st' m. getcbp p n st = Some (take n (V p), st') \<and> cl_next st' B (V(p := drop n (V p))) p m"
proof -
  obtain Q fs where ok: "cl_ok st Q fs" and V: "V = (\<lambda>p. ctext st (Q p))" and B: "B = set fs \<union> (\<Union>p. set (Q p))"
    using v by (auto simp: cl_view_def)
  have ch: "chain_ok st p (Q p) fs" and cc: "c_cc (clists st p) = int (length (ctext st (Q p)))" using ok by (simp_all add: cl_ok_def)
  obtain st1 bs fs' where l: "getcbp_loop p n [] st = Some (take n (ctext st (Q p)), st1)" "chain_ok st1 p bs fs'"
    "ctext st1 bs = drop n (ctext st (Q p))" "only_blocks p (set (Q p) \<union> set fs) st st1" "set bs \<union> set fs' = set (Q p) \<union> set fs"
    using getcbp_loop_spec [OF ch, of n "[]"] by auto
  let ?st = "upd_clist p (\<lambda>q. q\<lparr>c_cc := c_cc q - int (length (take n (ctext st (Q p))))\<rparr>) st1"
  have "c_cc (clists st1 p) - int (length (take n (ctext st (Q p)))) = int (length (ctext st1 bs))"
    using l(3,4) cc by (simp add: only_blocks_def of_nat_diff min_def)
  then have "cl_next ?st (set fs \<union> (\<Union>p. set (Q p))) ((\<lambda>q. ctext st (Q q))(p := ctext st1 bs)) p (croom st1 bs fs')"
    by (intro cl_view_step(2) [OF ok l(2,4,5)]) simp_all
  then show ?thesis using l(1,3) by (auto simp: getcbp_def V B)
qed

lemma putcbp_view:
  assumes v: "cl_view st B V R"
  shows "\<exists>st'. putcbp p cs st = Some (min (length cs) (R p), st') \<and> cl_next st' B (V(p := V p @ take (R p) cs)) p (R p - length cs)"
proof -
  obtain Q fs where ok: "cl_ok st Q fs" and V: "V = (\<lambda>p. ctext st (Q p))" and B: "B = set fs \<union> (\<Union>p. set (Q p))"
    and R: "R = (\<lambda>p. croom st (Q p) fs)" using v by (auto simp: cl_view_def)
  have ch: "chain_ok st p (Q p) fs" and cc: "c_cc (clists st p) = int (length (ctext st (Q p)))" using ok by (simp_all add: cl_ok_def)
  let ?r = "croom st (Q p) fs"
  let ?k = "min (length cs) ?r"
  obtain st1 bs fs' where l: "putcbp_loop p cs 0 st = Some (?k, st1)" "chain_ok st1 p bs fs'"
    "ctext st1 bs = ctext st (Q p) @ take ?r cs" "only_blocks p (set (Q p) \<union> set fs) st st1" "set bs \<union> set fs' = set (Q p) \<union> set fs"
    "croom st1 bs fs' = ?r - length cs"
    using putcbp_loop_spec [OF ch, of cs 0] by auto
  let ?st = "upd_clist p (\<lambda>q. q\<lparr>c_cc := c_cc q + int ?k\<rparr>) st1"
  have n: "c_cc (clists st1 p) + int ?k = int (length (ctext st1 bs))" using l(3,4) cc by (simp add: only_blocks_def)
  have "cl_next ?st (set fs \<union> (\<Union>p. set (Q p))) ((\<lambda>q. ctext st (Q q))(p := ctext st1 bs)) p (croom st1 bs fs')"
    by (rule cl_view_step(2) [OF ok l(2,4,5)]) (simp_all add: n)
  then show ?thesis using l(1,3,6) by (simp add: putcbp_def V B R)
qed

text \<open>\<open>putc\<close> is \<open>putcbp\<close> of one character.\<close>

lemma putc_view:
  assumes v: "cl_view st B V R" and r: "putc c p st = (r, st')"
  shows "if R p = 0 then r = -1 \<and> st' = st else r = 0 \<and> cl_next st' B (V(p := V p @ [c])) p (R p - 1)"
proof -
  obtain Q fs where ok: "cl_ok st Q fs" and V: "V = (\<lambda>p. ctext st (Q p))" and B: "B = set fs \<union> (\<Union>p. set (Q p))"
    and R: "R = (\<lambda>p. croom st (Q p) fs)" using v by (auto simp: cl_view_def)
  have ch: "chain_ok st p (Q p) fs" and cc: "c_cc (clists st p) = int (length (ctext st (Q p)))" using ok by (simp_all add: cl_ok_def)
  show ?thesis
  proof (cases "open_tail p st")
    case None
    then show ?thesis using r open_tail_none [OF ch] by (simp add: putc_def R)
  next
    case (Some bs)
    obtain b st1 where op: "open_tail p st = Some (b, st1)" using Some by (cases bs) auto
    let ?s = "upd_cblk b (store [c]) st1"
    have "length [c] \<le> c_size st1 - c_last (cblk st1 b)"
    proof (cases "open_tail p st = new_tail p st")
      case True
      then have "c_last (cblk st1 b) = 0 \<and> c_size st1 = c_size st"
        using op ch by (auto simp: new_tail_def chain_ok_def Let_def split: option.splits)
      then show ?thesis using ch by (simp add: chain_ok_def)
    next
      case False
      then have "st1 = st" "c_last (cblk st b) \<noteq> c_size st" "b \<in> set (Q p)"
        using op ch by (auto simp: open_tail_def chain_ok_def split: if_splits option.splits)
      then show ?thesis using ch by (auto simp: chain_ok_def good_block_def)
    qed
    from append_spec [OF ch op _ this refl] obtain bs' fs' where a: "chain_ok ?s p bs' fs'" "ctext ?s bs' = ctext st (Q p) @ [c]"
      "only_blocks p (set (Q p) \<union> set fs) st ?s" "set bs' \<union> set fs' = set (Q p) \<union> set fs" "croom ?s bs' fs' + 1 = R p" by (auto simp: R)
    have st': "r = 0" "st' = upd_clist p (\<lambda>q. q\<lparr>c_cc := c_cc q + 1\<rparr>) ?s" using r op by (simp_all add: putc_def)
    have n: "c_cc (clists ?s p) + 1 = int (length (ctext ?s bs'))" using a(2,3) cc by (simp add: only_blocks_def del: cl_upd_simps)
    have "cl_next st' (set fs \<union> (\<Union>p. set (Q p))) ((\<lambda>q. ctext st (Q q))(p := ctext ?s bs')) p (croom ?s bs' fs')"
      by (rule cl_view_step(2) [OF ok a(1,3,4)]) (use n in \<open>simp_all add: st'\<close>)
    moreover have "croom ?s bs' fs' = R p - 1" using a(5) by simp
    ultimately show ?thesis using a(2,5) st'(1) by (simp add: V B)
  qed
qed

section \<open>Whole blocks\<close>

text \<open>A block that is in no queue and not free belongs to whoever took it.\<close>

definition taken_out :: "(nat \<Rightarrow> nat list) \<Rightarrow> nat list \<Rightarrow> nat \<Rightarrow> bool" where
  "taken_out Q fs b \<longleftrightarrow> b \<notin> set fs \<and> (\<forall>p. b \<notin> set (Q p))"

lemma cl_okD: "cl_ok st Q fs \<Longrightarrow> chain_ok st p (Q p) fs" "cl_ok st Q fs \<Longrightarrow> c_cc (clists st p) = int (length (ctext st (Q p)))"
  "cl_ok st Q fs \<Longrightarrow> q \<noteq> p \<Longrightarrow> (set (Q p) \<union> set fs) \<inter> set (Q q) = {}"
proof -
  assume ok: "cl_ok st Q fs"
  then show "chain_ok st p (Q p) fs" "c_cc (clists st p) = int (length (ctext st (Q p)))" by (simp_all add: cl_ok_def)
  assume "q \<noteq> p"
  then have "chain_ok st q (Q q) fs" "set (Q p) \<inter> set (Q q) = {}" using ok unfolding cl_ok_def by metis+
  then show "(set (Q p) \<union> set fs) \<inter> set (Q q) = {}" by (auto simp: chain_ok_def)
qed

lemma getcb_spec:
  assumes ok: "cl_ok st Q fs"
  shows "case Q p of [] \<Rightarrow> getcb p st = (None, st)
    | b # bs \<Rightarrow> \<exists>st'. getcb p st = (Some b, st') \<and> cl_ok st' (Q(p := bs)) fs \<and> taken_out (Q(p := bs)) fs b \<and>
        btxt (cblk st' b) @ ctext st' bs = ctext st (Q p)"
proof (cases "Q p")
  case Nil
  then show ?thesis using cl_okD(1) [OF ok, of p] by (simp add: getcb_def chain_ok_def)
next
  case (Cons b bs)
  have c1: "chain_ok st p (b # bs) fs" using cl_okD(1) [OF ok, of p] Cons by simp
  note hd = chain_head [OF c1]
  define st' where "st' = snd (getcb p st)"
  have run: "getcb p st = (Some b, st')" using hd(1) by (simp add: st'_def getcb_def)
  have blk: "cblk st' = cblk st" "cfreelist st' = cfreelist st" "c_size st' = c_size st" "\<And>q. q \<noteq> p \<Longrightarrow> clists st' q = clists st q"
    using hd(1) by (simp_all add: st'_def getcb_def drop_head_def Let_def)
  have tx: "ctext st' bs = ctext st bs" by (simp add: ctext_def blk)
  have cl: "clists st' p = (let n = c_next (cblk st b); c = c_cc (clists st p) - int (length (btxt (cblk st b)))
      in if n = None then (clists st p)\<lparr>c_cc := c, c_cf := n, c_cl := None\<rparr> else (clists st p)\<lparr>c_cc := c, c_cf := n\<rparr>)"
    using hd(1,2,4) by (simp add: st'_def getcb_def drop_head_def Let_def good_block_def of_nat_diff)
  have "c_next (cblk st b) = None \<longleftrightarrow> bs = []" using c1 by (cases bs) (auto simp: chain_ok_def)
  then have ch: "chain_ok st' p bs fs" using c1 by (auto simp: chain_ok_def blk cl Let_def)
  have cc: "c_cc (clists st' p) = int (length (ctext st' bs))" using cl_okD(2) [OF ok, of p] by (simp add: cl Let_def tx Cons)
  have "cl_ok st' (Q(p := bs)) fs"
  proof (rule cl_ok_update(1) [OF ok ch cc blk(3) _ blk(4), where B = "set (Q p) \<union> set fs"])
    show "(set (Q p) \<union> set fs) \<inter> set (Q q) = {}" if "q \<noteq> p" for q by (rule cl_okD(3) [OF ok that])
  qed (use blk(1) Cons in auto)
  moreover have "taken_out (Q(p := bs)) fs b"
  proof -
    have "b \<notin> set (Q q)" if "q \<noteq> p" for q using cl_okD(3) [OF ok that] Cons by auto
    then show ?thesis using c1 by (auto simp: taken_out_def chain_ok_def)
  qed
  ultimately show ?thesis using run Cons tx by (simp add: blk)
qed

lemma putcb_spec:
  assumes ok: "cl_ok st Q fs" and b: "taken_out Q fs b" "good_block (c_size st) (cblk st b)"
  shows "cl_ok (putcb b p st) (Q(p := Q p @ [b])) fs" "ctext (putcb b p st) (Q p @ [b]) = ctext st (Q p) @ btxt (cblk st b)"
proof -
  note c1 = cl_okD(1) [OF ok, of p]
  let ?bs = "Q p" and ?s = "putcb b p st"
  have nb: "b \<notin> set ?bs" "b \<notin> set fs" "\<And>q. b \<notin> set (Q q)" using b(1) by (auto simp: taken_out_def)
  have cl: "c_cl (clists st p) = (if ?bs = [] then None else Some (last ?bs))" using c1 by (simp add: chain_ok_def)
  have lb: "?bs \<noteq> [] \<Longrightarrow> last ?bs \<noteq> b" "?bs \<noteq> [] \<Longrightarrow> last ?bs \<notin> set fs"
  proof -
    show "last ?bs \<noteq> b" if "?bs \<noteq> []" using nb(1) last_in_set [OF that] by metis
    have "set ?bs \<inter> set fs = {}" using c1 by (simp add: chain_ok_def)
    then show "last ?bs \<notin> set fs" if "?bs \<noteq> []" using last_in_set [OF that] by blast
  qed
  have blk: "cblk ?s a = (if a = b then (cblk st b)\<lparr>c_next := None\<rparr> else if ?bs \<noteq> [] \<and> a = last ?bs then (cblk st a)\<lparr>c_next := Some b\<rparr> else cblk st a)" for a
    using lb(1) cl by (auto simp: putcb_def Let_def)
  have s: "c_size ?s = c_size st" "cfreelist ?s = cfreelist st" "c_cf (clists ?s p) = (if ?bs = [] then Some b else c_cf (clists st p))"
    "c_cl (clists ?s p) = Some b" "c_cc (clists ?s p) = c_cc (clists st p) + int (length (btxt (cblk st b)))"
    "\<And>q. q \<noteq> p \<Longrightarrow> clists ?s q = clists st q"
    using cl b(2) by (auto simp: putcb_def Let_def btxt_def good_block_def of_nat_diff split: if_splits)
  have path: "cl_path (cblk ?s) (c_cf (clists ?s p)) (?bs @ [b])"
  proof (cases "?bs = []")
    case False
    have "cl_path (cblk st) (c_cf (clists st p)) ?bs" "distinct ?bs" using c1 by (simp_all add: chain_ok_def)
    moreover have "c_next (cblk ?s a) = (if a = last ?bs then Some b else c_next (cblk st a))" if "a \<in> set ?bs" for a
      using that nb(1) False by (auto simp: blk)
    moreover have "c_next (cblk ?s b) = None" by (simp add: blk)
    ultimately have "cl_path (cblk ?s) (c_cf (clists st p)) (?bs @ [b])" using False nb(1) by (intro cl_path_snoc)
    then show ?thesis using False by (simp add: s)
  qed (simp add: s blk)
  have fpath: "cl_path (cblk ?s) (cfreelist ?s) fs" unfolding s
    by (rule cl_path_cong [of "cblk st"]) (use c1 nb(2) lb in \<open>auto simp: chain_ok_def blk\<close>)
  have ch: "chain_ok ?s p (?bs @ [b]) fs"
    using c1 b(2) nb path fpath unfolding chain_ok_def by (auto simp: s blk good_block_def)
  have bt: "btxt (cblk ?s a) = btxt (cblk st a)" for a by (simp add: blk btxt_def)
  then have "ctext ?s xs = ctext st xs" for xs by (simp add: ctext_def)
  then show tx: "ctext ?s (?bs @ [b]) = ctext st ?bs @ btxt (cblk st b)" using bt [of b] by simp
  show "cl_ok ?s (Q(p := ?bs @ [b])) fs"
  proof (rule cl_ok_update(1) [OF ok ch _ s(1) _ s(6), where B = "set ?bs \<union> set fs \<union> {b}"])
    show "c_cc (clists ?s p) = int (length (ctext ?s (?bs @ [b])))" unfolding tx using cl_okD(2) [OF ok, of p] by (simp add: s(5))
    show "(set ?bs \<union> set fs \<union> {b}) \<inter> set (Q q) = {}" if "q \<noteq> p" for q using cl_okD(3) [OF ok that] nb(3) by auto
  qed (use blk in auto)
qed

lemma putcf_spec:
  assumes ok: "cl_ok st Q fs" and b: "taken_out Q fs b" "length (c_data (cblk st b)) = c_size st"
  shows "cl_ok (putcf b st) Q (b # fs)" "ctext (putcf b st) (Q p) = ctext st (Q p)"
proof -
  have nb: "b \<notin> set fs" "\<And>q. b \<notin> set (Q q)" using b(1) by (auto simp: taken_out_def)
  have s: "c_size (putcf b st) = c_size st" "cfreelist (putcf b st) = Some b" "clists (putcf b st) = clists st"
    "\<And>a. cblk (putcf b st) a = (if a = b then (cblk st b)\<lparr>c_next := cfreelist st\<rparr> else cblk st a)"
    by (simp_all add: putcf_def put_free_def)
  have tx: "ctext (putcf b st) (Q q) = ctext st (Q q)" for q by (rule ctext_cong) (use nb in \<open>auto simp: s\<close>)
  then show "ctext (putcf b st) (Q p) = ctext st (Q p)" .
  have "chain_ok (putcf b st) q (Q q) (b # fs)" for q
  proof -
    note c = cl_okD(1) [OF ok, of q]
    have "cl_path (cblk (putcf b st)) (c_cf (clists st q)) (Q q)" "cl_path (cblk (putcf b st)) (cfreelist st) fs"
      by (rule cl_path_cong [of "cblk st"]; use c nb in \<open>auto simp: chain_ok_def s\<close>)+
    then show ?thesis using c nb b(2) by (auto simp: chain_ok_def s)
  qed
  then show "cl_ok (putcf b st) Q (b # fs)" using ok tx by (simp add: cl_ok_def s)
qed

lemma getcf_spec:
  assumes ok: "cl_ok st Q fs"
  shows "case fs of [] \<Rightarrow> getcf st = (None, st)
    | b # fs' \<Rightarrow> \<exists>st'. getcf st = (Some b, st') \<and> cl_ok st' Q fs' \<and> taken_out Q fs' b \<and> c_first (cblk st' b) = 0 \<and> c_last (cblk st' b) = c_size st \<and>
        (\<forall>p. ctext st' (Q p) = ctext st (Q p))"
proof (cases fs)
  case Nil
  then show ?thesis using cl_okD(1) [OF ok, of 0] by (simp add: getcf_def chain_ok_def)
next
  case (Cons b fs')
  define st' where "st' = snd (getcf st)"
  have f: "cfreelist st = Some b" using cl_okD(1) [OF ok, of 0] Cons by (simp add: chain_ok_def)
  then have run: "getcf st = (Some b, st')" by (simp add: st'_def getcf_def)
  have s: "c_size st' = c_size st" "cfreelist st' = c_next (cblk st b)" "clists st' = clists st"
    "\<And>a. cblk st' a = (if a = b then (cblk st b)\<lparr>c_next := None, c_first := 0, c_last := c_size st\<rparr> else cblk st a)"
    using f by (simp_all add: st'_def getcf_def)
  have nb: "b \<notin> set fs'" "\<And>q. b \<notin> set (Q q)" using cl_okD(1) [OF ok] Cons by (auto simp: chain_ok_def)
  have tx: "ctext st' (Q q) = ctext st (Q q)" for q by (rule ctext_cong) (use nb in \<open>auto simp: s\<close>)
  have "chain_ok st' q (Q q) fs'" for q
  proof -
    note c = cl_okD(1) [OF ok, of q]
    have "cl_path (cblk st') (c_cf (clists st q)) (Q q)" "cl_path (cblk st') (c_next (cblk st b)) fs'"
      by (rule cl_path_cong [of "cblk st"]; use c nb Cons in \<open>auto simp: chain_ok_def s\<close>)+
    then show ?thesis using c nb Cons by (auto simp: chain_ok_def s)
  qed
  then have "cl_ok st' Q fs'" using ok tx by (simp add: cl_ok_def s)
  then show ?thesis using run Cons nb tx by (simp add: taken_out_def s)
qed

section \<open>The initial state\<close>

lemma cinit_loop_spec:
  assumes "distinct (ns @ fs)" "cl_path (cblk st) (cfreelist st) fs"
  shows "let gs = rev (filter (\<lambda>n. addr n + int CLSIZE \<le> nextbound (addr n)) ns) @ fs; st' = cinit_loop addr ns st
    in cl_path (cblk st') (cfreelist st') gs \<and> cfreecnt st' = cfreecnt st + int (length gs - length fs) \<and> clists st' = clists st \<and>
       (\<forall>b. c_data (cblk st' b) = c_data (cblk st b))"
  using assms
proof (induction ns arbitrary: st fs)
  case (Cons n ns)
  show ?case
  proof (cases "addr n + int CLSIZE \<le> nextbound (addr n)")
    case True
    define m where "m = (put_free n st)\<lparr>cfreecnt := cfreecnt st + 1\<rparr>"
    have p: "cl_path (cblk m) (cfreelist m) (n # fs)"
    proof -
      have "cl_path (cblk m) (cfreelist st) fs"
        by (rule cl_path_cong [of "cblk st"]) (use Cons.prems in \<open>auto simp: m_def put_free_def\<close>)
      then show ?thesis by (simp add: m_def put_free_def)
    qed
    have f: "clists m = clists st" "\<And>b. c_data (cblk m b) = c_data (cblk st b)" "cfreecnt m = cfreecnt st + 1" by (simp_all add: m_def put_free_def)
    have "distinct (ns @ n # fs)" using Cons.prems(1) by auto
    from Cons.IH [OF this p] show ?thesis using True f by (simp add: m_def [symmetric] Let_def)
  next
    case False
    then show ?thesis using Cons.IH [of fs st] Cons.prems by (simp add: Let_def)
  qed
qed (simp add: Let_def)

lemma cinit_ok:
  assumes "cfreelist st = None" "\<And>p. clists st p = \<lparr>c_cc = 0, c_cf = None, c_cl = None\<rparr>" "\<And>b. length (c_data (cblk st b)) = CLSIZE"
  shows "\<exists>fs. cl_ok (cinit addr v st) (\<lambda>p. []) fs \<and> set fs = {n. n < v \<and> addr n + int CLSIZE \<le> nextbound (addr n)}"
proof -
  let ?fs = "rev (filter (\<lambda>n. addr n + int CLSIZE \<le> nextbound (addr n)) [0..<v])"
  have "cl_path (cblk st) (cfreelist st) []" using assms(1) by simp
  from cinit_loop_spec [of "[0..<v]" "[]", OF _ this, of addr]
  have "cl_ok (cinit addr v st) (\<lambda>p. []) ?fs"
    using assms(2,3) by (simp add: cl_ok_def chain_ok_def cinit_def Let_def CLSIZE_def)
  moreover have "set ?fs = {n. n < v \<and> addr n + int CLSIZE \<le> nextbound (addr n)}" by auto
  ultimately show ?thesis by blast
qed

text \<open>Two blocks, both usable, and no characters.\<close>

definition clst0 :: "clst" where
  "clst0 = cinit (\<lambda>n. 100 * int n) 2 \<lparr>cblk = (\<lambda>b. \<lparr>c_next = None, c_first = 0, c_last = 0, c_data = replicate 64 0\<rparr>),
     clists = (\<lambda>p. \<lparr>c_cc = 0, c_cf = None, c_cl = None\<rparr>), cfreelist = None, c_size = 0, c_flag = False, cfreecnt = 0, cwakeups = 0\<rparr>"

lemma clst0_view: "cl_view clst0 {0, 1} (\<lambda>p. []) (\<lambda>p. 128)"
proof -
  obtain fs where fs: "cl_ok clst0 (\<lambda>p. []) fs" "set fs = {n. n < 2 \<and> 100 * int n + int CLSIZE \<le> nextbound (100 * int n)}"
    unfolding clst0_def
    using cinit_ok [of "\<lparr>cblk = (\<lambda>b. \<lparr>c_next = None, c_first = 0, c_last = 0, c_data = replicate 64 0\<rparr>),
     clists = (\<lambda>p. \<lparr>c_cc = 0, c_cf = None, c_cl = None\<rparr>), cfreelist = None, c_size = 0, c_flag = False, cfreecnt = 0, cwakeups = 0\<rparr>"
     "\<lambda>n. 100 * int n" 2] by (auto simp: CLSIZE_def)
  have b: "set fs = {0, 1}"
  proof -
    have "100 * int n + int CLSIZE \<le> nextbound (100 * int n)" if "n = 0 \<or> n = 1" for n
      using that by (auto simp: nextbound_def CLSIZE_def)
    moreover have "n < 2 \<longleftrightarrow> n = 0 \<or> n = 1" for n :: nat by linarith
    ultimately show ?thesis unfolding fs(2) by blast
  qed
  have "distinct fs" using fs(1) by (simp add: cl_ok_def chain_ok_def)
  then have "length fs = 2" using b distinct_card [of fs] by simp
  moreover have "c_size clst0 = 64" by (simp add: clst0_def cinit_def CLSIZE_def)
  ultimately show ?thesis
    unfolding cl_view_def using fs(1) b by (intro exI [of _ "\<lambda>p. []"] exI [of _ fs]) (simp add: croom_def)
qed

section \<open>The property\<close>

text \<open>
  C16: the queues of characters, whose blocks share one free list, are byte queues that do not disturb
  each other and lose no block: \<open>getc\<close> takes the first character or says -1 on an empty queue;
  \<open>putc\<close> appends one, or says -1 exactly when the last block of the queue is full (or there is none)
  and no block is free; \<open>getcbp\<close> takes as many as there are of those asked for; \<open>putcbp\<close> appends as many as
  the last block and the free blocks have room for; the loops end. The room \<open>R\<close> is counted from the
  blocks, and the blocks in the queues and on the free list are always the same ones, \<open>B\<close>.
\<close>

theorem clists_are_queues:
  assumes "cl_view st B V R"
  shows "(case V p of [] \<Rightarrow> getc p st = (-1, st) | c # cs \<Rightarrow> \<exists>st' m. getc p st = (uint c, st') \<and> cl_next st' B (V(p := cs)) p m) \<and>
    (if R p = 0 then putc ch p st = (-1, st) else \<exists>st'. putc ch p st = (0, st') \<and> cl_next st' B (V(p := V p @ [ch])) p (R p - 1)) \<and>
    (\<exists>st' m. getcbp p n st = Some (take n (V p), st') \<and> cl_next st' B (V(p := drop n (V p))) p m) \<and>
    (\<exists>st'. putcbp p chs st = Some (min (length chs) (R p), st') \<and> cl_next st' B (V(p := V p @ take (R p) chs)) p (R p - length chs))"
proof (intro conjI)
  show "case V p of [] \<Rightarrow> getc p st = (-1, st) | c # cs \<Rightarrow> \<exists>st' m. getc p st = (uint c, st') \<and> cl_next st' B (V(p := cs)) p m"
    using getc_view [OF assms, of p] by (cases "getc p st") (auto split: list.splits)
  show "if R p = 0 then putc ch p st = (-1, st) else \<exists>st'. putc ch p st = (0, st') \<and> cl_next st' B (V(p := V p @ [ch])) p (R p - 1)"
    using putc_view [OF assms, of ch p] by (cases "putc ch p st") auto
qed (rule getcbp_view [OF assms] putcbp_view [OF assms])+

theorem clists_are_queues_witness:
  "\<exists>st1 st2 R. putcbp 3 [65, 66, 67] clst0 = Some (3, st1) \<and> getc 3 st1 = (65, st2) \<and> cl_view st2 {0, 1} ((\<lambda>p. [])(3 := [66, 67])) R"
proof -
  obtain st1 R where p: "putcbp 3 [65, 66, 67] clst0 = Some (3, st1)" "cl_view st1 {0, 1} ((\<lambda>p. [])(3 := [65, 66, 67])) R"
    using clists_are_queues [OF clst0_view, of 3 0 0 "[65, 66, 67]"] by (auto simp: cl_next_def)
  then obtain st2 R' where "getc 3 st1 = (65, st2)" "cl_view st2 {0, 1} ((\<lambda>p. [])(3 := [66, 67])) R'"
    using clists_are_queues [OF p(2), of 3 0 0 "[]"] by (auto simp: cl_next_def)
  then show ?thesis using p(1) by blast
qed

section \<open>A slip\<close>

text \<open>
  \<open>getc\<close> and \<open>putcf\<close> wake those who wait for a free block, \<open>getcbp\<close> does not, though it frees blocks:
  here both take the only character of the only block while someone waits.
\<close>

lemma getcbp_wakes_nobody:
  "let st = (snd (putc 65 3 clst0))\<lparr>c_flag := True\<rparr>
   in cwakeups (snd (getc 3 st)) = 1 \<and> map_option (\<lambda>(cs, st). (cs, cwakeups st, c_flag st, cfreelist st \<noteq> None)) (getcbp 3 1 st) = Some ([65], 0, True, True)"
  by code_simp

end
