(* ===== verification/Spec2Isabelle.thy ===== *)
theory Spec2Isabelle imports Prelude Rmap Bitmap Disp Ipc Sem Sem_Undo Sem_Op Sem_Set Flock Flock_Adj Flock_Set Msg Msg_Inv Msg_Set Strq Strq_Inv Strq_Op Strq_Set Strmb Strmb_Inv Strmb_Copy Strmb_Pull Strmb_Up Strmb_Set Strmb_Ctl Mux Mux_Set Strev Strev_Set Callo Callo_Set Clist Clist_Set begin

text \<open>
  A verification library for the machine-independent core of the System V Release 4 kernel for
  the i386, the C code under \<open>src/usr/src/uts/i386\<close>.  All paths below are relative to that
  directory.

  \<^bold>\<open>The program.\<close>  The kernel hands out units of a resource through resource maps
  (\<open>os/malloc.c\<close>) and keeps sets of small numbers in bit maps (\<open>os/bitmap.c\<close>).  The dispatcher
  (\<open>disp/disp.c\<close>) keeps a queue of runnable processes for each global priority and finds the
  highest queue in use through a bit map.  The System V IPC facilities find and protect their
  objects with common code (\<open>os/ipc.c\<close>, \<open>os/cred.c\<close>): semaphores (\<open>os/sem.c\<close>) take the semaphores
  of a set from the map \<open>semmap\<close>, messages (\<open>os/msg.c\<close>) take segments of a text buffer from the map
  \<open>msgmap\<close>.  Record locks on files (\<open>os/flock.c\<close>) are lists hung on vnodes.  STREAMS modules pass
  messages through queues with priority bands and flow control (\<open>io/stream.c\<close>,
  \<open>os/strsubr.c\<close>), which put service procedures on the run list.  The messages are chains of headers
  over data blocks that count their references; who finds no memory for one leaves a request with
  \<open>bufcall\<close>, which \<open>queuerun\<close> serves when memory comes back.  Drivers that are linked under each other form
  a graph that is searched for cycles before each link.  Functions to be called after a time are kept
  in the callout table, a heap that the clock looks at on every tick (\<open>os/clock.c\<close>).  Terminal drivers
  keep characters in queues of small blocks over one free list (\<open>io/clist.c\<close>).

  \<^bold>\<open>Theories, code and state.\<close>
  \<^item> \<open>Prelude\<close>: the C widths (\<open>u8\<close>, \<open>u16\<close>, \<open>u32\<close>), signed wrap-around (\<open>s16\<close>, \<open>s32\<close>), the error
    numbers of \<open>sys/errno.h\<close>, the collections of hints and generic facts on words and lists.
  \<^item> \<open>Rmap\<close>: \<open>mapinit\<close>, \<open>rmalloc\<close>, \<open>rmfree\<close> of \<open>os/malloc.c\<close> and \<open>sys/map.h\<close>.  The record
    \<open>rmap\<close> is the array of \<open>struct map\<close> with its header slot taken apart into \<open>mapsize\<close> and \<open>mapwant\<close>.
    The locale \<open>extent_allocator\<close> is the contract of a map (disjoint blocks, conservation of units);
    it is interpreted on \<open>rmalloc\<close> and \<open>rmfree\<close>, and \<open>Sem_Set\<close> and \<open>Msg_Inv\<close> rest on the map's laws.
  \<^item> \<open>Bitmap\<close>: \<open>bt_availbit\<close>, \<open>bt_gethighbit\<close>, \<open>bt_range\<close> of \<open>os/bitmap.c\<close>, the macros of
    \<open>sys/bitmap.h\<close> and the tables of \<open>os/bitmasks.c\<close>.  The locale \<open>prio_map\<close> is the contract the
    dispatcher has with its map of active queues, interpreted on the macros and \<open>bt_gethighbit\<close>.
  \<^item> \<open>Disp\<close>: \<open>dispinit\<close>, \<open>setbackdq\<close>, \<open>setfrontdq\<close>, \<open>dispdeq\<close>, \<open>dq_sruninc\<close>, \<open>dq_srundec\<close>,
    \<open>pswtch\<close>, \<open>getcid\<close> of \<open>disp/disp.c\<close>, over the record \<open>disp\<close> of the scheduler's globals and the
    linked processes; the queues are related to one list of processes per priority.
  \<^item> \<open>Ipc\<close>: \<open>ipcaccess\<close> and \<open>ipcget\<close> of \<open>os/ipc.c\<close>, \<open>groupmember\<close> and \<open>suser\<close> of \<open>os/cred.c\<close>.
  \<^item> \<open>Sem\<close>, \<open>Sem_Undo\<close>, \<open>Sem_Op\<close>, \<open>Sem_Set\<close>: every function of \<open>os/sem.c\<close> over the record \<open>semst\<close>
    of its globals (\<open>Sem\<close>); the adjust-on-exit entries as functions from semaphores to adjustments
    (\<open>Sem_Undo\<close>); \<open>semop\<close> (\<open>Sem_Op\<close>); creation, removal, exit and initialisation (\<open>Sem_Set\<close>).
  \<^item> \<open>Flock\<close>, \<open>Flock_Adj\<close>, \<open>Flock_Set\<close>: every function of \<open>os/flock.c\<close> over the record \<open>flk\<close>: the
    locks of each file, the chain of sleepers and the counts of \<open>struct flckinfo\<close> (\<open>Flock\<close>); a list
    of locks as the relation between owners, types and bytes it stands for (\<open>Flock_Adj\<close>); exclusion,
    waiting and deadlock (\<open>Flock_Set\<close>).
  \<^item> \<open>Msg\<close>, \<open>Msg_Inv\<close>, \<open>Msg_Set\<close>: every function of \<open>os/msg.c\<close> over the record \<open>msgst\<close> (\<open>Msg\<close>);
    the invariant and the queues as lists of typed texts (\<open>Msg_Inv\<close>); the system calls (\<open>Msg_Set\<close>).
  \<^item> \<open>Strq\<close>, \<open>Strq_Inv\<close>, \<open>Strq_Op\<close>, \<open>Strq_Set\<close>: the queue half of \<open>io/stream.c\<close> with \<open>allocband\<close>
    and \<open>setqback\<close> of \<open>os/strsubr.c\<close> over the record \<open>strst\<close> (\<open>Strq\<close>); the invariant of one queue
    (\<open>Strq_Inv\<close>), of all queues together (\<open>Strq_Op\<close>), and the contract of a stable priority queue,
    the locale \<open>prio_queue\<close>, interpreted on \<open>putq\<close>, \<open>putbq\<close> and \<open>getq\<close> (\<open>Strq_Set\<close>).
  \<^item> \<open>Strmb\<close>, \<open>Strmb_Inv\<close>, \<open>Strmb_Copy\<close>, \<open>Strmb_Pull\<close>, \<open>Strmb_Up\<close>, \<open>Strmb_Ctl\<close>, \<open>Strmb_Set\<close>: the message
    blocks of \<open>io/stream.c\<close> with \<open>xmsgalloc\<close>, \<open>xmdballoc\<close> and \<open>xmsgsize\<close> of \<open>os/strsubr.c\<close> over the record
    \<open>mbst\<close>, a heap of headers, data blocks and bytes (\<open>Strmb\<close>); the invariant of the pool and freeing
    (\<open>Strmb_Inv\<close>); duplication and copying, whose common contract is the locale \<open>block_dup\<close>, interpreted on
    \<open>DUPB\<close> and \<open>copyb\<close> (\<open>Strmb_Copy\<close>); \<open>adjmsg\<close> (\<open>Strmb_Pull\<close>); \<open>pullupmsg\<close> (\<open>Strmb_Up\<close>); \<open>putctl\<close>, \<open>putctl1\<close>
    and \<open>testb\<close> (\<open>Strmb_Ctl\<close>); linking, sizes and the step relation \<open>mb_step\<close> (\<open>Strmb_Set\<close>).
  \<^item> \<open>Mux\<close>, \<open>Mux_Set\<close>: the table of links and the graph of devices of \<open>os/strsubr.c\<close> (\<open>alloclink\<close>, \<open>lbfree\<close>,
    \<open>findlinks\<close>, \<open>linkcycle\<close>, \<open>mux_addedge\<close>, \<open>mux_rmvedge\<close>) over lists of \<open>mux_node\<close> and the record
    \<open>linkst\<close>; the steps \<open>link_step\<close> of making and undoing links.
  \<^item> \<open>Strev\<close>, \<open>Strev_Set\<close>: \<open>sealloc\<close>, \<open>sefree\<close>, \<open>strunbcall\<close> and the bufcall part of \<open>queuerun\<close> of
    \<open>os/strsubr.c\<close>, \<open>bufcall\<close>, \<open>esbbcall\<close> and \<open>unbufcall\<close> of \<open>io/stream.c\<close>, over the record \<open>sest\<close>; the
    steps \<open>se_step\<close>.
  \<^item> \<open>Callo\<close>, \<open>Callo_Set\<close>: the callout table of \<open>os/clock.c\<close> over the record \<open>callst\<close>; its contract, the
    locale \<open>request_table\<close>, interpreted on \<open>timeout\<close> and \<open>untimeout\<close>; the steps \<open>call_step\<close>.
  \<^item> \<open>Clist\<close>, \<open>Clist_Set\<close>: every function of \<open>io/clist.c\<close> over the record \<open>clst\<close>; the queues as texts
    (\<open>cl_view\<close>), which is the abstract specification the operations implement.
\<close>

text \<open>
  \<^bold>\<open>How the code is read.\<close>  A pointer into an array of structures is an index, a linked chain is a
  list of such indices or the links themselves (\<open>p_link\<close> in \<open>Disp\<close>), a union or macro that aliases
  two fields is one field.  Integers keep their width where the code can wrap; an \<open>int\<close> with \<open>s32\<close> or
  \<open>s16\<close> stands for a signed store.  A function that returns an error number is a \<open>errno option\<close> or a
  sum.  Code outside the modelled files enters as an argument: \<open>copyin\<close> and \<open>copyout\<close>, \<open>VOP_GETATTR\<close>
  and \<open>sleep\<close>, the last as any function of the state that keeps the invariant, so that whatever other
  processes do during the sleep is covered.  Calls of \<open>wakeprocs\<close>, of \<open>freemsg\<close> in \<open>Strq\<close>, of
  \<open>kmem_free\<close> and of the free routines of \<open>esballoc\<close> are logged, the outcomes of \<open>kmem_alloc\<close> and
  \<open>kmem_zalloc\<close> are a list in the state.  Put procedures and the functions of \<open>bufcall\<close> and \<open>timeout\<close> are
  arguments: of a \<open>bufcall\<close> function is asked that it takes no request back (\<open>may_ask\<close>), of a \<open>timeout\<close>
  function that it keeps the table in order (\<open>keeps_calls\<close>); both may make requests again.

  \<^bold>\<open>What the lemmas show.\<close>
  \<^item> Resource maps: a map stays a sorted list of separate extents; allocation and release are removal
    from and union with the set of free units, first fit, and undo each other.
  \<^item> Bit maps and dispatcher: the routines find what they are named for on every map; a queue is the
    list the operations append to, prepend to and remove from; \<open>pswtch\<close> takes the first loaded
    process of the highest queue that has one.
  \<^item> IPC: keys of live objects stay unique, every branch of \<open>ipcget\<close>, the permission bits.
  \<^item> Semaphores: a pass of \<open>semop\<close> that cannot complete changes nothing; one that completes applies
    every operation, keeps values at most \<open>semvmx\<close> and wakes those who can go on; sets have disjoint
    blocks of semaphores, which go back to the map with them; exit applies the adjustments that keep their
    value in range, last to first, and frees them.
  \<^item> Locks: \<open>flckadj\<close> gives the owner exactly the requested bytes and leaves the others' alone; two
    owners never hold conflicting locks, through any sleeps; \<open>blocked\<close> finds a blocking lock if there
    is one; the deadlock test, when no owner sleeps with two requests, ends on acyclic waits, tells who
    waits for whom, and keeps the waits acyclic.
  \<^item> Messages: headers and segments are never shared; sending appends to the list of typed texts;
    receiving, through any sleeps, removes the message its type argument asks for and returns its text.
  \<^item> Queues: messages are served by class and band, in order of arrival within a band; the counts
    and full marks are those of the messages; a writer that was refused is enabled when its queue
    drains; flushing removes what it names and keeps the order of the rest.
  \<^item> Message blocks: the pool stays well formed under every operation (\<open>dupmsg\<close> short of 255 references,
    aligned buffers for the copies, something to pull up for \<open>pullupmsg\<close>); a message is freed exactly once
    and gives each buffer back once; duplicates, copies and pulled up messages read as the original,
    and the operations succeed when the pool has memory enough (\<open>mem_left\<close>); \<open>adjmsg\<close> cuts the text.
  \<^item> Links: \<open>linkcycle\<close> tells reachability and ends on graphs without cycles and stale pointers; the links
    keep the graph free of cycles as long as one is under way at a time, from its search to its edge;
    identifiers are fresh after wrap-around.
  \<^item> Requests for memory: the queue of requests stays well formed and every event is free, in the cache or in
    use; those that fit are served in order and their events freed, though their functions ask again.
  \<^item> Callouts: the table stays a heap through any calls; a request made and cancelled leaves the others;
    the clock asks for service exactly when one is due; the due ones are taken out and then called, the
    earliest first, until none is due.
  \<^item> Character queues: each operation is the one on texts it is meant to be, as far as there is room in the
    blocks, and leaves the other queues alone; blocks are never lost or shared.
  \<^item> Lemmas under the headings of slips show on concrete states where the code does not do what it
    means to: a wrapped reference count, a ring in a message or in the queue of requests, a stale
    pointer, a race of two links.

  \<^bold>\<open>Loops.\<close>  Loops over arrays and lists are structural recursion or a \<open>function\<close> with a measure.  A
  loop that the code does not bound is a \<open>partial_function\<close> in the option monad, \<open>None\<close> for not
  returning: the waits of \<open>semop\<close>, \<open>msgsnd\<close>, \<open>msgrcv\<close> and \<open>reclock\<close>, the walks of \<open>deadflck\<close>, the
  walks along \<open>q_next\<close> for a queue with a service procedure, along \<open>b_cont\<close> and \<open>se_next\<close>, the search
  of \<open>linkcycle\<close>, the choice of a link identifier and the loop of \<open>timein\<close>.  That they return is proved, for calls that may
  not sleep and for links without a cycle.  No fuel is used.

  \<^bold>\<open>Not modelled.\<close>  Page faults inside \<open>copyin\<close> and \<open>copyout\<close> are not points where other processes
  run (\<open>os/msg.c\<close> holds the queue's lock across them); interrupt levels (\<open>spl\<close>) and the preemption
  flag of \<open>wakeprocs\<close> carry no state here.  Of \<open>disp/disp.c\<close>: \<open>preempt\<close>, the calls of the scheduling
  classes and the context switch.  Of \<open>io/stream.c\<close>: the lists of
  blocks in use that only the debugging kernel keeps, \<open>getmid\<close> and \<open>getadmin\<close>.  Of \<open>os/strsubr.c\<close>:
  \<open>munlink\<close> and \<open>munlinkall\<close>, which wait for the answer to an ioctl (their effect on links is a step of
  \<open>link_step\<close>), the calls of service procedures in \<open>queuerun\<close>, and what serves the stream head
  (\<open>os/streamio.c\<close>), which waits for drivers and users.  Of \<open>os/clock.c\<close>: the accounting of \<open>clock\<close>,
  the drift of the time of day, \<open>delay\<close> and \<open>uniqtime\<close>.  Virtual memory, file systems, drivers, traps,
  signals, processes, and the commands and libraries rest on the hardware or on layers that are not
  here.
\<close>

end
